(* ===== verification/Prelude.thy ===== *)
theory Prelude
  imports Main "HOL-Library.Word" "HOL-Library.Monad_Syntax"
begin

text \<open>
  What the components share: the names of the machine types, the conventions for memory and
  for calls that do not return, and generic facts on option computations, lists read through
  a ring index, and words read through a mask.

  A call that does not return normally (a failed \<open>assert\<close>, a read through a null pointer or
  outside an array, a loop that runs forever) is \<open>None\<close>; every other outcome, the error codes
  the functions return included, is a value under \<open>Some\<close>. A pointer is a \<open>nat\<close> address, and
  NULL is \<open>None\<close> of the address's option type.
\<close>

unbundle bit_operations_syntax

section \<open>Machine types\<close>

type_synonym u8 = "8 word"
type_synonym u16 = "16 word"
type_synonym u32 = "32 word"
type_synonym u64 = "64 word"

text \<open>A C \<open>int\<close> kept at its width is a \<open>32 word\<close> read with \<open>sint\<close>.\<close>

type_synonym i32 = "32 word"

section \<open>Collections of facts\<close>

named_theorems mq_simps \<open>unfoldings of the message queue operations\<close>
named_theorems wheel_simps \<open>unfoldings of the timing wheel operations\<close>
named_theorems handle_simps \<open>unfoldings of the handle storage operations\<close>
named_theorems codec_simps \<open>unfoldings of the byte codecs\<close>

section \<open>Cells and arrays\<close>

text \<open>
  An array whose cells may be uninitialised: \<open>cell_get\<close> is \<open>None\<close> outside the array and
  on a cell nothing was stored into.
\<close>

definition cell_get :: "'a option list \<Rightarrow> nat \<Rightarrow> 'a option" where
  "cell_get xs i = (if i < length xs then xs ! i else None)"

definition cell_set :: "'a option list \<Rightarrow> nat \<Rightarrow> 'a \<Rightarrow> 'a option list option" where
  "cell_set xs i x = (if i < length xs then Some (xs[i := Some x]) else None)"

text \<open>\<open>memcpy\<close> of \<open>n\<close> bytes from \<open>b + off\<close>.\<close>

definition mem_read :: "u8 list \<Rightarrow> int \<Rightarrow> int \<Rightarrow> u8 list option" where
  "mem_read b off n =
     (if 0 \<le> off \<and> 0 \<le> n \<and> off + n \<le> int (length b) then Some (take (nat n) (drop (nat off) b)) else None)"

lemma cell_set_Some_iff:
  "cell_set xs i x = Some ys \<longleftrightarrow> i < length xs \<and> ys = xs[i := Some x]"
  by (auto simp: cell_set_def)

lemma cell_get_Some_iff: "cell_get xs i = Some x \<longleftrightarrow> i < length xs \<and> xs ! i = Some x"
  by (auto simp: cell_get_def)

section \<open>Option computations\<close>

lemma bind_eq_Some_iff: "Option.bind m f = Some y \<longleftrightarrow> (\<exists>x. m = Some x \<and> f x = Some y)"
  by (cases m) auto

section \<open>Ring indices\<close>

text \<open>The index after \<open>i\<close> in a ring of \<open>n\<close> cells, as the sources write it.\<close>

lemma ring_succ: "0 < n \<Longrightarrow> i < n \<Longrightarrow> (if n \<le> Suc i then 0 else Suc i) = Suc i mod n"
  by (auto simp: le_Suc_eq)

lemma map_upt_shift: "map f [0..<Suc n] = f 0 # map (\<lambda>i. f (Suc i)) [0..<n]"
  by (simp add: upt_conv_Cons map_Suc_upt[symmetric] comp_def del: upt_Suc)

lemma ring_index_neq:
  fixes h i n c :: nat
  assumes "i < n" "n < c"
  shows "(h + i) mod c \<noteq> (h + n) mod c"
proof
  assume "(h + i) mod c = (h + n) mod c"
  then have "c dvd ((h + n) - (h + i))"
    using assms by (metis add_le_cancel_left less_or_eq_imp_le mod_eq_dvd_iff_nat)
  with assms show False by (auto dest: dvd_imp_le)
qed

section \<open>Words through a mask\<close>

lemma unat_take_bit_mod: "unat (take_bit n (w :: 'a::len word)) = unat w mod 2 ^ n"
  unfolding unsigned_take_bit_eq take_bit_eq_mod[of n "unat w"] ..

lemma unat_and_mask: "unat ((w :: 'a::len word) AND mask n) = unat w mod 2 ^ n"
  by (simp only: take_bit_eq_mask[symmetric] unat_take_bit_mod)

lemma mod_pow_le: "k \<le> m \<Longrightarrow> (x::nat) mod 2 ^ m mod 2 ^ k = x mod 2 ^ k"
  by (rule mod_mod_cancel) (simp add: le_imp_power_dvd)

end
