(* ===== verification/Fifo.thy ===== *)
theory Fifo
  imports Main
begin

text \<open>
  The contract of a first-in first-out queue, for the queues the runtime keeps: operations
  that may abort (\<open>None\<close>), a relation \<open>rep\<close> between a queue and the list it stands for, and a
  condition \<open>ok\<close> under which an element may be pushed. A run of any sequence of operations
  gives exactly the answers of the same run on the list.
\<close>

datatype 'a qop = Push 'a | Pop

fun qspec_run :: "('a \<Rightarrow> 'a list \<Rightarrow> bool) \<Rightarrow> 'a qop list \<Rightarrow> 'a list \<Rightarrow> ('a option list \<times> 'a list) option" where
  "qspec_run ok [] xs = Some ([], xs)"
| "qspec_run ok (Push a # ops) xs = (if ok a xs then qspec_run ok ops (xs @ [a]) else None)"
| "qspec_run ok (Pop # ops) xs =
     (case xs of
        [] \<Rightarrow> map_option (\<lambda>(os, ys). (None # os, ys)) (qspec_run ok ops [])
      | x # xs' \<Rightarrow> map_option (\<lambda>(os, ys). (Some x # os, ys)) (qspec_run ok ops xs'))"

fun qimpl_run :: "('a \<Rightarrow> 'q \<Rightarrow> 'q option) \<Rightarrow> ('q \<Rightarrow> ('a option \<times> 'q) option) \<Rightarrow>
    'a qop list \<Rightarrow> 'q \<Rightarrow> ('a option list \<times> 'q) option" where
  "qimpl_run push pop [] q = Some ([], q)"
| "qimpl_run push pop (Push a # ops) q =
     (case push a q of None \<Rightarrow> None | Some q' \<Rightarrow> qimpl_run push pop ops q')"
| "qimpl_run push pop (Pop # ops) q =
     (case pop q of None \<Rightarrow> None
      | Some (x, q') \<Rightarrow> map_option (\<lambda>(os, r). (x # os, r)) (qimpl_run push pop ops q'))"

locale fifo =
  fixes push :: "'a \<Rightarrow> 'q \<Rightarrow> 'q option"
    and pop :: "'q \<Rightarrow> ('a option \<times> 'q) option"
    and rep :: "'q \<Rightarrow> 'a list \<Rightarrow> bool"
    and ok :: "'a \<Rightarrow> 'a list \<Rightarrow> bool"
  assumes push_rep: "rep q xs \<Longrightarrow> ok a xs \<Longrightarrow> \<exists>q'. push a q = Some q' \<and> rep q' (xs @ [a])"
    and pop_rep_Nil: "rep q [] \<Longrightarrow> \<exists>q'. pop q = Some (None, q') \<and> rep q' []"
    and pop_rep_Cons: "rep q (x # xs) \<Longrightarrow> \<exists>q'. pop q = Some (Some x, q') \<and> rep q' xs"
begin

lemma run_refines:
  assumes "rep q xs" "qspec_run ok ops xs = Some (outs, ys)"
  shows "\<exists>q'. qimpl_run push pop ops q = Some (outs, q') \<and> rep q' ys"
  using assms
proof (induction ops arbitrary: q xs outs)
  case Nil
  then show ?case by simp
next
  case (Cons opn ops)
  show ?case
  proof (cases opn)
    case (Push a)
    with Cons.prems have "ok a xs" and run: "qspec_run ok ops (xs @ [a]) = Some (outs, ys)"
      by (auto split: if_splits)
    with push_rep[OF Cons.prems(1)] obtain q' where "push a q = Some q'" "rep q' (xs @ [a])"
      by blast
    with Cons.IH[OF _ run] Push show ?thesis by simp
  next
    case Pop
    show ?thesis
    proof (cases xs)
      case Nil
      with pop_rep_Nil Cons.prems obtain q' where "pop q = Some (None, q')" "rep q' []" by blast
      with Cons.prems Pop Nil Cons.IH[of q' "[]"] show ?thesis by fastforce
    next
      case (Cons x xs')
      with pop_rep_Cons Cons.prems obtain q' where "pop q = Some (Some x, q')" "rep q' xs'" by blast
      with Cons.prems Pop Cons Cons.IH[of q' xs'] show ?thesis by fastforce
    qed
  qed
qed

lemma push_pop_order:
  assumes "rep q xs" "qspec_run ok (map Push as) xs = Some ([], xs @ as)"
  shows "\<exists>q' q''. qimpl_run push pop (map Push as) q = Some ([], q') \<and>
           qimpl_run push pop (replicate (length (xs @ as)) Pop) q' = Some (map Some (xs @ as), q'')"
proof -
  obtain q' where q': "qimpl_run push pop (map Push as) q = Some ([], q')" "rep q' (xs @ as)"
    using run_refines[OF assms] by blast
  have "qspec_run ok (replicate (length zs) Pop) zs = Some (map Some zs, [])" for zs
    by (induction zs) auto
  from run_refines[OF q'(2) this] q'(1) show ?thesis by blast
qed

end

end
