(* ===== verification/Mq.thy ===== *)
theory Mq
  imports Prelude Fifo
begin

text \<open>
  The message queues of \<open>skynet_mq.c\<close>: one ring buffer of messages per service, doubled when
  it fills, and the global queue, a singly linked list threaded through the queues
  themselves from which the worker threads take the next service to run.

  Every operation holds the lock of the structure it works on, so each is one step on the
  state. The state is an extensible record: later components add their own fields to it and
  call these operations on the larger state.

  The capacity, the positions and the overload threshold are \<open>int\<close>s in the code and unbounded here: doubling
  them overflows once \<open>2 ^ 30\<close> messages of 24 bytes have gathered in one queue (24 GB), and the model is that of the code below.
\<close>

section \<open>Messages and queues\<close>

text \<open>
  The payload of a message: bytes a service sent, the \<open>struct remote_message\<close> that carries a
  message for another node to the harbor service, or the \<open>struct skynet_socket_message\<close> the
  socket thread sends, with the bytes that follow it in its block.
\<close>

record remote_message =
  rm_name :: "u8 list"
  rm_handle :: u32
  rm_message :: "u8 list option"
  rm_sz :: u64

record skynet_socket_message =
  sm_type :: int
  sm_id :: int
  sm_ud :: int
  sm_buffer :: "u8 list option"
  sm_padding :: "u8 list"

datatype msg_payload = Bytes "u8 list" | Remote remote_message | Socket skynet_socket_message

record skynet_message =
  msg_source :: u32
  msg_session :: i32
  msg_data :: "msg_payload option"
  msg_sz :: u64

type_synonym mqid = nat

record message_queue =
  mq_handle :: u32
  mq_cap :: nat
  mq_head :: nat
  mq_tail :: nat
  mq_release :: bool
  mq_in_global :: bool
  mq_overload :: int
  mq_overload_threshold :: int
  mq_queue :: "skynet_message option list"
  mq_next :: "mqid option"

record mq_state =
  mq_heap :: "mqid \<rightharpoonup> message_queue"
  mq_fresh :: mqid
  gq_head :: "mqid option"
  gq_tail :: "mqid option"

definition DEFAULT_QUEUE_SIZE :: nat where "DEFAULT_QUEUE_SIZE = 64"

definition MQ_OVERLOAD :: int where "MQ_OVERLOAD = 1024"

section \<open>The global queue\<close>

definition skynet_globalmq_push ::
  "mqid \<Rightarrow> 'a mq_state_scheme \<Rightarrow> 'a mq_state_scheme option" where
  "skynet_globalmq_push p s = do {
     q \<leftarrow> mq_heap s p;
     if mq_next q \<noteq> None then None
     else (case gq_tail s of
         Some t \<Rightarrow> do {
           tq \<leftarrow> mq_heap s t;
           Some (s\<lparr>mq_heap := (mq_heap s)(t \<mapsto> tq\<lparr>mq_next := Some p\<rparr>), gq_tail := Some p\<rparr>) }
       | None \<Rightarrow> Some (s\<lparr>gq_head := Some p, gq_tail := Some p\<rparr>)) }"

definition skynet_globalmq_pop ::
  "'a mq_state_scheme \<Rightarrow> (mqid option \<times> 'a mq_state_scheme) option" where
  "skynet_globalmq_pop s = (case gq_head s of
       None \<Rightarrow> Some (None, s)
     | Some p \<Rightarrow> do {
         q \<leftarrow> mq_heap s p;
         let s1 = s\<lparr>gq_head := mq_next q\<rparr>;
         s2 \<leftarrow> (if mq_next q = None
                then if gq_tail s1 = Some p then Some (s1\<lparr>gq_tail := None\<rparr>) else None
                else Some s1);
         Some (Some p, s2\<lparr>mq_heap := (mq_heap s2)(p \<mapsto> q\<lparr>mq_next := None\<rparr>)\<rparr>) })"

section \<open>One queue\<close>

definition new_message_queue :: "u32 \<Rightarrow> message_queue" where
  "new_message_queue handle =
     \<lparr>mq_handle = handle, mq_cap = DEFAULT_QUEUE_SIZE, mq_head = 0, mq_tail = 0,
      mq_release = False, mq_in_global = True, mq_overload = 0,
      mq_overload_threshold = MQ_OVERLOAD,
      mq_queue = replicate DEFAULT_QUEUE_SIZE None, mq_next = None\<rparr>"

definition skynet_mq_create :: "u32 \<Rightarrow> 'a mq_state_scheme \<Rightarrow> mqid \<times> 'a mq_state_scheme" where
  "skynet_mq_create handle s =
     (mq_fresh s,
      s\<lparr>mq_heap := (mq_heap s)(mq_fresh s \<mapsto> new_message_queue handle),
        mq_fresh := Suc (mq_fresh s)\<rparr>)"

definition mq_free :: "mqid \<Rightarrow> 'a mq_state_scheme \<Rightarrow> 'a mq_state_scheme option" where
  "mq_free p s = do {
     q \<leftarrow> mq_heap s p;
     if mq_next q \<noteq> None then None else Some (s\<lparr>mq_heap := (mq_heap s)(p := None)\<rparr>) }"

definition skynet_mq_handle :: "mqid \<Rightarrow> 'a mq_state_scheme \<Rightarrow> u32 option" where
  "skynet_mq_handle p s = map_option mq_handle (mq_heap s p)"

definition ring_length :: "message_queue \<Rightarrow> nat" where
  "ring_length q =
     (if mq_head q \<le> mq_tail q then mq_tail q - mq_head q
      else mq_tail q + mq_cap q - mq_head q)"

definition skynet_mq_length :: "mqid \<Rightarrow> 'a mq_state_scheme \<Rightarrow> nat option" where
  "skynet_mq_length p s = map_option ring_length (mq_heap s p)"

definition skynet_mq_overload ::
  "mqid \<Rightarrow> 'a mq_state_scheme \<Rightarrow> (int \<times> 'a mq_state_scheme) option" where
  "skynet_mq_overload p s = do {
     q \<leftarrow> mq_heap s p;
     if mq_overload q \<noteq> 0
     then Some (mq_overload q, s\<lparr>mq_heap := (mq_heap s)(p \<mapsto> q\<lparr>mq_overload := 0\<rparr>)\<rparr>)
     else Some (0, s) }"

text \<open>
  The loop of \<open>skynet_mq_pop\<close> that doubles the threshold until the length is under it. It
  runs forever from a threshold that is not positive, so it is a partial function.
\<close>

partial_function (option) overload_loop ::
  "int \<Rightarrow> message_queue \<Rightarrow> message_queue option" where
  "overload_loop len q =
     (if mq_overload_threshold q < len
      then overload_loop len
             (q\<lparr>mq_overload := len, mq_overload_threshold := mq_overload_threshold q * 2\<rparr>)
      else Some q)"

text \<open>The result is \<open>Some m\<close> where the function returns 0 and stores \<open>m\<close>, \<open>None\<close> where it returns 1.\<close>

definition ring_pop :: "message_queue \<Rightarrow> (skynet_message option \<times> message_queue) option" where
  "ring_pop q =
     (if mq_head q \<noteq> mq_tail q then do {
        m \<leftarrow> cell_get (mq_queue q) (mq_head q);
        let head = (if mq_cap q \<le> Suc (mq_head q) then 0 else Suc (mq_head q));
        let len = int (mq_tail q) - int head;
        let len = (if len < 0 then len + int (mq_cap q) else len);
        q' \<leftarrow> overload_loop len (q\<lparr>mq_head := head\<rparr>);
        Some (Some m, q') }
      else Some (None, q\<lparr>mq_overload_threshold := MQ_OVERLOAD, mq_in_global := False\<rparr>))"

definition skynet_mq_pop ::
  "mqid \<Rightarrow> 'a mq_state_scheme \<Rightarrow> (skynet_message option \<times> 'a mq_state_scheme) option" where
  "skynet_mq_pop p s = do {
     q \<leftarrow> mq_heap s p;
     (m, q') \<leftarrow> ring_pop q;
     Some (m, s\<lparr>mq_heap := (mq_heap s)(p \<mapsto> q')\<rparr>) }"

definition expand_queue :: "message_queue \<Rightarrow> message_queue" where
  "expand_queue q =
     q\<lparr>mq_queue := map (\<lambda>i. mq_queue q ! ((mq_head q + i) mod mq_cap q)) [0..<mq_cap q]
                   @ replicate (mq_cap q) None,
       mq_head := 0, mq_tail := mq_cap q, mq_cap := mq_cap q * 2\<rparr>"

definition ring_push :: "skynet_message \<Rightarrow> message_queue \<Rightarrow> message_queue option" where
  "ring_push m q = do {
     cells \<leftarrow> cell_set (mq_queue q) (mq_tail q) m;
     let tail = (if mq_cap q \<le> Suc (mq_tail q) then 0 else Suc (mq_tail q));
     let q1 = q\<lparr>mq_queue := cells, mq_tail := tail\<rparr>;
     Some (if mq_head q1 = mq_tail q1 then expand_queue q1 else q1) }"

definition skynet_mq_push ::
  "mqid \<Rightarrow> skynet_message \<Rightarrow> 'a mq_state_scheme \<Rightarrow> 'a mq_state_scheme option" where
  "skynet_mq_push p m s = do {
     q \<leftarrow> mq_heap s p;
     q1 \<leftarrow> ring_push m q;
     if mq_in_global q1 then Some (s\<lparr>mq_heap := (mq_heap s)(p \<mapsto> q1)\<rparr>)
     else skynet_globalmq_push p
            (s\<lparr>mq_heap := (mq_heap s)(p \<mapsto> q1\<lparr>mq_in_global := True\<rparr>)\<rparr>) }"

definition skynet_mq_init :: "mq_state" where
  "skynet_mq_init = \<lparr>mq_heap = Map.empty, mq_fresh = 0, gq_head = None, gq_tail = None\<rparr>"

definition skynet_mq_mark_release ::
  "mqid \<Rightarrow> 'a mq_state_scheme \<Rightarrow> 'a mq_state_scheme option" where
  "skynet_mq_mark_release p s = do {
     q \<leftarrow> mq_heap s p;
     if mq_release q then None
     else do {
       let s1 = s\<lparr>mq_heap := (mq_heap s)(p \<mapsto> q\<lparr>mq_release := True\<rparr>)\<rparr>;
       if \<not> mq_in_global q then skynet_globalmq_push p s1 else Some s1 } }"

text \<open>
  \<open>drop_func\<close> is the callback \<open>message_drop\<close>; it may change any part of the state, so
  whether the loop ends depends on it.
\<close>

partial_function (option) drop_queue ::
  "(skynet_message \<Rightarrow> 'a mq_state_scheme \<Rightarrow> 'a mq_state_scheme option) \<Rightarrow>
   mqid \<Rightarrow> 'a mq_state_scheme \<Rightarrow> 'a mq_state_scheme option" where
  "drop_queue drop_func p s = do {
     r \<leftarrow> skynet_mq_pop p s;
     case fst r of
       None \<Rightarrow> mq_free p (snd r)
     | Some m \<Rightarrow> do {
         s' \<leftarrow> drop_func m (snd r);
         drop_queue drop_func p s' } }"

definition skynet_mq_release ::
  "(skynet_message \<Rightarrow> 'a mq_state_scheme \<Rightarrow> 'a mq_state_scheme option) \<Rightarrow>
   mqid \<Rightarrow> 'a mq_state_scheme \<Rightarrow> 'a mq_state_scheme option" where
  "skynet_mq_release drop_func p s = do {
     q \<leftarrow> mq_heap s p;
     if mq_release q then drop_queue drop_func p s
     else skynet_globalmq_push p s }"

section \<open>The ring buffer refines a first-in first-out list\<close>

definition ring_cell :: "message_queue \<Rightarrow> nat \<Rightarrow> skynet_message option" where
  "ring_cell q i = mq_queue q ! ((mq_head q + i) mod mq_cap q)"

definition ring_abs :: "message_queue \<Rightarrow> skynet_message list" where
  "ring_abs q = map (\<lambda>i. the (ring_cell q i)) [0..<ring_length q]"

definition ring_inv :: "message_queue \<Rightarrow> bool" where
  "ring_inv q \<longleftrightarrow>
     mq_head q < mq_cap q \<and> mq_tail q < mq_cap q \<and> length (mq_queue q) = mq_cap q \<and>
     0 < mq_overload_threshold q \<and>
     list_all (\<lambda>i. ring_cell q i \<noteq> None) [0..<ring_length q]"

text \<open>The fields the abstraction does not read.\<close>

lemma ring_length_frame [simp]:
  "ring_length (q\<lparr>mq_next := n\<rparr>) = ring_length q"
  "ring_length (q\<lparr>mq_in_global := g\<rparr>) = ring_length q"
  "ring_length (q\<lparr>mq_release := r\<rparr>) = ring_length q"
  "ring_length (q\<lparr>mq_overload := ov\<rparr>) = ring_length q"
  "ring_length (q\<lparr>mq_overload_threshold := th\<rparr>) = ring_length q"
  by (simp_all add: ring_length_def)

lemma ring_cell_frame [simp]:
  "ring_cell (q\<lparr>mq_next := n\<rparr>) i = ring_cell q i"
  "ring_cell (q\<lparr>mq_in_global := g\<rparr>) i = ring_cell q i"
  "ring_cell (q\<lparr>mq_release := r\<rparr>) i = ring_cell q i"
  "ring_cell (q\<lparr>mq_overload := ov\<rparr>) i = ring_cell q i"
  "ring_cell (q\<lparr>mq_overload_threshold := th\<rparr>) i = ring_cell q i"
  by (simp_all add: ring_cell_def)

lemma ring_frame [simp]:
  "ring_abs (q\<lparr>mq_next := n\<rparr>) = ring_abs q"
  "ring_abs (q\<lparr>mq_in_global := g\<rparr>) = ring_abs q"
  "ring_abs (q\<lparr>mq_release := r\<rparr>) = ring_abs q"
  "ring_abs (q\<lparr>mq_overload := ov\<rparr>) = ring_abs q"
  "ring_abs (q\<lparr>mq_overload_threshold := th\<rparr>) = ring_abs q"
  "ring_inv (q\<lparr>mq_next := n\<rparr>) = ring_inv q"
  "ring_inv (q\<lparr>mq_in_global := g\<rparr>) = ring_inv q"
  "ring_inv (q\<lparr>mq_release := r\<rparr>) = ring_inv q"
  "ring_inv (q\<lparr>mq_overload := ov\<rparr>) = ring_inv q"
  "0 < th \<Longrightarrow> ring_inv q \<Longrightarrow> ring_inv (q\<lparr>mq_overload_threshold := th\<rparr>)"
  by (simp_all add: ring_abs_def ring_inv_def)

lemma ring_length_less: "ring_inv q \<Longrightarrow> ring_length q < mq_cap q"
  by (auto simp: ring_inv_def ring_length_def)

lemma ring_tail_eq: "ring_inv q \<Longrightarrow> mq_tail q = (mq_head q + ring_length q) mod mq_cap q"
  by (auto simp: ring_inv_def ring_length_def)

lemma length_ring_abs [simp]: "length (ring_abs q) = ring_length q"
  by (simp add: ring_abs_def)

lemma ring_length_0_iff: "ring_inv q \<Longrightarrow> ring_length q = 0 \<longleftrightarrow> mq_head q = mq_tail q"
  by (auto simp: ring_inv_def ring_length_def)

lemma ring_inv_new: "ring_inv (new_message_queue h)" "ring_abs (new_message_queue h) = []"
  by (simp_all add: ring_inv_def new_message_queue_def ring_length_def ring_abs_def
      DEFAULT_QUEUE_SIZE_def MQ_OVERLOAD_def)

text \<open>The threshold loop returns from any positive threshold, changes only the two overload
  fields, and leaves the threshold positive and at least the length.\<close>

lemma overload_loop_returns:
  assumes "0 < mq_overload_threshold q"
  shows "\<exists>ov th. overload_loop len q = Some (q\<lparr>mq_overload := ov, mq_overload_threshold := th\<rparr>) \<and>
           0 < th \<and> len \<le> th \<and>
           (len \<le> mq_overload_threshold q \<longrightarrow> ov = mq_overload q \<and> th = mq_overload_threshold q)"
  using assms
proof (induction "nat (len - mq_overload_threshold q)" arbitrary: q rule: less_induct)
  case less
  show ?case
  proof (cases "mq_overload_threshold q < len")
    case True
    let ?q = "q\<lparr>mq_overload := len, mq_overload_threshold := mq_overload_threshold q * 2\<rparr>"
    have "nat (len - mq_overload_threshold ?q) < nat (len - mq_overload_threshold q)"
      and "0 < mq_overload_threshold ?q"
      using True less.prems by simp_all
    from less.hyps[OF this] True show ?thesis
      by (auto simp: overload_loop.simps[of len q])
  next
    case False
    with less.prems show ?thesis
      by (intro exI[of _ "mq_overload q"] exI[of _ "mq_overload_threshold q"])
         (simp add: overload_loop.simps[of len q])
  qed
qed

lemma ring_length_int:
  assumes "head < cap" "tail < cap"
  shows "(if int tail - int head < 0 then int tail - int head + int cap else int tail - int head)
         = int (if head \<le> tail then tail - head else tail + cap - head)"
  using assms by auto

lemma ring_cell_Suc:
  "ring_cell q (Suc i) = mq_queue q ! ((Suc (mq_head q) mod mq_cap q + i) mod mq_cap q)"
  by (simp add: ring_cell_def mod_add_left_eq)

lemma ring_length_pop:
  assumes "ring_inv q" "mq_head q \<noteq> mq_tail q"
  shows "ring_length q = Suc (ring_length (q\<lparr>mq_head := Suc (mq_head q) mod mq_cap q\<rparr>))"
  using assms by (auto simp: ring_inv_def ring_length_def mod_Suc)

text \<open>What \<open>skynet_mq_pop\<close> does to one queue, on both branches.\<close>

lemma ring_pop_empty:
  assumes "ring_inv q" "ring_abs q = []"
  shows "ring_pop q =
    Some (None, q\<lparr>mq_overload_threshold := MQ_OVERLOAD, mq_in_global := False\<rparr>)"
  using assms ring_length_0_iff[of q] length_ring_abs[of q]
  by (simp add: ring_pop_def del: length_ring_abs)

lemma ring_pop_Cons:
  assumes inv: "ring_inv q" and abs: "ring_abs q = m # ms"
  shows "\<exists>q'. ring_pop q = Some (Some m, q') \<and> ring_inv q' \<and> ring_abs q' = ms \<and>
           mq_handle q' = mq_handle q \<and> mq_release q' = mq_release q \<and>
           mq_in_global q' = mq_in_global q \<and> mq_next q' = mq_next q \<and>
           mq_cap q' = mq_cap q \<and>
           (int (length ms) \<le> mq_overload_threshold q \<longrightarrow>
              mq_overload q' = mq_overload q \<and> mq_overload_threshold q' = mq_overload_threshold q)"
proof -
  let ?c = "mq_cap q" and ?h = "Suc (mq_head q) mod mq_cap q"
  let ?q1 = "q\<lparr>mq_head := ?h\<rparr>"
  have len: "ring_length q = Suc (length ms)"
    using abs length_ring_abs[of q] by simp
  then have ne: "mq_head q \<noteq> mq_tail q" using ring_length_0_iff[OF inv] by simp
  note L1 = ring_length_pop[OF inv ne]
  have hd_cell: "ring_cell q 0 = Some m"
    using inv abs len unfolding ring_inv_def ring_abs_def
    by (auto simp: list_all_iff map_upt_shift simp del: upt_Suc)
  have get: "cell_get (mq_queue q) (mq_head q) = Some m"
    using inv hd_cell by (simp add: ring_inv_def cell_get_def ring_cell_def)
  have hd: "(if ?c \<le> Suc (mq_head q) then 0 else Suc (mq_head q)) = ?h"
    using inv by (intro ring_succ) (auto simp: ring_inv_def)
  obtain ov th where loop: "overload_loop (int (ring_length ?q1)) ?q1 =
      Some (?q1\<lparr>mq_overload := ov, mq_overload_threshold := th\<rparr>)" and th: "0 < th"
      and quiet: "int (ring_length ?q1) \<le> mq_overload_threshold q \<Longrightarrow>
        ov = mq_overload q \<and> th = mq_overload_threshold q"
    using overload_loop_returns[of ?q1 "int (ring_length ?q1)"] inv by (auto simp: ring_inv_def)
  let ?q' = "?q1\<lparr>mq_overload := ov, mq_overload_threshold := th\<rparr>"
  have hlt: "?h < ?c" using inv by (simp add: ring_inv_def)
  have lint: "(if int (mq_tail q) - int ?h < 0 then int (mq_tail q) - int ?h + int ?c
               else int (mq_tail q) - int ?h) = int (ring_length ?q1)"
    using ring_length_int[OF hlt, of "mq_tail q"] inv by (simp add: ring_inv_def ring_length_def)
  have pop: "ring_pop q = Some (Some m, ?q')"
    using ne get loop lint by (simp add: ring_pop_def hd Let_def)
  have cells: "ring_cell ?q' i = ring_cell q (Suc i)" for i
    by (simp only: ring_cell_Suc) (simp add: ring_cell_def)
  have len': "ring_length ?q' = ring_length ?q1" by (simp add: ring_length_def)
  have "ring_abs q = the (ring_cell q 0) # ring_abs ?q'"
    unfolding ring_abs_def len' cells L1 map_upt_shift ..
  with abs have abs': "ring_abs ?q' = ms" by simp
  have "ring_cell q i \<noteq> None" if "i < ring_length q" for i
    using inv that by (auto simp: ring_inv_def list_all_iff)
  then have "list_all (\<lambda>i. ring_cell ?q' i \<noteq> None) [0..<ring_length ?q']"
    unfolding len' cells L1 by (simp add: list_all_iff)
  then have "ring_inv ?q'" using inv th hlt unfolding ring_inv_def by simp
  moreover have "ring_length ?q1 = length ms" using L1 len by simp
  ultimately show ?thesis using pop abs' quiet by auto
qed

text \<open>Doubling a full ring keeps the messages in order and leaves it half empty.\<close>

lemma expand_queue_full:
  assumes c: "0 < mq_cap q" "mq_head q < mq_cap q" "mq_tail q = mq_head q"
    and len: "length (mq_queue q) = mq_cap q" and th: "0 < mq_overload_threshold q"
    and all: "\<And>i. i < mq_cap q \<Longrightarrow> ring_cell q i \<noteq> None"
  shows "ring_inv (expand_queue q) \<and>
         ring_abs (expand_queue q) = map (\<lambda>i. the (ring_cell q i)) [0..<mq_cap q]"
proof -
  let ?e = "expand_queue q"
  have cells: "ring_cell ?e i = ring_cell q i" if "i < mq_cap q" for i
    using that by (simp add: ring_cell_def expand_queue_def nth_append)
  have L: "ring_length ?e = mq_cap q" by (simp add: ring_length_def expand_queue_def)
  have "ring_inv ?e"
    using c th all cells L by (auto simp: ring_inv_def list_all_iff expand_queue_def)
  moreover have "ring_abs ?e = map (\<lambda>i. the (ring_cell q i)) [0..<mq_cap q]"
    unfolding ring_abs_def L by (auto simp: cells)
  ultimately show ?thesis ..
qed

lemma ring_push_append:
  assumes inv: "ring_inv q"
  shows "\<exists>q'. ring_push m q = Some q' \<and> ring_inv q' \<and> ring_abs q' = ring_abs q @ [m] \<and>
           mq_handle q' = mq_handle q \<and> mq_release q' = mq_release q \<and>
           mq_in_global q' = mq_in_global q \<and> mq_next q' = mq_next q \<and>
           mq_cap q' \<in> {mq_cap q, 2 * mq_cap q}"
proof -
  let ?c = "mq_cap q" and ?n = "ring_length q" and ?t = "Suc (mq_tail q) mod mq_cap q"
  let ?q1 = "q\<lparr>mq_queue := (mq_queue q)[mq_tail q := Some m], mq_tail := ?t\<rparr>"
  have tl: "(if ?c \<le> Suc (mq_tail q) then 0 else Suc (mq_tail q)) = ?t"
    using inv by (intro ring_succ) (auto simp: ring_inv_def)
  have n: "?n < ?c" by (rule ring_length_less[OF inv])
  note teq = ring_tail_eq[OF inv]
  have push: "ring_push m q = Some (if mq_head ?q1 = mq_tail ?q1 then expand_queue ?q1 else ?q1)"
    using inv by (simp add: ring_push_def cell_set_def ring_inv_def tl[simplified ring_inv_def] Let_def)
  have old: "ring_cell ?q1 i = ring_cell q i" if "i < ?n" for i
    using ring_index_neq[OF that n, of "mq_head q"] by (simp add: ring_cell_def teq)
  have new: "ring_cell ?q1 ?n = Some m"
    using inv by (simp add: ring_cell_def teq[symmetric] ring_inv_def)
  have some: "ring_cell ?q1 i \<noteq> None" if "i < Suc ?n" for i
    using that inv old new by (cases "i = ?n") (auto simp: ring_inv_def list_all_iff)
  have prefix: "map (\<lambda>i. the (ring_cell ?q1 i)) [0..<Suc ?n] = ring_abs q @ [m]"
    by (simp add: ring_abs_def old new)
  show ?thesis
  proof (cases "mq_head q = ?t")
    case True
    then have full: "Suc ?n = ?c"
      using inv by (auto simp: ring_inv_def ring_length_def mod_Suc split: if_splits)
    have "ring_inv (expand_queue ?q1) \<and>
      ring_abs (expand_queue ?q1) = map (\<lambda>i. the (ring_cell ?q1 i)) [0..<mq_cap ?q1]"
      using inv True some full by (intro expand_queue_full) (auto simp: ring_inv_def)
    with True push prefix full show ?thesis
      by (auto simp: expand_queue_def)
  next
    case False
    then have L: "ring_length ?q1 = Suc ?n"
      using inv by (auto simp: ring_inv_def ring_length_def mod_Suc split: if_splits)
    have "ring_inv ?q1"
      using inv some unfolding ring_inv_def L by (auto simp: list_all_iff)
    moreover have "ring_abs ?q1 = ring_abs q @ [m]"
      using prefix unfolding ring_abs_def L .
    ultimately show ?thesis using False push by auto
  qed
qed

section \<open>The global queue refines a list of queues\<close>

fun chain :: "(mqid \<rightharpoonup> message_queue) \<Rightarrow> mqid option \<Rightarrow> mqid list \<Rightarrow> bool" where
  "chain h None [] = True"
| "chain h (Some p) (x # xs) =
     (p = x \<and> (case h p of None \<Rightarrow> False | Some q \<Rightarrow> chain h (mq_next q) xs))"
| "chain h _ _ = False"

definition gq_rep :: "'a mq_state_scheme \<Rightarrow> mqid list \<Rightarrow> bool" where
  "gq_rep s xs \<longleftrightarrow>
     chain (mq_heap s) (gq_head s) xs \<and>
     gq_tail s = (if xs = [] then None else Some (last xs)) \<and> distinct xs \<and>
     (\<forall>p q. mq_heap s p = Some q \<longrightarrow> p \<notin> set xs \<longrightarrow> mq_next q = None)"

lemma chain_Nil [simp]: "chain h x [] \<longleftrightarrow> x = None"
  by (cases x) auto

lemma chain_Cons:
  "chain h x (y # ys) \<longleftrightarrow> x = Some y \<and> (\<exists>q. h y = Some q \<and> chain h (mq_next q) ys)"
  by (cases x) (auto split: option.splits)

lemma chain_cong:
  assumes "\<And>p. p \<in> set xs \<Longrightarrow> map_option mq_next (h p) = map_option mq_next (h' p)"
  shows "chain h x xs = chain h' x xs"
  using assms
proof (induction xs arbitrary: x)
  case (Cons a xs)
  have "map_option mq_next (h a) = map_option mq_next (h' a)" using Cons.prems by simp
  moreover have "chain h y xs = chain h' y xs" for y using Cons by simp
  ultimately show ?case by (cases "h a"; cases "h' a") (auto simp: chain_Cons)
qed simp

lemma chain_dom: "chain h x xs \<Longrightarrow> set xs \<subseteq> dom h"
  by (induction xs arbitrary: x) (auto simp: chain_Cons)

lemma chain_last: "chain h x (xs @ [l]) \<Longrightarrow> \<exists>q. h l = Some q \<and> mq_next q = None"
  by (induction xs arbitrary: x) (auto simp: chain_Cons)

lemma chain_snoc:
  assumes "chain h x (xs @ [l])" "distinct (xs @ [l])" "p \<notin> set (xs @ [l])"
    and "h l = Some tq" "h p = Some q" "mq_next q = None"
  shows "chain (h(l \<mapsto> tq\<lparr>mq_next := Some p\<rparr>)) x (xs @ [l, p])"
  using assms
proof (induction xs arbitrary: x)
  case Nil
  then show ?case by (auto simp: chain_Cons)
next
  case (Cons a xs)
  then obtain aq where "x = Some a" "h a = Some aq" "chain h (mq_next aq) (xs @ [l])" "a \<noteq> l"
    by (auto simp: chain_Cons)
  with Cons show ?case by (simp add: chain_Cons)
qed

lemma gq_rep_cong:
  assumes "gq_rep s xs" "gq_head s' = gq_head s" "gq_tail s' = gq_tail s"
    and "\<And>p. map_option mq_next (mq_heap s' p) = map_option mq_next (mq_heap s p)"
  shows "gq_rep s' xs"
proof -
  have "mq_next q = None" if "mq_heap s' p = Some q" "p \<notin> set xs" for p q
    using assms(1) assms(4)[of p] that by (cases "mq_heap s p") (auto simp: gq_rep_def)
  moreover have "chain (mq_heap s') (gq_head s) xs = chain (mq_heap s) (gq_head s) xs"
    by (rule chain_cong) (rule assms(4))
  ultimately show ?thesis using assms(1-3) by (simp add: gq_rep_def)
qed

lemma mq_next_same: "\<exists>n. u = u\<lparr>mq_next := n\<rparr>"
  by (rule exI[of _ "mq_next u"]) simp

lemma globalmq_push_rep:
  assumes rep: "gq_rep s xs" and p: "p \<notin> set xs" "mq_heap s p = Some q"
  shows "\<exists>s'. skynet_globalmq_push p s = Some s' \<and> gq_rep s' (xs @ [p]) \<and>
           mq_fresh s' = mq_fresh s \<and>
           (\<forall>r. (mq_heap s r = None \<longrightarrow> mq_heap s' r = None) \<and>
                (\<forall>u. mq_heap s r = Some u \<longrightarrow> (\<exists>n. mq_heap s' r = Some (u\<lparr>mq_next := n\<rparr>))))"
proof -
  from rep p have nq: "mq_next q = None" by (auto simp: gq_rep_def)
  show ?thesis
  proof (cases xs rule: rev_cases)
    case Nil
    with rep nq p show ?thesis
      by (auto simp: skynet_globalmq_push_def gq_rep_def chain_Cons mq_next_same)
  next
    case (snoc ys l)
    with rep obtain tq where l: "mq_heap s l = Some tq" "mq_next tq = None"
      using chain_last[of "mq_heap s" "gq_head s" ys l] by (auto simp: gq_rep_def)
    let ?s = "s\<lparr>mq_heap := (mq_heap s)(l \<mapsto> tq\<lparr>mq_next := Some p\<rparr>), gq_tail := Some p\<rparr>"
    have "skynet_globalmq_push p s = Some ?s"
      using rep nq p l snoc by (simp add: skynet_globalmq_push_def gq_rep_def)
    moreover have "gq_rep ?s (xs @ [p])"
      using rep nq p l snoc chain_snoc[of "mq_heap s" "gq_head s" ys l p tq q]
      by (auto simp: gq_rep_def)
    moreover have "\<exists>n. mq_heap ?s r = Some (u\<lparr>mq_next := n\<rparr>)" if "mq_heap s r = Some u" for r u
      using that l by (cases "r = l") (auto intro: exI[of _ "mq_next u"])
    moreover have "mq_heap ?s r = None" if "mq_heap s r = None" for r
      using that l by auto
    ultimately show ?thesis by auto
  qed
qed

lemma globalmq_pop_empty: "gq_rep s [] \<Longrightarrow> skynet_globalmq_pop s = Some (None, s)"
  by (simp add: skynet_globalmq_pop_def gq_rep_def)

lemma globalmq_pop_rep:
  assumes rep: "gq_rep s (p # xs)"
  shows "\<exists>s' q. skynet_globalmq_pop s = Some (Some p, s') \<and> gq_rep s' xs \<and>
           mq_fresh s' = mq_fresh s \<and> mq_heap s p = Some q \<and>
           mq_heap s' = (mq_heap s)(p \<mapsto> q\<lparr>mq_next := None\<rparr>)"
proof -
  from rep obtain q where q: "gq_head s = Some p" "mq_heap s p = Some q"
      "chain (mq_heap s) (mq_next q) xs" "p \<notin> set xs" "distinct xs"
    by (auto simp: gq_rep_def chain_Cons)
  let ?h = "(mq_heap s)(p \<mapsto> q\<lparr>mq_next := None\<rparr>)"
  have ch: "chain ?h (mq_next q) xs"
    using q by (subst chain_cong[where h' = "mq_heap s"]) auto
  have nx: "mq_next q = None \<longleftrightarrow> xs = []"
    using q by (cases xs) (auto simp: chain_Cons)
  show ?thesis
    using rep q ch nx by (auto simp: skynet_globalmq_pop_def gq_rep_def Let_def)
qed

section \<open>Both are first-in first-out queues\<close>

definition ring_rep :: "message_queue \<Rightarrow> skynet_message list \<Rightarrow> bool" where
  "ring_rep q xs \<longleftrightarrow> ring_inv q \<and> ring_abs q = xs"

interpretation mring: fifo ring_push ring_pop ring_rep "\<lambda>_ _. True"
proof unfold_locales
  show "\<exists>q'. ring_push a q = Some q' \<and> ring_rep q' (xs @ [a])" if "ring_rep q xs" for q xs a
    using ring_push_append[of q a] that by (auto simp: ring_rep_def)
  show "\<exists>q'. ring_pop q = Some (None, q') \<and> ring_rep q' []" if "ring_rep q []" for q
    using that by (auto simp: ring_rep_def ring_pop_empty MQ_OVERLOAD_def)
  show "\<exists>q'. ring_pop q = Some (Some x, q') \<and> ring_rep q' xs" if "ring_rep q (x # xs)" for q x xs
    using ring_pop_Cons[of q x xs] that by (auto simp: ring_rep_def)
qed

definition gq_rep_on :: "mqid set \<Rightarrow> 'a mq_state_scheme \<Rightarrow> mqid list \<Rightarrow> bool" where
  "gq_rep_on D s xs \<longleftrightarrow> gq_rep s xs \<and> dom (mq_heap s) = D"

interpretation globalq: fifo skynet_globalmq_push skynet_globalmq_pop "gq_rep_on D"
    "\<lambda>p xs. p \<in> D \<and> p \<notin> set xs" for D
proof unfold_locales
  fix s :: "'a mq_state_scheme" and xs p
  assume rep: "gq_rep_on D s xs" and ok: "p \<in> D \<and> p \<notin> set xs"
  then obtain q where "mq_heap s p = Some q" by (auto simp: gq_rep_on_def)
  with globalmq_push_rep[of s xs p q] rep ok obtain s' where
    s': "skynet_globalmq_push p s = Some s'" "gq_rep s' (xs @ [p])"
    and h: "\<And>r. mq_heap s r = None \<Longrightarrow> mq_heap s' r = None"
      "\<And>r u. mq_heap s r = Some u \<Longrightarrow> \<exists>n. mq_heap s' r = Some (u\<lparr>mq_next := n\<rparr>)"
    by (auto simp: gq_rep_on_def)
  have "dom (mq_heap s') = D"
    using rep h by (fastforce simp: gq_rep_on_def dom_def)
  with s' show "\<exists>s'. skynet_globalmq_push p s = Some s' \<and> gq_rep_on D s' (xs @ [p])"
    by (auto simp: gq_rep_on_def)
next
  fix s :: "'a mq_state_scheme"
  assume "gq_rep_on D s []"
  then show "\<exists>s'. skynet_globalmq_pop s = Some (None, s') \<and> gq_rep_on D s' []"
    by (auto simp: gq_rep_on_def globalmq_pop_empty)
next
  fix s :: "'a mq_state_scheme" and p xs
  assume "gq_rep_on D s (p # xs)"
  then show "\<exists>s'. skynet_globalmq_pop s = Some (Some p, s') \<and> gq_rep_on D s' xs"
    using globalmq_pop_rep[of s p xs] by (auto simp: gq_rep_on_def)
qed

end
