(* ===== verification/Mq_Sched.thy ===== *)
theory Mq_Sched
  imports Mq
begin

text \<open>
  The life of the message queues under any interleaving of senders, worker threads and
  deletions: a step relation whose steps are the locked operations of \<open>skynet_mq.c\<close>, in the
  situations in which \<open>skynet_server.c\<close> calls them. The second component of the state is the
  set of queues some thread holds: a queue being set up by \<open>skynet_context_new\<close>, or one a
  worker took from the global queue and is dispatching. A sender holds a reference to the
  service, so it never pushes to a queue already marked for release, and neither does a
  worker that finds the queue empty.
\<close>

type_synonym sched = "mq_state \<times> mqid set"

inductive mq_step :: "sched \<Rightarrow> sched \<Rightarrow> bool" where
  create: "skynet_mq_create h s = (p, s') \<Longrightarrow> mq_step (s, H) (s', insert p H)"
| send: "mq_heap s p = Some q \<Longrightarrow> \<not> mq_release q \<Longrightarrow> skynet_mq_push p m s = Some s' \<Longrightarrow>
    mq_step (s, H) (s', H)"
| take: "skynet_globalmq_pop s = Some (Some p, s') \<Longrightarrow> mq_step (s, H) (s', insert p H)"
| put_back: "p \<in> H \<Longrightarrow> skynet_globalmq_push p s = Some s' \<Longrightarrow> mq_step (s, H) (s', H - {p})"
| pop_message: "p \<in> H \<Longrightarrow> skynet_mq_pop p s = Some (Some m, s') \<Longrightarrow> mq_step (s, H) (s', H)"
| pop_empty: "p \<in> H \<Longrightarrow> mq_heap s p = Some q \<Longrightarrow> \<not> mq_release q \<Longrightarrow>
    skynet_mq_pop p s = Some (None, s') \<Longrightarrow> mq_step (s, H) (s', H - {p})"
| mark: "skynet_mq_mark_release p s = Some s' \<Longrightarrow> mq_step (s, H) (s', H)"
| free: "p \<in> H \<Longrightarrow> mq_heap s p = Some q \<Longrightarrow> mq_release q \<Longrightarrow>
    skynet_mq_pop p s = Some (None, s1) \<Longrightarrow> mq_free p s1 = Some s' \<Longrightarrow>
    mq_step (s, H) (s', H - {p})"

inductive mq_reachable :: "sched \<Rightarrow> bool" where
  init: "mq_reachable (skynet_mq_init, {})"
| step: "mq_reachable c \<Longrightarrow> mq_step c c' \<Longrightarrow> mq_reachable c'"

inductive_cases mq_stepE: "mq_step (s, H) c"

text \<open>
  The invariant: the global list holds each queue at most once; a queue is in the list or
  held exactly when its flag \<open>in_global\<close> is set or it is marked for release; and a queue with
  messages has one of the two flags.
\<close>

definition queue_ok :: "mqid \<Rightarrow> message_queue \<Rightarrow> mqid set \<Rightarrow> bool" where
  "queue_ok p q S \<longleftrightarrow>
     ring_inv q \<and> (mq_in_global q \<or> mq_release q \<longleftrightarrow> p \<in> S) \<and> (ring_abs q \<noteq> [] \<longrightarrow> p \<in> S)"

definition sched_rep :: "'a mq_state_scheme \<Rightarrow> mqid set \<Rightarrow> mqid list \<Rightarrow> bool" where
  "sched_rep s H xs \<longleftrightarrow>
     gq_rep s xs \<and> H \<subseteq> dom (mq_heap s) \<and> H \<inter> set xs = {} \<and>
     (\<forall>p. mq_fresh s \<le> p \<longrightarrow> mq_heap s p = None) \<and>
     (\<forall>p q. mq_heap s p = Some q \<longrightarrow> queue_ok p q (set xs \<union> H))"

lemma gq_rep_dom: "gq_rep s xs \<Longrightarrow> set xs \<subseteq> dom (mq_heap s)"
  by (auto simp: gq_rep_def dest: chain_dom)

lemma gq_rep_upd:
  assumes "gq_rep s xs" "mq_heap s p = Some q" "mq_next q' = mq_next q"
  shows "gq_rep (s\<lparr>mq_heap := (mq_heap s)(p \<mapsto> q')\<rparr>) xs"
  using assms by (intro gq_rep_cong[OF assms(1)]) auto

text \<open>Replacing one queue by another with the same link keeps the representation.\<close>

lemma sched_rep_upd:
  assumes "sched_rep s H xs" "mq_heap s p = Some q" "mq_next q' = mq_next q"
    and "queue_ok p q' (set xs \<union> H)"
  shows "sched_rep (s\<lparr>mq_heap := (mq_heap s)(p \<mapsto> q')\<rparr>) H xs"
  using assms gq_rep_upd[OF _ assms(2,3), of xs] by (auto simp: sched_rep_def)

text \<open>Appending a queue to the global list, from the held ones or from nowhere.\<close>

lemma sched_rep_gpush:
  assumes gq: "gq_rep s xs" and p: "p \<notin> set xs" "mq_heap s p = Some q"
    and H: "H \<subseteq> dom (mq_heap s)" "H \<inter> set xs = {}" "p \<notin> H"
    and fresh: "\<forall>r. mq_fresh s \<le> r \<longrightarrow> mq_heap s r = None"
    and ok: "\<And>r u. mq_heap s r = Some u \<Longrightarrow> queue_ok r u (set xs \<union> {p} \<union> H)"
  shows "\<exists>s'. skynet_globalmq_push p s = Some s' \<and> sched_rep s' H (xs @ [p])"
proof -
  obtain s' where s': "skynet_globalmq_push p s = Some s'" "gq_rep s' (xs @ [p])"
      "mq_fresh s' = mq_fresh s"
    and none: "\<And>r. mq_heap s r = None \<Longrightarrow> mq_heap s' r = None"
    and some: "\<And>r u. mq_heap s r = Some u \<Longrightarrow> \<exists>n. mq_heap s' r = Some (u\<lparr>mq_next := n\<rparr>)"
    using globalmq_push_rep[OF gq p] by blast
  have "queue_ok r v (set (xs @ [p]) \<union> H)" if "mq_heap s' r = Some v" for r v
  proof (cases "mq_heap s r")
    case None
    with none that show ?thesis by simp
  next
    case (Some u)
    with some that obtain n where "v = u\<lparr>mq_next := n\<rparr>" by fastforce
    with ok[OF Some] show ?thesis by (simp add: queue_ok_def insert_commute)
  qed
  moreover have "H \<subseteq> dom (mq_heap s')" using H some by fastforce
  ultimately show ?thesis using s' H fresh none by (auto simp: sched_rep_def)
qed

text \<open>The global list after a message for queue \<open>p\<close>: a queue that nobody lists or holds goes to its end.\<close>

definition listed :: "mqid set \<Rightarrow> mqid \<Rightarrow> mqid list \<Rightarrow> mqid list" where
  "listed H p xs = (if p \<in> set xs \<union> H then xs else xs @ [p])"

lemma sched_rep_send:
  assumes rep: "sched_rep s H xs" and q: "mq_heap s p = Some q" "\<not> mq_release q"
  shows "\<exists>s'. skynet_mq_push p m s = Some s' \<and> sched_rep s' H (listed H p xs)"
proof -
  have inv: "ring_inv q" using rep q by (auto simp: sched_rep_def queue_ok_def)
  obtain q1 where q1: "ring_push m q = Some q1" "ring_inv q1" "mq_release q1 = mq_release q"
      "mq_in_global q1 = mq_in_global q" "mq_next q1 = mq_next q"
    using ring_push_append[OF inv, of m] by blast
  show ?thesis
  proof (cases "mq_in_global q")
    case True
    have mem: "p \<in> set xs \<union> H" using rep q True by (auto simp: sched_rep_def queue_ok_def)
    then have "queue_ok p q1 (set xs \<union> H)" using q1 True by (simp add: queue_ok_def)
    then have "sched_rep (s\<lparr>mq_heap := (mq_heap s)(p \<mapsto> q1)\<rparr>) H xs"
      using rep q q1 by (intro sched_rep_upd) auto
    with q q1 True mem show ?thesis by (auto simp: skynet_mq_push_def listed_def)
  next
    case False
    let ?q = "q1\<lparr>mq_in_global := True\<rparr>" and ?s = "s\<lparr>mq_heap := (mq_heap s)(p \<mapsto> q1\<lparr>mq_in_global := True\<rparr>)\<rparr>"
    have out: "p \<notin> set xs" "p \<notin> H" using rep q False by (auto simp: sched_rep_def queue_ok_def)
    have gq: "gq_rep ?s xs" using rep q q1 by (intro gq_rep_upd) (auto simp: sched_rep_def)
    have ok: "queue_ok r u (set xs \<union> {p} \<union> H)" if "mq_heap ?s r = Some u" for r u
      using that rep q1 by (cases "r = p") (auto simp: sched_rep_def queue_ok_def)
    have "\<exists>s'. skynet_globalmq_push p ?s = Some s' \<and> sched_rep s' H (xs @ [p])"
      using rep q out by (intro sched_rep_gpush[OF gq out(1) _ _ _ out(2) _ ok]) (auto simp: sched_rep_def)
    with q q1 False out show ?thesis by (auto simp: skynet_mq_push_def listed_def)
  qed
qed

text \<open>The messages of each queue, the queues not marked for release, and what only the queues see.\<close>

definition mq_msgs :: "'a mq_state_scheme \<Rightarrow> mqid \<Rightarrow> skynet_message list option" where
  "mq_msgs s p = map_option ring_abs (mq_heap s p)"

definition mq_live :: "'a mq_state_scheme \<Rightarrow> mqid \<Rightarrow> bool" where
  "mq_live s p \<longleftrightarrow> (\<exists>q. mq_heap s p = Some q \<and> \<not> mq_release q)"

definition mq_only :: "'a mq_state_scheme \<Rightarrow> 'a mq_state_scheme \<Rightarrow> bool" where
  "mq_only s s' \<longleftrightarrow> mq_fresh s' = mq_fresh s \<and> mq_state.more s' = mq_state.more s"

lemma mq_only_heap: "mq_only s (s\<lparr>mq_heap := h\<rparr>)"
  by (simp add: mq_only_def)

lemma mq_only_trans: "mq_only s s1 \<Longrightarrow> mq_only s1 s2 \<Longrightarrow> mq_only s s2"
  by (simp add: mq_only_def)

lemma globalmq_push_only: "skynet_globalmq_push p s = Some s' \<Longrightarrow> mq_only s s'"
  unfolding skynet_globalmq_push_def mq_only_def
  by (auto simp: bind_eq_Some_iff split: option.splits if_splits)

lemma globalmq_pop_only: "skynet_globalmq_pop s = Some (r, s') \<Longrightarrow> mq_only s s'"
  unfolding skynet_globalmq_pop_def mq_only_def
  by (auto simp: bind_eq_Some_iff Let_def split: option.splits if_splits)

lemma mq_push_only: "skynet_mq_push p m s = Some s' \<Longrightarrow> mq_only s s'"
  by (auto simp: skynet_mq_push_def bind_eq_Some_iff mq_only_heap split: if_splits
      dest!: globalmq_push_only intro: mq_only_trans[OF mq_only_heap])

text \<open>All queues but \<open>p\<close> are as they were, up to their link in the global list.\<close>

definition others_kept :: "mqid \<Rightarrow> 'a mq_state_scheme \<Rightarrow> 'a mq_state_scheme \<Rightarrow> bool" where
  "others_kept p s s' \<longleftrightarrow>
     (\<forall>r. r \<noteq> p \<longrightarrow> (\<exists>n. mq_heap s' r = map_option (\<lambda>u. u\<lparr>mq_next := n\<rparr>) (mq_heap s r)))"

lemma others_kept_upd: "others_kept p s (s\<lparr>mq_heap := (mq_heap s)(p \<mapsto> q)\<rparr>)"
  unfolding others_kept_def
proof (intro allI impI)
  fix r
  assume "r \<noteq> p"
  then show "\<exists>n. mq_heap (s\<lparr>mq_heap := (mq_heap s)(p \<mapsto> q)\<rparr>) r = map_option (\<lambda>u. u\<lparr>mq_next := n\<rparr>) (mq_heap s r)"
    by (intro exI[of _ "mq_next (the (mq_heap s r))"]) (cases "mq_heap s r"; simp)
qed

lemma globalmq_push_others:
  assumes "gq_rep s xs" "p \<notin> set xs" "skynet_globalmq_push p s = Some s'"
  shows "others_kept r s s'"
proof -
  obtain q where q: "mq_heap s p = Some q" using assms(3) by (auto simp: skynet_globalmq_push_def bind_eq_Some_iff)
  have "\<exists>n. mq_heap s' r = map_option (\<lambda>u. u\<lparr>mq_next := n\<rparr>) (mq_heap s r)" for r
    using globalmq_push_rep[OF assms(1,2) q] assms(3) by (cases "mq_heap s r") fastforce+
  then show ?thesis by (simp add: others_kept_def)
qed

lemma globalmq_push_msgs:
  assumes "gq_rep s xs" "p \<notin> set xs" "skynet_globalmq_push p s = Some s'"
  shows "mq_msgs s' = mq_msgs s" "mq_live s' = mq_live s"
proof -
  obtain q where q: "mq_heap s p = Some q" using assms(3) by (auto simp: skynet_globalmq_push_def bind_eq_Some_iff)
  have "mq_msgs s' r = mq_msgs s r \<and> mq_live s' r = mq_live s r" for r
    using globalmq_push_rep[OF assms(1,2) q] assms(3)
    by (cases "mq_heap s r") (fastforce simp: mq_msgs_def mq_live_def)+
  then show "mq_msgs s' = mq_msgs s" "mq_live s' = mq_live s" by auto
qed

lemma mq_push_msgs:
  assumes rep: "sched_rep s H xs" and q: "mq_heap s p = Some q" "\<not> mq_release q"
  shows "\<exists>s'. skynet_mq_push p m s = Some s' \<and> sched_rep s' H (listed H p xs) \<and> mq_only s s' \<and>
    mq_msgs s' = (mq_msgs s)(p \<mapsto> ring_abs q @ [m]) \<and> mq_live s' = mq_live s \<and> others_kept p s s'"
proof -
  obtain s' where s': "skynet_mq_push p m s = Some s'" "sched_rep s' H (listed H p xs)"
    using sched_rep_send[OF assms] by blast
  have inv: "ring_inv q" using rep q by (auto simp: sched_rep_def queue_ok_def)
  obtain q1 where q1: "ring_push m q = Some q1" "ring_abs q1 = ring_abs q @ [m]" "mq_release q1 = mq_release q"
      "mq_in_global q1 = mq_in_global q" "mq_next q1 = mq_next q"
    using ring_push_append[OF inv, of m] by blast
  let ?t = "\<lambda>q'. s\<lparr>mq_heap := (mq_heap s)(p \<mapsto> q')\<rparr>"
  have t: "mq_msgs (?t q') = (mq_msgs s)(p \<mapsto> ring_abs q @ [m])" "mq_live (?t q') = mq_live s"
    if "ring_abs q' = ring_abs q @ [m]" "mq_release q' = mq_release q" for q'
    using that q by (auto simp: mq_msgs_def mq_live_def fun_eq_iff)
  show ?thesis
  proof (cases "mq_in_global q")
    case True
    with s' q q1 t show ?thesis by (auto simp: skynet_mq_push_def mq_only_heap others_kept_upd)
  next
    case False
    let ?q = "q1\<lparr>mq_in_global := True\<rparr>"
    have "p \<notin> set xs" using rep q False by (auto simp: sched_rep_def queue_ok_def)
    moreover have "gq_rep (?t ?q) xs" using rep q q1 by (intro gq_rep_upd) (auto simp: sched_rep_def)
    moreover have "skynet_globalmq_push p (?t ?q) = Some s'"
      using s'(1) q q1 False by (simp add: skynet_mq_push_def)
    ultimately have "mq_msgs s' = mq_msgs (?t ?q)" "mq_live s' = mq_live (?t ?q)" "others_kept p (?t ?q) s'"
      by (blast intro: globalmq_push_msgs globalmq_push_others)+
    moreover have "others_kept p s s'" using calculation(3) by (simp add: others_kept_def)
    ultimately show ?thesis using s' t[of ?q] q1 mq_push_only by auto
  qed
qed

lemma sched_rep_create:
  assumes "sched_rep s H xs" "skynet_mq_create h s = (p, s')"
  shows "sched_rep s' (insert p H) xs"
proof -
  have p: "mq_heap s p = None" "p = mq_fresh s" and s': "mq_heap s' = (mq_heap s)(p \<mapsto> new_message_queue h)"
      "mq_fresh s' = Suc p" "gq_head s' = gq_head s" "gq_tail s' = gq_tail s"
    using assms by (auto simp: sched_rep_def skynet_mq_create_def)
  have out: "p \<notin> set xs" using assms(1) p gq_rep_dom[of s xs] by (auto simp: sched_rep_def)
  have "chain (mq_heap s') (gq_head s') xs"
    using assms(1) out s' by (subst chain_cong[where h' = "mq_heap s"]) (auto simp: sched_rep_def gq_rep_def)
  then have "gq_rep s' xs"
    using assms(1) s' out by (auto simp: gq_rep_def sched_rep_def new_message_queue_def)
  moreover have "queue_ok p (new_message_queue h) (set xs \<union> insert p H)"
    by (simp add: queue_ok_def ring_inv_new) (simp add: new_message_queue_def)
  ultimately show ?thesis using assms(1) p s' out by (auto simp: sched_rep_def queue_ok_def)
qed

lemma sched_rep_take:
  assumes rep: "sched_rep s H xs" and pop: "skynet_globalmq_pop s = Some (Some p, s')"
  shows "\<exists>ys. xs = p # ys \<and> sched_rep s' (insert p H) ys"
proof (cases xs)
  case Nil
  with rep pop show ?thesis by (auto simp: sched_rep_def dest: globalmq_pop_empty)
next
  case (Cons x ys)
  with rep have "gq_rep s (x # ys)" by (simp add: sched_rep_def)
  from globalmq_pop_rep[OF this] pop obtain q where *: "x = p" "gq_rep s' ys"
      "mq_fresh s' = mq_fresh s" "mq_heap s p = Some q"
      "mq_heap s' = (mq_heap s)(p \<mapsto> q\<lparr>mq_next := None\<rparr>)"
    by auto
  have "set xs \<union> H = set ys \<union> insert p H" using Cons * by auto
  with rep * Cons show ?thesis by (auto simp: sched_rep_def queue_ok_def gq_rep_def)
qed

lemma sched_rep_pop_message:
  assumes rep: "sched_rep s H xs" and p: "p \<in> H" and pop: "skynet_mq_pop p s = Some (Some m, s')"
  shows "sched_rep s' H xs"
proof -
  obtain q where q: "mq_heap s p = Some q" "ring_inv q"
    using rep p by (auto simp: sched_rep_def queue_ok_def)
  obtain q' where q': "ring_pop q = Some (Some m, q')" "s' = s\<lparr>mq_heap := (mq_heap s)(p \<mapsto> q')\<rparr>"
    using pop q by (auto simp: skynet_mq_pop_def bind_eq_Some_iff)
  obtain m' ms where "ring_abs q = m' # ms"
    using q q' by (cases "ring_abs q") (auto simp: ring_pop_empty)
  from ring_pop_Cons[OF q(2) this] q' have "ring_inv q'" "mq_next q' = mq_next q"
      "mq_in_global q' = mq_in_global q" "mq_release q' = mq_release q"
    by auto
  with rep p q q' show ?thesis
    by (auto intro!: sched_rep_upd simp: queue_ok_def) (auto simp: sched_rep_def queue_ok_def)
qed

lemma skynet_mq_pop_None:
  assumes "mq_heap s p = Some q" "ring_inv q" "skynet_mq_pop p s = Some (None, s')"
  shows "s' = s\<lparr>mq_heap := (mq_heap s)(p \<mapsto> q\<lparr>mq_overload_threshold := MQ_OVERLOAD, mq_in_global := False\<rparr>)\<rparr> \<and>
         ring_abs q = []"
proof (cases "ring_abs q")
  case Nil
  with assms show ?thesis by (auto simp: skynet_mq_pop_def ring_pop_empty)
next
  case (Cons m ms)
  from ring_pop_Cons[OF assms(2) this] assms show ?thesis by (auto simp: skynet_mq_pop_def)
qed

lemma sched_rep_pop_empty:
  assumes rep: "sched_rep s H xs" and p: "p \<in> H" "mq_heap s p = Some q" "\<not> mq_release q"
    and pop: "skynet_mq_pop p s = Some (None, s')"
  shows "sched_rep s' (H - {p}) xs"
proof -
  let ?q = "q\<lparr>mq_overload_threshold := MQ_OVERLOAD, mq_in_global := False\<rparr>"
  have inv: "ring_inv q" and out: "p \<notin> set xs" using rep p by (auto simp: sched_rep_def queue_ok_def)
  note s' = skynet_mq_pop_None[OF p(2) inv pop]
  have gq: "gq_rep s' xs" using rep p s' by (auto intro!: gq_rep_upd simp: sched_rep_def)
  have ok: "queue_ok r u (set xs \<union> (H - {p}))" if "mq_heap s' r = Some u" for r u
  proof (cases "r = p")
    case True
    with that s' inv out p show ?thesis by (auto simp: queue_ok_def MQ_OVERLOAD_def)
  next
    case False
    with that s' rep show ?thesis by (auto simp: sched_rep_def queue_ok_def)
  qed
  have "H - {p} \<subseteq> dom (mq_heap s')" "(H - {p}) \<inter> set xs = {}"
    "\<forall>r. mq_fresh s' \<le> r \<longrightarrow> mq_heap s' r = None"
    using rep s' p by (auto simp: sched_rep_def)
  with gq ok show ?thesis by (simp add: sched_rep_def)
qed

lemma sched_rep_put_back:
  assumes rep: "sched_rep s H xs" and p: "p \<in> H"
  shows "\<exists>s'. skynet_globalmq_push p s = Some s' \<and> sched_rep s' (H - {p}) (xs @ [p])"
proof -
  obtain q where q: "mq_heap s p = Some q" using rep p by (auto simp: sched_rep_def)
  have "set xs \<union> {p} \<union> (H - {p}) = set xs \<union> H" using p by auto
  with rep p q show ?thesis
    by (intro sched_rep_gpush[where q = q]) (auto simp: sched_rep_def)
qed

lemma sched_rep_mark:
  assumes rep: "sched_rep s H xs" and mark: "skynet_mq_mark_release p s = Some s'"
  shows "\<exists>ys. sched_rep s' H ys"
proof -
  obtain q where q: "mq_heap s p = Some q" "\<not> mq_release q"
    using mark by (auto simp: skynet_mq_mark_release_def bind_eq_Some_iff split: if_splits)
  let ?q = "q\<lparr>mq_release := True\<rparr>" and ?s = "s\<lparr>mq_heap := (mq_heap s)(p \<mapsto> q\<lparr>mq_release := True\<rparr>)\<rparr>"
  show ?thesis
  proof (cases "mq_in_global q")
    case True
    then have "queue_ok p ?q (set xs \<union> H)" using rep q by (auto simp: sched_rep_def queue_ok_def)
    with rep q have "sched_rep ?s H xs" by (intro sched_rep_upd) auto
    with mark q True show ?thesis by (auto simp: skynet_mq_mark_release_def Let_def)
  next
    case False
    then have out: "p \<notin> set xs" "p \<notin> H" using rep q by (auto simp: sched_rep_def queue_ok_def)
    have gq: "gq_rep ?s xs" using rep q by (intro gq_rep_upd) (auto simp: sched_rep_def)
    have ok: "queue_ok r u (set xs \<union> {p} \<union> H)" if "mq_heap ?s r = Some u" for r u
      using that rep q by (cases "r = p") (auto simp: sched_rep_def queue_ok_def)
    have "\<exists>s'. skynet_globalmq_push p ?s = Some s' \<and> sched_rep s' H (xs @ [p])"
      using rep q out by (intro sched_rep_gpush[OF gq out(1) _ _ _ out(2) _ ok]) (auto simp: sched_rep_def)
    with mark q False show ?thesis by (auto simp: skynet_mq_mark_release_def Let_def)
  qed
qed

lemma sched_rep_free:
  assumes rep: "sched_rep s H xs" and p: "p \<in> H" "mq_heap s p = Some q"
    and pop: "skynet_mq_pop p s = Some (None, s1)" and free: "mq_free p s1 = Some s'"
  shows "sched_rep s' (H - {p}) xs"
proof -
  have inv: "ring_inv q" and out: "p \<notin> set xs" using rep p by (auto simp: sched_rep_def queue_ok_def)
  note s1 = skynet_mq_pop_None[OF p(2) inv pop]
  have s': "mq_heap s' = (mq_heap s)(p := None)" "mq_fresh s' = mq_fresh s" "gq_head s' = gq_head s"
      "gq_tail s' = gq_tail s"
    using s1 free by (auto simp: mq_free_def bind_eq_Some_iff split: if_splits)
  have "chain (mq_heap s') (gq_head s') xs"
    using rep out s' by (subst chain_cong[where h' = "mq_heap s"]) (auto simp: sched_rep_def gq_rep_def)
  then have "gq_rep s' xs" using rep s' by (auto simp: sched_rep_def gq_rep_def)
  with rep s' out show ?thesis by (auto simp: sched_rep_def queue_ok_def)
qed

lemma mq_step_rep:
  assumes "mq_step c c'" "sched_rep (fst c) (snd c) xs"
  shows "\<exists>ys. sched_rep (fst c') (snd c') ys"
  using assms
proof (cases rule: mq_step.cases)
  case (send s p q m s' H)
  with sched_rep_send[of s H xs p q m] assms(2) show ?thesis by auto
next
  case (put_back p H s s')
  with sched_rep_put_back[of s H xs p] assms(2) show ?thesis by auto
qed (use assms(2) in \<open>auto dest: sched_rep_create sched_rep_take sched_rep_pop_message
      sched_rep_pop_empty sched_rep_mark sched_rep_free\<close>)

lemma sched_rep_init: "sched_rep skynet_mq_init {} []"
  by (simp add: sched_rep_def gq_rep_def skynet_mq_init_def)

lemma mq_reachable_rep: "mq_reachable c \<Longrightarrow> \<exists>xs. sched_rep (fst c) (snd c) xs"
  by (induction rule: mq_reachable.induct) (auto intro: sched_rep_init dest: mq_step_rep)

section \<open>Properties\<close>

lemma qspec_run_total: "\<exists>outs ys. qspec_run (\<lambda>_ _. True) ops xs = Some (outs, ys)"
proof (induction ops arbitrary: xs)
  case (Cons opn ops)
  show ?case
  proof (cases opn)
    case (Push a)
    with Cons show ?thesis by simp
  next
    case Pop
    with Cons[of "tl xs"] show ?thesis by (cases xs) auto
  qed
qed simp

text \<open>
  C1. The message queue of a service, from its creation on and under any sequence of
  \<open>skynet_mq_push\<close> and \<open>skynet_mq_pop\<close>, never aborts and answers exactly as a first-in
  first-out list does, through every wrap-around and every doubling of the ring.
\<close>

theorem mq_ring_fifo:
  "\<exists>outs q'. qimpl_run ring_push ring_pop ops (new_message_queue h) = Some (outs, q') \<and>
     qspec_run (\<lambda>_ _. True) ops [] = Some (outs, ring_abs q') \<and> ring_inv q'"
proof -
  obtain outs ys where spec: "qspec_run (\<lambda>_ _. True) ops [] = Some (outs, ys)"
    using qspec_run_total by blast
  have "ring_rep (new_message_queue h) []" by (simp add: ring_rep_def ring_inv_new)
  from mring.run_refines[OF this spec] spec show ?thesis by (auto simp: ring_rep_def)
qed

text \<open>
  The global queue, a list threaded through the queues themselves, answers any sequence
  of pushes and pops as a first-in first-out list does and keeps its links well formed, as
  long as no queue is pushed while it is already in the list.
\<close>

theorem globalmq_fifo:
  assumes "gq_rep s xs"
    and "qspec_run (\<lambda>p ys. p \<in> dom (mq_heap s) \<and> p \<notin> set ys) ops xs = Some (outs, zs)"
  shows "\<exists>s'. qimpl_run skynet_globalmq_push skynet_globalmq_pop ops s = Some (outs, s') \<and>
    gq_rep s' zs"
  using globalq.run_refines[of "dom (mq_heap s)" s xs ops outs zs] assms
  by (auto simp: gq_rep_on_def)

definition two_queues :: mq_state where
  "two_queues = snd (skynet_mq_create 2 (snd (skynet_mq_create 1 skynet_mq_init)))"

theorem globalmq_fifo_witness:
  "\<exists>s'. qimpl_run skynet_globalmq_push skynet_globalmq_pop [Push 1, Push 0, Pop] two_queues =
     Some ([Some 1], s') \<and> gq_rep s' [0]"
proof (rule globalmq_fifo)
  show "gq_rep two_queues []"
    by (simp add: gq_rep_def two_queues_def skynet_mq_create_def skynet_mq_init_def new_message_queue_def)
  show "qspec_run (\<lambda>p ys. p \<in> dom (mq_heap two_queues) \<and> p \<notin> set ys) [Push 1, Push 0, Pop] [] =
      Some ([Some 1], [0])"
    by (simp add: two_queues_def skynet_mq_create_def skynet_mq_init_def)
qed

text \<open>
  C2. No message is ever stranded: in every state the runtime can reach, a queue that holds
  a message is in the global queue (exactly once) or held by a thread that will put it
  back or empty it.
\<close>

theorem no_lost_wakeup:
  assumes "mq_reachable (s, H)" "mq_heap s p = Some q" "ring_abs q \<noteq> []"
  shows "\<exists>xs. gq_rep s xs \<and> distinct xs \<and> H \<inter> set xs = {} \<and> (p \<in> set xs \<or> p \<in> H)"
proof -
  from mq_reachable_rep[OF assms(1)] obtain xs where "sched_rep s H xs" by auto
  moreover from this assms(2,3) have "p \<in> set xs \<or> p \<in> H" "H \<inter> set xs = {}" "gq_rep s xs"
    by (auto simp: sched_rep_def queue_ok_def)
  moreover from this have "distinct xs" by (simp add: gq_rep_def)
  ultimately show ?thesis by blast
qed

definition a_message :: skynet_message where
  "a_message = \<lparr>msg_source = 3, msg_session = 7, msg_data = Some (Bytes [1, 2]), msg_sz = 2\<rparr>"

definition one_queue :: mq_state where
  "one_queue = snd (skynet_mq_create 1 skynet_mq_init)"

lemma one_queue_reachable: "mq_reachable (one_queue, {0})"
proof -
  have "skynet_mq_create 1 skynet_mq_init = (0, one_queue)"
    by (simp add: one_queue_def skynet_mq_create_def skynet_mq_init_def)
  from mq_reachable.step[OF mq_reachable.init mq_step.create[OF this]] show ?thesis .
qed

lemma one_queue_heap: "mq_heap one_queue 0 = Some (new_message_queue 1)"
  by (simp add: one_queue_def skynet_mq_create_def skynet_mq_init_def)

theorem no_lost_wakeup_witness:
  "\<exists>s xs. skynet_mq_push 0 a_message one_queue = Some s \<and> gq_rep s xs \<and> distinct xs \<and>
     {0} \<inter> set xs = {} \<and> (0 \<in> set xs \<or> 0 \<in> {0::nat})"
proof -
  have rel: "\<not> mq_release (new_message_queue 1)" by (simp add: new_message_queue_def)
  obtain q' where q': "ring_push a_message (new_message_queue 1) = Some q'"
      "ring_abs q' = ring_abs (new_message_queue 1) @ [a_message]" "mq_in_global q'"
    using ring_push_append[OF ring_inv_new(1), of a_message 1] by (auto simp: new_message_queue_def)
  let ?s = "one_queue\<lparr>mq_heap := (mq_heap one_queue)(0 \<mapsto> q')\<rparr>"
  have push: "skynet_mq_push 0 a_message one_queue = Some ?s"
    using q' by (simp add: skynet_mq_push_def one_queue_heap)
  have "mq_reachable (?s, {0})"
    by (rule mq_reachable.step[OF one_queue_reachable mq_step.send[OF one_queue_heap rel push]])
  from no_lost_wakeup[OF this, of 0 q'] q' push show ?thesis by auto
qed

text \<open>
  C8. No assertion of \<open>skynet_mq.c\<close> fails and no loop of it runs forever in a reachable
  state: sending to any queue that is not being released returns, and so do popping from
  and putting back a queue the thread holds.
\<close>

theorem mq_operations_return:
  assumes "mq_reachable (s, H)" "mq_heap s p = Some q"
  shows "(\<not> mq_release q \<longrightarrow> (\<exists>s'. skynet_mq_push p m s = Some s')) \<and>
    (\<exists>r s'. skynet_mq_pop p s = Some (r, s')) \<and>
    (p \<in> H \<longrightarrow> (\<exists>s'. skynet_globalmq_push p s = Some s')) \<and>
    (\<exists>r s'. skynet_globalmq_pop s = Some (r, s'))"
proof -
  from mq_reachable_rep[OF assms(1)] obtain xs where rep: "sched_rep s H xs" by auto
  then have inv: "ring_inv q" using assms(2) by (auto simp: sched_rep_def queue_ok_def)
  have "\<exists>r s'. skynet_mq_pop p s = Some (r, s')"
    using assms(2) ring_pop_empty[OF inv] ring_pop_Cons[OF inv]
    by (cases "ring_abs q") (fastforce simp: skynet_mq_pop_def)+
  moreover have "\<exists>r s'. skynet_globalmq_pop s = Some (r, s')"
    using rep globalmq_pop_empty[of s] globalmq_pop_rep[of s]
    by (cases xs) (fastforce simp: sched_rep_def)+
  ultimately show ?thesis
    using sched_rep_send[OF rep assms(2)] sched_rep_put_back[OF rep, of p] by blast
qed

theorem mq_operations_return_witness:
  "\<exists>s'. skynet_mq_push 0 a_message one_queue = Some s'"
  using mq_operations_return[OF one_queue_reachable one_queue_heap, of a_message]
  by (simp add: new_message_queue_def)

end
