(* ===== verification/Context.thy ===== *)
theory Context
  imports Mq
begin

text \<open>
  The service context of \<open>skynet_server.c\<close>: its fields, the count of live contexts, and the
  reference counting through which a context is kept while a thread uses it and deleted
  when the last reference goes. Deleting a context runs the release function of the service's
  module, which is loaded at run time and is a parameter \<open>mod_release\<close> here, and marks the
  service's queue for release.
\<close>

type_synonym ctxid = nat

record skynet_context =
  ctx_instance :: nat
  ctx_mod :: nat
  ctx_cb_ud :: nat
  ctx_cb :: "nat option"
  ctx_queue :: mqid
  ctx_logfile :: "nat option"
  ctx_result :: string
  ctx_handle :: u32
  ctx_session_id :: i32
  ctx_ref :: int
  ctx_init :: bool
  ctx_endless :: bool

record ctx_state = mq_state +
  ctx_heap :: "ctxid \<rightharpoonup> skynet_context"
  ctx_fresh :: ctxid
  node_total :: int

definition skynet_context_total :: "'a ctx_state_scheme \<Rightarrow> int" where
  "skynet_context_total s = node_total s"

definition context_inc :: "'a ctx_state_scheme \<Rightarrow> 'a ctx_state_scheme" where
  "context_inc s = s\<lparr>node_total := node_total s + 1\<rparr>"

definition context_dec :: "'a ctx_state_scheme \<Rightarrow> 'a ctx_state_scheme" where
  "context_dec s = s\<lparr>node_total := node_total s - 1\<rparr>"

definition ctx_update ::
  "ctxid \<Rightarrow> (skynet_context \<Rightarrow> skynet_context) \<Rightarrow> 'a ctx_state_scheme \<Rightarrow> 'a ctx_state_scheme option" where
  "ctx_update c f s = do {
     x \<leftarrow> ctx_heap s c;
     Some (s\<lparr>ctx_heap := (ctx_heap s)(c \<mapsto> f x)\<rparr>) }"

definition skynet_context_handle :: "ctxid \<Rightarrow> 'a ctx_state_scheme \<Rightarrow> u32 option" where
  "skynet_context_handle c s = map_option ctx_handle (ctx_heap s c)"

definition skynet_callback ::
  "ctxid \<Rightarrow> nat \<Rightarrow> nat option \<Rightarrow> 'a ctx_state_scheme \<Rightarrow> 'a ctx_state_scheme option" where
  "skynet_callback c ud cb = ctx_update c (\<lambda>x. x\<lparr>ctx_cb := cb, ctx_cb_ud := ud\<rparr>)"

text \<open>The session counter is a C \<open>int\<close>: it wraps to a negative number, and the code then restarts at 1.\<close>

definition next_session :: "i32 \<Rightarrow> i32" where
  "next_session sid = (if sint (sid + 1) \<le> 0 then 1 else sid + 1)"

definition skynet_context_newsession ::
  "ctxid \<Rightarrow> 'a ctx_state_scheme \<Rightarrow> (i32 \<times> 'a ctx_state_scheme) option" where
  "skynet_context_newsession c s = do {
     x \<leftarrow> ctx_heap s c;
     let session = next_session (ctx_session_id x);
     Some (session, s\<lparr>ctx_heap := (ctx_heap s)(c \<mapsto> x\<lparr>ctx_session_id := session\<rparr>)\<rparr>) }"

definition skynet_context_grab :: "ctxid \<Rightarrow> 'a ctx_state_scheme \<Rightarrow> 'a ctx_state_scheme option" where
  "skynet_context_grab c = ctx_update c (\<lambda>x. x\<lparr>ctx_ref := ctx_ref x + 1\<rparr>)"

definition skynet_context_reserve :: "ctxid \<Rightarrow> 'a ctx_state_scheme \<Rightarrow> 'a ctx_state_scheme option" where
  "skynet_context_reserve c s = map_option context_dec (skynet_context_grab c s)"

definition delete_context ::
  "(skynet_context \<Rightarrow> 'a ctx_state_scheme \<Rightarrow> 'a ctx_state_scheme option) \<Rightarrow>
   ctxid \<Rightarrow> 'a ctx_state_scheme \<Rightarrow> 'a ctx_state_scheme option" where
  "delete_context mod_release c s = do {
     x \<leftarrow> ctx_heap s c;
     s1 \<leftarrow> mod_release x s;
     s2 \<leftarrow> skynet_mq_mark_release (ctx_queue x) s1;
     Some (context_dec (s2\<lparr>ctx_heap := (ctx_heap s2)(c := None)\<rparr>)) }"

text \<open>The first component is the context, or \<open>None\<close> where the function returns NULL.\<close>

definition skynet_context_release ::
  "(skynet_context \<Rightarrow> 'a ctx_state_scheme \<Rightarrow> 'a ctx_state_scheme option) \<Rightarrow>
   ctxid \<Rightarrow> 'a ctx_state_scheme \<Rightarrow> (ctxid option \<times> 'a ctx_state_scheme) option" where
  "skynet_context_release mod_release c s = do {
     x \<leftarrow> ctx_heap s c;
     let s1 = s\<lparr>ctx_heap := (ctx_heap s)(c \<mapsto> x\<lparr>ctx_ref := ctx_ref x - 1\<rparr>)\<rparr>;
     if ctx_ref x - 1 = 0
     then map_option (\<lambda>s2. (None, s2)) (delete_context mod_release c s1)
     else Some (Some c, s1) }"

section \<open>Sessions\<close>

lemma next_session_positive: "0 < sint (next_session sid)"
  by (simp add: next_session_def)

lemma sint_Suc_pos:
  fixes w :: "32 word"
  assumes "0 \<le> sint w" "sint w < 2 ^ 31 - 1"
  shows "sint (w + 1) = sint w + 1"
proof -
  have "sint (w + 1) = signed_take_bit 31 (sint w + 1)"
    by (simp add: sint_word_ariths)
  also have "\<dots> = sint w + 1"
    using assms by (intro signed_take_bit_int_eq_self) auto
  finally show ?thesis .
qed

lemma next_session_below:
  assumes "0 \<le> sint sid" "sint sid < 2 ^ 31 - 1"
  shows "sint (next_session sid) = sint sid + 1"
  using sint_Suc_pos[OF assms] assms by (simp add: next_session_def)

text \<open>\<open>n\<close> sessions allocated one after the other.\<close>

fun session_run :: "nat \<Rightarrow> i32 \<Rightarrow> i32 list" where
  "session_run 0 sid = []"
| "session_run (Suc n) sid = next_session sid # session_run n (next_session sid)"

lemma session_run_sint:
  assumes "0 \<le> sint sid" "sint sid + int n < 2 ^ 31"
  shows "map sint (session_run n sid) = map (\<lambda>i. sint sid + 1 + int i) [0..<n]"
  using assms
proof (induction n arbitrary: sid)
  case (Suc n)
  then have n: "sint (next_session sid) = sint sid + 1" by (intro next_session_below) auto
  with Suc show ?case
    by (simp add: upt_conv_Cons map_Suc_upt[symmetric] comp_def del: upt_Suc)
qed simp

section \<open>References\<close>

lemma skynet_context_release_keeps:
  assumes "ctx_heap s c = Some x" "ctx_ref x \<noteq> 1"
  shows "skynet_context_release f c s =
    Some (Some c, s\<lparr>ctx_heap := (ctx_heap s)(c \<mapsto> x\<lparr>ctx_ref := ctx_ref x - 1\<rparr>)\<rparr>)"
  using assms by (simp add: skynet_context_release_def Let_def)

lemma grab_release_id:
  assumes "ctx_heap s c = Some x" "ctx_ref x \<noteq> 0"
  shows "Option.bind (skynet_context_grab c s) (skynet_context_release f c) = Some (Some c, s)"
  using assms by (simp add: skynet_context_grab_def ctx_update_def skynet_context_release_def fun_upd_idem)

end
