(* ===== verification/Handle.thy ===== *)
theory Handle
  imports Context "HOL-Library.List_Lexorder" "HOL-Library.Char_ord"
begin

text \<open>
  The handle storage of \<open>skynet_handle.c\<close>: the open hash table from 32-bit handles to service
  contexts, whose size is a power of two and which is doubled when every slot is taken, and
  the table of local names, an array sorted by \<open>strcmp\<close> and searched by bisection. Each
  operation holds the storage's lock, so it is one step.

  \<open>h_slot\<close> is the array \<open>slot\<close> (its length is \<open>slot_size\<close>); \<open>h_name\<close> is the array \<open>name\<close> (its
  length is \<open>name_cap\<close>), of which the first \<open>h_name_count\<close> cells are in use.
\<close>

section \<open>State\<close>

type_synonym handle_name = "string \<times> u32"

record handle_state = ctx_state +
  h_harbor :: u32
  h_handle_index :: u32
  h_slot :: "ctxid option list"
  h_name_count :: nat
  h_name :: "handle_name option list"

definition HANDLE_MASK :: u32 where "HANDLE_MASK = 0xffffff"

definition HANDLE_REMOTE_SHIFT :: nat where "HANDLE_REMOTE_SHIFT = 24"

definition DEFAULT_SLOT_SIZE :: nat where "DEFAULT_SLOT_SIZE = 4"

definition MAX_SLOT_SIZE :: nat where "MAX_SLOT_SIZE = 0x40000000"

section \<open>Handles\<close>

text \<open>The slot a handle hashes to in a table of \<open>n\<close> slots: \<open>handle & (slot_size - 1)\<close>.\<close>

definition slot_hash :: "u32 \<Rightarrow> nat \<Rightarrow> nat" where
  "slot_hash handle n = unat (handle AND (word_of_nat n - 1))"

text \<open>The inner loop of \<open>skynet_handle_register\<close>, from \<open>i\<close> on: the first free slot and its handle.\<close>

function find_slot :: "ctxid option list \<Rightarrow> u32 \<Rightarrow> nat \<Rightarrow> (u32 \<times> nat) option" where
  "find_slot slot index i =
     (if i < length slot then
        let handle = (word_of_nat i + index) AND HANDLE_MASK;
            hash = slot_hash handle (length slot)
        in if slot ! hash = None then Some (handle, hash) else find_slot slot index (Suc i)
      else None)"
  by pat_completeness auto
termination by (relation "measure (\<lambda>(slot, index, i). length slot - i)") auto

declare find_slot.simps [simp del]

text \<open>The loop that moves the contexts into a table of twice the size, with its assertion.\<close>

fun rehash :: "(ctxid \<Rightarrow> u32 option) \<Rightarrow> ctxid option list \<Rightarrow> ctxid option list \<Rightarrow> ctxid option list option" where
  "rehash ch [] new_slot = Some new_slot"
| "rehash ch (None # cs) new_slot = None"
| "rehash ch (Some c # cs) new_slot = do {
     handle \<leftarrow> ch c;
     let hash = slot_hash handle (length new_slot);
     if new_slot ! hash \<noteq> None then None else rehash ch cs (new_slot[hash := Some c]) }"

partial_function (option) skynet_handle_register ::
  "ctxid \<Rightarrow> 'a handle_state_scheme \<Rightarrow> (u32 \<times> 'a handle_state_scheme) option" where
  "skynet_handle_register c s =
     (case find_slot (h_slot s) (h_handle_index s) 0 of
        Some r \<Rightarrow>
          Some (fst r OR h_harbor s,
            s\<lparr>h_slot := (h_slot s)[snd r := Some c], h_handle_index := fst r + 1\<rparr>)
      | None \<Rightarrow>
          if \<not> (length (h_slot s) * 2 - 1 \<le> unat HANDLE_MASK) then None
          else do {
            new_slot \<leftarrow> rehash (\<lambda>d. skynet_context_handle d s) (h_slot s)
                         (replicate (length (h_slot s) * 2) None);
            skynet_handle_register c (s\<lparr>h_slot := new_slot\<rparr>) })"

text \<open>
  The loop of \<open>skynet_handle_retire\<close> that drops the names of a handle: \<open>i\<close> reads, \<open>j\<close> writes,
  and the result is the array and the new count.
\<close>

function compact_names ::
  "u32 \<Rightarrow> nat \<Rightarrow> nat \<Rightarrow> nat \<Rightarrow> handle_name option list \<Rightarrow> (nat \<times> handle_name option list) option" where
  "compact_names handle i j n names =
     (if i < n then do {
        nm \<leftarrow> cell_get names i;
        if snd nm = handle then compact_names handle (Suc i) j n names
        else compact_names handle (Suc i) (Suc j) n (if i \<noteq> j then names[j := Some nm] else names) }
      else Some (j, names))"
  by pat_completeness auto
termination by (relation "measure (\<lambda>(handle, i, j, n, names). n - i)") auto

declare compact_names.simps [simp del]

text \<open>The context a handle names: the test that \<open>retire\<close> and \<open>grab\<close> share.\<close>

definition handle_lookup :: "'a handle_state_scheme \<Rightarrow> u32 \<Rightarrow> ctxid option" where
  "handle_lookup s handle = do {
     c \<leftarrow> cell_get (h_slot s) (slot_hash handle (length (h_slot s)));
     h \<leftarrow> skynet_context_handle c s;
     if h = handle then Some c else None }"

text \<open>The part of \<open>skynet_handle_retire\<close> under the lock; the result is the context to release.\<close>

definition handle_unregister ::
  "u32 \<Rightarrow> 'a handle_state_scheme \<Rightarrow> (ctxid option \<times> 'a handle_state_scheme) option" where
  "handle_unregister handle s =
     (case handle_lookup s handle of
        Some c \<Rightarrow> do {
          let hash = slot_hash handle (length (h_slot s));
          let s1 = s\<lparr>h_slot := (h_slot s)[hash := None]\<rparr>;
          r \<leftarrow> compact_names handle 0 0 (h_name_count s1) (h_name s1);
          Some (Some c, s1\<lparr>h_name_count := fst r, h_name := snd r\<rparr>) }
      | None \<Rightarrow> Some (None, s))"

definition skynet_handle_retire ::
  "(skynet_context \<Rightarrow> 'a handle_state_scheme \<Rightarrow> 'a handle_state_scheme option) \<Rightarrow>
   u32 \<Rightarrow> 'a handle_state_scheme \<Rightarrow> (bool \<times> 'a handle_state_scheme) option" where
  "skynet_handle_retire mod_release handle s = do {
     r \<leftarrow> handle_unregister handle s;
     case fst r of
       None \<Rightarrow> Some (False, snd r)
     | Some c \<Rightarrow> do {
         r2 \<leftarrow> skynet_context_release mod_release c (snd r);
         Some (True, snd r2) } }"

text \<open>
  One pass of \<open>skynet_handle_retireall\<close> over the slots from \<open>i\<close> on, counting the contexts it
  retired; the whole function repeats the pass until it retires none.
\<close>

partial_function (option) retire_pass ::
  "(skynet_context \<Rightarrow> 'a handle_state_scheme \<Rightarrow> 'a handle_state_scheme option) \<Rightarrow>
   nat \<Rightarrow> nat \<Rightarrow> 'a handle_state_scheme \<Rightarrow> (nat \<times> 'a handle_state_scheme) option" where
  "retire_pass mod_release i n s =
     (if i < length (h_slot s) then do {
        handle \<leftarrow> (case cell_get (h_slot s) i of
            None \<Rightarrow> Some 0
          | Some c \<Rightarrow> skynet_context_handle c s);
        if handle \<noteq> 0 then do {
          r \<leftarrow> skynet_handle_retire mod_release handle s;
          retire_pass mod_release (Suc i) (if fst r then Suc n else n) (snd r) }
        else retire_pass mod_release (Suc i) n s }
      else Some (n, s))"

partial_function (option) skynet_handle_retireall ::
  "(skynet_context \<Rightarrow> 'a handle_state_scheme \<Rightarrow> 'a handle_state_scheme option) \<Rightarrow>
   'a handle_state_scheme \<Rightarrow> 'a handle_state_scheme option" where
  "skynet_handle_retireall mod_release s = do {
     r \<leftarrow> retire_pass mod_release 0 0 s;
     if fst r = 0 then Some (snd r) else skynet_handle_retireall mod_release (snd r) }"

definition skynet_handle_grab ::
  "u32 \<Rightarrow> 'a handle_state_scheme \<Rightarrow> (ctxid option \<times> 'a handle_state_scheme) option" where
  "skynet_handle_grab handle s =
     (case handle_lookup s handle of
        Some c \<Rightarrow> map_option (\<lambda>s'. (Some c, s')) (skynet_context_grab c s)
      | None \<Rightarrow> Some (None, s))"

section \<open>Names\<close>

text \<open>\<open>strcmp\<close> on strings without their terminating NUL: only the sign of the result is used.\<close>

fun strcmp :: "string \<Rightarrow> string \<Rightarrow> int" where
  "strcmp [] [] = 0"
| "strcmp [] (b # bs) = -1"
| "strcmp (a # as) [] = 1"
| "strcmp (a # as) (b # bs) =
     (if (of_char a :: nat) < of_char b then -1
      else if (of_char b :: nat) < of_char a then 1 else strcmp as bs)"

text \<open>
  The bisection loop that \<open>skynet_handle_findname\<close> and \<open>_insert_name\<close> both run: \<open>Inl h\<close> where
  the name is found with handle \<open>h\<close>, \<open>Inr begin\<close> where the loop ends with \<open>begin > end\<close>.
\<close>

function name_search ::
  "handle_name option list \<Rightarrow> string \<Rightarrow> int \<Rightarrow> int \<Rightarrow> (u32 + int) option" where
  "name_search names name b e =
     (if b \<le> e then
        let mid = (b + e) div 2 in
        do {
          nm \<leftarrow> cell_get names (nat mid);
          let c = strcmp (fst nm) name;
          if c = 0 then Some (Inl (snd nm))
          else if c < 0 then name_search names name (mid + 1) e
          else name_search names name b (mid - 1) }
      else Some (Inr b))"
  by pat_completeness auto
termination by (relation "measure (\<lambda>(names, name, b, e). nat (e + 1 - b))") auto

declare name_search.simps [simp del]

definition skynet_handle_findname :: "string \<Rightarrow> 'a handle_state_scheme \<Rightarrow> u32 option" where
  "skynet_handle_findname name s = do {
     r \<leftarrow> name_search (h_name s) name 0 (int (h_name_count s) - 1);
     Some (case r of Inl h \<Rightarrow> h | Inr _ \<Rightarrow> 0) }"

text \<open>The loop that moves the names from \<open>before\<close> on one cell up, from the last one down.\<close>

function shift_names :: "nat \<Rightarrow> nat \<Rightarrow> handle_name option list \<Rightarrow> handle_name option list" where
  "shift_names before i names =
     (if before < i then shift_names before (i - 1) (names[i := names ! (i - 1)]) else names)"
  by pat_completeness auto
termination by (relation "measure (\<lambda>(before, i, names). i)") auto

declare shift_names.simps [simp del]

definition insert_name_before ::
  "string \<Rightarrow> u32 \<Rightarrow> nat \<Rightarrow> 'a handle_state_scheme \<Rightarrow> 'a handle_state_scheme option" where
  "insert_name_before name handle before s = do {
     names \<leftarrow> (if length (h_name s) \<le> h_name_count s then
         let cap = length (h_name s) * 2 in
         if \<not> cap \<le> MAX_SLOT_SIZE then None
         else Some (map (\<lambda>i. if i < before then h_name s ! i
                             else if before < i \<and> i \<le> h_name_count s then h_name s ! (i - 1)
                             else None) [0..<cap])
       else Some (shift_names before (h_name_count s) (h_name s)));
     names' \<leftarrow> cell_set names before (name, handle);
     Some (s\<lparr>h_name := names', h_name_count := h_name_count s + 1\<rparr>) }"

text \<open>The result is the stored name, or \<open>None\<close> where the name is taken and the function returns NULL.\<close>

definition insert_name ::
  "string \<Rightarrow> u32 \<Rightarrow> 'a handle_state_scheme \<Rightarrow> (string option \<times> 'a handle_state_scheme) option" where
  "insert_name name handle s = do {
     r \<leftarrow> name_search (h_name s) name 0 (int (h_name_count s) - 1);
     case r of
       Inl _ \<Rightarrow> Some (None, s)
     | Inr b \<Rightarrow> map_option (\<lambda>s'. (Some name, s')) (insert_name_before name handle (nat b) s) }"

definition skynet_handle_namehandle ::
  "u32 \<Rightarrow> string \<Rightarrow> 'a handle_state_scheme \<Rightarrow> (string option \<times> 'a handle_state_scheme) option" where
  "skynet_handle_namehandle handle name s = insert_name name handle s"

definition handle_storage_init :: "int \<Rightarrow> 'a handle_state_scheme \<Rightarrow> 'a handle_state_scheme" where
  "handle_storage_init harbor s =
     s\<lparr>h_slot := replicate DEFAULT_SLOT_SIZE None,
       h_harbor := push_bit HANDLE_REMOTE_SHIFT (word_of_int harbor AND 0xff),
       h_handle_index := 1, h_name_count := 0, h_name := replicate 2 None\<rparr>"

section \<open>The name table refines a sorted list\<close>

definition names_abs :: "'a handle_state_scheme \<Rightarrow> handle_name list" where
  "names_abs s = map the (take (h_name_count s) (h_name s))"

definition names_inv :: "'a handle_state_scheme \<Rightarrow> bool" where
  "names_inv s \<longleftrightarrow>
     h_name_count s \<le> length (h_name s) \<and> 0 < length (h_name s) \<and>
     list_all (\<lambda>x. x \<noteq> None) (take (h_name_count s) (h_name s)) \<and>
     sorted_wrt (<) (map fst (names_abs s))"

lemma strcmp_sign: "strcmp a b < 0 \<longleftrightarrow> a < b" "strcmp a b = 0 \<longleftrightarrow> a = b"
  by (induction a b rule: strcmp.induct) (auto simp: less_char_def)

lemma names_abs_cell:
  assumes "names_inv s" "i < h_name_count s"
  shows "cell_get (h_name s) i = Some (names_abs s ! i)"
proof -
  have "h_name s ! i \<noteq> None" using assms by (auto simp: names_inv_def list_all_length)
  with assms show ?thesis by (auto simp: names_inv_def names_abs_def cell_get_def)
qed

lemma length_names_abs [simp]: "names_inv s \<Longrightarrow> length (names_abs s) = h_name_count s"
  by (simp add: names_inv_def names_abs_def)

lemma names_sorted_nth:
  assumes "names_inv s" "i < j" "j < h_name_count s"
  shows "fst (names_abs s ! i) < fst (names_abs s ! j)"
  using assms sorted_wrt_nth_less[of "(<)" "map fst (names_abs s)" i j] by (simp add: names_inv_def)

text \<open>What the bisection keeps: the names below \<open>b\<close> are smaller, those above \<open>e\<close> greater.\<close>

definition bisect_inv :: "handle_name list \<Rightarrow> string \<Rightarrow> int \<Rightarrow> int \<Rightarrow> bool" where
  "bisect_inv xs name b e \<longleftrightarrow>
     0 \<le> b \<and> e < int (length xs) \<and> b \<le> e + 1 \<and>
     (\<forall>i < nat b. fst (xs ! i) < name) \<and>
     (\<forall>i < length xs. e < int i \<longrightarrow> name < fst (xs ! i))"

lemma bisect_below: "bisect_inv xs name b e \<Longrightarrow> int i < b \<Longrightarrow> fst (xs ! i) < name"
  by (auto simp: bisect_inv_def zless_nat_eq_int_zless)

lemma bisect_above: "bisect_inv xs name b e \<Longrightarrow> i < length xs \<Longrightarrow> e < int i \<Longrightarrow> name < fst (xs ! i)"
  by (auto simp: bisect_inv_def)

definition search_result :: "handle_name list \<Rightarrow> string \<Rightarrow> u32 + int \<Rightarrow> bool" where
  "search_result xs name r \<longleftrightarrow>
     (case r of
        Inl h \<Rightarrow> (name, h) \<in> set xs
      | Inr p \<Rightarrow> 0 \<le> p \<and> bisect_inv xs name p (p - 1))"

lemma name_search_correct:
  assumes inv: "names_inv s" and "bisect_inv (names_abs s) name b e"
  shows "\<exists>r. name_search (h_name s) name b e = Some r \<and> search_result (names_abs s) name r"
  using assms(2)
proof (induction "nat (e + 1 - b)" arbitrary: b e rule: less_induct)
  case less
  let ?xs = "names_abs s"
  note unf = name_search.simps[of "h_name s" name b e]
  show ?case
  proof (cases "b \<le> e")
    case False
    with less.prems have "e = b - 1" "0 \<le> b" by (auto simp: bisect_inv_def)
    moreover from False have "name_search (h_name s) name b e = Some (Inr b)" by (simp add: unf)
    ultimately show ?thesis using less.prems by (auto simp: search_result_def)
  next
    case True
    define mid where "mid = (b + e) div 2"
    from True have mid: "b \<le> mid" "mid \<le> e" by (auto simp: mid_def)
    with less.prems inv have m: "nat mid < h_name_count s" "0 \<le> mid"
      by (auto simp: bisect_inv_def)
    obtain n h where nm: "?xs ! nat mid = (n, h)" by fastforce
    have get: "cell_get (h_name s) (nat mid) = Some (n, h)"
      using names_abs_cell[OF inv m(1)] nm by simp
    have below: "fst (?xs ! i) < n" if "i < nat mid" for i
      using names_sorted_nth[OF inv that m(1)] nm by simp
    have above: "n < fst (?xs ! i)" if "nat mid < i" "i < h_name_count s" for i
      using names_sorted_nth[OF inv that] nm by simp
    consider (eq) "n = name" | (lt) "n < name" | (gt) "name < n" by force
    then show ?thesis
    proof cases
      case eq
      with nm m inv have "(name, h) \<in> set ?xs" by (metis length_names_abs nth_mem)
      with True eq get show ?thesis
        by (simp add: unf mid_def[symmetric] strcmp_sign search_result_def)
    next
      case lt
      have "fst (?xs ! i) < name" if "i < nat (mid + 1)" for i
      proof (cases "i = nat mid")
        case False
        with that m have "i < nat mid" by linarith
        from less_trans[OF below[OF this] lt] show ?thesis .
      qed (use lt nm in simp)
      with less.prems mid m have "bisect_inv ?xs name (mid + 1) e" by (auto simp: bisect_inv_def)
      with less.hyps[of e "mid + 1"] mid True lt less_imp_neq[OF lt] get show ?thesis
        by (simp add: unf mid_def[symmetric] strcmp_sign)
    next
      case gt
      have "name < fst (?xs ! i)" if "i < length ?xs" "mid - 1 < int i" for i
      proof (cases "i = nat mid")
        case False
        with that m inv have "nat mid < i" "i < h_name_count s" by auto
        from less_trans[OF gt above[OF this]] show ?thesis .
      qed (use gt nm in simp)
      with less.prems mid m have "bisect_inv ?xs name b (mid - 1)" by (auto simp: bisect_inv_def)
      with less.hyps[of "mid - 1" b] mid True gt less_imp_neq[OF gt] less_not_sym[OF gt] get show ?thesis
        using strcmp_sign(1)[of n name] by (simp add: unf mid_def[symmetric] strcmp_sign)
    qed
  qed
qed

lemma bisect_inv_start: "names_inv s \<Longrightarrow> bisect_inv (names_abs s) name 0 (int (h_name_count s) - 1)"
  by (simp add: bisect_inv_def)

lemma names_distinct: "names_inv s \<Longrightarrow> distinct (map fst (names_abs s))"
  by (simp add: names_inv_def strict_sorted_iff)

lemma bisect_not_found:
  assumes "bisect_inv xs name p (p - 1)"
  shows "name \<notin> fst ` set xs"
proof
  assume "name \<in> fst ` set xs"
  then obtain i where i: "i < length xs" "name = fst (xs ! i)" by (metis imageE in_set_conv_nth)
  from bisect_below[OF assms, of i] bisect_above[OF assms i(1)] i(2) show False
    by (cases "int i < p") auto
qed

lemma findname_map_of:
  assumes inv: "names_inv s"
  shows "skynet_handle_findname name s =
    Some (case map_of (names_abs s) name of None \<Rightarrow> 0 | Some h \<Rightarrow> h)"
proof -
  obtain r where r: "name_search (h_name s) name 0 (int (h_name_count s) - 1) = Some r"
      "search_result (names_abs s) name r"
    using name_search_correct[OF inv bisect_inv_start[OF inv]] by blast
  show ?thesis
  proof (cases r)
    case (Inl h)
    with r names_distinct[OF inv] have "map_of (names_abs s) name = Some h"
      by (simp add: search_result_def)
    with r Inl show ?thesis by (simp add: skynet_handle_findname_def)
  next
    case (Inr p)
    with r have "map_of (names_abs s) name = None"
      using bisect_not_found[of "names_abs s" name p] by (simp add: search_result_def map_of_eq_None_iff)
    with r Inr show ?thesis by (simp add: skynet_handle_findname_def)
  qed
qed

text \<open>Inserting a cell at \<open>before\<close>, in both branches of \<open>_insert_name_before\<close>.\<close>

lemma shift_names_nth:
  assumes "i < length names"
  shows "length (shift_names before i names) = length names \<and>
    (\<forall>j < length names. shift_names before i names ! j =
       (if before < j \<and> j \<le> i then names ! (j - 1) else names ! j))"
  using assms
proof (induction before i names rule: shift_names.induct)
  case (1 before i names)
  show ?case
  proof (cases "before < i")
    case True
    let ?n = "names[i := names ! (i - 1)]"
    have IH: "length (shift_names before (i - 1) ?n) = length names"
      "\<And>j. j < length names \<Longrightarrow> shift_names before (i - 1) ?n ! j =
         (if before < j \<and> j \<le> i - 1 then ?n ! (j - 1) else ?n ! j)"
      using "1.IH" "1.prems" True by auto
    have "shift_names before i names = shift_names before (i - 1) ?n"
      using True by (simp add: shift_names.simps[of before i names])
    with IH True "1.prems" show ?thesis by (auto simp: nth_list_update)
  next
    case False
    then have "shift_names before i names = names" by (simp add: shift_names.simps[of before i names])
    with False show ?thesis by auto
  qed
qed

definition insert_cells :: "nat \<Rightarrow> 'b \<Rightarrow> 'b list \<Rightarrow> 'b list" where
  "insert_cells p x xs = take p xs @ x # drop p xs"

lemma set_insert_cells: "set (insert_cells p x xs) = insert x (set xs)"
  using append_take_drop_id[of p xs] by (metis insert_cells_def Un_insert_right list.simps(15) set_append)

lemma take_insert_cells:
  assumes "p \<le> n" "n < length ys" "n \<le> length xs"
    and "\<And>j. j < p \<Longrightarrow> ys ! j = xs ! j" and "\<And>j. p < j \<Longrightarrow> j \<le> n \<Longrightarrow> ys ! j = xs ! (j - 1)"
  shows "take (Suc n) (ys[p := x]) = insert_cells p x (take n xs)"
proof (rule nth_equalityI)
  show "length (take (Suc n) (ys[p := x])) = length (insert_cells p x (take n xs))"
    using assms(1-3) by (simp add: insert_cells_def)
next
  fix j assume "j < length (take (Suc n) (ys[p := x]))"
  then have "j \<le> n" using assms by simp
  with assms show "take (Suc n) (ys[p := x]) ! j = insert_cells p x (take n xs) ! j"
    by (cases "j < p"; cases "j = p") (auto simp: insert_cells_def nth_append nth_list_update nth_Cons')
qed

lemma insert_name_before_abs:
  assumes inv: "names_inv s" and p: "p \<le> h_name_count s"
    and cap: "2 * length (h_name s) \<le> MAX_SLOT_SIZE"
  shows "\<exists>cells. insert_name_before name handle p s =
      Some (s\<lparr>h_name := cells, h_name_count := Suc (h_name_count s)\<rparr>) \<and>
    Suc (h_name_count s) \<le> length cells \<and>
    take (Suc (h_name_count s)) cells =
      insert_cells p (Some (name, handle)) (take (h_name_count s) (h_name s))"
proof (cases "length (h_name s) \<le> h_name_count s")
  case True
  then have n: "length (h_name s) = h_name_count s" "0 < h_name_count s"
    using inv by (auto simp: names_inv_def)
  let ?g = "map (\<lambda>i. if i < p then h_name s ! i
      else if p < i \<and> i \<le> h_name_count s then h_name s ! (i - 1) else None) [0..<length (h_name s) * 2]"
  have "take (Suc (h_name_count s)) (?g[p := Some (name, handle)]) =
      insert_cells p (Some (name, handle)) (take (h_name_count s) (h_name s))"
    using n p by (intro take_insert_cells) auto
  with True n p cap show ?thesis
    by (intro exI[of _ "?g[p := Some (name, handle)]"])
       (simp add: insert_name_before_def cell_set_def mult.commute)
next
  case False
  let ?g = "shift_names p (h_name_count s) (h_name s)"
  have "take (Suc (h_name_count s)) (?g[p := Some (name, handle)]) =
      insert_cells p (Some (name, handle)) (take (h_name_count s) (h_name s))"
    using False p shift_names_nth[of "h_name_count s" "h_name s" p]
    by (intro take_insert_cells) auto
  with False p shift_names_nth[of "h_name_count s" "h_name s" p] show ?thesis
    by (intro exI[of _ "?g[p := Some (name, handle)]"]) (simp add: insert_name_before_def cell_set_def)
qed

lemma bisect_insert_sorted:
  assumes "sorted_wrt (<) (map fst xs)" "bisect_inv xs name p (p - 1)"
  shows "sorted_wrt (<) (map fst (insert_cells (nat p) (name, h) xs))"
proof -
  have lo: "y < name" if "y \<in> fst ` set (take (nat p) xs)" for y
  proof -
    from that obtain k where "k < nat p" "y = fst (xs ! k)" by (auto simp: in_set_conv_nth)
    with bisect_below[OF assms(2), of k] show ?thesis by simp
  qed
  have hi: "name < y" if "y \<in> fst ` set (drop (nat p) xs)" for y
  proof -
    from that obtain k where "k < length xs - nat p" "y = fst (xs ! (nat p + k))"
      by (auto simp: in_set_conv_nth)
    with bisect_above[OF assms(2), of "nat p + k"] show ?thesis by simp
  qed
  have "sorted_wrt (<) (map fst (take (nat p) xs))" "sorted_wrt (<) (map fst (drop (nat p) xs))"
    using assms(1) by (simp_all add: take_map[symmetric] drop_map[symmetric] sorted_wrt_take sorted_wrt_drop)
  with lo hi show ?thesis
    by (force simp: insert_cells_def sorted_wrt_append)
qed

lemma namehandle_taken:
  assumes "names_inv s" "name \<in> fst ` set (names_abs s)"
  shows "skynet_handle_namehandle h name s = Some (None, s)"
proof -
  obtain r where r: "name_search (h_name s) name 0 (int (h_name_count s) - 1) = Some r"
      "search_result (names_abs s) name r"
    using name_search_correct[OF assms(1) bisect_inv_start[OF assms(1)]] by blast
  with assms(2) bisect_not_found[of "names_abs s" name] obtain h' where "r = Inl h'"
    by (cases r) (auto simp: search_result_def)
  with r show ?thesis by (simp add: skynet_handle_namehandle_def insert_name_def)
qed

lemma namehandle_new:
  assumes inv: "names_inv s" and new: "name \<notin> fst ` set (names_abs s)"
    and cap: "2 * length (h_name s) \<le> MAX_SLOT_SIZE"
  shows "\<exists>s' p cells. skynet_handle_namehandle h name s = Some (Some name, s') \<and> names_inv s' \<and>
    names_abs s' = insert_cells p (name, h) (names_abs s) \<and>
    s' = s\<lparr>h_name := cells, h_name_count := Suc (h_name_count s)\<rparr>"
proof -
  obtain r where r: "name_search (h_name s) name 0 (int (h_name_count s) - 1) = Some r"
      "search_result (names_abs s) name r"
    using name_search_correct[OF inv bisect_inv_start[OF inv]] by blast
  with new obtain p where p: "r = Inr p" "0 \<le> p" and bis: "bisect_inv (names_abs s) name p (p - 1)"
    by (cases r) (force simp: search_result_def)+
  from bis inv have le: "nat p \<le> h_name_count s" by (auto simp: bisect_inv_def)
  obtain cells where c: "insert_name_before name h (nat p) s =
      Some (s\<lparr>h_name := cells, h_name_count := Suc (h_name_count s)\<rparr>)"
    and len: "Suc (h_name_count s) \<le> length cells"
    and tk: "take (Suc (h_name_count s)) cells =
      insert_cells (nat p) (Some (name, h)) (take (h_name_count s) (h_name s))"
    using insert_name_before_abs[OF inv le cap] by blast
  let ?s = "s\<lparr>h_name := cells, h_name_count := Suc (h_name_count s)\<rparr>"
  have abs: "names_abs ?s = insert_cells (nat p) (name, h) (names_abs s)"
    using tk by (simp add: names_abs_def insert_cells_def take_map drop_map)
  moreover have "list_all (\<lambda>x. x \<noteq> None) (take (Suc (h_name_count s)) cells)"
    using inv by (simp add: tk names_inv_def list_all_iff set_insert_cells)
  moreover have "sorted_wrt (<) (map fst (names_abs ?s))"
    unfolding abs using inv bis by (intro bisect_insert_sorted) (auto simp: names_inv_def)
  ultimately have "names_inv ?s" using len by (auto simp: names_inv_def)
  with r p c abs show ?thesis
    by (auto simp: skynet_handle_namehandle_def insert_name_def)
qed

text \<open>The compaction loop keeps exactly the names of the other handles, in order.\<close>

lemma compact_names_filter:
  assumes "j \<le> i" "i \<le> n" "n \<le> length names" "\<And>k. k < n \<Longrightarrow> i \<le> k \<Longrightarrow> names ! k \<noteq> None"
    "\<And>k. k < j \<Longrightarrow> names ! k \<noteq> None"
  shows "\<exists>j' names'. compact_names handle i j n names = Some (j', names') \<and>
    length names' = length names \<and> j' \<le> n \<and> (\<forall>k<j'. names' ! k \<noteq> None) \<and>
    map the (take j' names') =
      map the (take j names) @ filter (\<lambda>nm. snd nm \<noteq> handle) (map the (drop i (take n names)))"
  using assms
proof (induction handle i j n names rule: compact_names.induct)
  case (1 handle i j n names)
  note unf = compact_names.simps[of handle i j n names]
  show ?case
  proof (cases "i < n")
    case False
    then have "compact_names handle i j n names = Some (j, names)" by (simp add: unf)
    with False "1.prems" show ?thesis by auto
  next
    case True
    with "1.prems" obtain nm where nm: "names ! i = Some nm" by blast
    with True "1.prems" have get: "cell_get names i = Some nm" by (simp add: cell_get_def)
    have dr: "drop i (take n names) = Some nm # drop (Suc i) (take n names)"
      using True "1.prems" nm by (subst Cons_nth_drop_Suc[symmetric]) auto
    show ?thesis
    proof (cases "snd nm = handle")
      case True
      with \<open>i < n\<close> "1.IH"(1)[OF \<open>i < n\<close> get True] "1.prems" get dr show ?thesis
        by (simp add: unf)
    next
      case False
      let ?n = "if i \<noteq> j then names[j := Some nm] else names"
      have dr': "drop (Suc i) (take n ?n) = drop (Suc i) (take n names)"
        using "1.prems" by (simp add: take_update_swap)
      have tk: "take (Suc j) ?n = take j names @ [Some nm]"
        using "1.prems" True nm by (auto simp: take_Suc_conv_app_nth)
      have some: "?n ! k \<noteq> None" if "k < n" "Suc i \<le> k \<or> k < Suc j" for k
        using that "1.prems"(1,3-5) nm True by (auto simp: nth_list_update less_Suc_eq)
      have "\<exists>j' names'. compact_names handle (Suc i) (Suc j) n ?n = Some (j', names') \<and>
        length names' = length ?n \<and> j' \<le> n \<and> (\<forall>k<j'. names' ! k \<noteq> None) \<and>
        map the (take j' names') = map the (take (Suc j) ?n) @
           filter (\<lambda>nm. snd nm \<noteq> handle) (map the (drop (Suc i) (take n ?n)))"
        by (rule "1.IH"(2)[OF \<open>i < n\<close> get False]) (use "1.prems"(1-3) True some in auto)
      with True False get dr show ?thesis unfolding dr' tk by (simp add: unf split: if_splits)
    qed
  qed
qed

section \<open>The hash table refines a map from handles to contexts\<close>

lemma HANDLE_MASK_mask: "HANDLE_MASK = mask 24"
  by (simp add: HANDLE_MASK_def mask_eq_exp_minus_1)

lemma slot_hash_mod: "slot_hash h (2 ^ k) = unat h mod 2 ^ k"
  by (simp add: slot_hash_def mask_eq_exp_minus_1[symmetric] unat_and_mask)

lemma unat_low_handle: "unat ((word_of_nat i + index) AND HANDLE_MASK) = (i + unat index) mod 2 ^ 24"
proof -
  have "unat (word_of_nat i + index) = (i + unat index) mod 2 ^ 32"
    by (simp add: unat_word_ariths unat_of_nat mod_simps)
  then show ?thesis
    by (simp only: HANDLE_MASK_mask unat_and_mask mod_pow_le)
qed

lemma slot_hash_low:
  assumes "k \<le> 24"
  shows "slot_hash ((word_of_nat i + index) AND HANDLE_MASK) (2 ^ k) = (i + unat index) mod 2 ^ k"
  using assms mod_pow_le[OF assms] by (simp add: slot_hash_mod unat_low_handle)

lemma slot_hash_or_harbor:
  assumes "k \<le> 24" "take_bit 24 harbor = (0 :: u32)"
  shows "slot_hash (h OR harbor) (2 ^ k) = slot_hash h (2 ^ k)"
proof -
  have "take_bit k harbor = take_bit k (take_bit 24 harbor)" using assms(1) by simp
  then have "take_bit k harbor = 0" using assms(2) by simp
  then have "take_bit k (h OR harbor) = take_bit k h" by (simp add: take_bit_or)
  then have "unat (take_bit k (h OR harbor)) = unat (take_bit k h)" by simp
  then show ?thesis by (simp only: slot_hash_mod unat_take_bit_mod)
qed

lemma find_slot_step:
  "find_slot slot index i =
     (if i < length slot then
        if slot ! slot_hash ((word_of_nat i + index) AND HANDLE_MASK) (length slot) = None
        then Some ((word_of_nat i + index) AND HANDLE_MASK,
                   slot_hash ((word_of_nat i + index) AND HANDLE_MASK) (length slot))
        else find_slot slot index (Suc i)
      else None)"
  by (subst find_slot.simps) (simp add: Let_def)

lemma find_slot_Some:
  "find_slot slot index i = Some (h, hash) \<Longrightarrow>
     slot ! hash = None \<and> hash = slot_hash h (length slot) \<and>
     (\<exists>j < length slot. i \<le> j \<and> h = (word_of_nat j + index) AND HANDLE_MASK)"
proof (induction "length slot - i" arbitrary: i)
  case 0
  then show ?case by (simp add: find_slot_step[of slot index i])
next
  case (Suc n)
  note step = find_slot_step[of slot index i]
  show ?case
  proof (cases "slot ! slot_hash ((word_of_nat i + index) AND HANDLE_MASK) (length slot) = None")
    case True
    with Suc.prems show ?thesis by (auto simp: step split: if_splits)
  next
    case False
    with Suc.prems have "find_slot slot index (Suc i) = Some (h, hash)"
      by (simp add: step split: if_splits)
    moreover have "n = length slot - Suc i" using Suc.hyps(2) by simp
    ultimately show ?thesis using Suc.hyps(1)[of "Suc i"] by (blast intro: Suc_leD)
  qed
qed

lemma find_slot_None:
  "find_slot slot index i = None \<Longrightarrow> i \<le> j \<Longrightarrow> j < length slot \<Longrightarrow>
     slot ! slot_hash ((word_of_nat j + index) AND HANDLE_MASK) (length slot) \<noteq> None"
proof (induction "j - i" arbitrary: i)
  case 0
  then show ?case by (auto simp: find_slot_step[of slot index i] split: if_splits)
next
  case (Suc n)
  then have "find_slot slot index (Suc i) = None"
    by (auto simp: find_slot_step[of slot index i] split: if_splits)
  with Suc.hyps(1)[of "Suc i"] Suc.hyps(2) Suc.prems show ?case by simp
qed

text \<open>The probe sequence visits every slot.\<close>

lemma probe_covers:
  fixes t idx n :: nat
  assumes "t < n"
  shows "\<exists>j < n. (j + idx) mod n = t"
proof (intro exI conjI)
  let ?j = "(t + (n - idx mod n)) mod n"
  show "?j < n" using assms by simp
  have "(?j + idx) mod n = (t + (n - idx mod n) + idx mod n) mod n"
    by (metis mod_add_left_eq mod_add_right_eq)
  also have "t + (n - idx mod n) + idx mod n = t + n"
    using assms mod_less_divisor[of n idx] by linarith
  also have "(t + n) mod n = t" using assms by simp
  finally show "(?j + idx) mod n = t" .
qed

definition handle_inv :: "'a handle_state_scheme \<Rightarrow> bool" where
  "handle_inv s \<longleftrightarrow>
     (\<exists>k \<le> 24. length (h_slot s) = 2 ^ k) \<and> take_bit 24 (h_harbor s) = 0 \<and>
     (\<forall>i c. i < length (h_slot s) \<longrightarrow> h_slot s ! i = Some c \<longrightarrow>
        (\<exists>x. ctx_heap s c = Some x \<and> slot_hash (ctx_handle x) (length (h_slot s)) = i))"

lemma find_slot_free:
  assumes "k \<le> 24" "length slot = 2 ^ k" "t < 2 ^ k" "slot ! t = None"
  shows "find_slot slot index 0 \<noteq> None"
proof
  assume "find_slot slot index 0 = None"
  moreover obtain j where "j < 2 ^ k" "(j + unat index) mod 2 ^ k = t" using probe_covers[OF assms(3)] by blast
  ultimately show False using find_slot_None[of slot index 0 j] assms slot_hash_low[OF assms(1)] by simp
qed

lemma rehash_moves:
  assumes "\<And>d. d \<in> set ds \<Longrightarrow> ch d = Some (hf d)"
    and "distinct (map (\<lambda>d. slot_hash (hf d) (length new)) ds)"
    and "\<And>d. d \<in> set ds \<Longrightarrow> slot_hash (hf d) (length new) < length new \<and>
           new ! slot_hash (hf d) (length new) = None"
  shows "\<exists>new'. rehash ch (map Some ds) new = Some new' \<and> length new' = length new \<and>
    (\<forall>d \<in> set ds. new' ! slot_hash (hf d) (length new) = Some d) \<and>
    (\<forall>i. i \<notin> (\<lambda>d. slot_hash (hf d) (length new)) ` set ds \<longrightarrow> new' ! i = new ! i)"
  using assms
proof (induction ds arbitrary: new)
  case (Cons a ds)
  let ?h = "\<lambda>d. slot_hash (hf d) (length new)"
  let ?n = "new[?h a := Some a]"
  have len: "length ?n = length new" by simp
  have out: "?h a \<notin> ?h ` set ds" using Cons.prems(2) by simp
  have "?n ! ?h d = None" if "d \<in> set ds" for d
    using that out Cons.prems(3)[of d] by (metis imageI list.set_intros(2) nth_list_update_neq)
  then obtain new' where new': "rehash ch (map Some ds) ?n = Some new'" "length new' = length new"
    "\<forall>d \<in> set ds. new' ! ?h d = Some d" "\<forall>i. i \<notin> ?h ` set ds \<longrightarrow> new' ! i = ?n ! i"
    using Cons.IH[of ?n] Cons.prems unfolding len by auto
  have "rehash ch (map Some (a # ds)) new = Some new'"
    using Cons.prems(1,3)[of a] new'(1) by simp
  moreover have "new' ! ?h a = Some a" using new'(4) out Cons.prems(3)[of a] by simp
  moreover have "new' ! i = new ! i" if "i \<notin> ?h ` set (a # ds)" for i
    using that new'(4) by simp
  ultimately show ?case using new' by auto
qed simp

text \<open>Doubling a full table succeeds, keeps the invariant and every lookup.\<close>

lemma slot_hash_double:
  "slot_hash h (2 ^ Suc k) mod 2 ^ k = slot_hash h (2 ^ k)"
  using mod_pow_le[of k "Suc k" "unat h"] by (simp add: slot_hash_mod del: power_Suc)

lemma handle_inv_size: "handle_inv s \<Longrightarrow> slot_hash h (length (h_slot s)) < length (h_slot s)"
  by (auto simp: handle_inv_def slot_hash_mod)

lemma handle_lookup_iff:
  assumes "handle_inv s"
  shows "handle_lookup s h = Some c \<longleftrightarrow>
    Some c \<in> set (h_slot s) \<and> skynet_context_handle c s = Some h"
proof
  assume "handle_lookup s h = Some c"
  then show "Some c \<in> set (h_slot s) \<and> skynet_context_handle c s = Some h"
    by (auto simp: handle_lookup_def bind_eq_Some_iff cell_get_Some_iff in_set_conv_nth split: if_splits)
next
  assume *: "Some c \<in> set (h_slot s) \<and> skynet_context_handle c s = Some h"
  then obtain i where i: "i < length (h_slot s)" "h_slot s ! i = Some c"
    by (auto simp: in_set_conv_nth)
  with assms * have "slot_hash h (length (h_slot s)) = i"
    by (auto simp: handle_inv_def skynet_context_handle_def)
  with i * show "handle_lookup s h = Some c"
    by (simp add: handle_lookup_def cell_get_def)
qed

lemma rehash_full:
  assumes inv: "handle_inv s" and k: "k < 24" "length (h_slot s) = 2 ^ k"
    and full: "None \<notin> set (h_slot s)"
  shows "\<exists>new. rehash (\<lambda>d. skynet_context_handle d s) (h_slot s)
            (replicate (length (h_slot s) * 2) None) = Some new \<and>
      length new = 2 ^ Suc k \<and> handle_inv (s\<lparr>h_slot := new\<rparr>) \<and> None \<in> set new \<and>
      (\<forall>c. Some c \<in> set new \<longleftrightarrow> Some c \<in> set (h_slot s))"
proof -
  define ds where "ds = map the (h_slot s)"
  define hf where "hf d = the (skynet_context_handle d s)" for d
  let ?new = "replicate (length (h_slot s) * 2) None :: ctxid option list"
  let ?g = "\<lambda>d. slot_hash (hf d) (2 ^ Suc k)"
  have slot: "h_slot s = map Some ds"
    unfolding ds_def using full by (simp add: map_idI[symmetric] comp_def) (metis map_idI option.collapse)
  have lds: "length ds = 2 ^ k" using k by (simp add: ds_def)
  have lnew: "length ?new = 2 ^ Suc k" using k by simp
  have pos: "skynet_context_handle (ds ! i) s = Some (hf (ds ! i)) \<and> slot_hash (hf (ds ! i)) (2 ^ k) = i"
    if "i < 2 ^ k" for i
    using inv that slot lds k by (auto simp: handle_inv_def skynet_context_handle_def hf_def)
  have posd: "skynet_context_handle d s = Some (hf d)" if "d \<in> set ds" for d
    using that pos lds by (auto simp: in_set_conv_nth)
  have "?g (ds ! i) mod 2 ^ k = i" if "i < 2 ^ k" for i
    using pos[OF that] slot_hash_double[of "hf (ds ! i)" k] by simp
  then have dist: "distinct (map ?g ds)" by (auto simp: distinct_conv_nth lds) metis
  have lt: "?g d < 2 ^ Suc k" for d using k by (simp add: slot_hash_mod del: power_Suc)
  have nn: "?new ! ?g d = None" for d using lt[of d] lnew by simp
  obtain new where new: "rehash (\<lambda>d. skynet_context_handle d s) (map Some ds) ?new = Some new"
      "length new = length ?new" "\<forall>d \<in> set ds. new ! ?g d = Some d"
      "\<forall>i. i \<notin> ?g ` set ds \<longrightarrow> new ! i = ?new ! i"
    using rehash_moves[of ds "\<lambda>d. skynet_context_handle d s" hf ?new] posd dist lt nn lnew
    unfolding lnew by auto
  have none: "new ! i = None" if "i < 2 ^ Suc k" "i \<notin> ?g ` set ds" for i
    using that new(4) lnew by simp
  have "card (?g ` set ds) < card {..<2 ^ Suc k :: nat}"
    using card_image_le[of "set ds" ?g] card_length[of ds] lds by (simp add: order_le_less_trans)
  then have "\<not> {..<2 ^ Suc k} \<subseteq> ?g ` set ds" by (meson card_mono finite_imageI finite_set not_less)
  then have free: "None \<in> set new" using none new(2) lnew by (metis in_set_conv_nth lessThan_iff subsetI)
  have at: "c \<in> set ds \<and> i = ?g c" if "new ! i = Some c" "i < 2 ^ Suc k" for i c
  proof -
    have "i \<in> ?g ` set ds" using none[of i] that by (cases "i \<in> ?g ` set ds") auto
    then obtain d where "d \<in> set ds" "i = ?g d" by blast
    with new(3) that show ?thesis by auto
  qed
  have mem: "Some c \<in> set new \<longleftrightarrow> c \<in> set ds" for c
  proof
    assume "Some c \<in> set new"
    then obtain i where "i < 2 ^ Suc k" "new ! i = Some c"
      using new(2) lnew by (metis in_set_conv_nth)
    with at show "c \<in> set ds" by blast
  next
    assume "c \<in> set ds"
    with new lt lnew show "Some c \<in> set new" by (metis nth_mem)
  qed
  have "handle_inv (s\<lparr>h_slot := new\<rparr>)"
    unfolding handle_inv_def
  proof (intro conjI allI impI)
    show "\<exists>k\<le>24. length (h_slot (s\<lparr>h_slot := new\<rparr>)) = 2 ^ k"
      using new(2) lnew k by (intro exI[of _ "Suc k"]) simp
    show "take_bit 24 (h_harbor (s\<lparr>h_slot := new\<rparr>)) = 0" using inv by (simp add: handle_inv_def)
    fix i c assume "i < length (h_slot (s\<lparr>h_slot := new\<rparr>))" "h_slot (s\<lparr>h_slot := new\<rparr>) ! i = Some c"
    then have c: "c \<in> set ds" "i = ?g c" using at new(2) lnew by auto
    then obtain j where "j < 2 ^ k" "c = ds ! j" using lds by (metis in_set_conv_nth)
    with pos[of j] obtain x where "ctx_heap s c = Some x" "ctx_handle x = hf c"
      by (auto simp: skynet_context_handle_def)
    with c show "\<exists>x. ctx_heap (s\<lparr>h_slot := new\<rparr>) c = Some x \<and>
        slot_hash (ctx_handle x) (length (h_slot (s\<lparr>h_slot := new\<rparr>))) = i"
      using new(2) lnew by (simp add: mult.commute)
  qed
  then show ?thesis using new free mem slot lnew by auto
qed

text \<open>
  Registering: the context joins the table and its field \<open>handle\<close> is set to the handle
  \<open>skynet_handle_register\<close> returns, as \<open>skynet_context_new\<close> does. The code sets the field after the lock of the table has
  been given back; the theorems about \<open>register_context\<close> take both as one step, and \<open>register_race_loses_context\<close>
  below shows what another thread can do in between.
\<close>

definition register_context ::
  "ctxid \<Rightarrow> 'a handle_state_scheme \<Rightarrow> (u32 \<times> 'a handle_state_scheme) option" where
  "register_context c s = do {
     r \<leftarrow> skynet_handle_register c s;
     s' \<leftarrow> ctx_update c (\<lambda>x. x\<lparr>ctx_handle := fst r\<rparr>) (snd r);
     Some (fst r, s') }"

definition can_register :: "ctxid \<Rightarrow> 'a handle_state_scheme \<Rightarrow> bool" where
  "can_register c s \<longleftrightarrow>
     ctx_heap s c \<noteq> None \<and> Some c \<notin> set (h_slot s) \<and>
     (None \<in> set (h_slot s) \<or> length (h_slot s) < 2 ^ 24)"

lemma register_free:
  assumes inv: "handle_inv s" and c: "ctx_heap s c = Some x" "Some c \<notin> set (h_slot s)"
    and free: "None \<in> set (h_slot s)"
  shows "\<exists>h s'. register_context c s = Some (h, s') \<and> handle_inv s' \<and>
    handle_lookup s h = None \<and> handle_lookup s' = (handle_lookup s)(h \<mapsto> c)"
proof -
  obtain k where k: "k \<le> 24" "length (h_slot s) = 2 ^ k" using inv by (auto simp: handle_inv_def)
  obtain t where "t < 2 ^ k" "h_slot s ! t = None" using free k by (auto simp: in_set_conv_nth)
  from find_slot_free[OF k this] obtain h0 hash where fs: "find_slot (h_slot s) (h_handle_index s) 0 = Some (h0, hash)"
    by fastforce
  have f: "h_slot s ! hash = None" "hash = slot_hash h0 (length (h_slot s))"
    using find_slot_Some[OF fs] by blast+
  let ?h = "h0 OR h_harbor s"
  have hash: "slot_hash ?h (length (h_slot s)) = hash" "hash < length (h_slot s)"
    using f k slot_hash_or_harbor[of k "h_harbor s" h0] inv handle_inv_size[OF inv, of h0]
    by (auto simp: handle_inv_def)
  let ?s = "s\<lparr>h_slot := (h_slot s)[hash := Some c], h_handle_index := h0 + 1,
      ctx_heap := (ctx_heap s)(c \<mapsto> x\<lparr>ctx_handle := ?h\<rparr>)\<rparr>"
  have reg: "register_context c s = Some (?h, ?s)"
    using fs c by (simp add: register_context_def ctx_update_def skynet_handle_register.simps[of c s])
  have neq: "d \<noteq> c" if "Some d \<in> set (h_slot s)" for d using that c by auto
  have inv': "handle_inv ?s"
    using inv hash neq k unfolding handle_inv_def
    by (auto simp: nth_list_update) (metis nth_mem)
  have mem: "Some d \<in> set ((h_slot s)[hash := Some c]) \<longleftrightarrow> d = c \<or> Some d \<in> set (h_slot s)" for d
  proof
    assume "Some d \<in> set ((h_slot s)[hash := Some c])"
    then show "d = c \<or> Some d \<in> set (h_slot s)"
      using set_update_subset_insert[of "h_slot s" hash "Some c"] by auto
  next
    assume "d = c \<or> Some d \<in> set (h_slot s)"
    moreover have "Some d \<in> set ((h_slot s)[hash := Some c])" if "Some d \<in> set (h_slot s)"
    proof -
      from that obtain j where "j < length (h_slot s)" "h_slot s ! j = Some d"
        by (auto simp: in_set_conv_nth)
      moreover from this f(1) have "j \<noteq> hash" by auto
      ultimately show ?thesis by (auto simp: in_set_conv_nth intro!: exI[of _ j])
    qed
    ultimately show "Some d \<in> set ((h_slot s)[hash := Some c])"
      using hash(2) by (auto intro: set_update_memI)
  qed
  have "handle_lookup s ?h = None"
    unfolding handle_lookup_def hash(1) using f(1) hash(2) by (simp add: cell_get_def)
  moreover have "handle_lookup ?s = (handle_lookup s)(?h \<mapsto> c)"
  proof
    fix g
    have "handle_lookup ?s g = Some d \<longleftrightarrow> ((handle_lookup s)(?h \<mapsto> c)) g = Some d" for d
    proof -
      have "handle_lookup ?s g = Some d \<longleftrightarrow> (d = c \<or> Some d \<in> set (h_slot s)) \<and> skynet_context_handle d ?s = Some g"
        unfolding handle_lookup_iff[OF inv'] using mem by simp
      also have "\<dots> \<longleftrightarrow> (d = c \<and> g = ?h) \<or> handle_lookup s g = Some d"
        unfolding handle_lookup_iff[OF inv] using c neq by (auto simp: skynet_context_handle_def)
      finally have "handle_lookup ?s g = Some d \<longleftrightarrow> (d = c \<and> g = ?h) \<or> handle_lookup s g = Some d" .
      with \<open>handle_lookup s ?h = None\<close> show ?thesis by auto
    qed
    then show "handle_lookup ?s g = ((handle_lookup s)(?h \<mapsto> c)) g"
      by (metis option.exhaust)
  qed
  ultimately show ?thesis using reg inv' by blast
qed

lemma register_lookup:
  assumes inv: "handle_inv s" and can: "can_register c s"
  shows "\<exists>h s'. register_context c s = Some (h, s') \<and> handle_inv s' \<and>
    handle_lookup s h = None \<and> handle_lookup s' = (handle_lookup s)(h \<mapsto> c)"
proof -
  obtain x where c: "ctx_heap s c = Some x" "Some c \<notin> set (h_slot s)"
    using can by (auto simp: can_register_def)
  show ?thesis
  proof (cases "None \<in> set (h_slot s)")
    case True
    with register_free[OF inv c] show ?thesis .
  next
    case False
    obtain k where k: "k \<le> 24" "length (h_slot s) = 2 ^ k" using inv by (auto simp: handle_inv_def)
    with can False have "(2::nat) ^ k < 2 ^ 24" by (simp add: can_register_def)
    then have k24: "k < 24" using power_less_imp_less_exp[of 2 k 24] by simp
    obtain new where new: "rehash (\<lambda>d. skynet_context_handle d s) (h_slot s)
          (replicate (length (h_slot s) * 2) None) = Some new"
      "handle_inv (s\<lparr>h_slot := new\<rparr>)" "None \<in> set new"
      "\<And>c. Some c \<in> set new \<longleftrightarrow> Some c \<in> set (h_slot s)"
      using rehash_full[OF inv k24 k(2) False] by blast
    let ?s = "s\<lparr>h_slot := new\<rparr>"
    have "find_slot (h_slot s) (h_handle_index s) 0 = None"
    proof (rule ccontr)
      assume "find_slot (h_slot s) (h_handle_index s) 0 \<noteq> None"
      then obtain h hash where "find_slot (h_slot s) (h_handle_index s) 0 = Some (h, hash)" by auto
      from find_slot_Some[OF this] have "h_slot s ! slot_hash h (length (h_slot s)) = None" by auto
      with False handle_inv_size[OF inv, of h] show False by (metis nth_mem)
    qed
    moreover have "(2::nat) ^ k \<le> 2 ^ 23" using k24 by (intro power_increasing) auto
    then have "length (h_slot s) * 2 - 1 \<le> unat HANDLE_MASK" using k by (simp add: HANDLE_MASK_def)
    ultimately have "skynet_handle_register c s = skynet_handle_register c ?s"
      using new(1) by (simp add: skynet_handle_register.simps[of c s])
    then have reg: "register_context c s = register_context c ?s" by (simp add: register_context_def)
    have lk: "handle_lookup ?s = handle_lookup s"
    proof
      fix h
      have "handle_lookup ?s h = Some d \<longleftrightarrow> handle_lookup s h = Some d" for d
        unfolding handle_lookup_iff[OF inv] handle_lookup_iff[OF new(2)]
        using new(4) by (simp add: skynet_context_handle_def)
      then show "handle_lookup ?s h = handle_lookup s h" by (metis option.exhaust)
    qed
    from register_free[OF new(2)] c new(3,4) show ?thesis unfolding reg lk by simp
  qed
qed

lemma unregister_lookup:
  assumes inv: "handle_inv s" "names_inv s" and h: "handle_lookup s h = Some c"
  shows "\<exists>s'. handle_unregister h s = Some (Some c, s') \<and> handle_inv s' \<and> names_inv s' \<and>
    handle_lookup s' = (handle_lookup s)(h := None) \<and>
    names_abs s' = filter (\<lambda>nm. snd nm \<noteq> h) (names_abs s) \<and> ctx_heap s' = ctx_heap s"
proof -
  let ?hash = "slot_hash h (length (h_slot s))"
  have lt: "?hash < length (h_slot s)" by (rule handle_inv_size[OF inv(1)])
  have at: "h_slot s ! ?hash = Some c" "skynet_context_handle c s = Some h"
    using h lt by (auto simp: handle_lookup_def cell_get_def bind_eq_Some_iff split: if_splits)
  obtain n names where cp: "compact_names h 0 0 (h_name_count s) (h_name s) = Some (n, names)"
      "length names = length (h_name s)" "n \<le> h_name_count s" "\<forall>k<n. names ! k \<noteq> None"
      "map the (take n names) = filter (\<lambda>nm. snd nm \<noteq> h) (names_abs s)"
    using compact_names_filter[of 0 0 "h_name_count s" "h_name s" h] inv(2)
    by (auto simp: names_inv_def names_abs_def list_all_length)
  let ?s = "s\<lparr>h_slot := (h_slot s)[?hash := None], h_name_count := n, h_name := names\<rparr>"
  have run: "handle_unregister h s = Some (Some c, ?s)"
    using h cp(1) by (simp add: handle_unregister_def)
  have inv': "handle_inv ?s"
    using inv(1) unfolding handle_inv_def
    by (auto simp: nth_list_update) (metis nth_list_update_eq nth_list_update_neq option.discI)
  have abs: "names_abs ?s = filter (\<lambda>nm. snd nm \<noteq> h) (names_abs s)"
    using cp(5) by (simp add: names_abs_def)
  have "sorted_wrt (<) (map fst (names_abs ?s))"
    unfolding abs using inv(2) by (simp add: names_inv_def sorted_wrt_map sorted_wrt_filter)
  then have "names_inv ?s" using inv(2) cp by (auto simp: names_inv_def list_all_length)
  moreover have "handle_lookup ?s = (handle_lookup s)(h := None)"
  proof
    fix g
    show "handle_lookup ?s g = ((handle_lookup s)(h := None)) g"
    proof (cases "slot_hash g (length (h_slot s)) = ?hash")
      case True
      with at lt show ?thesis by (auto simp: handle_lookup_def cell_get_def)
    next
      case False
      then have "g \<noteq> h" by auto
      with False show ?thesis
        using handle_inv_size[OF inv(1), of g] by (simp add: handle_lookup_def cell_get_def skynet_context_handle_def)
    qed
  qed
  ultimately show ?thesis using run inv' abs by auto
qed

section \<open>The interface the server relies on\<close>

text \<open>
  A registry of contexts: a partial map from handles to contexts, a registration that
  binds a fresh handle, and a removal that unbinds exactly one.
\<close>

locale registry =
  fixes lookup :: "'s \<Rightarrow> 'h \<Rightarrow> 'c option"
    and register :: "'c \<Rightarrow> 's \<Rightarrow> ('h \<times> 's) option"
    and unregister :: "'h \<Rightarrow> 's \<Rightarrow> ('c option \<times> 's) option"
    and invar :: "'s \<Rightarrow> bool"
    and ready :: "'c \<Rightarrow> 's \<Rightarrow> bool"
  assumes register_fresh: "invar s \<Longrightarrow> ready c s \<Longrightarrow>
      \<exists>h s'. register c s = Some (h, s') \<and> invar s' \<and> lookup s h = None \<and> lookup s' = (lookup s)(h \<mapsto> c)"
    and unregister_bound: "invar s \<Longrightarrow> lookup s h = Some c \<Longrightarrow>
      \<exists>s'. unregister h s = Some (Some c, s') \<and> invar s' \<and> lookup s' = (lookup s)(h := None)"
    and unregister_unbound: "lookup s h = None \<Longrightarrow> unregister h s = Some (None, s)"
begin

lemma register_then_unregister:
  assumes "invar s" "ready c s"
  shows "\<exists>h s' s''. register c s = Some (h, s') \<and> lookup s' h = Some c \<and>
    unregister h s' = Some (Some c, s'') \<and> invar s'' \<and> lookup s'' = lookup s"
proof -
  obtain h s' where r: "register c s = Some (h, s')" "invar s'" "lookup s h = None"
      "lookup s' = (lookup s)(h \<mapsto> c)"
    using register_fresh[OF assms] by blast
  then have "lookup s' h = Some c" by simp
  moreover from unregister_bound[OF r(2) this] obtain s'' where
    "unregister h s' = Some (Some c, s'')" "invar s''" "lookup s'' = (lookup s')(h := None)" by blast
  moreover have "(lookup s)(h := None) = lookup s" using r(3) by (rule fun_upd_idem)
  ultimately show ?thesis using r by (intro exI[of _ h] exI[of _ s'] exI[of _ s'']) simp
qed

lemma registered_handles_differ:
  assumes "invar s" "ready c s" "register c s = Some (h, s1)" "ready d s1" "register d s1 = Some (g, s2)"
  shows "h \<noteq> g \<and> lookup s2 h = Some c \<and> lookup s2 g = Some d"
  using register_fresh[OF assms(1,2)] register_fresh[of s1 d] assms(3-5) by auto

end

definition registry_inv :: "'a handle_state_scheme \<Rightarrow> bool" where
  "registry_inv s \<longleftrightarrow> handle_inv s \<and> names_inv s"

lemma names_inv_cong:
  "h_name s' = h_name s \<Longrightarrow> h_name_count s' = h_name_count s \<Longrightarrow> names_inv s' = names_inv s"
  by (simp add: names_inv_def names_abs_def)

lemma handle_register_names:
  "skynet_handle_register c s = Some (h, s') \<Longrightarrow>
     h_name s' = h_name s \<and> h_name_count s' = h_name_count s"
proof -
  assume run: "skynet_handle_register c s = Some (h, s')"
  have "h_name (snd r) = h_name s \<and> h_name_count (snd r) = h_name_count s"
    if "skynet_handle_register c s = Some r" for r
  proof (rule skynet_handle_register.raw_induct
      [where P = "\<lambda>c s r. h_name (snd r) = h_name s \<and> h_name_count (snd r) = h_name_count s", OF _ that])
    fix f c and s :: "'a handle_state_scheme" and r
    assume IH: "\<And>c s r. f c s = Some r \<Longrightarrow> h_name (snd r) = h_name s \<and> h_name_count (snd r) = h_name_count s"
      and eq: "(case find_slot (h_slot s) (h_handle_index s) 0 of
        None \<Rightarrow> if \<not> length (h_slot s) * 2 - 1 \<le> unat HANDLE_MASK then None
          else rehash (\<lambda>d. skynet_context_handle d s) (h_slot s) (replicate (length (h_slot s) * 2) None)
            \<bind> (\<lambda>new_slot. f c (s\<lparr>h_slot := new_slot\<rparr>))
      | Some ra \<Rightarrow> Some (fst ra OR h_harbor s,
          s\<lparr>h_slot := (h_slot s)[snd ra := Some c], h_handle_index := fst ra + 1\<rparr>)) = Some r"
    then show "h_name (snd r) = h_name s \<and> h_name_count (snd r) = h_name_count s"
      by (auto simp: bind_eq_Some_iff split: option.splits if_splits dest!: IH)
  qed
  from this[OF run] show ?thesis by simp
qed

interpretation hreg: registry handle_lookup register_context handle_unregister registry_inv can_register
proof unfold_locales
  fix s :: "'a handle_state_scheme" and c
  assume inv: "registry_inv s" and can: "can_register c s"
  then obtain h s' where r: "register_context c s = Some (h, s')" "handle_inv s'"
      "handle_lookup s h = None" "handle_lookup s' = (handle_lookup s)(h \<mapsto> c)"
    using register_lookup[of s c] by (auto simp: registry_inv_def)
  from r(1) obtain s0 where s0: "skynet_handle_register c s = Some (h, s0)"
      "ctx_update c (\<lambda>x. x\<lparr>ctx_handle := h\<rparr>) s0 = Some s'"
    by (auto simp: register_context_def bind_eq_Some_iff)
  then have "h_name s' = h_name s" "h_name_count s' = h_name_count s"
    using handle_register_names[OF s0(1)] by (auto simp: ctx_update_def bind_eq_Some_iff)
  then have "names_inv s'" using inv names_inv_cong[of s' s] by (simp add: registry_inv_def)
  with r show "\<exists>h s'. register_context c s = Some (h, s') \<and> registry_inv s' \<and>
      handle_lookup s h = None \<and> handle_lookup s' = (handle_lookup s)(h \<mapsto> c)"
    by (auto simp: registry_inv_def)
next
  fix s :: "'a handle_state_scheme" and h c
  assume "registry_inv s" "handle_lookup s h = Some c"
  then show "\<exists>s'. handle_unregister h s = Some (Some c, s') \<and> registry_inv s' \<and>
      handle_lookup s' = (handle_lookup s)(h := None)"
    using unregister_lookup[of s h c] by (auto simp: registry_inv_def)
next
  fix s :: "'a handle_state_scheme" and h
  assume "handle_lookup s h = None"
  then show "handle_unregister h s = Some (None, s)" by (simp add: handle_unregister_def)
qed

lemma registry_inv_init:
  "registry_inv (handle_storage_init harbor s)" "handle_lookup (handle_storage_init harbor s) h = None"
proof -
  have "take_bit 24 (push_bit HANDLE_REMOTE_SHIFT (word_of_int harbor AND 0xff) :: u32) = 0"
    by (simp add: HANDLE_REMOTE_SHIFT_def take_bit_push_bit)
  then show "registry_inv (handle_storage_init harbor s)"
    by (auto simp: registry_inv_def handle_storage_init_def handle_inv_def names_inv_def names_abs_def
        DEFAULT_SLOT_SIZE_def intro: exI[of _ 2])
  have "slot_hash h 4 < 4" using slot_hash_mod[of h 2] by simp
  then show "handle_lookup (handle_storage_init harbor s) h = None"
    by (simp add: handle_storage_init_def handle_lookup_def cell_get_def DEFAULT_SLOT_SIZE_def)
qed

section \<open>Properties\<close>

text \<open>A storage as \<open>skynet_handle_init(1)\<close> leaves it, with two contexts allocated and not registered.\<close>

definition blank_context :: skynet_context where
  "blank_context = \<lparr>ctx_instance = 0, ctx_mod = 0, ctx_cb_ud = 0, ctx_cb = None, ctx_queue = 0,
     ctx_logfile = None, ctx_result = [], ctx_handle = 0, ctx_session_id = 0, ctx_ref = 2,
     ctx_init = False, ctx_endless = False\<rparr>"

definition blank_storage :: handle_state where
  "blank_storage = \<lparr>mq_heap = Map.empty, mq_fresh = 0, gq_head = None, gq_tail = None,
     ctx_heap = [0 \<mapsto> blank_context, 1 \<mapsto> blank_context], ctx_fresh = 2, node_total = 0,
     h_harbor = 0, h_handle_index = 0, h_slot = [], h_name_count = 0, h_name = []\<rparr>"

definition small_storage :: handle_state where
  "small_storage = handle_storage_init 1 blank_storage"

lemma small_storage_ready: "registry_inv small_storage" "can_register 0 small_storage"
  by (simp add: small_storage_def registry_inv_init)
     (simp add: small_storage_def can_register_def handle_storage_init_def blank_storage_def DEFAULT_SLOT_SIZE_def)

text \<open>
  C4. Registering a context always succeeds while the table is not full at its largest size,
  however many times it has to be doubled; the handle it returns was not in use, names the
  context from then on, and every other handle keeps its meaning.
\<close>

theorem handle_register_fresh:
  assumes "registry_inv s" "can_register c s"
  shows "\<exists>h s'. register_context c s = Some (h, s') \<and> registry_inv s' \<and>
    handle_lookup s h = None \<and> handle_lookup s' = (handle_lookup s)(h \<mapsto> c)"
  using assms by (rule hreg.register_fresh)

theorem handle_register_fresh_witness:
  "\<exists>h s'. register_context 0 small_storage = Some (h, s') \<and> registry_inv s' \<and>
    handle_lookup small_storage h = None \<and>
    handle_lookup s' = (handle_lookup small_storage)(h \<mapsto> 0)"
  using handle_register_fresh[OF small_storage_ready] .

text \<open>
  C31. Retiring a handle unbinds it and nothing else, drops exactly the names given to it and
  keeps the others in their order; retiring a handle that names no context changes nothing.
\<close>

theorem handle_retire_exact:
  assumes "registry_inv s"
  shows "(\<forall>c. handle_lookup s h = Some c \<longrightarrow>
      (\<exists>s'. handle_unregister h s = Some (Some c, s') \<and> registry_inv s' \<and>
        handle_lookup s' = (handle_lookup s)(h := None) \<and>
        names_abs s' = filter (\<lambda>nm. snd nm \<noteq> h) (names_abs s))) \<and>
    (handle_lookup s h = None \<longrightarrow> skynet_handle_retire mod_release h s = Some (False, s))"
  using unregister_lookup[of s h] assms hreg.unregister_unbound[of s h]
  by (auto simp: registry_inv_def skynet_handle_retire_def)

theorem handle_retire_exact_witness:
  "skynet_handle_retire (\<lambda>_ _. None) 9 small_storage = Some (False, small_storage)"
  using handle_retire_exact[OF small_storage_ready(1), of 9 "\<lambda>_ _. None"]
  by (simp add: small_storage_def registry_inv_init)

text \<open>
  The bisection of \<open>skynet_handle_findname\<close> stops and finds exactly the handle a linear
  search finds, 0 where the name is not in the table.
\<close>

theorem findname_is_map_of:
  assumes "names_inv s"
  shows "skynet_handle_findname name s =
    Some (case map_of (names_abs s) name of None \<Rightarrow> 0 | Some h \<Rightarrow> h)"
  using assms by (rule findname_map_of)

theorem findname_is_map_of_witness:
  "skynet_handle_findname ''db'' small_storage = Some 0"
  using findname_is_map_of[of small_storage "''db''"] small_storage_ready(1)
  by (simp add: registry_inv_def small_storage_def handle_storage_init_def names_abs_def)

lemma map_of_eqI':
  assumes "distinct (map fst xs)" "m = map_of ys" "distinct (map fst ys)" "set xs = set ys"
  shows "map_of xs = m"
  using assms map_of_inject_set by blast

text \<open>
  C30. Naming a handle: a name already taken is refused and the table is unchanged; a new name
  is inserted, the array grown if need be, the table stays sorted, and from then on the name
  resolves to the handle and every other name to what it did before.
\<close>

theorem namehandle_correct:
  assumes "names_inv s" "2 * length (h_name s) \<le> MAX_SLOT_SIZE"
  shows "if name \<in> fst ` set (names_abs s)
    then skynet_handle_namehandle h name s = Some (None, s)
    else \<exists>s'. skynet_handle_namehandle h name s = Some (Some name, s') \<and> names_inv s' \<and>
           skynet_handle_findname name s' = Some h \<and>
           (\<forall>other. other \<noteq> name \<longrightarrow>
              skynet_handle_findname other s' = skynet_handle_findname other s)"
proof (cases "name \<in> fst ` set (names_abs s)")
  case True
  with namehandle_taken[OF assms(1)] show ?thesis by simp
next
  case False
  obtain s' p where s': "skynet_handle_namehandle h name s = Some (Some name, s')" "names_inv s'"
      "names_abs s' = insert_cells p (name, h) (names_abs s)"
    using namehandle_new[OF assms(1) False assms(2)] by blast
  have "map_of (names_abs s') = (map_of (names_abs s))(name \<mapsto> h)"
  proof (rule map_of_eqI')
    show "distinct (map fst (names_abs s'))" by (rule names_distinct[OF s'(2)])
    show "(map_of (names_abs s))(name \<mapsto> h) = map_of ((name, h) # names_abs s)" by simp
    show "distinct (map fst ((name, h) # names_abs s))"
      using False names_distinct[OF assms(1)] by simp
    show "set (names_abs s') = set ((name, h) # names_abs s)"
      by (simp add: s'(3) set_insert_cells)
  qed
  with s' False show ?thesis by (simp add: findname_map_of assms(1))
qed

theorem namehandle_correct_witness:
  "\<exists>s'. skynet_handle_namehandle 5 ''db'' small_storage = Some (Some ''db'', s') \<and>
     skynet_handle_findname ''db'' s' = Some 5"
  using namehandle_correct[of small_storage "''db''" 5] small_storage_ready(1)
  by (auto simp: registry_inv_def small_storage_def handle_storage_init_def names_abs_def MAX_SLOT_SIZE_def)

text \<open>
  Handle 0 is reserved for the system, but the registration does not keep it free: once
  the index has run through the 24 bits of the mask, a free slot 0 is given to the next
  context under the handle that has only the harbor bits, which is 0 on node 0.
\<close>

theorem register_gives_reserved_handle:
  assumes "handle_inv s" "h_handle_index s = 0x1000000" "h_slot s ! 0 = None"
  shows "skynet_handle_register c s =
    Some (h_harbor s, s\<lparr>h_slot := (h_slot s)[0 := Some c], h_handle_index := 1\<rparr>)"
proof -
  obtain k where k: "k \<le> 24" "length (h_slot s) = 2 ^ k" using assms(1) by (auto simp: handle_inv_def)
  have "find_slot (h_slot s) 0x1000000 0 = Some (0, 0)"
    using assms(3) k slot_hash_mod[of 0 k]
    by (simp add: find_slot_step[of "h_slot s" "0x1000000" 0] HANDLE_MASK_def)
  with assms(2) show ?thesis by (simp add: skynet_handle_register.simps[of c s])
qed

theorem register_gives_reserved_handle_witness:
  "\<exists>s'. skynet_handle_register 0
     (handle_storage_init 0 blank_storage\<lparr>h_handle_index := 0x1000000\<rparr>) = Some (0, s')"
proof -
  let ?s = "handle_storage_init 0 blank_storage\<lparr>h_handle_index := 0x1000000\<rparr>"
  have "handle_inv ?s"
    using registry_inv_init(1)[of 0 blank_storage] by (simp add: registry_inv_def handle_inv_def)
  moreover have "h_slot ?s ! 0 = None" "h_harbor ?s = 0"
    by (simp_all add: handle_storage_init_def DEFAULT_SLOT_SIZE_def)
  ultimately show ?thesis using register_gives_reserved_handle[of ?s 0] by simp
qed

text \<open>
  Four contexts fill the first table; the fourth has been given slot 0 and handle 4, but the
  thread that registers it has not yet stored the handle in the context, which
  \<open>skynet_context_new\<close> does after the lock is gone.
\<close>

definition race_storage :: handle_state where
  "race_storage = \<lparr>mq_heap = Map.empty, mq_fresh = 0, gq_head = None, gq_tail = None,
     ctx_heap = [0 \<mapsto> blank_context\<lparr>ctx_handle := 1\<rparr>, 1 \<mapsto> blank_context\<lparr>ctx_handle := 2\<rparr>,
                 2 \<mapsto> blank_context\<lparr>ctx_handle := 3\<rparr>, 3 \<mapsto> blank_context, 4 \<mapsto> blank_context],
     ctx_fresh = 5, node_total = 4, h_harbor = 0, h_handle_index = 5,
     h_slot = [Some 3, Some 0, Some 1, Some 2], h_name_count = 0, h_name = [None, None]\<rparr>"

text \<open>
  The registration and the store of the handle into the context are not one step: if
  another thread's registration doubles the table in between, it files the context by the
  handle 0 the context still carries, and once the handle is stored no lookup finds it.
\<close>

lemma register_race_loses_context:
  "\<exists>s' s''. skynet_handle_register 4 race_storage = Some (5, s') \<and>
     ctx_update 3 (\<lambda>x. x\<lparr>ctx_handle := 4\<rparr>) s' = Some s'' \<and>
     Some 3 \<in> set (h_slot s'') \<and> handle_lookup s'' 4 = None"
proof -
  let ?new = "[Some 3, Some 0, Some 1, Some 2, None, None, None, None] :: ctxid option list"
  have full: "find_slot (h_slot race_storage) (h_handle_index race_storage) 0 = None"
    by (simp add: race_storage_def find_slot_step slot_hash_def HANDLE_MASK_def)
  have re: "rehash (\<lambda>d. skynet_context_handle d race_storage) (h_slot race_storage)
      (replicate (length (h_slot race_storage) * 2) None) = Some ?new"
  proof -
    have "replicate (length (h_slot race_storage) * 2) None =
        ([None, None, None, None, None, None, None, None] :: ctxid option list)"
      by (simp add: race_storage_def numeral_eq_Suc)
    then show ?thesis
      by (simp add: race_storage_def blank_context_def skynet_context_handle_def slot_hash_def)
  qed
  have free: "find_slot ?new (h_handle_index race_storage) 0 = Some (5, 5)"
    by (simp add: race_storage_def find_slot_step slot_hash_def HANDLE_MASK_def)
  let ?s = "race_storage\<lparr>h_slot := ?new[5 := Some 4], h_handle_index := 6\<rparr>"
  have "skynet_handle_register 4 (race_storage\<lparr>h_slot := ?new\<rparr>) = Some (5, ?s)"
    using free by (subst skynet_handle_register.simps) (simp add: race_storage_def)
  moreover have "length (h_slot race_storage) * 2 - 1 \<le> unat HANDLE_MASK"
    by (simp add: HANDLE_MASK_def race_storage_def)
  ultimately have reg: "skynet_handle_register 4 race_storage = Some (5, ?s)"
    using full re by (subst skynet_handle_register.simps) (simp del: length_map)
  show ?thesis
    unfolding reg by (simp add: ctx_update_def race_storage_def handle_lookup_def cell_get_def slot_hash_def)
qed

end
