(* ===== verification/Wheel.thy ===== *)
theory Wheel
  imports Prelude
begin

text \<open>
  The timing wheel of \<open>skynet_timer.c\<close>: five levels of slots (256 near slots and four levels
  of 64), a 32-bit clock that wraps around, insertion by the highest bits in which the expiry
  differs from the clock, and the cascade that moves one slot down a level each time the
  lower bits of the clock are all zero. A linked list with its tail pointer is the list of
  its nodes: \<open>link\<close> appends, \<open>link_clear\<close> takes all and leaves it empty.
\<close>

section \<open>State and operations\<close>

record timer_event =
  ev_handle :: u32
  ev_session :: i32

record timer_node =
  tn_expire :: u32
  tn_event :: timer_event

record timer =
  ti_near :: "timer_node list list"
  ti_t :: "timer_node list list list"
  ti_time :: u32
  ti_starttime :: u32
  ti_current :: u64
  ti_current_point :: u64

definition TIME_NEAR_SHIFT :: nat where "TIME_NEAR_SHIFT = 8"

definition TIME_NEAR :: nat where "TIME_NEAR = 256"

definition TIME_LEVEL_SHIFT :: nat where "TIME_LEVEL_SHIFT = 6"

definition TIME_LEVEL :: nat where "TIME_LEVEL = 64"

definition TIME_NEAR_MASK :: u32 where "TIME_NEAR_MASK = 255"

definition TIME_LEVEL_MASK :: u32 where "TIME_LEVEL_MASK = 63"

text \<open>A list of the wheel: a near slot or a slot of a level.\<close>

datatype wslot = Near nat | Far nat nat

fun slot_get :: "timer \<Rightarrow> wslot \<Rightarrow> timer_node list" where
  "slot_get T (Near j) = ti_near T ! j"
| "slot_get T (Far i j) = ti_t T ! i ! j"

fun slot_set :: "timer \<Rightarrow> wslot \<Rightarrow> timer_node list \<Rightarrow> timer" where
  "slot_set T (Near j) xs = T\<lparr>ti_near := (ti_near T)[j := xs]\<rparr>"
| "slot_set T (Far i j) xs = T\<lparr>ti_t := (ti_t T)[i := (ti_t T ! i)[j := xs]]\<rparr>"

definition link_clear :: "wslot \<Rightarrow> timer \<Rightarrow> timer_node list \<times> timer" where
  "link_clear l T = (slot_get T l, slot_set T l [])"

definition link :: "wslot \<Rightarrow> timer_node \<Rightarrow> timer \<Rightarrow> timer" where
  "link l node T = slot_set T l (slot_get T l @ [node])"

text \<open>The loop of \<open>add_node\<close> that looks for the level.\<close>

function level_loop :: "u32 \<Rightarrow> u32 \<Rightarrow> u32 \<Rightarrow> nat \<Rightarrow> nat" where
  "level_loop time current msk i =
     (if i < 3 then
        if time OR (msk - 1) = current OR (msk - 1) then i
        else level_loop time current (push_bit TIME_LEVEL_SHIFT msk) (Suc i)
      else i)"
  by pat_completeness auto
termination by (relation "measure (\<lambda>(time, current, msk, i). 3 - i)") auto

declare level_loop.simps [simp del]

definition add_node :: "timer_node \<Rightarrow> timer \<Rightarrow> timer" where
  "add_node node T =
     (let time = tn_expire node; current_time = ti_time T in
      if time OR TIME_NEAR_MASK = current_time OR TIME_NEAR_MASK
      then link (Near (unat (time AND TIME_NEAR_MASK))) node T
      else
        let i = level_loop time current_time (push_bit TIME_LEVEL_SHIFT (word_of_nat TIME_NEAR)) 0
        in link (Far i (unat (drop_bit (TIME_NEAR_SHIFT + i * TIME_LEVEL_SHIFT) time AND TIME_LEVEL_MASK)))
             node T)"

definition timer_add :: "timer_event \<Rightarrow> i32 \<Rightarrow> timer \<Rightarrow> timer" where
  "timer_add ev time T = add_node \<lparr>tn_expire = time + ti_time T, tn_event = ev\<rparr> T"

fun readd :: "timer_node list \<Rightarrow> timer \<Rightarrow> timer" where
  "readd [] T = T"
| "readd (n # ns) T = readd ns (add_node n T)"

definition move_list :: "nat \<Rightarrow> nat \<Rightarrow> timer \<Rightarrow> timer option" where
  "move_list level idx T =
     (if level < length (ti_t T) \<and> idx < length (ti_t T ! level)
      then let (current, T1) = link_clear (Far level idx) T in Some (readd current T1)
      else None)"

text \<open>The loop of \<open>timer_shift\<close>; the mask is a C \<open>int\<close>, which the fourth shift overflows to 0.\<close>

partial_function (option) shift_loop :: "u32 \<Rightarrow> u32 \<Rightarrow> u32 \<Rightarrow> nat \<Rightarrow> timer \<Rightarrow> timer option" where
  "shift_loop ct msk time i T =
     (if ct AND (msk - 1) = 0 then
        if time AND TIME_LEVEL_MASK \<noteq> 0
        then move_list i (unat (time AND TIME_LEVEL_MASK)) T
        else shift_loop ct (push_bit TIME_LEVEL_SHIFT msk) (drop_bit TIME_LEVEL_SHIFT time) (Suc i) T
      else Some T)"

definition timer_shift :: "timer \<Rightarrow> timer option" where
  "timer_shift T =
     (let ct = ti_time T + 1; T1 = T\<lparr>ti_time := ct\<rparr> in
      if ct = 0 then move_list 3 0 T1
      else shift_loop ct (word_of_nat TIME_NEAR) (drop_bit TIME_NEAR_SHIFT ct) 0 T1)"

text \<open>
  \<open>timer_execute\<close> releases the lock while it dispatches, so other threads may add timers in
  each such window: \<open>env\<close> lists what they add, one list per window (none when it runs out).
  The result is the nodes dispatched, the windows left and the timer.
\<close>

type_synonym adds = "(timer_event \<times> i32) list"

fun add_all :: "adds \<Rightarrow> timer \<Rightarrow> timer" where
  "add_all [] T = T"
| "add_all ((ev, time) # as) T = add_all as (timer_add ev time T)"

definition window :: "adds list \<Rightarrow> adds" where
  "window env = (case env of [] \<Rightarrow> [] | as # _ \<Rightarrow> as)"

partial_function (option) timer_execute ::
  "adds list \<Rightarrow> timer \<Rightarrow> (timer_node list \<times> adds list \<times> timer) option" where
  "timer_execute env T =
     (let idx = unat (ti_time T AND TIME_NEAR_MASK) in
      if slot_get T (Near idx) \<noteq> [] then
        let current = slot_get T (Near idx);
            T1 = slot_set T (Near idx) [];
            T2 = add_all (window env) T1
        in do {
          r \<leftarrow> timer_execute (tl env) T2;
          Some (current @ fst r, snd r) }
      else Some ([], env, T))"

definition timer_update ::
  "adds list \<Rightarrow> timer \<Rightarrow> (timer_node list \<times> adds list \<times> timer) option" where
  "timer_update env T = do {
     r1 \<leftarrow> timer_execute env T;
     T1 \<leftarrow> timer_shift (snd (snd r1));
     r2 \<leftarrow> timer_execute (fst (snd r1)) T1;
     Some (fst r1 @ fst r2, snd r2) }"

definition timer_create_timer :: timer where
  "timer_create_timer =
     \<lparr>ti_near = replicate TIME_NEAR [], ti_t = replicate 4 (replicate TIME_LEVEL []),
      ti_time = 0, ti_starttime = 0, ti_current = 0, ti_current_point = 0\<rparr>"

section \<open>Where a node belongs\<close>

text \<open>The bits of \<open>x\<close> from bit \<open>m\<close> on.\<close>

definition hi :: "nat \<Rightarrow> nat \<Rightarrow> nat" where
  "hi m x = x div 2 ^ m"

text \<open>The slot of expiry \<open>e\<close> when the clock is \<open>c\<close>, over the natural numbers.\<close>

definition place :: "nat \<Rightarrow> nat \<Rightarrow> wslot" where
  "place e c =
     (if hi 8 e = hi 8 c then Near (e mod 2 ^ 8)
      else if hi 14 e = hi 14 c then Far 0 (hi 8 e mod 2 ^ 6)
      else if hi 20 e = hi 20 c then Far 1 (hi 14 e mod 2 ^ 6)
      else if hi 26 e = hi 26 c then Far 2 (hi 20 e mod 2 ^ 6)
      else Far 3 (hi 26 e mod 2 ^ 6))"

text \<open>The slot the cascade moves when the clock becomes \<open>c\<close>.\<close>

definition cascade :: "nat \<Rightarrow> (nat \<times> nat) option" where
  "cascade c =
     (if c mod 2 ^ 8 \<noteq> 0 then None
      else if hi 8 c mod 2 ^ 6 \<noteq> 0 then Some (0, hi 8 c mod 2 ^ 6)
      else if hi 14 c mod 2 ^ 6 \<noteq> 0 then Some (1, hi 14 c mod 2 ^ 6)
      else if hi 20 c mod 2 ^ 6 \<noteq> 0 then Some (2, hi 20 c mod 2 ^ 6)
      else Some (3, hi 26 c mod 2 ^ 6))"

lemma unat_drop_bit_hi: "unat (drop_bit n (w :: 'a::len word)) = hi n (unat w)"
proof -
  have "unat w < 2 ^ LENGTH('a)" by (rule unsigned_less)
  then have "take_bit LENGTH('a) (unat w) = unat w" by (simp only: take_bit_nat_eq_self)
  then show ?thesis
    unfolding unsigned_drop_bit_eq hi_def by (simp only: drop_bit_eq_div)
qed

lemma or_mask_eq_iff: "(a OR mask n = b OR mask n) \<longleftrightarrow> hi n (unat a) = hi n (unat b)"
  for a b :: "'a::len word"
proof -
  have "a OR mask n = b OR mask n" if eq: "drop_bit n a = drop_bit n b"
  proof (rule bit_word_eqI)
    fix k assume "k < LENGTH('a)"
    moreover have "bit a k = bit b k" if "n \<le> k"
      using arg_cong[OF eq, of "\<lambda>w. bit w (k - n)"] that by (simp add: bit_simps)
    ultimately show "bit (a OR mask n) k = bit (b OR mask n) k" by (auto simp: bit_simps)
  qed
  moreover have "drop_bit n a = drop_bit n b" if eq: "a OR mask n = b OR mask n"
  proof (rule bit_word_eqI)
    fix k
    show "bit (drop_bit n a) k = bit (drop_bit n b) k"
      using arg_cong[OF eq, of "\<lambda>w. bit w (n + k)"] by (simp add: bit_simps)
  qed
  ultimately show ?thesis
    by (metis unat_drop_bit_hi word_unat_eq_iff)
qed

text \<open>The code puts a node where \<open>place\<close> says.\<close>

lemma low_bits_ones:
  "(a OR (2 ^ n - 1) = b OR (2 ^ n - 1)) \<longleftrightarrow> hi n (unat a) = hi n (unat b)"
  for a b :: "'a::len word"
  using or_mask_eq_iff[of a n b] by (simp only: mask_eq_exp_minus_1)

lemma push_bit_pow2: "push_bit 6 (2 ^ n :: u32) = 2 ^ (n + 6)"
  by (simp add: push_bit_eq_mult power_add)

lemma level_loop_step:
  "level_loop e c (2 ^ n) i =
     (if i < 3 then if hi n (unat e) = hi n (unat c) then i
        else level_loop e c (2 ^ (n + 6)) (Suc i) else i)"
  by (subst level_loop.simps) (simp only: low_bits_ones push_bit_pow2 TIME_LEVEL_SHIFT_def)

lemma level_loop_place:
  "level_loop e c (push_bit TIME_LEVEL_SHIFT (word_of_nat TIME_NEAR)) 0 =
     (if hi 14 (unat e) = hi 14 (unat c) then 0
      else if hi 20 (unat e) = hi 20 (unat c) then 1
      else if hi 26 (unat e) = hi 26 (unat c) then 2 else 3)"
proof -
  have start: "push_bit TIME_LEVEL_SHIFT (word_of_nat TIME_NEAR) = (2 ^ 14 :: u32)"
    by (simp add: TIME_LEVEL_SHIFT_def TIME_NEAR_def)
  have n: "14 + 6 = (20::nat)" "20 + 6 = (26::nat)" "26 + 6 = (32::nat)" by simp_all
  have "level_loop e c (2 ^ 14) 0 =
      (if hi 14 (unat e) = hi 14 (unat c) then 0 else level_loop e c (2 ^ 20) (Suc 0))"
    using level_loop_step[of e c 14 0] unfolding n by simp
  moreover have "level_loop e c (2 ^ 20) (Suc 0) =
      (if hi 20 (unat e) = hi 20 (unat c) then 1 else level_loop e c (2 ^ 26) (Suc (Suc 0)))"
    using level_loop_step[of e c 20 "Suc 0"] unfolding n by simp
  moreover have "level_loop e c (2 ^ 26) (Suc (Suc 0)) =
      (if hi 26 (unat e) = hi 26 (unat c) then 2 else 3)"
    using level_loop_step[of e c 26 "Suc (Suc 0)"] level_loop_step[of e c 32 3] unfolding n
    by (simp add: numeral_3_eq_3 numeral_2_eq_2)
  ultimately show ?thesis unfolding start by simp
qed

lemma add_node_place:
  "add_node n T = link (place (unat (tn_expire n)) (unat (ti_time T))) n T"
proof -
  let ?e = "unat (tn_expire n)" and ?c = "unat (ti_time T)"
  have near: "(tn_expire n OR TIME_NEAR_MASK = ti_time T OR TIME_NEAR_MASK) \<longleftrightarrow> hi 8 ?e = hi 8 ?c"
    using low_bits_ones[of "tn_expire n" 8 "ti_time T"] by (simp add: TIME_NEAR_MASK_def)
  have lo: "unat (tn_expire n AND TIME_NEAR_MASK) = ?e mod 2 ^ 8"
    using unat_and_mask[of "tn_expire n" 8] by (simp add: TIME_NEAR_MASK_def mask_eq_exp_minus_1)
  have idx: "unat (drop_bit k (tn_expire n) AND TIME_LEVEL_MASK) = hi k ?e mod 2 ^ 6" for k
    using unat_and_mask[of "drop_bit k (tn_expire n)" 6]
    by (simp add: TIME_LEVEL_MASK_def mask_eq_exp_minus_1 unat_drop_bit_hi)
  show ?thesis
    unfolding add_node_def Let_def near lo level_loop_place idx place_def
    by (simp add: TIME_NEAR_SHIFT_def TIME_LEVEL_SHIFT_def)
qed

section \<open>The clock moves by one\<close>

lemma hi_mono_eq: "hi m a = hi m b \<Longrightarrow> m \<le> k \<Longrightarrow> hi k a = hi k b"
  by (metis hi_def div_mult2_eq le_add_diff_inverse power_add)

lemma hi_Suc_same: "Suc t mod 2 ^ m \<noteq> 0 \<Longrightarrow> hi m (Suc t) = hi m t"
  by (simp add: hi_def div_Suc)

lemma hi_Suc_next: "Suc t mod 2 ^ m = 0 \<Longrightarrow> hi m (Suc t) = Suc (hi m t)"
  by (simp add: hi_def div_Suc)

lemma hi_le: "a \<le> b \<Longrightarrow> hi m a \<le> hi m b"
  by (simp add: hi_def div_le_mono)

lemma hi_later:
  assumes "Suc t mod 2 ^ m = 0" "t < e"
  shows "hi m e \<noteq> hi m t"
  using hi_Suc_next[OF assms(1)] hi_le[of "Suc t" e m] assms(2) by simp

lemma mod_split_zero: "(c::nat) mod 2 ^ (m + 6) = 0 \<longleftrightarrow> c mod 2 ^ m = 0 \<and> hi m c mod 2 ^ 6 = 0"
proof -
  have "c mod 2 ^ (m + 6) = 2 ^ m * (hi m c mod 2 ^ 6) + c mod 2 ^ m"
    unfolding hi_def power_add by (rule mod_mult2_eq)
  then show ?thesis by auto
qed

lemma hi_add: "hi (m + k) x = hi k (hi m x)"
  by (simp add: hi_def power_add div_mult2_eq)

lemma hi_eqI:
  assumes "hi (m + 6) a = hi (m + 6) b" "hi m a mod 2 ^ 6 = hi m b mod 2 ^ 6"
  shows "hi m a = hi m b"
  using assms unfolding hi_add by (metis hi_def mult_div_mod_eq)

text \<open>
  The key fact of the wheel: when the clock moves from \<open>t\<close> to the next tick, a pending expiry
  keeps its slot unless that slot is the one the cascade empties.
\<close>

definition pending :: "nat \<Rightarrow> nat \<Rightarrow> bool" where
  "pending e t \<longleftrightarrow> e < 2 ^ 32 \<and> t < 2 ^ 32 \<and>
     (t < e \<and> e - t < 2 ^ 31 \<or> e < t \<and> 2 ^ 31 < t - e)"

definition kept_or_moved :: "nat \<Rightarrow> nat \<Rightarrow> nat \<Rightarrow> bool" where
  "kept_or_moved e t c \<longleftrightarrow>
     place e c = place e t \<or> (\<exists>i j. place e t = Far i j \<and> cascade c = Some (i, j))"

lemma place_far3: "hi 26 e \<noteq> hi 26 x \<Longrightarrow> place e x = Far 3 (hi 26 e mod 2 ^ 6)"
  using hi_mono_eq[of 8 e x 26] hi_mono_eq[of 14 e x 26] hi_mono_eq[of 20 e x 26]
  by (auto simp: place_def)

text \<open>The clock read at the five boundaries the levels have.\<close>

lemma boundary_cases:
  obtains "c mod 2 ^ 8 \<noteq> 0" "c mod 2 ^ 14 \<noteq> 0" "c mod 2 ^ 20 \<noteq> 0" "c mod 2 ^ 26 \<noteq> 0" "cascade c = None"
  | "c mod 2 ^ 8 = 0" "c mod 2 ^ 14 \<noteq> 0" "c mod 2 ^ 20 \<noteq> 0" "c mod 2 ^ 26 \<noteq> 0"
    "hi 8 c mod 2 ^ 6 \<noteq> 0" "cascade c = Some (0, hi 8 c mod 2 ^ 6)"
  | "c mod 2 ^ 8 = 0" "c mod 2 ^ 14 = 0" "c mod 2 ^ 20 \<noteq> 0" "c mod 2 ^ 26 \<noteq> 0"
    "hi 8 c mod 2 ^ 6 = 0" "hi 14 c mod 2 ^ 6 \<noteq> 0" "cascade c = Some (1, hi 14 c mod 2 ^ 6)"
  | "c mod 2 ^ 8 = 0" "c mod 2 ^ 14 = 0" "c mod 2 ^ 20 = 0" "c mod 2 ^ 26 \<noteq> 0"
    "hi 8 c mod 2 ^ 6 = 0" "hi 14 c mod 2 ^ 6 = 0" "hi 20 c mod 2 ^ 6 \<noteq> 0"
    "cascade c = Some (2, hi 20 c mod 2 ^ 6)"
  | "c mod 2 ^ 8 = 0" "c mod 2 ^ 14 = 0" "c mod 2 ^ 20 = 0" "c mod 2 ^ 26 = 0"
    "hi 8 c mod 2 ^ 6 = 0" "hi 14 c mod 2 ^ 6 = 0" "hi 20 c mod 2 ^ 6 = 0"
    "cascade c = Some (3, hi 26 c mod 2 ^ 6)"
proof -
  have n: "8 + 6 = (14::nat)" "14 + 6 = (20::nat)" "20 + 6 = (26::nat)" by simp_all
  note Z = mod_split_zero[of c 8, unfolded n] mod_split_zero[of c 14, unfolded n]
    mod_split_zero[of c 20, unfolded n]
  define z0 z1 z2 z3 z4 z5 z6 where
    "z0 \<longleftrightarrow> c mod 2 ^ 8 = 0" and "z1 \<longleftrightarrow> c mod 2 ^ 14 = 0" and "z2 \<longleftrightarrow> c mod 2 ^ 20 = 0"
    and "z3 \<longleftrightarrow> c mod 2 ^ 26 = 0" and "z4 \<longleftrightarrow> hi 8 c mod 2 ^ 6 = 0"
    and "z5 \<longleftrightarrow> hi 14 c mod 2 ^ 6 = 0" and "z6 \<longleftrightarrow> hi 20 c mod 2 ^ 6 = 0"
  note zs = z0_def z1_def z2_def z3_def z4_def z5_def z6_def
  have "z1 \<longleftrightarrow> z0 \<and> z4" "z2 \<longleftrightarrow> z1 \<and> z5" "z3 \<longleftrightarrow> z2 \<and> z6" using Z by (simp_all only: zs)
  then consider "\<not> z0" "\<not> z1" "\<not> z2" "\<not> z3" | "z0" "\<not> z1" "\<not> z2" "\<not> z3" "\<not> z4"
    | "z0" "z1" "\<not> z2" "\<not> z3" "z4" "\<not> z5" | "z0" "z1" "z2" "\<not> z3" "z4" "z5" "\<not> z6"
    | "z0" "z1" "z2" "z3" "z4" "z5" "z6"
    by blast
  then show ?thesis
  proof cases
    case 1 then show ?thesis unfolding zs by (intro that(1)) (simp_all only: cascade_def simp_thms if_True if_False)
  next
    case 2 then show ?thesis unfolding zs by (intro that(2)) (simp_all only: cascade_def simp_thms if_True if_False)
  next
    case 3 then show ?thesis unfolding zs by (intro that(3)) (simp_all only: cascade_def simp_thms if_True if_False)
  next
    case 4 then show ?thesis unfolding zs by (intro that(4)) (simp_all only: cascade_def simp_thms if_True if_False)
  next
    case 5 then show ?thesis unfolding zs by (intro that(5)) (simp_all only: cascade_def simp_thms if_True if_False)
  qed
qed

lemma place_near: "hi 8 e = hi 8 c \<Longrightarrow> place e c = Near (e mod 2 ^ 8)"
  by (simp only: place_def refl if_True)

lemma hi_chain:
  "hi 8 e = hi 8 x \<Longrightarrow> hi 14 e = hi 14 x" "hi 14 e = hi 14 x \<Longrightarrow> hi 20 e = hi 20 x"
  "hi 20 e = hi 20 x \<Longrightarrow> hi 26 e = hi 26 x"
  by (erule hi_mono_eq, simp)+

lemma place_far0: "hi 8 e \<noteq> hi 8 x \<Longrightarrow> hi 14 e = hi 14 x \<Longrightarrow> place e x = Far 0 (hi 8 e mod 2 ^ 6)"
  by (simp only: place_def refl if_True if_False)

lemma place_far1: "hi 14 e \<noteq> hi 14 x \<Longrightarrow> hi 20 e = hi 20 x \<Longrightarrow> place e x = Far 1 (hi 14 e mod 2 ^ 6)"
  using hi_chain(1)[of e x] unfolding place_def by (metis (full_types))

lemma place_far2: "hi 20 e \<noteq> hi 20 x \<Longrightarrow> hi 26 e = hi 26 x \<Longrightarrow> place e x = Far 2 (hi 20 e mod 2 ^ 6)"
  using hi_chain(1,2)[of e x] unfolding place_def by (metis (full_types))

lemma place_cong:
  "hi 8 c = hi 8 t \<Longrightarrow> hi 14 c = hi 14 t \<Longrightarrow> hi 20 c = hi 20 t \<Longrightarrow> hi 26 c = hi 26 t \<Longrightarrow> place e c = place e t"
  by (simp only: place_def)

lemma place_keep0:
  assumes "hi 8 e \<noteq> hi 8 t" "hi 8 e \<noteq> hi 8 c" "hi 14 c = hi 14 t" "hi 20 c = hi 20 t" "hi 26 c = hi 26 t"
  shows "place e c = place e t"
  using assms by (simp only: place_def if_False)

lemma place_keep1:
  assumes "hi 14 e \<noteq> hi 14 t" "hi 14 e \<noteq> hi 14 c" "hi 20 c = hi 20 t" "hi 26 c = hi 26 t"
  shows "place e c = place e t"
proof -
  have "hi 8 e \<noteq> hi 8 t" "hi 8 e \<noteq> hi 8 c" using assms hi_chain(1) by blast+
  with assms show ?thesis by (simp only: place_def if_False)
qed

lemma place_keep2:
  assumes "hi 20 e \<noteq> hi 20 t" "hi 20 e \<noteq> hi 20 c" "hi 26 c = hi 26 t"
  shows "place e c = place e t"
proof -
  have "hi 14 e \<noteq> hi 14 t" "hi 14 e \<noteq> hi 14 c" using assms hi_chain(2) by blast+
  moreover from this have "hi 8 e \<noteq> hi 8 t" "hi 8 e \<noteq> hi 8 c" using hi_chain(1) by blast+
  ultimately show ?thesis using assms by (simp only: place_def if_False)
qed

lemma kept_or_moved_same: "place e c = place e t \<Longrightarrow> kept_or_moved e t c"
  by (simp add: kept_or_moved_def)

lemma kept_or_moved_move: "place e t = Far i j \<Longrightarrow> cascade c = Some (i, j) \<Longrightarrow> kept_or_moved e t c"
  unfolding kept_or_moved_def by blast

lemma place_shift_ahead:
  assumes "t < e"
  shows "kept_or_moved e t (Suc t)"
proof -
  note S = hi_Suc_same[of t]
  note L = hi_later[OF _ assms]
  show ?thesis
  proof (cases rule: boundary_cases[of "Suc t"])
    case 1
    show ?thesis by (intro kept_or_moved_same place_cong S 1)
  next
    case 2
    show ?thesis
    proof (cases "hi 8 e = hi 8 (Suc t)")
      case True
      have "place e t = Far 0 (hi 8 e mod 2 ^ 6)"
        by (rule place_far0[OF L[OF 2(1)]]) (simp only: hi_chain(1)[OF True] S[OF 2(2)])
      then show ?thesis by (rule kept_or_moved_move) (simp only: True 2(6))
    next
      case False
      show ?thesis by (intro kept_or_moved_same place_keep0 L S 2 False)
    qed
  next
    case 3
    show ?thesis
    proof (cases "hi 14 e = hi 14 (Suc t)")
      case True
      have "place e t = Far 1 (hi 14 e mod 2 ^ 6)"
        by (rule place_far1[OF L[OF 3(2)]]) (simp only: hi_chain(2)[OF True] S[OF 3(3)])
      then show ?thesis by (rule kept_or_moved_move) (simp only: True 3(7))
    next
      case False
      show ?thesis by (intro kept_or_moved_same place_keep1 L S 3 False)
    qed
  next
    case 4
    show ?thesis
    proof (cases "hi 20 e = hi 20 (Suc t)")
      case True
      have "place e t = Far 2 (hi 20 e mod 2 ^ 6)"
        by (rule place_far2[OF L[OF 4(3)]]) (simp only: hi_chain(3)[OF True] S[OF 4(4)])
      then show ?thesis by (rule kept_or_moved_move) (simp only: True 4(8))
    next
      case False
      show ?thesis by (intro kept_or_moved_same place_keep2 L S 4 False)
    qed
  next
    case 5
    show ?thesis
    proof (cases "hi 26 e = hi 26 (Suc t)")
      case True
      show ?thesis
        by (rule kept_or_moved_move[OF place_far3[OF L[OF 5(4)]]]) (simp only: True 5(8))
    next
      case False
      show ?thesis
        by (rule kept_or_moved_same) (simp only: place_far3[OF False] place_far3[OF L[OF 5(4)]])
    qed
  qed
qed

lemma hi26_far: "2 ^ 26 \<le> b - a \<Longrightarrow> hi 26 a \<noteq> hi 26 b"
proof -
  assume "2 ^ 26 \<le> b - a"
  then have "a + 2 ^ 26 \<le> b" by simp
  from hi_le[OF this, of 26] show ?thesis by (simp add: hi_def)
qed

lemma place_shift:
  assumes "pending e t"
  shows "kept_or_moved e t (Suc t mod 2 ^ 32)"
proof (cases "t < e")
  case True
  with assms have "Suc t mod 2 ^ 32 = Suc t" by (simp add: pending_def)
  with place_shift_ahead[OF True] show ?thesis by simp
next
  case False
  with assms have far: "e < t" "2 ^ 31 < t - e" "t < 2 ^ 32" by (auto simp: pending_def)
  then have pt: "place e t = Far 3 (hi 26 e mod 2 ^ 6)" by (intro place_far3 hi26_far) simp
  show ?thesis
  proof (cases "Suc t = 2 ^ 32")
    case True
    have "cascade 0 = Some (3, 0)" by (simp add: cascade_def hi_def)
    moreover have "hi 26 e mod 2 ^ 6 = 0" if "hi 26 e = hi 26 0" using that by (simp add: hi_def)
    ultimately show ?thesis
      using True pt place_far3[of e 0] by (cases "hi 26 e = hi 26 0") (auto simp: kept_or_moved_def)
  next
    case False
    then have "Suc t mod 2 ^ 32 = Suc t" using far by simp
    moreover have "place e (Suc t) = Far 3 (hi 26 e mod 2 ^ 6)"
      using far by (intro place_far3 hi26_far) simp
    ultimately show ?thesis using pt by (simp add: kept_or_moved_def)
  qed
qed

text \<open>The loop of \<open>timer_shift\<close> stops and empties exactly the slot \<open>cascade\<close> names.\<close>

lemma and_low_zero: "(w AND (2 ^ n - 1) = 0) \<longleftrightarrow> unat w mod 2 ^ n = 0" for w :: "'a::len word"
  using unat_and_mask[of w n] by (metis mask_eq_exp_minus_1 unat_eq_zero)

lemma shift_loop_step:
  "shift_loop ct (2 ^ n) (drop_bit n ct) i T =
     (if unat ct mod 2 ^ n = 0 then
        if hi n (unat ct) mod 2 ^ 6 \<noteq> 0 then move_list i (hi n (unat ct) mod 2 ^ 6) T
        else shift_loop ct (2 ^ (n + 6)) (drop_bit (n + 6) ct) (Suc i) T
      else Some T)"
proof -
  have idx: "unat (drop_bit n ct AND TIME_LEVEL_MASK) = hi n (unat ct) mod 2 ^ 6"
    using unat_and_mask[of "drop_bit n ct" 6]
    by (simp add: TIME_LEVEL_MASK_def mask_eq_exp_minus_1 unat_drop_bit_hi)
  have nz: "(drop_bit n ct AND TIME_LEVEL_MASK \<noteq> 0) \<longleftrightarrow> hi n (unat ct) mod 2 ^ 6 \<noteq> 0"
    using idx by (metis unat_eq_zero)
  have db: "drop_bit 6 (drop_bit n ct) = drop_bit (n + 6) ct"
    unfolding drop_bit_drop_bit by (subst add.commute) (rule refl)
  show ?thesis
    by (subst shift_loop.simps) (simp only: and_low_zero idx nz TIME_LEVEL_SHIFT_def db push_bit_pow2)
qed

lemma timer_shift_cascade:
  "timer_shift T =
     (case cascade (unat (ti_time T + 1)) of
        None \<Rightarrow> Some (T\<lparr>ti_time := ti_time T + 1\<rparr>)
      | Some (i, j) \<Rightarrow> move_list i j (T\<lparr>ti_time := ti_time T + 1\<rparr>))"
proof (cases "ti_time T + 1 = 0")
  case True
  then show ?thesis by (simp add: timer_shift_def Let_def cascade_def hi_def)
next
  case False
  let ?w = "ti_time T + 1" and ?T = "T\<lparr>ti_time := ti_time T + 1\<rparr>"
  let ?c = "unat ?w"
  have c: "?c \<noteq> 0" using False by (simp add: unat_eq_zero)
  have n: "8 + 6 = (14::nat)" "14 + 6 = (20::nat)" "20 + 6 = (26::nat)" by simp_all
  have top: "hi 26 ?c mod 2 ^ 6 \<noteq> 0" if "?c mod 2 ^ 26 = 0"
  proof
    assume "hi 26 ?c mod 2 ^ 6 = 0"
    with that mod_split_zero[of ?c 26] have "?c mod 2 ^ 32 = 0" by simp
    moreover have "?c < 2 ^ 32" using unsigned_less[of ?w] by simp
    ultimately show False using c by simp
  qed
  have k: "Suc 0 = 1" "Suc (1::nat) = 2" "Suc (2::nat) = 3" by simp_all
  note s = shift_loop_step[of ?w 8 0 ?T, unfolded n k] shift_loop_step[of ?w 14 1 ?T, unfolded n k]
    shift_loop_step[of ?w 20 2 ?T, unfolded n k] shift_loop_step[of ?w 26 3 ?T]
  have start: "(word_of_nat TIME_NEAR :: u32) = 2 ^ 8" by (simp add: TIME_NEAR_def)
  have "timer_shift T = shift_loop ?w (2 ^ 8) (drop_bit 8 ?w) 0 ?T"
    using False by (simp only: timer_shift_def Let_def start TIME_NEAR_SHIFT_def if_False)
  also have "\<dots> = (case cascade ?c of None \<Rightarrow> Some ?T | Some (i, j) \<Rightarrow> move_list i j ?T)"
  proof (cases rule: boundary_cases[of ?c])
    case 1 then show ?thesis by (simp only: s refl if_False option.case)
  next
    case 2 then show ?thesis by (simp only: s refl if_True if_False option.case prod.case not_False_eq_True)
  next
    case 3 then show ?thesis
      by (simp only: s refl if_True if_False option.case prod.case not_False_eq_True not_True_eq_False simp_thms)
  next
    case 4 then show ?thesis
      by (simp only: s refl if_True if_False option.case prod.case not_False_eq_True not_True_eq_False simp_thms)
  next
    case 5
    with top[OF 5(4)] show ?thesis
      by (simp only: s refl if_True if_False option.case prod.case not_False_eq_True not_True_eq_False simp_thms)
  qed
  finally show ?thesis .
qed

section \<open>The wheel as a map from expiry to events\<close>

definition shaped :: "timer \<Rightarrow> bool" where
  "shaped T \<longleftrightarrow> length (ti_near T) = TIME_NEAR \<and> length (ti_t T) = 4 \<and>
     (\<forall>row \<in> set (ti_t T). length row = TIME_LEVEL)"

fun vslot :: "wslot \<Rightarrow> bool" where
  "vslot (Near j) \<longleftrightarrow> j < TIME_NEAR"
| "vslot (Far i j) \<longleftrightarrow> i < 4 \<and> j < TIME_LEVEL"

lemma vslot_place: "vslot (place e c)"
  by (simp add: place_def TIME_NEAR_def TIME_LEVEL_def)

lemma shaped_row: "shaped T \<Longrightarrow> i < 4 \<Longrightarrow> length (ti_t T ! i) = TIME_LEVEL"
  by (auto simp: shaped_def)

lemma slot_get_set:
  assumes "shaped T" "vslot a" "vslot b"
  shows "slot_get (slot_set T a xs) b = (if a = b then xs else slot_get T b)"
  using assms shaped_row[OF assms(1)]
  by (cases a; cases b) (auto simp: shaped_def nth_list_update)

lemma shaped_set:
  assumes "shaped T" "vslot a"
  shows "shaped (slot_set T a xs)"
proof (cases a)
  case (Far i j)
  then have "length ((ti_t T ! i)[j := xs]) = TIME_LEVEL" using shaped_row[OF assms(1)] assms(2) by simp
  with Far assms show ?thesis by (auto simp: shaped_def dest!: subsetD[OF set_update_subset_insert])
qed (use assms in \<open>simp add: shaped_def\<close>)

lemma time_slot_set [simp]: "ti_time (slot_set T a xs) = ti_time T"
  by (cases a) simp_all

lemma slot_get_time [simp]: "slot_get (T\<lparr>ti_time := c\<rparr>) a = slot_get T a"
  by (cases a) simp_all

lemma shaped_time [simp]: "shaped (T\<lparr>ti_time := c\<rparr>) = shaped T"
  by (simp add: shaped_def)

text \<open>The slot of an expiry now, and the events waiting for it, in order of arrival.\<close>

definition slot_of :: "timer \<Rightarrow> u32 \<Rightarrow> wslot" where
  "slot_of T e = place (unat e) (unat (ti_time T))"

definition due :: "timer \<Rightarrow> u32 \<Rightarrow> timer_event list" where
  "due T e = map tn_event (filter (\<lambda>n. tn_expire n = e) (slot_get T (slot_of T e)))"

text \<open>Every node lies in the slot of its expiry, less than half the clock's range ahead.\<close>

definition wheel_ok :: "timer \<Rightarrow> bool" where
  "wheel_ok T \<longleftrightarrow> shaped T \<and>
     (\<forall>s n. vslot s \<and> n \<in> set (slot_get T s) \<longrightarrow>
        slot_of T (tn_expire n) = s \<and> unat (tn_expire n - ti_time T) < 2 ^ 31)"

lemma vslot_slot_of [simp]: "vslot (slot_of T e)"
  by (simp add: slot_of_def vslot_place)

lemma slot_of_slot_set [simp]: "slot_of (slot_set T a xs) = slot_of T"
  by (rule ext) (simp add: slot_of_def)

lemma wheel_okD:
  assumes "wheel_ok T" "vslot s" "n \<in> set (slot_get T s)"
  shows "slot_of T (tn_expire n) = s" "unat (tn_expire n - ti_time T) < 2 ^ 31"
  using assms by (auto simp: wheel_ok_def)

text \<open>An expiry less than half the range ahead is at most that far; one with no such node has no events.\<close>

lemma due_far_empty:
  assumes "wheel_ok T" "2 ^ 31 \<le> unat (e - ti_time T)"
  shows "due T e = []"
proof -
  have "tn_expire n \<noteq> e" if "n \<in> set (slot_get T (slot_of T e))" for n
    using wheel_okD(2)[OF assms(1) vslot_slot_of that] assms(2) by auto
  then show ?thesis by (simp add: due_def filter_empty_conv)
qed

section \<open>Adding a node\<close>

lemma add_node_time [simp]: "ti_time (add_node n T) = ti_time T"
  by (simp add: add_node_place link_def)

lemma add_node_ok:
  assumes "wheel_ok T" "unat (tn_expire n - ti_time T) < 2 ^ 31"
  shows "wheel_ok (add_node n T)"
proof -
  have sh: "shaped T" using assms by (simp add: wheel_ok_def)
  have an: "add_node n T = slot_set T (slot_of T (tn_expire n)) (slot_get T (slot_of T (tn_expire n)) @ [n])"
    by (simp add: add_node_place link_def slot_of_def)
  show ?thesis
    unfolding wheel_ok_def
  proof (intro conjI allI impI; (elim conjE)?)
    show "shaped (add_node n T)" unfolding an by (intro shaped_set sh vslot_slot_of)
    fix s m assume v: "vslot s" "m \<in> set (slot_get (add_node n T) s)"
    then have "m = n \<and> s = slot_of T (tn_expire n) \<or> m \<in> set (slot_get T s)"
      unfolding an using slot_get_set[OF sh vslot_slot_of v(1)] by (auto split: if_splits)
    then show "slot_of (add_node n T) (tn_expire m) = s" "unat (tn_expire m - ti_time (add_node n T)) < 2 ^ 31"
      using wheel_okD[OF assms(1) v(1)] assms(2) by (auto simp: an)
  qed
qed

lemma due_add_node:
  assumes "shaped T"
  shows "due (add_node n T) e = due T e @ (if tn_expire n = e then [tn_event n] else [])"
  using slot_get_set[OF assms vslot_slot_of vslot_slot_of, of T "tn_expire n" _ T e]
  by (auto simp: due_def add_node_place link_def slot_of_def[symmetric])

lemma timer_add_time [simp]: "ti_time (timer_add ev d T) = ti_time T"
  by (simp add: timer_add_def)

text \<open>A delay in the range the callers use: a positive C \<open>int\<close>.\<close>

definition pos_delay :: "i32 \<Rightarrow> bool" where
  "pos_delay d \<longleftrightarrow> 0 < sint d"

lemma pos_delay_unat: "pos_delay d \<longleftrightarrow> 0 < unat d \<and> unat d < 2 ^ 31"
proof -
  define q where "q = unat d div 2 ^ 31"
  have lt: "unat d < 2 * 2 ^ 31" using unsigned_less[of d] by simp
  then have "q < 2" unfolding q_def by (rule less_mult_imp_div_less)
  then have "odd q \<longleftrightarrow> q \<noteq> 0" by (cases q rule: nat.exhaust) (auto simp: less_Suc_eq)
  moreover have "q \<noteq> 0 \<longleftrightarrow> \<not> unat d < 2 ^ 31" unfolding q_def by (simp only: div_eq_0_iff) simp
  moreover have "bit (unat d) 31 \<longleftrightarrow> odd q" unfolding q_def by (simp only: bit_iff_odd)
  moreover have "bit (unat d) 31 \<longleftrightarrow> bit d 31" by (simp only: bit_unsigned_iff possible_bit_nat simp_thms)
  moreover have "bit d 31 \<longleftrightarrow> sint d < 0" using bit_last_iff[of d] by simp
  moreover have "sint d = 0 \<longleftrightarrow> unat d = 0" by (metis signed_0 unat_eq_zero signed_word_eqI)
  ultimately show ?thesis unfolding pos_delay_def by linarith
qed

section \<open>The shift\<close>

lemma pending_iff:
  assumes "0 < unat (e - t)" "unat (e - t) < 2 ^ 31"
  shows "pending (unat (e::u32)) (unat (t::u32))"
proof -
  have b: "unat e < 2 ^ 32" "unat t < 2 ^ 32" using unsigned_less[of e] unsigned_less[of t] by simp_all
  have "unat (e - t) = (if unat t \<le> unat e then unat e - unat t else unat e + 2 ^ 32 - unat t)"
    using b by (simp add: unat_sub_if')
  with assms b show ?thesis by (auto simp: pending_def split: if_splits)
qed

lemma readd_time [simp]: "ti_time (readd ns T) = ti_time T"
  by (induction ns arbitrary: T) simp_all

lemma readd_ok:
  assumes "wheel_ok T" "\<forall>n \<in> set ns. unat (tn_expire n - ti_time T) < 2 ^ 31"
  shows "wheel_ok (readd ns T)"
  using assms by (induction ns arbitrary: T) (simp_all add: add_node_ok)

lemma due_readd:
  assumes "wheel_ok T" "\<forall>n \<in> set ns. unat (tn_expire n - ti_time T) < 2 ^ 31"
  shows "due (readd ns T) e = due T e @ map tn_event (filter (\<lambda>n. tn_expire n = e) ns)"
  using assms
proof (induction ns arbitrary: T)
  case (Cons n ns)
  have "shaped T" using Cons.prems by (simp add: wheel_ok_def)
  moreover have "wheel_ok (add_node n T)" using Cons.prems by (simp add: add_node_ok)
  ultimately show ?case using Cons by (simp add: due_add_node)
qed simp

lemma cascade_vslot: "cascade c = Some (i, j) \<Longrightarrow> vslot (Far i j)"
  by (auto simp: cascade_def TIME_LEVEL_def split: if_splits)

lemma move_list_eq:
  assumes "shaped T" "vslot (Far i j)"
  shows "move_list i j T = Some (readd (slot_get T (Far i j)) (slot_set T (Far i j) []))"
  using assms shaped_row[OF assms(1)] by (auto simp: move_list_def link_clear_def shaped_def)

text \<open>The distance to a node shrinks by one.\<close>

lemma dist_Suc:
  assumes "unat (e - t) \<noteq> 0"
  shows "unat (e - (t + 1)) = unat ((e::u32) - t) - 1"
proof -
  have "e - (t + 1) = (e - t) - 1" by simp
  moreover have "e - t \<noteq> 0" using assms by (metis unat_eq_zero)
  ultimately show ?thesis using unat_minus_one[of "e - t"] by metis
qed

lemma unat_Suc_mod: "unat ((t::u32) + 1) = Suc (unat t) mod 2 ^ 32"
  by (simp add: unat_word_ariths)

text \<open>The clock moved but the nodes are not yet: what is in the slot the cascade names, and what is elsewhere.\<close>

lemma wheel_ok_kept:
  assumes ok: "wheel_ok T" and none: "due T (ti_time T) = []"
    and mem: "vslot s" "n \<in> set (slot_get T s)"
  shows "unat (tn_expire n - (ti_time T + 1)) < 2 ^ 31"
    and "kept_or_moved (unat (tn_expire n)) (unat (ti_time T)) (unat (ti_time T + 1))"
proof -
  note w = wheel_okD[OF ok mem]
  have "tn_expire n \<noteq> ti_time T"
    using none mem(2) w(1) by (auto simp: due_def filter_empty_conv)
  then have nz: "unat (tn_expire n - ti_time T) \<noteq> 0" by (simp add: unat_eq_zero)
  show "unat (tn_expire n - (ti_time T + 1)) < 2 ^ 31" using dist_Suc[OF nz] w(2) by linarith
  show "kept_or_moved (unat (tn_expire n)) (unat (ti_time T)) (unat (ti_time T + 1))"
    unfolding unat_Suc_mod using nz w(2) by (intro place_shift pending_iff) simp_all
qed

text \<open>Same contents, one tick later, and nothing left where the cascade empties.\<close>

lemma wheel_ok_tick:
  assumes ok: "wheel_ok T" and none: "due T (ti_time T) = []"
    and rest: "\<And>i j. cascade (unat (ti_time T + 1)) = Some (i, j) \<Longrightarrow> slot_get U (Far i j) = []"
    and sub: "\<And>s. vslot s \<Longrightarrow> set (slot_get U s) \<subseteq> set (slot_get T s)"
    and sh: "shaped U" "ti_time U = ti_time T + 1"
  shows "wheel_ok U"
  unfolding wheel_ok_def
proof (intro conjI allI impI; (elim conjE)?)
  fix s n assume v: "vslot s" "n \<in> set (slot_get U s)"
  then have nT: "n \<in> set (slot_get T s)" using sub by blast
  note k = wheel_ok_kept[OF ok none v(1) nT]
  have "slot_of T (tn_expire n) = s" using wheel_okD(1)[OF ok v(1) nT] .
  with k(2) rest v(2) show "slot_of U (tn_expire n) = s"
    unfolding kept_or_moved_def slot_of_def sh(2) by fastforce
  show "unat (tn_expire n - ti_time U) < 2 ^ 31" using k(1) sh(2) by simp
qed (use sh in simp)

definition at_slot :: "timer \<Rightarrow> u32 \<Rightarrow> wslot \<Rightarrow> timer_event list" where
  "at_slot T e s = map tn_event (filter (\<lambda>n. tn_expire n = e) (slot_get T s))"

lemma at_slot_other:
  assumes "wheel_ok T" "vslot s" "s \<noteq> slot_of T e"
  shows "at_slot T e s = []"
  using wheel_okD(1)[OF assms(1,2)] assms(3) by (auto simp: at_slot_def filter_empty_conv)

lemma due_at_slot: "due T e = at_slot T e (slot_of T e)"
  by (simp add: due_def at_slot_def)

text \<open>Two healthy wheels with the same contents but for an emptied slot.\<close>

lemma due_moved:
  assumes ok: "wheel_ok T" "wheel_ok U" and v: "vslot z"
    and sl: "\<And>s. vslot s \<Longrightarrow> slot_get U s = (if c \<and> s = z then [] else slot_get T s)"
  shows "due U e @ (if c then at_slot T e z else []) = due T e"
proof -
  have U: "at_slot U e s = (if c \<and> s = z then [] else at_slot T e s)" if "vslot s" for s
    using that by (simp add: at_slot_def sl)
  note T0 = at_slot_other[OF ok(1), of _ e] and U0 = at_slot_other[OF ok(2), of _ e]
  have "at_slot T e (slot_of U e) = []" if "slot_of U e \<noteq> slot_of T e" by (rule T0[OF vslot_slot_of that])
  moreover have "at_slot U e (slot_of T e) = []" if "slot_of U e \<noteq> slot_of T e"
    using U0[OF vslot_slot_of, of T e] that by metis
  moreover have "at_slot T e z = []" if "z \<noteq> slot_of T e" by (rule T0[OF v that])
  ultimately show ?thesis
    unfolding due_at_slot using U[of "slot_of U e"] U[of "slot_of T e"]
    by (cases "slot_of U e = slot_of T e"; cases "z = slot_of T e") (auto split: if_splits)
qed

lemma slot_get_cleared:
  assumes "shaped T" "vslot z"
  shows "vslot s \<Longrightarrow> slot_get (slot_set T z []) s = (if s = z then [] else slot_get T s)"
  using slot_get_set[OF assms] by simp

theorem timer_shift_ok:
  assumes ok: "wheel_ok T" and none: "due T (ti_time T) = []"
  shows "\<exists>U. timer_shift T = Some U \<and> wheel_ok U \<and> ti_time U = ti_time T + 1 \<and> due U = due T"
proof -
  let ?T = "T\<lparr>ti_time := ti_time T + 1\<rparr>"
  have sh: "shaped T" using ok by (simp add: wheel_ok_def)
  show ?thesis
  proof (cases "cascade (unat (ti_time T + 1))")
    case None
    have okU: "wheel_ok ?T" by (rule wheel_ok_tick[OF ok none]) (use None sh in auto)
    have "due ?T e = due T e" for e
      using due_moved[OF ok okU, of "Near 0" False e] by (simp add: TIME_NEAR_def)
    with okU None show ?thesis by (auto simp: timer_shift_cascade)
  next
    case (Some ij)
    obtain i j where ij: "cascade (unat (ti_time T + 1)) = Some (i, j)" using Some by (cases ij) auto
    let ?z = "Far i j"
    let ?U = "slot_set ?T ?z []"
    have v: "vslot ?z" using cascade_vslot[OF ij] .
    have get: "slot_get ?U s = (if s = ?z then [] else slot_get T s)" if "vslot s" for s
      using slot_get_cleared[of ?T ?z s] sh v that by (simp del: slot_set.simps vslot.simps)
    have okU: "wheel_ok ?U"
      by (rule wheel_ok_tick[OF ok none]) (use ij get v sh in \<open>auto simp: shaped_set simp del: slot_set.simps slot_get.simps vslot.simps\<close>)
    have near: "\<forall>n \<in> set (slot_get T ?z). unat (tn_expire n - ti_time ?U) < 2 ^ 31"
      using wheel_ok_kept(1)[OF ok none v] by simp
    have "due (readd (slot_get T ?z) ?U) e = due T e" for e
      using due_moved[OF ok okU v, of True e] get due_readd[OF okU near, of e]
      by (simp add: at_slot_def del: slot_set.simps slot_get.simps)
    moreover have "timer_shift T = Some (readd (slot_get T ?z) ?U)"
      unfolding timer_shift_cascade ij using move_list_eq[of ?T i j] sh v by simp
    ultimately show ?thesis using readd_ok[OF okU near] by auto
  qed
qed

section \<open>Executing the current slot\<close>

lemma near_now: "place e c = Near (c mod 2 ^ 8) \<longleftrightarrow> e = c"
proof
  assume "place e c = Near (c mod 2 ^ 8)"
  then have "hi 8 e = hi 8 c" "e mod 2 ^ 8 = c mod 2 ^ 8" by (auto simp only: place_def wslot.inject split: if_splits)
  then show "e = c" unfolding hi_def by (metis div_mult_mod_eq)
qed (simp add: place_def)

text \<open>Everything in the current near slot is due now.\<close>

lemma current_slot:
  assumes "wheel_ok T"
  defines "z \<equiv> Near (unat (ti_time T AND TIME_NEAR_MASK))"
  shows "vslot z" "z = slot_of T (ti_time T)" "map tn_event (slot_get T z) = due T (ti_time T)"
proof -
  have idx: "unat (ti_time T AND TIME_NEAR_MASK) = unat (ti_time T) mod 2 ^ 8"
    using unat_and_mask[of "ti_time T" 8] by (simp add: TIME_NEAR_MASK_def mask_eq_exp_minus_1)
  show v: "vslot z" unfolding z_def idx by (simp add: TIME_NEAR_def)
  show z: "z = slot_of T (ti_time T)" unfolding z_def idx slot_of_def using near_now by metis
  have "tn_expire n = ti_time T" if "n \<in> set (slot_get T z)" for n
    using wheel_okD(1)[OF assms(1) v that] unfolding z_def idx slot_of_def near_now
    by (rule unsigned_word_eqI)
  then have "filter (\<lambda>n. tn_expire n = ti_time T) (slot_get T z) = slot_get T z" by simp
  then show "map tn_event (slot_get T z) = due T (ti_time T)" by (simp add: due_def z)
qed

text \<open>The events of \<open>as\<close>, added at clock \<open>t\<close>, that expire at \<open>e\<close>.\<close>

definition arrivals :: "adds \<Rightarrow> u32 \<Rightarrow> u32 \<Rightarrow> timer_event list" where
  "arrivals as t e = map fst (filter (\<lambda>a. snd a + t = e) as)"

definition pos_adds :: "adds \<Rightarrow> bool" where
  "pos_adds as \<longleftrightarrow> (\<forall>a \<in> set as. pos_delay (snd a))"

lemma arrivals_now: "pos_adds as \<Longrightarrow> arrivals as t t = []"
  by (fastforce simp: arrivals_def pos_adds_def pos_delay_def filter_empty_conv)

lemma add_all_ok:
  assumes "wheel_ok T" "pos_adds as"
  shows "wheel_ok (add_all as T)" "ti_time (add_all as T) = ti_time T"
    "due (add_all as T) e = due T e @ arrivals as (ti_time T) e"
proof -
  have "wheel_ok (add_all as T) \<and> ti_time (add_all as T) = ti_time T \<and>
    due (add_all as T) e = due T e @ arrivals as (ti_time T) e"
    using assms
  proof (induction as T rule: add_all.induct)
    case (2 ev d as T)
    have sh: "shaped T" using 2(2) by (simp add: wheel_ok_def)
    have "wheel_ok (timer_add ev d T)"
      unfolding timer_add_def using 2(2,3)
      by (intro add_node_ok) (simp_all add: pos_adds_def pos_delay_unat)
    with 2 have "wheel_ok (add_all as (timer_add ev d T)) \<and>
      ti_time (add_all as (timer_add ev d T)) = ti_time T \<and>
      due (add_all as (timer_add ev d T)) e = due (timer_add ev d T) e @ arrivals as (ti_time T) e"
      by (simp add: pos_adds_def)
    then show ?case by (auto simp: timer_add_def due_add_node[OF sh] arrivals_def)
  qed (simp add: arrivals_def)
  then show "wheel_ok (add_all as T)" "ti_time (add_all as T) = ti_time T"
    "due (add_all as T) e = due T e @ arrivals as (ti_time T) e" by blast+
qed

lemma clear_current:
  assumes ok: "wheel_ok T" and z: "z = Near (unat (ti_time T AND TIME_NEAR_MASK))"
  shows "wheel_ok (slot_set T z [])" "due (slot_set T z []) e = (if e = ti_time T then [] else due T e)"
proof -
  have sh: "shaped T" using ok by (simp add: wheel_ok_def)
  note c = current_slot[OF ok, folded z]
  note get = slot_get_cleared[OF sh c(1)]
  have at_z: "n \<in> set (slot_get T z) \<Longrightarrow> tn_expire n = ti_time T" for n
    using wheel_okD(1)[OF ok c(1)] current_slot(3)[OF ok] near_now
    by (metis c(2) slot_of_def unat_and_mask z unsigned_word_eqI)
  show "wheel_ok (slot_set T z [])"
    unfolding wheel_ok_def
  proof (intro conjI allI impI; (elim conjE)?)
    show "shaped (slot_set T z [])" by (rule shaped_set[OF sh c(1)])
    fix s n assume v: "vslot s" "n \<in> set (slot_get (slot_set T z []) s)"
    then have "n \<in> set (slot_get T s)" using get[OF v(1)] by (auto split: if_splits)
    then show "slot_of (slot_set T z []) (tn_expire n) = s"
      "unat (tn_expire n - ti_time (slot_set T z [])) < 2 ^ 31"
      using wheel_okD[OF ok v(1)] by simp_all
  qed
  have "slot_of T e = z \<Longrightarrow> e \<noteq> ti_time T \<Longrightarrow> due T e = []"
    using at_z by (auto simp: due_def filter_empty_conv)
  then show "due (slot_set T z []) e = (if e = ti_time T then [] else due T e)"
    using get[OF vslot_slot_of, of T e] c(2) by (auto simp: due_def)
qed

lemma timer_execute_empty:
  assumes "wheel_ok T" "due T (ti_time T) = []"
  shows "timer_execute env T = Some ([], env, T)"
  using current_slot(3)[OF assms(1)] assms(2)
  by (subst timer_execute.simps) (simp add: Let_def del: slot_get.simps)

text \<open>The loop of \<open>timer_execute\<close> runs at most once: what arrives meanwhile is due later.\<close>

lemma timer_execute_ok:
  assumes ok: "wheel_ok T" and pos: "pos_adds (window env)"
  defines "t \<equiv> ti_time T"
  shows "\<exists>out U. timer_execute env T = Some (out, (if due T t = [] then env else tl env), U) \<and>
    map tn_event out = due T t \<and> wheel_ok U \<and> ti_time U = t \<and>
    (\<forall>e. due U e = (if e = t then [] else due T e @ (if due T t = [] then [] else arrivals (window env) t e)))"
proof (cases "due T t = []")
  case True
  with timer_execute_empty[OF ok, of env] ok show ?thesis unfolding t_def by auto
next
  case False
  let ?z = "Near (unat (ti_time T AND TIME_NEAR_MASK))"
  let ?T1 = "slot_set T ?z []"
  let ?T2 = "add_all (window env) ?T1"
  note cl = clear_current[OF ok refl]
  note c = current_slot[OF ok]
  note ad = add_all_ok[OF cl(1) pos]
  have now: "due ?T2 t = []" using ad(3)[of t] cl(2)[of t] arrivals_now[OF pos] by (simp add: t_def del: slot_set.simps)
  have ne: "slot_get T ?z \<noteq> []" using False c(3) unfolding t_def by fastforce
  have "timer_execute (tl env) ?T2 = Some ([], tl env, ?T2)"
    by (rule timer_execute_empty) (use ad now t_def in \<open>simp_all del: slot_set.simps\<close>)
  then have "timer_execute env T = Some (slot_get T ?z, tl env, ?T2)"
    using ne by (subst timer_execute.simps) (simp add: Let_def del: slot_set.simps slot_get.simps)
  moreover have "\<forall>e. due ?T2 e = (if e = t then [] else due T e @ arrivals (window env) t e)"
    using ad(3) cl(2) now by (auto simp: t_def simp del: slot_set.simps)
  ultimately show ?thesis using False c(3) ad(1,2) unfolding t_def by (auto simp del: slot_set.simps slot_get.simps)
qed

section \<open>One update\<close>

text \<open>Between updates nothing is due at the present clock.\<close>

definition settled :: "timer \<Rightarrow> bool" where
  "settled T \<longleftrightarrow> wheel_ok T \<and> due T (ti_time T) = []"

lemma timer_update_ok:
  assumes "settled T" "pos_adds (window env)"
  defines "t \<equiv> ti_time T + 1"
  shows "\<exists>out env' U. timer_update env T = Some (out, env', U) \<and> map tn_event out = due T t \<and>
    settled U \<and> ti_time U = t \<and>
    (\<forall>e. due U e = (if e = t then [] else due T e @ (if due T t = [] then [] else arrivals (window env) t e)))"
proof -
  have ok: "wheel_ok T" "due T (ti_time T) = []" using assms by (simp_all add: settled_def)
  obtain T1 where T1: "timer_shift T = Some T1" "wheel_ok T1" "ti_time T1 = t" "due T1 = due T"
    using timer_shift_ok[OF ok] by (auto simp: t_def)
  obtain out env' U where "timer_execute env T1 = Some (out, env', U)" "map tn_event out = due T t"
      "wheel_ok U" "ti_time U = t"
      "\<forall>e. due U e = (if e = t then [] else due T e @ (if due T t = [] then [] else arrivals (window env) t e))"
    using timer_execute_ok[OF T1(2) assms(2)] unfolding T1(3,4) by blast
  then show ?thesis
    using timer_execute_empty[OF ok, of env] T1(1) by (auto simp: timer_update_def settled_def)
qed

section \<open>A run of the timer thread\<close>

text \<open>Each tick: the timers added since the last one, then one update. The events each update dispatches.\<close>

fun timer_run :: "adds list \<Rightarrow> timer \<Rightarrow> (timer_event list list \<times> timer) option" where
  "timer_run [] T = Some ([], T)"
| "timer_run (as # sched) T = do {
     r \<leftarrow> timer_update [] (add_all as T);
     q \<leftarrow> timer_run sched (snd (snd r));
     Some (map tn_event (fst r) # fst q, snd q) }"

text \<open>The specification: tick \<open>k\<close> hears, in order of arrival, the events whose delay ends there.\<close>

definition fires :: "(nat \<Rightarrow> timer_event list) \<Rightarrow> adds list \<Rightarrow> nat \<Rightarrow> timer_event list" where
  "fires init sched k = init (Suc k) @
     concat (map (\<lambda>i. map fst (filter (\<lambda>a. i + unat (snd a) = Suc k) (sched ! i))) [0..<min (Suc k) (length sched)])"

definition step_init :: "(nat \<Rightarrow> timer_event list) \<Rightarrow> adds \<Rightarrow> nat \<Rightarrow> timer_event list" where
  "step_init init as d =
     (if d = 0 then [] else init (Suc d) @ map fst (filter (\<lambda>a. unat (snd a) = Suc d) as))"

lemma fires_Cons:
  "fires init (as # sched) 0 = init 1 @ map fst (filter (\<lambda>a. unat (snd a) = 1) as)"
  "fires init (as # sched) (Suc k) = fires (step_init init as) sched k"
proof -
  show "fires init (as # sched) 0 = init 1 @ map fst (filter (\<lambda>a. unat (snd a) = 1) as)"
    by (simp add: fires_def)
  have "min (Suc (Suc k)) (length (as # sched)) = Suc (min (Suc k) (length sched))" by simp
  then show "fires init (as # sched) (Suc k) = fires (step_init init as) sched k"
    unfolding fires_def by (simp only: map_upt_shift) (simp add: step_init_def)
qed

text \<open>What is due, by distance from the clock.\<close>

definition ahead :: "timer \<Rightarrow> (nat \<Rightarrow> timer_event list) \<Rightarrow> bool" where
  "ahead T init \<longleftrightarrow> (\<forall>d < 2 ^ 32. due T (ti_time T + word_of_nat d) = init d) \<and> (\<forall>d \<ge> 2 ^ 31. init d = [])"

lemma arrivals_ahead:
  assumes "d < 2 ^ 32"
  shows "arrivals as t (t + word_of_nat d) = map fst (filter (\<lambda>a. unat (snd a) = d) as)"
proof -
  have "(x + t = t + word_of_nat d) \<longleftrightarrow> unat x = d" for x :: u32
  proof -
    have "unat (word_of_nat d :: u32) = d" using assms by (simp add: unat_of_nat)
    then show ?thesis by (metis add.commute add_left_cancel word_unat_eq_iff)
  qed
  then show ?thesis by (simp add: arrivals_def)
qed

lemma tick_ahead:
  assumes T: "settled T" "ahead T init" and pos: "pos_adds as"
  shows "\<exists>out env' U. timer_update [] (add_all as T) = Some (out, env', U) \<and> settled U \<and>
    map tn_event out = fires init (as # sched) 0 \<and> ahead U (step_init init as)"
proof -
  let ?t = "ti_time T" and ?A = "add_all as T"
  have "wheel_ok T" using T by (simp add: settled_def)
  note ad = add_all_ok[OF this pos]
  have dueA: "due ?A (?t + word_of_nat d) = init d @ map fst (filter (\<lambda>a. unat (snd a) = d) as)"
    if "d < 2 ^ 32" for d
    using T(2) that ad(3) arrivals_ahead[OF that] by (simp add: ahead_def)
  have "settled ?A" using T ad arrivals_now[OF pos] by (simp add: settled_def)
  from timer_update_ok[OF this, of "[]"] obtain out env' U where
    U: "timer_update [] ?A = Some (out, env', U)" "map tn_event out = due ?A (?t + 1)" "settled U"
      "ti_time U = ?t + 1" "\<And>e. due U e = (if e = ?t + 1 then [] else due ?A e)"
    by (auto simp: window_def pos_adds_def arrivals_def ad(2))
  have bound: "unat (snd a) < 2 ^ 31" if "a \<in> set as" for a
    using pos that by (simp add: pos_adds_def pos_delay_unat)
  have "ahead U (step_init init as)"
    unfolding ahead_def
  proof (intro conjI allI impI)
    fix d :: nat assume d: "2 ^ 31 \<le> d"
    then have "init (Suc d) = []" using T(2) by (simp add: ahead_def)
    with d bound show "step_init init as d = []" by (fastforce simp: step_init_def filter_empty_conv)
  next
    fix d :: nat assume d: "d < 2 ^ 32"
    have e: "?t + 1 + word_of_nat d = ?t + word_of_nat (Suc d)" by simp
    have zero: "(?t + 1 + word_of_nat d = ?t + 1) \<longleftrightarrow> d = 0"
      using d by (simp add: word_of_nat_eq_0_iff) (auto dest: dvd_imp_le)
    show "due U (ti_time U + word_of_nat d) = step_init init as d"
    proof (cases "Suc d < 2 ^ 32")
      case True
      then show ?thesis unfolding U(4,5) zero step_init_def unfolding e using dueA[OF True] by simp
    next
      case False
      then have d: "d = 2 ^ 32 - 1" using d by simp
      then have "?t + 1 + word_of_nat d = ?t" by (simp add: e)
      then have "due U (ti_time U + word_of_nat d) = due U ?t" by (simp only: U(4))
      also have "\<dots> = []" using U(5)[of ?t] \<open>settled ?A\<close> ad(2) by (simp add: settled_def)
      finally have "due U (ti_time U + word_of_nat d) = []" .
      moreover have "step_init init as d = []"
        using T(2) bound d by (fastforce simp: ahead_def step_init_def filter_empty_conv)
      ultimately show ?thesis by simp
    qed
  qed
  with U dueA[of 1] show ?thesis by (auto simp: fires_Cons)
qed

lemma timer_run_fires:
  assumes "settled T" "ahead T init" "\<forall>as \<in> set sched. pos_adds as"
  shows "\<exists>outs U. timer_run sched T = Some (outs, U) \<and> outs = map (fires init sched) [0..<length sched]"
  using assms
proof (induction sched arbitrary: T init)
  case (Cons as sched)
  from tick_ahead[OF Cons.prems(1,2), of as sched] Cons.prems(3) obtain out env' U where
    U: "timer_update [] (add_all as T) = Some (out, env', U)" "settled U"
      "map tn_event out = fires init (as # sched) 0" "ahead U (step_init init as)"
    by auto
  from Cons.IH[OF U(2,4)] Cons.prems(3) obtain V where
    "timer_run sched U = Some (map (fires (step_init init as) sched) [0..<length sched], V)" by auto
  with U show ?case by (simp add: map_upt_shift fires_Cons del: upt_Suc)
qed simp

section \<open>Properties of the timer\<close>

lemma fresh_timer:
  fixes c :: u32
  defines "T \<equiv> timer_create_timer\<lparr>ti_time := c\<rparr>"
  shows "settled T" "ahead T (\<lambda>_. [])"
proof -
  have empty: "slot_get timer_create_timer s = []" if "vslot s" for s
    using that by (cases s) (simp_all add: timer_create_timer_def)
  have "shaped timer_create_timer" by (simp add: shaped_def timer_create_timer_def)
  moreover have "due T e = []" for e by (simp add: due_def T_def empty)
  ultimately show "settled T" "ahead T (\<lambda>_. [])"
    using empty by (auto simp: settled_def ahead_def wheel_ok_def T_def)
qed

text \<open>
  C3. From an empty wheel at any clock value, every timer fires exactly on time and in order of
  arrival: when the timers added before each tick all have a positive delay, every update of the
  run returns, and the update of tick \<open>k\<close> dispatches exactly the events added before a tick
  \<open>i\<close> with a delay that ends at \<open>k\<close>, first come first served. Ticks count without bound, so the
  clock may wrap any number of times.
\<close>

theorem timers_fire_on_time:
  assumes "\<forall>as \<in> set sched. \<forall>a \<in> set as. 0 < sint (snd a)"
  shows "\<exists>outs T. timer_run sched (timer_create_timer\<lparr>ti_time := c\<rparr>) = Some (outs, T) \<and>
    length outs = length sched \<and>
    (\<forall>k < length sched. outs ! k =
       concat (map (\<lambda>i. map fst (filter (\<lambda>a. i + unat (snd a) = k + 1) (sched ! i))) [0..<k + 1]))"
proof -
  have "\<forall>as \<in> set sched. pos_adds as" using assms by (simp add: pos_adds_def pos_delay_def)
  from timer_run_fires[OF fresh_timer this] obtain T where
    "timer_run sched (timer_create_timer\<lparr>ti_time := c\<rparr>) =
       Some (map (fires (\<lambda>_. []) sched) [0..<length sched], T)" by blast
  then show ?thesis by (simp add: fires_def min_absorb1 del: upt_Suc)
qed

theorem timers_fire_on_time_witness:
  "\<exists>outs T. timer_run [[(\<lparr>ev_handle = 1, ev_session = 7\<rparr>, 2)], [(\<lparr>ev_handle = 2, ev_session = 8\<rparr>, 1)], []]
      (timer_create_timer\<lparr>ti_time := - 2\<rparr>) = Some (outs, T) \<and> length outs = 3 \<and> outs ! 0 = [] \<and>
    outs ! 1 = [\<lparr>ev_handle = 1, ev_session = 7\<rparr>, \<lparr>ev_handle = 2, ev_session = 8\<rparr>] \<and> outs ! 2 = []"
proof -
  let ?s = "[[(\<lparr>ev_handle = 1, ev_session = 7\<rparr>, 2)], [(\<lparr>ev_handle = 2, ev_session = 8\<rparr>, 1)], []] :: adds list"
  have "\<forall>as \<in> set ?s. \<forall>a \<in> set as. 0 < sint (snd a)" by simp
  from timers_fire_on_time[OF this, of "- 2"] obtain outs T where
    r: "timer_run ?s (timer_create_timer\<lparr>ti_time := - 2\<rparr>) = Some (outs, T)" "length outs = length ?s" and
    o: "\<forall>k < length ?s. outs ! k =
       concat (map (\<lambda>i. map fst (filter (\<lambda>a. i + unat (snd a) = k + 1) (?s ! i))) [0..<k + 1])" by blast
  have "outs ! 0 = []" using o[rule_format, of 0] by simp
  moreover have "outs ! 1 = [\<lparr>ev_handle = 1, ev_session = 7\<rparr>, \<lparr>ev_handle = 2, ev_session = 8\<rparr>]"
    using o[rule_format, of 1] by (simp add: upt_rec)
  moreover have "outs ! 2 = []" using o[rule_format, of 2] by (simp add: upt_rec nth_Cons')
  ultimately show ?thesis using r by auto
qed

text \<open>
  C7. One update of a wheel on which nothing is overdue, with other threads adding timers while
  the lock is released: the update returns, dispatches exactly what was due at the next tick, and
  leaves every other expiry as it was, with the concurrent additions behind; nothing is
  overdue after it.
\<close>

theorem timer_update_refines:
  assumes "wheel_ok T" "due T (ti_time T) = []" "\<forall>a \<in> set (window env). 0 < sint (snd a)"
  shows "\<exists>out env' U. timer_update env T = Some (out, env', U) \<and>
    map tn_event out = due T (ti_time T + 1) \<and>
    wheel_ok U \<and> ti_time U = ti_time T + 1 \<and> due U (ti_time U) = [] \<and>
    (\<forall>e. e \<noteq> ti_time U \<longrightarrow> due U e = due T e @ (if out = [] then [] else arrivals (window env) (ti_time U) e))"
proof -
  have "settled T" "pos_adds (window env)" using assms by (simp_all add: settled_def pos_adds_def pos_delay_def)
  from timer_update_ok[OF this] obtain out env' U where
    U: "timer_update env T = Some (out, env', U)" "map tn_event out = due T (ti_time T + 1)" "settled U"
      "ti_time U = ti_time T + 1"
      "\<forall>e. due U e = (if e = ti_time T + 1 then [] else
         due T e @ (if due T (ti_time T + 1) = [] then [] else arrivals (window env) (ti_time T + 1) e))"
    by blast
  have "out = [] \<longleftrightarrow> due T (ti_time T + 1) = []" using U(2) by fastforce
  with U show ?thesis by (auto simp: settled_def)
qed

theorem timer_update_refines_witness:
  "\<exists>out env' U. timer_update [[(\<lparr>ev_handle = 1, ev_session = 7\<rparr>, 5)]] timer_create_timer = Some (out, env', U) \<and>
    wheel_ok U \<and> ti_time U = 1 \<and> map tn_event out = due timer_create_timer 1"
proof -
  have "timer_create_timer = timer_create_timer\<lparr>ti_time := 0\<rparr>" by (simp add: timer_create_timer_def)
  then have s: "settled timer_create_timer" using fresh_timer(1)[of 0] by simp
  have "ti_time timer_create_timer = 0" by (simp add: timer_create_timer_def)
  with timer_update_refines[of timer_create_timer "[[(\<lparr>ev_handle = 1, ev_session = 7\<rparr>, 5)]]"] s
  show ?thesis by (auto simp: settled_def window_def)
qed

end
