(* ===== verification/Cstring.thy ===== *)
theory Cstring
  imports Prelude
begin

text \<open>
  The C library's string functions as far as the sources use them, on strings without their
  terminating NUL: printing integers (\<open>%d\<close>, \<open>%u\<close>, \<open>%x\<close>, \<open>%08x\<close>), reading them back (\<open>strtol\<close>,
  \<open>strtoul\<close>, with \<open>long\<close> of 64 bits), splitting at white space (\<open>sscanf\<close> with \<open>%s\<close>, \<open>strsep\<close>),
  and the round trips between printing and reading that the commands rely on.
\<close>

section \<open>Digits\<close>

definition digit_char :: "nat \<Rightarrow> char" where
  "digit_char d = (if d < 10 then char_of (48 + d) else char_of (87 + d))"

definition digit_val :: "char \<Rightarrow> nat option" where
  "digit_val c =
     (let n = of_char c :: nat in
      if 48 \<le> n \<and> n \<le> 57 then Some (n - 48)
      else if 97 \<le> n \<and> n \<le> 122 then Some (n - 87)
      else if 65 \<le> n \<and> n \<le> 90 then Some (n - 55)
      else None)"

function digits :: "nat \<Rightarrow> nat \<Rightarrow> nat list" where
  "digits b n = (if b < 2 \<or> n < b then [n] else digits b (n div b) @ [n mod b])"
  by pat_completeness auto
termination by (relation "measure snd") auto

declare digits.simps [simp del]

section \<open>Printing\<close>

definition show_nat :: "nat \<Rightarrow> nat \<Rightarrow> string" where
  "show_nat b n = map digit_char (digits b n)"

definition pad_left :: "nat \<Rightarrow> char \<Rightarrow> string \<Rightarrow> string" where
  "pad_left w c s = replicate (w - length s) c @ s"

definition show_d :: "int \<Rightarrow> string" where
  "show_d i = (if i < 0 then CHR ''-'' # show_nat 10 (nat (- i)) else show_nat 10 (nat i))"

definition show_u :: "nat \<Rightarrow> string" where
  "show_u n = show_nat 10 n"

definition show_x :: "u32 \<Rightarrow> string" where
  "show_x w = show_nat 16 (unat w)"

definition show_08x :: "u32 \<Rightarrow> string" where
  "show_08x w = pad_left 8 (CHR ''0'') (show_x w)"

definition show_02x :: "u8 \<Rightarrow> string" where
  "show_02x w = pad_left 2 (CHR ''0'') (show_nat 16 (unat w))"

section \<open>Reading\<close>

definition isspace :: "char \<Rightarrow> bool" where
  "isspace c = (let n = of_char c :: nat in n = 32 \<or> (9 \<le> n \<and> n \<le> 13))"

fun parse_digits :: "nat \<Rightarrow> nat \<Rightarrow> string \<Rightarrow> nat" where
  "parse_digits b acc [] = acc"
| "parse_digits b acc (c # cs) =
     (case digit_val c of
        Some d \<Rightarrow> if d < b then parse_digits b (acc * b + d) cs else acc
      | None \<Rightarrow> acc)"

definition num_sign :: "string \<Rightarrow> bool \<times> string" where
  "num_sign s = (case s of
       [] \<Rightarrow> (False, s)
     | c # cs \<Rightarrow> if c = CHR ''-'' then (True, cs) else if c = CHR ''+'' then (False, cs) else (False, s))"

definition is_digit :: "nat \<Rightarrow> char \<Rightarrow> bool" where
  "is_digit b c = (case digit_val c of Some d \<Rightarrow> d < b | None \<Rightarrow> False)"

text \<open>The base and the digits: \<open>0x\<close> is a prefix for base 16 and base 0, a leading \<open>0\<close> means octal for base 0.\<close>

definition num_base :: "nat \<Rightarrow> string \<Rightarrow> nat \<times> string" where
  "num_base b s =
     (if (b = 16 \<or> b = 0) \<and> 3 \<le> length s \<and> s ! 0 = CHR ''0'' \<and>
         (s ! 1 = CHR ''x'' \<or> s ! 1 = CHR ''X'') \<and> is_digit 16 (s ! 2)
      then (16, drop 2 s)
      else if b = 0 then (if s \<noteq> [] \<and> hd s = CHR ''0'' then (8, s) else (10, s))
      else (b, s))"

definition num_read :: "nat \<Rightarrow> string \<Rightarrow> bool \<times> nat" where
  "num_read b s =
     (let (neg, s1) = num_sign (dropWhile isspace s); (b', s2) = num_base b s1
      in (neg, parse_digits b' 0 s2))"

definition strtoul :: "string \<Rightarrow> nat \<Rightarrow> u64" where
  "strtoul s b =
     (let (neg, v) = num_read b s in
      if 2 ^ 64 \<le> v then - 1 else if neg then - word_of_nat v else word_of_nat v)"

definition strtol :: "string \<Rightarrow> nat \<Rightarrow> int" where
  "strtol s b =
     (let (neg, v) = num_read b s in
      if neg then max (- (2 ^ 63)) (- int v) else min (2 ^ 63 - 1) (int v))"

text \<open>The conversion of a \<open>long\<close> to \<open>int\<close> and of an \<open>unsigned long\<close> to \<open>uint32_t\<close>.\<close>

definition long_int :: "int \<Rightarrow> i32" where
  "long_int i = word_of_int i"

definition ulong_u32 :: "u64 \<Rightarrow> u32" where
  "ulong_u32 w = ucast w"

section \<open>Splitting\<close>

text \<open>\<open>sscanf(s, "%s %s", a, b)\<close>: each token, or \<open>None\<close> where the conversion does not happen and the buffer is not written.\<close>

definition scan_token :: "string \<Rightarrow> string option \<times> string" where
  "scan_token s =
     (let s1 = dropWhile isspace s; t = takeWhile (\<lambda>c. \<not> isspace c) s1
      in (if t = [] then None else Some t, drop (length t) s1))"

definition scan_two :: "string \<Rightarrow> string option \<times> string option" where
  "scan_two s =
     (let (a, s1) = scan_token s in
      case a of None \<Rightarrow> (None, None) | Some _ \<Rightarrow> (a, fst (scan_token s1)))"

text \<open>\<open>strsep(&p, delim)\<close>: the token and the new value of the pointer \<open>p\<close>.\<close>

definition strsep :: "char set \<Rightarrow> string option \<Rightarrow> string option \<times> string option" where
  "strsep delim p = (case p of
       None \<Rightarrow> (None, None)
     | Some s \<Rightarrow>
         let t = takeWhile (\<lambda>c. c \<notin> delim) s; rest = drop (length t) s
         in (Some t, if rest = [] then None else Some (tl rest)))"

text \<open>The bytes of a C string with its NUL.\<close>

definition cstr :: "string \<Rightarrow> u8 list" where
  "cstr s = map (\<lambda>c. word_of_nat (of_char c)) s @ [0]"

section \<open>Printing and reading are inverse\<close>

lemma digit_val_char: "d < 36 \<Longrightarrow> digit_val (digit_char d) = Some d"
  by (simp add: digit_val_def digit_char_def)

lemma digits_less: "2 \<le> b \<Longrightarrow> d \<in> set (digits b n) \<Longrightarrow> d < b"
  by (induction b n rule: digits.induct) (subst (asm) digits.simps, auto split: if_splits)

lemma digits_not_Nil [simp]: "digits b n \<noteq> []"
  by (subst digits.simps) simp

definition stops :: "nat \<Rightarrow> string \<Rightarrow> bool" where
  "stops b rest \<longleftrightarrow> rest = [] \<or> \<not> is_digit b (hd rest)"

lemma parse_digits_stops: "stops b rest \<Longrightarrow> parse_digits b acc rest = acc"
  by (cases rest) (auto simp: stops_def is_digit_def split: option.splits)

lemma parse_digits_map:
  assumes "\<forall>d \<in> set ds. d < b" "b \<le> 36" "stops b rest"
  shows "parse_digits b acc (map digit_char ds @ rest) = foldl (\<lambda>a d. a * b + d) acc ds"
  using assms by (induction ds arbitrary: acc) (auto simp: digit_val_char parse_digits_stops)

lemma foldl_digits: "2 \<le> b \<Longrightarrow> foldl (\<lambda>a d. a * b + d) 0 (digits b n) = n"
proof (induction b n rule: digits.induct)
  case (1 b n)
  then show ?case by (subst digits.simps) auto
qed

lemma parse_show:
  assumes "2 \<le> b" "b \<le> 36" "stops b rest"
  shows "parse_digits b 0 (show_nat b n @ rest) = n"
  unfolding show_nat_def using digits_less[OF assms(1)]
  by (simp add: parse_digits_map[OF _ assms(2,3)] foldl_digits[OF assms(1)])

text \<open>A string of hexadecimal digits has no sign, no space and no prefix.\<close>

lemma is_digit_plain:
  assumes "is_digit b c"
  shows "\<not> isspace c" "c \<noteq> CHR ''-''" "c \<noteq> CHR ''+''"
proof -
  have "48 \<le> (of_char c :: nat)" using assms by (auto simp: is_digit_def digit_val_def Let_def split: if_splits)
  then show "\<not> isspace c" "c \<noteq> CHR ''-''" "c \<noteq> CHR ''+''" by (auto simp: isspace_def Let_def)
qed

lemma is_digit_not_x: "is_digit 16 c \<Longrightarrow> c \<noteq> CHR ''x'' \<and> c \<noteq> CHR ''X''"
  by (auto simp: is_digit_def digit_val_def)

lemma num_read_hex:
  assumes "\<forall>c \<in> set s. is_digit 16 c"
  shows "num_read 16 s = (False, parse_digits 16 0 s)"
proof (cases s)
  case (Cons c cs)
  then have c: "is_digit 16 c" using assms by simp
  have "cs ! 0 \<noteq> CHR ''x'' \<and> cs ! 0 \<noteq> CHR ''X''" if "2 \<le> length cs"
    using assms Cons that is_digit_not_x by (cases cs) auto
  then have "num_base 16 s = (16, s)" using Cons by (auto simp: num_base_def)
  then show ?thesis using Cons is_digit_plain[OF c] by (simp add: num_read_def num_sign_def)
qed (simp add: num_read_def num_sign_def num_base_def)

lemma is_digit_show: "2 \<le> b \<Longrightarrow> b \<le> 36 \<Longrightarrow> c \<in> set (show_nat b n) \<Longrightarrow> is_digit b c"
  using digits_less[of b _ n] digit_val_char
  by (fastforce simp: show_nat_def is_digit_def)

lemma strtoul_hex_u32:
  assumes "\<forall>c \<in> set s. is_digit 16 c" "parse_digits 16 0 s = unat (w :: u32)"
  shows "ulong_u32 (strtoul s 16) = w"
proof -
  have "unat w < 2 ^ 32" using unsigned_less[of w] by simp
  then have "\<not> 2 ^ 64 \<le> unat w" by simp
  then have "strtoul s 16 = word_of_nat (unat w)"
    using assms by (simp add: strtoul_def num_read_hex)
  moreover have "(ucast (word_of_nat (unat w) :: u64) :: u32) = w"
    by (rule bit_word_eqI) (simp add: bit_simps)
  ultimately show ?thesis by (simp add: ulong_u32_def)
qed

lemma strtoul_show_x: "ulong_u32 (strtoul (show_x w) 16) = w"
  by (rule strtoul_hex_u32)
    (use is_digit_show[of 16] parse_show[of 16 "[]"] in \<open>auto simp: show_x_def stops_def\<close>)

lemma num_read_dec:
  assumes "stops 10 rest"
  shows "num_read 10 (show_nat 10 n @ rest) = (False, n)"
proof -
  obtain c cs where s: "show_nat 10 n = c # cs" by (cases "show_nat 10 n") (auto simp: show_nat_def)
  then have "is_digit 10 c" using is_digit_show[of 10 c n] by simp
  from is_digit_plain[OF this] s parse_show[of 10 rest n] assms show ?thesis
    by (simp add: num_read_def num_sign_def num_base_def)
qed

end
