(* ===== verification/Node.thy ===== *)
theory Node
  imports Handle Wheel Cstring
begin

text \<open>
  The node around the message core: the modules that services are loaded from
  (\<open>skynet_module.c\<close>), the environment (\<open>skynet_env.c\<close>), the log (\<open>skynet_error.c\<close>,
  \<open>skynet_log.c\<close>), the watch over worker threads (\<open>skynet_monitor.c\<close>), the part of
  \<open>skynet_server.c\<close> through which they reach a service by its handle, and the timer's side
  that sends messages (\<open>skynet_timer.c\<close>).

  Code loaded at run time (the functions of a service's module and its message callback) and
  the operating system (\<open>dlopen\<close>, \<open>dlsym\<close>, \<open>fopen\<close>, \<open>ctime\<close>) are the fields of a record that
  is an argument of the definitions. A function of a module may do anything to the node.
\<close>

section \<open>State\<close>

record skynet_module =
  mod_name :: string
  mod_module :: nat
  mod_create :: "nat option"
  mod_init :: "nat option"
  mod_release :: "nat option"
  mod_signal :: "nat option"

text \<open>
  \<open>n_modules\<close> is the used part of the array \<open>m\<close> of \<open>struct modules\<close>, so its length is \<open>count\<close>;
  \<open>n_env\<close> is the table of globals of the Lua state that holds the environment; \<open>n_logger\<close> is the
  static variable of \<open>skynet_error\<close>; \<open>n_files\<close> is what was written to each log file;
  \<open>t_handle\<close> is the thread-specific value of the running thread.
\<close>

record node_state = handle_state +
  g_init :: bool
  g_monitor_exit :: u32
  t_handle :: u32
  n_REMOTE :: "ctxid option"
  n_HARBOR :: u32
  n_env :: "string \<rightharpoonup> string"
  n_modules :: "skynet_module list"
  n_path :: string
  n_logger :: u32
  n_files :: "nat \<Rightarrow> string"
  n_TI :: timer

record externals =
  x_create :: "nat \<Rightarrow> node_state \<Rightarrow> (nat option \<times> node_state) option"
  x_init :: "nat \<Rightarrow> nat \<Rightarrow> ctxid \<Rightarrow> string option \<Rightarrow> node_state \<Rightarrow> (int \<times> node_state) option"
  x_release :: "nat \<Rightarrow> nat \<Rightarrow> node_state \<Rightarrow> node_state option"
  x_signal :: "nat \<Rightarrow> nat \<Rightarrow> i32 \<Rightarrow> node_state \<Rightarrow> node_state option"
  x_cb :: "nat \<Rightarrow> ctxid \<Rightarrow> nat \<Rightarrow> nat \<Rightarrow> i32 \<Rightarrow> u32 \<Rightarrow> msg_payload option \<Rightarrow> u64 \<Rightarrow> node_state \<Rightarrow> (int \<times> node_state) option"
  x_dlopen :: "string \<Rightarrow> nat option"
  x_dlsym :: "nat \<Rightarrow> string \<Rightarrow> nat option"
  x_fopen :: "string \<Rightarrow> nat option"
  x_ctime :: "u64 \<Rightarrow> string"

section \<open>Message types\<close>

definition PTYPE_TEXT :: nat where "PTYPE_TEXT = 0"
definition PTYPE_RESPONSE :: nat where "PTYPE_RESPONSE = 1"
definition PTYPE_CLIENT :: nat where "PTYPE_CLIENT = 3"
definition PTYPE_SYSTEM :: nat where "PTYPE_SYSTEM = 4"
definition PTYPE_HARBOR :: nat where "PTYPE_HARBOR = 5"
definition PTYPE_SOCKET :: nat where "PTYPE_SOCKET = 6"
definition PTYPE_ERROR :: nat where "PTYPE_ERROR = 7"
definition PTYPE_TAG_DONTCOPY :: i32 where "PTYPE_TAG_DONTCOPY = 0x10000"
definition PTYPE_TAG_ALLOCSESSION :: i32 where "PTYPE_TAG_ALLOCSESSION = 0x20000"

definition SKYNET_SOCKET_TYPE_DATA :: int where "SKYNET_SOCKET_TYPE_DATA = 1"
definition SKYNET_SOCKET_TYPE_CONNECT :: int where "SKYNET_SOCKET_TYPE_CONNECT = 2"
definition SKYNET_SOCKET_TYPE_CLOSE :: int where "SKYNET_SOCKET_TYPE_CLOSE = 3"
definition SKYNET_SOCKET_TYPE_ACCEPT :: int where "SKYNET_SOCKET_TYPE_ACCEPT = 4"
definition SKYNET_SOCKET_TYPE_ERROR :: int where "SKYNET_SOCKET_TYPE_ERROR = 5"
definition SKYNET_SOCKET_TYPE_UDP :: int where "SKYNET_SOCKET_TYPE_UDP = 6"
definition SKYNET_SOCKET_TYPE_WARNING :: int where "SKYNET_SOCKET_TYPE_WARNING = 7"

definition MESSAGE_TYPE_SHIFT :: nat where "MESSAGE_TYPE_SHIFT = 56"
definition MESSAGE_TYPE_MASK :: u64 where "MESSAGE_TYPE_MASK = mask 56"

definition sz_of_type :: "nat \<Rightarrow> u64" where
  "sz_of_type t = push_bit MESSAGE_TYPE_SHIFT (word_of_nat t)"

definition type_of_sz :: "u64 \<Rightarrow> nat" where
  "type_of_sz sz = unat (drop_bit MESSAGE_TYPE_SHIFT sz)"

section \<open>Modules\<close>

definition MAX_MODULE_TYPE :: nat where "MAX_MODULE_TYPE = 32"

text \<open>
  The search of the path: each entry between semicolons has a question mark that the name
  replaces. An entry without one ends the process.
\<close>

function try_open :: "(string \<Rightarrow> nat option) \<Rightarrow> string \<Rightarrow> string \<Rightarrow> nat option option" where
  "try_open dlopen path name =
     (let path1 = dropWhile (\<lambda>c. c = CHR '';'') path in
      if path1 = [] then Some None
      else
        let seg = takeWhile (\<lambda>c. c \<noteq> CHR '';'') path1;
            before = takeWhile (\<lambda>c. c \<noteq> CHR ''?'') seg
        in if CHR ''?'' \<in> set seg then
             (case dlopen (before @ name @ drop (length before + 1) seg) of
                Some dl \<Rightarrow> Some (Some dl)
              | None \<Rightarrow> try_open dlopen (drop (length seg) path1) name)
           else None)"
  by pat_completeness auto
termination
proof (relation "measure (\<lambda>(dlopen, path, name). length path)", goal_cases)
  case (2 dlopen path name path1 seg before)
  then have "seg \<noteq> []" by auto
  moreover have "length path1 \<le> length path" using 2 by (simp add: length_dropWhile_le)
  ultimately show ?case using 2(2) by (cases path1; cases seg) auto
qed simp

declare try_open.simps [simp del]

definition module_index :: "string \<Rightarrow> skynet_module list \<Rightarrow> nat option" where
  "module_index name ms = find (\<lambda>i. strcmp (mod_name (ms ! i)) name = 0) [0..<length ms]"

text \<open>The result is the module with its functions, and whether it has an \<open>init\<close>.\<close>

definition open_sym :: "(nat \<Rightarrow> string \<Rightarrow> nat option) \<Rightarrow> string \<Rightarrow> nat \<Rightarrow> skynet_module \<times> bool" where
  "open_sym dlsym name dl =
     (let m = \<lparr>mod_name = name, mod_module = dl,
               mod_create = dlsym dl (name @ ''_create''), mod_init = dlsym dl (name @ ''_init''),
               mod_release = dlsym dl (name @ ''_release''), mod_signal = dlsym dl (name @ ''_signal'')\<rparr>
      in (m, mod_init m \<noteq> None))"

definition skynet_module_query :: "externals \<Rightarrow> string \<Rightarrow> node_state \<Rightarrow> (nat option \<times> node_state) option" where
  "skynet_module_query X name s =
     (case module_index name (n_modules s) of
        Some i \<Rightarrow> Some (Some i, s)
      | None \<Rightarrow>
          if length (n_modules s) < MAX_MODULE_TYPE then do {
            dl \<leftarrow> try_open (x_dlopen X) (n_path s) name;
            case dl of
              None \<Rightarrow> Some (None, s)
            | Some d \<Rightarrow>
                let (m, ok) = open_sym (x_dlsym X) name d
                in Some (if ok then (Some (length (n_modules s)), s\<lparr>n_modules := n_modules s @ [m]\<rparr>)
                         else (None, s)) }
          else Some (None, s))"

definition skynet_module_insert :: "skynet_module \<Rightarrow> node_state \<Rightarrow> node_state option" where
  "skynet_module_insert m s =
     (if module_index (mod_name m) (n_modules s) = None \<and> length (n_modules s) < MAX_MODULE_TYPE
      then Some (s\<lparr>n_modules := n_modules s @ [m]\<rparr>) else None)"

definition get_module :: "nat \<Rightarrow> node_state \<Rightarrow> skynet_module option" where
  "get_module i s = (if i < length (n_modules s) then Some (n_modules s ! i) else None)"

text \<open>A module without \<open>create\<close> has the instance \<open>~0\<close>.\<close>

definition NO_INSTANCE :: nat where "NO_INSTANCE = 2 ^ 64 - 1"

definition skynet_module_instance_create ::
  "externals \<Rightarrow> nat \<Rightarrow> node_state \<Rightarrow> (nat option \<times> node_state) option" where
  "skynet_module_instance_create X i s = do {
     m \<leftarrow> get_module i s;
     case mod_create m of Some f \<Rightarrow> x_create X f s | None \<Rightarrow> Some (Some NO_INSTANCE, s) }"

definition skynet_module_instance_init ::
  "externals \<Rightarrow> nat \<Rightarrow> nat \<Rightarrow> ctxid \<Rightarrow> string option \<Rightarrow> node_state \<Rightarrow> (int \<times> node_state) option" where
  "skynet_module_instance_init X i inst c parm s = do {
     m \<leftarrow> get_module i s;
     f \<leftarrow> mod_init m;
     x_init X f inst c parm s }"

definition skynet_module_instance_release ::
  "externals \<Rightarrow> nat \<Rightarrow> nat \<Rightarrow> node_state \<Rightarrow> node_state option" where
  "skynet_module_instance_release X i inst s = do {
     m \<leftarrow> get_module i s;
     case mod_release m of Some f \<Rightarrow> x_release X f inst s | None \<Rightarrow> Some s }"

definition skynet_module_instance_signal ::
  "externals \<Rightarrow> nat \<Rightarrow> nat \<Rightarrow> i32 \<Rightarrow> node_state \<Rightarrow> node_state option" where
  "skynet_module_instance_signal X i inst sig s = do {
     m \<leftarrow> get_module i s;
     case mod_signal m of Some f \<Rightarrow> x_signal X f inst sig s | None \<Rightarrow> Some s }"

definition skynet_module_init :: "string \<Rightarrow> node_state \<Rightarrow> node_state" where
  "skynet_module_init path s = s\<lparr>n_modules := [], n_path := path\<rparr>"

text \<open>The release function that deleting a context runs.\<close>

definition rel :: "externals \<Rightarrow> skynet_context \<Rightarrow> node_state \<Rightarrow> node_state option" where
  "rel X x s = skynet_module_instance_release X (ctx_mod x) (ctx_instance x) s"

section \<open>Environment\<close>

definition skynet_getenv :: "string \<Rightarrow> node_state \<Rightarrow> string option" where
  "skynet_getenv key s = n_env s key"

definition skynet_setenv :: "string \<Rightarrow> string \<Rightarrow> node_state \<Rightarrow> node_state option" where
  "skynet_setenv key val s =
     (if n_env s key = None then Some (s\<lparr>n_env := (n_env s)(key \<mapsto> val)\<rparr>) else None)"

definition skynet_env_init :: "node_state \<Rightarrow> node_state" where
  "skynet_env_init s = s\<lparr>n_env := Map.empty\<rparr>"

section \<open>Reaching a service by its handle\<close>

definition skynet_context_push ::
  "externals \<Rightarrow> u32 \<Rightarrow> skynet_message \<Rightarrow> node_state \<Rightarrow> (int \<times> node_state) option" where
  "skynet_context_push X handle m s = do {
     r \<leftarrow> skynet_handle_grab handle s;
     case fst r of
       None \<Rightarrow> Some (-1, snd r)
     | Some c \<Rightarrow> do {
         x \<leftarrow> ctx_heap (snd r) c;
         s1 \<leftarrow> skynet_mq_push (ctx_queue x) m (snd r);
         r2 \<leftarrow> skynet_context_release (rel X) c s1;
         Some (0, snd r2) } }"

definition skynet_context_endless :: "externals \<Rightarrow> u32 \<Rightarrow> node_state \<Rightarrow> node_state option" where
  "skynet_context_endless X handle s = do {
     r \<leftarrow> skynet_handle_grab handle s;
     case fst r of
       None \<Rightarrow> Some (snd r)
     | Some c \<Rightarrow> do {
         s1 \<leftarrow> ctx_update c (\<lambda>x. x\<lparr>ctx_endless := True\<rparr>) (snd r);
         r2 \<leftarrow> skynet_context_release (rel X) c s1;
         Some (snd r2) } }"

section \<open>The error log\<close>

definition LOG_MESSAGE_SIZE :: nat where "LOG_MESSAGE_SIZE = 256"

text \<open>
  \<open>vsnprintf\<close> into a buffer of \<open>n\<close> bytes: the length of the whole text and what the buffer holds.
  The messages are formatted already, so it does not fail here.
\<close>

definition vsnprintf :: "nat \<Rightarrow> string \<Rightarrow> nat \<times> string" where
  "vsnprintf n msg = (length msg, take (n - 1) msg)"

partial_function (option) error_grow :: "string \<Rightarrow> nat \<Rightarrow> (nat \<times> string) option" where
  "error_grow msg max_size =
     (let r = vsnprintf (max_size * 2) msg in
      if fst r < max_size * 2 then Some r else error_grow msg (max_size * 2))"

definition error_text :: "string \<Rightarrow> (nat \<times> string) option" where
  "error_text msg =
     (let r = vsnprintf LOG_MESSAGE_SIZE msg in
      if fst r < LOG_MESSAGE_SIZE then Some r else error_grow msg LOG_MESSAGE_SIZE)"

definition skynet_error ::
  "externals \<Rightarrow> ctxid option \<Rightarrow> string \<Rightarrow> node_state \<Rightarrow> node_state option" where
  "skynet_error X context msg s = do {
     logger \<leftarrow> (if n_logger s = 0 then skynet_handle_findname ''logger'' s else Some (n_logger s));
     let s1 = s\<lparr>n_logger := logger\<rparr>;
     if logger = 0 then Some s1
     else do {
       d \<leftarrow> error_text msg;
       source \<leftarrow> (case context of None \<Rightarrow> Some 0 | Some c \<Rightarrow> skynet_context_handle c s1);
       r \<leftarrow> skynet_context_push X logger
              \<lparr>msg_source = source, msg_session = 0, msg_data = Some (Bytes (cstr (snd d))),
               msg_sz = word_of_nat (fst d) OR sz_of_type PTYPE_TEXT\<rparr> s1;
       Some (snd r) } }"

section \<open>Watching the workers\<close>

record skynet_monitor =
  mon_version :: i32
  mon_check_version :: i32
  mon_source :: u32
  mon_destination :: u32

definition skynet_monitor_new :: skynet_monitor where
  "skynet_monitor_new = \<lparr>mon_version = 0, mon_check_version = 0, mon_source = 0, mon_destination = 0\<rparr>"

definition skynet_monitor_trigger :: "u32 \<Rightarrow> u32 \<Rightarrow> skynet_monitor \<Rightarrow> skynet_monitor" where
  "skynet_monitor_trigger source destination sm =
     sm\<lparr>mon_source := source, mon_destination := destination, mon_version := mon_version sm + 1\<rparr>"

definition skynet_monitor_check ::
  "externals \<Rightarrow> skynet_monitor \<Rightarrow> node_state \<Rightarrow> (skynet_monitor \<times> node_state) option" where
  "skynet_monitor_check X sm s =
     (if mon_version sm = mon_check_version sm then
        if mon_destination sm \<noteq> 0 then do {
          s1 \<leftarrow> skynet_context_endless X (mon_destination sm) s;
          s2 \<leftarrow> skynet_error X None
                 (''A message from [ :'' @ show_08x (mon_source sm) @ '' ] to [ :'' @
                  show_08x (mon_destination sm) @ '' ] maybe in an endless loop (version = '' @
                  show_d (sint (mon_version sm)) @ '')'') s1;
          Some (sm, s2) }
        else Some (sm, s)
      else Some (sm\<lparr>mon_check_version := mon_version sm\<rparr>, s))"

section \<open>Timers that send messages\<close>

definition timeout_message :: "i32 \<Rightarrow> skynet_message" where
  "timeout_message session =
     \<lparr>msg_source = 0, msg_session = session, msg_data = None, msg_sz = sz_of_type PTYPE_RESPONSE\<rparr>"

fun dispatch_list :: "externals \<Rightarrow> timer_node list \<Rightarrow> node_state \<Rightarrow> node_state option" where
  "dispatch_list X [] s = Some s"
| "dispatch_list X (n # ns) s = do {
     r \<leftarrow> skynet_context_push X (ev_handle (tn_event n)) (timeout_message (ev_session (tn_event n))) s;
     dispatch_list X ns (snd r) }"

text \<open>
  \<open>timer_execute\<close> and \<open>timer_update\<close> once more, now with the messages they send (\<open>Wheel\<close> has them
  with what other threads add meanwhile).
\<close>

partial_function (option) node_timer_execute :: "externals \<Rightarrow> node_state \<Rightarrow> node_state option" where
  "node_timer_execute X s =
     (let idx = unat (ti_time (n_TI s) AND TIME_NEAR_MASK) in
      if slot_get (n_TI s) (Near idx) \<noteq> [] then
        let r = link_clear (Near idx) (n_TI s)
        in do {
          s1 \<leftarrow> dispatch_list X (fst r) (s\<lparr>n_TI := snd r\<rparr>);
          node_timer_execute X s1 }
      else Some s)"

definition node_timer_update :: "externals \<Rightarrow> node_state \<Rightarrow> node_state option" where
  "node_timer_update X s = do {
     s1 \<leftarrow> node_timer_execute X s;
     T \<leftarrow> timer_shift (n_TI s1);
     node_timer_execute X (s1\<lparr>n_TI := T\<rparr>) }"

definition skynet_timeout ::
  "externals \<Rightarrow> u32 \<Rightarrow> i32 \<Rightarrow> i32 \<Rightarrow> node_state \<Rightarrow> (i32 \<times> node_state) option" where
  "skynet_timeout X handle time session s =
     (if sint time \<le> 0 then do {
        r \<leftarrow> skynet_context_push X handle (timeout_message session) s;
        Some (if fst r \<noteq> 0 then -1 else session, snd r) }
      else Some (session,
        s\<lparr>n_TI := timer_add \<lparr>ev_handle = handle, ev_session = session\<rparr> time (n_TI s)\<rparr>))"

text \<open>The clocks: seconds and nanoseconds as \<open>clock_gettime\<close> gives them.\<close>

definition systime :: "u64 \<times> u64 \<Rightarrow> u32 \<times> u32" where
  "systime ti = (ucast (fst ti), ucast (snd ti div 10000000))"

definition gettime :: "u64 \<times> u64 \<Rightarrow> u64" where
  "gettime ti = fst ti * 100 + snd ti div 10000000"

fun update_times :: "externals \<Rightarrow> nat \<Rightarrow> node_state \<Rightarrow> node_state option" where
  "update_times X 0 s = Some s"
| "update_times X (Suc n) s = do { s1 \<leftarrow> node_timer_update X s; update_times X n s1 }"

definition skynet_updatetime :: "externals \<Rightarrow> u64 \<times> u64 \<Rightarrow> node_state \<Rightarrow> node_state option" where
  "skynet_updatetime X clock s =
     (let cp = gettime clock; point = ti_current_point (n_TI s) in
      if cp < point then do {
        s1 \<leftarrow> skynet_error X None
               (''time diff error: change from '' @ show_d (sint cp) @ '' to '' @ show_d (sint point)) s;
        Some (s1\<lparr>n_TI := (n_TI s1)\<lparr>ti_current_point := cp\<rparr>\<rparr>) }
      else if cp \<noteq> point then
        let diff = ucast (cp - point) :: u32
        in update_times X (unat diff)
             (s\<lparr>n_TI := (n_TI s)\<lparr>ti_current_point := cp, ti_current := ti_current (n_TI s) + ucast diff\<rparr>\<rparr>)
      else Some s)"

definition skynet_starttime :: "node_state \<Rightarrow> u32" where
  "skynet_starttime s = ti_starttime (n_TI s)"

definition skynet_now :: "node_state \<Rightarrow> u64" where
  "skynet_now s = ti_current (n_TI s)"

definition skynet_timer_init :: "u64 \<times> u64 \<Rightarrow> u64 \<times> u64 \<Rightarrow> node_state \<Rightarrow> node_state" where
  "skynet_timer_init realtime monotonic s =
     (let (sec, cs) = systime realtime
      in s\<lparr>n_TI := timer_create_timer\<lparr>ti_starttime := sec, ti_current := ucast cs,
                                      ti_current_point := gettime monotonic\<rparr>\<rparr>)"

section \<open>The log files\<close>

definition fput :: "nat \<Rightarrow> string \<Rightarrow> node_state \<Rightarrow> node_state" where
  "fput f text s = s\<lparr>n_files := (n_files s)(f := n_files s f @ text)\<rparr>"

definition skynet_log_open ::
  "externals \<Rightarrow> ctxid \<Rightarrow> u32 \<Rightarrow> node_state \<Rightarrow> (nat option \<times> node_state) option" where
  "skynet_log_open X c handle s =
     (case skynet_getenv ''logpath'' s of
        None \<Rightarrow> Some (None, s)
      | Some logpath \<Rightarrow>
          let tmp = logpath @ ''/'' @ show_08x handle @ ''.log'' in
          (case x_fopen X tmp of
             Some f \<Rightarrow> do {
               let ti = ucast (skynet_starttime s) + skynet_now s div 100;
               let now = skynet_now s;
               s1 \<leftarrow> skynet_error X (Some c) (''Open log file '' @ tmp) s;
               Some (Some f, fput f (''open time: '' @ show_u (unat (ucast now :: u32)) @ '' '' @ x_ctime X ti) s1) }
           | None \<Rightarrow> do {
               s1 \<leftarrow> skynet_error X (Some c) (''Open log file '' @ tmp @ '' fail'') s;
               Some (None, s1) }))"

definition skynet_log_close :: "externals \<Rightarrow> ctxid \<Rightarrow> nat \<Rightarrow> u32 \<Rightarrow> node_state \<Rightarrow> node_state option" where
  "skynet_log_close X c f handle s = do {
     s1 \<leftarrow> skynet_error X (Some c) (''Close log file :'' @ show_08x handle) s;
     Some (fput f (''close time: '' @ show_u (unat (ucast (skynet_now s1) :: u32)) @ [CHR 0x0A]) s1) }"

text \<open>\<open>log_blob\<close> reads \<open>sz\<close> bytes of the buffer.\<close>

definition log_blob :: "nat \<Rightarrow> u8 list \<Rightarrow> nat \<Rightarrow> node_state \<Rightarrow> node_state option" where
  "log_blob f buf sz s =
     (if sz \<le> length buf then Some (fput f (concat (map show_02x (take sz buf))) s) else None)"

definition of_bytes :: "u8 list \<Rightarrow> string" where
  "of_bytes bs = map (\<lambda>b. char_of (unat b)) bs"

text \<open>
  \<open>fprintf(f, "[%*s]", sz, buffer)\<close>: the number is the least width of the field, so the text
  runs to the NUL of the buffer, and past its end where there is none.
\<close>

definition log_text :: "nat \<Rightarrow> u8 list \<Rightarrow> string option" where
  "log_text width buf =
     (if 0 \<in> set buf then Some (pad_left width (CHR '' '') (of_bytes (takeWhile (\<lambda>b. b \<noteq> 0) buf))) else None)"

text \<open>
  \<open>log_socket\<close>, on the bytes that follow the structure in its block where the buffer is NULL;
  \<open>memchr\<close> looks at \<open>sz - sizeof(*message)\<close> of them.
\<close>

definition SOCKET_MESSAGE_SIZE :: nat where "SOCKET_MESSAGE_SIZE = 24"

definition log_socket :: "nat \<Rightarrow> skynet_socket_message \<Rightarrow> nat \<Rightarrow> node_state \<Rightarrow> node_state option" where
  "log_socket f message sz s = do {
     let s1 = fput f (''[socket] '' @ show_d (sm_type message) @ '' '' @ show_d (sm_id message) @ '' '' @
                      show_d (sm_ud message) @ '' '') s;
     s2 \<leftarrow> (case sm_buffer message of
         None \<Rightarrow>
           let buffer = sm_padding message;
               text = takeWhile (\<lambda>b. b \<noteq> 0) (take (sz - SOCKET_MESSAGE_SIZE) buffer)
           in do { t \<leftarrow> log_text (length text) buffer; Some (fput f (''['' @ t @ '']'') s1) }
       | Some buf \<Rightarrow> if sm_ud message < 0 then None else log_blob f buf (nat (sm_ud message)) s1);
     Some (fput f [CHR 0x0A] s2) }"

text \<open>The bytes of a \<open>struct remote_message\<close> hold addresses: logging one is outside the model.\<close>

definition skynet_log_output ::
  "nat \<Rightarrow> u32 \<Rightarrow> nat \<Rightarrow> i32 \<Rightarrow> msg_payload option \<Rightarrow> nat \<Rightarrow> node_state \<Rightarrow> node_state option" where
  "skynet_log_output f source type session buffer sz s =
     (if type = PTYPE_SOCKET then
        (case buffer of Some (Socket m) \<Rightarrow> log_socket f m sz s | _ \<Rightarrow> None)
      else do {
        let s1 = fput f ('':'' @ show_08x source @ '' '' @ show_d (int type) @ '' '' @
                         show_d (sint session) @ '' '' @ show_u (unat (ucast (skynet_now s) :: u32)) @ '' '') s;
        s2 \<leftarrow> (case buffer of
            Some (Bytes bs) \<Rightarrow> log_blob f bs sz s1
          | None \<Rightarrow> if sz = 0 then Some s1 else None
          | _ \<Rightarrow> None);
        Some (fput f [CHR 0x0A] s2) })"

end
