(* ===== verification/Server.thy ===== *)
theory Server
  imports Node
begin

text \<open>
  The rest of \<open>skynet_server.c\<close> and \<open>skynet_harbor.c\<close>: creating a service, sending a message to a
  local handle, to a name or to another node, the dispatch loop of a worker, and the text
  commands a service gives.
\<close>

section \<open>Threads\<close>

definition THREAD_MAIN :: nat where "THREAD_MAIN = 1"

definition skynet_initthread :: "nat \<Rightarrow> node_state \<Rightarrow> node_state" where
  "skynet_initthread m s = s\<lparr>t_handle := - word_of_nat m\<rparr>"

definition skynet_current_handle :: "node_state \<Rightarrow> u32" where
  "skynet_current_handle s = (if g_init s then t_handle s else - word_of_nat THREAD_MAIN)"

definition skynet_globalinit :: "node_state \<Rightarrow> node_state" where
  "skynet_globalinit s =
     skynet_initthread THREAD_MAIN (s\<lparr>node_total := 0, g_monitor_exit := 0, g_init := True\<rparr>)"

section \<open>Harbor\<close>

definition REMOTE_MESSAGE_SIZE :: u64 where "REMOTE_MESSAGE_SIZE = 40"

definition skynet_context_send ::
  "ctxid \<Rightarrow> msg_payload option \<Rightarrow> u64 \<Rightarrow> u32 \<Rightarrow> nat \<Rightarrow> i32 \<Rightarrow> node_state \<Rightarrow> node_state option" where
  "skynet_context_send c msg sz source type session s = do {
     x \<leftarrow> ctx_heap s c;
     skynet_mq_push (ctx_queue x)
       \<lparr>msg_source = source, msg_session = session, msg_data = msg, msg_sz = sz OR sz_of_type type\<rparr> s }"

definition skynet_harbor_send ::
  "remote_message \<Rightarrow> u32 \<Rightarrow> i32 \<Rightarrow> node_state \<Rightarrow> node_state option" where
  "skynet_harbor_send rmsg source session s = do {
     let type = type_of_sz (rm_sz rmsg);
     let rmsg1 = rmsg\<lparr>rm_sz := rm_sz rmsg AND MESSAGE_TYPE_MASK\<rparr>;
     if type = PTYPE_SYSTEM \<or> type = PTYPE_HARBOR then None
     else do {
       c \<leftarrow> n_REMOTE s;
       skynet_context_send c (Some (Remote rmsg1)) REMOTE_MESSAGE_SIZE source type session s } }"

definition skynet_harbor_message_isremote :: "u32 \<Rightarrow> node_state \<Rightarrow> bool option" where
  "skynet_harbor_message_isremote handle s =
     (if n_HARBOR s = - 1 then None
      else let h = handle AND NOT HANDLE_MASK in Some (h \<noteq> n_HARBOR s \<and> h \<noteq> 0))"

definition skynet_harbor_init :: "int \<Rightarrow> node_state \<Rightarrow> node_state" where
  "skynet_harbor_init harbor s = s\<lparr>n_HARBOR := push_bit HANDLE_REMOTE_SHIFT (word_of_int harbor)\<rparr>"

definition skynet_harbor_start :: "ctxid \<Rightarrow> node_state \<Rightarrow> node_state option" where
  "skynet_harbor_start c s = do {
     s1 \<leftarrow> skynet_context_reserve c s;
     Some (s1\<lparr>n_REMOTE := Some c\<rparr>) }"

definition skynet_harbor_exit :: "externals \<Rightarrow> node_state \<Rightarrow> node_state option" where
  "skynet_harbor_exit X s =
     (let s1 = s\<lparr>n_REMOTE := None\<rparr> in
      case n_REMOTE s of
        None \<Rightarrow> Some s1
      | Some c \<Rightarrow> do { r \<leftarrow> skynet_context_release (rel X) c s1; Some (snd r) })"

text \<open>The answer and the harbor a handle belongs to.\<close>

definition skynet_isremote :: "u32 \<Rightarrow> node_state \<Rightarrow> (bool \<times> nat) option" where
  "skynet_isremote handle s = do {
     ret \<leftarrow> skynet_harbor_message_isremote handle s;
     Some (ret, unat (drop_bit HANDLE_REMOTE_SHIFT handle)) }"

section \<open>Sending\<close>

definition GLOBALNAME_LENGTH :: nat where "GLOBALNAME_LENGTH = 16"

definition copy_name :: "string \<Rightarrow> u8 list" where
  "copy_name addr =
     (let n = map (\<lambda>c. word_of_nat (of_char c)) (take GLOBALNAME_LENGTH addr)
      in n @ replicate (GLOBALNAME_LENGTH - length n) 0)"

text \<open>The copy has a NUL after the \<open>sz\<close> bytes; reading past the end of the data is undefined.\<close>

definition copy_data :: "msg_payload option \<Rightarrow> u64 \<Rightarrow> msg_payload option option" where
  "copy_data data sz = (case data of
       Some (Bytes bs) \<Rightarrow>
         if unat sz \<le> length bs then Some (Some (Bytes (take (unat sz) bs @ [0]))) else None
     | _ \<Rightarrow> Some data)"

definition filter_args ::
  "ctxid option \<Rightarrow> i32 \<Rightarrow> i32 \<Rightarrow> msg_payload option \<Rightarrow> u64 \<Rightarrow> node_state \<Rightarrow>
   (i32 \<times> msg_payload option \<times> u64 \<times> node_state) option" where
  "filter_args context type session data sz s = do {
     let needcopy = (type AND PTYPE_TAG_DONTCOPY = 0);
     let allocsession = (type AND PTYPE_TAG_ALLOCSESSION \<noteq> 0);
     let type1 = type AND 0xff;
     r \<leftarrow> (if allocsession then
             if session \<noteq> 0 then None
             else do { c \<leftarrow> context; skynet_context_newsession c s }
           else Some (session, s));
     data1 \<leftarrow> (if needcopy then copy_data data sz else Some data);
     Some (fst r, data1, sz OR sz_of_type (unat type1), snd r) }"

text \<open>The data of a message for another node: bytes (a structure of this node does not leave it).\<close>

definition remote_data :: "msg_payload option \<Rightarrow> u8 list option option" where
  "remote_data data = (case data of
       None \<Rightarrow> Some None | Some (Bytes bs) \<Rightarrow> Some (Some bs) | _ \<Rightarrow> None)"

text \<open>\<open>source == 0\<close> stands for the sender's own handle.\<close>

definition source_or_self :: "ctxid option \<Rightarrow> u32 \<Rightarrow> node_state \<Rightarrow> u32 option" where
  "source_or_self context source s =
     (if source = 0 then do { c \<leftarrow> context; skynet_context_handle c s } else Some source)"

definition skynet_send ::
  "externals \<Rightarrow> ctxid option \<Rightarrow> u32 \<Rightarrow> u32 \<Rightarrow> i32 \<Rightarrow> i32 \<Rightarrow> msg_payload option \<Rightarrow> u64 \<Rightarrow> node_state \<Rightarrow>
   (i32 \<times> node_state) option" where
  "skynet_send X context source destination type session data sz s =
     (if sz AND MESSAGE_TYPE_MASK \<noteq> sz then do {
        s1 \<leftarrow> skynet_error X context (''The message to '' @ show_x destination @ '' is too large'') s;
        Some (-1, s1) }
      else do {
        (session1, data1, sz1, s1) \<leftarrow> filter_args context type session data sz s;
        src \<leftarrow> source_or_self context source s1;
        if destination = 0 then Some (session1, s1)
        else do {
          remote \<leftarrow> skynet_harbor_message_isremote destination s1;
          if remote then do {
            rdata \<leftarrow> remote_data data1;
            s2 \<leftarrow> skynet_harbor_send
                   \<lparr>rm_name = [], rm_handle = destination, rm_message = rdata, rm_sz = sz1\<rparr>
                   src session1 s1;
            Some (session1, s2) }
          else do {
            r \<leftarrow> skynet_context_push X destination
                   \<lparr>msg_source = src, msg_session = session1, msg_data = data1, msg_sz = sz1\<rparr> s1;
            Some (if fst r \<noteq> 0 then -1 else session1, snd r) } } })"

text \<open>The handle written after a colon.\<close>

definition hex_handle :: "string \<Rightarrow> u32" where
  "hex_handle s = ulong_u32 (strtoul s 16)"

definition skynet_sendname ::
  "externals \<Rightarrow> ctxid option \<Rightarrow> u32 \<Rightarrow> string \<Rightarrow> i32 \<Rightarrow> i32 \<Rightarrow> msg_payload option \<Rightarrow> u64 \<Rightarrow> node_state \<Rightarrow>
   (i32 \<times> node_state) option" where
  "skynet_sendname X context source addr type session data sz s = do {
     src \<leftarrow> source_or_self context source s;
     if addr \<noteq> [] \<and> hd addr = CHR '':'' then
       skynet_send X context src (hex_handle (tl addr)) type session data sz s
     else if addr \<noteq> [] \<and> hd addr = CHR ''.'' then do {
       des \<leftarrow> skynet_handle_findname (tl addr) s;
       if des = 0 then Some (-1, s)
       else skynet_send X context src des type session data sz s }
     else do {
       (session1, data1, sz1, s1) \<leftarrow> filter_args context type session data sz s;
       rdata \<leftarrow> remote_data data1;
       s2 \<leftarrow> skynet_harbor_send
              \<lparr>rm_name = copy_name addr, rm_handle = 0, rm_message = rdata, rm_sz = sz1\<rparr>
              src session1 s1;
       Some (session1, s2) } }"

section \<open>Creating and ending services\<close>

text \<open>The messages of a queue that is dropped are answered with an error to their sources.\<close>

definition drop_message ::
  "externals \<Rightarrow> u32 \<Rightarrow> skynet_message \<Rightarrow> node_state \<Rightarrow> node_state option" where
  "drop_message X source m s =
     (if source = 0 then None
      else do {
        r \<leftarrow> skynet_send X None source (msg_source m) (word_of_nat PTYPE_ERROR) 0 None 0 s;
        Some (snd r) })"

definition new_context :: "nat \<Rightarrow> nat \<Rightarrow> skynet_context" where
  "new_context m inst =
     \<lparr>ctx_instance = inst, ctx_mod = m, ctx_cb_ud = 0, ctx_cb = None, ctx_queue = 0,
      ctx_logfile = None, ctx_result = [], ctx_handle = 0, ctx_session_id = 0, ctx_ref = 2,
      ctx_init = False, ctx_endless = False\<rparr>"

text \<open>The end of \<open>skynet_context_new\<close>, from the result of the module's \<open>init\<close> on.\<close>

definition context_launched ::
  "externals \<Rightarrow> string \<Rightarrow> string option \<Rightarrow> ctxid \<Rightarrow> mqid \<Rightarrow> node_state \<Rightarrow> (ctxid option \<times> node_state) option" where
  "context_launched X name param c q s = do {
     r \<leftarrow> skynet_context_release (rel X) c s;
     s1 \<leftarrow> (case fst r of
         Some _ \<Rightarrow> ctx_update c (\<lambda>x. x\<lparr>ctx_init := True\<rparr>) (snd r)
       | None \<Rightarrow> Some (snd r));
     s2 \<leftarrow> skynet_globalmq_push q s1;
     s3 \<leftarrow> (case fst r of
         Some _ \<Rightarrow> skynet_error X (Some c)
                     (''LAUNCH '' @ name @ '' '' @ (case param of Some p \<Rightarrow> p | None \<Rightarrow> [])) s2
       | None \<Rightarrow> Some s2);
     Some (fst r, s3) }"

definition context_failed ::
  "externals \<Rightarrow> string \<Rightarrow> ctxid \<Rightarrow> mqid \<Rightarrow> node_state \<Rightarrow> (ctxid option \<times> node_state) option" where
  "context_failed X name c q s = do {
     s1 \<leftarrow> skynet_error X (Some c) (''FAILED launch '' @ name) s;
     handle \<leftarrow> skynet_context_handle c s1;
     r \<leftarrow> skynet_context_release (rel X) c s1;
     r2 \<leftarrow> skynet_handle_retire (rel X) handle (snd r);
     s2 \<leftarrow> skynet_mq_release (drop_message X handle) q (snd r2);
     Some (None, s2) }"

definition skynet_context_new ::
  "externals \<Rightarrow> string \<Rightarrow> string option \<Rightarrow> node_state \<Rightarrow> (ctxid option \<times> node_state) option" where
  "skynet_context_new X name param s = do {
     (m, s1) \<leftarrow> skynet_module_query X name s;
     case m of
       None \<Rightarrow> Some (None, s1)
     | Some md \<Rightarrow> do {
         (i, s2) \<leftarrow> skynet_module_instance_create X md s1;
         case i of
           None \<Rightarrow> Some (None, s2)
         | Some inst \<Rightarrow> do {
             let c = ctx_fresh s2;
             let s3 = s2\<lparr>ctx_heap := (ctx_heap s2)(c \<mapsto> new_context md inst), ctx_fresh := Suc c\<rparr>;
             (handle, s4) \<leftarrow> register_context c s3;
             let (q, s5) = skynet_mq_create handle s4;
             s6 \<leftarrow> ctx_update c (\<lambda>x. x\<lparr>ctx_queue := q\<rparr>) s5;
             let s7 = context_inc s6;
             (r, s8) \<leftarrow> skynet_module_instance_init X md inst c param s7;
             if r = 0 then context_launched X name param c q s8
             else context_failed X name c q s8 } } }"

definition handle_exit :: "externals \<Rightarrow> ctxid \<Rightarrow> u32 \<Rightarrow> node_state \<Rightarrow> node_state option" where
  "handle_exit X c handle s = do {
     own \<leftarrow> skynet_context_handle c s;
     let h = (if handle = 0 then own else handle);
     s1 \<leftarrow> skynet_error X (Some c) (if handle = 0 then ''KILL self'' else ''KILL :'' @ show_x handle) s;
     s2 \<leftarrow> (if g_monitor_exit s1 \<noteq> 0 then do {
              r \<leftarrow> skynet_send X (Some c) h (g_monitor_exit s1) (word_of_nat PTYPE_CLIENT) 0 None 0 s1;
              Some (snd r) }
            else Some s1);
     r \<leftarrow> skynet_handle_retire (rel X) h s2;
     Some (snd r) }"

section \<open>Dispatch\<close>

definition dispatch_message :: "externals \<Rightarrow> ctxid \<Rightarrow> skynet_message \<Rightarrow> node_state \<Rightarrow> node_state option" where
  "dispatch_message X c m s = do {
     x \<leftarrow> ctx_heap s c;
     if \<not> ctx_init x then None
     else do {
       let s1 = s\<lparr>t_handle := ctx_handle x\<rparr>;
       let type = type_of_sz (msg_sz m);
       let sz = msg_sz m AND MESSAGE_TYPE_MASK;
       s2 \<leftarrow> (case ctx_logfile x of
           Some f \<Rightarrow> skynet_log_output f (msg_source m) type (msg_session m) (msg_data m) (unat sz) s1
         | None \<Rightarrow> Some s1);
       cb \<leftarrow> ctx_cb x;
       r \<leftarrow> x_cb X cb c (ctx_cb_ud x) type (msg_session m) (msg_source m) (msg_data m) sz s2;
       Some (snd r) } }"

partial_function (option) dispatchall_loop ::
  "externals \<Rightarrow> ctxid \<Rightarrow> mqid \<Rightarrow> node_state \<Rightarrow> node_state option" where
  "dispatchall_loop X c q s = do {
     r \<leftarrow> skynet_mq_pop q s;
     case fst r of
       None \<Rightarrow> Some (snd r)
     | Some m \<Rightarrow> do { s1 \<leftarrow> dispatch_message X c m (snd r); dispatchall_loop X c q s1 } }"

definition skynet_context_dispatchall :: "externals \<Rightarrow> ctxid \<Rightarrow> node_state \<Rightarrow> node_state option" where
  "skynet_context_dispatchall X c s = do {
     x \<leftarrow> ctx_heap s c;
     dispatchall_loop X c (ctx_queue x) s }"

text \<open>What \<open>skynet_context_message_dispatch\<close> does with one message it took.\<close>

definition dispatch_one ::
  "externals \<Rightarrow> ctxid \<Rightarrow> mqid \<Rightarrow> u32 \<Rightarrow> skynet_message \<Rightarrow> skynet_monitor \<Rightarrow> node_state \<Rightarrow>
   (skynet_monitor \<times> node_state) option" where
  "dispatch_one X c q handle m sm s = do {
     (overload, s1) \<leftarrow> skynet_mq_overload q s;
     s2 \<leftarrow> (if overload \<noteq> 0
            then skynet_error X (Some c) (''May overload, message queue length = '' @ show_d overload) s1
            else Some s1);
     let sm1 = skynet_monitor_trigger (msg_source m) handle sm;
     x \<leftarrow> ctx_heap s2 c;
     s3 \<leftarrow> (if ctx_cb x = None then Some s2 else dispatch_message X c m s2);
     Some (skynet_monitor_trigger 0 0 sm1, s3) }"

text \<open>The iterations of its loop after the first; the flag tells whether the queue ran empty.\<close>

fun dispatch_rest ::
  "externals \<Rightarrow> ctxid \<Rightarrow> mqid \<Rightarrow> u32 \<Rightarrow> nat \<Rightarrow> skynet_monitor \<Rightarrow> node_state \<Rightarrow>
   (bool \<times> skynet_monitor \<times> node_state) option" where
  "dispatch_rest X c q handle 0 sm s = Some (False, sm, s)"
| "dispatch_rest X c q handle (Suc n) sm s = do {
     (r, s1) \<leftarrow> skynet_mq_pop q s;
     case r of
       None \<Rightarrow> Some (True, sm, s1)
     | Some m \<Rightarrow> do {
         (sm1, s2) \<leftarrow> dispatch_one X c q handle m sm s1;
         dispatch_rest X c q handle n sm1 s2 } }"

definition dispatch_loop ::
  "externals \<Rightarrow> ctxid \<Rightarrow> mqid \<Rightarrow> u32 \<Rightarrow> int \<Rightarrow> skynet_monitor \<Rightarrow> node_state \<Rightarrow>
   (bool \<times> skynet_monitor \<times> node_state) option" where
  "dispatch_loop X c q handle weight sm s = do {
     (r, s1) \<leftarrow> skynet_mq_pop q s;
     case r of
       None \<Rightarrow> Some (True, sm, s1)
     | Some m \<Rightarrow> do {
         n \<leftarrow> (if 0 \<le> weight then do { len \<leftarrow> skynet_mq_length q s1; Some (drop_bit (nat weight) len) }
               else Some 1);
         (sm1, s2) \<leftarrow> dispatch_one X c q handle m sm s1;
         dispatch_rest X c q handle (n - 1) sm1 s2 } }"

text \<open>The dispatch on a queue that is at hand: the queue to go on with.\<close>

definition dispatch_queue ::
  "externals \<Rightarrow> skynet_monitor \<Rightarrow> mqid \<Rightarrow> int \<Rightarrow> node_state \<Rightarrow>
   (mqid option \<times> skynet_monitor \<times> node_state) option" where
  "dispatch_queue X sm q weight s = do {
     handle \<leftarrow> skynet_mq_handle q s;
     (g, s1) \<leftarrow> skynet_handle_grab handle s;
     case g of
       None \<Rightarrow> do {
         s2 \<leftarrow> skynet_mq_release (drop_message X handle) q s1;
         (nq, s3) \<leftarrow> skynet_globalmq_pop s2;
         Some (nq, sm, s3) }
     | Some c \<Rightarrow> do {
         (ended, sm1, s2) \<leftarrow> dispatch_loop X c q handle weight sm s1;
         if ended then do {
           r \<leftarrow> skynet_context_release (rel X) c s2;
           (nq, s3) \<leftarrow> skynet_globalmq_pop (snd r);
           Some (nq, sm1, s3) }
         else do {
           x \<leftarrow> ctx_heap s2 c;
           if ctx_queue x \<noteq> q then None
           else do {
             (nq, s3) \<leftarrow> skynet_globalmq_pop s2;
             s4 \<leftarrow> (if nq \<noteq> None then skynet_globalmq_push q s3 else Some s3);
             r \<leftarrow> skynet_context_release (rel X) c s4;
             Some (if nq \<noteq> None then nq else Some q, sm1, snd r) } } } }"

definition skynet_context_message_dispatch ::
  "externals \<Rightarrow> skynet_monitor \<Rightarrow> mqid option \<Rightarrow> int \<Rightarrow> node_state \<Rightarrow>
   (mqid option \<times> skynet_monitor \<times> node_state) option" where
  "skynet_context_message_dispatch X sm q weight s = (case q of
       Some p \<Rightarrow> dispatch_queue X sm p weight s
     | None \<Rightarrow> do {
         (r, s1) \<leftarrow> skynet_globalmq_pop s;
         case r of None \<Rightarrow> Some (None, sm, s1) | Some p \<Rightarrow> dispatch_queue X sm p weight s1 })"

section \<open>Names and commands\<close>

definition id_to_hex :: "u32 \<Rightarrow> string" where
  "id_to_hex i =
     CHR '':'' # map (\<lambda>k. ''0123456789ABCDEF'' ! unat (drop_bit ((7 - k) * 4) i AND 0xf)) [0..<8]"

text \<open>The first character, NUL for the empty string.\<close>

definition first_char :: "string \<Rightarrow> char" where
  "first_char s = (case s of [] \<Rightarrow> CHR 0x00 | c # _ \<Rightarrow> c)"

definition skynet_queryname :: "externals \<Rightarrow> ctxid \<Rightarrow> string \<Rightarrow> node_state \<Rightarrow> (u32 \<times> node_state) option" where
  "skynet_queryname X c name s =
     (if first_char name = CHR '':'' then Some (hex_handle (tl name), s)
      else if first_char name = CHR ''.'' then do { h \<leftarrow> skynet_handle_findname (tl name) s; Some (h, s) }
      else do {
        s1 \<leftarrow> skynet_error X (Some c) (''Don't support query global name '' @ name) s;
        Some (0, s1) })"

definition set_result :: "ctxid \<Rightarrow> string \<Rightarrow> node_state \<Rightarrow> (string option \<times> node_state) option" where
  "set_result c text s = do {
     s1 \<leftarrow> ctx_update c (\<lambda>x. x\<lparr>ctx_result := text\<rparr>) s;
     Some (Some text, s1) }"

text \<open>A command: its result string, or \<open>None\<close> where it returns NULL, and the node after it. The parameter is \<open>None\<close> where it is NULL.\<close>

type_synonym command = "externals \<Rightarrow> ctxid \<Rightarrow> string option \<Rightarrow> node_state \<Rightarrow> (string option \<times> node_state) option"

definition cmd_timeout :: command where
  "cmd_timeout X c param s = do {
     p \<leftarrow> param;
     let ti = long_int (strtol p 10);
     (session, s1) \<leftarrow> skynet_context_newsession c s;
     handle \<leftarrow> skynet_context_handle c s1;
     r \<leftarrow> skynet_timeout X handle ti session s1;
     set_result c (show_d (sint session)) (snd r) }"

definition cmd_reg :: command where
  "cmd_reg X c param s = do {
     handle \<leftarrow> skynet_context_handle c s;
     case param of
       None \<Rightarrow> set_result c (CHR '':'' # show_x handle) s
     | Some p \<Rightarrow>
         if p = [] then set_result c (CHR '':'' # show_x handle) s
         else if hd p = CHR ''.'' then skynet_handle_namehandle handle (tl p) s
         else do {
           s1 \<leftarrow> skynet_error X (Some c) (''Can't register global name '' @ p @ '' in C'') s;
           Some (None, s1) } }"

definition cmd_query :: command where
  "cmd_query X c param s = do {
     p \<leftarrow> param;
     if first_char p = CHR ''.'' then do {
       handle \<leftarrow> skynet_handle_findname (tl p) s;
       if handle \<noteq> 0 then set_result c (CHR '':'' # show_x handle) s else Some (None, s) }
     else Some (None, s) }"

text \<open>Where \<open>sscanf\<close> finds no second word, the code reads an array nothing was stored into.\<close>

definition cmd_name :: command where
  "cmd_name X c param s = do {
     p \<leftarrow> param;
     handle \<leftarrow> snd (scan_two p);
     if hd handle \<noteq> CHR '':'' then Some (None, s)
     else do {
       let handle_id = hex_handle (tl handle);
       if handle_id = 0 then Some (None, s)
       else do {
         name \<leftarrow> fst (scan_two p);
         if hd name = CHR ''.'' then skynet_handle_namehandle handle_id (tl name) s
         else do {
           s1 \<leftarrow> skynet_error X (Some c) (''Can't set global name '' @ name @ '' in C'') s;
           Some (None, s1) } } } }"

definition cmd_exit :: command where
  "cmd_exit X c param s = do { s1 \<leftarrow> handle_exit X c 0 s; Some (None, s1) }"

definition tohandle :: "externals \<Rightarrow> ctxid \<Rightarrow> string \<Rightarrow> node_state \<Rightarrow> (u32 \<times> node_state) option" where
  "tohandle X c param s =
     (if first_char param = CHR '':'' then Some (hex_handle (tl param), s)
      else if first_char param = CHR ''.'' then do { h \<leftarrow> skynet_handle_findname (tl param) s; Some (h, s) }
      else do {
        s1 \<leftarrow> skynet_error X (Some c) (''Can't convert '' @ param @ '' to handle'') s;
        Some (0, s1) })"

definition cmd_kill :: command where
  "cmd_kill X c param s = do {
     p \<leftarrow> param;
     (handle, s1) \<leftarrow> tohandle X c p s;
     if handle \<noteq> 0 then do { s2 \<leftarrow> handle_exit X c handle s1; Some (None, s2) }
     else Some (None, s1) }"

definition cmd_launch :: command where
  "cmd_launch X c param s = do {
     p \<leftarrow> param;
     let (md, args) = strsep {CHR '' '', CHR 0x09, CHR 0x0D, CHR 0x0A} (Some p);
     let (args1, _) = strsep {CHR 0x0D, CHR 0x0A} args;
     name \<leftarrow> md;
     (inst, s1) \<leftarrow> skynet_context_new X name args1 s;
     case inst of
       None \<Rightarrow> Some (None, s1)
     | Some i \<Rightarrow> do {
         handle \<leftarrow> skynet_context_handle i s1;
         set_result c (id_to_hex handle) s1 } }"

definition cmd_getenv :: command where
  "cmd_getenv X c param s = do { p \<leftarrow> param; Some (skynet_getenv p s, s) }"

definition cmd_setenv :: command where
  "cmd_setenv X c param s = do {
     p \<leftarrow> param;
     let key = takeWhile (\<lambda>ch. ch \<noteq> CHR '' '') p;
     if length key = length p then Some (None, s)
     else do {
       s1 \<leftarrow> skynet_setenv key (drop (length key + 1) p) s;
       Some (None, s1) } }"

definition cmd_starttime :: command where
  "cmd_starttime X c param s = set_result c (show_u (unat (skynet_starttime s))) s"

definition cmd_endless :: command where
  "cmd_endless X c param s = do {
     x \<leftarrow> ctx_heap s c;
     if ctx_endless x then do {
       s1 \<leftarrow> ctx_update c (\<lambda>x. x\<lparr>ctx_result := ''1'', ctx_endless := False\<rparr>) s;
       Some (Some ''1'', s1) }
     else Some (None, s) }"

definition cmd_abort :: command where
  "cmd_abort X c param s = do { s1 \<leftarrow> skynet_handle_retireall (rel X) s; Some (None, s1) }"

definition cmd_monitor :: command where
  "cmd_monitor X c param s =
     (if param = None \<or> param = Some [] then
        if g_monitor_exit s \<noteq> 0 then set_result c (CHR '':'' # show_x (g_monitor_exit s)) s
        else Some (None, s)
      else do {
        p \<leftarrow> param;
        (handle, s1) \<leftarrow> tohandle X c p s;
        Some (None, s1\<lparr>g_monitor_exit := handle\<rparr>) })"

definition cmd_mqlen :: command where
  "cmd_mqlen X c param s = do {
     x \<leftarrow> ctx_heap s c;
     len \<leftarrow> skynet_mq_length (ctx_queue x) s;
     set_result c (show_d (int len)) s }"

text \<open>The two commands on log files; no other thread changes the field between their test and their swap here.\<close>

definition cmd_logon :: command where
  "cmd_logon X c param s = do {
     p \<leftarrow> param;
     (handle, s1) \<leftarrow> tohandle X c p s;
     if handle = 0 then Some (None, s1)
     else do {
       (g, s2) \<leftarrow> skynet_handle_grab handle s1;
       case g of
         None \<Rightarrow> Some (None, s2)
       | Some d \<Rightarrow> do {
           x \<leftarrow> ctx_heap s2 d;
           s3 \<leftarrow> (if ctx_logfile x = None then do {
                    (f, s3) \<leftarrow> skynet_log_open X c handle s2;
                    case f of
                      Some _ \<Rightarrow> ctx_update d (\<lambda>y. if ctx_logfile y = None then y\<lparr>ctx_logfile := f\<rparr> else y) s3
                    | None \<Rightarrow> Some s3 }
                  else Some s2);
           r \<leftarrow> skynet_context_release (rel X) d s3;
           Some (None, snd r) } } }"

definition cmd_logoff :: command where
  "cmd_logoff X c param s = do {
     p \<leftarrow> param;
     (handle, s1) \<leftarrow> tohandle X c p s;
     if handle = 0 then Some (None, s1)
     else do {
       (g, s2) \<leftarrow> skynet_handle_grab handle s1;
       case g of
         None \<Rightarrow> Some (None, s2)
       | Some d \<Rightarrow> do {
           x \<leftarrow> ctx_heap s2 d;
           s3 \<leftarrow> (case ctx_logfile x of
               Some f \<Rightarrow> do {
                 s3 \<leftarrow> ctx_update d (\<lambda>y. y\<lparr>ctx_logfile := None\<rparr>) s2;
                 skynet_log_close X c f handle s3 }
             | None \<Rightarrow> Some s2);
           r \<leftarrow> skynet_context_release (rel X) d s3;
           Some (None, snd r) } } }"

definition cmd_signal :: command where
  "cmd_signal X c param s = do {
     p \<leftarrow> param;
     (handle, s1) \<leftarrow> tohandle X c p s;
     if handle = 0 then Some (None, s1)
     else do {
       (g, s2) \<leftarrow> skynet_handle_grab handle s1;
       case g of
         None \<Rightarrow> Some (None, s2)
       | Some d \<Rightarrow> do {
           let rest = dropWhile (\<lambda>ch. ch \<noteq> CHR '' '') p;
           let sig = (if rest = [] then 0 else long_int (strtol rest 0));
           x \<leftarrow> ctx_heap s2 d;
           s3 \<leftarrow> skynet_module_instance_signal X (ctx_mod x) (ctx_instance x) sig s2;
           r \<leftarrow> skynet_context_release (rel X) d s3;
           Some (None, snd r) } } }"

definition cmd_funcs :: "(string \<times> command) list" where
  "cmd_funcs =
     [(''TIMEOUT'', cmd_timeout), (''REG'', cmd_reg), (''QUERY'', cmd_query), (''NAME'', cmd_name),
      (''EXIT'', cmd_exit), (''KILL'', cmd_kill), (''LAUNCH'', cmd_launch), (''GETENV'', cmd_getenv),
      (''SETENV'', cmd_setenv), (''STARTTIME'', cmd_starttime), (''ENDLESS'', cmd_endless),
      (''ABORT'', cmd_abort), (''MONITOR'', cmd_monitor), (''MQLEN'', cmd_mqlen), (''LOGON'', cmd_logon),
      (''LOGOFF'', cmd_logoff), (''SIGNAL'', cmd_signal)]"

definition skynet_command ::
  "externals \<Rightarrow> ctxid \<Rightarrow> string \<Rightarrow> string option \<Rightarrow> node_state \<Rightarrow> (string option \<times> node_state) option" where
  "skynet_command X c cmd param s =
     (case find (\<lambda>m. strcmp cmd (fst m) = 0) cmd_funcs of
        Some m \<Rightarrow> snd m X c param s
      | None \<Rightarrow> Some (None, s))"

end
