(* ===== verification/Server_Spec.thy ===== *)
theory Server_Spec
  imports Server Mq_Sched
begin

text \<open>
  What the server promises: a node invariant over the queues, the handle storage and the
  contexts; the effect of pushing a message to a handle; the log; sending, locally and to
  another node; the dispatch of a queue; and the round trips of the textual handles.
\<close>

section \<open>The node invariant\<close>

text \<open>
  \<open>H\<close> is the set of queues some thread holds. Every registered context is allocated, has a
  reference and a queue that is not marked for release.
\<close>

definition reg_ok :: "node_state \<Rightarrow> ctxid \<Rightarrow> bool" where
  "reg_ok s c \<longleftrightarrow> (\<exists>x. ctx_heap s c = Some x \<and> 1 \<le> ctx_ref x \<and> mq_live s (ctx_queue x))"

definition node_ok :: "mqid set \<Rightarrow> node_state \<Rightarrow> bool" where
  "node_ok H s \<longleftrightarrow> registry_inv s \<and> (\<exists>xs. sched_rep s H xs) \<and>
     (\<forall>c. Some c \<in> set (h_slot s) \<longrightarrow> reg_ok s c)"

lemma sched_rep_frame:
  "mq_heap s' = mq_heap s \<Longrightarrow> mq_fresh s' = mq_fresh s \<Longrightarrow> gq_head s' = gq_head s \<Longrightarrow> gq_tail s' = gq_tail s \<Longrightarrow>
   sched_rep s' H xs = sched_rep s H xs"
  by (simp add: sched_rep_def gq_rep_def)

lemma mq_only_fields:
  assumes "mq_only s s'"
  shows "ctx_heap s' = ctx_heap s" "h_slot s' = h_slot s" "n_env s' = n_env s" "n_HARBOR s' = n_HARBOR s"
    "n_files s' = n_files s" "n_TI s' = n_TI s" "n_logger s' = n_logger s" "n_modules s' = n_modules s"
    "t_handle s' = t_handle s" "n_REMOTE s' = n_REMOTE s" "g_monitor_exit s' = g_monitor_exit s"
    "mq_fresh s' = mq_fresh s" "h_name s' = h_name s" "h_name_count s' = h_name_count s"
    "h_harbor s' = h_harbor s" "node_total s' = node_total s" "ctx_fresh s' = ctx_fresh s"
  using assms by (cases s; cases s'; simp add: mq_only_def)+

lemma mq_only_ctx: "mq_only (s\<lparr>ctx_heap := a\<rparr>) s2 \<Longrightarrow> mq_only s (s2\<lparr>ctx_heap := ctx_heap s\<rparr>)"
  for s :: node_state
  by (cases s; cases s2) (simp add: mq_only_def)

lemma registry_inv_cong:
  assumes "h_slot s' = h_slot s" "h_harbor s' = h_harbor s" "h_name s' = h_name s"
    "h_name_count s' = h_name_count s" "\<And>c. skynet_context_handle c s' = skynet_context_handle c s"
  shows "registry_inv s' = registry_inv s" "handle_lookup s' = handle_lookup s"
proof -
  have h: "(\<exists>x. ctx_heap s' c = Some x \<and> P (ctx_handle x)) = (\<exists>x. ctx_heap s c = Some x \<and> P (ctx_handle x))" for P c
    using assms(5)[of c] by (cases "ctx_heap s' c"; cases "ctx_heap s c") (auto simp: skynet_context_handle_def)
  show "registry_inv s' = registry_inv s"
    using assms by (simp add: registry_inv_def handle_inv_def names_inv_def names_abs_def h[where P = "\<lambda>h. slot_hash h (length (h_slot s)) = i" for i])
  show "handle_lookup s' = handle_lookup s"
    using assms by (intro ext) (simp add: handle_lookup_def)
qed

lemma node_ok_lookup:
  assumes "node_ok H s" "handle_lookup s h = Some c"
  shows "reg_ok s c"
  using assms handle_lookup_iff[of s h c] by (auto simp: node_ok_def registry_inv_def)

section \<open>Pushing a message to a handle\<close>

lemma grab_some:
  assumes "handle_lookup s h = Some c" "ctx_heap s c = Some x"
  shows "skynet_handle_grab h s =
    Some (Some c, s\<lparr>ctx_heap := (ctx_heap s)(c \<mapsto> x\<lparr>ctx_ref := ctx_ref x + 1\<rparr>)\<rparr>)"
  using assms by (simp add: skynet_handle_grab_def skynet_context_grab_def ctx_update_def)

lemma grab_none: "handle_lookup s h = None \<Longrightarrow> skynet_handle_grab h s = Some (None, s)"
  by (simp add: skynet_handle_grab_def)

lemma context_push_none: "handle_lookup s h = None \<Longrightarrow> skynet_context_push X h m s = Some (-1, s)"
  by (simp add: skynet_context_push_def grab_none)

text \<open>An operation on the queues that keeps the representation keeps the node invariant.\<close>

lemma node_ok_mq:
  assumes "node_ok H s" "sched_rep s' H' xs" "mq_only s s'" "mq_live s' = mq_live s"
  shows "node_ok H' s'"
proof -
  have "registry_inv s' = registry_inv s"
    using mq_only_fields[OF assms(3)] by (intro registry_inv_cong) (simp_all add: skynet_context_handle_def)
  with assms mq_only_fields[OF assms(3)] show ?thesis by (auto simp: node_ok_def reg_ok_def)
qed

text \<open>The reference the push holds is given back, so the contexts are as before.\<close>

lemma context_push_ok:
  assumes ok: "node_ok H s" and l: "handle_lookup s h = Some c" and x: "ctx_heap s c = Some x"
  shows "\<exists>s'. skynet_context_push X h m s = Some (0, s') \<and> node_ok H s' \<and> mq_only s s' \<and>
    mq_msgs s' = (mq_msgs s)(ctx_queue x \<mapsto> the (mq_msgs s (ctx_queue x)) @ [m]) \<and> mq_live s' = mq_live s \<and>
    others_kept (ctx_queue x) s s' \<and> (\<forall>xs. sched_rep s H xs \<longrightarrow> sched_rep s' H (listed H (ctx_queue x) xs))"
proof -
  let ?x = "x\<lparr>ctx_ref := ctx_ref x + 1\<rparr>"
  let ?s1 = "s\<lparr>ctx_heap := (ctx_heap s)(c \<mapsto> ?x)\<rparr>"
  have r: "1 \<le> ctx_ref x" "mq_live s (ctx_queue x)" using node_ok_lookup[OF ok l] x by (auto simp: reg_ok_def)
  then obtain q where q: "mq_heap s (ctx_queue x) = Some q" "\<not> mq_release q" by (auto simp: mq_live_def)
  obtain xs where "sched_rep s H xs" using ok by (auto simp: node_ok_def)
  have f1: "sched_rep ?s1 H ys = sched_rep s H ys" for ys by (simp add: sched_rep_frame[of ?s1 s])
  note push = mq_push_msgs[where s = ?s1 and H = H and p = "ctx_queue x" and q = q and m = m]
  from push[of xs] q f1 \<open>sched_rep s H xs\<close> obtain s2 where
    s2: "skynet_mq_push (ctx_queue x) m ?s1 = Some s2" "sched_rep s2 H (listed H (ctx_queue x) xs)" "mq_only ?s1 s2"
      "mq_msgs s2 = (mq_msgs ?s1)(ctx_queue x \<mapsto> ring_abs q @ [m])" "mq_live s2 = mq_live ?s1"
      "others_kept (ctx_queue x) ?s1 s2"
    by auto
  have list: "sched_rep s2 H (listed H (ctx_queue x) ys)" if "sched_rep s H ys" for ys
    using push[of ys] q f1 that s2(1) by auto
  let ?s' = "s2\<lparr>ctx_heap := ctx_heap s\<rparr>"
  have heap: "(ctx_heap s2)(c \<mapsto> x) = ctx_heap s"
    using mq_only_fields(1)[OF s2(3)] x by auto
  have "skynet_context_release (rel X) c s2 = Some (Some c, ?s')"
    using mq_only_fields(1)[OF s2(3)] r(1) heap by (simp add: skynet_context_release_def Let_def)
  then have run: "skynet_context_push X h m s = Some (0, ?s')"
    using grab_some[OF l x] s2(1) by (simp add: skynet_context_push_def)
  have only: "mq_only s ?s'" by (rule mq_only_ctx[OF s2(3)])
  have "\<And>r. mq_msgs ?s1 r = mq_msgs s r" "\<And>r. mq_live ?s1 r = mq_live s r" by (simp_all add: mq_msgs_def mq_live_def)
  then have m1: "mq_msgs ?s1 = mq_msgs s" "mq_live ?s1 = mq_live s" by auto
  have "\<And>r. mq_msgs ?s' r = mq_msgs s2 r" "\<And>r. mq_live ?s' r = mq_live s2 r" by (simp_all add: mq_msgs_def mq_live_def)
  then have m2: "mq_msgs ?s' = mq_msgs s2" "mq_live ?s' = mq_live s2" by auto
  have f2: "sched_rep ?s' H ys = sched_rep s2 H ys" for ys by (simp add: sched_rep_frame[of ?s' s2])
  have "node_ok H ?s'" using node_ok_mq[OF ok _ only] s2(2,5) f2 m1 m2 by auto
  moreover have "others_kept (ctx_queue x) s ?s'" using s2(6) by (simp add: others_kept_def)
  ultimately show ?thesis using run only m1 m2 s2(4,5) q f2 list by (auto simp: mq_msgs_def)
qed

section \<open>The log\<close>

lemma error_grow_total:
  assumes "0 < n"
  shows "error_grow msg n = Some (length msg, msg)"
  using assms
proof (induction "length msg - n" arbitrary: n rule: less_induct)
  case less
  show ?case
  proof (cases "length msg < n * 2")
    case True
    then show ?thesis by (subst error_grow.simps) (simp add: vsnprintf_def Let_def)
  next
    case False
    then have "error_grow msg (n * 2) = Some (length msg, msg)" using less by (intro less(1)) auto
    with False show ?thesis by (subst error_grow.simps) (simp add: vsnprintf_def Let_def)
  qed
qed

lemma error_text_whole: "error_text msg = Some (length msg, msg)"
  by (simp add: error_text_def vsnprintf_def error_grow_total LOG_MESSAGE_SIZE_def Let_def)

text \<open>What the log may change: the queue of one service, and the logger it remembers.\<close>

definition log_only :: "node_state \<Rightarrow> node_state \<Rightarrow> bool" where
  "log_only s s' \<longleftrightarrow> (\<exists>l. mq_only (s\<lparr>n_logger := l\<rparr>) s')"

lemma skynet_error_ok:
  assumes ok: "node_ok H s" and ctx: "\<And>c. context = Some c \<Longrightarrow> ctx_heap s c \<noteq> None"
  shows "\<exists>s'. skynet_error X context msg s = Some s' \<and> node_ok H s' \<and> log_only s s' \<and> mq_live s' = mq_live s \<and>
    (\<forall>p. mq_msgs s' p = mq_msgs s p \<or>
      (\<exists>c x l. Some c \<in> set (h_slot s) \<and> ctx_heap s c = Some x \<and> ctx_queue x = p \<and>
         mq_msgs s' p = Some (the (mq_msgs s p) @ [l]) \<and>
         handle_lookup s (n_logger s') = Some c))"
proof -
  have inv: "names_inv s" "handle_inv s" using ok by (auto simp: node_ok_def registry_inv_def)
  obtain lg where lg: "(if n_logger s = 0 then skynet_handle_findname ''logger'' s else Some (n_logger s)) = Some lg"
    using findname_map_of[OF inv(1)] by (cases "n_logger s = 0") auto
  let ?s1 = "s\<lparr>n_logger := lg\<rparr>"
  have ok1: "node_ok H ?s1"
    using ok registry_inv_cong(1)[of ?s1 s] sched_rep_frame[of ?s1 s]
    by (auto simp: node_ok_def skynet_context_handle_def reg_ok_def mq_live_def)
  have l1: "handle_lookup ?s1 = handle_lookup s" by (rule registry_inv_cong(2)) (simp_all add: skynet_context_handle_def)
  have m1: "mq_msgs ?s1 = mq_msgs s" "mq_live ?s1 = mq_live s" by (auto simp: mq_msgs_def mq_live_def)
  obtain src where src: "(case context of None \<Rightarrow> Some 0 | Some c \<Rightarrow> skynet_context_handle c ?s1) = Some src"
    using ctx by (cases "context") (auto simp: skynet_context_handle_def)
  define m where "m = \<lparr>msg_source = src, msg_session = 0, msg_data = Some (Bytes (cstr msg)),
     msg_sz = word_of_nat (length msg) OR sz_of_type PTYPE_TEXT\<rparr>"
  have run: "skynet_error X context msg s =
      (if lg = 0 then Some ?s1 else Option.bind (skynet_context_push X lg m ?s1) (\<lambda>r. Some (snd r)))"
    using lg src by (simp add: skynet_error_def error_text_whole m_def Let_def)
  show ?thesis
  proof (cases "lg = 0 \<or> handle_lookup ?s1 lg = None")
    case True
    then have "skynet_error X context msg s = Some ?s1" by (auto simp: run context_push_none)
    with ok1 m1 show ?thesis by (auto simp: log_only_def mq_only_def intro: exI[of _ lg])
  next
    case False
    then obtain c where c: "handle_lookup ?s1 lg = Some c" by auto
    then obtain x where x: "ctx_heap ?s1 c = Some x" using node_ok_lookup[OF ok1] by (auto simp: reg_ok_def)
    obtain s' where s': "skynet_context_push X lg m ?s1 = Some (0, s')" "node_ok H s'" "mq_only ?s1 s'"
        "mq_msgs s' = (mq_msgs ?s1)(ctx_queue x \<mapsto> the (mq_msgs ?s1 (ctx_queue x)) @ [m])" "mq_live s' = mq_live ?s1"
      using context_push_ok[OF ok1 c x] by blast
    have "skynet_error X context msg s = Some s'" using run False s'(1) by simp
    moreover have "Some c \<in> set (h_slot s)" using handle_lookup_iff[OF inv(2)] c l1 by auto
    moreover have "n_logger s' = lg" using mq_only_fields(7)[OF s'(3)] by simp
    moreover have "ctx_heap s c = Some x" using x by simp
    ultimately show ?thesis
      using s' m1 c l1 by (auto simp: log_only_def)
  qed
qed

section \<open>The type in the size\<close>

lemma sz_type_roundtrip:
  assumes "sz AND MESSAGE_TYPE_MASK = sz" "t < 256"
  shows "type_of_sz (sz OR sz_of_type t) = t" "(sz OR sz_of_type t) AND MESSAGE_TYPE_MASK = sz"
proof -
  have lo: "\<not> bit sz n" if "56 \<le> n" for n
    using arg_cong[OF assms(1), of "\<lambda>w. bit w n"] that by (simp add: MESSAGE_TYPE_MASK_def bit_simps)
  have "\<not> bit (word_of_nat t :: u64) n" if "8 \<le> n" for n
  proof -
    have "t < 2 ^ n" using assms(2) power_increasing[OF that, of "2::nat"] by simp
    then show ?thesis by (simp add: bit_simps bit_nat_def)
  qed
  then have small: "bit (word_of_nat t :: u64) n \<Longrightarrow> n < 8" for n by (meson not_le)
  have hi: "drop_bit 56 (push_bit 56 (word_of_nat t :: u64)) = word_of_nat t"
    by (intro bit_word_eqI) (use small in \<open>auto simp: bit_drop_bit_eq bit_push_bit_iff\<close>)
  have "drop_bit 56 sz = 0" by (rule bit_word_eqI) (simp add: bit_simps lo)
  with hi have "drop_bit 56 (sz OR push_bit 56 (word_of_nat t)) = (word_of_nat t :: u64)" by simp
  moreover have "unat (word_of_nat t :: u64) = t" using assms(2) by (simp add: unat_of_nat)
  ultimately show "type_of_sz (sz OR sz_of_type t) = t"
    by (simp add: type_of_sz_def sz_of_type_def MESSAGE_TYPE_SHIFT_def)
  have "bit sz n \<Longrightarrow> n < 56" for n using lo by (meson not_le)
  then show "(sz OR sz_of_type t) AND MESSAGE_TYPE_MASK = sz"
    by (intro bit_word_eqI)
      (use lo in \<open>auto simp: bit_simps sz_of_type_def MESSAGE_TYPE_SHIFT_def MESSAGE_TYPE_MASK_def not_less\<close>)
qed

section \<open>Sending\<close>

lemma filter_args_plain:
  assumes "type AND PTYPE_TAG_ALLOCSESSION = 0" "unat sz \<le> length bs"
  shows "filter_args context type session (Some (Bytes bs)) sz s =
    Some (session, Some (Bytes (if type AND PTYPE_TAG_DONTCOPY = 0 then take (unat sz) bs @ [0] else bs)),
          sz OR sz_of_type (unat (type AND 0xff)), s)"
  using assms by (simp add: filter_args_def copy_data_def Let_def)

lemma byte_type: "unat (type AND 0xff :: i32) < 256"
  using unat_and_mask[of type 8] by (simp add: mask_eq_exp_minus_1)

lemma isremote_iff:
  assumes "n_HARBOR s \<noteq> - 1" and low: "take_bit 24 (n_HARBOR s) = 0"
  shows "skynet_harbor_message_isremote h s =
    Some (drop_bit 24 h \<noteq> drop_bit 24 (n_HARBOR s) \<and> drop_bit 24 h \<noteq> 0)"
proof -
  have top: "h AND NOT HANDLE_MASK = push_bit 24 (drop_bit 24 h)" for h :: u32
    by (rule bit_word_eqI) (auto simp: HANDLE_MASK_mask bit_simps)
  have "n_HARBOR s = push_bit 24 (drop_bit 24 (n_HARBOR s))"
    using low by (metis bits_ident add.right_neutral)
  moreover have inj: "push_bit 24 (drop_bit 24 a) = push_bit 24 (drop_bit 24 b) \<longleftrightarrow> drop_bit 24 a = drop_bit 24 b" for a b :: u32
  proof
    assume eq: "push_bit 24 (drop_bit 24 a) = push_bit 24 (drop_bit 24 b)"
    show "drop_bit 24 a = drop_bit 24 b"
    proof (rule bit_word_eqI)
      fix n
      show "bit (drop_bit 24 a) n = bit (drop_bit 24 b) n"
        using arg_cong[OF eq, of "\<lambda>w. bit w (24 + n)"] bit_imp_le_length[of a "24 + n"] bit_imp_le_length[of b "24 + n"]
        by (auto simp: bit_simps)
    qed
  qed simp
  moreover have "push_bit 24 (drop_bit 24 h) = 0 \<longleftrightarrow> drop_bit 24 h = 0" using inj[of h 0] by simp
  ultimately show ?thesis
    using assms(1) by (simp add: skynet_harbor_message_isremote_def top Let_def) metis
qed

lemma send_local:
  assumes ok: "node_ok H s" and l: "handle_lookup s dest = Some c" "ctx_heap s c = Some x"
    and local: "skynet_harbor_message_isremote dest s = Some False" and dest: "dest \<noteq> 0" "source_or_self context source s = Some src"
    and args: "sz AND MESSAGE_TYPE_MASK = sz" "type AND PTYPE_TAG_ALLOCSESSION = 0" "unat sz \<le> length bs"
  shows "\<exists>s' m. skynet_send X context source dest type session (Some (Bytes bs)) sz s = Some (session, s') \<and>
    node_ok H s' \<and> mq_only s s' \<and> mq_live s' = mq_live s \<and>
    mq_msgs s' = (mq_msgs s)(ctx_queue x \<mapsto> the (mq_msgs s (ctx_queue x)) @ [m]) \<and>
    others_kept (ctx_queue x) s s' \<and> (\<forall>xs. sched_rep s H xs \<longrightarrow> sched_rep s' H (listed H (ctx_queue x) xs)) \<and>
    msg_source m = src \<and> msg_session m = session \<and>
    (\<exists>bs'. msg_data m = Some (Bytes bs') \<and> take (unat sz) bs' = take (unat sz) bs) \<and>
    type_of_sz (msg_sz m) = unat (type AND 0xff) \<and> msg_sz m AND MESSAGE_TYPE_MASK = sz"
proof -
  let ?bs = "if type AND PTYPE_TAG_DONTCOPY = 0 then take (unat sz) bs @ [0] else bs"
  let ?m = "\<lparr>msg_source = src, msg_session = session, msg_data = Some (Bytes ?bs),
     msg_sz = sz OR sz_of_type (unat (type AND 0xff))\<rparr>"
  obtain s' where s': "skynet_context_push X dest ?m s = Some (0, s')" "node_ok H s'" "mq_only s s'"
      "mq_msgs s' = (mq_msgs s)(ctx_queue x \<mapsto> the (mq_msgs s (ctx_queue x)) @ [?m])" "mq_live s' = mq_live s"
      "others_kept (ctx_queue x) s s'" "\<forall>xs. sched_rep s H xs \<longrightarrow> sched_rep s' H (listed H (ctx_queue x) xs)"
    using context_push_ok[OF ok l] by blast
  have "skynet_send X context source dest type session (Some (Bytes bs)) sz s = Some (session, s')"
    using args local dest s'(1) by (simp add: skynet_send_def filter_args_plain)
  moreover have "take (unat sz) ?bs = take (unat sz) bs" using args(3) by simp
  ultimately show ?thesis
    using s' sz_type_roundtrip[OF args(1) byte_type, of type]
    by (intro exI[of _ s'] exI[of _ ?m]) auto
qed

section \<open>Dispatch\<close>

text \<open>
  A service at work: its context is allocated and initialised, has a callback, no log file and
  a reference besides that of the worker, and its queue, which the worker holds, has the messages
  \<open>ms\<close>.
\<close>

definition serving ::
  "mqid set \<Rightarrow> mqid \<Rightarrow> ctxid \<Rightarrow> nat \<Rightarrow> node_state \<Rightarrow> skynet_message list \<Rightarrow> bool" where
  "serving H p c cb s ms \<longleftrightarrow>
     node_ok H s \<and> p \<in> H \<and> mq_live s p \<and> mq_msgs s p = Some ms \<and>
     (\<exists>x. ctx_heap s c = Some x \<and> ctx_init x \<and> ctx_cb x = Some cb \<and> ctx_logfile x = None \<and>
          ctx_queue x = p \<and> 2 \<le> ctx_ref x)"

text \<open>
  What the dispatch relies on of a callback: from a service at work it returns, leaves the
  service at work, with the messages that wait for it and perhaps more behind them, and adds the
  note of its message to file \<open>f\<close>. What else it does is free: it may send messages, also to
  itself, start or end other services, set timers, write other files. Through the notes the
  lemmas tell which messages were delivered, and in which order.
\<close>

type_synonym message_note = "nat \<Rightarrow> i32 \<Rightarrow> u32 \<Rightarrow> msg_payload option \<Rightarrow> u64 \<Rightarrow> string"

definition callback_ok :: "externals \<Rightarrow> nat \<Rightarrow> ctxid \<Rightarrow> mqid \<Rightarrow> nat \<Rightarrow> message_note \<Rightarrow> bool" where
  "callback_ok X cb c p f note \<longleftrightarrow>
     (\<forall>H s ms ud type session source data sz. serving H p c cb s ms \<longrightarrow>
        (\<exists>r s' extra. x_cb X cb c ud type session source data sz s = Some (r, s') \<and>
           serving H p c cb s' (ms @ extra) \<and> n_files s' f = n_files s f @ note type session source data sz))"

definition note_of :: "message_note \<Rightarrow> skynet_message \<Rightarrow> string" where
  "note_of note m = note (type_of_sz (msg_sz m)) (msg_session m) (msg_source m) (msg_data m)
     (msg_sz m AND MESSAGE_TYPE_MASK)"

lemma serving_mq:
  assumes "serving H p c cb s ms" "sched_rep s' H xs" "mq_only s s'" "mq_live s' = mq_live s" "mq_msgs s' p = Some ms'"
  shows "serving H p c cb s' ms'"
proof -
  have "node_ok H s" using assms(1) by (simp add: serving_def)
  from node_ok_mq[OF this assms(2-4)] show ?thesis
    using assms mq_only_fields(1)[OF assms(3)] by (simp add: serving_def)
qed

lemma serving_frame:
  assumes "serving H p c cb s ms"
  shows "serving H p c cb (s\<lparr>t_handle := h\<rparr>) ms" "serving H p c cb (s\<lparr>n_logger := l\<rparr>) ms"
    "serving H p c cb (s\<lparr>n_files := fs\<rparr>) ms"
proof -
  have "registry_inv (s\<lparr>t_handle := h\<rparr>) = registry_inv s" "registry_inv (s\<lparr>n_logger := l\<rparr>) = registry_inv s"
    "registry_inv (s\<lparr>n_files := fs\<rparr>) = registry_inv s"
    by (rule registry_inv_cong; simp add: skynet_context_handle_def)+
  with assms show "serving H p c cb (s\<lparr>t_handle := h\<rparr>) ms" "serving H p c cb (s\<lparr>n_logger := l\<rparr>) ms"
    "serving H p c cb (s\<lparr>n_files := fs\<rparr>) ms"
    using sched_rep_frame[of "s\<lparr>t_handle := h\<rparr>" s] sched_rep_frame[of "s\<lparr>n_logger := l\<rparr>" s]
      sched_rep_frame[of "s\<lparr>n_files := fs\<rparr>" s]
    by (simp_all add: serving_def node_ok_def reg_ok_def mq_live_def mq_msgs_def)
qed

lemma serving_pop:
  assumes "serving H p c cb s (m # ms)"
  shows "\<exists>s'. skynet_mq_pop p s = Some (Some m, s') \<and> serving H p c cb s' ms \<and> n_files s' = n_files s"
proof -
  obtain xs where rep: "sched_rep s H xs" and p: "p \<in> H" using assms by (auto simp: serving_def node_ok_def)
  obtain q where q: "mq_heap s p = Some q" "ring_inv q" "ring_abs q = m # ms"
    using assms rep by (auto simp: serving_def mq_msgs_def sched_rep_def queue_ok_def)
  from ring_pop_Cons[OF q(2,3)] obtain q' where
    q': "ring_pop q = Some (Some m, q')" "ring_abs q' = ms" "mq_release q' = mq_release q" by auto
  let ?s = "s\<lparr>mq_heap := (mq_heap s)(p \<mapsto> q')\<rparr>"
  have run: "skynet_mq_pop p s = Some (Some m, ?s)" using q q' by (simp add: skynet_mq_pop_def)
  have "mq_live ?s = mq_live s" using q q' by (auto simp: mq_live_def fun_eq_iff)
  moreover have "mq_msgs ?s p = Some ms" using q' by (simp add: mq_msgs_def)
  ultimately have "serving H p c cb ?s ms"
    by (intro serving_mq[OF assms sched_rep_pop_message[OF rep p run] mq_only_heap])
  with run show ?thesis by simp
qed

lemma serving_length: "serving H p c cb s ms \<Longrightarrow> skynet_mq_length p s = Some (length ms)"
  by (auto simp: serving_def mq_msgs_def skynet_mq_length_def length_ring_abs)

lemma serving_overload:
  assumes "serving H p c cb s ms"
  shows "\<exists>v s'. skynet_mq_overload p s = Some (v, s') \<and> serving H p c cb s' ms \<and> n_files s' = n_files s"
proof -
  obtain xs where rep: "sched_rep s H xs" using assms by (auto simp: serving_def node_ok_def)
  obtain q where q: "mq_heap s p = Some q" "ring_abs q = ms" using assms by (auto simp: serving_def mq_msgs_def)
  let ?q = "q\<lparr>mq_overload := 0\<rparr>" and ?s = "s\<lparr>mq_heap := (mq_heap s)(p \<mapsto> q\<lparr>mq_overload := 0\<rparr>)\<rparr>"
  have ab: "ring_abs ?q = ring_abs q" by (simp add: ring_abs_def ring_cell_def ring_length_def)
  moreover have "ring_inv ?q = ring_inv q" by (simp add: ring_inv_def ring_cell_def ring_length_def)
  ultimately have "sched_rep ?s H xs"
    using rep q by (intro sched_rep_upd[OF rep q(1)]) (auto simp: sched_rep_def queue_ok_def)
  moreover have "mq_live ?s = mq_live s" using q by (auto simp: mq_live_def fun_eq_iff)
  moreover have "mq_msgs ?s p = Some ms" using q ab by (simp add: mq_msgs_def)
  ultimately have "serving H p c cb ?s ms" by (rule serving_mq[OF assms _ mq_only_heap])
  with assms q show ?thesis by (cases "mq_overload q = 0") (auto simp: skynet_mq_overload_def)
qed

lemma serving_error:
  assumes "serving H p c cb s ms"
  shows "\<exists>s' extra. skynet_error X (Some c) msg s = Some s' \<and> serving H p c cb s' (ms @ extra) \<and> n_files s' = n_files s"
proof -
  have ok: "node_ok H s" and c: "ctx_heap s c \<noteq> None" using assms by (auto simp: serving_def)
  obtain s' where s': "skynet_error X (Some c) msg s = Some s'" "node_ok H s'" "log_only s s'" "mq_live s' = mq_live s"
      "mq_msgs s' p = mq_msgs s p \<or> (\<exists>l. mq_msgs s' p = Some (the (mq_msgs s p) @ [l]))"
    using skynet_error_ok[OF ok, of "Some c" X msg] c by blast
  then obtain extra where "mq_msgs s' p = Some (ms @ extra)"
    using assms by (auto simp: serving_def)
  moreover have "ctx_heap s' = ctx_heap s" using s'(3) by (auto simp: log_only_def dest!: mq_only_fields(1))
  moreover have "n_files s' = n_files s" using s'(3) by (auto simp: log_only_def dest!: mq_only_fields(5))
  ultimately show ?thesis using assms s' by (auto simp: serving_def intro!: exI[of _ s'] exI[of _ extra])
qed

text \<open>One message handed over.\<close>

lemma dispatch_message_notes:
  assumes X: "callback_ok X cb c p f note" and svc: "serving H p c cb s ms"
  shows "\<exists>s' extra. dispatch_message X c m s = Some s' \<and> serving H p c cb s' (ms @ extra) \<and>
    n_files s' f = n_files s f @ note_of note m"
proof -
  obtain x where x: "ctx_heap s c = Some x" "ctx_init x" "ctx_cb x = Some cb" "ctx_logfile x = None"
    using svc by (auto simp: serving_def)
  let ?s = "s\<lparr>t_handle := ctx_handle x\<rparr>"
  obtain r s' extra where "x_cb X cb c (ctx_cb_ud x) (type_of_sz (msg_sz m)) (msg_session m) (msg_source m) (msg_data m)
      (msg_sz m AND MESSAGE_TYPE_MASK) ?s = Some (r, s')" "serving H p c cb s' (ms @ extra)"
      "n_files s' f = n_files ?s f @ note_of note m"
    using X serving_frame(1)[OF svc] unfolding callback_ok_def note_of_def by blast
  with x show ?thesis by (auto simp: dispatch_message_def Let_def)
qed

lemma dispatch_one_notes:
  assumes X: "callback_ok X cb c p f note" and svc: "serving H p c cb s ms"
  shows "\<exists>s' extra. dispatch_one X c p handle m sm s =
      Some (skynet_monitor_trigger 0 0 (skynet_monitor_trigger (msg_source m) handle sm), s') \<and>
    serving H p c cb s' (ms @ extra) \<and> n_files s' f = n_files s f @ note_of note m"
proof -
  obtain v s1 where s1: "skynet_mq_overload p s = Some (v, s1)" "serving H p c cb s1 ms" "n_files s1 = n_files s"
    using serving_overload[OF svc] by blast
  obtain s2 e1 where s2: "(if v \<noteq> 0 then skynet_error X (Some c) (''May overload, message queue length = '' @ show_d v) s1
      else Some s1) = Some s2" "serving H p c cb s2 (ms @ e1)" "n_files s2 = n_files s1"
  proof (cases "v = 0")
    case True
    with s1(2) show ?thesis by (intro that[of s1 "[]"]) simp_all
  next
    case False
    with serving_error[OF s1(2), of X "''May overload, message queue length = '' @ show_d v"] that
    show ?thesis by (simp only: not_False_eq_True if_True) blast
  qed
  obtain s3 e2 where s3: "dispatch_message X c m s2 = Some s3" "serving H p c cb s3 ((ms @ e1) @ e2)"
      "n_files s3 f = n_files s2 f @ note_of note m"
    using dispatch_message_notes[OF X s2(2)] by blast
  obtain x where x: "ctx_heap s2 c = Some x" "ctx_cb x = Some cb" using s2(2) by (auto simp: serving_def)
  have "dispatch_one X c p handle m sm s =
      Some (skynet_monitor_trigger 0 0 (skynet_monitor_trigger (msg_source m) handle sm), s3)"
    unfolding dispatch_one_def using s1(1) s2(1) s3(1) x by (simp add: Let_def del: not_None_eq split del: if_split)
  with s1(3) s2(3) s3 show ?thesis by (auto intro!: exI[of _ s3] exI[of _ "e1 @ e2"])
qed

text \<open>One message taken and delivered.\<close>

lemma deliver_one:
  assumes X: "callback_ok X cb c p f note" and svc: "serving H p c cb s (m # ms)"
  shows "\<exists>s1 s' extra. skynet_mq_pop p s = Some (Some m, s1) \<and> skynet_mq_length p s1 = Some (length ms) \<and>
    dispatch_one X c p handle m sm s1 =
      Some (skynet_monitor_trigger 0 0 (skynet_monitor_trigger (msg_source m) handle sm), s') \<and>
    serving H p c cb s' (ms @ extra) \<and> n_files s' f = n_files s f @ note_of note m"
proof -
  obtain s1 where s1: "skynet_mq_pop p s = Some (Some m, s1)" "serving H p c cb s1 ms" "n_files s1 = n_files s"
    using serving_pop[OF svc] by blast
  with serving_length[OF s1(2)] dispatch_one_notes[OF X s1(2), of handle m sm] show ?thesis by auto
qed

lemma dispatch_rest_notes:
  assumes X: "callback_ok X cb c p f note"
  shows "serving H p c cb s ms \<Longrightarrow> n \<le> length ms \<Longrightarrow> mon_destination sm = 0 \<Longrightarrow>
    \<exists>s' sm' extra. dispatch_rest X c p handle n sm s = Some (False, sm', s') \<and>
      serving H p c cb s' (drop n ms @ extra) \<and>
      n_files s' f = n_files s f @ concat (map (note_of note) (take n ms)) \<and> mon_destination sm' = 0"
proof (induction n arbitrary: s ms sm)
  case 0
  then show ?case by (auto intro: exI[of _ "[]"])
next
  case (Suc n)
  then obtain m ms' where ms: "ms = m # ms'" by (cases ms) auto
  let ?sm = "skynet_monitor_trigger 0 0 (skynet_monitor_trigger (msg_source m) handle sm)"
  from deliver_one[OF X, of H s m ms' handle sm] Suc.prems(1) ms obtain s1 s2 e1 where
    one: "skynet_mq_pop p s = Some (Some m, s1)" "dispatch_one X c p handle m sm s1 = Some (?sm, s2)"
      "serving H p c cb s2 (ms' @ e1)" "n_files s2 f = n_files s f @ note_of note m" by blast
  have n: "n \<le> length ms'" using Suc.prems(2) ms by simp
  have "mon_destination ?sm = 0" by (simp add: skynet_monitor_trigger_def)
  from Suc.IH[OF one(3) _ this] n obtain s' sm' e2 where
    "dispatch_rest X c p handle n ?sm s2 = Some (False, sm', s')" "serving H p c cb s' (drop n ms' @ (e1 @ e2))"
      "n_files s' f = n_files s2 f @ concat (map (note_of note) (take n ms'))" "mon_destination sm' = 0" by auto
  with one ms show ?case by (intro exI[of _ s'] exI[of _ sm'] exI[of _ "e1 @ e2"]) simp
qed

text \<open>How many messages one call takes from a queue of \<open>L\<close>.\<close>

definition batch :: "int \<Rightarrow> nat \<Rightarrow> nat" where
  "batch weight L = (if 0 \<le> weight then max 1 (drop_bit (nat weight) (L - 1)) else 1)"

lemma dispatch_loop_notes:
  fixes weight :: int
  assumes X: "callback_ok X cb c p f note" and svc: "serving H p c cb s ms" and ne: "ms \<noteq> []"
  defines "k \<equiv> batch weight (length ms)"
  shows "\<exists>s' sm' extra. dispatch_loop X c p handle weight sm s = Some (False, sm', s') \<and>
    serving H p c cb s' (drop k ms @ extra) \<and>
    n_files s' f = n_files s f @ concat (map (note_of note) (take k ms)) \<and> mon_destination sm' = 0"
proof -
  obtain m ms' where ms: "ms = m # ms'" using ne by (cases ms) auto
  let ?sm = "skynet_monitor_trigger 0 0 (skynet_monitor_trigger (msg_source m) handle sm)"
  from deliver_one[OF X, of H s m ms' handle sm] svc ms obtain s1 s2 e1 where
    one: "skynet_mq_pop p s = Some (Some m, s1)" "skynet_mq_length p s1 = Some (length ms')"
      "dispatch_one X c p handle m sm s1 = Some (?sm, s2)"
      "serving H p c cb s2 (ms' @ e1)" "n_files s2 f = n_files s f @ note_of note m" by blast
  define n where "n = (if 0 \<le> weight then drop_bit (nat weight) (length ms') else 1)"
  have "drop_bit (nat weight) (length ms') \<le> length ms'" by (simp add: drop_bit_eq_div)
  then have le: "n - 1 \<le> length ms'" by (auto simp: n_def)
  have "mon_destination ?sm = 0" by (simp add: skynet_monitor_trigger_def)
  from dispatch_rest_notes[OF X one(4) _ this, of "n - 1" handle] le obtain s' sm' e2 where
    r: "dispatch_rest X c p handle (n - 1) ?sm s2 = Some (False, sm', s')" "serving H p c cb s' (drop (n - 1) ms' @ (e1 @ e2))"
      "n_files s' f = n_files s2 f @ concat (map (note_of note) (take (n - 1) ms'))" "mon_destination sm' = 0"
    by auto
  have "k = Suc (n - 1)" using ms by (auto simp: k_def batch_def n_def)
  moreover have "dispatch_loop X c p handle weight sm s = Some (False, sm', s')"
    using one(1,2,3) r(1) by (cases "0 \<le> weight") (simp_all add: dispatch_loop_def n_def)
  ultimately show ?thesis
    using r ms one(5) by (intro exI[of _ s'] exI[of _ sm'] exI[of _ "e1 @ e2"]) simp
qed

text \<open>What follows the loop: the next queue of the global list, with this one put back behind, or this one again.\<close>

definition next_queue :: "mqid \<Rightarrow> mqid list \<Rightarrow> mqid" where
  "next_queue p xs = (case xs of [] \<Rightarrow> p | y # _ \<Rightarrow> y)"

definition queues_after :: "mqid \<Rightarrow> mqid list \<Rightarrow> mqid list" where
  "queues_after p xs = (case xs of [] \<Rightarrow> [] | _ # ys \<Rightarrow> ys @ [p])"

definition held_after :: "mqid \<Rightarrow> mqid list \<Rightarrow> mqid set \<Rightarrow> mqid set" where
  "held_after p xs H = (case xs of [] \<Rightarrow> H | y # _ \<Rightarrow> insert y H - {p})"

lemma globalmq_pop_msgs:
  assumes "gq_rep s (p # xs)" "skynet_globalmq_pop s = Some (r, s')"
  shows "mq_msgs s' = mq_msgs s" "mq_live s' = mq_live s"
proof -
  obtain q where q: "mq_heap s p = Some q" "mq_heap s' = (mq_heap s)(p \<mapsto> q\<lparr>mq_next := None\<rparr>)"
    using globalmq_pop_rep[OF assms(1)] assms(2) by auto
  have "mq_msgs s' r = mq_msgs s r \<and> mq_live s' r = mq_live s r" for r
    using q by (cases "r = p") (simp_all add: mq_msgs_def mq_live_def)
  then show "mq_msgs s' = mq_msgs s" "mq_live s' = mq_live s" by auto
qed

lemma yield_queue:
  assumes rep: "sched_rep s H xs" and p: "p \<in> H"
  shows "\<exists>nq s1 s2. skynet_globalmq_pop s = Some (nq, s1) \<and>
    (if nq \<noteq> None then skynet_globalmq_push p s1 else Some s1) = Some s2 \<and>
    (if nq \<noteq> None then nq else Some p) = Some (next_queue p xs) \<and>
    sched_rep s2 (held_after p xs H) (queues_after p xs) \<and> mq_only s s2 \<and>
    mq_msgs s2 = mq_msgs s \<and> mq_live s2 = mq_live s"
proof (cases xs)
  case Nil
  then have "skynet_globalmq_pop s = Some (None, s)" using rep by (intro globalmq_pop_empty) (simp add: sched_rep_def)
  with Nil rep show ?thesis by (simp add: next_queue_def held_after_def queues_after_def mq_only_def)
next
  case (Cons y ys)
  have gq: "gq_rep s (y # ys)" using rep Cons by (simp add: sched_rep_def)
  then obtain s1 where pop: "skynet_globalmq_pop s = Some (Some y, s1)" using globalmq_pop_rep by blast
  have r1: "sched_rep s1 (insert y H) ys" using sched_rep_take[OF rep pop] Cons by auto
  then obtain s2 where s2: "skynet_globalmq_push p s1 = Some s2" "sched_rep s2 (insert y H - {p}) (ys @ [p])"
    using sched_rep_put_back[OF r1, of p] p by auto
  have "gq_rep s1 ys" "p \<notin> set ys" using r1 p by (auto simp: sched_rep_def)
  from globalmq_push_msgs[OF this s2(1)] globalmq_pop_msgs[OF gq pop]
  have "mq_msgs s2 = mq_msgs s" "mq_live s2 = mq_live s" by simp_all
  moreover have "mq_only s s2" using globalmq_pop_only[OF pop] globalmq_push_only[OF s2(1)] by (rule mq_only_trans)
  ultimately show ?thesis using pop s2 Cons by (simp add: next_queue_def held_after_def queues_after_def)
qed

text \<open>The service a queue belongs to, and that the dispatch finds.\<close>

definition served_by :: "node_state \<Rightarrow> mqid \<Rightarrow> message_queue \<Rightarrow> ctxid \<Rightarrow> bool" where
  "served_by s p q c \<longleftrightarrow> mq_heap s p = Some q \<and> handle_lookup s (mq_handle q) = Some c \<and>
     (\<exists>x. ctx_heap s c = Some x \<and> ctx_queue x = p)"

definition ready :: "node_state \<Rightarrow> ctxid \<Rightarrow> nat \<Rightarrow> bool" where
  "ready s c cb \<longleftrightarrow> (\<exists>x. ctx_heap s c = Some x \<and> ctx_init x \<and> ctx_cb x = Some cb \<and> ctx_logfile x = None)"

text \<open>The reference of the worker is given back; a registered service keeps its own.\<close>

lemma worker_release:
  assumes "node_ok H s" "ctx_heap s c = Some x" "2 \<le> ctx_ref x"
  shows "\<exists>s'. skynet_context_release (rel X) c s = Some (Some c, s') \<and> node_ok H s' \<and> mq_msgs s' = mq_msgs s \<and>
    n_files s' = n_files s \<and> (\<forall>H' xs. sched_rep s' H' xs = sched_rep s H' xs)"
proof -
  let ?s = "s\<lparr>ctx_heap := (ctx_heap s)(c \<mapsto> x\<lparr>ctx_ref := ctx_ref x - 1\<rparr>)\<rparr>"
  have run: "skynet_context_release (rel X) c s = Some (Some c, ?s)"
    using assms by (simp add: skynet_context_release_def Let_def)
  have inv: "registry_inv ?s = registry_inv s"
    using assms by (intro registry_inv_cong) (auto simp: skynet_context_handle_def)
  have rep: "sched_rep ?s H' xs = sched_rep s H' xs" for H' xs by (rule sched_rep_frame) simp_all
  have "mq_live ?s r = mq_live s r" "mq_msgs ?s r = mq_msgs s r" for r by (simp_all add: mq_live_def mq_msgs_def)
  then have mq: "mq_live ?s = mq_live s" "mq_msgs ?s = mq_msgs s" by auto
  have "node_ok H ?s" using assms inv rep mq by (auto simp: node_ok_def reg_ok_def)
  with run rep mq show ?thesis by simp
qed

lemma serving_grab:
  assumes ok: "node_ok H s" and p: "p \<in> H" and svd: "served_by s p q c" and cb: "ready s c cb"
  shows "\<exists>s1. skynet_handle_grab (mq_handle q) s = Some (Some c, s1) \<and> serving H p c cb s1 (ring_abs q) \<and>
    n_files s1 = n_files s"
proof -
  obtain x where x: "mq_heap s p = Some q" "handle_lookup s (mq_handle q) = Some c" "ctx_heap s c = Some x" "ctx_queue x = p"
    using svd by (auto simp: served_by_def)
  have ref: "1 \<le> ctx_ref x" "mq_live s p" using node_ok_lookup[OF ok x(2)] x(3,4) by (auto simp: reg_ok_def)
  let ?s = "s\<lparr>ctx_heap := (ctx_heap s)(c \<mapsto> x\<lparr>ctx_ref := ctx_ref x + 1\<rparr>)\<rparr>"
  have "registry_inv ?s = registry_inv s"
    using x by (intro registry_inv_cong) (auto simp: skynet_context_handle_def)
  moreover have "sched_rep ?s H xs = sched_rep s H xs" for xs by (rule sched_rep_frame) simp_all
  moreover have "mq_live ?s = mq_live s" "mq_msgs ?s p = Some (ring_abs q)" using x(1) by (auto simp: mq_live_def mq_msgs_def)
  ultimately have "serving H p c cb ?s (ring_abs q)"
    using ok p ref x cb by (auto simp: serving_def node_ok_def reg_ok_def ready_def)
  with grab_some[OF x(2,3)] show ?thesis by simp
qed

text \<open>Among the queues in circulation, the worker takes \<open>nq\<close>, and \<open>p\<close> is \<open>nq\<close> or at the end of the global list.\<close>

definition moved_on :: "mqid \<Rightarrow> mqid \<Rightarrow> mqid set \<Rightarrow> node_state \<Rightarrow> bool" where
  "moved_on p nq H s \<longleftrightarrow>
     (\<exists>ys. sched_rep s (insert nq (H - {p})) ys \<and> (nq = p \<or> (\<exists>zs. ys = zs @ [p])))"

lemma dispatch_queue_notes:
  fixes weight :: int
  assumes ok: "node_ok H s" and p: "p \<in> H" and svd: "served_by s p q c" and ne: "ring_abs q \<noteq> []"
    and svc: "ready s c cb" and X: "callback_ok X cb c p f note"
  defines "k \<equiv> batch weight (length (ring_abs q))"
  shows "\<exists>nq sm' s' extra. dispatch_queue X sm p weight s = Some (Some nq, sm', s') \<and>
    mon_destination sm' = 0 \<and> n_files s' f = n_files s f @ concat (map (note_of note) (take k (ring_abs q))) \<and>
    mq_msgs s' p = Some (drop k (ring_abs q) @ extra) \<and> node_ok (insert nq (H - {p})) s' \<and> moved_on p nq H s'"
proof -
  obtain s1 where s1: "skynet_handle_grab (mq_handle q) s = Some (Some c, s1)" "serving H p c cb s1 (ring_abs q)"
      "n_files s1 = n_files s" using serving_grab[OF ok p svd svc] by blast
  obtain s2 sm' extra where s2: "dispatch_loop X c p (mq_handle q) weight sm s1 = Some (False, sm', s2)"
      "serving H p c cb s2 (drop k (ring_abs q) @ extra)"
      "n_files s2 f = n_files s1 f @ concat (map (note_of note) (take k (ring_abs q)))" "mon_destination sm' = 0"
    using dispatch_loop_notes[OF X s1(2) ne, of "mq_handle q" weight sm] unfolding k_def by blast
  obtain xs where "sched_rep s2 H xs" using s2(2) by (auto simp: serving_def node_ok_def)
  then obtain nq s3 s4 where s4: "skynet_globalmq_pop s2 = Some (nq, s3)"
      "(if nq \<noteq> None then skynet_globalmq_push p s3 else Some s3) = Some s4"
      "(if nq \<noteq> None then nq else Some p) = Some (next_queue p xs)"
      "sched_rep s4 (held_after p xs H) (queues_after p xs)" "mq_only s2 s4" "mq_msgs s4 = mq_msgs s2" "mq_live s4 = mq_live s2"
    using yield_queue[OF _ p] by blast
  have held: "held_after p xs H = insert (next_queue p xs) (H - {p})"
    "next_queue p xs = p \<or> (\<exists>zs. queues_after p xs = zs @ [p])"
    using p \<open>sched_rep s2 H xs\<close>
    by (auto simp: held_after_def next_queue_def queues_after_def sched_rep_def split: list.splits)
  let ?H = "insert (next_queue p xs) (H - {p})"
  have "node_ok ?H s4" using node_ok_mq[OF _ s4(4,5,7)] s2(2) held(1) by (auto simp: serving_def)
  moreover obtain x where x: "ctx_heap s2 c = Some x" "ctx_queue x = p" "2 \<le> ctx_ref x"
    using s2(2) by (auto simp: serving_def)
  moreover have "ctx_heap s4 c = Some x" using mq_only_fields(1)[OF s4(5)] x by simp
  ultimately obtain s5 where s5: "skynet_context_release (rel X) c s4 = Some (Some c, s5)" "node_ok ?H s5"
      "mq_msgs s5 = mq_msgs s4" "n_files s5 = n_files s4" "\<And>H' ys. sched_rep s5 H' ys = sched_rep s4 H' ys"
    using worker_release by blast
  have "dispatch_queue X sm p weight s = Some (Some (next_queue p xs), sm', s5)"
    unfolding dispatch_queue_def using svd s1(1) s2(1) s4(1,2,3) s5(1) x
    by (simp add: skynet_mq_handle_def served_by_def del: not_None_eq)
  moreover have "n_files s5 f = n_files s f @ concat (map (note_of note) (take k (ring_abs q)))"
    using s5(4) mq_only_fields(5)[OF s4(5)] s2(3) s1(3) by simp
  moreover have "mq_msgs s5 p = Some (drop k (ring_abs q) @ extra)"
    using s5(3) s4(6) s2(2) by (simp add: serving_def)
  moreover have "moved_on p (next_queue p xs) H s5" using s4(4) s5(5) held by (auto simp: moved_on_def)
  ultimately show ?thesis using s2(4) s5(2) by blast
qed

section \<open>Timers that send messages\<close>

text \<open>The messages that the events of a list send to queue \<open>p\<close>.\<close>

definition timeouts_for :: "node_state \<Rightarrow> mqid \<Rightarrow> timer_event list \<Rightarrow> skynet_message list" where
  "timeouts_for s p es = map (\<lambda>e. timeout_message (ev_session e))
     (filter (\<lambda>e. \<exists>c x. handle_lookup s (ev_handle e) = Some c \<and> ctx_heap s c = Some x \<and> ctx_queue x = p) es)"

lemma mq_only_lookup: "mq_only s s' \<Longrightarrow> handle_lookup s' = handle_lookup (s :: node_state)"
  by (rule registry_inv_cong(2)) (simp_all add: mq_only_fields skynet_context_handle_def)

lemma timeouts_for_cong: "mq_only s s' \<Longrightarrow> timeouts_for s' p es = timeouts_for s p es"
  by (simp add: timeouts_for_def mq_only_lookup mq_only_fields)

lemma dispatch_list_ok:
  assumes "node_ok H s"
  shows "\<exists>s'. dispatch_list X ns s = Some s' \<and> node_ok H s' \<and> mq_only s s' \<and>
    (\<forall>p ms. mq_msgs s p = Some ms \<longrightarrow> mq_msgs s' p = Some (ms @ timeouts_for s p (map tn_event ns)))"
  using assms
proof (induction ns arbitrary: s)
  case Nil
  then show ?case by (simp add: timeouts_for_def mq_only_def)
next
  case (Cons n ns)
  let ?h = "ev_handle (tn_event n)" and ?m = "timeout_message (ev_session (tn_event n))"
  obtain r s1 where s1: "skynet_context_push X ?h ?m s = Some (r, s1)" "node_ok H s1" "mq_only s s1"
    and m1: "\<And>p ms. mq_msgs s p = Some ms \<Longrightarrow> mq_msgs s1 p = Some (ms @ timeouts_for s p [tn_event n])"
  proof (cases "handle_lookup s ?h")
    case None
    then show ?thesis
      using Cons.prems that[of "-1" s] by (simp add: context_push_none mq_only_def timeouts_for_def)
  next
    case (Some c)
    then obtain x where x: "ctx_heap s c = Some x" using node_ok_lookup[OF Cons.prems] by (auto simp: reg_ok_def)
    from context_push_ok[OF Cons.prems Some x, of X ?m] obtain s1 where
      s1: "skynet_context_push X ?h ?m s = Some (0, s1)" "node_ok H s1" "mq_only s s1"
      "mq_msgs s1 = (mq_msgs s)(ctx_queue x \<mapsto> the (mq_msgs s (ctx_queue x)) @ [?m])" by blast
    have "mq_msgs s1 p = Some (ms @ timeouts_for s p [tn_event n])" if "mq_msgs s p = Some ms" for p ms
      using s1(4) that Some x by (auto simp: timeouts_for_def)
    with s1 show ?thesis by (intro that) auto
  qed
  obtain s' where s': "dispatch_list X ns s1 = Some s'" "node_ok H s'" "mq_only s1 s'"
      "\<And>p ms. mq_msgs s1 p = Some ms \<Longrightarrow> mq_msgs s' p = Some (ms @ timeouts_for s1 p (map tn_event ns))"
    using Cons.IH[OF s1(2)] by blast
  have "timeouts_for s p (map tn_event (n # ns)) = timeouts_for s p [tn_event n] @ timeouts_for s1 p (map tn_event ns)" for p
    unfolding timeouts_for_cong[OF s1(3)] by (simp add: timeouts_for_def)
  with s1 s' m1 show ?case by (auto intro: mq_only_trans)
qed

lemma node_ok_TI: "node_ok H (s\<lparr>n_TI := T\<rparr>) = node_ok H s"
proof -
  have "registry_inv (s\<lparr>n_TI := T\<rparr>) = registry_inv s"
    by (rule registry_inv_cong) (simp_all add: skynet_context_handle_def)
  then show ?thesis using sched_rep_frame[of "s\<lparr>n_TI := T\<rparr>" s]
    by (simp add: node_ok_def reg_ok_def mq_live_def)
qed

lemma frame_TI:
  "mq_msgs (s\<lparr>n_TI := T\<rparr>) = mq_msgs s" "timeouts_for (s\<lparr>n_TI := T\<rparr>) p es = timeouts_for s p es"
  using registry_inv_cong(2)[of "s\<lparr>n_TI := T\<rparr>" s]
  by (auto simp: mq_msgs_def timeouts_for_def skynet_context_handle_def)

lemma node_timer_execute_ok:
  assumes ok: "node_ok H s" and w: "wheel_ok (n_TI s)"
  defines "t \<equiv> ti_time (n_TI s)"
  shows "\<exists>s' T. node_timer_execute X s = Some s' \<and> node_ok H s' \<and> mq_only (s\<lparr>n_TI := T\<rparr>) s' \<and>
    settled T \<and> ti_time T = t \<and> (\<forall>e. e \<noteq> t \<longrightarrow> due T e = due (n_TI s) e) \<and>
    (\<forall>p ms. mq_msgs s p = Some ms \<longrightarrow> mq_msgs s' p = Some (ms @ timeouts_for s p (due (n_TI s) t)))"
proof -
  let ?z = "Near (unat (ti_time (n_TI s) AND TIME_NEAR_MASK))"
  let ?T = "slot_set (n_TI s) ?z []"
  note cl = clear_current[OF w refl] and cur = current_slot(3)[OF w]
  show ?thesis
  proof (cases "slot_get (n_TI s) ?z = []")
    case True
    then have d: "due (n_TI s) t = []" using cur unfolding t_def by simp
    have "node_timer_execute X s = Some s"
      using True by (subst node_timer_execute.simps) (simp add: Let_def del: slot_get.simps)
    with ok w d show ?thesis
      by (intro exI[of _ s] exI[of _ "n_TI s"]) (simp add: t_def settled_def mq_only_def timeouts_for_def)
  next
    case False
    obtain s1 where s1: "dispatch_list X (slot_get (n_TI s) ?z) (s\<lparr>n_TI := ?T\<rparr>) = Some s1" "node_ok H s1"
        "mq_only (s\<lparr>n_TI := ?T\<rparr>) s1"
        "\<And>p ms. mq_msgs s p = Some ms \<Longrightarrow> mq_msgs s1 p = Some (ms @ timeouts_for s p (due (n_TI s) t))"
      using dispatch_list_ok[of H "s\<lparr>n_TI := ?T\<rparr>" X "slot_get (n_TI s) ?z"] ok cur
      by (auto simp: node_ok_TI frame_TI t_def simp del: slot_get.simps slot_set.simps)
    have TI: "n_TI s1 = ?T" using mq_only_fields(6)[OF s1(3)] by simp
    have set: "settled ?T" using cl(1) cl(2)[of t] by (simp add: settled_def t_def)
    have now: "slot_get ?T ?z = []"
      using current_slot(3)[OF cl(1)] set by (simp add: settled_def del: slot_get.simps)
    have "node_timer_execute X s1 = Some s1"
      using now TI by (subst node_timer_execute.simps) (simp add: Let_def del: slot_get.simps slot_set.simps)
    then have "node_timer_execute X s = Some s1"
      using False s1(1) by (subst node_timer_execute.simps) (simp add: Let_def link_clear_def del: slot_get.simps slot_set.simps)
    with s1 set cl(2) show ?thesis
      by (intro exI[of _ s1] exI[of _ ?T]) (auto simp: t_def simp del: slot_set.simps)
  qed
qed

lemma node_timer_update_ok:
  assumes ok: "node_ok H s" and w: "settled (n_TI s)"
  defines "t \<equiv> ti_time (n_TI s) + 1"
  shows "\<exists>s'. node_timer_update X s = Some s' \<and> node_ok H s' \<and> settled (n_TI s') \<and> ti_time (n_TI s') = t \<and>
    ctx_heap s' = ctx_heap s \<and> (\<forall>e. e \<noteq> t \<longrightarrow> due (n_TI s') e = due (n_TI s) e) \<and>
    (\<forall>p ms. mq_msgs s p = Some ms \<longrightarrow> mq_msgs s' p = Some (ms @ timeouts_for s p (due (n_TI s) t)))"
proof -
  let ?T = "n_TI s"
  have wok: "wheel_ok ?T" and none: "due ?T (ti_time ?T) = []" using w by (auto simp: settled_def)
  have "slot_get ?T (Near (unat (ti_time ?T AND TIME_NEAR_MASK))) = []"
    using current_slot(3)[OF wok] none by (simp del: slot_get.simps)
  then have e1: "node_timer_execute X s = Some s"
    by (subst node_timer_execute.simps) (simp add: Let_def del: slot_get.simps)
  obtain T1 where T1: "timer_shift ?T = Some T1" "wheel_ok T1" "ti_time T1 = t" "due T1 = due ?T"
    using timer_shift_ok[OF wok none] unfolding t_def by blast
  have "node_ok H (s\<lparr>n_TI := T1\<rparr>)" using ok by (simp add: node_ok_TI)
  from node_timer_execute_ok[OF this, of X] T1(2,3,4) obtain s' T where
    s': "node_timer_execute X (s\<lparr>n_TI := T1\<rparr>) = Some s'" "node_ok H s'" "mq_only (s\<lparr>n_TI := T\<rparr>) s'"
      "settled T" "ti_time T = t" "\<forall>e. e \<noteq> t \<longrightarrow> due T e = due ?T e"
      "\<And>p ms. mq_msgs s p = Some ms \<Longrightarrow> mq_msgs s' p = Some (ms @ timeouts_for s p (due ?T t))"
    by (auto simp: frame_TI)
  have "n_TI s' = T" "ctx_heap s' = ctx_heap s" using mq_only_fields[OF s'(3)] by simp_all
  with e1 T1(1) s' show ?thesis by (auto simp: node_timer_update_def)
qed

end
