(* ===== verification/Server_Props.thy ===== *)
theory Server_Props
  imports Server_Spec
begin

text \<open>
  The properties of the server, the harbor, the timer messages, the monitor, the environment and
  the module table, each with a node on which its hypotheses hold.
\<close>

section \<open>A node with one service\<close>

definition demo_message :: skynet_message where
  "demo_message = \<lparr>msg_source = 9, msg_session = 5, msg_data = None, msg_sz = sz_of_type PTYPE_RESPONSE\<rparr>"

definition demo_queue :: message_queue where
  "demo_queue = (new_message_queue 0x01000001)
     \<lparr>mq_queue := (replicate 64 None)[0 := Some demo_message], mq_tail := 1\<rparr>"

definition demo_context :: skynet_context where
  "demo_context = (new_context 0 0)
     \<lparr>ctx_handle := 0x01000001, ctx_cb := Some 7, ctx_init := True, ctx_ref := 1\<rparr>"

definition demo_node :: node_state where
  "demo_node =
     \<lparr>mq_heap = [0 \<mapsto> demo_queue], mq_fresh = 1, gq_head = None, gq_tail = None,
      ctx_heap = [0 \<mapsto> demo_context], ctx_fresh = 1, node_total = 1,
      h_harbor = 0x01000000, h_handle_index = 2, h_slot = [None, Some 0, None, None],
      h_name_count = 0, h_name = [None, None],
      g_init = True, g_monitor_exit = 0, t_handle = 0, n_REMOTE = Some 0, n_HARBOR = 0x01000000,
      n_env = Map.empty, n_modules = [], n_path = [], n_logger = 0, n_files = (\<lambda>_. []),
      n_TI = timer_create_timer\<rparr>"

text \<open>A world with no libraries and no files, whose callback writes the session of each message to file 3.\<close>

definition demo_world :: externals where
  "demo_world =
     \<lparr>x_create = (\<lambda>f s. None), x_init = (\<lambda>f i c p s. None), x_release = (\<lambda>f i s. Some s),
      x_signal = (\<lambda>f i g s. Some s),
      x_cb = (\<lambda>cb c ud type session source data sz s. Some (0, fput 3 (show_d (sint session)) s)),
      x_dlopen = (\<lambda>p. None), x_dlsym = (\<lambda>d n. None), x_fopen = (\<lambda>p. None), x_ctime = (\<lambda>t. [])\<rparr>"

lemma demo_queue_ring: "ring_inv demo_queue" "ring_abs demo_queue = [demo_message]"
proof -
  have len: "ring_length demo_queue = 1"
    by (simp add: ring_length_def demo_queue_def new_message_queue_def)
  have cell: "ring_cell demo_queue 0 = Some demo_message"
    by (simp add: ring_cell_def demo_queue_def new_message_queue_def DEFAULT_QUEUE_SIZE_def)
  show "ring_inv demo_queue"
    unfolding ring_inv_def len using cell
    by (simp add: demo_queue_def new_message_queue_def DEFAULT_QUEUE_SIZE_def MQ_OVERLOAD_def)
  show "ring_abs demo_queue = [demo_message]" by (simp add: ring_abs_def len cell)
qed

lemma demo_sched: "sched_rep demo_node {0} []"
proof -
  have "queue_ok 0 demo_queue {0}"
    using demo_queue_ring by (simp add: queue_ok_def) (simp add: demo_queue_def new_message_queue_def)
  moreover have "mq_next demo_queue = None" by (simp add: demo_queue_def new_message_queue_def)
  ultimately show ?thesis by (auto simp: sched_rep_def gq_rep_def demo_node_def)
qed

lemma demo_lookup: "handle_lookup demo_node 0x01000001 = Some 0"
  by (simp add: handle_lookup_def demo_node_def cell_get_def slot_hash_def skynet_context_handle_def demo_context_def)

lemma demo_ok: "node_ok {0} demo_node"
proof -
  have "slot_hash 0x01000001 (Suc (Suc (Suc (Suc 0)))) = 1" by (simp add: slot_hash_def)
  moreover have "(\<exists>k \<le> 24. (4::nat) = 2 ^ k)" by (rule exI[of _ 2]) simp
  ultimately have "handle_inv demo_node"
    by (auto simp: handle_inv_def demo_node_def demo_context_def nth_Cons' split: if_splits)
  moreover have "names_inv demo_node" by (simp add: names_inv_def names_abs_def demo_node_def)
  moreover have "mq_live demo_node 0"
    by (simp add: mq_live_def demo_node_def) (simp add: demo_queue_def new_message_queue_def)
  ultimately show ?thesis
    using demo_sched
    by (auto simp: node_ok_def registry_inv_def reg_ok_def) (simp_all add: demo_node_def demo_context_def new_context_def)
qed

section \<open>Sending and dispatching\<close>

text \<open>
  C6. Sending bytes to a service of this node, with a session the caller gives (no
  ALLOCSESSION) and a source that is given or, where it is 0, the sender's own handle: the call
  returns the session, and the message is appended to the queue of that service. It carries the
  source, the session, the bytes, and a size from which both the type and the length are read
  back. Nothing else changes: every other queue is as it was up to its link in the global list,
  the global list gets that queue at its end exactly when nobody lists or holds it, and the rest of
  the node (\<open>mq_state.more\<close>: contexts with their references, handles, names, timers, environment,
  files, modules) is the same.
\<close>

theorem send_delivers:
  assumes "node_ok H s" "handle_lookup s dest = Some c" "ctx_heap s c = Some x"
    and "skynet_harbor_message_isremote dest s = Some False" "dest \<noteq> 0"
    and "source_or_self context source s = Some src"
    and "sz AND MESSAGE_TYPE_MASK = sz" "type AND PTYPE_TAG_ALLOCSESSION = 0" "unat sz \<le> length bs"
  shows "\<exists>s' m bs'. skynet_send X context source dest type session (Some (Bytes bs)) sz s = Some (session, s') \<and>
    node_ok H s' \<and> mq_state.more s' = mq_state.more s \<and> mq_fresh s' = mq_fresh s \<and> others_kept (ctx_queue x) s s' \<and>
    (\<forall>xs. sched_rep s H xs \<longrightarrow> sched_rep s' H (listed H (ctx_queue x) xs)) \<and>
    mq_msgs s' = (mq_msgs s)(ctx_queue x \<mapsto> the (mq_msgs s (ctx_queue x)) @ [m]) \<and>
    msg_source m = src \<and> msg_session m = session \<and>
    msg_data m = Some (Bytes bs') \<and> take (unat sz) bs' = take (unat sz) bs \<and>
    type_of_sz (msg_sz m) = unat (type AND 0xff) \<and> msg_sz m AND MESSAGE_TYPE_MASK = sz"
  using send_local[OF assms, of X session] unfolding mq_only_def by blast

theorem send_delivers_witness:
  "\<exists>s' m bs'. skynet_send demo_world None 2 0x01000001 0 4 (Some (Bytes [65, 66, 67])) 3 demo_node = Some (4, s') \<and>
    mq_state.more s' = mq_state.more demo_node \<and> mq_msgs s' 0 = Some [demo_message, m] \<and>
    msg_source m = 2 \<and> msg_session m = 4 \<and> msg_data m = Some (Bytes bs') \<and> take 3 bs' = [65, 66, 67] \<and>
    type_of_sz (msg_sz m) = 0 \<and> msg_sz m AND MESSAGE_TYPE_MASK = 3"
proof -
  have x: "ctx_heap demo_node 0 = Some demo_context" "ctx_queue demo_context = 0"
    by (simp_all add: demo_node_def demo_context_def new_context_def)
  have r: "skynet_harbor_message_isremote 0x01000001 demo_node = Some False"
    by (simp add: skynet_harbor_message_isremote_def demo_node_def HANDLE_MASK_def)
  have m: "mq_msgs demo_node 0 = Some [demo_message]"
    by (simp add: mq_msgs_def demo_node_def demo_queue_ring)
  have src: "source_or_self None 2 demo_node = Some 2" by (simp add: source_or_self_def)
  have a: "(3 :: u64) AND MESSAGE_TYPE_MASK = 3" "(0 :: i32) AND PTYPE_TAG_ALLOCSESSION = 0"
    by (simp_all add: MESSAGE_TYPE_MASK_def mask_eq_exp_minus_1)
  show ?thesis
    using send_delivers[OF demo_ok demo_lookup x(1) r _ src a, of "[65, 66, 67]" demo_world 4] x(2) m
    by auto
qed


text \<open>A world whose callback writes the session of each message to file 3 and sends a message to its own queue.\<close>

definition echo_world :: externals where
  "echo_world = demo_world
     \<lparr>x_cb := \<lambda>cb c ud type session source data sz s. do {
        s1 \<leftarrow> skynet_mq_push 0 demo_message s;
        Some (0, fput 3 (show_d (sint session)) s1) }\<rparr>"

lemma echo_callback_ok: "callback_ok echo_world 7 0 0 3 (\<lambda>type session source data sz. show_d (sint session))"
  unfolding callback_ok_def
proof (intro allI impI)
  fix H s ms ud type source data sz and session :: i32
  assume svc: "serving H 0 0 7 s ms"
  then obtain xs q where q: "sched_rep s H xs" "mq_heap s 0 = Some q" "\<not> mq_release q" "ring_abs q = ms"
    by (auto simp: serving_def node_ok_def mq_live_def mq_msgs_def)
  obtain s1 where s1: "skynet_mq_push 0 demo_message s = Some s1" "sched_rep s1 H (listed H 0 xs)" "mq_only s s1"
      "mq_msgs s1 = (mq_msgs s)(0 \<mapsto> ring_abs q @ [demo_message])" "mq_live s1 = mq_live s"
    using mq_push_msgs[OF q(1-3), of demo_message] by blast
  have "serving H 0 0 7 s1 (ms @ [demo_message])"
    using s1(4) q(4) by (intro serving_mq[OF svc s1(2,3,5)]) simp
  then have "serving H 0 0 7 (fput 3 (show_d (sint session)) s1) (ms @ [demo_message])"
    unfolding fput_def by (rule serving_frame(3))
  moreover have "n_files s1 = n_files s" using mq_only_fields(5)[OF s1(3)] .
  ultimately show "\<exists>r s' extra. x_cb echo_world 7 0 ud type session source data sz s = Some (r, s') \<and>
      serving H 0 0 7 s' (ms @ extra) \<and> n_files s' 3 = n_files s 3 @ show_d (sint session)"
    using s1(1) by (auto simp: echo_world_def fput_def)
qed


section \<open>Other nodes\<close>

text \<open>
  C33. Sending bytes to a handle of another node: the message goes to the queue of the harbor
  service and to no other, as a remote message that carries the destination, the length and the
  bytes, while the type travels in the size of the queue entry; the session is returned.
\<close>

theorem send_remote_forwards:
  assumes "sched_rep s H xs" "n_REMOTE s = Some r" "ctx_heap s r = Some y" "mq_live s (ctx_queue y)"
    and "skynet_harbor_message_isremote dest s = Some True" "dest \<noteq> 0" "source \<noteq> 0"
    and "sz AND MESSAGE_TYPE_MASK = sz" "type AND PTYPE_TAG_ALLOCSESSION = 0" "unat sz \<le> length bs"
    and "unat (type AND 0xff) \<noteq> PTYPE_SYSTEM" "unat (type AND 0xff) \<noteq> PTYPE_HARBOR"
  shows "\<exists>s' m rm bs'. skynet_send X context source dest type session (Some (Bytes bs)) sz s = Some (session, s') \<and>
    mq_msgs s' = (mq_msgs s)(ctx_queue y \<mapsto> the (mq_msgs s (ctx_queue y)) @ [m]) \<and> ctx_heap s' = ctx_heap s \<and>
    msg_source m = source \<and> msg_session m = session \<and> type_of_sz (msg_sz m) = unat (type AND 0xff) \<and>
    msg_data m = Some (Remote rm) \<and> rm_handle rm = dest \<and> rm_sz rm = sz \<and>
    rm_message rm = Some bs' \<and> take (unat sz) bs' = take (unat sz) bs"
proof -
  let ?t = "unat (type AND 0xff)"
  let ?bs = "if type AND PTYPE_TAG_DONTCOPY = 0 then take (unat sz) bs @ [0] else bs"
  let ?rm = "\<lparr>rm_name = [], rm_handle = dest, rm_message = Some ?bs, rm_sz = sz\<rparr>"
  let ?m = "\<lparr>msg_source = source, msg_session = session, msg_data = Some (Remote ?rm),
    msg_sz = REMOTE_MESSAGE_SIZE OR sz_of_type ?t\<rparr>"
  note sz1 = sz_type_roundtrip[OF assms(8) byte_type, of type]
  have sz2: "type_of_sz (REMOTE_MESSAGE_SIZE OR sz_of_type ?t) = ?t"
    by (rule sz_type_roundtrip(1)[OF _ byte_type])
      (simp add: REMOTE_MESSAGE_SIZE_def MESSAGE_TYPE_MASK_def mask_eq_exp_minus_1)
  obtain q where q: "mq_heap s (ctx_queue y) = Some q" "\<not> mq_release q" using assms(4) by (auto simp: mq_live_def)
  obtain s' where s': "skynet_mq_push (ctx_queue y) ?m s = Some s'" "mq_only s s'"
      "mq_msgs s' = (mq_msgs s)(ctx_queue y \<mapsto> ring_abs q @ [?m])"
    using mq_push_msgs[OF assms(1) q, of ?m] by blast
  have "skynet_send X context source dest type session (Some (Bytes bs)) sz s = Some (session, s')"
    using assms(2,3,5-12) s'(1) sz1
    by (simp add: skynet_send_def filter_args_plain source_or_self_def remote_data_def
        skynet_harbor_send_def skynet_context_send_def Let_def)
  moreover have "the (mq_msgs s (ctx_queue y)) = ring_abs q" using q by (simp add: mq_msgs_def)
  ultimately show ?thesis
    using s' mq_only_fields(1)[OF s'(2)] sz2 assms(10)
    by (intro exI[of _ s'] exI[of _ ?m] exI[of _ ?rm] exI[of _ ?bs]) auto
qed

theorem send_remote_forwards_witness:
  "\<exists>s' m rm bs'. skynet_send demo_world None 2 0x05000007 10 4 (Some (Bytes [65, 66])) 2 demo_node = Some (4, s') \<and>
    mq_msgs s' 0 = Some [demo_message, m] \<and> type_of_sz (msg_sz m) = 10 \<and>
    msg_data m = Some (Remote rm) \<and> rm_handle rm = 0x05000007 \<and> rm_sz rm = 2 \<and>
    rm_message rm = Some bs' \<and> take 2 bs' = [65, 66]"
proof -
  have x: "ctx_heap demo_node 0 = Some demo_context" "ctx_queue demo_context = 0" "n_REMOTE demo_node = Some 0"
    by (simp_all add: demo_node_def demo_context_def new_context_def)
  have r: "skynet_harbor_message_isremote 0x05000007 demo_node = Some True"
    by (simp add: skynet_harbor_message_isremote_def demo_node_def HANDLE_MASK_def)
  have live: "mq_live demo_node (ctx_queue demo_context)"
    unfolding x(2) by (simp add: mq_live_def demo_node_def) (simp add: demo_queue_def new_message_queue_def)
  have m: "mq_msgs demo_node 0 = Some [demo_message]"
    by (simp add: mq_msgs_def demo_node_def demo_queue_ring)
  have a: "(2 :: u64) AND MESSAGE_TYPE_MASK = 2" "(10 :: i32) AND PTYPE_TAG_ALLOCSESSION = 0"
    by (simp_all add: MESSAGE_TYPE_MASK_def mask_eq_exp_minus_1 PTYPE_TAG_ALLOCSESSION_def)
  have t: "unat ((10 :: i32) AND 0xff) = 10" "(10::nat) \<noteq> PTYPE_SYSTEM" "(10::nat) \<noteq> PTYPE_HARBOR"
    by (simp_all add: PTYPE_SYSTEM_def PTYPE_HARBOR_def)
  obtain s' m rm bs' where
    "skynet_send demo_world None 2 0x05000007 10 4 (Some (Bytes [65, 66])) 2 demo_node = Some (4, s')"
    "mq_msgs s' = (mq_msgs demo_node)(ctx_queue demo_context \<mapsto> the (mq_msgs demo_node (ctx_queue demo_context)) @ [m])"
    "type_of_sz (msg_sz m) = unat ((10 :: i32) AND 0xff)" "msg_data m = Some (Remote rm)" "rm_handle rm = 0x05000007"
    "rm_sz rm = 2" "rm_message rm = Some bs'" "take (unat (2 :: u64)) bs' = take (unat (2 :: u64)) [65, 66]"
    using send_remote_forwards[OF demo_sched x(3,1) live r _ _ a, of 2 "[65, 66]" demo_world None 4] t by auto
  then show ?thesis using x(2) m t by (intro exI[of _ s'] exI[of _ m] exI[of _ rm] exI[of _ bs']) auto
qed

text \<open>
  A handle is remote exactly when its top byte names a harbor other than 0 and other than
  the harbor of this node.
\<close>

theorem isremote_exact:
  assumes "0 \<le> harbor" "harbor < 256"
  shows "skynet_isremote handle (skynet_harbor_init harbor s) =
    Some (unat handle div 2 ^ 24 \<noteq> nat harbor \<and> unat handle div 2 ^ 24 \<noteq> 0, unat handle div 2 ^ 24)"
proof -
  let ?s = "skynet_harbor_init harbor s" and ?w = "word_of_int harbor :: u32"
  have "uint ?w = harbor" unfolding uint_word_of_int_eq using assms by (intro take_bit_int_eq_self) auto
  then have w: "unat ?w = nat harbor" by (simp only: unat_eq_nat_uint)
  have H: "n_HARBOR ?s = push_bit 24 ?w" by (simp add: skynet_harbor_init_def HANDLE_REMOTE_SHIFT_def)
  have low: "take_bit 24 (n_HARBOR ?s) = 0" unfolding H by (simp add: take_bit_push_bit)
  have "\<not> bit (n_HARBOR ?s) 0" unfolding H by (simp add: bit_simps)
  then have ne: "n_HARBOR ?s \<noteq> - 1" by (auto simp: bit_simps)
  have "drop_bit 24 (n_HARBOR ?s) = ?w"
  proof (rule bit_word_eqI)
    fix n assume n: "n < LENGTH(32)"
    have "n < 8" if "bit ?w n"
    proof (rule ccontr)
      assume "\<not> n < 8"
      then have "(2::nat) ^ 8 \<le> 2 ^ n" by (intro power_increasing) simp_all
      moreover have "nat harbor < 2 ^ 8" using assms by simp
      ultimately have "nat harbor < 2 ^ n" by (rule order_less_le_trans[rotated])
      then have "\<not> bit (unat ?w) n" unfolding w by (simp add: bit_nat_def)
      then show False using that by (simp add: bit_unsigned_iff)
    qed
    then show "bit (drop_bit 24 (n_HARBOR ?s)) n = bit ?w n" unfolding H by (auto simp: bit_simps)
  qed
  moreover have d: "unat (drop_bit 24 handle) = unat handle div 2 ^ 24" using unat_drop_bit_hi[of 24 handle] by (simp add: hi_def)
  moreover have "(drop_bit 24 handle = ?w) = (unat handle div 2 ^ 24 = nat harbor)"
    using d w by (metis unsigned_word_eqI)
  moreover have "(drop_bit 24 handle = 0) = (unat handle div 2 ^ 24 = 0)" using d by (metis unat_eq_zero)
  ultimately show ?thesis
    using isremote_iff[OF ne low, of handle]
    by (simp add: skynet_isremote_def HANDLE_REMOTE_SHIFT_def)
qed

theorem isremote_exact_witness:
  "skynet_isremote 0x05000007 (skynet_harbor_init 1 demo_node) = Some (True, 5) \<and>
   skynet_isremote 0x01000007 (skynet_harbor_init 1 demo_node) = Some (False, 1)"
  using isremote_exact[of 1 "0x05000007" demo_node] isremote_exact[of 1 "0x01000007" demo_node] by simp

section \<open>Textual handles and names\<close>

lemma hexdigit_val:
  assumes "d < 16"
  shows "digit_val (''0123456789ABCDEF'' ! d) = Some d"
proof -
  have "\<forall>d \<in> set [0..<16]. digit_val (''0123456789ABCDEF'' ! d) = Some d" by code_simp
  with assms show ?thesis by simp
qed

lemma foldl_hex8:
  "foldl (\<lambda>a d. a * 16 + d) 0 (map (\<lambda>k. x div 16 ^ (7 - k) mod 16) [0..<8]) = (x :: nat) mod 16 ^ 8"
proof -
  have step: "a div 16 mod m * 16 + a mod 16 = a mod (16 * m)" for a m :: nat
    by (metis mod_mult2_eq mult.commute add.commute)
  have "foldl (\<lambda>a d. a * 16 + d) 0 (map (\<lambda>k. x div 16 ^ (n - k) mod 16) [0..<Suc n]) = x mod 16 ^ Suc n" for n
  proof (induction n arbitrary: x)
    case (Suc n)
    let ?f = "\<lambda>a d. a * 16 + d :: nat" and ?g = "\<lambda>k. x div 16 ^ (Suc n - k) mod 16"
    have e: "map ?g [0..<Suc n] = map (\<lambda>k. (x div 16) div 16 ^ (n - k) mod 16) [0..<Suc n]"
      by (rule map_cong) (auto simp: Suc_diff_le div_mult2_eq)
    have "foldl ?f 0 (map ?g [0..<Suc (Suc n)]) = foldl ?f 0 (map ?g [0..<Suc n]) * 16 + x mod 16"
      unfolding upt_Suc_append[of 0 "Suc n", OF le0] by (simp del: upt_Suc)
    also have "\<dots> = (x div 16 mod 16 ^ Suc n) * 16 + x mod 16"
      unfolding e Suc[of "x div 16"] ..
    also have "\<dots> = x mod 16 ^ Suc (Suc n)" using step[of x "16 ^ Suc n"] by simp
    finally show ?case .
  qed simp
  from this[of 7] show ?thesis by simp
qed

lemma parse_hex_digits:
  assumes "\<forall>d \<in> set ds. d < 16"
  shows "parse_digits 16 acc (map (\<lambda>d. ''0123456789ABCDEF'' ! d) ds) = foldl (\<lambda>a d. a * 16 + d) acc ds"
  using assms by (induction ds arbitrary: acc) (simp_all add: hexdigit_val del: nth_Cons_numeral)

lemma id_to_hex_digits:
  "tl (id_to_hex i) = map (\<lambda>d. ''0123456789ABCDEF'' ! d) (map (\<lambda>k. unat i div 16 ^ (7 - k) mod 16) [0..<8])"
proof -
  have "unat (drop_bit (n * 4) i AND 0xf) = unat i div 16 ^ n mod 16" for n
  proof -
    have "(16::nat) ^ n = 2 ^ (n * 4)" 
      using power_mult[of "2::nat" 4 n] by (simp only: mult.commute[of 4 n]) simp
    then show ?thesis
      using unat_and_mask[of "drop_bit (n * 4) i" 4] unat_drop_bit_hi[of "n * 4" i]
      by (simp add: hi_def mask_eq_exp_minus_1)
  qed
  then show ?thesis by (simp add: id_to_hex_def del: upt_Suc)
qed

text \<open>
  The two ways the server writes a handle, \<open>:%x\<close> (commands REG, QUERY, MONITOR) and the eight
  digits of LAUNCH, are read back by \<open>skynet_queryname\<close> and by the commands that take a handle as
  exactly that handle.
\<close>

theorem handle_text_roundtrip:
  "skynet_queryname X c (CHR '':'' # show_x h) s = Some (h, s) \<and>
   skynet_queryname X c (id_to_hex h) s = Some (h, s) \<and>
   tohandle X c (CHR '':'' # show_x h) s = Some (h, s) \<and>
   tohandle X c (id_to_hex h) s = Some (h, s)"
proof -
  let ?ds = "map (\<lambda>k. unat h div 16 ^ (7 - k) mod 16) [0..<8]"
  have small: "\<forall>d \<in> set ?ds. d < 16" by simp
  have "unat h < 16 ^ 8" using unsigned_less[of h] by simp
  then have p: "parse_digits 16 0 (tl (id_to_hex h)) = unat h"
    unfolding id_to_hex_digits parse_hex_digits[OF small] foldl_hex8 by simp
  have "\<forall>ch \<in> set (tl (id_to_hex h)). is_digit 16 ch"
    unfolding id_to_hex_digits using small hexdigit_val by (auto simp: is_digit_def)
  from strtoul_hex_u32[OF this p] have "hex_handle (tl (id_to_hex h)) = h" by (simp add: hex_handle_def)
  moreover have "hex_handle (show_x h) = h" by (simp add: hex_handle_def strtoul_show_x)
  moreover have "first_char (id_to_hex h) = CHR '':''" by (simp add: id_to_hex_def first_char_def)
  ultimately show ?thesis by (simp add: skynet_queryname_def tohandle_def first_char_def)
qed

section \<open>Sessions\<close>

text \<open>Sessions a service allocates one after the other.\<close>

fun newsessions :: "nat \<Rightarrow> ctxid \<Rightarrow> node_state \<Rightarrow> (i32 list \<times> node_state) option" where
  "newsessions 0 c s = Some ([], s)"
| "newsessions (Suc n) c s = do {
     (i, s1) \<leftarrow> skynet_context_newsession c s;
     (is, s2) \<leftarrow> newsessions n c s1;
     Some (i # is, s2) }"

lemma newsessions_run:
  assumes "ctx_heap s c = Some x"
  shows "\<exists>s'. newsessions n c s = Some (session_run n (ctx_session_id x), s')"
  using assms
proof (induction n arbitrary: s x)
  case (Suc n)
  let ?i = "next_session (ctx_session_id x)"
  let ?s1 = "s\<lparr>ctx_heap := (ctx_heap s)(c \<mapsto> x\<lparr>ctx_session_id := ?i\<rparr>)\<rparr>"
  have "skynet_context_newsession c s = Some (?i, ?s1)" using Suc.prems by (simp add: skynet_context_newsession_def Let_def)
  moreover obtain s' where "newsessions n c ?s1 = Some (session_run n ?i, s')"
    using Suc.IH[of ?s1 "x\<lparr>ctx_session_id := ?i\<rparr>"] by auto
  ultimately show ?case by auto
qed simp

lemma session_run_positive: "i \<in> set (session_run n sid) \<Longrightarrow> 0 < sint i"
  by (induction n arbitrary: sid) (auto simp: next_session_positive)

text \<open>
  C34. The sessions a service allocates are always positive, also after the counter of 32 bits
  wraps around, and as long as it does not wrap they are all different.
\<close>

theorem sessions_positive_distinct:
  assumes "ctx_heap s c = Some x"
  shows "\<exists>ids s'. newsessions n c s = Some (ids, s') \<and> length ids = n \<and> (\<forall>i \<in> set ids. 0 < sint i) \<and>
    (0 \<le> sint (ctx_session_id x) \<and> sint (ctx_session_id x) + int n < 2 ^ 31 \<longrightarrow> distinct ids)"
proof -
  let ?ids = "session_run n (ctx_session_id x)"
  have len: "length (session_run n sid) = n" for sid by (induction n arbitrary: sid) simp_all
  have "distinct ?ids" if "0 \<le> sint (ctx_session_id x)" "sint (ctx_session_id x) + int n < 2 ^ 31"
  proof -
    have "distinct (map (\<lambda>i. sint (ctx_session_id x) + 1 + int i) [0..<n])"
      by (simp add: distinct_map inj_on_def)
    then have "distinct (map sint ?ids)" using session_run_sint[OF that] by simp
    then show ?thesis by (rule distinct_map[THEN iffD1, THEN conjunct1])
  qed
  with newsessions_run[OF assms, of n] len session_run_positive show ?thesis by fastforce
qed

theorem sessions_positive_distinct_witness:
  "\<exists>ids s'. newsessions 3 0 demo_node = Some (ids, s') \<and> length ids = 3 \<and> (\<forall>i \<in> set ids. 0 < sint i) \<and> distinct ids"
proof -
  have x: "ctx_heap demo_node 0 = Some demo_context" "ctx_session_id demo_context = 0"
    by (simp_all add: demo_node_def demo_context_def new_context_def)
  show ?thesis using sessions_positive_distinct[OF x(1), of 3] x(2) by fastforce
qed

section \<open>Timers\<close>

text \<open>
  C32. One tick of the timer thread on a healthy node returns and sends, for every event that is
  due at the new clock value and in the order the timers were set, one response message with the
  event's session to the queue of the event's service; events of services that are gone are
  dropped, the other timers stay, and no context changes.
\<close>

theorem tick_sends_timeouts:
  assumes "node_ok H s" "settled (n_TI s)"
  shows "\<exists>s'. node_timer_update X s = Some s' \<and> node_ok H s' \<and> settled (n_TI s') \<and>
    ti_time (n_TI s') = ti_time (n_TI s) + 1 \<and> ctx_heap s' = ctx_heap s \<and>
    (\<forall>e. e \<noteq> ti_time (n_TI s) + 1 \<longrightarrow> due (n_TI s') e = due (n_TI s) e) \<and>
    (\<forall>p ms. mq_msgs s p = Some ms \<longrightarrow>
       mq_msgs s' p = Some (ms @ timeouts_for s p (due (n_TI s) (ti_time (n_TI s) + 1))))"
  by (rule node_timer_update_ok[OF assms])

lemma demo_settled: "settled (n_TI demo_node)"
proof -
  have "timer_create_timer\<lparr>ti_time := 0\<rparr> = timer_create_timer" by (simp add: timer_create_timer_def)
  then show ?thesis using fresh_timer(1)[of 0] by (simp add: demo_node_def)
qed

theorem tick_sends_timeouts_witness:
  "\<exists>s'. node_timer_update demo_world demo_node = Some s' \<and> ti_time (n_TI s') = ti_time (n_TI demo_node) + 1 \<and>
    mq_msgs s' 0 = Some ([demo_message] @ timeouts_for demo_node 0 (due (n_TI demo_node) (ti_time (n_TI demo_node) + 1)))"
proof -
  have "mq_msgs demo_node 0 = Some [demo_message]" by (simp add: mq_msgs_def demo_node_def demo_queue_ring)
  with tick_sends_timeouts[OF demo_ok demo_settled, of demo_world] show ?thesis by blast
qed

text \<open>
  A timeout with a positive delay only adds an event, due that many ticks later; with a
  delay of zero or less the response is sent at once and the call returns the session, or -1
  when the service is gone.
\<close>

theorem timeout_schedules:
  assumes "node_ok H s" "wheel_ok (n_TI s)"
  shows "if 0 < sint time
    then \<exists>s'. skynet_timeout X handle time session s = Some (session, s') \<and> node_ok H s' \<and>
      wheel_ok (n_TI s') \<and> mq_msgs s' = mq_msgs s \<and>
      due (n_TI s') = (\<lambda>e. due (n_TI s) e @
        (if e = ti_time (n_TI s) + time then [\<lparr>ev_handle = handle, ev_session = session\<rparr>] else []))
    else (case handle_lookup s handle of
        None \<Rightarrow> skynet_timeout X handle time session s = Some (-1, s)
      | Some c \<Rightarrow> \<exists>s' x. skynet_timeout X handle time session s = Some (session, s') \<and> node_ok H s' \<and>
          n_TI s' = n_TI s \<and> ctx_heap s c = Some x \<and>
          mq_msgs s' = (mq_msgs s)(ctx_queue x \<mapsto> the (mq_msgs s (ctx_queue x)) @ [timeout_message session]))"
proof (cases "0 < sint time")
  case True
  let ?ev = "\<lparr>ev_handle = handle, ev_session = session\<rparr>"
  let ?s = "s\<lparr>n_TI := timer_add ?ev time (n_TI s)\<rparr>"
  have run: "skynet_timeout X handle time session s = Some (session, ?s)" using True by (simp add: skynet_timeout_def)
  have "pos_adds [(?ev, time)]" using True by (simp add: pos_adds_def pos_delay_def)
  note ad = add_all_ok[OF assms(2) this, simplified]
  have "due (n_TI ?s) e = due (n_TI s) e @ (if e = ti_time (n_TI s) + time then [?ev] else [])" for e
    using ad(3)[of e] by (auto simp: arrivals_def add.commute)
  then have "due (n_TI ?s) = (\<lambda>e. due (n_TI s) e @ (if e = ti_time (n_TI s) + time then [?ev] else []))" by (rule ext)
  moreover have "node_ok H ?s" using assms(1) by (simp add: node_ok_TI)
  moreover have "mq_msgs ?s = mq_msgs s" by (simp add: frame_TI)
  ultimately show ?thesis using True run ad(1) by (auto intro!: exI[of _ ?s])
next
  case False
  show ?thesis
  proof (cases "handle_lookup s handle")
    case None
    with False show ?thesis by (simp add: skynet_timeout_def context_push_none)
  next
    case (Some c)
    then obtain x where x: "ctx_heap s c = Some x" using node_ok_lookup[OF assms(1)] by (auto simp: reg_ok_def)
    obtain s' where s': "skynet_context_push X handle (timeout_message session) s = Some (0, s')" "node_ok H s'"
        "mq_only s s'" "mq_msgs s' = (mq_msgs s)(ctx_queue x \<mapsto> the (mq_msgs s (ctx_queue x)) @ [timeout_message session])"
      using context_push_ok[OF assms(1) Some x] by blast
    have "n_TI s' = n_TI s" using mq_only_fields[OF s'(3)] by simp
    with False Some x s' show ?thesis by (simp add: skynet_timeout_def)
  qed
qed

theorem timeout_schedules_witness:
  "\<exists>s'. skynet_timeout demo_world 0x01000001 10 3 demo_node = Some (3, s') \<and> mq_msgs s' = mq_msgs demo_node \<and>
    due (n_TI s') 10 = due (n_TI demo_node) 10 @ [\<lparr>ev_handle = 0x01000001, ev_session = 3\<rparr>]"
proof -
  have w: "wheel_ok (n_TI demo_node)" using demo_settled by (simp add: settled_def)
  have t: "ti_time (n_TI demo_node) = 0" by (simp add: demo_node_def timer_create_timer_def)
  have "0 < sint (10 :: i32)" by simp
  then obtain s' where "skynet_timeout demo_world 0x01000001 10 3 demo_node = Some (3, s')" "mq_msgs s' = mq_msgs demo_node"
    "due (n_TI s') = (\<lambda>e. due (n_TI demo_node) e @
        (if e = ti_time (n_TI demo_node) + 10 then [\<lparr>ev_handle = 0x01000001, ev_session = 3\<rparr>] else []))"
    using timeout_schedules[OF demo_ok w, of 10 demo_world "0x01000001" 3] by auto
  then show ?thesis using t by simp
qed

section \<open>The monitor\<close>

lemma context_endless_ok:
  assumes ok: "node_ok H s" and l: "handle_lookup s h = Some c" "ctx_heap s c = Some x"
  defines "s' \<equiv> s\<lparr>ctx_heap := (ctx_heap s)(c \<mapsto> x\<lparr>ctx_endless := True\<rparr>)\<rparr>"
  shows "skynet_context_endless X h s = Some s'" "node_ok H s'"
proof -
  note [simp] = s'_def
  let ?s = s'
  have r: "1 \<le> ctx_ref x" using node_ok_lookup[OF ok l(1)] l(2) by (auto simp: reg_ok_def)
  show "skynet_context_endless X h s = Some ?s"
    using r by (simp add: skynet_context_endless_def grab_some[OF l] ctx_update_def skynet_context_release_def Let_def)
  have "registry_inv ?s = registry_inv s"
    using l(2) by (intro registry_inv_cong) (auto simp: skynet_context_handle_def)
  moreover have "sched_rep ?s H xs = sched_rep s H xs" for xs by (rule sched_rep_frame) simp_all
  ultimately show "node_ok H ?s" using ok l(2) by (auto simp: node_ok_def reg_ok_def mq_live_def)
qed

text \<open>
  The monitor thread marks a service as running an endless loop exactly when a worker is
  still on the same message at two checks: the first check after a message was begun only
  records it and changes nothing; a second one with no progress in between sets the flag of the
  service the message went to, and of no other context.
\<close>

theorem monitor_flags_stuck_service:
  assumes "node_ok H s" "handle_lookup s dest = Some c" "ctx_heap s c = Some x" "dest \<noteq> 0"
    and "mon_version sm + 1 \<noteq> mon_check_version sm"
  shows "\<exists>sm1 s'. skynet_monitor_check X (skynet_monitor_trigger source dest sm) s = Some (sm1, s) \<and>
    skynet_monitor_check X sm1 s = Some (sm1, s') \<and>
    ctx_heap s' = (ctx_heap s)(c \<mapsto> x\<lparr>ctx_endless := True\<rparr>) \<and>
    (\<forall>src' dest'. skynet_monitor_check X (skynet_monitor_trigger src' dest' sm1) s =
       Some ((skynet_monitor_trigger src' dest' sm1)\<lparr>mon_check_version := mon_version sm1 + 1\<rparr>, s))"
proof -
  let ?sm = "skynet_monitor_trigger source dest sm"
  let ?sm1 = "?sm\<lparr>mon_check_version := mon_version ?sm\<rparr>"
  let ?s1 = "s\<lparr>ctx_heap := (ctx_heap s)(c \<mapsto> x\<lparr>ctx_endless := True\<rparr>)\<rparr>"
  note e = context_endless_ok[OF assms(1-3)]
  have c1: "skynet_monitor_check X ?sm s = Some (?sm1, s)"
    using assms(5) by (simp add: skynet_monitor_check_def skynet_monitor_trigger_def)
  from skynet_error_ok[OF e(2), of None X] obtain s' where s':
    "skynet_error X None (''A message from [ :'' @ show_08x source @ '' ] to [ :'' @ show_08x dest @
       '' ] maybe in an endless loop (version = '' @ show_d (sint (mon_version sm + 1)) @ '')'') ?s1 = Some s'"
    "log_only ?s1 s'" by blast
  have "skynet_monitor_check X ?sm1 s = Some (?sm1, s')"
    using assms(4) e(1)[of X] s'(1) by (simp add: skynet_monitor_check_def skynet_monitor_trigger_def)
  moreover have "ctx_heap s' = ctx_heap ?s1"
    using s'(2) by (auto simp: log_only_def dest!: mq_only_fields(1))
  moreover have "mon_version ?sm1 + 1 \<noteq> mon_check_version ?sm1" by simp
  ultimately show ?thesis
    using c1 by (intro exI[of _ ?sm1] exI[of _ s']) (auto simp: skynet_monitor_check_def skynet_monitor_trigger_def)
qed

theorem monitor_flags_stuck_service_witness:
  "\<exists>sm1 s'. skynet_monitor_check demo_world (skynet_monitor_trigger 9 0x01000001 skynet_monitor_new) demo_node = Some (sm1, demo_node) \<and>
    skynet_monitor_check demo_world sm1 demo_node = Some (sm1, s') \<and>
    ctx_heap s' 0 = Some (demo_context\<lparr>ctx_endless := True\<rparr>)"
proof -
  have x: "ctx_heap demo_node 0 = Some demo_context" by (simp add: demo_node_def)
  have "mon_version skynet_monitor_new + 1 \<noteq> mon_check_version skynet_monitor_new" by (simp add: skynet_monitor_new_def)
  then obtain sm1 s' where "skynet_monitor_check demo_world (skynet_monitor_trigger 9 0x01000001 skynet_monitor_new) demo_node = Some (sm1, demo_node)"
    "skynet_monitor_check demo_world sm1 demo_node = Some (sm1, s')"
    "ctx_heap s' = (ctx_heap demo_node)(0 \<mapsto> demo_context\<lparr>ctx_endless := True\<rparr>)"
    using monitor_flags_stuck_service[OF demo_ok demo_lookup x, of skynet_monitor_new demo_world 9] by auto
  then show ?thesis by auto
qed

section \<open>Environment and modules\<close>

text \<open>
  Through the commands, an environment variable that is set once keeps its value: SETENV of a
  new key makes GETENV return the value and leaves the other keys alone, while SETENV of a key
  that has a value fails its assertion.
\<close>

theorem setenv_getenv_roundtrip:
  assumes "CHR '' '' \<notin> set key" "key' \<noteq> key"
  shows "if n_env s key = None
    then \<exists>s'. skynet_command X c ''SETENV'' (Some (key @ '' '' @ val)) s = Some (None, s') \<and>
      skynet_command X c ''GETENV'' (Some key) s' = Some (Some val, s') \<and>
      skynet_getenv key' s' = skynet_getenv key' s
    else skynet_command X c ''SETENV'' (Some (key @ '' '' @ val)) s = None"
proof -
  have tw: "takeWhile (\<lambda>ch. ch \<noteq> CHR '' '') (key @ CHR '' '' # val) = key"
    using assms(1) by (subst takeWhile_append2) auto
  have run: "skynet_command X c ''SETENV'' p s = cmd_setenv X c p s" "skynet_command X c ''GETENV'' p s = cmd_getenv X c p s"
    for p s by (simp_all add: skynet_command_def cmd_funcs_def)
  show ?thesis
    using assms(2) unfolding run cmd_setenv_def cmd_getenv_def skynet_setenv_def skynet_getenv_def
    by (simp add: tw Let_def)
qed

theorem setenv_getenv_roundtrip_witness:
  "\<exists>s'. skynet_command demo_world 0 ''SETENV'' (Some ''a b c'') demo_node = Some (None, s') \<and>
     skynet_command demo_world 0 ''GETENV'' (Some ''a'') s' = Some (Some ''b c'', s')"
  using setenv_getenv_roundtrip[of "''a''" "''z''" demo_node demo_world 0 "''b c''"] by (auto simp: demo_node_def)

text \<open>The entries of a search path, and the file name an entry gives.\<close>

fun path_entries :: "string \<Rightarrow> string \<Rightarrow> string list" where
  "path_entries cur [] = (if cur = [] then [] else [cur])"
| "path_entries cur (c # cs) =
     (if c = CHR '';'' then (if cur = [] then [] else [cur]) @ path_entries [] cs
      else path_entries (cur @ [c]) cs)"

definition entry_file :: "string \<Rightarrow> string \<Rightarrow> string" where
  "entry_file name e =
     takeWhile (\<lambda>c. c \<noteq> CHR ''?'') e @ name @ tl (dropWhile (\<lambda>c. c \<noteq> CHR ''?'') e)"

lemma path_entries_skip: "path_entries [] (dropWhile (\<lambda>c. c = CHR '';'') p) = path_entries [] p"
  by (induction p) auto

lemma path_entries_segment:
  "cur @ takeWhile (\<lambda>c. c \<noteq> CHR '';'') p \<noteq> [] \<Longrightarrow>
   path_entries cur p = (cur @ takeWhile (\<lambda>c. c \<noteq> CHR '';'') p) #
     path_entries [] (drop (length (takeWhile (\<lambda>c. c \<noteq> CHR '';'') p)) p)"
  by (induction p arbitrary: cur) auto

lemma entry_file_alt:
  "entry_file name e = (let b = takeWhile (\<lambda>c. c \<noteq> CHR ''?'') e in b @ name @ drop (length b + 1) e)"
proof -
  have "tl (dropWhile P e) = drop (length (takeWhile (\<lambda>c. P c) e) + 1) e" for P
    by (metis add.commute dropWhile_eq_drop drop_Suc plus_1_eq_Suc tl_drop)
  then show ?thesis by (simp add: entry_file_def Let_def)
qed

text \<open>
  Looking for the library of a service: the search returns, and what it opens is the first
  file, over the entries of the path in order with the service's name in the place of the
  question mark, that the loader accepts; nothing when it accepts none.
\<close>

theorem try_open_first_match:
  assumes "\<forall>e \<in> set (path_entries [] path). CHR ''?'' \<in> set e"
  shows "try_open dlopen path name =
    Some (case filter (\<lambda>f. dlopen f \<noteq> None) (map (entry_file name) (path_entries [] path)) of
            [] \<Rightarrow> None | f # _ \<Rightarrow> dlopen f)"
  using assms
proof (induction dlopen path name rule: try_open.induct)
  case (1 dlopen path name)
  let ?p = "dropWhile (\<lambda>c. c = CHR '';'') path"
  let ?seg = "takeWhile (\<lambda>c. c \<noteq> CHR '';'') ?p"
  show ?case
  proof (cases "?p = []")
    case True
    then have "path_entries [] path = []" unfolding path_entries_skip[of path, symmetric] by (simp only: path_entries.simps refl if_True)
    with True show ?thesis by (subst try_open.simps) simp
  next
    case False
    then have "hd ?p \<noteq> CHR '';''" using hd_dropWhile[of "\<lambda>c. c = CHR '';''" path] by blast
    then have seg: "?seg \<noteq> []" using False by (cases ?p) auto
    have "path_entries [] path = path_entries [] ?p" by (simp only: path_entries_skip)
    also have "\<dots> = ?seg # path_entries [] (drop (length ?seg) ?p)"
      using path_entries_segment[of "[]" ?p] seg by (simp only: append_Nil not_False_eq_True)
    finally have ent: "path_entries [] path = ?seg # path_entries [] (drop (length ?seg) ?p)" .
    then have q: "CHR ''?'' \<in> set ?seg" "\<forall>e \<in> set (path_entries [] (drop (length ?seg) ?p)). CHR ''?'' \<in> set e"
      using "1.prems" by auto
    show ?thesis
    proof (cases "dlopen (entry_file name ?seg)")
      case None
      then have "try_open dlopen path name = try_open dlopen (drop (length ?seg) ?p) name"
        using False q(1) by (subst try_open.simps) (simp add: entry_file_alt Let_def del: dropWhile_eq_Nil_conv)
      also have "\<dots> = Some (case filter (\<lambda>f. dlopen f \<noteq> None) (map (entry_file name) (path_entries [] (drop (length ?seg) ?p))) of
            [] \<Rightarrow> None | f # _ \<Rightarrow> dlopen f)"
        using None False q by (intro "1.IH"[OF refl _ refl refl]) (simp_all add: entry_file_alt Let_def del: dropWhile_eq_Nil_conv)
      finally show ?thesis using ent None by simp
    next
      case (Some dl)
      then have "try_open dlopen path name = Some (Some dl)"
        using False q(1) by (subst try_open.simps) (simp add: entry_file_alt Let_def del: dropWhile_eq_Nil_conv)
      then show ?thesis using ent Some by simp
    qed
  qed
qed

theorem try_open_first_match_witness:
  "try_open (\<lambda>f. if f = ''b/gate.so'' then Some 4 else None) ''a/?.so;b/?.so'' ''gate'' = Some (Some 4)"
proof -
  have e: "path_entries [] ''a/?.so;b/?.so'' = [''a/?.so'', ''b/?.so'']" by simp
  have "\<forall>e \<in> set (path_entries [] ''a/?.so;b/?.so''). CHR ''?'' \<in> set e" unfolding e by simp
  from try_open_first_match[OF this, of "\<lambda>f. if f = ''b/gate.so'' then Some 4 else None" "''gate''"]
  show ?thesis unfolding e by (simp add: entry_file_def)
qed

section \<open>Two errors\<close>

text \<open>
  The command NAME with a single word reads the second buffer, into which \<open>sscanf\<close> stored
  nothing.
\<close>

theorem cmd_name_reads_unset_buffer:
  assumes "word \<noteq> []" "\<forall>ch \<in> set word. \<not> isspace ch"
  shows "skynet_command X c ''NAME'' (Some word) s = None"
proof -
  have w: "dropWhile isspace word = word" "takeWhile (\<lambda>ch. \<not> isspace ch) word = word"
    using assms by (cases word; simp)+
  have "snd (scan_two word) = None"
    using assms(1) unfolding scan_two_def scan_token_def Let_def w by simp
  then show ?thesis by (simp add: skynet_command_def cmd_funcs_def cmd_name_def)
qed

theorem cmd_name_reads_unset_buffer_witness: "skynet_command demo_world 0 ''NAME'' (Some ''.db'') demo_node = None"
proof -
  have "\<forall>ch \<in> set ''.db''. \<not> isspace ch" by (simp add: isspace_def)
  from cmd_name_reads_unset_buffer[OF _ this, of demo_world 0 demo_node] show ?thesis by simp
qed

text \<open>
  A socket message whose text follows the structure without a NUL, as the socket thread
  sends it for a connection that opens, is accepted or fails, is logged with a format that reads
  on to the next NUL: the read leaves the block.
\<close>

theorem log_socket_overread:
  assumes "sm_buffer m = None" "0 \<notin> set (sm_padding m)"
  shows "skynet_log_output f source PTYPE_SOCKET session (Some (Socket m)) sz s = None"
  using assms by (simp add: skynet_log_output_def log_socket_def log_text_def Let_def)

theorem log_socket_overread_witness:
  "skynet_log_output 3 0 PTYPE_SOCKET 0
     (Some (Socket \<lparr>sm_type = 4, sm_id = 1, sm_ud = 2, sm_buffer = None, sm_padding = [49, 46, 50]\<rparr>)) 27 demo_node = None"
  by (rule log_socket_overread) simp_all

end
