(* ===== verification/Framing.thy ===== *)
theory Framing
  imports Prelude
begin

text \<open>
  Messages on a byte stream: a big-endian length of \<open>h\<close> bytes, then that many bytes. \<open>unframe\<close>
  is the specification, the messages a stream holds and the bytes left over; the locale \<open>framer\<close>
  is the contract of a component that gets the stream in pieces and keeps what is not yet a
  whole message: the messages it gives do not depend on how the stream was cut.
\<close>

definition be_val :: "u8 list \<Rightarrow> nat" where
  "be_val bs = foldl (\<lambda>a b. a * 256 + unat b) 0 bs"

function unframe :: "nat \<Rightarrow> u8 list \<Rightarrow> u8 list list \<times> u8 list" where
  "unframe h bs =
     (if h = 0 \<or> length bs < h then ([], bs)
      else let n = be_val (take h bs); rest = drop h bs in
        if length rest < n then ([], bs)
        else let r = unframe h (drop n rest) in (take n rest # fst r, snd r))"
  by pat_completeness auto
termination by (relation "measure (\<lambda>(h, bs). length bs)") auto

declare unframe.simps [simp del]

lemma unframe_short: "length bs < h \<Longrightarrow> unframe h bs = ([], bs)"
  by (subst unframe.simps) simp

lemma unframe_partial:
  "h \<le> length bs \<Longrightarrow> length bs - h < be_val (take h bs) \<Longrightarrow> unframe h bs = ([], bs)"
  by (subst unframe.simps) (simp add: Let_def)

lemma unframe_whole:
  assumes "0 < h" "length hs = h" "length p = be_val hs"
  shows "unframe h (hs @ p @ rest) = (p # fst (unframe h rest), snd (unframe h rest))"
  using assms by (subst unframe.simps) (auto simp: Let_def)

lemma unframe_append:
  "unframe h (bs @ cs) =
     (fst (unframe h bs) @ fst (unframe h (snd (unframe h bs) @ cs)), snd (unframe h (snd (unframe h bs) @ cs)))"
proof (induction h bs rule: unframe.induct)
  case (1 h bs)
  let ?n = "be_val (take h bs)"
  show ?case
  proof (cases "h = 0 \<or> length bs < h \<or> length bs - h < ?n")
    case True
    then have "unframe h bs = ([], bs)" by (subst unframe.simps) (auto simp: Let_def)
    then show ?thesis by simp
  next
    case False
    let ?rest = "drop h bs"
    let ?r = "unframe h (drop ?n ?rest)"
    have bs: "bs = take h bs @ take ?n ?rest @ drop ?n ?rest" by (simp only: append_take_drop_id)
    have "unframe h bs = (take ?n ?rest # fst ?r, snd ?r)"
      using False by (subst unframe.simps) (simp add: Let_def)
    moreover have "unframe h (bs @ cs) = (take ?n ?rest # fst (unframe h (drop ?n ?rest @ cs)), snd (unframe h (drop ?n ?rest @ cs)))"
      using unframe_whole[of h "take h bs" "take ?n ?rest" "drop ?n ?rest @ cs"] False
      by (subst bs) (simp only: append_assoc, simp)
    moreover have "unframe h (drop ?n ?rest @ cs) =
       (fst ?r @ fst (unframe h (snd ?r @ cs)), snd (unframe h (snd ?r @ cs)))"
      using False by (intro 1) auto
    ultimately show ?thesis by simp
  qed
qed

lemma unframe_leftover_idem: "unframe h (snd (unframe h bs)) = ([], snd (unframe h bs))"
  using unframe_append[of h bs "[]"] by (metis append_Nil2 append_self_conv fst_conv prod.collapse snd_conv)

section \<open>Writing\<close>

fun be_bytes :: "nat \<Rightarrow> nat \<Rightarrow> u8 list" where
  "be_bytes 0 n = []"
| "be_bytes (Suc k) n = be_bytes k (n div 256) @ [word_of_nat (n mod 256)]"

lemma length_be_bytes [simp]: "length (be_bytes k n) = k"
  by (induction k arbitrary: n) simp_all

lemma be_val_append: "be_val (bs @ [b]) = be_val bs * 256 + unat b"
  by (simp add: be_val_def)

lemma be_val_bytes: "n < 256 ^ k \<Longrightarrow> be_val (be_bytes k n) = n"
proof (induction k arbitrary: n)
  case (Suc k)
  then have "n div 256 < 256 ^ k" by (simp add: less_mult_imp_div_less mult.commute)
  with Suc.IH show ?case by (simp add: be_val_append unat_of_nat)
qed (simp add: be_val_def)

definition frame :: "nat \<Rightarrow> u8 list \<Rightarrow> u8 list" where
  "frame h p = be_bytes h (length p) @ p"

lemma unframe_frames:
  assumes "0 < h" "\<forall>p \<in> set ps. length p < 256 ^ h"
  shows "unframe h (concat (map (frame h) ps)) = (ps, [])"
  using assms(2)
proof (induction ps)
  case Nil
  then show ?case using assms(1) by (simp add: unframe_short)
next
  case (Cons p ps)
  have "unframe h (frame h p @ concat (map (frame h) ps)) = (p # ps, [])"
    using Cons unframe_whole[OF assms(1), of "be_bytes h (length p)" p "concat (map (frame h) ps)"]
    unfolding frame_def[of h p] by (simp add: be_val_bytes)
  then show ?case by simp
qed

section \<open>Reassembly\<close>

text \<open>
  \<open>feed\<close> takes one piece of the stream and gives what the component makes of the messages it
  completes: \<open>keep\<close> says which messages it passes on (some drop empty ones) and \<open>out\<close> in which
  form; \<open>left\<close> is what the component holds back; \<open>fine\<close> is a condition on the whole stream under
  which it works.
\<close>

fun feed_all ::
  "(u8 list \<Rightarrow> 's \<Rightarrow> ('m list \<times> 's) option) \<Rightarrow> u8 list list \<Rightarrow> 's \<Rightarrow> ('m list \<times> 's) option" where
  "feed_all feed [] s = Some ([], s)"
| "feed_all feed (c # cs) s = do {
     r \<leftarrow> feed c s;
     q \<leftarrow> feed_all feed cs (snd r);
     Some (fst r @ fst q, snd q) }"

locale framer =
  fixes h :: nat
    and feed :: "u8 list \<Rightarrow> 's \<Rightarrow> ('m list \<times> 's) option"
    and left :: "'s \<Rightarrow> u8 list"
    and inv :: "'s \<Rightarrow> bool"
    and keep :: "u8 list \<Rightarrow> bool"
    and out :: "u8 list \<Rightarrow> 'm"
    and fine :: "u8 list \<Rightarrow> bool"
  assumes feed_ok: "inv s \<Longrightarrow> c \<noteq> [] \<Longrightarrow> fine (left s @ c) \<Longrightarrow>
      \<exists>ps s'. feed c s = Some (map out (filter keep ps), s') \<and> inv s' \<and> unframe h (left s @ c) = (ps, left s')"
    and fine_left: "fine (bs @ cs) \<Longrightarrow> fine (snd (unframe h bs) @ cs)"
    and fine_prefix: "fine (bs @ cs) \<Longrightarrow> fine bs"
begin

lemma feed_all_unframe:
  assumes "inv s" "[] \<notin> set cs" "fine (left s @ concat cs)" "snd (unframe h (left s)) = left s"
  shows "\<exists>s'. feed_all feed cs s = Some (map out (filter keep (fst (unframe h (left s @ concat cs)))), s') \<and> inv s' \<and>
    left s' = snd (unframe h (left s @ concat cs))"
  using assms
proof (induction cs arbitrary: s)
  case Nil
  have "fst (unframe h (left s)) = []"
    using unframe_leftover_idem[of h "left s"] Nil(4) by (metis fst_conv)
  with Nil show ?case by simp
next
  case (Cons c cs)
  have "fine (left s @ c)" using Cons.prems(3) fine_prefix[of "left s @ c" "concat cs"] by simp
  then obtain ps s1 where s1: "feed c s = Some (map out (filter keep ps), s1)" "inv s1"
      "unframe h (left s @ c) = (ps, left s1)"
    using feed_ok Cons.prems by (metis list.set_intros(1))
  have "fine (left s1 @ concat cs)" using fine_left[of "left s @ c" "concat cs"] Cons.prems(3) s1(3) by simp
  moreover have "snd (unframe h (left s1)) = left s1" using unframe_leftover_idem[of h "left s @ c"] s1(3) by simp
  ultimately obtain s' where s': "feed_all feed cs s1 = Some (map out (filter keep (fst (unframe h (left s1 @ concat cs)))), s')"
      "inv s'" "left s' = snd (unframe h (left s1 @ concat cs))"
    using Cons.IH[OF s1(2)] Cons.prems(2) by auto
  have "unframe h (left s @ c @ concat cs) = (ps @ fst (unframe h (left s1 @ concat cs)), snd (unframe h (left s1 @ concat cs)))"
    using unframe_append[of h "left s @ c" "concat cs"] s1(3) by simp
  with s1(1) s' show ?case by auto
qed

text \<open>Two ways to cut the same stream give the same messages and leave the same bytes.\<close>

lemma segmentation_independent:
  assumes "inv s" "left s = []" "[] \<notin> set cs" "[] \<notin> set ds" "concat cs = concat ds" "fine (concat cs)" "0 < h"
  shows "\<exists>ps s1 s2. feed_all feed cs s = Some (ps, s1) \<and> feed_all feed ds s = Some (ps, s2) \<and> left s1 = left s2"
proof -
  have "snd (unframe h (left s)) = left s" using assms(2,7) by (simp add: unframe_short)
  from feed_all_unframe[OF assms(1,3) _ this] feed_all_unframe[OF assms(1,4) _ this] assms(2,5,6) show ?thesis by auto
qed

end

section \<open>Many streams\<close>

text \<open>
  A component that serves several streams at once: a piece of one stream leaves what is held
  back of the others alone. The pieces arrive in any order; what comes out is marked with its
  stream.
\<close>

fun feed_mix ::
  "('k \<Rightarrow> u8 list \<Rightarrow> 's \<Rightarrow> ('m list \<times> 's) option) \<Rightarrow> ('k \<times> u8 list) list \<Rightarrow> 's \<Rightarrow> (('k \<times> 'm) list \<times> 's) option" where
  "feed_mix feed [] s = Some ([], s)"
| "feed_mix feed ((k, c) # cs) s = do {
     r \<leftarrow> feed k c s;
     q \<leftarrow> feed_mix feed cs (snd r);
     Some (map (Pair k) (fst r) @ fst q, snd q) }"

definition stream_of :: "'k \<Rightarrow> ('k \<times> u8 list) list \<Rightarrow> u8 list" where
  "stream_of k cs = concat (map snd (filter (\<lambda>c. fst c = k) cs))"

definition outs_of :: "'k \<Rightarrow> ('k \<times> 'm) list \<Rightarrow> 'm list" where
  "outs_of k outs = map snd (filter (\<lambda>p. fst p = k) outs)"

lemma outs_of_append [simp]: "outs_of k (xs @ ys) = outs_of k xs @ outs_of k ys"
  by (simp add: outs_of_def)

lemma outs_of_pairs [simp]: "outs_of k (map (Pair j) xs) = (if k = j then xs else [])"
  by (auto simp: outs_of_def filter_map comp_def)

lemma stream_of_Cons [simp]: "stream_of k ((j, c) # cs) = (if j = k then c @ stream_of k cs else stream_of k cs)"
  by (simp add: stream_of_def)

locale framers =
  fixes h :: nat
    and feed :: "'k \<Rightarrow> u8 list \<Rightarrow> 's \<Rightarrow> ('m list \<times> 's) option"
    and left :: "'k \<Rightarrow> 's \<Rightarrow> u8 list"
    and inv :: "'s \<Rightarrow> bool"
    and keys :: "'k set"
    and keep :: "u8 list \<Rightarrow> bool"
    and out :: "'k \<Rightarrow> u8 list \<Rightarrow> 'm"
    and fine :: "u8 list \<Rightarrow> bool"
  assumes feed_one: "inv s \<Longrightarrow> k \<in> keys \<Longrightarrow> c \<noteq> [] \<Longrightarrow> fine (left k s @ c) \<Longrightarrow>
      \<exists>ps s'. feed k c s = Some (map (out k) (filter keep ps), s') \<and> inv s' \<and>
        unframe h (left k s @ c) = (ps, left k s') \<and> (\<forall>j \<in> keys. j \<noteq> k \<longrightarrow> left j s' = left j s)"
    and fine_left: "fine (bs @ cs) \<Longrightarrow> fine (snd (unframe h bs) @ cs)"
    and fine_prefix: "fine (bs @ cs) \<Longrightarrow> fine bs"
begin

lemma feed_mix_unframe:
  assumes "inv s" "\<forall>(k, c) \<in> set cs. k \<in> keys \<and> c \<noteq> []"
    and "\<forall>k \<in> keys. fine (left k s @ stream_of k cs)" "\<forall>k \<in> keys. snd (unframe h (left k s)) = left k s"
  shows "\<exists>outs s'. feed_mix feed cs s = Some (outs, s') \<and> inv s' \<and>
    (\<forall>k \<in> keys. outs_of k outs = map (out k) (filter keep (fst (unframe h (left k s @ stream_of k cs)))) \<and>
       left k s' = snd (unframe h (left k s @ stream_of k cs)))"
  using assms
proof (induction cs arbitrary: s)
  case Nil
  have "fst (unframe h (left k s)) = []" if "k \<in> keys" for k
    using unframe_leftover_idem[of h "left k s"] Nil(4) that by (metis fst_conv)
  with Nil show ?case by (simp add: stream_of_def outs_of_def)
next
  case (Cons kc cs)
  obtain k c where kc: "kc = (k, c)" by (cases kc)
  then have k: "k \<in> keys" "c \<noteq> []" using Cons.prems(2) by auto
  have "fine (left k s @ c @ stream_of k cs)" using Cons.prems(3) k(1) kc by fastforce
  then have fk: "fine (left k s @ c)" "fine (snd (unframe h (left k s @ c)) @ stream_of k cs)"
    using fine_prefix[of "left k s @ c"] fine_left[of "left k s @ c"] by simp_all
  obtain ps s1 where s1: "feed k c s = Some (map (out k) (filter keep ps), s1)" "inv s1"
      "unframe h (left k s @ c) = (ps, left k s1)" "\<And>j. j \<in> keys \<Longrightarrow> j \<noteq> k \<Longrightarrow> left j s1 = left j s"
    using feed_one[OF Cons.prems(1) k fk(1)] by blast
  have fine1: "fine (left j s1 @ stream_of j cs)" "snd (unframe h (left j s1)) = left j s1" if "j \<in> keys" for j
    using that s1(3,4) fk(2) Cons.prems(3,4) kc unframe_leftover_idem[of h "left k s @ c"]
    by (cases "j = k"; fastforce)+
  then obtain outs s' where o: "feed_mix feed cs s1 = Some (outs, s')" "inv s'"
      "\<And>j. j \<in> keys \<Longrightarrow> outs_of j outs = map (out j) (filter keep (fst (unframe h (left j s1 @ stream_of j cs)))) \<and>
         left j s' = snd (unframe h (left j s1 @ stream_of j cs))"
    using Cons.IH[OF s1(2)] Cons.prems(2) by fastforce
  have "outs_of j (map (Pair k) (map (out k) (filter keep ps)) @ outs) =
        map (out j) (filter keep (fst (unframe h (left j s @ stream_of j (kc # cs))))) \<and>
      left j s' = snd (unframe h (left j s @ stream_of j (kc # cs)))" if "j \<in> keys" for j
    using o(3)[OF that] s1(3,4) that kc unframe_append[of h "left k s @ c" "stream_of k cs"]
    by (cases "j = k") (auto simp del: map_map)
  then show ?case using s1(1) o(1,2) kc by auto
qed

end

sublocale framers < one: framer h "feed k" "left k" "\<lambda>s. inv s \<and> k \<in> keys" keep "out k" fine for k
proof unfold_locales
  fix s c
  assume "inv s \<and> k \<in> keys" "c \<noteq> []" "fine (left k s @ c)"
  then show "\<exists>ps s'. feed k c s = Some (map (out k) (filter keep ps), s') \<and> (inv s' \<and> k \<in> keys) \<and>
      unframe h (left k s @ c) = (ps, left k s')"
    using feed_one by blast
qed (fact fine_left, fact fine_prefix)

end
