(* ===== verification/Netpack.thy ===== *)
theory Netpack
  imports Framing Fifo Node
begin

text \<open>
  The packet filter of \<open>lua-netpack.c\<close>: it cuts the bytes of each socket into packets with a
  two-byte length, keeps an incomplete packet per socket in a hash table of linked lists, and
  queues the packets of a piece that holds more than one in a ring that grows by 1024.

  The queue is the userdata the Lua side passes as the first argument; \<open>None\<close> stands for nil.
  A linked list of the hash table is the list of its nodes. \<open>np_buffer\<close> of an incomplete packet
  is the part of its buffer that was filled, so its length is \<open>read\<close>.
\<close>

section \<open>State and operations\<close>

definition QUEUESIZE :: nat where "QUEUESIZE = 1024"
definition HASHSIZE :: nat where "HASHSIZE = 4096"

record netpack =
  np_id :: i32
  np_size :: nat
  np_buffer :: "u8 list"

record uncomplete =
  uc_pack :: netpack
  uc_read :: int
  uc_header :: nat

record queue =
  q_cap :: nat
  q_head :: nat
  q_tail :: nat
  q_hash :: "uncomplete list list"
  q_queue :: "netpack option list"

definition hash_fd :: "i32 \<Rightarrow> nat" where
  "hash_fd fd = unat (signed_drop_bit 24 fd + signed_drop_bit 12 fd + fd) mod HASHSIZE"

text \<open>The node for \<open>fd\<close>, taken out of the list of its slot.\<close>

fun unlink_uc :: "i32 \<Rightarrow> uncomplete list \<Rightarrow> uncomplete option \<times> uncomplete list" where
  "unlink_uc fd [] = (None, [])"
| "unlink_uc fd (uc # ucs) =
     (if np_id (uc_pack uc) = fd then (Some uc, ucs)
      else let r = unlink_uc fd ucs in (fst r, uc # snd r))"

definition find_uncomplete :: "i32 \<Rightarrow> queue option \<Rightarrow> uncomplete option \<times> queue option" where
  "find_uncomplete fd Q = (case Q of
       None \<Rightarrow> (None, None)
     | Some q \<Rightarrow>
         let h = hash_fd fd; r = unlink_uc fd (q_hash q ! h)
         in (fst r, Some (q\<lparr>q_hash := (q_hash q)[h := snd r]\<rparr>)))"

definition new_queue :: queue where
  "new_queue = \<lparr>q_cap = QUEUESIZE, q_head = 0, q_tail = 0, q_hash = replicate HASHSIZE [],
     q_queue = replicate QUEUESIZE None\<rparr>"

definition get_queue :: "queue option \<Rightarrow> queue" where
  "get_queue Q = (case Q of None \<Rightarrow> new_queue | Some q \<Rightarrow> q)"

definition np_expand_queue :: "queue \<Rightarrow> queue" where
  "np_expand_queue q =
     q\<lparr>q_cap := q_cap q + QUEUESIZE, q_head := 0, q_tail := q_cap q,
       q_queue := map (\<lambda>i. q_queue q ! ((q_head q + i) mod q_cap q)) [0..<q_cap q] @ replicate QUEUESIZE None\<rparr>"

definition push_pack :: "netpack \<Rightarrow> queue \<Rightarrow> queue option" where
  "push_pack np q = do {
     cells \<leftarrow> cell_set (q_queue q) (q_tail q) np;
     let tail = (if q_cap q \<le> q_tail q + 1 then q_tail q + 1 - q_cap q else q_tail q + 1);
     let q1 = q\<lparr>q_queue := cells, q_tail := tail\<rparr>;
     Some (if q_head q1 = q_tail q1 then np_expand_queue q1 else q1) }"

definition push_data :: "i32 \<Rightarrow> u8 list \<Rightarrow> queue option \<Rightarrow> queue option option" where
  "push_data fd buffer Q = do {
     q \<leftarrow> push_pack \<lparr>np_id = fd, np_size = length buffer, np_buffer = buffer\<rparr> (get_queue Q);
     Some (Some q) }"

text \<open>A new node for \<open>fd\<close> with the fields its callers fill in.\<close>

definition link_uc :: "i32 \<Rightarrow> uncomplete \<Rightarrow> queue \<Rightarrow> queue" where
  "link_uc fd uc q = q\<lparr>q_hash := (q_hash q)[hash_fd fd := uc # q_hash q ! hash_fd fd]\<rparr>"

definition save_uncomplete :: "i32 \<Rightarrow> (uncomplete \<Rightarrow> uncomplete) \<Rightarrow> queue option \<Rightarrow> queue option" where
  "save_uncomplete fd fill Q =
     Some (link_uc fd (fill \<lparr>uc_pack = \<lparr>np_id = fd, np_size = 0, np_buffer = []\<rparr>, uc_read = 0, uc_header = 0\<rparr>)
       (get_queue Q))"

definition read_size :: "u8 \<Rightarrow> u8 \<Rightarrow> nat" where
  "read_size b0 b1 = unat b0 * 256 + unat b1"

definition fill_header :: "u8 \<Rightarrow> uncomplete \<Rightarrow> uncomplete" where
  "fill_header b uc = uc\<lparr>uc_read := - 1, uc_header := unat b\<rparr>"

definition fill_part :: "nat \<Rightarrow> u8 list \<Rightarrow> uncomplete \<Rightarrow> uncomplete" where
  "fill_part n part uc =
     uc\<lparr>uc_read := int (length part), uc_pack := (uc_pack uc)\<lparr>np_size := n, np_buffer := part\<rparr>\<rparr>"

function push_more :: "i32 \<Rightarrow> u8 list \<Rightarrow> queue option \<Rightarrow> queue option option" where
  "push_more fd buffer Q = (case buffer of
       [] \<Rightarrow> None
     | [b] \<Rightarrow> Some (save_uncomplete fd (fill_header b) Q)
     | b0 # b1 # rest \<Rightarrow>
         let n = read_size b0 b1 in
         if length rest < n then Some (save_uncomplete fd (fill_part n rest) Q)
         else do {
           Q1 \<leftarrow> push_data fd (take n rest) Q;
           if 0 < length rest - n then push_more fd (drop n rest) Q1 else Some Q1 })"
  by pat_completeness auto
termination by (relation "measure (\<lambda>(fd, buffer, Q). length buffer)") auto

declare push_more.simps [simp del]

definition close_uncomplete :: "i32 \<Rightarrow> queue option \<Rightarrow> queue option" where
  "close_uncomplete fd Q = snd (find_uncomplete fd Q)"

text \<open>What \<open>lfilter\<close> gives back beside the queue: nothing, or a tag with its values.\<close>

datatype filter_result =
  RNothing | RData i32 "u8 list" | RMore | RClose i32 | ROpen i32 "u8 list" | RError i32 "u8 list" | RWarning i32 int

text \<open>The branch of \<open>filter_data\<close> for a socket with an incomplete packet.\<close>

definition fill_uncomplete ::
  "i32 \<Rightarrow> uncomplete \<Rightarrow> u8 list \<Rightarrow> queue \<Rightarrow> (filter_result \<times> queue option) option" where
  "fill_uncomplete fd uc buffer q = do {
     (uc1, buffer1) \<leftarrow> (if uc_read uc < 0 then
         if uc_read uc \<noteq> - 1 then None
         else (case buffer of
             [] \<Rightarrow> None
           | b # bs \<Rightarrow> Some (uc\<lparr>uc_read := 0, uc_pack := (uc_pack uc)\<lparr>np_size := uc_header uc * 256 + unat b, np_buffer := []\<rparr>\<rparr>, bs))
       else Some (uc, buffer));
     let pack = uc_pack uc1;
     let need = np_size pack - nat (uc_read uc1);
     if length buffer1 < need then
       Some (RNothing, Some (link_uc fd (uc1\<lparr>uc_read := uc_read uc1 + int (length buffer1),
         uc_pack := pack\<lparr>np_buffer := np_buffer pack @ buffer1\<rparr>\<rparr>) q))
     else do {
       let whole = np_buffer pack @ take need buffer1;
       let rest = drop need buffer1;
       if rest = [] then Some (RData fd whole, Some q)
       else do {
         Q1 \<leftarrow> push_data fd whole (Some q);
         Q2 \<leftarrow> push_more fd rest Q1;
         Some (RMore, Q2) } } }"

definition filter_data :: "i32 \<Rightarrow> u8 list \<Rightarrow> queue option \<Rightarrow> (filter_result \<times> queue option) option" where
  "filter_data fd buffer Q = (case find_uncomplete fd Q of
       (Some uc, Q0) \<Rightarrow> do { q \<leftarrow> Q0; fill_uncomplete fd uc buffer q }
     | (None, Q0) \<Rightarrow> (case buffer of
           [] \<Rightarrow> None
         | [b] \<Rightarrow> Some (RNothing, save_uncomplete fd (fill_header b) Q0)
         | b0 # b1 # rest \<Rightarrow>
             let n = read_size b0 b1 in
             if length rest < n then Some (RNothing, save_uncomplete fd (fill_part n rest) Q0)
             else if length rest = n then Some (RData fd rest, Q0)
             else do {
               Q1 \<leftarrow> push_data fd (take n rest) Q0;
               Q2 \<leftarrow> push_more fd (drop n rest) Q1;
               Some (RMore, Q2) }))"

text \<open>
  \<open>lfilter\<close> on a message; the text of an accepted or failed connection follows the structure, or
  is in the buffer, whose size is then -1 and refused by \<open>lua_pushlstring\<close>.
\<close>

definition lfilter :: "skynet_socket_message \<Rightarrow> queue option \<Rightarrow> (filter_result \<times> queue option) option" where
  "lfilter message Q =
     (let fd = word_of_int (sm_id message);
          text = (case sm_buffer message of None \<Rightarrow> Some (sm_padding message) | Some _ \<Rightarrow> None) in
      if sm_type message = SKYNET_SOCKET_TYPE_DATA then
        (case sm_buffer message of
           Some buffer \<Rightarrow>
             if sm_ud message = int (length buffer) then filter_data fd buffer Q else None
         | None \<Rightarrow> None)
      else if sm_type message = SKYNET_SOCKET_TYPE_CONNECT then Some (RNothing, Q)
      else if sm_type message = SKYNET_SOCKET_TYPE_CLOSE then Some (RClose fd, close_uncomplete fd Q)
      else if sm_type message = SKYNET_SOCKET_TYPE_ACCEPT then
        do { t \<leftarrow> text; Some (ROpen (word_of_int (sm_ud message)) t, Q) }
      else if sm_type message = SKYNET_SOCKET_TYPE_ERROR then
        do { t \<leftarrow> text; Some (RError fd t, close_uncomplete fd Q) }
      else if sm_type message = SKYNET_SOCKET_TYPE_WARNING then Some (RWarning fd (sm_ud message), Q)
      else Some (RNothing, Q))"

definition pop_pack :: "queue \<Rightarrow> (netpack option \<times> queue) option" where
  "pop_pack q =
     (if q_head q = q_tail q then Some (None, q)
      else do {
        np \<leftarrow> cell_get (q_queue q) (q_head q);
        let head = (if q_cap q \<le> q_head q + 1 then 0 else q_head q + 1);
        Some (Some np, q\<lparr>q_head := head\<rparr>) })"

definition lpop :: "queue option \<Rightarrow> (netpack option \<times> queue option) option" where
  "lpop Q = (case Q of
       None \<Rightarrow> Some (None, None)
     | Some q \<Rightarrow> do { r \<leftarrow> pop_pack q; Some (fst r, Some (snd r)) })"

definition lclear :: "queue option \<Rightarrow> queue option" where
  "lclear Q = map_option (\<lambda>q. q\<lparr>q_hash := replicate HASHSIZE [], q_head := 0, q_tail := 0\<rparr>) Q"

definition write_size :: "nat \<Rightarrow> u8 list" where
  "write_size len = [word_of_nat (len div 256), word_of_nat len]"

text \<open>\<open>None\<close> where the function raises a Lua error: the data is too long.\<close>

definition lpack :: "u8 list \<Rightarrow> u8 list option" where
  "lpack data = (if 0x10000 \<le> length data then None else Some (write_size (length data) @ data))"

section \<open>The ring of packets\<close>

definition pack_rep :: "queue \<Rightarrow> netpack list \<Rightarrow> bool" where
  "pack_rep q xs \<longleftrightarrow> q_head q < q_cap q \<and> length xs < q_cap q \<and> length (q_queue q) = q_cap q \<and>
     q_tail q = (q_head q + length xs) mod q_cap q \<and>
     (\<forall>i < length xs. q_queue q ! ((q_head q + i) mod q_cap q) = Some (xs ! i))"

lemma pack_rep_push:
  assumes "pack_rep q xs"
  shows "\<exists>q'. push_pack np q = Some q' \<and> pack_rep q' (xs @ [np]) \<and> q_hash q' = q_hash q"
proof -
  let ?c = "q_cap q" and ?n = "length xs"
  have r: "q_head q < ?c" "?n < ?c" "length (q_queue q) = ?c" "q_tail q = (q_head q + ?n) mod ?c"
    "\<And>i. i < ?n \<Longrightarrow> q_queue q ! ((q_head q + i) mod ?c) = Some (xs ! i)"
    using assms by (auto simp: pack_rep_def)
  have tl: "q_tail q < ?c" using r by simp
  have t: "(if ?c \<le> q_tail q + 1 then q_tail q + 1 - ?c else q_tail q + 1) = (q_head q + Suc ?n) mod ?c"
  proof -
    have "(q_head q + Suc ?n) mod ?c = Suc (q_tail q) mod ?c" using r(4) by (simp add: mod_Suc_eq)
    then show ?thesis using tl by (auto simp: mod_Suc)
  qed
  let ?q1 = "q\<lparr>q_queue := (q_queue q)[q_tail q := Some np], q_tail := (q_head q + Suc ?n) mod ?c\<rparr>"
  have push: "push_pack np q = Some (if q_head q = (q_head q + Suc ?n) mod ?c then np_expand_queue ?q1 else ?q1)"
    unfolding push_pack_def Let_def t using tl r(3) by (simp add: cell_set_def)
  have cell: "q_queue ?q1 ! ((q_head q + i) mod ?c) = Some ((xs @ [np]) ! i)" if "i < Suc ?n" for i
  proof (cases "i = ?n")
    case True
    then show ?thesis using r tl by simp
  next
    case False
    then have "(q_head q + i) mod ?c \<noteq> q_tail q" using r(2,4) that ring_index_neq[of i ?n ?c "q_head q"] by simp
    then show ?thesis using False that r(5)[of i] by (simp add: nth_append)
  qed
  show ?thesis
  proof (cases "Suc ?n = ?c")
    case True
    have "q_head q = (q_head q + Suc ?n) mod ?c" using True r(1) by simp
    then have "push_pack np q = Some (np_expand_queue ?q1)" using push by simp
    moreover have "pack_rep (np_expand_queue ?q1) (xs @ [np])"
      using True cell by (simp add: pack_rep_def np_expand_queue_def QUEUESIZE_def nth_append)
    ultimately show ?thesis by (simp add: np_expand_queue_def)
  next
    case False
    then have n: "Suc ?n < ?c" using r(2) by simp
    then have "q_head q \<noteq> (q_head q + Suc ?n) mod ?c"
      using ring_index_neq[of 0 "Suc ?n" ?c "q_head q"] r(1) by simp
    then have "push_pack np q = Some ?q1" using push by simp
    moreover have "pack_rep ?q1 (xs @ [np])" using r n cell by (simp add: pack_rep_def)
    ultimately show ?thesis by simp
  qed
qed

lemma pack_rep_empty: "pack_rep q [] \<Longrightarrow> pop_pack q = Some (None, q)"
  by (simp add: pack_rep_def pop_pack_def)

lemma pack_rep_pop:
  assumes "pack_rep q (x # xs)"
  shows "\<exists>q'. pop_pack q = Some (Some x, q') \<and> pack_rep q' xs \<and> q_hash q' = q_hash q"
proof -
  let ?c = "q_cap q"
  let ?h = "Suc (q_head q) mod ?c"
  have r: "q_head q < ?c" "Suc (length xs) < ?c" "length (q_queue q) = ?c" "q_tail q = (q_head q + Suc (length xs)) mod ?c"
    "\<And>i. i < Suc (length xs) \<Longrightarrow> q_queue q ! ((q_head q + i) mod ?c) = Some ((x # xs) ! i)"
    using assms by (auto simp: pack_rep_def)
  have "q_head q \<noteq> q_tail q" using ring_index_neq[of 0 "Suc (length xs)" ?c "q_head q"] r by simp
  moreover have "cell_get (q_queue q) (q_head q) = Some x" using r(5)[of 0] r(1,3) by (simp add: cell_get_def)
  moreover have "(if ?c \<le> q_head q + 1 then 0 else q_head q + 1) = ?h"
    unfolding Suc_eq_plus1[symmetric] by (rule ring_succ) (use r(1) in simp_all)
  ultimately have "pop_pack q = Some (Some x, q\<lparr>q_head := ?h\<rparr>)" by (simp add: pop_pack_def Let_def)
  moreover have "pack_rep (q\<lparr>q_head := ?h\<rparr>) xs"
  proof -
    have "(?h + i) mod ?c = (q_head q + Suc i) mod ?c" for i by (simp add: mod_add_left_eq)
    then show ?thesis using r r(5)[of "Suc _"] by (auto simp: pack_rep_def)
  qed
  ultimately show ?thesis by simp
qed

interpretation packring: fifo push_pack pop_pack pack_rep "\<lambda>_ _. True"
  by unfold_locales (use pack_rep_push pack_rep_empty pack_rep_pop in blast)+

section \<open>Incomplete packets\<close>

definition uc_ok :: "uncomplete \<Rightarrow> bool" where
  "uc_ok uc \<longleftrightarrow> uc_read uc = - 1 \<and> uc_header uc < 256 \<or>
     uc_read uc = int (length (np_buffer (uc_pack uc))) \<and>
     length (np_buffer (uc_pack uc)) < np_size (uc_pack uc) \<and> np_size (uc_pack uc) < 65536"

text \<open>The bytes of the stream an incomplete packet stands for.\<close>

definition uc_bytes :: "uncomplete \<Rightarrow> u8 list" where
  "uc_bytes uc = (if uc_read uc < 0 then [word_of_nat (uc_header uc)]
     else be_bytes 2 (np_size (uc_pack uc)) @ np_buffer (uc_pack uc))"

definition uc_id :: "uncomplete \<Rightarrow> i32" where
  "uc_id uc = np_id (uc_pack uc)"

definition hash_ok :: "queue \<Rightarrow> bool" where
  "hash_ok q \<longleftrightarrow> length (q_hash q) = HASHSIZE \<and>
     (\<forall>ucs \<in> set (q_hash q). distinct (map uc_id ucs) \<and> (\<forall>uc \<in> set ucs. uc_ok uc))"

definition slot_left :: "uncomplete list \<Rightarrow> i32 \<Rightarrow> u8 list" where
  "slot_left ucs fd = (case unlink_uc fd ucs of (None, _) \<Rightarrow> [] | (Some uc, _) \<Rightarrow> uc_bytes uc)"

definition np_left :: "i32 \<Rightarrow> queue option \<Rightarrow> u8 list" where
  "np_left fd Q = slot_left (q_hash (get_queue Q) ! hash_fd fd) fd"

lemma hash_fd_less: "hash_fd fd < HASHSIZE"
  by (simp add: hash_fd_def HASHSIZE_def)

lemma unlink_uc_subset: "set (snd (unlink_uc fd ucs)) \<subseteq> set ucs"
  by (induction ucs) (auto simp: Let_def)

lemma unlink_uc_distinct:
  assumes "distinct (map uc_id ucs)"
  shows "fd \<notin> uc_id ` set (snd (unlink_uc fd ucs)) \<and> distinct (map uc_id (snd (unlink_uc fd ucs)))"
  using assms
proof (induction ucs)
  case (Cons uc ucs)
  have "uc_id uc \<notin> uc_id ` set (snd (unlink_uc fd ucs))" using Cons.prems unlink_uc_subset[of fd ucs] by auto
  with Cons show ?case by (auto simp: Let_def uc_id_def)
qed simp

lemma unlink_uc_found: "fst (unlink_uc fd ucs) = Some uc \<Longrightarrow> uc \<in> set ucs \<and> uc_id uc = fd"
  by (induction ucs) (auto simp: uc_id_def Let_def split: if_splits)

lemma unlink_uc_other: "g \<noteq> fd \<Longrightarrow> fst (unlink_uc g (snd (unlink_uc fd ucs))) = fst (unlink_uc g ucs)"
  by (induction ucs) (auto simp: Let_def)

lemma unlink_uc_none: "fst (unlink_uc fd ucs) = None \<Longrightarrow> snd (unlink_uc fd ucs) = ucs"
  by (induction ucs) (auto simp: Let_def split: if_splits)

lemma unlink_uc_absent: "fd \<notin> set (map uc_id ucs) \<Longrightarrow> unlink_uc fd ucs = (None, ucs)"
  by (induction ucs) (auto simp: uc_id_def)

lemma slot_left_fst: "slot_left ucs fd = (case fst (unlink_uc fd ucs) of None \<Rightarrow> [] | Some uc \<Rightarrow> uc_bytes uc)"
  by (simp add: slot_left_def split: prod.split option.split)

text \<open>Taking a node out and putting one in, seen through the bytes left over.\<close>

lemma find_uncomplete_ok:
  assumes "hash_ok q"
  shows "\<exists>q1. find_uncomplete fd (Some q) = (fst (unlink_uc fd (q_hash q ! hash_fd fd)), Some q1) \<and> hash_ok q1 \<and>
    fd \<notin> uc_id ` set (q_hash q1 ! hash_fd fd) \<and> (\<forall>g. g \<noteq> fd \<longrightarrow> np_left g (Some q1) = np_left g (Some q)) \<and>
    (\<forall>xs. pack_rep q1 xs = pack_rep q xs) \<and> (fst (unlink_uc fd (q_hash q ! hash_fd fd)) = None \<longrightarrow> q1 = q)"
proof -
  let ?h = "hash_fd fd" and ?ucs = "q_hash q ! hash_fd fd"
  let ?q1 = "q\<lparr>q_hash := (q_hash q)[?h := snd (unlink_uc fd ?ucs)]\<rparr>"
  have h: "?h < length (q_hash q)" using assms hash_fd_less by (simp add: hash_ok_def)
  then have "?ucs \<in> set (q_hash q)" by simp
  then have d: "distinct (map uc_id ?ucs)" "\<forall>uc \<in> set ?ucs. uc_ok uc" using assms by (auto simp: hash_ok_def)
  note u = unlink_uc_distinct[OF d(1), of fd] and sub = unlink_uc_subset[of fd ?ucs]
  have ok: "hash_ok ?q1"
    using assms d(2) u sub h unfolding hash_ok_def
    by (auto dest!: subsetD[OF set_update_subset_insert])
  have "np_left g (Some ?q1) = np_left g (Some q)" if "g \<noteq> fd" for g
    using that h unlink_uc_other[OF that, of ?ucs]
    by (cases "hash_fd g = ?h") (simp_all add: np_left_def get_queue_def slot_left_fst)
  moreover have "?q1 = q" if "fst (unlink_uc fd ?ucs) = None" using unlink_uc_none[OF that] by simp
  ultimately show ?thesis
    using ok u h by (intro exI[of _ ?q1]) (simp add: find_uncomplete_def Let_def pack_rep_def)
qed

lemma link_uc_ok:
  assumes "hash_ok q" "fd \<notin> uc_id ` set (q_hash q ! hash_fd fd)" "uc_ok uc" "uc_id uc = fd"
  shows "hash_ok (link_uc fd uc q) \<and> np_left fd (Some (link_uc fd uc q)) = uc_bytes uc \<and>
    (\<forall>g. g \<noteq> fd \<longrightarrow> np_left g (Some (link_uc fd uc q)) = np_left g (Some q))"
proof -
  let ?h = "hash_fd fd"
  have h: "?h < length (q_hash q)" using assms hash_fd_less by (simp add: hash_ok_def)
  have "q_hash q ! ?h \<in> set (q_hash q)" using h by simp
  then have "distinct (map uc_id (q_hash q ! ?h))" "\<forall>u \<in> set (q_hash q ! ?h). uc_ok u"
    using assms(1) by (auto simp: hash_ok_def)
  then have "hash_ok (link_uc fd uc q)"
    using assms unfolding hash_ok_def link_uc_def by (auto dest!: subsetD[OF set_update_subset_insert])
  moreover have "np_left fd (Some (link_uc fd uc q)) = uc_bytes uc"
    using h assms(4) by (simp add: np_left_def get_queue_def link_uc_def slot_left_fst uc_id_def)
  moreover have "np_left g (Some (link_uc fd uc q)) = np_left g (Some q)" if "g \<noteq> fd" for g
    using h assms(4) that
    by (cases "hash_fd g = ?h") (simp_all add: np_left_def get_queue_def link_uc_def slot_left_fst uc_id_def Let_def)
  ultimately show ?thesis by simp
qed

section \<open>Cutting a piece into packets\<close>

definition np_ok :: "queue option \<Rightarrow> netpack list \<Rightarrow> bool" where
  "np_ok Q xs \<longleftrightarrow> hash_ok (get_queue Q) \<and> pack_rep (get_queue Q) xs"

definition pack_of :: "i32 \<Rightarrow> u8 list \<Rightarrow> netpack" where
  "pack_of fd b = \<lparr>np_id = fd, np_size = length b, np_buffer = b\<rparr>"

definition absent :: "i32 \<Rightarrow> queue option \<Rightarrow> bool" where
  "absent fd Q \<longleftrightarrow> fd \<notin> uc_id ` set (q_hash (get_queue Q) ! hash_fd fd)"

text \<open>The other sockets keep their bytes.\<close>

definition other_queues_kept :: "i32 \<Rightarrow> queue option \<Rightarrow> queue option \<Rightarrow> bool" where
  "other_queues_kept fd Q Q' \<longleftrightarrow> (\<forall>g. g \<noteq> fd \<longrightarrow> np_left g Q' = np_left g Q)"

lemma np_left_get: "np_left fd (Some (get_queue Q)) = np_left fd Q"
  by (simp add: np_left_def get_queue_def)

lemma np_ok_new: "np_ok None []"
  by (auto simp: np_ok_def get_queue_def new_queue_def hash_ok_def pack_rep_def QUEUESIZE_def)

lemma absent_left: "absent fd Q \<Longrightarrow> np_left fd Q = []"
  by (simp add: absent_def np_left_def slot_left_fst unlink_uc_absent)

lemma push_data_ok:
  assumes "np_ok Q xs"
  shows "\<exists>Q'. push_data fd b Q = Some Q' \<and> np_ok Q' (xs @ [pack_of fd b]) \<and>
    (\<forall>g. np_left g Q' = np_left g Q) \<and> (\<forall>g. absent g Q' = absent g Q)"
proof -
  obtain q' where q': "push_pack (pack_of fd b) (get_queue Q) = Some q'" "pack_rep q' (xs @ [pack_of fd b])"
      "q_hash q' = q_hash (get_queue Q)"
    using pack_rep_push[of "get_queue Q" xs "pack_of fd b"] assms by (auto simp: np_ok_def)
  have "push_data fd b Q = Some (Some q')" using q'(1) by (simp add: push_data_def pack_of_def)
  moreover have "np_ok (Some q') (xs @ [pack_of fd b])"
    using q' assms by (simp add: np_ok_def hash_ok_def get_queue_def)
  ultimately show ?thesis using q'(3) by (simp add: np_left_def absent_def get_queue_def)
qed

lemma link_np_ok:
  assumes "np_ok Q xs" "absent fd Q" "uc_ok uc" "uc_id uc = fd"
  shows "np_ok (Some (link_uc fd uc (get_queue Q))) xs \<and> np_left fd (Some (link_uc fd uc (get_queue Q))) = uc_bytes uc \<and>
    other_queues_kept fd Q (Some (link_uc fd uc (get_queue Q)))"
proof -
  note l = link_uc_ok[of "get_queue Q" fd uc]
  have "pack_rep (link_uc fd uc (get_queue Q)) xs" using assms(1) by (simp add: np_ok_def pack_rep_def link_uc_def)
  with l assms show ?thesis
    by (auto simp: np_ok_def absent_def other_queues_kept_def np_left_get get_queue_def[of "Some _"])
qed

lemma be2: "be_bytes 2 n = [word_of_nat (n div 256 mod 256), word_of_nat (n mod 256)]"
  by (simp add: numeral_2_eq_2)

lemma byte_word: "(word_of_nat (unat b) :: u8) = b"
  by simp

lemma be2_read_size: "be_bytes 2 (read_size b0 b1) = [b0, b1]"
proof -
  have "unat b0 < 256" "unat b1 < 256" using unsigned_less[of b0] unsigned_less[of b1] by simp_all
  then show ?thesis by (simp add: be2 read_size_def)
qed

lemma read_size_less: "read_size b0 b1 < 65536"
proof -
  have "unat b0 < 256" "unat b1 < 256" using unsigned_less[of b0] unsigned_less[of b1] by simp_all
  then show ?thesis by (simp add: read_size_def)
qed

lemma unframe2_whole:
  assumes "n < 65536" "length p = n"
  shows "unframe 2 (be_bytes 2 n @ p @ rest) = (p # fst (unframe 2 rest), snd (unframe 2 rest))"
  using unframe_whole[of 2 "be_bytes 2 n" p rest] be_val_bytes[of n 2] assms by simp

lemma unframe2_part:
  assumes "n < 65536" "length p < n"
  shows "unframe 2 (be_bytes 2 n @ p) = ([], be_bytes 2 n @ p)"
  using unframe_partial[of 2 "be_bytes 2 n @ p"] be_val_bytes[of n 2] assms by simp

lemma save_header_ok:
  assumes "np_ok Q xs" "absent fd Q"
  shows "np_ok (save_uncomplete fd (fill_header b) Q) xs \<and> np_left fd (save_uncomplete fd (fill_header b) Q) = [b] \<and>
    other_queues_kept fd Q (save_uncomplete fd (fill_header b) Q)"
proof -
  let ?uc = "fill_header b \<lparr>uc_pack = \<lparr>np_id = fd, np_size = 0, np_buffer = []\<rparr>, uc_read = 0, uc_header = 0\<rparr>"
  have "uc_ok ?uc" "uc_id ?uc = fd" "uc_bytes ?uc = [b]"
    using unsigned_less[of b] by (simp_all add: uc_ok_def uc_id_def uc_bytes_def fill_header_def)
  with link_np_ok[OF assms, of ?uc] show ?thesis by (simp add: save_uncomplete_def)
qed

lemma save_part_ok:
  assumes "np_ok Q xs" "absent fd Q" "n < 65536" "length p < n"
  shows "np_ok (save_uncomplete fd (fill_part n p) Q) xs \<and>
    np_left fd (save_uncomplete fd (fill_part n p) Q) = be_bytes 2 n @ p \<and>
    other_queues_kept fd Q (save_uncomplete fd (fill_part n p) Q)"
proof -
  let ?uc = "fill_part n p \<lparr>uc_pack = \<lparr>np_id = fd, np_size = 0, np_buffer = []\<rparr>, uc_read = 0, uc_header = 0\<rparr>"
  have "uc_ok ?uc" "uc_id ?uc = fd" "uc_bytes ?uc = be_bytes 2 n @ p"
    using assms(3,4) by (simp_all add: uc_ok_def uc_id_def uc_bytes_def fill_part_def)
  with link_np_ok[OF assms(1,2), of ?uc] show ?thesis by (simp add: save_uncomplete_def)
qed

lemma push_more_ok:
  assumes "np_ok Q xs" "absent fd Q" "buffer \<noteq> []"
  shows "\<exists>Q'. push_more fd buffer Q = Some Q' \<and> np_ok Q' (xs @ map (pack_of fd) (fst (unframe 2 buffer))) \<and>
    np_left fd Q' = snd (unframe 2 buffer) \<and> other_queues_kept fd Q Q'"
  using assms
proof (induction "length buffer" arbitrary: buffer Q xs rule: less_induct)
  case less
  then consider b where "buffer = [b]" | b0 b1 rest where "buffer = b0 # b1 # rest"
    by (cases buffer rule: list.exhaust) (auto, metis list.exhaust)
  then show ?case
  proof cases
    case (1 b)
    then show ?thesis
      using save_header_ok[OF less.prems(1,2), of b] by (subst push_more.simps) (simp add: unframe_short)
  next
    case (2 b0 b1 rest)
    let ?n = "read_size b0 b1"
    have buf: "buffer = be_bytes 2 ?n @ rest" using 2 by (simp add: be2_read_size)
    show ?thesis
    proof (cases "length rest < ?n")
      case True
      then show ?thesis
        using save_part_ok[OF less.prems(1,2) read_size_less True] unframe2_part[OF read_size_less True] 2 buf
        by (subst push_more.simps) (simp add: Let_def)
    next
      case False
      let ?p = "take ?n rest" and ?r = "drop ?n rest"
      have uf: "unframe 2 buffer = (?p # fst (unframe 2 ?r), snd (unframe 2 ?r))"
        using unframe2_whole[OF read_size_less, of ?p b0 b1 ?r] False buf by simp
      obtain Q1 where Q1: "push_data fd ?p Q = Some Q1" "np_ok Q1 (xs @ [pack_of fd ?p])"
          "\<And>g. np_left g Q1 = np_left g Q" "\<And>g. absent g Q1 = absent g Q"
        using push_data_ok[OF less.prems(1)] by blast
      show ?thesis
      proof (cases "?r = []")
        case True
        then have "push_more fd buffer Q = Some Q1" using False 2 Q1(1) by (subst push_more.simps) (simp add: Let_def)
        then show ?thesis
          using True uf Q1 less.prems(2) absent_left[of fd Q] by (simp add: unframe_short other_queues_kept_def)
      next
        case nz: False
        have step: "push_more fd buffer Q = push_more fd ?r Q1"
          using False nz 2 Q1(1) by (subst push_more.simps) (auto simp: Let_def)
        have "length ?r < length buffer" using 2 by simp
        from less.hyps[OF this Q1(2) _ nz] Q1(4) less.prems(2) obtain Q' where
          "push_more fd ?r Q1 = Some Q'" "np_ok Q' ((xs @ [pack_of fd ?p]) @ map (pack_of fd) (fst (unframe 2 ?r)))"
          "np_left fd Q' = snd (unframe 2 ?r)" "other_queues_kept fd Q1 Q'" by blast
        then show ?thesis using step uf Q1(3) by (simp add: other_queues_kept_def)
      qed
    qed
  qed
qed

text \<open>What a call of \<open>filter_data\<close> has to do with the bytes \<open>bs\<close> of a socket, old and new.\<close>

definition filtered :: "i32 \<Rightarrow> u8 list \<Rightarrow> filter_result \<Rightarrow> queue option \<Rightarrow> bool" where
  "filtered fd bs r Q' \<longleftrightarrow>
     (let ps = fst (unframe 2 bs) in
      np_left fd Q' = snd (unframe 2 bs) \<and>
      (case r of
         RNothing \<Rightarrow> ps = [] \<and> np_ok Q' []
       | RData g p \<Rightarrow> g = fd \<and> ps = [p] \<and> np_ok Q' []
       | RMore \<Rightarrow> np_ok Q' (map (pack_of fd) ps)
       | _ \<Rightarrow> False))"

lemma fill_common:
  assumes ok: "np_ok (Some q) []" and ab: "absent fd (Some q)"
    and uc: "uc_id uc = fd" "np_size (uc_pack uc) = n" "np_buffer (uc_pack uc) = pre" "uc_read uc = int (length pre)"
    and n: "n < 65536" "length pre \<le> n"
  shows "\<exists>r Q'. fill_uncomplete fd uc buffer q = Some (r, Q') \<and>
    filtered fd (be_bytes 2 n @ pre @ buffer) r Q' \<and> other_queues_kept fd (Some q) Q'"
proof -
  have nonneg: "\<not> uc_read uc < 0" using uc(4) by simp
  let ?need = "n - length pre"
  show ?thesis
  proof (cases "length buffer < ?need")
    case True
    let ?uc = "uc\<lparr>uc_read := uc_read uc + int (length buffer),
         uc_pack := (uc_pack uc)\<lparr>np_buffer := np_buffer (uc_pack uc) @ buffer\<rparr>\<rparr>"
    have "uc_ok ?uc" "uc_id ?uc = fd" "uc_bytes ?uc = be_bytes 2 n @ pre @ buffer"
      using uc n True by (simp_all add: uc_ok_def uc_id_def uc_bytes_def)
    moreover have "fill_uncomplete fd uc buffer q = Some (RNothing, Some (link_uc fd ?uc q))"
      using nonneg uc True by (simp add: fill_uncomplete_def Let_def)
    moreover have "unframe 2 (be_bytes 2 n @ pre @ buffer) = ([], be_bytes 2 n @ pre @ buffer)"
      using unframe2_part[OF n(1), of "pre @ buffer"] True by simp
    ultimately show ?thesis using link_np_ok[OF ok ab, of ?uc] by (simp add: filtered_def get_queue_def)
  next
    case False
    let ?whole = "pre @ take ?need buffer" and ?rest = "drop ?need buffer"
    have "be_bytes 2 n @ pre @ buffer = be_bytes 2 n @ ?whole @ ?rest" by simp
    then have uf: "unframe 2 (be_bytes 2 n @ pre @ buffer) = (?whole # fst (unframe 2 ?rest), snd (unframe 2 ?rest))"
      using unframe2_whole[OF n(1), of ?whole ?rest] False n(2) by simp
    show ?thesis
    proof (cases "?rest = []")
      case True
      then have "fill_uncomplete fd uc buffer q = Some (RData fd ?whole, Some q)"
        using nonneg uc False by (simp add: fill_uncomplete_def Let_def)
      then show ?thesis using True uf ok absent_left[OF ab] by (simp add: filtered_def unframe_short other_queues_kept_def)
    next
      case nz: False
      obtain Q1 where Q1: "push_data fd ?whole (Some q) = Some Q1" "np_ok Q1 ([] @ [pack_of fd ?whole])"
          "\<And>g. np_left g Q1 = np_left g (Some q)" "\<And>g. absent g Q1 = absent g (Some q)"
        using push_data_ok[OF ok] by blast
      obtain Q2 where Q2: "push_more fd ?rest Q1 = Some Q2"
          "np_ok Q2 (([] @ [pack_of fd ?whole]) @ map (pack_of fd) (fst (unframe 2 ?rest)))"
          "np_left fd Q2 = snd (unframe 2 ?rest)" "other_queues_kept fd Q1 Q2"
        using push_more_ok[OF Q1(2) _ nz, of fd] Q1(4) ab by blast
      have "fill_uncomplete fd uc buffer q = Some (RMore, Q2)"
        using nonneg uc False nz Q1(1) Q2(1) by (simp add: fill_uncomplete_def Let_def)
      then show ?thesis using uf Q2 Q1(3) by (simp add: filtered_def other_queues_kept_def)
    qed
  qed
qed

lemma filter_data_ok:
  assumes ok: "np_ok Q []" and ne: "buffer \<noteq> []"
  shows "\<exists>r Q'. filter_data fd buffer Q = Some (r, Q') \<and> filtered fd (np_left fd Q @ buffer) r Q' \<and> other_queues_kept fd Q Q'"
proof -
  define q where "q = get_queue Q"
  let ?u = "fst (unlink_uc fd (q_hash q ! hash_fd fd))"
  have hq: "hash_ok q" "pack_rep q []" using ok by (auto simp: np_ok_def q_def)
  obtain q1 where q1: "find_uncomplete fd (Some q) = (?u, Some q1)" "hash_ok q1" "fd \<notin> uc_id ` set (q_hash q1 ! hash_fd fd)"
      "\<And>g. g \<noteq> fd \<Longrightarrow> np_left g (Some q1) = np_left g (Some q)" "\<And>xs. pack_rep q1 xs = pack_rep q xs" "?u = None \<Longrightarrow> q1 = q"
    using find_uncomplete_ok[OF hq(1), of fd] that by (elim exE conjE) metis
  have ok1: "np_ok (Some q1) []"
    using q1(2) hq(2) q1(5) by (simp add: np_ok_def get_queue_def)
  have ab1: "absent fd (Some q1)" using q1(3) by (simp add: absent_def get_queue_def)
  have lq: "np_left g (Some q) = np_left g Q" for g by (simp add: q_def np_left_get)
  have left: "np_left fd Q = (case ?u of None \<Rightarrow> [] | Some uc \<Rightarrow> uc_bytes uc)"
    by (simp add: np_left_def slot_left_fst q_def)
  show ?thesis
  proof (cases ?u)
    case None
    have abQ: "absent fd Q" using q1(3) q1(6)[OF None] by (simp add: absent_def q_def)
    have find: "find_uncomplete fd Q = (None, Q)"
      using None q1(1) q1(6)[OF None] by (cases Q) (auto simp: find_uncomplete_def q_def get_queue_def)
    have l0: "np_left fd Q = []" using left None by simp
    consider b where "buffer = [b]" | b0 b1 rest where "buffer = b0 # b1 # rest"
      using ne by (cases buffer rule: list.exhaust) (auto, metis list.exhaust)
    then show ?thesis
    proof cases
      case (1 b)
      then show ?thesis
        using save_header_ok[OF ok abQ, of b] find l0 by (simp add: filter_data_def filtered_def unframe_short)
    next
      case (2 b0 b1 rest)
      let ?n = "read_size b0 b1"
      have buf: "buffer = be_bytes 2 ?n @ rest" using 2 by (simp add: be2_read_size)
      consider "length rest < ?n" | "length rest = ?n" | "?n < length rest" by linarith
      then show ?thesis
      proof cases
        case lt: 1
        then show ?thesis
          using save_part_ok[OF ok abQ read_size_less lt] unframe2_part[OF read_size_less lt] 2 buf find l0
          by (simp add: filter_data_def filtered_def Let_def)
      next
        case eq: 2
        have "unframe 2 buffer = ([rest], [])"
          using unframe2_whole[OF read_size_less eq, of "[]"] buf by (simp add: unframe_short)
        then show ?thesis
          using eq 2 find l0 ok by (simp add: filter_data_def filtered_def Let_def other_queues_kept_def)
      next
        case gt: 3
        let ?p = "take ?n rest" and ?r = "drop ?n rest"
        have r: "?r \<noteq> []" using gt by simp
        have uf: "unframe 2 buffer = (?p # fst (unframe 2 ?r), snd (unframe 2 ?r))"
          using unframe2_whole[OF read_size_less, of ?p b0 b1 ?r] gt buf by simp
        obtain Q1 where Q1: "push_data fd ?p Q = Some Q1" "np_ok Q1 ([] @ [pack_of fd ?p])"
            "\<And>g. np_left g Q1 = np_left g Q" "\<And>g. absent g Q1 = absent g Q"
          using push_data_ok[OF ok] by blast
        obtain Q2 where Q2: "push_more fd ?r Q1 = Some Q2"
            "np_ok Q2 (([] @ [pack_of fd ?p]) @ map (pack_of fd) (fst (unframe 2 ?r)))"
            "np_left fd Q2 = snd (unframe 2 ?r)" "other_queues_kept fd Q1 Q2"
          using push_more_ok[OF Q1(2) _ r, of fd] Q1(4) abQ by blast
        have "filter_data fd buffer Q = Some (RMore, Q2)"
          using 2 gt find Q1(1) Q2(1) by (simp add: filter_data_def Let_def)
        then show ?thesis using uf Q2 Q1(3) l0 by (simp add: filtered_def other_queues_kept_def)
      qed
    qed
  next
    case (Some uc)
    have Q: "Q = Some q" using Some by (cases Q) (auto simp: q_def get_queue_def new_queue_def hash_fd_less)
    have mem: "uc \<in> set (q_hash q ! hash_fd fd)" "uc_id uc = fd" using unlink_uc_found[OF Some] by auto
    moreover have "q_hash q ! hash_fd fd \<in> set (q_hash q)" using hq(1) hash_fd_less by (simp add: hash_ok_def)
    ultimately have uok: "uc_ok uc" using hq(1) by (auto simp: hash_ok_def)
    have run: "filter_data fd buffer Q = fill_uncomplete fd uc buffer q1"
      using q1(1) Some Q by (simp add: filter_data_def)
    have "\<exists>r Q'. fill_uncomplete fd uc buffer q1 = Some (r, Q') \<and> filtered fd (uc_bytes uc @ buffer) r Q' \<and>
        other_queues_kept fd (Some q1) Q'"
    proof (cases "uc_read uc = - 1")
      case True
      obtain c cs where buf: "buffer = c # cs" using ne by (cases buffer) auto
      have h: "uc_header uc < 256" using uok True by (auto simp: uc_ok_def)
      let ?n = "uc_header uc * 256 + unat c"
      let ?uc = "uc\<lparr>uc_read := 0, uc_pack := (uc_pack uc)\<lparr>np_size := ?n, np_buffer := []\<rparr>\<rparr>"
      have c: "unat c < 256" using unsigned_less[of c] by simp
      have "be_bytes 2 ?n = [word_of_nat (uc_header uc), c]" using h c by (simp add: be2)
      moreover have "?n < 65536" using h c by simp
      moreover have "fill_uncomplete fd uc buffer q1 = fill_uncomplete fd ?uc cs q1"
        using True buf by (simp add: fill_uncomplete_def)
      ultimately show ?thesis
        using fill_common[OF ok1 ab1, of ?uc ?n "[]" cs] True buf mem(2) by (simp add: uc_bytes_def uc_id_def)
    next
      case False
      then have "uc_read uc = int (length (np_buffer (uc_pack uc)))" "length (np_buffer (uc_pack uc)) < np_size (uc_pack uc)"
          "np_size (uc_pack uc) < 65536" using uok by (auto simp: uc_ok_def)
      then show ?thesis
        using fill_common[OF ok1 ab1 mem(2) refl refl, of buffer] by (simp add: uc_bytes_def)
    qed
    then show ?thesis using run left Some q1(4) lq by (auto simp: other_queues_kept_def)
  qed
qed

section \<open>The packets a piece completes\<close>

text \<open>The Lua side takes every queued packet before it passes the next piece.\<close>

partial_function (option) pop_all :: "queue option \<Rightarrow> (netpack list \<times> queue option) option" where
  "pop_all Q = do {
     r \<leftarrow> lpop Q;
     case fst r of
       None \<Rightarrow> Some ([], snd r)
     | Some np \<Rightarrow> do { q \<leftarrow> pop_all (snd r); Some (np # fst q, snd q) } }"

definition data_message :: "i32 \<Rightarrow> u8 list \<Rightarrow> skynet_socket_message" where
  "data_message fd c = \<lparr>sm_type = SKYNET_SOCKET_TYPE_DATA, sm_id = sint fd, sm_ud = int (length c),
     sm_buffer = Some c, sm_padding = []\<rparr>"

definition np_feed :: "i32 \<Rightarrow> u8 list \<Rightarrow> queue option \<Rightarrow> (u8 list list \<times> queue option) option" where
  "np_feed fd c Q = do {
     r \<leftarrow> lfilter (data_message fd c) Q;
     case fst r of
       RData g p \<Rightarrow> Some ([p], snd r)
     | RMore \<Rightarrow> do { q \<leftarrow> pop_all (snd r); Some (map np_buffer (fst q), snd q) }
     | _ \<Rightarrow> Some ([], snd r) }"

lemma pop_all_ok:
  assumes "np_ok Q xs"
  shows "\<exists>Q'. pop_all Q = Some (xs, Q') \<and> np_ok Q' [] \<and> (\<forall>g. np_left g Q' = np_left g Q)"
  using assms
proof (induction xs arbitrary: Q)
  case Nil
  then have "lpop Q = Some (None, Q)"
    by (cases Q) (simp_all add: lpop_def np_ok_def get_queue_def pack_rep_empty)
  with Nil show ?case by (subst pop_all.simps) simp
next
  case (Cons x xs)
  then obtain q where q: "Q = Some q"
    using np_ok_new by (cases Q) (auto simp: np_ok_def get_queue_def new_queue_def pack_rep_def QUEUESIZE_def)
  then obtain q' where q': "pop_pack q = Some (Some x, q')" "pack_rep q' xs" "q_hash q' = q_hash q"
    using Cons.prems pack_rep_pop[of q x xs] by (auto simp: np_ok_def get_queue_def)
  then have "np_ok (Some q') xs" using Cons.prems q by (simp add: np_ok_def get_queue_def hash_ok_def)
  from Cons.IH[OF this] obtain Q' where "pop_all (Some q') = Some (xs, Q')" "np_ok Q' []"
    "\<forall>g. np_left g Q' = np_left g (Some q')" by blast
  then show ?case using q q' by (subst pop_all.simps) (simp add: lpop_def np_left_def get_queue_def)
qed

lemma np_feed_ok:
  assumes "np_ok Q []" "c \<noteq> []"
  shows "\<exists>Q'. np_feed fd c Q = Some (fst (unframe 2 (np_left fd Q @ c)), Q') \<and> np_ok Q' [] \<and>
    np_left fd Q' = snd (unframe 2 (np_left fd Q @ c)) \<and> other_queues_kept fd Q Q'"
proof -
  obtain r Q1 where r: "filter_data fd c Q = Some (r, Q1)" "filtered fd (np_left fd Q @ c) r Q1" "other_queues_kept fd Q Q1"
    using filter_data_ok[OF assms] by blast
  have run: "lfilter (data_message fd c) Q = Some (r, Q1)"
    using r(1) by (simp add: lfilter_def data_message_def)
  show ?thesis
  proof (cases r)
    case RMore
    then obtain Q' where "pop_all Q1 = Some (map (pack_of fd) (fst (unframe 2 (np_left fd Q @ c))), Q')" "np_ok Q' []"
        "\<forall>g. np_left g Q' = np_left g Q1"
      using r(2) pop_all_ok[of Q1] by (auto simp: filtered_def)
    then show ?thesis
      using RMore run r by (simp add: np_feed_def filtered_def other_queues_kept_def pack_of_def comp_def Let_def)
  qed (use run r in \<open>auto simp: np_feed_def filtered_def Let_def\<close>)
qed

interpretation netpack: framers 2 np_feed np_left "\<lambda>Q. np_ok Q []" UNIV "\<lambda>_. True" "\<lambda>_ p. p" "\<lambda>_. True"
proof unfold_locales
  fix Q fd and c :: "u8 list"
  assume "np_ok Q []" "c \<noteq> []"
  from np_feed_ok[OF this, of fd]
  show "\<exists>ps Q'. np_feed fd c Q = Some (map (\<lambda>p. p) (filter (\<lambda>_. True) ps), Q') \<and> np_ok Q' [] \<and>
      unframe 2 (np_left fd Q @ c) = (ps, np_left fd Q') \<and> (\<forall>j \<in> UNIV. j \<noteq> fd \<longrightarrow> np_left j Q' = np_left j Q)"
    by (auto simp: other_queues_kept_def)
qed simp_all

section \<open>Properties\<close>

lemma np_left_new: "np_left fd None = []"
  by (simp add: np_left_def get_queue_def new_queue_def slot_left_def hash_fd_less)

text \<open>
  C19. The packet filter is independent of how TCP cuts the streams and of how the pieces of
  several sockets are mixed: from an empty queue, every call returns, and the packets given for
  a socket are exactly those its byte stream holds, in order; what is not a whole packet yet is
  kept, and kept apart for every socket.
\<close>

theorem netpack_reassembles:
  assumes "\<forall>c \<in> set cs. snd c \<noteq> []"
  shows "\<exists>outs Q. feed_mix np_feed cs None = Some (outs, Q) \<and>
    (\<forall>fd. outs_of fd outs = fst (unframe 2 (stream_of fd cs)) \<and> np_left fd Q = snd (unframe 2 (stream_of fd cs)))"
  using netpack.feed_mix_unframe[OF np_ok_new, of cs] assms by (fastforce simp: np_left_new unframe_short)

theorem netpack_reassembles_witness:
  "\<exists>outs Q. feed_mix np_feed [(3, [0]), (4, [0, 1]), (3, [2, 65, 66, 0, 1]), (4, [70]), (3, [67])] None = Some (outs, Q) \<and>
    outs_of 3 outs = [[65, 66], [67]]"
proof -
  let ?cs = "[(3, [0]), (4, [0, 1]), (3, [2, 65, 66, 0, 1]), (4, [70]), (3, [67])] :: (i32 \<times> u8 list) list"
  have "\<forall>c \<in> set ?cs. snd c \<noteq> []" by simp
  moreover have "stream_of 3 ?cs = concat (map (frame 2) [[65, 66], [67]])"
    by (simp add: stream_of_def frame_def be2)
  moreover have "unframe 2 (concat (map (frame 2) [[65, 66], [67]])) = ([[65, 66], [67]], [])"
    by (rule unframe_frames) auto
  ultimately show ?thesis using netpack_reassembles[of ?cs] by (metis fst_conv)
qed

lemma lpack_frame: "length d < 65536 \<Longrightarrow> lpack d = Some (frame 2 d)"
proof -
  assume "length d < 65536"
  moreover have "(word_of_nat (length d) :: u8) = word_of_nat (length d mod 256)"
    unfolding word_unat_eq_iff unat_of_nat by simp
  ultimately show ?thesis by (simp add: lpack_def write_size_def frame_def be2)
qed

text \<open>
  Packing and filtering are inverse: messages shorter than 64K that one side packs, sent one
  after the other and cut into any pieces on the way, come out of the filter of the other side
  unchanged and in order, and nothing is left over; a longer message is refused.
\<close>

theorem netpack_roundtrip:
  assumes "\<forall>m \<in> set msgs. length m < 65536" "concat cs = concat (map (\<lambda>m. the (lpack m)) msgs)" "[] \<notin> set cs"
  shows "(\<exists>Q. feed_all (np_feed fd) cs None = Some (msgs, Q) \<and> np_left fd Q = []) \<and>
    (65536 \<le> length long \<longrightarrow> lpack long = None)"
proof -
  have eq: "map (\<lambda>m. the (lpack m)) msgs = map (frame 2) msgs" using assms(1) by (simp add: lpack_frame)
  have "unframe 2 (concat cs) = (msgs, [])" unfolding assms(2) eq using assms(1) by (intro unframe_frames) simp_all
  then show ?thesis
    using netpack.one.feed_all_unframe[of None fd cs] assms(3) np_ok_new np_left_new by (auto simp: unframe_short lpack_def)
qed

theorem netpack_roundtrip_witness:
  "\<exists>Q. feed_all (np_feed 9) [[0], [2, 65, 66, 0], [1, 67]] None = Some ([[65, 66], [67]], Q) \<and> np_left 9 Q = []"
proof -
  have "lpack [65, 66] = Some [0, 2, 65, 66]" "lpack [67] = Some [0, 1, 67]"
    by (simp_all add: lpack_def write_size_def)
  then have "concat [[0], [2, 65, 66, 0], [1, 67]] = concat (map (\<lambda>m. the (lpack m)) [[65, 66], [67]])" by simp
  from netpack_roundtrip[OF _ this, of 9 "[]"] show ?thesis by simp
qed

end
