(* ===== verification/Databuffer.thy ===== *)
theory Databuffer
  imports Framing "HOL-Library.Multiset"
begin

text \<open>
  The receive buffer of a gate connection (\<open>service-src/databuffer.h\<close>): the blocks the socket
  thread delivered, in order, read across their borders, and the pool the list nodes come from.
  The chain from \<open>head\<close> to \<open>tail\<close> is a list; a node is its number, \<open>1023 * b + i\<close> for entry \<open>i\<close>
  of block \<open>b\<close> of the pool, so that a node lost or used twice would show. The pointer \<open>tail\<close> is the
  last node of that list, so the two assertions about it (lines 52 and 117: no tail without a head, no successor
  of the tail) hold by the choice of the model and are left out. Lengths are the
  unbounded \<open>int\<close>, \<open>size\<close> of the code being good for 2 GB of bytes held back on one connection; the header is what
  32 bit arithmetic makes of its bytes.

  The lemmas show that reading gives the next bytes of the stream and gives back exactly the
  nodes it empties.
\<close>

section \<open>State\<close>

definition MESSAGEPOOL :: nat where "MESSAGEPOOL = 1023"

record message =
  m_node :: nat
  m_buffer :: "u8 list"
  m_size :: int

record databuffer =
  db_header :: int
  db_offset :: int
  db_size :: int
  db_chain :: "message list"

record messagepool =
  mp_pool :: nat
  mp_freelist :: "nat list"

definition databuffer_zero :: databuffer where
  "databuffer_zero = \<lparr>db_header = 0, db_offset = 0, db_size = 0, db_chain = []\<rparr>"

definition messagepool_zero :: messagepool where
  "messagepool_zero = \<lparr>mp_pool = 0, mp_freelist = []\<rparr>"

section \<open>Operations\<close>

definition messagepool_free :: "messagepool \<Rightarrow> messagepool" where
  "messagepool_free mp = mp\<lparr>mp_pool := 0, mp_freelist := []\<rparr>"

definition return_message :: "databuffer \<Rightarrow> messagepool \<Rightarrow> (databuffer \<times> messagepool) option" where
  "return_message db mp = (case db_chain db of
       [] \<Rightarrow> None
     | m # ms \<Rightarrow> Some (db\<lparr>db_chain := ms\<rparr>, mp\<lparr>mp_freelist := m_node m # mp_freelist mp\<rparr>))"

text \<open>The loop of \<open>databuffer_read\<close>: the bytes copied.\<close>

function read_loop :: "databuffer \<Rightarrow> messagepool \<Rightarrow> int \<Rightarrow> (u8 list \<times> databuffer \<times> messagepool) option" where
  "read_loop db mp sz = (case db_chain db of
       [] \<Rightarrow> None
     | current # ms \<Rightarrow>
         let bsz = m_size current - db_offset db in
         if sz < bsz then do {
           bs \<leftarrow> mem_read (m_buffer current) (db_offset db) sz;
           Some (bs, db\<lparr>db_offset := db_offset db + sz\<rparr>, mp) }
         else if bsz = sz then do {
           bs \<leftarrow> mem_read (m_buffer current) (db_offset db) sz;
           r \<leftarrow> return_message (db\<lparr>db_offset := 0\<rparr>) mp;
           Some (bs, r) }
         else do {
           bs \<leftarrow> mem_read (m_buffer current) (db_offset db) bsz;
           (db1, mp1) \<leftarrow> return_message db mp;
           r \<leftarrow> read_loop (db1\<lparr>db_offset := 0\<rparr>) mp1 (sz - bsz);
           Some (bs @ fst r, snd r) })"
  by pat_completeness auto
termination
  by (relation "measure (\<lambda>(db, mp, sz). length (db_chain db))") (auto simp: return_message_def)

declare read_loop.simps [simp del]

definition databuffer_read ::
  "databuffer \<Rightarrow> messagepool \<Rightarrow> int \<Rightarrow> (u8 list \<times> databuffer \<times> messagepool) option" where
  "databuffer_read db mp sz =
     (if db_size db < sz then None else read_loop (db\<lparr>db_size := db_size db - sz\<rparr>) mp sz)"

text \<open>A node of the pool: the first free one, or the first of a new block whose others become free.\<close>

definition new_message :: "messagepool \<Rightarrow> nat \<times> messagepool" where
  "new_message mp = (case mp_freelist mp of
       m # ms \<Rightarrow> (m, mp\<lparr>mp_freelist := ms\<rparr>)
     | [] \<Rightarrow> let base = MESSAGEPOOL * mp_pool mp
            in (base, mp\<lparr>mp_pool := mp_pool mp + 1, mp_freelist := [base + 1..<base + MESSAGEPOOL]\<rparr>))"

definition databuffer_push :: "databuffer \<Rightarrow> messagepool \<Rightarrow> u8 list \<Rightarrow> int \<Rightarrow> databuffer \<times> messagepool" where
  "databuffer_push db mp data sz =
     (let (m, mp1) = new_message mp
      in (db\<lparr>db_size := db_size db + sz,
             db_chain := db_chain db @ [\<lparr>m_node = m, m_buffer = data, m_size = sz\<rparr>]\<rparr>, mp1))"

text \<open>The header bytes as an \<open>int\<close>: with four of them the first bit is the sign.\<close>

definition header_int :: "int \<Rightarrow> u8 list \<Rightarrow> int" where
  "header_int header_size plen =
     (if header_size = 2
      then sint (push_bit 8 (ucast (plen ! 0)) OR ucast (plen ! 1) :: i32)
      else sint (push_bit 24 (ucast (plen ! 0)) OR push_bit 16 (ucast (plen ! 1)) OR
                 push_bit 8 (ucast (plen ! 2)) OR ucast (plen ! 3) :: i32))"

definition check_body :: "databuffer \<Rightarrow> messagepool \<Rightarrow> int \<times> databuffer \<times> messagepool" where
  "check_body db mp = (if db_size db < db_header db then -1 else db_header db, db, mp)"

definition databuffer_readheader ::
  "databuffer \<Rightarrow> messagepool \<Rightarrow> int \<Rightarrow> (int \<times> databuffer \<times> messagepool) option" where
  "databuffer_readheader db mp header_size =
     (if db_header db = 0 then
        if db_size db < header_size then Some (-1, db, mp)
        else do {
          (plen, db1, mp1) \<leftarrow> databuffer_read db mp header_size;
          Some (check_body (db1\<lparr>db_header := header_int header_size plen\<rparr>) mp1) }
      else Some (check_body db mp))"

definition databuffer_reset :: "databuffer \<Rightarrow> databuffer" where
  "databuffer_reset db = db\<lparr>db_header := 0\<rparr>"

function clear_loop :: "databuffer \<Rightarrow> messagepool \<Rightarrow> messagepool option" where
  "clear_loop db mp =
     (if db_chain db = [] then Some mp
      else do { (db1, mp1) \<leftarrow> return_message db mp; clear_loop db1 mp1 })"
  by pat_completeness auto
termination
  by (relation "measure (\<lambda>(db, mp). length (db_chain db))") (auto simp: return_message_def split: list.splits)

declare clear_loop.simps [simp del]

definition databuffer_clear :: "databuffer \<Rightarrow> messagepool \<Rightarrow> (databuffer \<times> messagepool) option" where
  "databuffer_clear db mp = do { mp1 \<leftarrow> clear_loop db mp; Some (databuffer_zero, mp1) }"

section \<open>What a buffer holds\<close>

definition m_bytes :: "message \<Rightarrow> u8 list" where
  "m_bytes m = take (nat (m_size m)) (m_buffer m)"

definition content :: "databuffer \<Rightarrow> u8 list" where
  "content db = drop (nat (db_offset db)) (concat (map m_bytes (db_chain db)))"

text \<open>The offset lies inside the first block, and every block has the bytes it announces.\<close>

definition chain_ok :: "databuffer \<Rightarrow> bool" where
  "chain_ok db \<longleftrightarrow> 0 \<le> db_offset db \<and>
     (\<forall>m \<in> set (db_chain db). 0 \<le> m_size m \<and> m_size m \<le> int (length (m_buffer m))) \<and>
     (case db_chain db of [] \<Rightarrow> db_offset db = 0 | m # _ \<Rightarrow> db_offset db \<le> m_size m)"

definition db_ok :: "databuffer \<Rightarrow> bool" where
  "db_ok db \<longleftrightarrow> chain_ok db \<and> db_size db = int (length (content db))"

definition nodes :: "databuffer \<Rightarrow> nat multiset" where
  "nodes db = mset (map m_node (db_chain db))"

definition mp_nodes :: "messagepool \<Rightarrow> nat multiset" where
  "mp_nodes mp = mset [0..<MESSAGEPOOL * mp_pool mp]"

text \<open>An operation on one buffer keeps the balance of nodes: those in the buffer and the free ones, against those allocated.\<close>

definition balanced :: "databuffer \<Rightarrow> messagepool \<Rightarrow> databuffer \<Rightarrow> messagepool \<Rightarrow> bool" where
  "balanced db mp db' mp' \<longleftrightarrow>
     nodes db' + mset (mp_freelist mp') + mp_nodes mp = nodes db + mset (mp_freelist mp) + mp_nodes mp'"

lemma balanced_refl [simp]: "balanced db mp db mp"
  by (simp add: balanced_def)

lemma balanced_trans: "balanced a p b q \<Longrightarrow> balanced b q c r \<Longrightarrow> balanced a p c r"
  unfolding balanced_def multiset_eq_iff count_union
  apply (rule allI)
  subgoal for x by (drule spec[of _ x], drule spec[of _ x]) presburger
  done

section \<open>Reading\<close>

lemma length_m_bytes: "0 \<le> m_size m \<Longrightarrow> m_size m \<le> int (length (m_buffer m)) \<Longrightarrow> int (length (m_bytes m)) = m_size m"
  by (simp add: m_bytes_def)

lemma mem_read_m_bytes:
  assumes "0 \<le> off" "0 \<le> n" "off + n \<le> m_size m" "m_size m \<le> int (length (m_buffer m))"
  shows "mem_read (m_buffer m) off n = Some (take (nat n) (drop (nat off) (m_bytes m)))"
proof -
  have "take (nat n) (drop (nat off) (m_buffer m)) = take (nat n) (drop (nat off) (m_bytes m))"
    using assms by (simp add: m_bytes_def drop_take min_def nat_le_iff)
  then show ?thesis using assms by (simp add: mem_read_def)
qed

lemma content_Cons:
  assumes "db_chain db = m # ms" "chain_ok db"
  shows "content db = drop (nat (db_offset db)) (m_bytes m) @ concat (map m_bytes ms)"
    "int (length (drop (nat (db_offset db)) (m_bytes m))) = m_size m - db_offset db"
  using assms length_m_bytes[of m] by (auto simp: content_def chain_ok_def)

lemma chain_ok_next: "chain_ok db \<Longrightarrow> db_chain db = m # ms \<Longrightarrow> chain_ok (db\<lparr>db_chain := ms, db_offset := 0\<rparr>)"
  by (auto simp: chain_ok_def split: list.splits)

lemma read_loop_ok:
  assumes "chain_ok db" "0 < sz" "sz \<le> int (length (content db))"
  shows "\<exists>db' mp'. read_loop db mp sz = Some (take (nat sz) (content db), db', mp') \<and> chain_ok db' \<and>
    content db' = drop (nat sz) (content db) \<and> db_header db' = db_header db \<and> db_size db' = db_size db \<and>
    balanced db mp db' mp'"
  using assms
proof (induction db mp sz rule: read_loop.induct)
  case (1 db mp sz)
  show ?case
  proof (cases "db_chain db")
    case Nil
    with 1 show ?thesis by (simp add: content_def)
  next
    case (Cons m ms)
    let ?bsz = "m_size m - db_offset db"
    let ?now = "drop (nat (db_offset db)) (m_bytes m)"
    let ?next = "db\<lparr>db_chain := ms, db_offset := 0\<rparr>"
    let ?mp = "mp\<lparr>mp_freelist := m_node m # mp_freelist mp\<rparr>"
    note c = content_Cons[OF Cons 1(2)]
    have ok: "0 \<le> db_offset db" "0 \<le> m_size m" "m_size m \<le> int (length (m_buffer m))" "db_offset db \<le> m_size m"
      using 1(2) Cons by (auto simp: chain_ok_def)
    note rd = mem_read_m_bytes[OF ok(1) _ _ ok(3)]
    have bal: "balanced db mp ?next ?mp"
      using Cons by (simp add: balanced_def nodes_def mp_nodes_def)
    consider "sz < ?bsz" | "sz = ?bsz" | "?bsz < sz" by linarith
    then show ?thesis
    proof cases
      case a: 1
      have "content (db\<lparr>db_offset := db_offset db + sz\<rparr>) = drop (nat sz) (content db)"
        using 1(3) ok(1) by (simp add: content_def nat_add_distrib add.commute)
      moreover have "take (nat sz) (content db) = take (nat sz) ?now" using a c 1(3) by simp
      moreover have "chain_ok (db\<lparr>db_offset := db_offset db + sz\<rparr>)"
        using 1(2,3) Cons a by (simp add: chain_ok_def)
      ultimately show ?thesis using a 1(3) Cons rd[of sz] ok
        by (subst read_loop.simps) (simp add: Let_def balanced_def nodes_def)
    next
      case a: 2
      have "take (nat sz) ?now = ?now" "take (nat sz) (content db) = ?now" "drop (nat sz) (content db) = content ?next"
        using a c by (simp_all add: content_def)
      moreover have "return_message (db\<lparr>db_offset := 0\<rparr>) mp = Some (?next, ?mp)" using Cons by (simp add: return_message_def)
      ultimately show ?thesis using a 1(3) Cons rd[of sz] ok bal chain_ok_next[OF 1(2) Cons]
        by (subst read_loop.simps) (simp add: Let_def)
    next
      case a: 3
      have rd': "mem_read (m_buffer m) (db_offset db) ?bsz = Some ?now"
        using rd[of ?bsz] ok c(2) by simp
      have "content db = ?now @ content ?next" using c(1) by (simp add: content_def)
      moreover have "nat ?bsz = length ?now" using c(2) by (metis nat_int)
      ultimately have dr: "drop (nat sz) (content db) = drop (nat (sz - ?bsz)) (content ?next)"
          "take (nat sz) (content db) = ?now @ take (nat (sz - ?bsz)) (content ?next)"
          "sz - ?bsz \<le> int (length (content ?next))"
        using c(2) a 1(4) by (simp_all add: nat_diff_distrib)
      obtain db' mp' where r: "read_loop ?next ?mp (sz - ?bsz) = Some (take (nat (sz - ?bsz)) (content ?next), db', mp')"
          "chain_ok db'" "content db' = drop (nat (sz - ?bsz)) (content ?next)"
          "db_header db' = db_header ?next" "db_size db' = db_size ?next" "balanced ?next ?mp db' mp'"
        using 1(1)[OF Cons refl _ _ rd', of "(db\<lparr>db_chain := ms\<rparr>, ?mp)" "db\<lparr>db_chain := ms\<rparr>" ?mp]
          a dr(3) chain_ok_next[OF 1(2) Cons] Cons by (auto simp: return_message_def)
      have "read_loop db mp sz = Some (take (nat sz) (content db), db', mp')"
        using a Cons rd' r(1) dr(2) by (subst read_loop.simps) (simp add: Let_def return_message_def)
      then show ?thesis using r dr(1) balanced_trans[OF bal r(6)] by simp
    qed
  qed
qed

lemma databuffer_read_ok:
  assumes "db_ok db" "0 < sz" "sz \<le> db_size db"
  shows "\<exists>db' mp'. databuffer_read db mp sz = Some (take (nat sz) (content db), db', mp') \<and> db_ok db' \<and>
    content db' = drop (nat sz) (content db) \<and> db_header db' = db_header db \<and> balanced db mp db' mp'"
proof -
  let ?db = "db\<lparr>db_size := db_size db - sz\<rparr>"
  have c: "content ?db = content db" "chain_ok ?db" "\<And>x y. balanced ?db mp x y = balanced db mp x y"
    using assms(1) by (auto simp: content_def db_ok_def chain_ok_def balanced_def nodes_def split: list.splits)
  obtain db' mp' where r: "read_loop ?db mp sz = Some (take (nat sz) (content db), db', mp')" "chain_ok db'"
      "content db' = drop (nat sz) (content db)" "db_header db' = db_header db" "db_size db' = db_size db - sz"
      "balanced db mp db' mp'"
    using read_loop_ok[OF c(2) assms(2), of mp] assms c by (auto simp: db_ok_def)
  moreover have "db_ok db'" using r(2,3,5) assms by (simp add: db_ok_def)
  ultimately show ?thesis using assms(3) by (simp add: databuffer_read_def)
qed

section \<open>Pushing and clearing\<close>

lemma new_message_nodes:
  "new_message mp = (m, mp') \<Longrightarrow> {#m#} + mset (mp_freelist mp') + mp_nodes mp = mset (mp_freelist mp) + mp_nodes mp'"
proof (cases "mp_freelist mp")
  case Nil
  let ?b = "MESSAGEPOOL * mp_pool mp"
  assume "new_message mp = (m, mp')"
  then have m: "m = ?b" "mp' = mp\<lparr>mp_pool := mp_pool mp + 1, mp_freelist := [?b + 1..<?b + MESSAGEPOOL]\<rparr>"
    using Nil by (auto simp: new_message_def Let_def)
  have "[0..<MESSAGEPOOL * (mp_pool mp + 1)] = [0..<?b] @ [?b..<?b + MESSAGEPOOL]"
    using upt_add_eq_append[of 0 ?b MESSAGEPOOL] by (simp only: distrib_left mult_1_right zero_le)
  moreover have "[?b..<?b + MESSAGEPOOL] = ?b # [?b + 1..<?b + MESSAGEPOOL]"
    by (rule upt_conv_Cons[THEN trans]) (simp_all add: MESSAGEPOOL_def del: upt_Suc)
  ultimately have "mp_nodes mp' = mp_nodes mp + {#?b#} + mset [?b + 1..<?b + MESSAGEPOOL]"
    using m(2) by (simp add: mp_nodes_def del: upt_Suc)
  then show ?thesis using m Nil by (simp del: upt_Suc)
qed (auto simp: new_message_def mp_nodes_def)

lemma databuffer_push_ok:
  assumes "db_ok db" "0 \<le> sz" "sz \<le> int (length data)" "databuffer_push db mp data sz = (db', mp')"
  shows "db_ok db'" "content db' = content db @ take (nat sz) data" "db_header db' = db_header db" "balanced db mp db' mp'"
proof -
  obtain m mp1 where m: "new_message mp = (m, mp1)" by fastforce
  let ?m = "\<lparr>m_node = m, m_buffer = data, m_size = sz\<rparr>"
  have db': "db' = db\<lparr>db_size := db_size db + sz, db_chain := db_chain db @ [?m]\<rparr>" "mp' = mp1"
    using assms(4) m by (simp_all add: databuffer_push_def)
  have "nat (db_offset db) \<le> length (concat (map m_bytes (db_chain db)))"
    using assms(1) length_m_bytes by (fastforce simp: db_ok_def chain_ok_def split: list.splits)
  then show c: "content db' = content db @ take (nat sz) data"
    unfolding db' content_def by (simp add: m_bytes_def)
  have "chain_ok db'" using assms unfolding db' db_ok_def chain_ok_def by (auto split: list.splits)
  then show "db_ok db'" using assms(1-3) c db' by (auto simp: db_ok_def min_def)
  show "db_header db' = db_header db" using db' by simp
  show "balanced db mp db' mp'"
    using new_message_nodes[OF m] unfolding db' balanced_def nodes_def by (simp add: add.assoc add.left_commute)
qed

lemma clear_loop_ok:
  "\<exists>mp'. clear_loop db mp = Some mp' \<and> mset (mp_freelist mp') = nodes db + mset (mp_freelist mp) \<and> mp_pool mp' = mp_pool mp"
proof (induction db mp rule: clear_loop.induct)
  case (1 db mp)
  show ?case
  proof (cases "db_chain db")
    case Nil
    then show ?thesis by (subst clear_loop.simps) (simp add: nodes_def)
  next
    case (Cons m ms)
    let ?db = "db\<lparr>db_chain := ms\<rparr>" and ?mp = "mp\<lparr>mp_freelist := m_node m # mp_freelist mp\<rparr>"
    have rt: "return_message db mp = Some (?db, ?mp)" using Cons by (simp add: return_message_def)
    with 1[of "(?db, ?mp)" ?db ?mp] Cons show ?thesis
      by (subst clear_loop.simps) (auto simp: nodes_def)
  qed
qed

lemma databuffer_clear_ok:
  "\<exists>mp'. databuffer_clear db mp = Some (databuffer_zero, mp') \<and> balanced db mp databuffer_zero mp'"
proof -
  obtain mp' where "clear_loop db mp = Some mp'" "mset (mp_freelist mp') = nodes db + mset (mp_freelist mp)"
    "mp_pool mp' = mp_pool mp" using clear_loop_ok by blast
  then show ?thesis by (simp add: databuffer_clear_def balanced_def nodes_def databuffer_zero_def mp_nodes_def)
qed

lemma db_ok_zero: "db_ok databuffer_zero" and content_zero: "content databuffer_zero = []"
  by (simp_all add: db_ok_def chain_ok_def content_def databuffer_zero_def)

end
