(* ===== verification/Hashid.thy ===== *)
theory Hashid
  imports Prelude
begin

text \<open>
  The table from socket ids to connection slots of the gate (\<open>service-src/hashid.h\<close>): an array
  of nodes whose index is the slot, and hash chains through their \<open>next\<close> pointers. A pointer to
  a node is its index. Ids are C ints; \<open>hashid_insert\<close> probes from \<open>id % cap\<close>, and the sum
  \<open>i + id\<close> is taken at 32 bits, where it can wrap.

  The code has no guard against an id for which the sum wraps (then the index may be negative, \<open>None\<close> here) nor against
  one that is in the table already (then the table gets a second node for it). The theorems on \<open>hashid_insert\<close> ask for ids
  within \<open>2 ^ 31 - cap\<close> that are new, as the socket server gives them out; \<open>fits_table\<close> and \<open>table_step\<close> carry these conditions.

  The table refines a partial map from ids to slots (\<open>idmap\<close>): lookup reads it, insert binds the
  id to a slot no other id has, remove unbinds it.
\<close>

section \<open>State\<close>

record hashid_node =
  hn_id :: int
  hn_next :: "nat option"

record hashid =
  hi_hashmod :: int
  hi_cap :: int
  hi_count :: int
  hi_id :: "hashid_node list"
  hi_hash :: "nat option list"

section \<open>Operations\<close>

partial_function (option) hashcap_loop :: "i32 \<Rightarrow> int \<Rightarrow> i32 option" where
  "hashcap_loop hashcap cap =
     (if sint hashcap < cap then hashcap_loop (hashcap * 2) cap else Some hashcap)"

declare hashcap_loop.simps [code]

definition hashid_init :: "int \<Rightarrow> hashid option" where
  "hashid_init cap = do {
     hashcap \<leftarrow> hashcap_loop 16 cap;
     Some \<lparr>hi_hashmod = sint hashcap - 1, hi_cap = cap, hi_count = 0,
           hi_id = replicate (nat cap) \<lparr>hn_id = -1, hn_next = None\<rparr>,
           hi_hash = replicate (nat (sint hashcap)) None\<rparr> }"

definition hashid_clear :: "hashid \<Rightarrow> hashid" where
  "hashid_clear hi = hi\<lparr>hi_id := [], hi_hash := [], hi_hashmod := 1, hi_cap := 0, hi_count := 0\<rparr>"

text \<open>The bucket of an id and the node a pointer leads to; outside the arrays there is nothing to read.\<close>

definition bucket :: "hashid \<Rightarrow> int \<Rightarrow> nat option" where
  "bucket hi uid =
     (let h = uid AND hi_hashmod hi
      in if 0 \<le> h \<and> h < int (length (hi_hash hi)) then Some (nat h) else None)"

definition node_at :: "hashid \<Rightarrow> nat \<Rightarrow> hashid_node option" where
  "node_at hi i = (if i < length (hi_id hi) then Some (hi_id hi ! i) else None)"

partial_function (option) lookup_loop :: "hashid \<Rightarrow> int \<Rightarrow> nat option \<Rightarrow> int option" where
  "lookup_loop hi uid p = (case p of
       None \<Rightarrow> Some (-1)
     | Some c \<Rightarrow> do {
         n \<leftarrow> node_at hi c;
         if hn_id n = uid then Some (int c) else lookup_loop hi uid (hn_next n) })"

declare lookup_loop.simps [code]

definition hashid_lookup :: "hashid \<Rightarrow> int \<Rightarrow> int option" where
  "hashid_lookup hi uid = do { h \<leftarrow> bucket hi uid; lookup_loop hi uid (hi_hash hi ! h) }"

text \<open>The node before the one with the id, and that one.\<close>

partial_function (option) remove_loop :: "hashid \<Rightarrow> int \<Rightarrow> nat \<Rightarrow> (nat \<times> nat) option option" where
  "remove_loop hi uid c = do {
     n \<leftarrow> node_at hi c;
     case hn_next n of
       None \<Rightarrow> Some None
     | Some d \<Rightarrow> do {
         m \<leftarrow> node_at hi d;
         if hn_id m = uid then Some (Some (c, d)) else remove_loop hi uid d } }"

declare remove_loop.simps [code]

definition clear_node :: "nat \<Rightarrow> hashid \<Rightarrow> int \<times> hashid" where
  "clear_node c hi =
     (int c, hi\<lparr>hi_id := (hi_id hi)[c := \<lparr>hn_id = -1, hn_next = None\<rparr>], hi_count := hi_count hi - 1\<rparr>)"

definition hashid_remove :: "hashid \<Rightarrow> int \<Rightarrow> (int \<times> hashid) option" where
  "hashid_remove hi uid = do {
     h \<leftarrow> bucket hi uid;
     case hi_hash hi ! h of
       None \<Rightarrow> Some (-1, hi)
     | Some c \<Rightarrow> do {
         n \<leftarrow> node_at hi c;
         if hn_id n = uid then Some (clear_node c (hi\<lparr>hi_hash := (hi_hash hi)[h := hn_next n]\<rparr>))
         else do {
           r \<leftarrow> remove_loop hi uid c;
           case r of
             None \<Rightarrow> Some (-1, hi)
           | Some (p, temp) \<Rightarrow>
               Some (clear_node temp
                 (hi\<lparr>hi_id := (hi_id hi)[p := (hi_id hi ! p)\<lparr>hn_next := hn_next (hi_id hi ! temp)\<rparr>]\<rparr>)) } } }"

text \<open>C's remainder, and the index probed at step \<open>i\<close>.\<close>

definition c_rem :: "int \<Rightarrow> int \<Rightarrow> int" where
  "c_rem a b = (if 0 \<le> a then a mod b else - ((- a) mod b))"

definition probe :: "hashid \<Rightarrow> int \<Rightarrow> int \<Rightarrow> int" where
  "probe hi uid i = c_rem (sint (word_of_int (i + uid) :: i32)) (hi_cap hi)"

function find_free :: "hashid \<Rightarrow> int \<Rightarrow> int \<Rightarrow> nat option" where
  "find_free hi uid i =
     (if i < hi_cap hi then
        let index = probe hi uid i in
        if index < 0 \<or> int (length (hi_id hi)) \<le> index then None
        else if hn_id (hi_id hi ! nat index) = -1 then Some (nat index)
        else find_free hi uid (i + 1)
      else None)"
  by pat_completeness auto
termination by (relation "measure (\<lambda>(hi, uid, i). nat (hi_cap hi - i))") auto

declare find_free.simps [simp del]

definition hashid_insert :: "hashid \<Rightarrow> int \<Rightarrow> (int \<times> hashid) option" where
  "hashid_insert hi uid = do {
     c \<leftarrow> find_free hi uid 0;
     if hn_next (hi_id hi ! c) \<noteq> None then None
     else do {
       h \<leftarrow> bucket hi uid;
       Some (int c,
         hi\<lparr>hi_count := hi_count hi + 1,
            hi_id := (hi_id hi)[c := \<lparr>hn_id = uid, hn_next = hi_hash hi ! h\<rparr>],
            hi_hash := (hi_hash hi)[h := Some c]\<rparr>) } }"

definition hashid_full :: "hashid \<Rightarrow> bool" where
  "hashid_full hi \<longleftrightarrow> hi_count hi = hi_cap hi"

section \<open>Chains\<close>

fun lchain :: "hashid_node list \<Rightarrow> nat option \<Rightarrow> nat list \<Rightarrow> bool" where
  "lchain ns p [] \<longleftrightarrow> p = None"
| "lchain ns p (i # ks) \<longleftrightarrow> p = Some i \<and> i < length ns \<and> lchain ns (hn_next (ns ! i)) ks"

lemma lchain_update: "i \<notin> set ks \<Longrightarrow> lchain (ns[i := n]) p ks = lchain ns p ks"
  by (induction ks arbitrary: p) auto

lemma lchain_bound: "lchain ns p ks \<Longrightarrow> i \<in> set ks \<Longrightarrow> i < length ns"
  by (induction ks arbitrary: p) auto

lemma lookup_loop_ok:
  "lchain (hi_id hi) p ks \<Longrightarrow> lookup_loop hi uid p =
     Some (case find (\<lambda>i. hn_id (hi_id hi ! i) = uid) ks of None \<Rightarrow> -1 | Some i \<Rightarrow> int i)"
  by (induction ks arbitrary: p) (subst lookup_loop.simps, simp add: node_at_def)+

lemma remove_loop_ok:
  assumes "lchain (hi_id hi) (Some c) (c # ks)"
  shows "remove_loop hi uid c =
    Some (case dropWhile (\<lambda>i. hn_id (hi_id hi ! i) \<noteq> uid) ks of
        [] \<Rightarrow> None
      | d # _ \<Rightarrow> Some (last (c # takeWhile (\<lambda>i. hn_id (hi_id hi ! i) \<noteq> uid) ks), d))"
  using assms
proof (induction ks arbitrary: c)
  case (Cons d ks)
  then show ?case
    by (subst remove_loop.simps, cases "hn_id (hi_id hi ! d) = uid") (simp_all add: node_at_def cong: list.case_cong)
qed (subst remove_loop.simps, simp add: node_at_def)

lemma lchain_unlink:
  assumes "lchain ns p (ys @ c # d # zs)" "distinct (ys @ c # d # zs)"
  shows "lchain (ns[c := (ns ! c)\<lparr>hn_next := hn_next (ns ! d)\<rparr>]) p (ys @ c # zs)"
  using assms by (induction ys arbitrary: p) (auto simp: lchain_update)

section \<open>Invariant\<close>

definition chains :: "hashid \<Rightarrow> (nat \<Rightarrow> nat list) \<Rightarrow> bool" where
  "chains hi f \<longleftrightarrow> (\<forall>h < length (hi_hash hi).
     lchain (hi_id hi) (hi_hash hi ! h) (f h) \<and> distinct (f h) \<and>
     (\<forall>i. i \<in> set (f h) \<longleftrightarrow> i < length (hi_id hi) \<and> hn_id (hi_id hi ! i) \<noteq> -1 \<and>
        bucket hi (hn_id (hi_id hi ! i)) = Some h))"

definition used :: "hashid \<Rightarrow> nat set" where
  "used hi = {i. i < length (hi_id hi) \<and> hn_id (hi_id hi ! i) \<noteq> -1}"

definition hashid_ok :: "hashid \<Rightarrow> bool" where
  "hashid_ok hi \<longleftrightarrow>
     hi_cap hi = int (length (hi_id hi)) \<and>
     (\<exists>k. hi_hashmod hi = 2 ^ k - 1 \<and> length (hi_hash hi) = 2 ^ k) \<and>
     (\<exists>f. chains hi f) \<and>
     (\<forall>i < length (hi_id hi). hn_id (hi_id hi ! i) = -1 \<longrightarrow> hn_next (hi_id hi ! i) = None) \<and>
     inj_on (\<lambda>i. hn_id (hi_id hi ! i)) (used hi) \<and>
     hi_count hi = int (card (used hi))"

text \<open>The map the table stands for.\<close>

definition idmap :: "hashid \<Rightarrow> int \<Rightarrow> nat option" where
  "idmap hi uid =
     (if uid = -1 then None else find (\<lambda>i. hn_id (hi_id hi ! i) = uid) [0..<length (hi_id hi)])"

lemma bucket_ok: "hashid_ok hi \<Longrightarrow> \<exists>h. bucket hi uid = Some h \<and> h < length (hi_hash hi)"
proof -
  assume "hashid_ok hi"
  then obtain k where k: "hi_hashmod hi = 2 ^ k - 1" "length (hi_hash hi) = 2 ^ k" by (auto simp: hashid_ok_def)
  have "uid AND hi_hashmod hi = uid mod 2 ^ k"
    unfolding k(1) by (simp add: mask_eq_exp_minus_1[symmetric] take_bit_eq_mask[symmetric] take_bit_eq_mod)
  then show ?thesis using k(2) by (auto simp: bucket_def nat_less_iff)
qed

lemma idmap_Some_iff:
  assumes "hashid_ok hi"
  shows "idmap hi uid = Some i \<longleftrightarrow> i \<in> used hi \<and> hn_id (hi_id hi ! i) = uid"
proof
  assume "idmap hi uid = Some i"
  then show "i \<in> used hi \<and> hn_id (hi_id hi ! i) = uid"
    by (auto simp: idmap_def find_Some_iff used_def split: if_splits)
next
  assume r: "i \<in> used hi \<and> hn_id (hi_id hi ! i) = uid"
  then have "find (\<lambda>i. hn_id (hi_id hi ! i) = uid) [0..<length (hi_id hi)] \<noteq> None"
    by (auto simp: find_None_iff used_def)
  then obtain j where j: "find (\<lambda>i. hn_id (hi_id hi ! i) = uid) [0..<length (hi_id hi)] = Some j" by blast
  then have "j \<in> used hi" "hn_id (hi_id hi ! j) = uid" using r by (auto simp: find_Some_iff used_def)
  then have "j = i" using assms r by (auto simp: hashid_ok_def inj_on_def)
  then show "idmap hi uid = Some i" using j r by (auto simp: idmap_def used_def)
qed

lemma idmap_eqI:
  assumes "hashid_ok hi" "\<And>uid i. m uid = Some i \<longleftrightarrow> i \<in> used hi \<and> hn_id (hi_id hi ! i) = uid"
  shows "idmap hi = m"
proof
  fix uid
  show "idmap hi uid = m uid"
    using idmap_Some_iff[OF assms(1), of uid] assms(2)[of uid] by (metis option.exhaust)
qed

section \<open>The operations refine a map\<close>

lemma hashid_lookup_ok:
  assumes "hashid_ok hi"
  shows "hashid_lookup hi uid = Some (case idmap hi uid of None \<Rightarrow> -1 | Some i \<Rightarrow> int i)"
proof -
  obtain f where f: "chains hi f" using assms by (auto simp: hashid_ok_def)
  obtain h where h: "bucket hi uid = Some h" "h < length (hi_hash hi)" using bucket_ok[OF assms] by blast
  have c: "lchain (hi_id hi) (hi_hash hi ! h) (f h)"
    "\<And>i. i \<in> set (f h) \<longleftrightarrow> i \<in> used hi \<and> bucket hi (hn_id (hi_id hi ! i)) = Some h"
    using f h(2) by (auto simp: chains_def used_def)
  have "find (\<lambda>i. hn_id (hi_id hi ! i) = uid) (f h) = idmap hi uid"
  proof (cases "find (\<lambda>i. hn_id (hi_id hi ! i) = uid) (f h)")
    case None
    then have "idmap hi uid \<noteq> Some i" for i
      using idmap_Some_iff[OF assms] c(2) h(1) by (auto simp: find_None_iff)
    with None show ?thesis by (cases "idmap hi uid") auto
  next
    case (Some i)
    then have "i \<in> set (f h)" "hn_id (hi_id hi ! i) = uid" by (auto simp: find_Some_iff in_set_conv_nth)
    then have "idmap hi uid = Some i" using idmap_Some_iff[OF assms] c(2) by simp
    with Some show ?thesis by simp
  qed
  then show ?thesis using lookup_loop_ok[OF c(1)] h(1) by (simp add: hashid_lookup_def)
qed

text \<open>A table whose node \<open>c\<close> was emptied, given its chains.\<close>

lemma cleared_ok:
  assumes ok: "hashid_ok hi" and c: "idmap hi uid = Some c" and h: "bucket hi uid = Some h" "h < length (hi_hash hi)"
    and f: "chains hi f"
    and hi': "hi_cap hi' = hi_cap hi" "hi_hashmod hi' = hi_hashmod hi" "hi_count hi' = hi_count hi - 1"
      "length (hi_id hi') = length (hi_id hi)" "length (hi_hash hi') = length (hi_hash hi)"
      "\<And>i. i < length (hi_id hi) \<Longrightarrow> hn_id (hi_id hi' ! i) = (if i = c then -1 else hn_id (hi_id hi ! i))"
      "\<And>i. i < length (hi_id hi) \<Longrightarrow> hn_id (hi_id hi' ! i) = -1 \<Longrightarrow> hn_next (hi_id hi' ! i) = None"
      "\<And>g. g < length (hi_hash hi) \<Longrightarrow> g \<noteq> h \<Longrightarrow> lchain (hi_id hi') (hi_hash hi' ! g) (f g)"
      "lchain (hi_id hi') (hi_hash hi' ! h) ks" "set ks = set (f h) - {c}" "distinct ks"
  shows "hashid_ok hi' \<and> idmap hi' = (idmap hi)(uid := None)"
proof -
  have cu: "c \<in> used hi" "hn_id (hi_id hi ! c) = uid" using c idmap_Some_iff[OF ok] by auto
  have u: "used hi' = used hi - {c}" using hi'(4,6) by (auto simp: used_def split: if_splits)
  have b: "bucket hi' x = bucket hi x" for x using hi'(2,5) by (simp add: bucket_def)
  have "chains hi' (f(h := ks))"
    unfolding chains_def
  proof (intro allI impI conjI)
    fix g i
    assume g: "g < length (hi_hash hi')"
    then have fg: "distinct (f g)" "\<And>i. i \<in> set (f g) \<longleftrightarrow> i \<in> used hi \<and> bucket hi (hn_id (hi_id hi ! i)) = Some g"
      using f hi'(5) by (auto simp: chains_def used_def)
    show "lchain (hi_id hi') (hi_hash hi' ! g) ((f(h := ks)) g)" "distinct ((f(h := ks)) g)"
      using g hi'(5,8,9,11) fg(1) by auto
    have "i \<in> set ((f(h := ks)) g) \<longleftrightarrow> i \<in> used hi' \<and> bucket hi (hn_id (hi_id hi ! i)) = Some g"
      using fg(2) hi'(10) u cu h(1) by auto
    then show "i \<in> set ((f(h := ks)) g) \<longleftrightarrow> i < length (hi_id hi') \<and> hn_id (hi_id hi' ! i) \<noteq> -1 \<and>
        bucket hi' (hn_id (hi_id hi' ! i)) = Some g"
      using hi'(4,6) b u by (auto simp: used_def split: if_splits)
  qed
  moreover have "inj_on (\<lambda>i. hn_id (hi_id hi' ! i)) (used hi')"
    using ok hi'(6) u by (auto simp: hashid_ok_def inj_on_def used_def)
  moreover have "finite (used hi)" by (simp add: used_def)
  then have "card (used hi) = Suc (card (used hi'))" using u cu(1) card_Suc_Diff1 by metis
  then have "hi_count hi' = int (card (used hi'))" using ok hi'(3) by (simp add: hashid_ok_def)
  ultimately have ok': "hashid_ok hi'" using ok hi'(1,2,4,5,7) unfolding hashid_ok_def by metis
  have "((idmap hi)(uid := None)) x = Some i \<longleftrightarrow> i \<in> used hi' \<and> hn_id (hi_id hi' ! i) = x" for x i
  proof -
    have "i \<in> used hi' \<and> hn_id (hi_id hi' ! i) = x \<longleftrightarrow> i \<in> used hi \<and> i \<noteq> c \<and> hn_id (hi_id hi ! i) = x"
      using u hi'(6)[of i] unfolding used_def by (metis (mono_tags, lifting) Diff_iff mem_Collect_eq singleton_iff)
    also have "\<dots> \<longleftrightarrow> i \<noteq> c \<and> idmap hi x = Some i" using idmap_Some_iff[OF ok, of x i] by blast
    also have "\<dots> \<longleftrightarrow> x \<noteq> uid \<and> idmap hi x = Some i"
      using c cu idmap_Some_iff[OF ok, of x i] by (metis option.inject)
    finally show ?thesis by simp
  qed
  from idmap_eqI[OF ok' this] show ?thesis using ok' by blast
qed

lemma hashid_remove_None:
  assumes "hashid_ok hi" "idmap hi uid = None"
  shows "hashid_remove hi uid = Some (-1, hi)"
proof -
  obtain f where f: "chains hi f" using assms by (auto simp: hashid_ok_def)
  obtain h where h: "bucket hi uid = Some h" "h < length (hi_hash hi)" using bucket_ok[OF assms(1)] by blast
  have c: "lchain (hi_id hi) (hi_hash hi ! h) (f h)" "\<And>i. i \<in> set (f h) \<Longrightarrow> i \<in> used hi"
    using f h(2) by (auto simp: chains_def used_def)
  have no: "hn_id (hi_id hi ! i) \<noteq> uid" if "i \<in> set (f h)" for i
    using c(2)[OF that] idmap_Some_iff[OF assms(1), of uid i] assms(2) by auto
  show ?thesis
  proof (cases "f h")
    case Nil
    then show ?thesis using h c(1) by (simp add: hashid_remove_def)
  next
    case (Cons k ks)
    then have p: "hi_hash hi ! h = Some k" "k < length (hi_id hi)" using c(1) by auto
    have dw: "dropWhile (\<lambda>i. hn_id (hi_id hi ! i) \<noteq> uid) ks = []" using no Cons by simp
    have "remove_loop hi uid k = Some None" using remove_loop_ok[of hi k ks uid] c(1) Cons p by (simp add: dw)
    then show ?thesis using h p no[of k] Cons by (simp add: hashid_remove_def node_at_def)
  qed
qed

text \<open>What the chains say about the node of an id.\<close>

lemma chain_node:
  assumes ok: "hashid_ok hi" and c: "idmap hi uid = Some c" and f: "chains hi f"
    and h: "bucket hi uid = Some h" "h < length (hi_hash hi)"
  shows "lchain (hi_id hi) (hi_hash hi ! h) (f h)" "distinct (f h)" "c \<in> set (f h)" "hn_id (hi_id hi ! c) = uid"
    "i \<in> set (f h) \<Longrightarrow> i \<in> used hi"
    "i \<in> set (f h) \<Longrightarrow> hn_id (hi_id hi ! i) = uid \<Longrightarrow> i = c"
    "i \<in> set (f h) \<Longrightarrow> g < length (hi_hash hi) \<Longrightarrow> g \<noteq> h \<Longrightarrow> i \<notin> set (f g)"
    "g < length (hi_hash hi) \<Longrightarrow> lchain (hi_id hi) (hi_hash hi ! g) (f g)"
proof -
  have cu: "c \<in> used hi" "hn_id (hi_id hi ! c) = uid" using c idmap_Some_iff[OF ok] by auto
  then show "lchain (hi_id hi) (hi_hash hi ! h) (f h)" "distinct (f h)" "c \<in> set (f h)" "hn_id (hi_id hi ! c) = uid"
    "g < length (hi_hash hi) \<Longrightarrow> lchain (hi_id hi) (hi_hash hi ! g) (f g)"
    using f h by (auto simp: chains_def used_def)
  show u: "i \<in> set (f h) \<Longrightarrow> i \<in> used hi" for i using f h by (auto simp: chains_def used_def)
  show "i \<in> set (f h) \<Longrightarrow> hn_id (hi_id hi ! i) = uid \<Longrightarrow> i = c"
    using u[of i] idmap_Some_iff[OF ok, of uid i] c by simp
  show "i \<in> set (f h) \<Longrightarrow> g < length (hi_hash hi) \<Longrightarrow> g \<noteq> h \<Longrightarrow> i \<notin> set (f g)"
    using f h by (auto simp: chains_def)
qed

lemma free_next: "hashid_ok hi \<Longrightarrow> i < length (hi_id hi) \<Longrightarrow> hn_id (hi_id hi ! i) = -1 \<Longrightarrow> hn_next (hi_id hi ! i) = None"
  by (simp add: hashid_ok_def)

lemma hashid_remove_head:
  assumes ok: "hashid_ok hi" and c: "idmap hi uid = Some c" and f: "chains hi f"
    and h: "bucket hi uid = Some h" "h < length (hi_hash hi)" and k: "f h = c # ks"
  shows "\<exists>hi'. hashid_remove hi uid = Some (int c, hi') \<and> hashid_ok hi' \<and> idmap hi' = (idmap hi)(uid := None) \<and>
    hi_cap hi' = hi_cap hi"
proof -
  note cn = chain_node[OF ok c f h]
  have p: "hi_hash hi ! h = Some c" "c < length (hi_id hi)" "lchain (hi_id hi) (hn_next (hi_id hi ! c)) ks"
    using cn(1) k by auto
  let ?hi = "snd (clear_node c (hi\<lparr>hi_hash := (hi_hash hi)[h := hn_next (hi_id hi ! c)]\<rparr>))"
  have "hashid_ok ?hi \<and> idmap ?hi = (idmap hi)(uid := None)"
  proof (rule cleared_ok[OF ok c h f, where ks = ks])
    show "lchain (hi_id ?hi) (hi_hash ?hi ! g) (f g)" if "g < length (hi_hash hi)" "g \<noteq> h" for g
      using cn(8)[of g] cn(7)[OF cn(3), of g] that by (simp add: clear_node_def lchain_update)
    show "lchain (hi_id ?hi) (hi_hash ?hi ! h) ks" "set ks = set (f h) - {c}" "distinct ks"
      using h p cn(2) k by (auto simp: clear_node_def lchain_update)
    fix i
    assume i: "i < length (hi_id hi)"
    show "hn_id (hi_id ?hi ! i) = (if i = c then -1 else hn_id (hi_id hi ! i))"
      "hn_id (hi_id ?hi ! i) = -1 \<Longrightarrow> hn_next (hi_id ?hi ! i) = None"
      using i p(2) free_next[OF ok i] by (auto simp: clear_node_def nth_list_update split: if_splits)
  qed (simp_all add: clear_node_def)
  moreover have "hashid_remove hi uid = Some (int c, ?hi)"
    using h p cn(4) by (simp add: hashid_remove_def node_at_def clear_node_def)
  ultimately show ?thesis by (auto simp: clear_node_def)
qed

lemma hn_id_set_next [simp]: "hn_id (ns[q := (ns ! q)\<lparr>hn_next := v\<rparr>] ! i) = hn_id (ns ! i)"
  by (cases "q < length ns") (auto simp: nth_list_update list_update_beyond)

lemma hashid_remove_inner:
  assumes ok: "hashid_ok hi" and c: "idmap hi uid = Some c" and f: "chains hi f"
    and h: "bucket hi uid = Some h" "h < length (hi_hash hi)" and k: "f h = k # ys @ c # zs"
  shows "\<exists>hi'. hashid_remove hi uid = Some (int c, hi') \<and> hashid_ok hi' \<and> idmap hi' = (idmap hi)(uid := None) \<and>
    hi_cap hi' = hi_cap hi"
proof -
  note cn = chain_node[OF ok c f h]
  have p: "hi_hash hi ! h = Some k" "k < length (hi_id hi)" "k \<noteq> c" using cn(1,2) k by auto
  let ?P = "\<lambda>i. hn_id (hi_id hi ! i) \<noteq> uid" and ?q = "last (k # ys)" and ?qs = "butlast (k # ys)"
  have "\<forall>i \<in> set ys. ?P i"
  proof
    fix i
    assume "i \<in> set ys"
    then have "i \<in> set (f h)" "i \<noteq> c" using cn(2) k by auto
    then show "?P i" using cn(6) by blast
  qed
  then have tw: "takeWhile ?P (ys @ c # zs) = ys" "dropWhile ?P (ys @ c # zs) = c # zs"
    using cn(4) by (simp_all add: takeWhile_append2 dropWhile_append2)
  have fq: "f h = ?qs @ ?q # c # zs"
    using k arg_cong[OF append_butlast_last_id[of "k # ys"], of "\<lambda>x. x @ c # zs"]
    by (simp only: append_assoc append_Cons append_Nil list.distinct simp_thms)
  let ?ids = "(hi_id hi)[?q := (hi_id hi ! ?q)\<lparr>hn_next := hn_next (hi_id hi ! c)\<rparr>]"
  let ?hi = "snd (clear_node c (hi\<lparr>hi_id := ?ids\<rparr>))"
  have q: "?q \<in> set (f h)" "?q \<noteq> c" "c \<notin> set (?qs @ ?q # zs)" using fq cn(2) by auto
  have "lchain ?ids (hi_hash hi ! h) (?qs @ ?q # zs)" using lchain_unlink cn(1,2) fq by metis
  then have l: "lchain (hi_id ?hi) (hi_hash ?hi ! h) (?qs @ ?q # zs)"
    using q(3) by (simp add: clear_node_def lchain_update)
  have "hashid_ok ?hi \<and> idmap ?hi = (idmap hi)(uid := None)"
  proof (rule cleared_ok[OF ok c h f _ _ _ _ _ _ _ _ l])
    show "lchain (hi_id ?hi) (hi_hash ?hi ! g) (f g)" if "g < length (hi_hash hi)" "g \<noteq> h" for g
      using cn(8)[of g] cn(7)[OF cn(3), of g] cn(7)[OF q(1), of g] that by (simp add: clear_node_def lchain_update)
    show "set (?qs @ ?q # zs) = set (f h) - {c}" "distinct (?qs @ ?q # zs)" using cn(2) fq by auto
    fix i
    assume i: "i < length (hi_id hi)"
    show "hn_id (hi_id ?hi ! i) = (if i = c then -1 else hn_id (hi_id hi ! i))"
      using i by (simp add: clear_node_def nth_list_update[of c])
    have "hn_id (hi_id hi ! ?q) \<noteq> -1" using cn(5)[OF q(1)] by (simp add: used_def)
    then show "hn_next (hi_id ?hi ! i) = None" if "hn_id (hi_id ?hi ! i) = -1"
      using i that free_next[OF ok i] cn(5)[OF q(1)] cn(5)[OF cn(3)]
      by (cases "i = c"; cases "i = ?q") (auto simp: clear_node_def used_def nth_list_update[of c])
  qed (simp_all add: clear_node_def)
  moreover have "remove_loop hi uid k = Some (Some (?q, c))"
    using remove_loop_ok[of hi k "ys @ c # zs" uid] cn(1) k p(1) tw by (simp only: list.case)
  then have "hashid_remove hi uid = Some (int c, ?hi)"
    using h p cn(6)[of k] k by (auto simp: hashid_remove_def node_at_def clear_node_def)
  ultimately show ?thesis by (auto simp: clear_node_def)
qed

lemma hashid_remove_Some:
  assumes ok: "hashid_ok hi" and c: "idmap hi uid = Some c"
  shows "\<exists>hi'. hashid_remove hi uid = Some (int c, hi') \<and> hashid_ok hi' \<and> idmap hi' = (idmap hi)(uid := None) \<and>
    hi_cap hi' = hi_cap hi"
proof -
  obtain f where f: "chains hi f" using ok by (auto simp: hashid_ok_def)
  obtain h where h: "bucket hi uid = Some h" "h < length (hi_hash hi)" using bucket_ok[OF ok] by blast
  obtain xs zs where "f h = xs @ c # zs" using chain_node(3)[OF ok c f h] by (meson split_list)
  then show ?thesis
    using hashid_remove_head[OF ok c f h, of zs] hashid_remove_inner[OF ok c f h, of _ _ zs] by (cases xs) auto
qed

section \<open>Inserting\<close>

lemma probe_ok:
  assumes "0 \<le> i" "i < hi_cap hi" "0 \<le> uid" "uid + hi_cap hi \<le> 2 ^ 31"
  shows "probe hi uid i = (i + uid) mod hi_cap hi"
proof -
  have "sint (word_of_int (i + uid) :: i32) = i + uid"
    using assms signed_take_bit_int_eq_self[of 31 "i + uid"] by (simp only: sint_sbintrunc') simp
  then show ?thesis using assms by (simp add: probe_def c_rem_def)
qed

lemma find_free_ok:
  assumes "hi_cap hi = int (length (hi_id hi))" "0 \<le> uid" "uid + hi_cap hi \<le> 2 ^ 31" "0 \<le> i"
    and "i \<le> j" "j < hi_cap hi" "hn_id (hi_id hi ! nat ((j + uid) mod hi_cap hi)) = -1"
  shows "\<exists>c < length (hi_id hi). find_free hi uid i = Some c \<and> hn_id (hi_id hi ! c) = -1"
  using assms
proof (induction hi uid i rule: find_free.induct)
  case (1 hi uid i)
  have p: "probe hi uid i = (i + uid) mod hi_cap hi" using 1(2-) by (intro probe_ok) auto
  have "0 < hi_cap hi" using 1(5,6,7) by linarith
  from pos_mod_bound[OF this] pos_mod_sign[OF this]
  have b: "0 \<le> probe hi uid i" "probe hi uid i < int (length (hi_id hi))" 
    unfolding p 1(2)[symmetric] by blast+
  show ?case
  proof (cases "hn_id (hi_id hi ! nat (probe hi uid i)) = -1")
    case True
    then show ?thesis using b 1(2-) by (subst find_free.simps) (auto simp: Let_def nat_less_iff)
  next
    case False
    then have "i \<noteq> j" using 1(2-) p by auto
    then have "\<exists>c < length (hi_id hi). find_free hi uid (i + 1) = Some c \<and> hn_id (hi_id hi ! c) = -1"
      using 1(2-) b False by (intro 1(1)) auto
    then show ?thesis using b 1(2-) False by (subst find_free.simps) (auto simp: Let_def)
  qed
qed

lemma used_free:
  assumes "hashid_ok hi" "\<not> hashid_full hi"
  shows "\<exists>m < length (hi_id hi). hn_id (hi_id hi ! m) = -1"
proof (rule ccontr)
  assume "\<not> ?thesis"
  then have "used hi = {..<length (hi_id hi)}" by (auto simp: used_def)
  with assms show False by (simp add: hashid_ok_def hashid_full_def)
qed

lemma linked_ok:
  assumes ok: "hashid_ok hi" and none: "idmap hi uid = None" "uid \<noteq> -1" and h: "bucket hi uid = Some h" "h < length (hi_hash hi)"
    and c: "c < length (hi_id hi)" "hn_id (hi_id hi ! c) = -1"
    and hi': "hi' = hi\<lparr>hi_count := hi_count hi + 1, hi_id := (hi_id hi)[c := \<lparr>hn_id = uid, hn_next = hi_hash hi ! h\<rparr>],
            hi_hash := (hi_hash hi)[h := Some c]\<rparr>"
  shows "hashid_ok hi' \<and> idmap hi' = (idmap hi)(uid \<mapsto> c)"
proof -
  obtain f where f: "chains hi f" using ok by (auto simp: hashid_ok_def)
  have nc: "c \<notin> used hi" using c by (simp add: used_def)
  have id': "i < length (hi_id hi) \<Longrightarrow> hn_id (hi_id hi' ! i) = (if i = c then uid else hn_id (hi_id hi ! i))" for i
    using c(1) hi' by (simp add: nth_list_update)
  have u: "used hi' = insert c (used hi)" using id' c none(2) hi' by (auto simp: used_def split: if_splits)
  have b: "bucket hi' x = bucket hi x" for x using hi' by (simp add: bucket_def)
  have other: "hn_id (hi_id hi ! i) \<noteq> uid" if "i \<in> used hi" for i
    using that idmap_Some_iff[OF ok, of uid i] none(1) by auto
  have "chains hi' (f(h := c # f h))"
    unfolding chains_def
  proof (intro allI impI conjI)
    fix g i
    assume g: "g < length (hi_hash hi')"
    then have fg: "lchain (hi_id hi) (hi_hash hi ! g) (f g)" "distinct (f g)"
      "\<And>i. i \<in> set (f g) \<longleftrightarrow> i \<in> used hi \<and> bucket hi (hn_id (hi_id hi ! i)) = Some g"
      using f hi' by (auto simp: chains_def used_def)
    then have "c \<notin> set (f g)" using nc by blast
    then show "lchain (hi_id hi') (hi_hash hi' ! g) ((f(h := c # f h)) g)" "distinct ((f(h := c # f h)) g)"
      using fg(1,2) g h(2) c(1) hi' by (cases "g = h"; simp add: lchain_update)+
    have "i \<in> set ((f(h := c # f h)) g) \<longleftrightarrow> i \<in> used hi' \<and> bucket hi (hn_id (hi_id hi' ! i)) = Some g"
    proof (cases "i = c")
      case True
      then show ?thesis using fg(3)[of c] u nc h(1) id'[OF c(1)] by (cases "g = h") simp_all
    next
      case False
      then have "i \<in> used hi' \<longleftrightarrow> i \<in> used hi" "i \<in> used hi \<Longrightarrow> hn_id (hi_id hi' ! i) = hn_id (hi_id hi ! i)"
        using u id'[of i] by (simp_all add: used_def)
      then show ?thesis using False fg(3)[of i] by (cases "g = h") auto
    qed
    then show "i \<in> set ((f(h := c # f h)) g) \<longleftrightarrow> i < length (hi_id hi') \<and> hn_id (hi_id hi' ! i) \<noteq> -1 \<and>
        bucket hi' (hn_id (hi_id hi' ! i)) = Some g"
      using b by (auto simp: used_def)
  qed
  moreover have "inj_on (\<lambda>i. hn_id (hi_id hi ! i)) (used hi)" using ok by (simp add: hashid_ok_def)
  then have "inj_on (\<lambda>i. hn_id (hi_id hi' ! i)) (used hi')"
    using other nc id' c(1) unfolding u inj_on_def by (auto simp: used_def)
  moreover have "hi_count hi' = int (card (used hi'))"
    using ok nc hi' u by (simp add: hashid_ok_def used_def)
  moreover have "hn_next (hi_id hi' ! i) = None" if "i < length (hi_id hi')" "hn_id (hi_id hi' ! i) = -1" for i
    using free_next[OF ok, of i] that hi' c(1) none(2) by (auto simp: nth_list_update split: if_splits)
  ultimately have ok': "hashid_ok hi'" using ok hi' by (auto simp: hashid_ok_def)
  have "((idmap hi)(uid \<mapsto> c)) x = Some i \<longleftrightarrow> i \<in> used hi' \<and> hn_id (hi_id hi' ! i) = x" for x i
  proof (cases "i = c")
    case True
    then show ?thesis using idmap_Some_iff[OF ok, of x c] u nc id'[OF c(1)] by auto
  next
    case False
    then have "i \<in> used hi' \<longleftrightarrow> i \<in> used hi" "i \<in> used hi \<Longrightarrow> hn_id (hi_id hi' ! i) = hn_id (hi_id hi ! i)"
      using u id'[of i] by (simp_all add: used_def)
    then show ?thesis using False idmap_Some_iff[OF ok, of x i] other[of i] by (cases "x = uid") auto
  qed
  from idmap_eqI[OF ok' this] show ?thesis using ok' by blast
qed

lemma hashid_insert_ok:
  assumes ok: "hashid_ok hi" and new: "idmap hi uid = None" and room: "\<not> hashid_full hi"
    and uid: "0 \<le> uid" "uid + hi_cap hi \<le> 2 ^ 31"
  shows "\<exists>c hi'. hashid_insert hi uid = Some (int c, hi') \<and> hashid_ok hi' \<and> c < length (hi_id hi) \<and>
    c \<notin> ran (idmap hi) \<and> idmap hi' = (idmap hi)(uid \<mapsto> c) \<and> hi_cap hi' = hi_cap hi"
proof -
  have cap: "hi_cap hi = int (length (hi_id hi))" using ok by (simp add: hashid_ok_def)
  obtain m where m: "m < length (hi_id hi)" "hn_id (hi_id hi ! m) = -1" using used_free[OF ok room] by blast
  have "0 < hi_cap hi" using m(1) cap by linarith
  note md = pos_mod_bound[OF this] pos_mod_sign[OF this]
  let ?j = "(int m - uid) mod hi_cap hi"
  have "(?j + uid) mod hi_cap hi = int m" using m(1) cap by (simp add: mod_simps)
  then obtain c where c: "c < length (hi_id hi)" "find_free hi uid 0 = Some c" "hn_id (hi_id hi ! c) = -1"
    using find_free_ok[OF cap uid, of 0 ?j] m md by auto
  obtain h where h: "bucket hi uid = Some h" "h < length (hi_hash hi)" using bucket_ok[OF ok] by blast
  have "c \<notin> ran (idmap hi)" using c(3) idmap_Some_iff[OF ok] by (auto simp: ran_def used_def)
  then show ?thesis
    using linked_ok[OF ok new _ h c(1,3) refl] uid(1) c free_next[OF ok c(1,3)] h
    by (simp add: hashid_insert_def)
qed

section \<open>Initialising\<close>

lemma sint_pow2: "k \<le> 30 \<Longrightarrow> sint (word_of_int (2 ^ k) :: i32) = 2 ^ k"
proof -
  assume "k \<le> 30"
  then have "2 ^ k \<le> (2 ^ 30 :: int)" by (rule power_increasing) simp
  then have "(2 ^ k :: int) < 2 ^ 31" by simp
  moreover have "- (2 ^ 31) \<le> (2 ^ k :: int)" by (rule order_trans[of _ 0]) simp_all
  ultimately show ?thesis unfolding sint_sbintrunc' by (simp add: signed_take_bit_int_eq_self)
qed

lemma hashcap_loop_ok:
  assumes "k \<le> 30" "cap \<le> 2 ^ 30"
  shows "\<exists>n. k \<le> n \<and> n \<le> 30 \<and> hashcap_loop (word_of_int (2 ^ k)) cap = Some (word_of_int (2 ^ n)) \<and> cap \<le> 2 ^ n"
  using assms(1)
proof (induction "30 - k" arbitrary: k)
  case 0
  then have "k = 30" by simp
  moreover have "hashcap_loop (word_of_int (2 ^ 30)) cap = Some (word_of_int (2 ^ 30))"
    using assms(2) by (subst hashcap_loop.simps) simp
  ultimately show ?case using assms(2) by auto
next
  case (Suc d)
  have s: "sint (word_of_int (2 ^ k) :: i32) = 2 ^ k"
    using Suc.hyps(2) by (intro sint_pow2) simp
  have "hashcap_loop (word_of_int (2 ^ k)) cap =
      (if 2 ^ k < cap then hashcap_loop (word_of_int (2 ^ Suc k)) cap else Some (word_of_int (2 ^ k)))"
    by (subst hashcap_loop.simps) (simp only: s power_Suc of_int_mult of_int_numeral mult.commute)
  moreover have "d = 30 - Suc k" "Suc k \<le> 30" using Suc.hyps(2) by simp_all
  with Suc(1)[of "Suc k"] obtain n where "Suc k \<le> n" "n \<le> 30" "hashcap_loop (word_of_int (2 ^ Suc k)) cap = Some (word_of_int (2 ^ n))" "cap \<le> 2 ^ n"
    by blast
  ultimately show ?case using Suc.prems
    by (cases "2 ^ k < cap") (use Suc_leD in \<open>metis\<close>, auto)
qed

lemma hashid_init_ok:
  assumes "0 \<le> cap" "cap \<le> 2 ^ 30"
  shows "\<exists>hi. hashid_init cap = Some hi \<and> hashid_ok hi \<and> idmap hi = Map.empty \<and> hi_cap hi = cap"
proof -
  obtain n where n: "n \<le> 30" "hashcap_loop 16 cap = Some (word_of_int (2 ^ n))"
    using hashcap_loop_ok[of 4 cap] assms(2) by auto
  have s: "sint (word_of_int (2 ^ n) :: i32) = 2 ^ n"
    using n(1) by (rule sint_pow2)
  let ?hi = "\<lparr>hi_hashmod = 2 ^ n - 1, hi_cap = cap, hi_count = 0,
     hi_id = replicate (nat cap) \<lparr>hn_id = -1, hn_next = None\<rparr>, hi_hash = replicate (2 ^ n) None\<rparr>"
  have u: "used ?hi = {}" by (simp add: used_def)
  have "chains ?hi (\<lambda>_. [])" by (simp add: chains_def)
  then have ok: "hashid_ok ?hi" using assms(1) u by (auto simp: hashid_ok_def)
  moreover have "idmap ?hi = Map.empty" using u by (intro idmap_eqI[OF ok]) simp
  moreover have "hashid_init cap = Some ?hi" using n(2) s by (simp add: hashid_init_def nat_power_eq)
  ultimately show ?thesis by (intro exI[of _ ?hi]) simp
qed

section \<open>The contract\<close>

text \<open>
  What the gate relies on: a table that keeps keys in slots. The lemmas of the locale follow a
  sequence of operations; \<open>fits\<close> says which keys it can take.
\<close>

datatype 'k slot_op = Open 'k | Shut 'k

definition table_step ::
  "('s \<Rightarrow> 'k \<Rightarrow> nat option) \<Rightarrow> ('s \<Rightarrow> 'k \<Rightarrow> (nat \<times> 's) option) \<Rightarrow> ('s \<Rightarrow> 'k \<Rightarrow> (nat option \<times> 's) option) \<Rightarrow>
   ('s \<Rightarrow> 'k \<Rightarrow> bool) \<Rightarrow> 'k slot_op \<Rightarrow> 's \<Rightarrow> 's option" where
  "table_step tab ins del fits a s = (case a of
       Open k \<Rightarrow> if fits s k \<and> tab s k = None then map_option snd (ins s k) else Some s
     | Shut k \<Rightarrow> map_option snd (del s k))"

fun table_run :: "('k slot_op \<Rightarrow> 's \<Rightarrow> 's option) \<Rightarrow> 'k slot_op list \<Rightarrow> 's \<Rightarrow> 's option" where
  "table_run step [] s = Some s"
| "table_run step (a # as) s = Option.bind (step a s) (table_run step as)"

locale slot_table =
  fixes tab :: "'s \<Rightarrow> 'k \<Rightarrow> nat option"
    and ins :: "'s \<Rightarrow> 'k \<Rightarrow> (nat \<times> 's) option"
    and del :: "'s \<Rightarrow> 'k \<Rightarrow> (nat option \<times> 's) option"
    and inv :: "'s \<Rightarrow> bool"
    and fits :: "'s \<Rightarrow> 'k \<Rightarrow> bool"
  assumes ins_ok: "inv s \<Longrightarrow> fits s k \<Longrightarrow> tab s k = None \<Longrightarrow>
      \<exists>c s'. ins s k = Some (c, s') \<and> inv s' \<and> c \<notin> ran (tab s) \<and> tab s' = (tab s)(k \<mapsto> c)"
    and del_ok: "inv s \<Longrightarrow> \<exists>s'. del s k = Some (tab s k, s') \<and> inv s' \<and> tab s' = (tab s)(k := None)"
begin

text \<open>Two keys never share a slot, whatever was opened and closed before.\<close>

lemma run_ok:
  assumes "inv s" "inj_on (tab s) (dom (tab s))"
  shows "\<exists>s'. table_run (table_step tab ins del fits) as s = Some s' \<and> inv s' \<and> inj_on (tab s') (dom (tab s'))"
  using assms
proof (induction as arbitrary: s)
  case (Cons a as)
  have "\<exists>s1. table_step tab ins del fits a s = Some s1 \<and> inv s1 \<and> inj_on (tab s1) (dom (tab s1))"
  proof (cases a)
    case (Open k)
    show ?thesis
    proof (cases "fits s k \<and> tab s k = None")
      case True
      then obtain c s' where c: "ins s k = Some (c, s')" "inv s'" "c \<notin> ran (tab s)" "tab s' = (tab s)(k \<mapsto> c)"
        using ins_ok[OF Cons.prems(1)] by blast
      have "inj_on (tab s') (dom (tab s'))"
        using Cons.prems(2) c(3) unfolding c(4) inj_on_def ran_def by (auto split: if_splits)
      then show ?thesis using Open True c by (simp add: table_step_def)
    qed (use Cons.prems Open in \<open>auto simp: table_step_def\<close>)
  next
    case (Shut k)
    obtain s' where s': "del s k = Some (tab s k, s')" "inv s'" "tab s' = (tab s)(k := None)"
      using del_ok[OF Cons.prems(1)] by blast
    have "inj_on (tab s') (dom (tab s'))"
      using Cons.prems(2) unfolding s'(3) inj_on_def by (auto split: if_splits)
    then show ?thesis using Shut s' by (simp add: table_step_def)
  qed
  then show ?case using Cons.IH by fastforce
qed simp

end

text \<open>The results as slots: \<open>-1\<close> stands for no slot.\<close>

definition slot_ins :: "hashid \<Rightarrow> int \<Rightarrow> (nat \<times> hashid) option" where
  "slot_ins hi uid = map_option (\<lambda>r. (nat (fst r), snd r)) (hashid_insert hi uid)"

definition slot_del :: "hashid \<Rightarrow> int \<Rightarrow> (nat option \<times> hashid) option" where
  "slot_del hi uid = map_option (\<lambda>r. (if fst r < 0 then None else Some (nat (fst r)), snd r)) (hashid_remove hi uid)"

definition fits_table :: "hashid \<Rightarrow> int \<Rightarrow> bool" where
  "fits_table hi uid \<longleftrightarrow> \<not> hashid_full hi \<and> 0 \<le> uid \<and> uid + hi_cap hi \<le> 2 ^ 31"

lemma hashid_remove_ok:
  assumes "hashid_ok hi"
  shows "\<exists>hi'. hashid_remove hi uid = Some (case idmap hi uid of None \<Rightarrow> -1 | Some c \<Rightarrow> int c, hi') \<and> hashid_ok hi' \<and>
    idmap hi' = (idmap hi)(uid := None) \<and> hi_cap hi' = hi_cap hi"
  using hashid_remove_None[OF assms, of uid] hashid_remove_Some[OF assms, of uid] assms
  by (cases "idmap hi uid") (auto simp: fun_upd_idem)

interpretation idtable: slot_table idmap slot_ins slot_del hashid_ok fits_table
proof unfold_locales
  fix hi uid
  assume ok: "hashid_ok hi"
  show "\<exists>hi'. slot_del hi uid = Some (idmap hi uid, hi') \<and> hashid_ok hi' \<and> idmap hi' = (idmap hi)(uid := None)"
    using hashid_remove_ok[OF ok, of uid] by (cases "idmap hi uid") (force simp: slot_del_def)+
  assume "fits_table hi uid" "idmap hi uid = None"
  then show "\<exists>c hi'. slot_ins hi uid = Some (c, hi') \<and> hashid_ok hi' \<and> c \<notin> ran (idmap hi) \<and> idmap hi' = (idmap hi)(uid \<mapsto> c)"
    using hashid_insert_ok[OF ok, of uid] by (auto simp: fits_table_def slot_ins_def)
qed

section \<open>Refinement of a set of open sockets\<close>

text \<open>The specification: the sockets that are open, at most \<open>cap\<close> of them.\<close>

definition open_step :: "int \<Rightarrow> int slot_op \<Rightarrow> int set \<Rightarrow> int set" where
  "open_step cap a S = (case a of
       Open k \<Rightarrow> if int (card S) < cap \<and> 0 \<le> k \<and> k + cap \<le> 2 ^ 31 then insert k S else S
     | Shut k \<Rightarrow> S - {k})"

lemma dom_idmap: "hashid_ok hi \<Longrightarrow> dom (idmap hi) = (\<lambda>i. hn_id (hi_id hi ! i)) ` used hi"
  by (auto simp: idmap_Some_iff dom_def)

lemma hashid_full_iff: "hashid_ok hi \<Longrightarrow> hashid_full hi \<longleftrightarrow> int (card (dom (idmap hi))) = hi_cap hi"
  by (simp add: dom_idmap card_image hashid_ok_def hashid_full_def)

lemma open_count: "hashid_ok hi \<Longrightarrow> int (card (dom (idmap hi))) \<le> hi_cap hi"
proof -
  assume ok: "hashid_ok hi"
  have "card (used hi) \<le> card {..<length (hi_id hi)}" by (rule card_mono) (auto simp: used_def)
  then show ?thesis using ok by (simp add: dom_idmap card_image hashid_ok_def)
qed

lemma table_step_cap:
  assumes "hashid_ok hi" "table_step idmap slot_ins slot_del fits_table a hi = Some hi'"
  shows "hi_cap hi' = hi_cap hi"
proof (cases a)
  case (Open k)
  then show ?thesis using assms hashid_insert_ok[OF assms(1), of k]
    by (auto simp: table_step_def slot_ins_def fits_table_def split: if_splits)
next
  case (Shut k)
  then show ?thesis using assms hashid_remove_ok[OF assms(1), of k] by (auto simp: table_step_def slot_del_def)
qed

lemma table_step_refines:
  assumes "hashid_ok hi"
  shows "\<exists>hi'. table_step idmap slot_ins slot_del fits_table a hi = Some hi' \<and> hashid_ok hi' \<and>
    dom (idmap hi') = open_step (hi_cap hi) a (dom (idmap hi))"
proof (cases a)
  case (Shut k)
  then show ?thesis using idtable.del_ok[OF assms, of k] by (auto simp: table_step_def open_step_def)
next
  case (Open k)
  have "fits_table hi k \<longleftrightarrow> int (card (dom (idmap hi))) < hi_cap hi \<and> 0 \<le> k \<and> k + hi_cap hi \<le> 2 ^ 31"
    using hashid_full_iff[OF assms] open_count[OF assms] by (auto simp: fits_table_def)
  then show ?thesis using Open idtable.ins_ok[OF assms, of k] assms
    by (cases "idmap hi k = None"; cases "fits_table hi k") (auto simp: table_step_def open_step_def insert_absorb)
qed

text \<open>
  C25. The hash table of the gate refines the set of its open sockets: after any sequence of
  openings and closings, every operation has returned, lookup finds exactly the sockets that are
  open (at most as many as the table has slots), and different sockets have different slots.
\<close>

theorem hashid_refines_set:
  assumes "0 \<le> cap" "cap \<le> 2 ^ 30"
  shows "\<exists>tb tb'. hashid_init cap = Some tb \<and>
    table_run (table_step idmap slot_ins slot_del fits_table) ops tb = Some tb' \<and>
    (\<forall>u. \<exists>i. hashid_lookup tb' u = Some i \<and> (0 \<le> i \<longleftrightarrow> u \<in> fold (open_step cap) ops {})) \<and>
    (\<forall>u v i. hashid_lookup tb' u = Some i \<longrightarrow> hashid_lookup tb' v = Some i \<longrightarrow> 0 \<le> i \<longrightarrow> u = v)"
proof -
  obtain tb where tb: "hashid_init cap = Some tb" "hashid_ok tb" "dom (idmap tb) = {}" "hi_cap tb = cap"
    using hashid_init_ok[OF assms] by auto
  have "\<exists>tb'. table_run (table_step idmap slot_ins slot_del fits_table) ops hi = Some tb' \<and> hashid_ok tb' \<and>
      dom (idmap tb') = fold (open_step cap) ops (dom (idmap hi))" if "hashid_ok hi" "hi_cap hi = cap" for hi
    using that
  proof (induction ops arbitrary: hi)
    case (Cons a ops)
    obtain h1 where h1: "table_step idmap slot_ins slot_del fits_table a hi = Some h1" "hashid_ok h1"
        "dom (idmap h1) = open_step cap a (dom (idmap hi))"
      using table_step_refines[OF Cons.prems(1), of a] Cons.prems(2) by auto
    with Cons.IH[OF h1(2)] table_step_cap[OF Cons.prems(1) h1(1)] Cons.prems(2) show ?case by auto
  qed simp
  from this[OF tb(2,4)] obtain tb' where r: "table_run (table_step idmap slot_ins slot_del fits_table) ops tb = Some tb'"
      "hashid_ok tb'" "dom (idmap tb') = fold (open_step cap) ops {}" using tb(3) by auto
  have L: "\<exists>i. hashid_lookup tb' u = Some i \<and> (0 \<le> i \<longleftrightarrow> u \<in> fold (open_step cap) ops {})" for u
    using hashid_lookup_ok[OF r(2), of u] r(3) by (auto split: option.splits)
  have "u = v" if "hashid_lookup tb' u = Some i" "hashid_lookup tb' v = Some i" "0 \<le> i" for u v i
  proof -
    have "idmap tb' u = Some (nat i)" using that(1,3) hashid_lookup_ok[OF r(2), of u] by (auto split: option.splits)
    moreover have "idmap tb' v = Some (nat i)" using that(2,3) hashid_lookup_ok[OF r(2), of v] by (auto split: option.splits)
    ultimately show ?thesis using idmap_Some_iff[OF r(2)] by metis
  qed
  then have "\<forall>u v i. hashid_lookup tb' u = Some i \<longrightarrow> hashid_lookup tb' v = Some i \<longrightarrow> 0 \<le> i \<longrightarrow> u = v" by metis
  with tb(1) r(1) L show ?thesis by metis
qed

theorem hashid_refines_set_witness:
  "\<exists>tb tb'. hashid_init 2 = Some tb \<and>
    table_run (table_step idmap slot_ins slot_del fits_table) [Open 5, Open 21, Open 9, Shut 5] tb = Some tb' \<and>
    (\<exists>i. hashid_lookup tb' 21 = Some i \<and> 0 \<le> i) \<and> (\<exists>i. hashid_lookup tb' 9 = Some i \<and> i < 0)"
proof -
  have "fold (open_step 2) [Open 5, Open 21, Open 9, Shut 5] {} = {21}" by (auto simp: open_step_def)
  then obtain tb tb' where "hashid_init 2 = Some tb"
      "table_run (table_step idmap slot_ins slot_del fits_table) [Open 5, Open 21, Open 9, Shut 5] tb = Some tb'"
      and l: "\<And>u. \<exists>i. hashid_lookup tb' u = Some i \<and> (0 \<le> i \<longleftrightarrow> u \<in> {21})"
    using hashid_refines_set[of 2 "[Open 5, Open 21, Open 9, Shut 5]"] by auto
  moreover have "\<exists>i. hashid_lookup tb' 21 = Some i \<and> 0 \<le> i" using l[of 21] by simp
  moreover have "\<exists>i. hashid_lookup tb' 9 = Some i \<and> i < 0" using l[of 9] by (auto simp: not_le)
  ultimately show ?thesis by blast
qed

end
