(* ===== verification/Gate.thy ===== *)
theory Gate
  imports Server Databuffer Hashid
begin

text \<open>
  The gate service (\<open>service-src/service_gate.c\<close>): it accepts client connections, cuts their byte
  streams into messages behind a 2 or 4 byte big-endian length, and forwards each message to a
  broker, to the agent of the connection or to the watchdog.

  The operations give the new state of the gate and the calls they make on the node, in order
  (\<open>gate_call\<close>); \<open>perform\<close> makes these calls. The code never looks at the result of a call, apart
  from \<open>skynet_queryname\<close> and \<open>skynet_socket_listen\<close>, whose results are the arguments \<open>query\<close> and
  \<open>listen\<close> of the operations that use them.
\<close>

section \<open>State\<close>

definition BACKLOG :: int where "BACKLOG = 32"

record connection =
  c_id :: int
  c_agent :: u32
  c_client :: u32
  c_remote_name :: string
  c_buffer :: databuffer

record gate =
  gt_listen_id :: int
  gt_watchdog :: u32
  gt_broker :: u32
  gt_client_tag :: i32
  gt_header_size :: int
  gt_max_connection :: int
  gt_hash :: hashid
  gt_conn :: "connection list"
  gt_mp :: messagepool

datatype gate_call =
    Send u32 u32 i32 "u8 list" int
  | Error string
  | Query string
  | Callback
  | Socket_close int
  | Socket_start int
  | Socket_send int "u8 list" int
  | Socket_listen string int int

definition connection_zero :: connection where
  "connection_zero = \<lparr>c_id = 0, c_agent = 0, c_client = 0, c_remote_name = [], c_buffer = databuffer_zero\<rparr>"

section \<open>Creation and release\<close>

definition gate_create :: gate where
  "gate_create =
     \<lparr>gt_listen_id = -1, gt_watchdog = 0, gt_broker = 0, gt_client_tag = 0, gt_header_size = 0,
      gt_max_connection = 0,
      gt_hash = \<lparr>hi_hashmod = 0, hi_cap = 0, hi_count = 0, hi_id = [], hi_hash = []\<rparr>,
      gt_conn = [], gt_mp = messagepool_zero\<rparr>"

definition gate_release :: "gate \<Rightarrow> gate_call list" where
  "gate_release g =
     map (\<lambda>c. Socket_close (c_id c)) (filter (\<lambda>c. 0 \<le> c_id c) (take (nat (gt_max_connection g)) (gt_conn g))) @
     (if 0 \<le> gt_listen_id g then [Socket_close (gt_listen_id g)] else [])"

definition conn_at :: "gate \<Rightarrow> int \<Rightarrow> connection option" where
  "conn_at g i = (if 0 \<le> i \<and> i < int (length (gt_conn g)) then Some (gt_conn g ! nat i) else None)"

definition conn_put :: "int \<Rightarrow> connection \<Rightarrow> gate \<Rightarrow> gate" where
  "conn_put i c g = g\<lparr>gt_conn := (gt_conn g)[nat i := c]\<rparr>"

section \<open>Commands\<close>

text \<open>
  The command is read in an array of \<open>sz + 1\<close> characters that ends with a NUL. \<open>c_string\<close> is the
  C string a pointer leads to; \<open>parm\<close> moves the text behind the command word to the front, with a
  NUL behind it, and leaves the rest of the array as it was.
\<close>

definition c_string :: "string \<Rightarrow> string" where
  "c_string m = takeWhile (\<lambda>c. c \<noteq> CHR 0x00) m"

definition parm :: "string \<Rightarrow> nat \<Rightarrow> string" where
  "parm tmp command_sz =
     (let sz = length tmp - 1;
          k = command_sz + length (takeWhile (\<lambda>c. c = CHR '' '') (drop command_sz (take sz tmp)))
      in drop k (take sz tmp) @ CHR 0x00 # drop (sz - k + 1) tmp)"

text \<open>\<open>memcmp(a, b, n) == 0\<close>: it stops at the first difference; beyond the end of an array there is nothing to compare.\<close>

fun memcmp_eq :: "string \<Rightarrow> string \<Rightarrow> nat \<Rightarrow> bool option" where
  "memcmp_eq a b 0 = Some True"
| "memcmp_eq (x # a) (y # b) (Suc n) = (if x = y then memcmp_eq a b n else Some False)"
| "memcmp_eq _ _ (Suc n) = None"

definition is_command :: "string \<Rightarrow> nat \<Rightarrow> string \<Rightarrow> bool option" where
  "is_command tmp i name = memcmp_eq tmp (name @ [CHR 0x00]) i"

definition forward_agent :: "int \<Rightarrow> u32 \<Rightarrow> u32 \<Rightarrow> gate \<Rightarrow> gate option" where
  "forward_agent fd agentaddr clientaddr g = do {
     i \<leftarrow> hashid_lookup (gt_hash g) fd;
     if 0 \<le> i then do {
       agent \<leftarrow> conn_at g i;
       Some (conn_put i (agent\<lparr>c_agent := agentaddr, c_client := clientaddr\<rparr>) g) }
     else Some g }"

text \<open>
  \<open>strsep(&p, " ")\<close> on what lies behind \<open>p\<close>: the array from the token on, its delimiter now a
  NUL, and what lies behind the new \<open>p\<close>, or \<open>None\<close> where that is NULL.
\<close>

definition strsep_space :: "string \<Rightarrow> string \<times> string option" where
  "strsep_space m =
     (let n = length (takeWhile (\<lambda>c. c \<noteq> CHR 0x00 \<and> c \<noteq> CHR '' '') m)
      in if n < length m \<and> m ! n = CHR '' '' then (m[n := CHR 0x00], Some (drop (n + 1) m)) else (m, None))"

definition int_at :: "string \<Rightarrow> int" where
  "int_at m = sint (long_int (strtol (c_string m) 10))"

definition ctrl_forward :: "string \<Rightarrow> gate \<Rightarrow> gate option" where
  "ctrl_forward tmp g =
     (case strsep_space tmp of
        (idstr, None) \<Rightarrow> Some g
      | (idstr, Some client) \<Rightarrow>
          (case strsep_space client of
             (agent, None) \<Rightarrow> Some g
           | (agent, Some client1) \<Rightarrow>
               forward_agent (int_at idstr) (hex_handle (c_string (tl agent))) (hex_handle (c_string (tl client1))) g))"

definition ctrl_socket :: "(int \<Rightarrow> gate_call) \<Rightarrow> string \<Rightarrow> gate \<Rightarrow> (gate \<times> gate_call list) option" where
  "ctrl_socket call tmp g = do {
     let uid = int_at tmp;
     i \<leftarrow> hashid_lookup (gt_hash g) uid;
     Some (g, if 0 \<le> i then [call uid] else []) }"

definition ctrl :: "(string \<Rightarrow> u32 option) \<Rightarrow> string \<Rightarrow> gate \<Rightarrow> (gate \<times> gate_call list) option" where
  "ctrl query msg g =
     (if msg = [] then Some (g, [])
      else do {
        let tmp = msg @ [CHR 0x00];
        let i = length (takeWhile (\<lambda>c. c \<noteq> CHR '' '') msg);
        kick \<leftarrow> is_command tmp i ''kick'';
        if kick then ctrl_socket Socket_close (parm tmp i) g
        else do {
          forward \<leftarrow> is_command tmp i ''forward'';
          if forward then map_option (\<lambda>g1. (g1, [])) (ctrl_forward (parm tmp i) g)
          else do {
            broker \<leftarrow> is_command tmp i ''broker'';
            if broker then do {
              let name = c_string (parm tmp i);
              h \<leftarrow> query name;
              Some (g\<lparr>gt_broker := h\<rparr>, [Query name]) }
            else do {
              start \<leftarrow> is_command tmp i ''start'';
              if start then ctrl_socket Socket_start (parm tmp i) g
              else do {
                cl \<leftarrow> is_command tmp i ''close'';
                if cl then
                  if 0 \<le> gt_listen_id g then Some (g\<lparr>gt_listen_id := -1\<rparr>, [Socket_close (gt_listen_id g)])
                  else Some (g, [])
                else Some (g, [Error (''[gate] Unkown command : '' @ c_string tmp)]) } } } } })"

text \<open>\<open>vsnprintf\<close> into 1024 characters; the message sent has the length of the whole text.\<close>

definition report :: "string \<Rightarrow> gate \<Rightarrow> gate_call list" where
  "report text g =
     (if gt_watchdog g = 0 then []
      else [Send 0 (gt_watchdog g) (word_of_nat PTYPE_TEXT) (cstr (take 1023 text)) (int (length text))])"

section \<open>Data\<close>

definition to_bytes :: "string \<Rightarrow> u8 list" where
  "to_bytes s = map (\<lambda>c. word_of_nat (of_char c)) s"

text \<open>What \<open>_forward\<close> sends, given the bytes it reads.\<close>

definition forward_call :: "gate \<Rightarrow> connection \<Rightarrow> u8 list \<Rightarrow> gate_call" where
  "forward_call g c bs =
     (if gt_broker g \<noteq> 0 then Send 0 (gt_broker g) (gt_client_tag g OR PTYPE_TAG_DONTCOPY) bs (int (length bs))
      else if c_agent c \<noteq> 0 then Send (c_client c) (c_agent c) (gt_client_tag g OR PTYPE_TAG_DONTCOPY) bs (int (length bs))
      else let tmp = to_bytes (show_d (c_id c) @ '' data '') @ bs
           in Send 0 (gt_watchdog g) (word_of_nat PTYPE_TEXT OR PTYPE_TAG_DONTCOPY) tmp (int (length tmp)))"

definition has_target :: "gate \<Rightarrow> connection \<Rightarrow> bool" where
  "has_target g c \<longleftrightarrow> gt_broker g \<noteq> 0 \<or> c_agent c \<noteq> 0 \<or> gt_watchdog g \<noteq> 0"

definition forward :: "gate \<Rightarrow> connection \<Rightarrow> int \<Rightarrow> (connection \<times> messagepool \<times> gate_call list) option" where
  "forward g c n =
     (if has_target g c then do {
        (bs, db, mp) \<leftarrow> databuffer_read (c_buffer c) (gt_mp g) n;
        Some (c\<lparr>c_buffer := db\<rparr>, mp, [forward_call g c bs]) }
      else Some (c, gt_mp g, []))"

partial_function (option) message_loop ::
  "gate \<Rightarrow> connection \<Rightarrow> int \<Rightarrow> (gate \<times> connection \<times> gate_call list) option" where
  "message_loop g c uid = do {
     (n, db, mp) \<leftarrow> databuffer_readheader (c_buffer c) (gt_mp g) (gt_header_size g);
     let g1 = g\<lparr>gt_mp := mp\<rparr>;
     let c1 = c\<lparr>c_buffer := db\<rparr>;
     if n < 0 then Some (g1, c1, [])
     else if 0 < n then
       if 0x1000000 \<le> n then do {
         (db2, mp2) \<leftarrow> databuffer_clear db mp;
         Some (g\<lparr>gt_mp := mp2\<rparr>, c\<lparr>c_buffer := db2\<rparr>, [Socket_close uid, Error ''Recv socket message > 16M'']) }
       else do {
         (c2, mp2, calls) \<leftarrow> forward g1 c1 n;
         r \<leftarrow> message_loop (g\<lparr>gt_mp := mp2\<rparr>) (c2\<lparr>c_buffer := databuffer_reset (c_buffer c2)\<rparr>) uid;
         Some (fst r, fst (snd r), calls @ snd (snd r)) }
     else message_loop g1 c1 uid }"

declare message_loop.simps [code]

definition gate_dispatch_message ::
  "gate \<Rightarrow> int \<Rightarrow> int \<Rightarrow> u8 list \<Rightarrow> int \<Rightarrow> (gate \<times> gate_call list) option" where
  "gate_dispatch_message g i uid data sz = do {
     c \<leftarrow> conn_at g i;
     let (db, mp) = databuffer_push (c_buffer c) (gt_mp g) data sz;
     (g1, c1, calls) \<leftarrow> message_loop (g\<lparr>gt_mp := mp\<rparr>) (c\<lparr>c_buffer := db\<rparr>) uid;
     Some (conn_put i c1 g1, calls) }"

section \<open>Socket messages\<close>

definition REMOTE_NAME :: int where "REMOTE_NAME = 32"

text \<open>\<open>sz\<close> is an \<open>int\<close> compared with a \<open>size_t\<close>: a negative one counts as large.\<close>

definition accept_name :: "u8 list \<Rightarrow> int \<Rightarrow> string option" where
  "accept_name padding sz =
     (let n = nat (if sz < 0 \<or> REMOTE_NAME \<le> sz then REMOTE_NAME - 1 else sz)
      in if n \<le> length padding then Some (c_string (of_bytes (take n padding))) else None)"

definition dispatch_socket_message ::
  "skynet_socket_message \<Rightarrow> int \<Rightarrow> gate \<Rightarrow> (gate \<times> gate_call list) option" where
  "dispatch_socket_message m sz g =
     (if sm_type m = SKYNET_SOCKET_TYPE_DATA then do {
        i \<leftarrow> hashid_lookup (gt_hash g) (sm_id m);
        if 0 \<le> i then do { buffer \<leftarrow> sm_buffer m; gate_dispatch_message g i (sm_id m) buffer (sm_ud m) }
        else Some (g, [Error (''Drop unknown connection '' @ show_d (sm_id m) @ '' message''), Socket_close (sm_id m)]) }
      else if sm_type m = SKYNET_SOCKET_TYPE_CONNECT then
        if sm_id m = gt_listen_id g then Some (g, [])
        else do {
          i \<leftarrow> hashid_lookup (gt_hash g) (sm_id m);
          Some (g, if i < 0 then [Error (''Close unknown connection '' @ show_d (sm_id m)), Socket_close (sm_id m)] else []) }
      else if sm_type m = SKYNET_SOCKET_TYPE_CLOSE \<or> sm_type m = SKYNET_SOCKET_TYPE_ERROR then do {
        (i, hash) \<leftarrow> hashid_remove (gt_hash g) (sm_id m);
        let g1 = g\<lparr>gt_hash := hash\<rparr>;
        if 0 \<le> i then do {
          c \<leftarrow> conn_at g1 i;
          (db, mp) \<leftarrow> databuffer_clear (c_buffer c) (gt_mp g1);
          Some (conn_put i (connection_zero\<lparr>c_id := -1\<rparr>) (g1\<lparr>gt_mp := mp\<rparr>), report (show_d (sm_id m) @ '' close'') g) }
        else Some (g1, []) }
      else if sm_type m = SKYNET_SOCKET_TYPE_ACCEPT then
        if gt_listen_id g \<noteq> sm_id m then None
        else if hashid_full (gt_hash g) then Some (g, [Socket_close (sm_ud m)])
        else do {
          (i, hash) \<leftarrow> hashid_insert (gt_hash g) (sm_ud m);
          let g1 = g\<lparr>gt_hash := hash\<rparr>;
          c \<leftarrow> conn_at g1 i;
          name \<leftarrow> accept_name (sm_padding m) sz;
          Some (conn_put i (c\<lparr>c_id := sm_ud m, c_remote_name := name\<rparr>) g1,
                report (show_d (sm_ud m) @ '' open '' @ show_d (sm_ud m) @ '' '' @ name @ '':0'') g @
                [Error (''socket open: '' @ show_x (word_of_int (sm_ud m)))]) }
      else if sm_type m = SKYNET_SOCKET_TYPE_WARNING then
        Some (g, [Error (''fd ('' @ show_d (sm_id m) @ '') send buffer ('' @ show_d (sm_ud m) @ '')K'')])
      else Some (g, []))"

section \<open>The callback\<close>

text \<open>The id of a client message: its last four bytes, the low one first.\<close>

definition client_id :: "u8 list \<Rightarrow> nat \<Rightarrow> u32" where
  "client_id msg sz =
     (let idbuf = drop (sz - 4) msg
      in ucast (idbuf ! 0) OR push_bit 8 (ucast (idbuf ! 1)) OR push_bit 16 (ucast (idbuf ! 2)) OR
         push_bit 24 (ucast (idbuf ! 3)))"

text \<open>The first component is what the callback returns: 1 keeps the message, which the socket send now owns.\<close>

definition cb ::
  "(string \<Rightarrow> u32 option) \<Rightarrow> nat \<Rightarrow> u32 \<Rightarrow> msg_payload option \<Rightarrow> nat \<Rightarrow> gate \<Rightarrow> (int \<times> gate \<times> gate_call list) option" where
  "cb query type source msg sz g =
     (if type = PTYPE_TEXT then
        (case msg of
           Some (Bytes bs) \<Rightarrow>
             if sz \<le> length bs then map_option (Pair 0) (ctrl query (of_bytes (take sz bs)) g) else None
         | _ \<Rightarrow> if sz = 0 then Some (0, g, []) else None)
      else if type = PTYPE_CLIENT then
        if sz \<le> 4 then Some (0, g, [Error (''Invalid client message from '' @ show_x source)])
        else
          (case msg of
             Some (Bytes bs) \<Rightarrow>
               if sz \<le> length bs then do {
                 let uid = client_id bs sz;
                 i \<leftarrow> hashid_lookup (gt_hash g) (sint uid);
                 if 0 \<le> i then Some (1, g, [Socket_send (sint uid) bs (int sz - 4)])
                 else Some (0, g, [Error (''Invalid client id '' @ show_d (sint uid) @ '' from '' @ show_x source)]) }
               else None
           | _ \<Rightarrow> None)
      else if type = PTYPE_SOCKET then
        (case msg of
           Some (Socket m) \<Rightarrow> map_option (Pair 0) (dispatch_socket_message m (int sz - int SOCKET_MESSAGE_SIZE) g)
         | _ \<Rightarrow> None)
      else Some (0, g, []))"

section \<open>Start\<close>

definition start_listen ::
  "(string \<Rightarrow> int \<Rightarrow> int \<Rightarrow> int) \<Rightarrow> string \<Rightarrow> gate \<Rightarrow> int \<times> gate \<times> gate_call list" where
  "start_listen listen listen_addr g =
     (let host0 = takeWhile (\<lambda>c. c \<noteq> CHR '':'') listen_addr;
          colon = (length host0 < length listen_addr);
          port = sint (long_int (strtol (if colon then drop (length host0 + 1) listen_addr else listen_addr) 10));
          host = (if colon then host0 else [])
      in if port \<le> 0 then (1, g, [Error (''Invalid gate address '' @ listen_addr)])
         else let uid = listen host port BACKLOG; g1 = g\<lparr>gt_listen_id := uid\<rparr> in
           if uid < 0 then (1, g1, [Socket_listen host port BACKLOG])
           else (0, g1, [Socket_listen host port BACKLOG, Socket_start uid]))"

text \<open>A \<open>%d\<close> conversion, and the five conversions of the parameter string: \<open>None\<close> where fewer than four succeed.\<close>

definition scan_d :: "string \<Rightarrow> (int \<times> string) option" where
  "scan_d s =
     (let s1 = dropWhile isspace s; s2 = snd (num_sign s1); ds = takeWhile (is_digit 10) s2
      in if ds = [] then None else Some (sint (long_int (strtol s1 10)), drop (length ds) s2))"

definition scan_parm :: "string \<Rightarrow> (char \<times> string \<times> string \<times> int \<times> int) option" where
  "scan_parm s = (case s of
       [] \<Rightarrow> None
     | header # s1 \<Rightarrow> do {
         let (w, s2) = scan_token s1;
         watchdog \<leftarrow> w;
         let (b, s3) = scan_token s2;
         binding \<leftarrow> b;
         (client_tag, s4) \<leftarrow> scan_d s3;
         Some (header, watchdog, binding, client_tag, case scan_d s4 of Some (n, _) \<Rightarrow> n | None \<Rightarrow> 0) })"

definition gate_open ::
  "(string \<Rightarrow> int \<Rightarrow> int \<Rightarrow> int) \<Rightarrow> char \<Rightarrow> string \<Rightarrow> i32 \<Rightarrow> int \<Rightarrow> gate \<Rightarrow> (int \<times> gate \<times> gate_call list) option" where
  "gate_open listen header binding client_tag n g = do {
     hash \<leftarrow> hashid_init n;
     let g1 = g\<lparr>gt_hash := hash, gt_conn := replicate (nat n) (connection_zero\<lparr>c_id := -1\<rparr>),
                gt_max_connection := n, gt_client_tag := client_tag,
                gt_header_size := (if header = CHR ''S'' then 2 else 4)\<rparr>;
     let (r, g2, calls) = start_listen listen binding g1;
     Some (r, g2, Callback # calls) }"

definition gate_init ::
  "(string \<Rightarrow> u32 option) \<Rightarrow> (string \<Rightarrow> int \<Rightarrow> int \<Rightarrow> int) \<Rightarrow> string option \<Rightarrow> gate \<Rightarrow>
   (int \<times> gate \<times> gate_call list) option" where
  "gate_init query listen p g = (case p of
       None \<Rightarrow> Some (1, g, [])
     | Some text \<Rightarrow>
         (case scan_parm text of
            None \<Rightarrow> Some (1, g, [Error (''Invalid gate parm '' @ text)])
          | Some (header, watchdog, binding, tag, n) \<Rightarrow>
              if n \<le> 0 then Some (1, g, [Error ''Need max connection''])
              else if header \<noteq> CHR ''S'' \<and> header \<noteq> CHR ''L'' then Some (1, g, [Error ''Invalid data header style''])
              else
                let client_tag = (if tag = 0 then word_of_nat PTYPE_CLIENT else word_of_int tag) in
                if hd watchdog = CHR ''!'' then gate_open listen header binding client_tag n (g\<lparr>gt_watchdog := 0\<rparr>)
                else do {
                  h \<leftarrow> query watchdog;
                  if h = 0 then Some (1, g\<lparr>gt_watchdog := 0\<rparr>, [Query watchdog, Error (''Invalid watchdog '' @ watchdog)])
                  else do {
                    (r, g1, calls) \<leftarrow> gate_open listen header binding client_tag n (g\<lparr>gt_watchdog := h\<rparr>);
                    Some (r, g1, Query watchdog # calls) } }))"

section \<open>Making the calls\<close>

text \<open>
  The calls on the node of the service \<open>c\<close>; \<open>fn\<close> and \<open>ud\<close> are the addresses of the callback and
  of the gate. The requests to the socket thread do not change the node.
\<close>

definition perform :: "externals \<Rightarrow> ctxid \<Rightarrow> nat \<Rightarrow> nat \<Rightarrow> gate_call \<Rightarrow> node_state \<Rightarrow> node_state option" where
  "perform X c fn ud call s = (case call of
       Send source dest type data sz \<Rightarrow>
         map_option snd (skynet_send X (Some c) source dest type 0 (Some (Bytes data)) (word_of_int sz) s)
     | Error text \<Rightarrow> skynet_error X (Some c) text s
     | Query name \<Rightarrow> map_option snd (skynet_queryname X c name s)
     | Callback \<Rightarrow> skynet_callback c ud (Some fn) s
     | _ \<Rightarrow> Some s)"

fun perform_all :: "externals \<Rightarrow> ctxid \<Rightarrow> nat \<Rightarrow> nat \<Rightarrow> gate_call list \<Rightarrow> node_state \<Rightarrow> node_state option" where
  "perform_all X c fn ud [] s = Some s"
| "perform_all X c fn ud (call # calls) s = do {
     s1 \<leftarrow> perform X c fn ud call s;
     perform_all X c fn ud calls s1 }"

text \<open>The name a command asks for is resolved on the node as it is then.\<close>

definition query_node :: "externals \<Rightarrow> ctxid \<Rightarrow> node_state \<Rightarrow> string \<Rightarrow> u32 option" where
  "query_node X c s name = map_option fst (skynet_queryname X c name s)"

definition gate_callback ::
  "externals \<Rightarrow> ctxid \<Rightarrow> nat \<Rightarrow> nat \<Rightarrow> nat \<Rightarrow> u32 \<Rightarrow> msg_payload option \<Rightarrow> nat \<Rightarrow> gate \<Rightarrow> node_state \<Rightarrow>
   (int \<times> gate \<times> node_state) option" where
  "gate_callback X c fn ud type source msg sz g s = do {
     (r, g1, calls) \<leftarrow> cb (query_node X c s) type source msg sz g;
     s1 \<leftarrow> perform_all X c fn ud calls s;
     Some (r, g1, s1) }"

end
