(* ===== verification/Gate_Spec.thy ===== *)
theory Gate_Spec
  imports Gate
begin

text \<open>
  What the gate does with the bytes of its clients. \<open>pending\<close> is the part of a stream a
  connection holds back, header included. The lemmas follow one turn of the loop of
  \<open>dispatch_message\<close>, then the loop, then socket messages of all kinds; the loop is shown to be a
  \<open>framer\<close>, on streams whose messages are shorter than 16M.
\<close>

section \<open>Headers\<close>

lemma be_bytes_val: "length hs = k \<Longrightarrow> be_bytes k (be_val hs) = hs"
proof (induction hs arbitrary: k rule: rev_induct)
  case (snoc b hs)
  have "unat b < 256" using unsigned_less[of b] by simp
  then show ?case using snoc by (auto simp: be_val_append word_unat_eq_iff unat_of_nat)
qed (simp add: be_val_def)

lemma unat_or_disjoint:
  fixes a b :: "'a::len word"
  assumes "\<And>n. n < LENGTH('a) \<Longrightarrow> bit a n \<Longrightarrow> bit b n \<Longrightarrow> False"
  shows "unat (a OR b) = unat a + unat b"
proof -
  have "uint (a OR b) = uint a OR uint b" by (simp add: unsigned_or_eq)
  also have "\<dots> = uint a + uint b"
    by (rule disjunctive_add[symmetric]) (use assms bit_imp_le_length in \<open>fastforce simp: bit_simps\<close>)
  finally show ?thesis by (simp flip: nat_uint_eq add: nat_add_distrib)
qed

lemma unat_byte_shift: "unat (push_bit k (ucast b :: u32)) = unat (b :: u8) * 2 ^ k" if "k \<le> 24"
proof -
  have "unat b < 2 ^ 8" using unsigned_less[of b] by simp
  then have "unat b * 2 ^ k < 2 ^ 8 * 2 ^ k" by simp
  also have "\<dots> \<le> 2 ^ 32" using that power_increasing[of "8 + k" 32 "2::nat"] by (simp add: power_add)
  finally have "unat b * 2 ^ k < 2 ^ 32" .
  then show ?thesis
    using \<open>unat b < 2 ^ 8\<close>
    by (subst unsigned_push_bit_eq) (simp add: unsigned_ucast_eq take_bit_eq_mod push_bit_eq_mult)
qed

lemma bit_byte_shift: "bit (push_bit k (ucast (b :: u8) :: u32)) n \<Longrightarrow> k \<le> n \<and> n < k + 8"
  by (auto simp: bit_simps dest: bit_imp_le_length)

lemma be_val_2: "be_val [a, b] = unat a * 2 ^ 8 + unat b"
  by (simp add: be_val_def)

lemma be_val_4: "be_val [a, b, c, d] = unat a * 2 ^ 24 + (unat b * 2 ^ 16 + (unat c * 2 ^ 8 + unat d))"
  by (simp add: be_val_def)

lemma header_word_2: "unat (push_bit 8 (ucast a) OR ucast b :: u32) = be_val [a, b]"
  using bit_byte_shift[of 8 a] bit_byte_shift[of 0 b]
  by (subst unat_or_disjoint) (force simp: unat_byte_shift[of 8] unat_byte_shift[of 0, simplified] be_val_2)+

lemma header_word_4:
  "unat (push_bit 24 (ucast a) OR push_bit 16 (ucast b) OR push_bit 8 (ucast c) OR ucast d :: u32) = be_val [a, b, c, d]"
proof -
  have low: "bit (ucast d :: u32) n \<Longrightarrow> n < 8" for n
    using bit_byte_shift[of 0 d n] by simp
  have "unat (push_bit 8 (ucast c) OR ucast d :: u32) = unat c * 2 ^ 8 + unat d"
    using header_word_2[of c d] by (simp only: be_val_2)
  moreover have "unat (push_bit 16 (ucast b) OR (push_bit 8 (ucast c) OR ucast d) :: u32) =
      unat (push_bit 16 (ucast b :: u32)) + unat (push_bit 8 (ucast c) OR ucast d :: u32)"
    by (rule unat_or_disjoint) (use low in \<open>fastforce simp: bit_or_iff dest: bit_byte_shift\<close>)
  moreover have "unat (push_bit 24 (ucast a) OR (push_bit 16 (ucast b) OR (push_bit 8 (ucast c) OR ucast d)) :: u32) =
      unat (push_bit 24 (ucast a :: u32)) + unat (push_bit 16 (ucast b) OR (push_bit 8 (ucast c) OR ucast d) :: u32)"
    by (rule unat_or_disjoint) (use low in \<open>fastforce simp: bit_or_iff dest: bit_byte_shift\<close>)
  ultimately show ?thesis by (simp only: be_val_4 unat_byte_shift[of 24] unat_byte_shift[of 16])
qed

lemma sint_small: "unat (w :: i32) < 2 ^ 31 \<Longrightarrow> sint w = int (unat w)"
proof -
  assume "unat w < 2 ^ 31"
  then have "int (unat w) < 2 ^ 31" by (simp only: of_nat_less_numeral_power_cancel_iff)
  moreover have "- (2 ^ 31) \<le> int (unat w)" by (rule order_trans[OF _ of_nat_0_le_iff]) simp
  ultimately have "signed_take_bit 31 (int (unat w)) = int (unat w)" by (intro signed_take_bit_int_eq_self)
  then show ?thesis unfolding sint_uint[of w] uint_nat by simp
qed

definition header_width :: "nat \<Rightarrow> bool" where
  "header_width h \<longleftrightarrow> h = 2 \<or> h = 4"

lemma header_int_val:
  assumes "header_width h" "length hs = h" "be_val hs < 2 ^ 31"
  shows "header_int (int h) hs = int (be_val hs)"
proof -
  consider a b where "h = 2" "hs = [a, b]" | a b c d where "h = 4" "hs = [a, b, c, d]"
    using assms(1,2) by (auto simp: header_width_def length_Suc_conv numeral_2_eq_2 numeral_eq_Suc)
  then show ?thesis
    by cases (use assms(3) in \<open>simp_all add: header_int_def sint_small header_word_2 header_word_4\<close>)
qed

section \<open>One turn of the loop\<close>

lemma set_header [simp]:
  "content (db\<lparr>db_header := n\<rparr>) = content db" "db_ok (db\<lparr>db_header := n\<rparr>) = db_ok db"
  "balanced db0 mp0 (db\<lparr>db_header := n\<rparr>) mp = balanced db0 mp0 db mp"
  "balanced (db\<lparr>db_header := n\<rparr>) mp db1 mp1 = balanced db mp db1 mp1"
  by (simp_all add: content_def db_ok_def chain_ok_def balanced_def nodes_def cong: list.case_cong)

text \<open>The bytes a buffer holds back: the header it has read already, and its content.\<close>

definition db_left :: "nat \<Rightarrow> databuffer \<Rightarrow> u8 list" where
  "db_left h db = (if db_header db = 0 then [] else be_bytes h (nat (db_header db))) @ content db"

definition header_ok :: "nat \<Rightarrow> databuffer \<Rightarrow> bool" where
  "header_ok h db \<longleftrightarrow> 0 \<le> db_header db \<and> db_header db < 2 ^ 31 \<and> db_header db < 256 ^ h"

lemma be_val_less: "be_val hs < 256 ^ length hs"
proof (induction hs rule: rev_induct)
  case (snoc b hs)
  have "unat b < 256" using unsigned_less[of b] by simp
  with snoc show ?case by (simp add: be_val_append)
qed (simp add: be_val_def)

lemma stored_header:
  assumes "header_ok h db" "db_header db \<noteq> 0"
  shows "h \<le> length (db_left h db)" "int (be_val (take h (db_left h db))) = db_header db" "drop h (db_left h db) = content db"
  using assms be_val_bytes[of "nat (db_header db)" h]
  by (simp_all add: db_left_def header_ok_def nat_less_iff)

text \<open>Reading the header, by what is pending: a whole message follows or not.\<close>

definition whole :: "nat \<Rightarrow> u8 list \<Rightarrow> bool" where
  "whole h L \<longleftrightarrow> h \<le> length L \<and> be_val (take h L) \<le> length L - h"

lemma readheader_fresh:
  assumes h: "header_width h" and ok: "db_ok db" and hd: "db_header db = 0" and len: "h \<le> length (content db)"
    and small: "be_val (take h (content db)) < 2 ^ 31"
  shows "\<exists>db' mp'. databuffer_readheader db mp (int h) = Some (check_body db' mp') \<and> db_ok db' \<and>
    db_header db' = int (be_val (take h (content db))) \<and> content db' = drop h (content db) \<and> balanced db mp db' mp'"
proof -
  have "0 < int h" "int h \<le> db_size db" using h len ok by (auto simp: header_width_def db_ok_def)
  then obtain db1 mp1 where r: "databuffer_read db mp (int h) = Some (take h (content db), db1, mp1)" "db_ok db1"
      "content db1 = drop h (content db)" "balanced db mp db1 mp1"
    using databuffer_read_ok[OF ok, of "int h" mp] by auto
  let ?db = "db1\<lparr>db_header := header_int (int h) (take h (content db))\<rparr>"
  have "db_header ?db = int (be_val (take h (content db)))"
    using header_int_val[OF h, of "take h (content db)"] len small by simp
  moreover have "content ?db = content db1" "db_ok ?db" "balanced db mp ?db mp1"
    using r by simp_all
  ultimately show ?thesis using r hd \<open>int h \<le> db_size db\<close>
    by (intro exI[of _ ?db] exI[of _ mp1]) (simp add: databuffer_readheader_def)
qed

lemma readheader_ok:
  assumes h: "header_width h" and ok: "db_ok db" "header_ok h db"
    and small: "h \<le> length (db_left h db) \<Longrightarrow> be_val (take h (db_left h db)) < 2 ^ 31"
  defines "L \<equiv> db_left h db"
  shows "\<exists>n db' mp'. databuffer_readheader db mp (int h) = Some (n, db', mp') \<and> db_ok db' \<and> header_ok h db' \<and>
    balanced db mp db' mp' \<and>
    (if whole h L then n = int (be_val (take h L)) \<and> db_header db' = n \<and> content db' = drop h L
     else n = -1 \<and> db_left h db' = L)"
proof (cases "db_header db = 0")
  case False
  note sh = stored_header[OF ok(2) False, folded L_def]
  have "db_size db = int (length L - h)" using ok(1) sh(3) by (metis db_ok_def length_drop)
  then have "check_body db mp = (if whole h L then int (be_val (take h L)) else -1, db, mp)"
    using sh(1,2) by (auto simp: check_body_def whole_def)
  then show ?thesis using False ok sh L_def by (auto simp: databuffer_readheader_def)
next
  case True
  then have L: "L = content db" by (simp add: L_def db_left_def)
  show ?thesis
  proof (cases "h \<le> length L")
    case False
    then show ?thesis using True ok L L_def h by (auto simp: databuffer_readheader_def whole_def db_ok_def)
  next
    case len: True
    then obtain db' mp' where r: "databuffer_readheader db mp (int h) = Some (check_body db' mp')" "db_ok db'"
        "db_header db' = int (be_val (take h L))" "content db' = drop h L" "balanced db mp db' mp'"
      using readheader_fresh[OF h ok(1) True, of mp] small L L_def by auto
    have "be_val (take h L) < 256 ^ h" using be_val_less[of "take h L"] len by simp
    then have ho: "header_ok h db'" using r(3) small len L_def by (simp add: header_ok_def)
    have "db_size db' = int (length L - h)" using r(2,4) by (simp add: db_ok_def)
    then have c: "check_body db' mp' = (if whole h L then int (be_val (take h L)) else -1, db', mp')"
      using r(3) len by (auto simp: check_body_def whole_def)
    have "db_left h db' = L" if "\<not> whole h L"
    proof -
      have "db_header db' \<noteq> 0" using r(3) that len by (auto simp: whole_def)
      then show ?thesis using r(3,4) be_bytes_val[of "take h L" h] len by (simp add: db_left_def)
    qed
    then show ?thesis using r c ho by auto
  qed
qed

text \<open>Reading the header in general, whatever its four bytes say.\<close>

lemma readheader_total:
  assumes "header_width h" "db_ok db"
  shows "\<exists>n db' mp'. databuffer_readheader db mp (int h) = Some (n, db', mp') \<and> db_ok db' \<and> balanced db mp db' mp' \<and>
    (0 \<le> n \<longrightarrow> db_header db' = n \<and> n \<le> int (length (content db'))) \<and>
    (if db_header db \<noteq> 0 then db' = db else 0 \<le> n \<longrightarrow> length (content db') < length (content db))"
proof (cases "db_header db = 0 \<and> int h \<le> db_size db")
  case False
  then show ?thesis using assms by (auto simp: databuffer_readheader_def check_body_def db_ok_def)
next
  case True
  have h: "0 < h" using assms(1) by (auto simp: header_width_def)
  then obtain plen db1 mp1 where r: "databuffer_read db mp (int h) = Some (plen, db1, mp1)" "db_ok db1"
      "content db1 = drop h (content db)" "balanced db mp db1 mp1"
    using databuffer_read_ok[OF assms(2), of "int h" mp] True by auto
  let ?db = "db1\<lparr>db_header := header_int (int h) plen\<rparr>"
  have "databuffer_readheader db mp (int h) = Some (check_body ?db mp1)"
    using True r(1) by (simp add: databuffer_readheader_def)
  moreover have "length (content ?db) < length (content db)"
    using r(3) True h assms(2) by (auto simp: db_ok_def)
  moreover have "db_size db1 = int (length (content db1))" using r(2) by (simp add: db_ok_def)
  ultimately show ?thesis using r True by (auto simp: check_body_def)
qed

lemma forward_ok:
  assumes "db_ok (c_buffer c)" "0 < n" "n \<le> int (length (content (c_buffer c)))"
  shows "\<exists>db mp. forward g c n = Some (c\<lparr>c_buffer := db\<rparr>, mp,
        if has_target g c then [forward_call g c (take (nat n) (content (c_buffer c)))] else []) \<and>
    db_ok db \<and> balanced (c_buffer c) (gt_mp g) db mp \<and>
    content db = (if has_target g c then drop (nat n) (content (c_buffer c)) else content (c_buffer c))"
proof (cases "has_target g c")
  case True
  have "n \<le> db_size (c_buffer c)" using assms by (simp add: db_ok_def)
  from databuffer_read_ok[OF assms(1,2) this, of "gt_mp g"] show ?thesis using True by (auto simp: forward_def)
next
  case False
  then show ?thesis using assms
    by (intro exI[of _ "c_buffer c"] exI[of _ "gt_mp g"]) (simp add: forward_def)
qed

section \<open>The loop returns\<close>

definition loop_rank :: "databuffer \<Rightarrow> nat" where
  "loop_rank db = 2 * length (content db) + (if db_header db = 0 then 0 else 1)"

definition same_but_buffer :: "gate \<Rightarrow> connection \<Rightarrow> gate \<Rightarrow> connection \<Rightarrow> bool" where
  "same_but_buffer g c g' c' \<longleftrightarrow>
     g' = g\<lparr>gt_mp := gt_mp g'\<rparr> \<and> c' = c\<lparr>c_buffer := c_buffer c'\<rparr> \<and>
     balanced (c_buffer c) (gt_mp g) (c_buffer c') (gt_mp g')"

lemma same_but_buffer_step:
  assumes "same_but_buffer (g\<lparr>gt_mp := mp\<rparr>) (c\<lparr>c_buffer := db\<rparr>) g' c'" "balanced (c_buffer c) (gt_mp g) db mp"
  shows "same_but_buffer g c g' c'"
  using assms by (auto simp: same_but_buffer_def intro: balanced_trans)

lemma message_loop_total:
  assumes "header_width h" "gt_header_size g = int h" "db_ok (c_buffer c)"
  shows "\<exists>g' c' calls. message_loop g c uid = Some (g', c', calls) \<and> db_ok (c_buffer c') \<and> same_but_buffer g c g' c'"
  using assms(2,3)
proof (induction "loop_rank (c_buffer c)" arbitrary: g c rule: less_induct)
  case less
  obtain n db mp where r: "databuffer_readheader (c_buffer c) (gt_mp g) (int h) = Some (n, db, mp)" "db_ok db"
      "balanced (c_buffer c) (gt_mp g) db mp" "0 \<le> n \<Longrightarrow> db_header db = n \<and> n \<le> int (length (content db))"
      "if db_header (c_buffer c) \<noteq> 0 then db = c_buffer c else 0 \<le> n \<longrightarrow> length (content db) < length (content (c_buffer c))"
    using readheader_total[OF assms(1) less.prems(2), of "gt_mp g"] by blast
  let ?g = "g\<lparr>gt_mp := mp\<rparr>" and ?c = "c\<lparr>c_buffer := db\<rparr>"
  consider "n < 0" | "n = 0" | "0x1000000 \<le> n" | "0 < n" "n < 0x1000000" by linarith
  then show ?case
  proof cases
    case 1
    then show ?thesis using r less.prems by (subst message_loop.simps) (simp add: same_but_buffer_def)
  next
    case 2
    then have "loop_rank db < loop_rank (c_buffer c)" using r(4,5) by (auto simp: loop_rank_def split: if_splits)
    then obtain g' c' calls where "message_loop ?g ?c uid = Some (g', c', calls)" "db_ok (c_buffer c')"
        "same_but_buffer ?g ?c g' c'"
      using less.hyps[of ?c ?g] r(2) less.prems by auto
    then show ?thesis using r 2 less.prems same_but_buffer_step[OF _ r(3)] by (subst message_loop.simps) auto
  next
    case 3
    obtain mp2 where "databuffer_clear db mp = Some (databuffer_zero, mp2)" "balanced db mp databuffer_zero mp2"
      using databuffer_clear_ok by blast
    then show ?thesis using r 3 less.prems balanced_trans[OF r(3)] db_ok_zero
      by (subst message_loop.simps) (simp add: same_but_buffer_def)
  next
    case 4
    obtain db2 mp2 calls where f: "forward ?g ?c n = Some (?c\<lparr>c_buffer := db2\<rparr>, mp2, calls)" "db_ok db2"
        "balanced db mp db2 mp2" "length (content db2) \<le> length (content db)"
      using forward_ok[of ?c n ?g] r(2,4) 4 by (auto split: if_splits)
    let ?g2 = "g\<lparr>gt_mp := mp2\<rparr>" and ?c2 = "c\<lparr>c_buffer := databuffer_reset db2\<rparr>"
    have "loop_rank (databuffer_reset db2) < loop_rank (c_buffer c)"
      using r(4,5) f(4) 4 by (auto simp: loop_rank_def databuffer_reset_def split: if_splits)
    then obtain g' c' calls' where "message_loop ?g2 ?c2 uid = Some (g', c', calls')" "db_ok (c_buffer c')"
        "same_but_buffer ?g2 ?c2 g' c'"
      using less.hyps[of ?c2 ?g2] f(2) less.prems by (auto simp: databuffer_reset_def)
    moreover have "balanced (c_buffer c) (gt_mp g) (databuffer_reset db2) mp2"
      using balanced_trans[OF r(3) f(3)] by (simp add: databuffer_reset_def)
    ultimately show ?thesis using r f 4 less.prems same_but_buffer_step[where mp = mp2 and db = "databuffer_reset db2"]
      by (subst message_loop.simps) auto
  qed
qed

section \<open>The loop cuts the stream into its messages\<close>

text \<open>No message of the stream announces 16M or more.\<close>

definition LIMIT :: nat where "LIMIT = 0x1000000"

function small_frames :: "nat \<Rightarrow> u8 list \<Rightarrow> bool" where
  "small_frames h bs =
     (if h = 0 \<or> length bs < h then True
      else let n = be_val (take h bs) in
        if LIMIT \<le> n then False
        else if length (drop h bs) < n then True
        else small_frames h (drop n (drop h bs)))"
  by pat_completeness auto
termination by (relation "measure (\<lambda>(h, bs). length bs)") auto

declare small_frames.simps [simp del]

lemma unframe_step:
  "0 < h \<Longrightarrow> unframe h L =
     (if whole h L then let n = be_val (take h L); r = unframe h (drop n (drop h L)) in (take n (drop h L) # fst r, snd r)
      else ([], L))"
  by (subst unframe.simps) (auto simp: whole_def Let_def)

lemma small_frames_step:
  "0 < h \<Longrightarrow> small_frames h L \<longleftrightarrow>
     (h \<le> length L \<longrightarrow> be_val (take h L) < LIMIT) \<and>
     (whole h L \<longrightarrow> small_frames h (drop (be_val (take h L)) (drop h L)))"
  by (subst small_frames.simps) (auto simp: whole_def Let_def)

lemma small_frames_frames:
  assumes "0 < h" "\<forall>p \<in> set ps. length p < 256 ^ h \<and> length p < LIMIT"
  shows "small_frames h (concat (map (frame h) ps))"
  using assms(2)
proof (induction ps)
  case Nil
  then show ?case using assms(1) by (subst small_frames.simps) simp
next
  case (Cons p ps)
  have "small_frames h (frame h p @ concat (map (frame h) ps))"
    using Cons by (subst small_frames_step[OF assms(1)]) (simp add: frame_def[of h p] be_val_bytes)
  then show ?case by simp
qed

lemma whole_append:
  assumes "whole h bs"
  shows "whole h (bs @ cs)" "be_val (take h (bs @ cs)) = be_val (take h bs)"
    "drop (be_val (take h bs)) (drop h (bs @ cs)) = drop (be_val (take h bs)) (drop h bs) @ cs"
  using assms by (auto simp: whole_def)

lemma small_frames_append:
  "small_frames h (bs @ cs) \<Longrightarrow> small_frames h (snd (unframe h bs) @ cs) \<and> small_frames h bs"
proof (induction h bs rule: small_frames.induct)
  case (1 h bs)
  show ?case
  proof (cases "h = 0 \<or> \<not> whole h bs")
    case True
    then have "unframe h bs = ([], bs)"
      by (cases "h = 0") (subst unframe.simps, simp, simp add: unframe_step)
    moreover have "small_frames h bs"
      using True 1(2) small_frames_step[of h bs] small_frames_step[of h "bs @ cs"]
      by (cases "h = 0") (auto simp: small_frames.simps[of 0])
    ultimately show ?thesis using 1(2) by simp
  next
    case False
    then have h: "0 < h" and w: "whole h bs" by auto
    let ?rest = "drop (be_val (take h bs)) (drop h bs)"
    note wa = whole_append[OF w, of cs]
    have "small_frames h (?rest @ cs)" "be_val (take h bs) < LIMIT"
      using 1(2) small_frames_step[OF h, of "bs @ cs"] wa w by (auto simp: whole_def)
    moreover have "length bs \<ge> h" "\<not> length (drop h bs) < be_val (take h bs)" using w by (auto simp: whole_def)
    ultimately have "small_frames h (snd (unframe h ?rest) @ cs)" "small_frames h ?rest"
      using 1(1) h by auto
    moreover have "snd (unframe h bs) = snd (unframe h ?rest)" using w h by (simp add: unframe_step[of h bs] Let_def)
    moreover have "small_frames h bs"
      using small_frames_step[OF h, of bs] w \<open>be_val (take h bs) < LIMIT\<close> \<open>small_frames h ?rest\<close> by simp
    ultimately show ?thesis by simp
  qed
qed

lemma forward_call_cong [simp]:
  "forward_call (g\<lparr>gt_mp := mp\<rparr>) = forward_call g" "has_target (g\<lparr>gt_mp := mp\<rparr>) = has_target g"
  "forward_call g (c\<lparr>c_buffer := db\<rparr>) = forward_call g c" "has_target g (c\<lparr>c_buffer := db\<rparr>) = has_target g c"
  by (auto simp: forward_call_def has_target_def fun_eq_iff)

lemma message_loop_frames:
  assumes h: "header_width h"
    and "gt_header_size g = int h" "db_ok (c_buffer c)" "header_ok h (c_buffer c)" "has_target g c"
    and "small_frames h (db_left h (c_buffer c))"
  shows "\<exists>g' c'. message_loop g c uid =
      Some (g', c', map (forward_call g c) (filter (\<lambda>p. p \<noteq> []) (fst (unframe h (db_left h (c_buffer c)))))) \<and>
    db_ok (c_buffer c') \<and> header_ok h (c_buffer c') \<and> same_but_buffer g c g' c' \<and>
    db_left h (c_buffer c') = snd (unframe h (db_left h (c_buffer c)))"
  using assms(2-6)
proof (induction "length (db_left h (c_buffer c))" arbitrary: g c rule: less_induct)
  case less
  let ?L = "db_left h (c_buffer c)" and ?n = "be_val (take h (db_left h (c_buffer c)))"
  have h0: "0 < h" using h by (auto simp: header_width_def)
  note sm = small_frames_step[OF h0, THEN iffD1, OF less.prems(5)]
  then have lim: "h \<le> length ?L \<Longrightarrow> ?n < 2 ^ 31" by (auto simp: LIMIT_def)
  obtain n db mp where r: "databuffer_readheader (c_buffer c) (gt_mp g) (int h) = Some (n, db, mp)" "db_ok db" "header_ok h db"
      "balanced (c_buffer c) (gt_mp g) db mp"
      "if whole h ?L then n = int ?n \<and> db_header db = n \<and> content db = drop h ?L else n = -1 \<and> db_left h db = ?L"
    using readheader_ok[OF h less.prems(2,3) lim, of "gt_mp g"] by blast
  let ?g = "g\<lparr>gt_mp := mp\<rparr>" and ?c = "c\<lparr>c_buffer := db\<rparr>"
  show ?case
  proof (cases "whole h ?L")
    case False
    then show ?thesis using r less.prems(1) h0
      by (subst message_loop.simps) (simp add: unframe_step same_but_buffer_def)
  next
    case w: True
    then have n: "n = int ?n" "?n < LIMIT" "content db = drop h ?L" "db_header db = n" using r(5) sm by (auto simp: whole_def)
    let ?rest = "drop ?n (drop h ?L)"
    have sr: "small_frames h ?rest" using sm w by simp
    have un: "unframe h ?L = (take ?n (drop h ?L) # fst (unframe h ?rest), snd (unframe h ?rest))"
      using w h0 by (simp add: unframe_step[of h ?L] Let_def)
    have dec: "length ?rest < length ?L" using w h0 by (auto simp: whole_def)
    show ?thesis
    proof (cases "?n = 0")
      case True
      then have l: "db_left h db = ?rest" using n by (simp add: db_left_def)
      obtain g' c' where "message_loop ?g ?c uid = Some (g', c', map (forward_call g c) (filter (\<lambda>p. p \<noteq> []) (fst (unframe h ?rest))))"
          "db_ok (c_buffer c')" "header_ok h (c_buffer c')" "same_but_buffer ?g ?c g' c'"
          "db_left h (c_buffer c') = snd (unframe h ?rest)"
        using less.hyps[of ?c ?g] l dec r(2,3) less.prems sr by auto
      then show ?thesis using r(1) n(1) True un less.prems(1) same_but_buffer_step[OF _ r(4)]
        by (subst message_loop.simps) (auto simp: databuffer_reset_def)
    next
      case False
      have le: "0 < n" "n \<le> int (length (content db))" "\<not> 0x1000000 \<le> n"
        using False n w by (auto simp: whole_def LIMIT_def)
      obtain db2 mp2 where f: "forward ?g ?c n = Some (?c\<lparr>c_buffer := db2\<rparr>, mp2, [forward_call g c (take ?n (drop h ?L))])"
          "db_ok db2" "balanced db mp db2 mp2" "content db2 = ?rest"
        using forward_ok[of ?c n ?g] r(2) le less.prems(4) n(1,3) by auto
      let ?g2 = "g\<lparr>gt_mp := mp2\<rparr>" and ?c2 = "c\<lparr>c_buffer := databuffer_reset db2\<rparr>"
      have l: "db_left h (databuffer_reset db2) = ?rest" "db_ok (databuffer_reset db2)" "header_ok h (databuffer_reset db2)"
        using f(2,4) by (simp_all add: db_left_def databuffer_reset_def header_ok_def)
      obtain g' c' where "message_loop ?g2 ?c2 uid = Some (g', c', map (forward_call g c) (filter (\<lambda>p. p \<noteq> []) (fst (unframe h ?rest))))"
          "db_ok (c_buffer c')" "header_ok h (c_buffer c')" "same_but_buffer ?g2 ?c2 g' c'"
          "db_left h (c_buffer c') = snd (unframe h ?rest)"
        using less.hyps[of ?c2 ?g2] l dec less.prems sr by auto
      moreover have "balanced (c_buffer c) (gt_mp g) (databuffer_reset db2) mp2"
        using balanced_trans[OF r(4) f(3)] by (simp add: databuffer_reset_def)
      moreover have "take ?n (drop h ?L) \<noteq> []" using False w by (auto simp: whole_def)
      ultimately show ?thesis
        using r(1) f(1) le un less.prems(1) same_but_buffer_step[where mp = mp2 and db = "databuffer_reset db2"]
        by (subst message_loop.simps) auto
    qed
  qed
qed

end
