(* ===== verification/Gate_Props.thy ===== *)
theory Gate_Props
  imports Gate_Spec Server_Props
begin

text \<open>
  The invariant of the gate and its properties: which event makes it fail and that no other does, that no
  node of the buffer pool is lost or shared; the messages forwarded are those the streams hold;
  and two inputs on which the code does not do what it means to.
\<close>

section \<open>Invariant\<close>

definition pool_ok :: "gate \<Rightarrow> bool" where
  "pool_ok g \<longleftrightarrow>
     sum_list (map (\<lambda>c. nodes (c_buffer c)) (gt_conn g)) + mset (mp_freelist (gt_mp g)) = mp_nodes (gt_mp g)"

definition gate_ok :: "gate \<Rightarrow> bool" where
  "gate_ok g \<longleftrightarrow>
     hashid_ok (gt_hash g) \<and> length (gt_conn g) = length (hi_id (gt_hash g)) \<and>
     (gt_header_size g = 2 \<or> gt_header_size g = 4) \<and>
     (\<forall>c \<in> set (gt_conn g). db_ok (c_buffer c)) \<and> pool_ok g \<and>
     (\<forall>uid i. idmap (gt_hash g) uid = Some i \<longrightarrow> c_id (gt_conn g ! i) = uid) \<and>
     (\<forall>i < length (gt_conn g). i \<notin> ran (idmap (gt_hash g)) \<longrightarrow> c_buffer (gt_conn g ! i) = databuffer_zero)"

lemma gate_okI:
  assumes "hashid_ok (gt_hash g)" "length (gt_conn g) = length (hi_id (gt_hash g))"
    "gt_header_size g = 2 \<or> gt_header_size g = 4" "\<And>c. c \<in> set (gt_conn g) \<Longrightarrow> db_ok (c_buffer c)" "pool_ok g"
    "\<And>uid i. idmap (gt_hash g) uid = Some i \<Longrightarrow> c_id (gt_conn g ! i) = uid"
    "\<And>i. i < length (gt_conn g) \<Longrightarrow> i \<notin> ran (idmap (gt_hash g)) \<Longrightarrow> c_buffer (gt_conn g ! i) = databuffer_zero"
  shows "gate_ok g"
  using assms by (auto simp: gate_ok_def)

lemma gate_okD:
  assumes "gate_ok g"
  shows "hashid_ok (gt_hash g)" "length (gt_conn g) = length (hi_id (gt_hash g))"
    "gt_header_size g = 2 \<or> gt_header_size g = 4" "\<And>c. c \<in> set (gt_conn g) \<Longrightarrow> db_ok (c_buffer c)" "pool_ok g"
    "\<And>uid i. idmap (gt_hash g) uid = Some i \<Longrightarrow> c_id (gt_conn g ! i) = uid"
    "\<And>i. i < length (gt_conn g) \<Longrightarrow> i \<notin> ran (idmap (gt_hash g)) \<Longrightarrow> c_buffer (gt_conn g ! i) = databuffer_zero"
  using assms by (auto simp: gate_ok_def)

lemma conn_put_fields [simp]:
  "gt_conn (conn_put (int i) c g) = (gt_conn g)[i := c]" "gt_hash (conn_put j c g) = gt_hash g"
  "gt_header_size (conn_put j c g) = gt_header_size g" "gt_mp (conn_put j c g) = gt_mp g"
  "gt_listen_id (conn_put j c g) = gt_listen_id g"
  by (simp_all add: conn_put_def)

lemma sum_list_update_add:
  fixes xs :: "'a::comm_monoid_add list"
  shows "i < length xs \<Longrightarrow> sum_list (xs[i := x]) + xs ! i = sum_list xs + x"
proof (induction xs arbitrary: i)
  case (Cons a xs)
  then show ?case by (cases i) (simp_all add: ac_simps)
qed simp

text \<open>One connection changes, with the pool in balance.\<close>

lemma pool_ok_update:
  assumes "pool_ok g" "i < length (gt_conn g)" "balanced (c_buffer (gt_conn g ! i)) (gt_mp g) (c_buffer c) mp"
  shows "pool_ok (g\<lparr>gt_mp := mp, gt_conn := (gt_conn g)[i := c]\<rparr>)"
proof -
  let ?f = "\<lambda>c. nodes (c_buffer c)" and ?old = "gt_conn g ! i"
  have "sum_list (map ?f ((gt_conn g)[i := c])) + ?f ?old = sum_list (map ?f (gt_conn g)) + ?f c"
    using sum_list_update_add[of i "map ?f (gt_conn g)" "?f c"] assms(2) by (simp add: map_update)
  moreover have "gt_conn (g\<lparr>gt_mp := mp, gt_conn := (gt_conn g)[i := c]\<rparr>) = (gt_conn g)[i := c]"
    "gt_mp (g\<lparr>gt_mp := mp, gt_conn := (gt_conn g)[i := c]\<rparr>) = mp" by simp_all
  ultimately show ?thesis
    using assms(1,3) unfolding pool_ok_def balanced_def multiset_eq_iff count_union
    apply (simp only:)
    apply (intro allI)
    subgoal for x by (drule spec[of _ x], drule spec[of _ x], drule spec[of _ x]) presburger
    done
qed

lemma idmap_slot: "hashid_ok tb \<Longrightarrow> idmap tb uid = Some i \<Longrightarrow> i < length (hi_id tb)"
  by (simp add: idmap_Some_iff used_def)

lemma idmap_inj: "hashid_ok tb \<Longrightarrow> idmap tb u = Some i \<Longrightarrow> idmap tb v = Some i \<Longrightarrow> u = v"
  by (simp add: idmap_Some_iff)

lemma slot_less: "gate_ok g \<Longrightarrow> idmap (gt_hash g) uid = Some i \<Longrightarrow> i < length (gt_conn g)"
  using idmap_slot[of "gt_hash g" uid i] by (simp add: gate_ok_def)

lemma table_length:
  "gate_ok g \<Longrightarrow> hashid_ok tb \<Longrightarrow> hi_cap tb = hi_cap (gt_hash g) \<Longrightarrow> length (hi_id tb) = length (gt_conn g)"
  by (auto simp: gate_ok_def hashid_ok_def)

lemma db_ok_set:
  "gate_ok g \<Longrightarrow> db_ok (c_buffer c) \<Longrightarrow> x \<in> set ((gt_conn g)[i := c]) \<Longrightarrow> db_ok (c_buffer x)"
  using gate_okD(4)[of g] set_update_subset_insert[of "gt_conn g" i c] by auto

lemma gate_ok_update:
  assumes ok: "gate_ok g" and i: "idmap (gt_hash g) uid = Some i" "db_ok (c_buffer c)" "c_id c = c_id (gt_conn g ! i)"
    and mp: "balanced (c_buffer (gt_conn g ! i)) (gt_mp g) (c_buffer c) mp"
  shows "gate_ok (conn_put (int i) c (g\<lparr>gt_mp := mp\<rparr>))"
proof (rule gate_okI)
  note len = slot_less[OF ok i(1)]
  show "pool_ok (conn_put (int i) c (g\<lparr>gt_mp := mp\<rparr>))"
    using pool_ok_update[OF gate_okD(5)[OF ok] len mp] by (simp add: conn_put_def)
  show "db_ok (c_buffer x)" if "x \<in> set (gt_conn (conn_put (int i) c (g\<lparr>gt_mp := mp\<rparr>)))" for x
    using db_ok_set[OF ok i(2)] that by simp
  show "c_id (gt_conn (conn_put (int i) c (g\<lparr>gt_mp := mp\<rparr>)) ! j) = u"
    if "idmap (gt_hash (conn_put (int i) c (g\<lparr>gt_mp := mp\<rparr>))) u = Some j" for u j
    using that gate_okD(6)[OF ok, of u j] i(3) len by (cases "j = i") simp_all
  show "c_buffer (gt_conn (conn_put (int i) c (g\<lparr>gt_mp := mp\<rparr>)) ! j) = databuffer_zero"
    if "j < length (gt_conn (conn_put (int i) c (g\<lparr>gt_mp := mp\<rparr>)))"
      "j \<notin> ran (idmap (gt_hash (conn_put (int i) c (g\<lparr>gt_mp := mp\<rparr>))))" for j
    using that gate_okD(7)[OF ok, of j] i(1) by (cases "j = i") (auto simp: ran_def)
qed (use gate_okD[OF ok] in simp_all)

lemma conn_at_slot:
  "gate_ok g \<Longrightarrow> idmap (gt_hash g) uid = Some i \<Longrightarrow> conn_at g (int i) = Some (gt_conn g ! i)"
  using slot_less by (simp add: conn_at_def)

lemma gate_ok_conn: "gate_ok g \<Longrightarrow> i < length (gt_conn g) \<Longrightarrow> db_ok (c_buffer (gt_conn g ! i))"
  by (simp add: gate_ok_def)

lemma gate_ok_width: "gate_ok g \<Longrightarrow> \<exists>h. header_width h \<and> gt_header_size g = int h"
  by (auto simp: gate_ok_def header_width_def)

section \<open>Every event is handled\<close>

lemma gate_dispatch_message_ok:
  assumes ok: "gate_ok g" and i: "idmap (gt_hash g) uid = Some i" and d: "0 \<le> sz" "sz \<le> int (length data)"
  shows "\<exists>g' calls. gate_dispatch_message g (int i) uid data sz = Some (g', calls) \<and> gate_ok g' \<and> gt_hash g' = gt_hash g"
proof -
  let ?c = "gt_conn g ! i"
  note len = slot_less[OF ok i]
  obtain db mp where p: "databuffer_push (c_buffer ?c) (gt_mp g) data sz = (db, mp)" by fastforce
  note po = databuffer_push_ok[OF gate_ok_conn[OF ok len] d p]
  obtain h where h: "header_width h" "gt_header_size g = int h" using gate_ok_width[OF ok] by blast
  obtain g' c' calls where l: "message_loop (g\<lparr>gt_mp := mp\<rparr>) (?c\<lparr>c_buffer := db\<rparr>) uid = Some (g', c', calls)"
      "db_ok (c_buffer c')" "same_but_buffer (g\<lparr>gt_mp := mp\<rparr>) (?c\<lparr>c_buffer := db\<rparr>) g' c'"
    using message_loop_total[OF h(1), of "g\<lparr>gt_mp := mp\<rparr>" "?c\<lparr>c_buffer := db\<rparr>" uid] po(1) h(2) by auto
  note sb = same_but_buffer_step[OF l(3) po(4)]
  then have g': "g' = g\<lparr>gt_mp := gt_mp g'\<rparr>" "c_id c' = c_id ?c" "balanced (c_buffer ?c) (gt_mp g) (c_buffer c') (gt_mp g')"
    by (simp_all add: same_but_buffer_def) (metis connection.select_convs(1) connection.surjective connection.update_convs(5))
  have "gate_ok (conn_put (int i) c' (g\<lparr>gt_mp := gt_mp g'\<rparr>))" by (rule gate_ok_update[OF ok i l(2) g'(2,3)])
  moreover have "gate_dispatch_message g (int i) uid data sz = Some (conn_put (int i) c' g', calls)"
    using conn_at_slot[OF ok i] p l(1) by (simp add: gate_dispatch_message_def)
  ultimately show ?thesis using g'(1) by (metis conn_put_def gate.select_convs(7) gate.surjective gate.update_convs(8,9))
qed

lemma gate_ok_close:
  assumes ok: "gate_ok g" and i: "idmap (gt_hash g) uid = Some i"
    and tb: "hashid_ok tb" "idmap tb = (idmap (gt_hash g))(uid := None)" "hi_cap tb = hi_cap (gt_hash g)"
    and mp: "balanced (c_buffer (gt_conn g ! i)) (gt_mp g) databuffer_zero mp" and c: "c_buffer c = databuffer_zero"
  shows "gate_ok (conn_put (int i) c (g\<lparr>gt_hash := tb, gt_mp := mp\<rparr>))" (is "gate_ok ?g")
proof (rule gate_okI)
  note len = slot_less[OF ok i] table_length[OF ok tb(1,3)]
  have "pool_ok (g\<lparr>gt_mp := mp, gt_conn := (gt_conn g)[i := c]\<rparr>)"
    using pool_ok_update[OF gate_okD(5)[OF ok] len(1)] mp c by simp
  then show "pool_ok ?g" by (simp add: pool_ok_def)
  show "db_ok (c_buffer x)" if "x \<in> set (gt_conn ?g)" for x
    using db_ok_set[OF ok, of c] c db_ok_zero that by simp
  show "c_id (gt_conn ?g ! j) = u" if "idmap (gt_hash ?g) u = Some j" for u j
  proof -
    have u: "u \<noteq> uid" "idmap (gt_hash g) u = Some j" using that tb(2) by (auto split: if_splits)
    then have "j \<noteq> i" using idmap_inj[OF gate_okD(1)[OF ok] i, of u] by auto
    then show ?thesis using gate_okD(6)[OF ok u(2)] by simp
  qed
  show "c_buffer (gt_conn ?g ! j) = databuffer_zero" if "j < length (gt_conn ?g)" "j \<notin> ran (idmap (gt_hash ?g))" for j
  proof (cases "j = i")
    case False
    have "j \<notin> ran (idmap (gt_hash g))"
      using that(2) False i tb(2) by (auto simp: ran_def split: if_splits) (metis option.inject)
    then show ?thesis using that(1) False gate_okD(7)[OF ok, of j] by simp
  qed (use c len in simp)
  show "length (gt_conn ?g) = length (hi_id (gt_hash ?g))" using len by simp
qed (use gate_okD[OF ok] tb in simp_all)

lemma gate_ok_accept:
  assumes ok: "gate_ok g" and i: "i < length (gt_conn g)" "i \<notin> ran (idmap (gt_hash g))" "idmap (gt_hash g) uid = None"
    and tb: "hashid_ok tb" "idmap tb = (idmap (gt_hash g))(uid \<mapsto> i)" "hi_cap tb = hi_cap (gt_hash g)"
    and c: "c_buffer c = c_buffer (gt_conn g ! i)" "c_id c = uid"
  shows "gate_ok (conn_put (int i) c (g\<lparr>gt_hash := tb\<rparr>))" (is "gate_ok ?g")
proof (rule gate_okI)
  note len = table_length[OF ok tb(1,3)]
  have "map (\<lambda>c. nodes (c_buffer c)) ((gt_conn g)[i := c]) = map (\<lambda>c. nodes (c_buffer c)) (gt_conn g)"
    unfolding map_update c(1) using i(1) by (metis (no_types, lifting) list_update_id nth_map)
  then show "pool_ok ?g" using gate_okD(5)[OF ok] by (simp add: pool_ok_def)
  show "db_ok (c_buffer x)" if "x \<in> set (gt_conn ?g)" for x
    using db_ok_set[OF ok, of c] c(1) gate_okD(4)[OF ok nth_mem[OF i(1)]] that by simp
  show "c_id (gt_conn ?g ! j) = u" if "idmap (gt_hash ?g) u = Some j" for u j
  proof (cases "u = uid")
    case True
    then show ?thesis using that tb(2) c(2) i(1) by simp
  next
    case False
    then have "idmap (gt_hash g) u = Some j" "j \<noteq> i" using that tb(2) i(2) by (auto simp: ran_def)
    then show ?thesis using gate_okD(6)[OF ok, of u j] by simp
  qed
  show "c_buffer (gt_conn ?g ! j) = databuffer_zero" if "j < length (gt_conn ?g)" "j \<notin> ran (idmap (gt_hash ?g))" for j
  proof -
    have "j \<notin> ran (idmap (gt_hash g))" "j \<noteq> i" using that(2) tb(2) i(3) by auto
    then show ?thesis using that(1) gate_okD(7)[OF ok, of j] by simp
  qed
  show "length (gt_conn ?g) = length (hi_id (gt_hash ?g))" using len by simp
qed (use gate_okD[OF ok] tb in simp_all)

text \<open>
  What the socket thread sends: data comes with a buffer that holds it, and a new connection
  comes with an id that is not in use and that can be added to the size of the table as an \<open>int\<close>. It need not come from the
  socket the gate listens on now.
\<close>

definition valid_socket :: "gate \<Rightarrow> skynet_socket_message \<Rightarrow> int \<Rightarrow> bool" where
  "valid_socket g m sz \<longleftrightarrow>
     (sm_type m = SKYNET_SOCKET_TYPE_DATA \<longrightarrow>
        0 \<le> sm_ud m \<and> (case sm_buffer m of None \<Rightarrow> False | Some b \<Rightarrow> sm_ud m \<le> int (length b))) \<and>
     (sm_type m = SKYNET_SOCKET_TYPE_ACCEPT \<longrightarrow>
        idmap (gt_hash g) (sm_ud m) = None \<and>
        0 \<le> sm_ud m \<and> sm_ud m + hi_cap (gt_hash g) \<le> 2 ^ 31 \<and> accept_name (sm_padding m) sz \<noteq> None)"

lemmas socket_types = SKYNET_SOCKET_TYPE_DATA_def SKYNET_SOCKET_TYPE_CONNECT_def SKYNET_SOCKET_TYPE_CLOSE_def
  SKYNET_SOCKET_TYPE_ACCEPT_def SKYNET_SOCKET_TYPE_ERROR_def SKYNET_SOCKET_TYPE_UDP_def SKYNET_SOCKET_TYPE_WARNING_def

lemma gate_ok_hash: "gate_ok g \<Longrightarrow> hashid_ok (gt_hash g)"
  by (simp add: gate_ok_def)

lemma gate_lookup:
  "gate_ok g \<Longrightarrow> hashid_lookup (gt_hash g) uid = Some (case idmap (gt_hash g) uid of None \<Rightarrow> -1 | Some i \<Rightarrow> int i)"
  by (rule hashid_lookup_ok[OF gate_ok_hash])

lemma close_ok:
  assumes "gate_ok g" "sm_type m = SKYNET_SOCKET_TYPE_CLOSE \<or> sm_type m = SKYNET_SOCKET_TYPE_ERROR"
  shows "\<exists>g' calls. dispatch_socket_message m sz g = Some (g', calls) \<and> gate_ok g' \<and>
    idmap (gt_hash g') = (idmap (gt_hash g))(sm_id m := None)"
proof -
  obtain tb where tb: "hashid_remove (gt_hash g) (sm_id m) = Some (case idmap (gt_hash g) (sm_id m) of None \<Rightarrow> -1 | Some i \<Rightarrow> int i, tb)"
      "hashid_ok tb" "idmap tb = (idmap (gt_hash g))(sm_id m := None)" "hi_cap tb = hi_cap (gt_hash g)"
    using hashid_remove_ok[OF gate_ok_hash[OF assms(1)]] by blast
  show ?thesis
  proof (cases "idmap (gt_hash g) (sm_id m)")
    case None
    then have "hashid_remove (gt_hash g) (sm_id m) = Some (-1, gt_hash g)"
      using hashid_remove_None[OF gate_ok_hash[OF assms(1)]] by simp
    then show ?thesis using assms None
      by (auto simp: dispatch_socket_message_def socket_types fun_upd_idem)
  next
    case (Some i)
    obtain mp where mp: "databuffer_clear (c_buffer (gt_conn g ! i)) (gt_mp g) = Some (databuffer_zero, mp)"
        "balanced (c_buffer (gt_conn g ! i)) (gt_mp g) databuffer_zero mp"
      using databuffer_clear_ok by blast
    have at: "conn_at (g\<lparr>gt_hash := tb\<rparr>) (int i) = Some (gt_conn g ! i)"
      using slot_less[OF assms(1) Some] by (simp add: conn_at_def)
    have "gate_ok (conn_put (int i) (connection_zero\<lparr>c_id := -1\<rparr>) (g\<lparr>gt_hash := tb, gt_mp := mp\<rparr>))"
      using gate_ok_close[OF assms(1) Some tb(2-4) mp(2)] by (simp add: connection_zero_def)
    then show ?thesis using assms(2) tb Some mp(1) at
      by (auto simp: dispatch_socket_message_def socket_types conn_put_def)
  qed
qed

text \<open>A new connection of another socket than the one the gate listens on.\<close>

definition foreign_accept :: "gate \<Rightarrow> skynet_socket_message \<Rightarrow> bool" where
  "foreign_accept g m \<longleftrightarrow> sm_type m = SKYNET_SOCKET_TYPE_ACCEPT \<and> sm_id m \<noteq> gt_listen_id g"

lemma foreign_accept_fails: "foreign_accept g m \<Longrightarrow> dispatch_socket_message m sz g = None"
  by (simp add: dispatch_socket_message_def foreign_accept_def socket_types)

lemma accept_ok:
  assumes ok: "gate_ok g" and t: "sm_type m = SKYNET_SOCKET_TYPE_ACCEPT" and v: "valid_socket g m sz"
    and own: "\<not> foreign_accept g m"
  shows "\<exists>g' calls. dispatch_socket_message m sz g = Some (g', calls) \<and> gate_ok g'"
proof (cases "hashid_full (gt_hash g)")
  case True
  then show ?thesis using assms by (auto simp: dispatch_socket_message_def valid_socket_def foreign_accept_def socket_types)
next
  case False
  then obtain i tb where tb: "hashid_insert (gt_hash g) (sm_ud m) = Some (int i, tb)" "hashid_ok tb"
      "i < length (hi_id (gt_hash g))" "i \<notin> ran (idmap (gt_hash g))"
      "idmap tb = (idmap (gt_hash g))(sm_ud m \<mapsto> i)" "hi_cap tb = hi_cap (gt_hash g)"
    using hashid_insert_ok[OF gate_ok_hash[OF ok], of "sm_ud m"] v t by (auto simp: valid_socket_def)
  have len: "i < length (gt_conn g)" using tb(3) ok by (simp add: gate_ok_def)
  obtain name where name: "accept_name (sm_padding m) sz = Some name" using v t by (auto simp: valid_socket_def)
  let ?c = "(gt_conn g ! i)\<lparr>c_id := sm_ud m, c_remote_name := name\<rparr>"
  have "gate_ok (conn_put (int i) ?c (g\<lparr>gt_hash := tb\<rparr>))"
    using gate_ok_accept[OF ok len tb(4) _ tb(2,5,6)] v t by (simp add: valid_socket_def)
  then show ?thesis using False t v own tb(1) name len
    by (auto simp: dispatch_socket_message_def valid_socket_def foreign_accept_def socket_types conn_at_def)
qed

lemma dispatch_socket_message_ok:
  assumes ok: "gate_ok g" and v: "valid_socket g m sz" and own: "\<not> foreign_accept g m"
  shows "\<exists>g' calls. dispatch_socket_message m sz g = Some (g', calls) \<and> gate_ok g'"
proof -
  consider "sm_type m = SKYNET_SOCKET_TYPE_DATA" | "sm_type m = SKYNET_SOCKET_TYPE_ACCEPT"
    | "sm_type m = SKYNET_SOCKET_TYPE_CLOSE \<or> sm_type m = SKYNET_SOCKET_TYPE_ERROR"
    | "sm_type m \<notin> {SKYNET_SOCKET_TYPE_DATA, SKYNET_SOCKET_TYPE_ACCEPT, SKYNET_SOCKET_TYPE_CLOSE, SKYNET_SOCKET_TYPE_ERROR}"
    by auto
  then show ?thesis
  proof cases
    case 1
    then obtain b where "sm_buffer m = Some b" "0 \<le> sm_ud m" "sm_ud m \<le> int (length b)"
      using v by (auto simp: valid_socket_def split: option.splits)
    then show ?thesis using 1 ok gate_lookup[OF ok, of "sm_id m"] gate_dispatch_message_ok[OF ok, of "sm_id m"]
      by (cases "idmap (gt_hash g) (sm_id m)") (fastforce simp: dispatch_socket_message_def)+
  next
    case 2
    then show ?thesis using accept_ok[OF ok _ v own] by blast
  next
    case 3
    then show ?thesis using close_ok[OF ok] by blast
  next
    case 4
    then show ?thesis using ok gate_lookup[OF ok, of "sm_id m"]
      by (auto simp: dispatch_socket_message_def split: option.splits)
  qed
qed

section \<open>Commands and other messages\<close>

lemma memcmp_eq_defined:
  "CHR 0x00 \<notin> set msg \<Longrightarrow> i \<le> length msg \<Longrightarrow> memcmp_eq (msg @ [CHR 0x00]) (name @ [CHR 0x00]) i \<noteq> None"
proof (induction msg arbitrary: name i)
  case (Cons x msg)
  then show ?case by (cases i; cases name) auto
qed simp

lemma forward_agent_ok:
  assumes "gate_ok g"
  shows "\<exists>g'. forward_agent fd a c g = Some g' \<and> gate_ok g'"
proof (cases "idmap (gt_hash g) fd")
  case None
  then show ?thesis using assms gate_lookup[OF assms, of fd] by (simp add: forward_agent_def)
next
  case (Some i)
  let ?c = "(gt_conn g ! i)\<lparr>c_agent := a, c_client := c\<rparr>"
  have "gate_ok (conn_put (int i) ?c (g\<lparr>gt_mp := gt_mp g\<rparr>))"
    using gate_okD(4)[OF assms nth_mem[OF slot_less[OF assms Some]]] by (intro gate_ok_update[OF assms Some]) simp_all
  then show ?thesis using gate_lookup[OF assms, of fd] Some conn_at_slot[OF assms Some] by (simp add: forward_agent_def)
qed

lemma ctrl_forward_ok: "gate_ok g \<Longrightarrow> \<exists>g'. ctrl_forward tmp g = Some g' \<and> gate_ok g'"
  using forward_agent_ok by (auto simp: ctrl_forward_def split: prod.splits option.splits)

lemma ctrl_socket_ok: "gate_ok g \<Longrightarrow> \<exists>calls. ctrl_socket call tmp g = Some (g, calls)"
  using gate_lookup[of g "int_at tmp"] by (simp add: ctrl_socket_def Let_def)

lemma gate_ok_plain: "gate_ok (g\<lparr>gt_broker := b\<rparr>) = gate_ok g" "gate_ok (g\<lparr>gt_listen_id := l\<rparr>) = gate_ok g"
  by (simp_all add: gate_ok_def pool_ok_def)

lemma ctrl_ok:
  assumes ok: "gate_ok g" and query: "\<forall>name. query name \<noteq> None" and nul: "CHR 0x00 \<notin> set msg"
  shows "\<exists>g' calls. ctrl query msg g = Some (g', calls) \<and> gate_ok g'"
proof (cases "msg = []")
  case False
  let ?i = "length (takeWhile (\<lambda>c. c \<noteq> CHR '' '') msg)"
  have i: "?i \<le> length msg" by (rule length_takeWhile_le)
  have "\<exists>b. is_command (msg @ [CHR 0x00]) ?i name = Some b" for name
    using memcmp_eq_defined[OF nul i] by (simp add: is_command_def)
  then obtain kick fwd broker start cl where
    "is_command (msg @ [CHR 0x00]) ?i ''kick'' = Some kick" "is_command (msg @ [CHR 0x00]) ?i ''forward'' = Some fwd"
    "is_command (msg @ [CHR 0x00]) ?i ''broker'' = Some broker" "is_command (msg @ [CHR 0x00]) ?i ''start'' = Some start"
    "is_command (msg @ [CHR 0x00]) ?i ''close'' = Some cl" by metis
  moreover obtain h where "query (c_string (parm (msg @ [CHR 0x00]) ?i)) = Some h" using query by fastforce
  moreover obtain g1 where "ctrl_forward (parm (msg @ [CHR 0x00]) ?i) g = Some g1" "gate_ok g1"
    using ctrl_forward_ok[OF ok] by blast
  moreover obtain c1 c2 where "ctrl_socket Socket_close (parm (msg @ [CHR 0x00]) ?i) g = Some (g, c1)"
    "ctrl_socket Socket_start (parm (msg @ [CHR 0x00]) ?i) g = Some (g, c2)" using ctrl_socket_ok[OF ok] by meson
  ultimately show ?thesis using False ok by (simp add: ctrl_def Let_def gate_ok_plain)
qed (use ok in \<open>simp add: ctrl_def\<close>)

text \<open>The messages the gate is sent: a text has no NUL byte, and its size is that of its data.\<close>

definition valid_message :: "gate \<Rightarrow> nat \<Rightarrow> msg_payload option \<Rightarrow> nat \<Rightarrow> bool" where
  "valid_message g type msg sz \<longleftrightarrow>
     (type = PTYPE_TEXT \<longrightarrow> (case msg of
        Some (Bytes bs) \<Rightarrow> sz \<le> length bs \<and> 0 \<notin> set (take sz bs) | _ \<Rightarrow> sz = 0)) \<and>
     (type = PTYPE_CLIENT \<longrightarrow> sz \<le> 4 \<or> (case msg of Some (Bytes bs) \<Rightarrow> sz \<le> length bs | _ \<Rightarrow> False)) \<and>
     (type = PTYPE_SOCKET \<longrightarrow> (case msg of
        Some (Socket m) \<Rightarrow> valid_socket g m (int sz - int SOCKET_MESSAGE_SIZE) | _ \<Rightarrow> False))"

text \<open>The one message that makes the gate fail.\<close>

definition fatal :: "gate \<Rightarrow> nat \<Rightarrow> msg_payload option \<Rightarrow> bool" where
  "fatal g type msg \<longleftrightarrow> type = PTYPE_SOCKET \<and> (\<exists>m. msg = Some (Socket m) \<and> foreign_accept g m)"

lemma fatal_fails: "fatal g type msg \<Longrightarrow> cb query type source msg sz g = None"
  by (auto simp: fatal_def cb_def foreign_accept_fails PTYPE_TEXT_def PTYPE_CLIENT_def PTYPE_SOCKET_def)

lemma char_nul_iff: "char_of (unat (b :: u8)) = CHR 0x00 \<Longrightarrow> b = 0"
proof -
  assume "char_of (unat b) = CHR 0x00"
  then have "of_char (char_of (unat b) :: char) = (0 :: nat)" by simp
  then have "unat b mod 256 = 0" by (simp only: of_char_of)
  moreover have "unat b < 256" using unsigned_less[of b] by simp
  ultimately show ?thesis by (simp add: unat_eq_zero)
qed

lemma of_bytes_nul: "0 \<notin> set bs \<Longrightarrow> CHR 0x00 \<notin> set (of_bytes bs)"
proof (induction bs)
  case (Cons b bs)
  then show ?case using char_nul_iff[of b] by (simp add: of_bytes_def) metis
qed (simp add: of_bytes_def)

lemma cb_ok:
  assumes ok: "gate_ok g" and query: "\<forall>name. query name \<noteq> None" and v: "valid_message g type msg sz"
    and own: "\<not> fatal g type msg"
  shows "\<exists>r g' calls. cb query type source msg sz g = Some (r, g', calls) \<and> gate_ok g'"
proof -
  note types = PTYPE_TEXT_def PTYPE_CLIENT_def PTYPE_SOCKET_def
  consider "type = PTYPE_TEXT" | "type = PTYPE_CLIENT" | "type = PTYPE_SOCKET"
    | "type \<notin> {PTYPE_TEXT, PTYPE_CLIENT, PTYPE_SOCKET}" by auto
  then show ?thesis
  proof cases
    case 1
    have "CHR 0x00 \<notin> set (of_bytes (take sz bs))" if "msg = Some (Bytes bs)" for bs
      using v 1 that of_bytes_nul by (simp add: valid_message_def)
    then show ?thesis using 1 v ok ctrl_ok[OF ok query]
      by (fastforce simp: cb_def valid_message_def split: option.splits msg_payload.splits)
  next
    case 2
    then show ?thesis using v ok gate_lookup[OF ok]
      by (auto simp: cb_def valid_message_def types Let_def split: option.splits msg_payload.splits)
  next
    case 3
    then show ?thesis using v own dispatch_socket_message_ok[OF ok]
      by (fastforce simp: cb_def valid_message_def fatal_def types split: option.splits msg_payload.splits)
  next
    case 4
    then show ?thesis using ok by (simp add: cb_def)
  qed
qed

section \<open>The states of a running gate\<close>

inductive gate_reach :: "gate \<Rightarrow> bool" where
  started: "gate_init query listen (Some text) gate_create = Some (0, g, calls) \<Longrightarrow> gt_max_connection g \<le> 2 ^ 30 \<Longrightarrow>
    gate_reach g"
| received: "gate_reach g \<Longrightarrow> valid_message g type msg sz \<Longrightarrow> \<forall>name. query name \<noteq> None \<Longrightarrow>
    cb query type source msg sz g = Some (r, g', calls) \<Longrightarrow> gate_reach g'"

lemma start_listen_fields:
  assumes "start_listen listen addr g = (r, g', calls)"
  shows "gt_hash g' = gt_hash g" "gt_conn g' = gt_conn g" "gt_mp g' = gt_mp g" "gt_header_size g' = gt_header_size g"
    "gt_max_connection g' = gt_max_connection g" "gt_watchdog g' = gt_watchdog g" "gt_broker g' = gt_broker g"
    "gt_client_tag g' = gt_client_tag g"
  using assms by (auto simp: start_listen_def Let_def split: if_splits)

lemma gate_open_ok:
  assumes "gate_open listen header binding tag n g = Some (r, g', calls)" "0 \<le> n" "gt_max_connection g' \<le> 2 ^ 30"
    "gt_mp g = messagepool_zero"
  shows "gate_ok g'"
proof -
  obtain tb where tb: "hashid_init n = Some tb" using assms(1) by (auto simp: gate_open_def bind_eq_Some_iff)
  let ?g = "g\<lparr>gt_hash := tb, gt_conn := replicate (nat n) (connection_zero\<lparr>c_id := -1\<rparr>), gt_max_connection := n,
     gt_client_tag := tag, gt_header_size := (if header = CHR ''S'' then 2 else 4)\<rparr>"
  obtain r' calls' where "start_listen listen binding ?g = (r', g', calls')"
    using assms(1) tb by (auto simp: gate_open_def Let_def split: prod.splits)
  note sf = start_listen_fields[OF this]
  then have "n \<le> 2 ^ 30" using assms(3) by simp
  then have t: "hashid_ok tb" "idmap tb = Map.empty" "hi_cap tb = n" using hashid_init_ok[OF assms(2)] tb by auto
  then have len: "length (hi_id tb) = nat n" by (auto simp: hashid_ok_def)
  have "sum_list (replicate k {#}) = {#}" for k by (induction k) simp_all
  then have pool: "pool_ok ?g" using assms(4)
    by (simp add: pool_ok_def messagepool_zero_def mp_nodes_def connection_zero_def databuffer_zero_def nodes_def map_replicate_const sum_list_replicate)
  show ?thesis
  proof (rule gate_okI)
    show "pool_ok g'" using pool sf by (simp add: pool_ok_def)
  qed (use sf t len db_ok_zero in \<open>auto simp: connection_zero_def\<close>)
qed

lemma gate_init_ok:
  assumes "gate_init query listen (Some text) gate_create = Some (0, g, calls)" "gt_max_connection g \<le> 2 ^ 30"
  shows "gate_ok g"
proof -
  obtain header watchdog binding tag n where p: "scan_parm text = Some (header, watchdog, binding, tag, n)"
    using assms(1) by (auto simp: gate_init_def split: option.splits)
  have "gt_mp (gate_create\<lparr>gt_watchdog := w\<rparr>) = messagepool_zero" for w by (simp add: gate_create_def)
  note go = gate_open_ok[OF _ _ assms(2) this]
  show ?thesis using assms(1) p go
    by (auto simp: gate_init_def Let_def bind_eq_Some_iff split: if_splits)
qed

lemma gate_reach_ok: "gate_reach g \<Longrightarrow> gate_ok g"
proof (induction rule: gate_reach.induct)
  case (received g type msg sz query source r g' calls)
  moreover have "\<not> fatal g type msg" using received(4) fatal_fails by fastforce
  ultimately show ?case using cb_ok[of g query type msg sz source] by auto
qed (rule gate_init_ok)

text \<open>
  C23. Whatever clients send and whatever events and commands arrive, in any order, a running gate
  answers every message but one kind: no assertion fails, no read leaves a buffer, no loop runs on. The one that makes it
  fail is the report of a new connection from another socket than the one it listens on, for example one that was
  queued before a \<open>close\<close> command was handled; with it the gate always fails. In every
  state it reaches, the table and the connections agree, and every node of the message pool is
  either free or in the buffer of exactly one connection: none is lost, none is used twice. A new connection
  has an id that is not in use and, added to the size of the table, within an \<open>int\<close>; the table has at most \<open>2 ^ 30\<close> slots.
\<close>

theorem gate_fails_only_on_foreign_accept:
  assumes "gate_reach g" "valid_message g type msg sz" "\<forall>name. query name \<noteq> None"
  shows "if fatal g type msg then cb query type source msg sz g = None
    else \<exists>r g' calls. cb query type source msg sz g = Some (r, g', calls) \<and> gate_ok g' \<and>
      sum_list (map (\<lambda>c. nodes (c_buffer c)) (gt_conn g')) + mset (mp_freelist (gt_mp g')) = mp_nodes (gt_mp g')"
proof (cases "fatal g type msg")
  case False
  then show ?thesis
    using cb_ok[OF gate_reach_ok[OF assms(1)] assms(3,2), of source] gate_okD(5) by (auto simp: pool_ok_def)
qed (simp add: fatal_fails)

section \<open>Streams\<close>

text \<open>Data that arrived on socket \<open>uid\<close>, and what the gate holds back of that stream.\<close>

definition data_from :: "int \<Rightarrow> u8 list \<Rightarrow> skynet_socket_message" where
  "data_from uid chunk =
     \<lparr>sm_type = SKYNET_SOCKET_TYPE_DATA, sm_id = uid, sm_ud = int (length chunk), sm_buffer = Some chunk, sm_padding = []\<rparr>"

definition gate_feed :: "int \<Rightarrow> u8 list \<Rightarrow> gate \<Rightarrow> (gate_call list \<times> gate) option" where
  "gate_feed uid chunk g = map_option prod.swap (dispatch_socket_message (data_from uid chunk) 0 g)"

definition gate_left :: "nat \<Rightarrow> int \<Rightarrow> gate \<Rightarrow> u8 list" where
  "gate_left h uid g = (case idmap (gt_hash g) uid of None \<Rightarrow> [] | Some i \<Rightarrow> db_left h (c_buffer (gt_conn g ! i)))"

text \<open>A gate that goes on from \<open>g0\<close> with the same connections, those of \<open>K\<close> each with the receiver it had.\<close>

definition follows :: "nat \<Rightarrow> int set \<Rightarrow> gate \<Rightarrow> gate \<Rightarrow> bool" where
  "follows h K g0 g \<longleftrightarrow> gate_ok g \<and> gt_header_size g = int h \<and> idmap (gt_hash g) = idmap (gt_hash g0) \<and>
     (\<forall>uid \<in> K. \<forall>i. idmap (gt_hash g0) uid = Some i \<longrightarrow> header_ok h (c_buffer (gt_conn g ! i)) \<and>
        has_target g (gt_conn g ! i) \<and> forward_call g (gt_conn g ! i) = forward_call g0 (gt_conn g0 ! i))"

definition conn_of :: "gate \<Rightarrow> int \<Rightarrow> connection" where
  "conn_of g uid = gt_conn g ! the (idmap (gt_hash g) uid)"

lemma forward_call_put [simp]:
  "forward_call (conn_put j c g) = forward_call g" "has_target (conn_put j c g) = has_target g"
  by (auto simp: forward_call_def has_target_def conn_put_def fun_eq_iff)

lemma follows_put:
  assumes f: "follows h K g0 g" and i: "idmap (gt_hash g0) uid = Some i" and c: "header_ok h (c_buffer c)"
    "forward_call g c = forward_call g (gt_conn g ! i)" "has_target g c = has_target g (gt_conn g ! i)"
    and ok: "gate_ok (conn_put (int i) c (g\<lparr>gt_mp := mp\<rparr>))"
  shows "follows h K g0 (conn_put (int i) c (g\<lparr>gt_mp := mp\<rparr>))" (is "follows h K g0 ?g")
  unfolding follows_def
proof (intro conjI ballI allI impI)
  have len: "i < length (gt_conn g)" using f i slot_less[of g uid i] by (simp add: follows_def)
  fix v j
  assume v: "v \<in> K" and j: "idmap (gt_hash g0) v = Some j"
  have old: "header_ok h (c_buffer (gt_conn g ! j))" "has_target g (gt_conn g ! j)"
    "forward_call g (gt_conn g ! j) = forward_call g0 (gt_conn g0 ! j)" using f v j by (auto simp: follows_def)
  show "header_ok h (c_buffer (gt_conn ?g ! j))" "has_target ?g (gt_conn ?g ! j)"
    "forward_call ?g (gt_conn ?g ! j) = forward_call g0 (gt_conn g0 ! j)"
    using old c len by (cases "j = i"; simp)+
qed (use f ok in \<open>simp_all add: follows_def\<close>)

lemma gate_feed_ok:
  assumes f: "follows h K g0 g" and i: "uid \<in> K" "idmap (gt_hash g0) uid = Some i" and sm: "small_frames h (gate_left h uid g @ chunk)"
  shows "\<exists>g'. gate_feed uid chunk g = Some (map (forward_call g0 (gt_conn g0 ! i))
        (filter (\<lambda>p. p \<noteq> []) (fst (unframe h (gate_left h uid g @ chunk)))), g') \<and> follows h K g0 g' \<and>
    gate_left h uid g' = snd (unframe h (gate_left h uid g @ chunk)) \<and>
    (\<forall>v \<in> dom (idmap (gt_hash g0)). v \<noteq> uid \<longrightarrow> gate_left h v g' = gate_left h v g)"
proof -
  let ?c = "gt_conn g ! i"
  have ok: "gate_ok g" and hs: "gt_header_size g = int h" and m: "idmap (gt_hash g) = idmap (gt_hash g0)"
    and c: "header_ok h (c_buffer ?c)" "has_target g ?c" "forward_call g ?c = forward_call g0 (gt_conn g0 ! i)"
    using f i by (auto simp: follows_def)
  have ig: "idmap (gt_hash g) uid = Some i" using m i by simp
  note len = slot_less[OF ok ig]
  have h: "header_width h" using gate_okD(3)[OF ok] hs by (auto simp: header_width_def)
  obtain db mp where p: "databuffer_push (c_buffer ?c) (gt_mp g) chunk (int (length chunk)) = (db, mp)" by fastforce
  note po = databuffer_push_ok[OF gate_okD(4)[OF ok nth_mem[OF len]] _ _ p, simplified]
  have L: "db_left h db = gate_left h uid g @ chunk" "header_ok h db"
    using po(2,3) ig c(1) by (simp_all add: db_left_def gate_left_def header_ok_def)
  let ?ps = "filter (\<lambda>p. p \<noteq> []) (fst (unframe h (gate_left h uid g @ chunk)))"
  have fw: "forward_call (g\<lparr>gt_mp := mp\<rparr>) (?c\<lparr>c_buffer := db\<rparr>) = forward_call g0 (gt_conn g0 ! i)" using c(3) by simp
  obtain g' c' where l: "message_loop (g\<lparr>gt_mp := mp\<rparr>) (?c\<lparr>c_buffer := db\<rparr>) uid = Some (g', c', map (forward_call g0 (gt_conn g0 ! i)) ?ps)"
      "db_ok (c_buffer c')" "header_ok h (c_buffer c')" "same_but_buffer (g\<lparr>gt_mp := mp\<rparr>) (?c\<lparr>c_buffer := db\<rparr>) g' c'"
      "db_left h (c_buffer c') = snd (unframe h (gate_left h uid g @ chunk))"
    using message_loop_frames[OF h, of "g\<lparr>gt_mp := mp\<rparr>" "?c\<lparr>c_buffer := db\<rparr>" uid] po(1) hs L sm c(2) fw by auto
  have "g' = g\<lparr>gt_mp := gt_mp g'\<rparr>" and c': "c' = ?c\<lparr>c_buffer := c_buffer c'\<rparr>"
    and bal: "balanced (c_buffer ?c) (gt_mp g) (c_buffer c') (gt_mp g')"
    using same_but_buffer_step[OF l(4) po(4)] by (simp_all add: same_but_buffer_def)
  then obtain mp' where g': "g' = g\<lparr>gt_mp := mp'\<rparr>" by blast
  have fc: "forward_call g c' = forward_call g ?c" "has_target g c' = has_target g ?c" by (subst c', simp)+
  have "c_id c' = c_id ?c" by (subst c') simp
  with gate_ok_update[OF ok ig l(2) _ bal] have ok': "gate_ok (conn_put (int i) c' g')" using g' by simp
  have "follows h K g0 (conn_put (int i) c' g')" using follows_put[OF f i(2) l(3) fc] ok' g' by simp
  moreover have "gate_feed uid chunk g = Some (map (forward_call g0 (gt_conn g0 ! i)) ?ps, conn_put (int i) c' g')"
    using ig gate_lookup[OF ok, of uid] conn_at_slot[OF ok ig] p l(1)
    by (simp add: gate_feed_def dispatch_socket_message_def data_from_def gate_dispatch_message_def)
  moreover have "gate_left h uid (conn_put (int i) c' g') = snd (unframe h (gate_left h uid g @ chunk))"
    using ig g' len l(5) by (simp add: gate_left_def)
  moreover have "gate_left h v (conn_put (int i) c' g') = gate_left h v g" if "v \<noteq> uid" for v
  proof (cases "idmap (gt_hash g) v")
    case (Some j)
    then have "j \<noteq> i" using that idmap_inj[OF gate_okD(1)[OF ok] ig, of v] by auto
    then show ?thesis using Some g' by (simp add: gate_left_def)
  qed (simp add: gate_left_def g')
  ultimately show ?thesis by blast
qed

interpretation gate_streams: framers h gate_feed "gate_left h" "follows h K g0" "K \<inter> dom (idmap (gt_hash g0))"
  "\<lambda>p. p \<noteq> []" "\<lambda>uid. forward_call g0 (conn_of g0 uid)" "small_frames h" for h K g0
proof unfold_locales
  fix g uid and chunk :: "u8 list"
  assume f: "follows h K g0 g" and u: "uid \<in> K \<inter> dom (idmap (gt_hash g0))" and sm: "small_frames h (gate_left h uid g @ chunk)"
  obtain i where "uid \<in> K" "idmap (gt_hash g0) uid = Some i" using u by auto
  from gate_feed_ok[OF f this sm] this
  show "\<exists>ps g'. gate_feed uid chunk g = Some (map (forward_call g0 (conn_of g0 uid)) (filter (\<lambda>p. p \<noteq> []) ps), g') \<and>
      follows h K g0 g' \<and> unframe h (gate_left h uid g @ chunk) = (ps, gate_left h uid g') \<and>
      (\<forall>j \<in> K \<inter> dom (idmap (gt_hash g0)). j \<noteq> uid \<longrightarrow> gate_left h j g' = gate_left h j g)"
    by (intro exI[of _ "fst (unframe h (gate_left h uid g @ chunk))"]) (auto simp: conn_of_def)
qed (use small_frames_append in blast)+

text \<open>
  C18. The gate cuts the streams of its clients into messages correctly: from connections that
  hold nothing back and have a receiver (an agent, the broker or the watchdog), with messages below 16 MB
  (\<open>small_frames\<close>: the gate closes a connection that announces more, and a length of \<open>2 ^ 31\<close> on is read as negative), whatever pieces the streams arrive in and however the pieces of different
  clients are mixed, every call returns, and the calls made for a client send on exactly the
  non-empty messages of its stream, in order, to the receiver of that connection; a message that
  is not complete yet is held back, for each client apart.
\<close>

theorem gate_reassembles:
  assumes "gate_ok g" "gt_header_size g = int h"
    and "\<forall>uid i. idmap (gt_hash g) uid = Some i \<longrightarrow> c_buffer (gt_conn g ! i) = databuffer_zero \<and> has_target g (gt_conn g ! i)"
    and "\<forall>(uid, c) \<in> set cs. uid \<in> dom (idmap (gt_hash g)) \<and> c \<noteq> []" "\<forall>uid. small_frames h (stream_of uid cs)"
  shows "\<exists>outs g'. feed_mix gate_feed cs g = Some (outs, g') \<and> gate_ok g' \<and>
    (\<forall>uid \<in> dom (idmap (gt_hash g)).
       outs_of uid outs = map (forward_call g (conn_of g uid)) (filter (\<lambda>p. p \<noteq> []) (fst (unframe h (stream_of uid cs)))) \<and>
       gate_left h uid g' = snd (unframe h (stream_of uid cs)))"
proof -
  have zero: "header_ok h databuffer_zero" "db_left h databuffer_zero = []"
    by (simp_all add: header_ok_def db_left_def databuffer_zero_def content_def)
  then have f: "follows h UNIV g g" using assms(1-3) by (auto simp: follows_def)
  have "gate_left h uid g = []" for uid
    using assms(3) zero by (auto simp: gate_left_def split: option.splits)
  moreover have "0 < h" using gate_okD(3)[OF assms(1)] assms(2) by auto
  ultimately show ?thesis
    using gate_streams.feed_mix_unframe[OF f, of cs] assms(4,5) by (fastforce simp: unframe_short follows_def)
qed

section \<open>A gate with one client\<close>

definition demo_table0 :: hashid where
  "demo_table0 = \<lparr>hi_hashmod = 15, hi_cap = 1, hi_count = 0, hi_id = [\<lparr>hn_id = -1, hn_next = None\<rparr>], hi_hash = replicate 16 None\<rparr>"

definition demo_table :: hashid where
  "demo_table = \<lparr>hi_hashmod = 15, hi_cap = 1, hi_count = 1, hi_id = [\<lparr>hn_id = 7, hn_next = None\<rparr>],
     hi_hash = (replicate 16 None)[7 := Some 0]\<rparr>"

definition demo_gate :: gate where
  "demo_gate = \<lparr>gt_listen_id = 1, gt_watchdog = 0, gt_broker = 0, gt_client_tag = 3, gt_header_size = 2,
     gt_max_connection = 1, gt_hash = demo_table,
     gt_conn = [\<lparr>c_id = 7, c_agent = 0x01000001, c_client = 5, c_remote_name = ''a'', c_buffer = databuffer_zero\<rparr>],
     gt_mp = messagepool_zero\<rparr>"

lemma demo_table0_ok: "hashid_ok demo_table0" "idmap demo_table0 = Map.empty"
proof -
  have "hashcap_loop 16 1 = Some 16" by (subst hashcap_loop.simps) simp
  then have "hashid_init 1 = Some demo_table0" by (simp add: hashid_init_def demo_table0_def)
  then show "hashid_ok demo_table0" "idmap demo_table0 = Map.empty" using hashid_init_ok[of 1] by auto
qed

lemma demo_table_ok: "hashid_ok demo_table" "idmap demo_table = [7 \<mapsto> 0]"
proof -
  note t0 = demo_table0_ok
  have "hashid_insert demo_table0 7 = Some (0, demo_table)" by code_simp
  then show "hashid_ok demo_table" "idmap demo_table = [7 \<mapsto> 0]"
    using hashid_insert_ok[OF t0(1), of 7] t0(2) by (auto simp: demo_table0_def hashid_full_def)
qed

lemma demo_gate_ok: "gate_ok demo_gate"
proof (rule gate_okI)
  show "pool_ok demo_gate"
    by (simp add: pool_ok_def demo_gate_def messagepool_zero_def mp_nodes_def nodes_def databuffer_zero_def)
  show "c_id (gt_conn demo_gate ! i) = uid" if "idmap (gt_hash demo_gate) uid = Some i" for uid i
    using that demo_table_ok(2) by (auto simp: demo_gate_def split: if_splits)
  show "length (gt_conn demo_gate) = length (hi_id (gt_hash demo_gate))" by (simp add: demo_gate_def demo_table_def)
qed (use demo_table_ok db_ok_zero in \<open>auto simp: demo_gate_def\<close>)

theorem gate_reassembles_witness:
  "\<exists>outs g'. feed_mix gate_feed [(7, [0]), (7, [2, 65, 66, 0, 0, 0]), (7, [1, 67])] demo_gate = Some (outs, g') \<and>
    outs_of 7 outs = [Send 5 0x01000001 (3 OR PTYPE_TAG_DONTCOPY) [65, 66] 2, Send 5 0x01000001 (3 OR PTYPE_TAG_DONTCOPY) [67] 1]"
proof -
  let ?cs = "[(7, [0]), (7, [2, 65, 66, 0, 0, 0]), (7, [1, 67])] :: (int \<times> u8 list) list"
  have m: "idmap (gt_hash demo_gate) = [7 \<mapsto> 0]" using demo_table_ok by (simp add: demo_gate_def)
  let ?ps = "[[65, 66], [], [67]] :: u8 list list"
  have "concat (map (frame 2) ?ps) = [0, 2, 65, 66, 0, 0, 0, 1, 67]" by code_simp
  then have st: "stream_of uid ?cs = concat (map (frame 2) (if uid = 7 then ?ps else []))" for uid
    by (simp add: stream_of_def)
  have sm: "\<forall>uid. small_frames 2 (stream_of uid ?cs)"
    unfolding st by (intro allI small_frames_frames) (auto simp: LIMIT_def)
  have un: "fst (unframe 2 (stream_of 7 ?cs)) = ?ps"
    unfolding st using unframe_frames[of 2 ?ps] by (simp only: simp_thms if_True) simp
  have c: "\<forall>uid i. idmap (gt_hash demo_gate) uid = Some i \<longrightarrow>
      c_buffer (gt_conn demo_gate ! i) = databuffer_zero \<and> has_target demo_gate (gt_conn demo_gate ! i)"
    unfolding m by (auto simp: demo_gate_def has_target_def split: if_splits)
  have "\<forall>(uid, c) \<in> set ?cs. uid \<in> dom (idmap (gt_hash demo_gate)) \<and> c \<noteq> []" "gt_header_size demo_gate = int 2"
    using m by (auto simp: demo_gate_def)
  from gate_reassembles[OF demo_gate_ok this(2) c this(1) sm] obtain outs g' where
    o: "feed_mix gate_feed ?cs demo_gate = Some (outs, g')"
       "outs_of 7 outs = map (forward_call demo_gate (conn_of demo_gate 7)) (filter (\<lambda>p. p \<noteq> []) ?ps)"
    unfolding un[symmetric] m by auto
  have "conn_of demo_gate 7 = gt_conn demo_gate ! 0" using m by (simp add: conn_of_def)
  then have "outs_of 7 outs =
      [Send 5 0x01000001 (3 OR PTYPE_TAG_DONTCOPY) [65, 66] 2, Send 5 0x01000001 (3 OR PTYPE_TAG_DONTCOPY) [67] 1]"
    unfolding o(2) by (simp add: demo_gate_def forward_call_def)
  with o(1) show ?thesis by blast
qed

text \<open>The same gate as it starts, and a report of a new connection, from socket 1 with id 7.\<close>

definition new_gate :: gate where
  "new_gate = demo_gate\<lparr>gt_client_tag := 3, gt_hash := demo_table0, gt_conn := [connection_zero\<lparr>c_id := -1\<rparr>]\<rparr>"

definition accept_report :: "msg_payload option" where
  "accept_report = Some (Socket \<lparr>sm_type = SKYNET_SOCKET_TYPE_ACCEPT, sm_id = 1, sm_ud = 7, sm_buffer = None, sm_padding = [49]\<rparr>)"

lemma new_gate_reach: "gate_reach new_gate"
proof (rule gate_reach.started)
  show "gate_init (\<lambda>_. Some 0) (\<lambda>_ _ _. 1) (Some ''S ! :8888 0 1'') gate_create =
      Some (0, new_gate, [Callback, Socket_listen [] 8888 32, Socket_start 1])"
    unfolding new_gate_def by code_simp
qed (simp add: new_gate_def demo_gate_def)

lemma accept_report_valid: "gt_hash g = demo_table0 \<Longrightarrow> valid_message g PTYPE_SOCKET accept_report (Suc SOCKET_MESSAGE_SIZE)"
  using demo_table0_ok(2)
  by (simp add: valid_message_def valid_socket_def accept_report_def accept_name_def REMOTE_NAME_def demo_table0_def
      PTYPE_TEXT_def PTYPE_CLIENT_def PTYPE_SOCKET_def socket_types)

lemma accept_report_fatal: "fatal g PTYPE_SOCKET accept_report \<longleftrightarrow> gt_listen_id g \<noteq> 1"
  by (auto simp: fatal_def foreign_accept_def accept_report_def)

theorem gate_fails_only_on_foreign_accept_witness:
  "(\<exists>r g calls. cb (\<lambda>_. Some 0) PTYPE_SOCKET 0 accept_report (Suc SOCKET_MESSAGE_SIZE) new_gate = Some (r, g, calls) \<and> gate_ok g) \<and>
   (\<exists>r g calls. cb (\<lambda>_. Some 0) PTYPE_TEXT 3 (Some (Bytes [99, 108, 111, 115, 101])) 5 new_gate = Some (r, g, calls) \<and>
      cb (\<lambda>_. Some 0) PTYPE_SOCKET 0 accept_report (Suc SOCKET_MESSAGE_SIZE) g = None)"
proof -
  have q: "\<forall>name. (\<lambda>_ :: string. Some (0 :: u32)) name \<noteq> None" by simp
  have l: "gt_listen_id new_gate = 1" "gt_hash new_gate = demo_table0" by (simp_all add: new_gate_def demo_gate_def)
  have "map_option (\<lambda>(r, g, calls). (gt_listen_id g, gt_hash g))
      (cb (\<lambda>_. Some 0) PTYPE_TEXT 3 (Some (Bytes [99, 108, 111, 115, 101])) 5 new_gate) = Some (-1, demo_table0)"
    unfolding new_gate_def by code_simp
  then obtain r g calls where c: "cb (\<lambda>_. Some 0) PTYPE_TEXT 3 (Some (Bytes [99, 108, 111, 115, 101])) 5 new_gate = Some (r, g, calls)"
      "gt_listen_id g = -1" "gt_hash g = demo_table0" by auto
  have v: "valid_message new_gate PTYPE_TEXT (Some (Bytes [99, 108, 111, 115, 101])) 5"
    by (simp add: valid_message_def PTYPE_TEXT_def PTYPE_CLIENT_def PTYPE_SOCKET_def)
  have "gate_reach g" by (rule gate_reach.received[OF new_gate_reach v q c(1)])
  then have "cb (\<lambda>_. Some 0) PTYPE_SOCKET 0 accept_report (Suc SOCKET_MESSAGE_SIZE) g = None"
    using gate_fails_only_on_foreign_accept[OF _ accept_report_valid[OF c(3)] q, of 0] c(2) by (simp add: accept_report_fatal)
  moreover have "\<exists>r g calls. cb (\<lambda>_. Some 0) PTYPE_SOCKET 0 accept_report (Suc SOCKET_MESSAGE_SIZE) new_gate = Some (r, g, calls) \<and> gate_ok g"
    using gate_fails_only_on_foreign_accept[OF new_gate_reach accept_report_valid[OF l(2)] q, of 0] l(1)
    by (auto simp: accept_report_fatal)
  ultimately show ?thesis using c(1) by blast
qed

end
