(* ===== verification/Gate_Deliver.thy ===== *)
theory Gate_Deliver
  imports Gate_Props
begin

text \<open>
  The gate on its node: the messages of a client reach the queue of the agent; the slots of the
  connections; and two inputs on which the code goes wrong.
\<close>

section \<open>Delivery to the agent\<close>

lemma size_word:
  assumes "n < 2 ^ 56"
  shows "unat (word_of_int (int n) :: u64) = n" "(word_of_int (int n) :: u64) AND MESSAGE_TYPE_MASK = word_of_int (int n)"
proof -
  have "n < 2 ^ 64" using assms by simp
  then show u: "unat (word_of_int (int n) :: u64) = n" by (simp add: unat_of_nat)
  have "unat ((word_of_int (int n) :: u64) AND MESSAGE_TYPE_MASK) = n mod 2 ^ 56"
    unfolding MESSAGE_TYPE_MASK_def unat_and_mask u ..
  then show "(word_of_int (int n) :: u64) AND MESSAGE_TYPE_MASK = word_of_int (int n)"
    using assms u by (simp add: word_unat_eq_iff)
qed

text \<open>A message that carries \<open>p\<close> from a client, as the agent gets it.\<close>

definition carries :: "u32 \<Rightarrow> i32 \<Rightarrow> skynet_message \<Rightarrow> u8 list \<Rightarrow> bool" where
  "carries client tag m p \<longleftrightarrow> msg_source m = client \<and> msg_session m = 0 \<and>
     (\<exists>bs. msg_data m = Some (Bytes bs) \<and> take (length p) bs = p) \<and>
     type_of_sz (msg_sz m) = unat (tag AND 0xff) \<and> msg_sz m AND MESSAGE_TYPE_MASK = word_of_nat (length p)"

definition plain_tag :: "i32 \<Rightarrow> bool" where
  "plain_tag tag \<longleftrightarrow> unat tag < 256"

lemma plain_tag_type:
  assumes "plain_tag tag"
  shows "(tag OR PTYPE_TAG_DONTCOPY) AND PTYPE_TAG_ALLOCSESSION = 0" "(tag OR PTYPE_TAG_DONTCOPY) AND 0xff = tag AND 0xff"
proof -
  have "tag = tag AND mask 8" using assms by (simp add: plain_tag_def word_unat_eq_iff unat_and_mask)
  then have hi: "\<not> bit tag n" if "8 \<le> n" for n using that by (metis bit_and_iff bit_mask_iff not_le)
  have "bit PTYPE_TAG_ALLOCSESSION n \<longleftrightarrow> n = 17" "bit PTYPE_TAG_DONTCOPY n \<longleftrightarrow> n = 16" if "n < 32" for n
    using that bit_exp_iff[of 17 n, where 'a = "32 word"] bit_exp_iff[of 16 n, where 'a = "32 word"]
    by (auto simp: PTYPE_TAG_ALLOCSESSION_def PTYPE_TAG_DONTCOPY_def possible_bit_def)
  note b = this
  show "(tag OR PTYPE_TAG_DONTCOPY) AND PTYPE_TAG_ALLOCSESSION = 0"
    by (rule bit_word_eqI) (use b hi in \<open>auto simp: bit_simps\<close>)
  have m: "(0xff :: i32) = mask 8" by (simp add: mask_eq_exp_minus_1)
  show "(tag OR PTYPE_TAG_DONTCOPY) AND 0xff = tag AND 0xff"
    unfolding m by (rule bit_word_eqI) (use b in \<open>auto simp: bit_simps\<close>)
qed

lemma lookup_queue:
  assumes "node_ok H s" "handle_lookup s h = Some a" "ctx_heap s a = Some x"
  shows "\<exists>q. mq_msgs s (ctx_queue x) = Some q"
  using node_ok_lookup[OF assms(1,2)] assms(3) by (auto simp: reg_ok_def mq_live_def mq_msgs_def split: option.splits)

lemma mq_only_found:
  assumes "mq_only s s1"
  shows "handle_lookup s1 = handle_lookup s" "ctx_heap s1 = ctx_heap s"
    "skynet_harbor_message_isremote h s1 = skynet_harbor_message_isremote h s"
  using mq_only_fields[OF assms] registry_inv_cong(2)[of s1 s]
  by (auto simp: skynet_context_handle_def skynet_harbor_message_isremote_def)

lemma perform_sends:
  assumes "node_ok H s" "handle_lookup s agent = Some a" "ctx_heap s a = Some x"
    and "skynet_harbor_message_isremote agent s = Some False" "agent \<noteq> 0" "client \<noteq> 0"
    and "plain_tag tag" "\<forall>p \<in> set ps. length p < 2 ^ 56"
  shows "\<exists>s' ms. perform_all X c fn ud (map (\<lambda>p. Send client agent (tag OR PTYPE_TAG_DONTCOPY) p (int (length p))) ps) s = Some s' \<and>
    node_ok H s' \<and> mq_only s s' \<and> list_all2 (carries client tag) ms ps \<and>
    mq_msgs s' = (mq_msgs s)(ctx_queue x \<mapsto> the (mq_msgs s (ctx_queue x)) @ ms)"
  using assms(1-4,8)
proof (induction ps arbitrary: s)
  case Nil
  then show ?case using lookup_queue[OF Nil(1-3)] by (auto simp: mq_only_def fun_upd_idem)
next
  case (Cons p ps)
  have sz: "length p < 2 ^ 56" using Cons.prems(5) by simp
  note w = size_word[OF sz]
  obtain s1 m where s1: "skynet_send X (Some c) client agent (tag OR PTYPE_TAG_DONTCOPY) 0 (Some (Bytes p)) (word_of_int (int (length p))) s = Some (0, s1)"
      "node_ok H s1" "mq_only s s1" "mq_msgs s1 = (mq_msgs s)(ctx_queue x \<mapsto> the (mq_msgs s (ctx_queue x)) @ [m])"
      "carries client tag m p"
    using send_local[OF Cons.prems(1-4) assms(5) _ w(2) plain_tag_type(1)[OF assms(7)], of "Some c" client client p X 0] w(1)
      assms(6)
      plain_tag_type(2)[OF assms(7)] by (auto simp: carries_def source_or_self_def)
  have lk: "handle_lookup s1 agent = Some a" "ctx_heap s1 a = Some x" "skynet_harbor_message_isremote agent s1 = Some False"
    using mq_only_found[OF s1(3)] Cons.prems(2-4) by simp_all
  obtain s' ms where s': "perform_all X c fn ud (map (\<lambda>p. Send client agent (tag OR PTYPE_TAG_DONTCOPY) p (int (length p))) ps) s1 = Some s'"
      "node_ok H s'" "mq_only s1 s'" "list_all2 (carries client tag) ms ps"
      "mq_msgs s' = (mq_msgs s1)(ctx_queue x \<mapsto> the (mq_msgs s1 (ctx_queue x)) @ ms)"
    using Cons.IH[OF s1(2) lk] Cons.prems(5) by (meson list.set_intros(2))
  show ?case using s1 s' mq_only_trans[OF s1(3) s'(3)]
    by (intro exI[of _ s'] exI[of _ "m # ms"]) (simp add: perform_def)
qed

lemma small_frames_lengths: "small_frames h L \<Longrightarrow> \<forall>p \<in> set (fst (unframe h L)). length p < LIMIT"
proof (induction h L rule: small_frames.induct)
  case (1 h bs)
  show ?case
  proof (cases "h = 0 \<or> \<not> whole h bs")
    case True
    then have "unframe h bs = ([], bs)" by (cases "h = 0") (subst unframe.simps, simp, simp add: unframe_step)
    then show ?thesis by simp
  next
    case False
    then have h: "0 < h" and w: "h \<le> length bs" "be_val (take h bs) \<le> length bs - h" by (auto simp: whole_def)
    have s: "be_val (take h bs) < LIMIT" "small_frames h (drop (be_val (take h bs)) (drop h bs))"
      using small_frames_step[OF h, of bs] 1(2) False w(1) by auto
    have "\<forall>p \<in> set (fst (unframe h (drop (be_val (take h bs)) (drop h bs)))). length p < LIMIT"
      using 1(1)[OF _ refl] s h w by auto
    then show ?thesis using s(1) h False by (simp add: unframe_step[of h bs] Let_def)
  qed
qed

text \<open>
  C26. Data of a client whose connection has an agent on this node and an address that is not 0, at a gate without a broker
  (with one the messages go there) and with a client type that is a plain type byte, all messages being shorter
  than 16 MB: the gate's callback returns, and the queue of the agent grows by exactly the non-empty messages
  that the data completes, in their order, each from the address of the client, with the client message type and its own
  length; an empty message is dropped. No other queue and nothing else of the node changes, and what is not complete
  stays with the gate.
\<close>

theorem gate_agent_receives:
  assumes "follows h {uid} g g" "idmap (gt_hash g) uid = Some i" "gt_broker g = 0" "plain_tag (gt_client_tag g)"
    and "c_agent (gt_conn g ! i) = agent" "c_client (gt_conn g ! i) = client" "agent \<noteq> 0" "client \<noteq> 0"
    and "small_frames h (gate_left h uid g @ chunk)"
    and "node_ok H s" "handle_lookup s agent = Some a" "ctx_heap s a = Some x"
    and "skynet_harbor_message_isremote agent s = Some False"
  shows "\<exists>g' s' ms. gate_callback X c fn ud PTYPE_SOCKET source (Some (Socket (data_from uid chunk))) SOCKET_MESSAGE_SIZE g s = Some (0, g', s') \<and>
    node_ok H s' \<and> mq_state.more s' = mq_state.more s \<and> mq_fresh s' = mq_fresh s \<and>
    mq_msgs s' = (mq_msgs s)(ctx_queue x \<mapsto> the (mq_msgs s (ctx_queue x)) @ ms) \<and>
    list_all2 (carries client (gt_client_tag g)) ms (filter (\<lambda>p. p \<noteq> []) (fst (unframe h (gate_left h uid g @ chunk)))) \<and>
    gate_left h uid g' = snd (unframe h (gate_left h uid g @ chunk))"
proof -
  let ?u = "unframe h (gate_left h uid g @ chunk)"
  let ?ps = "filter (\<lambda>p. p \<noteq> []) (fst ?u)"
  obtain g' where g': "gate_feed uid chunk g = Some (map (forward_call g (gt_conn g ! i)) ?ps, g')"
      "gate_left h uid g' = snd ?u"
    using gate_feed_ok[OF assms(1) _ assms(2,9)] by auto
  have fc: "forward_call g (gt_conn g ! i) = (\<lambda>p. Send client agent (gt_client_tag g OR PTYPE_TAG_DONTCOPY) p (int (length p)))"
    using assms(3,5-7) by (simp add: forward_call_def fun_eq_iff)
  have cb: "cb q PTYPE_SOCKET source (Some (Socket (data_from uid chunk))) SOCKET_MESSAGE_SIZE g =
      Some (0, g', map (forward_call g (gt_conn g ! i)) ?ps)" for q
    using g'(1) by (auto simp: cb_def gate_feed_def PTYPE_TEXT_def PTYPE_CLIENT_def PTYPE_SOCKET_def)
  have "\<forall>p \<in> set ?ps. length p < 2 ^ 56"
    using small_frames_lengths[OF assms(9)] by (fastforce simp: LIMIT_def)
  from perform_sends[OF assms(10-13) assms(7,8,4) this, of X c fn ud] obtain s' ms where
    "perform_all X c fn ud (map (forward_call g (gt_conn g ! i)) ?ps) s = Some s'" "node_ok H s'" "mq_only s s'"
    "list_all2 (carries client (gt_client_tag g)) ms ?ps"
    "mq_msgs s' = (mq_msgs s)(ctx_queue x \<mapsto> the (mq_msgs s (ctx_queue x)) @ ms)"
    unfolding fc by blast
  then show ?thesis using cb g'(2) by (intro exI[of _ g'] exI[of _ s'] exI[of _ ms]) (simp add: gate_callback_def mq_only_def)
qed

theorem gate_agent_receives_witness:
  "\<exists>g' s' m. gate_callback demo_world 1 4 9 PTYPE_SOCKET 0 (Some (Socket (data_from 7 [0, 2, 65, 66, 0]))) SOCKET_MESSAGE_SIZE
      demo_gate demo_node = Some (0, g', s') \<and>
    mq_msgs s' 0 = Some [demo_message, m] \<and> carries 5 3 m [65, 66] \<and> gate_left 2 7 g' = [0]"
proof -
  have mp: "idmap (gt_hash demo_gate) = [7 \<mapsto> 0]" using demo_table_ok by (simp add: demo_gate_def)
  have f: "follows 2 {7} demo_gate demo_gate"
    using demo_gate_ok mp by (simp add: follows_def header_ok_def has_target_def)
      (simp add: demo_gate_def databuffer_zero_def)
  have l: "gate_left 2 7 demo_gate = []"
    using mp by (simp add: gate_left_def db_left_def content_def) (simp add: demo_gate_def databuffer_zero_def)
  have u: "unframe 2 [0, 2, 65, 66, 0] = ([[65, 66]], [0])" by code_simp
  have "be_val [0, 2] = 2" by code_simp
  then have sm: "small_frames 2 [0, 2, 65, 66, 0]"
    by (subst small_frames.simps) (simp add: LIMIT_def small_frames.simps)
  have x: "ctx_heap demo_node 0 = Some demo_context" "ctx_queue demo_context = 0"
    by (simp_all add: demo_node_def demo_context_def new_context_def)
  have r: "skynet_harbor_message_isremote 0x01000001 demo_node = Some False"
    by (simp add: skynet_harbor_message_isremote_def demo_node_def HANDLE_MASK_def)
  have m: "mq_msgs demo_node 0 = Some [demo_message]"
    by (simp add: mq_msgs_def demo_node_def demo_queue_ring)
  have "idmap (gt_hash demo_gate) 7 = Some 0" "gt_broker demo_gate = 0" "plain_tag (gt_client_tag demo_gate)"
    "c_agent (gt_conn demo_gate ! 0) = 0x01000001" "c_client (gt_conn demo_gate ! 0) = 5" "gt_client_tag demo_gate = 3"
    using mp by (simp_all add: demo_gate_def plain_tag_def)
  with gate_agent_receives[OF f this(1-5) _ _ _ demo_ok demo_lookup x(1) r, of "[0, 2, 65, 66, 0]" demo_world 1 4 9 0] l sm u x(2) m
  show ?thesis by (auto simp: list_all2_Cons2)
qed

section \<open>A length with its first bit set\<close>

lemma bit_top: "128 \<le> unat (b :: u8) \<Longrightarrow> bit b 7"
proof (rule ccontr)
  assume "128 \<le> unat b" "\<not> bit b 7"
  then have "bit b n \<longleftrightarrow> bit (b AND mask 7) n" if "n < 8" for n using that by (cases "n = 7") (auto simp: bit_simps)
  then have "b = b AND mask 7" by (intro bit_word_eqI) simp
  then have "unat b = unat b mod 2 ^ 7" using unat_and_mask[of b 7] by simp
  moreover have "unat b mod 2 ^ 7 < 128" by simp
  ultimately show False using \<open>128 \<le> unat b\<close> by linarith
qed

lemma header_int_negative:
  assumes "128 \<le> unat (hs ! 0)"
  shows "header_int 4 hs < 0"
proof -
  have "bit (push_bit 24 (ucast (hs ! 0)) OR push_bit 16 (ucast (hs ! 1)) OR push_bit 8 (ucast (hs ! 2)) OR ucast (hs ! 3) :: i32) 31"
    using bit_top[OF assms] by (simp add: bit_simps)
  then have "sint (push_bit 24 (ucast (hs ! 0)) OR push_bit 16 (ucast (hs ! 1)) OR push_bit 8 (ucast (hs ! 2)) OR ucast (hs ! 3) :: i32) < 0"
    using bit_last_iff[where 'a = 32] by simp
  then show ?thesis by (simp add: header_int_def)
qed

text \<open>A connection that read such a length: nothing is sent, nothing is closed, and what comes is kept.\<close>

definition stuck :: "int \<Rightarrow> nat \<Rightarrow> gate \<Rightarrow> bool" where
  "stuck uid i g \<longleftrightarrow> gate_ok g \<and> idmap (gt_hash g) uid = Some i \<and> db_header (c_buffer (gt_conn g ! i)) < 0"

lemma message_loop_negative:
  assumes "db_header (c_buffer c) < 0" "0 \<le> db_size (c_buffer c)"
  shows "message_loop g c uid = Some (g, c, [])"
  using assms by (subst message_loop.simps) (simp add: databuffer_readheader_def check_body_def)

lemma stuck_feed:
  assumes "stuck uid i g"
  shows "\<exists>g'. gate_feed uid chunk g = Some ([], g') \<and> stuck uid i g' \<and>
    length (content (c_buffer (gt_conn g' ! i))) = length (content (c_buffer (gt_conn g ! i))) + length chunk"
proof -
  let ?c = "gt_conn g ! i"
  have ok: "gate_ok g" and i: "idmap (gt_hash g) uid = Some i" and neg: "db_header (c_buffer ?c) < 0"
    using assms by (auto simp: stuck_def)
  note len = slot_less[OF ok i]
  obtain db mp where p: "databuffer_push (c_buffer ?c) (gt_mp g) chunk (int (length chunk)) = (db, mp)" by fastforce
  note po = databuffer_push_ok[OF gate_okD(4)[OF ok nth_mem[OF len]] _ _ p, simplified]
  let ?g = "conn_put (int i) (?c\<lparr>c_buffer := db\<rparr>) (g\<lparr>gt_mp := mp\<rparr>)"
  have "message_loop (g\<lparr>gt_mp := mp\<rparr>) (?c\<lparr>c_buffer := db\<rparr>) uid = Some (g\<lparr>gt_mp := mp\<rparr>, ?c\<lparr>c_buffer := db\<rparr>, [])"
    using po(1,3) neg by (intro message_loop_negative) (simp_all add: db_ok_def)
  then have "gate_feed uid chunk g = Some ([], ?g)"
    using i gate_lookup[OF ok, of uid] conn_at_slot[OF ok i] p
    by (simp add: gate_feed_def dispatch_socket_message_def data_from_def gate_dispatch_message_def)
  moreover have "gate_ok ?g" using gate_ok_update[OF ok i, of "?c\<lparr>c_buffer := db\<rparr>" mp] po by simp
  ultimately show ?thesis using i neg po len by (auto simp: stuck_def)
qed

lemma negative_sticks:
  assumes ok: "gate_ok g" and h: "gt_header_size g = 4" and i: "idmap (gt_hash g) uid = Some i"
    and c: "c_buffer (gt_conn g ! i) = databuffer_zero" and hs: "length hs = 4" "128 \<le> unat (hs ! 0)"
  shows "\<exists>g'. gate_feed uid hs g = Some ([], g') \<and> stuck uid i g' \<and> content (c_buffer (gt_conn g' ! i)) = []"
proof -
  let ?c = "gt_conn g ! i"
  note len = slot_less[OF ok i]
  obtain db mp where p: "databuffer_push (c_buffer ?c) (gt_mp g) hs (int (length hs)) = (db, mp)" by fastforce
  note po = databuffer_push_ok[OF gate_okD(4)[OF ok nth_mem[OF len]] _ _ p, simplified]
  have ct: "content db = hs" "db_header db = 0" "db_size db = 4"
    using po c hs(1) content_zero by (simp_all add: db_ok_def databuffer_zero_def)
  obtain db1 mp1 where r: "databuffer_read db mp 4 = Some (hs, db1, mp1)" "db_ok db1" "content db1 = []" "balanced db mp db1 mp1"
    using databuffer_read_ok[OF po(1), of 4 mp] ct hs(1) by auto
  let ?db = "db1\<lparr>db_header := header_int 4 hs\<rparr>"
  have "databuffer_readheader db mp 4 = Some (header_int 4 hs, ?db, mp1)"
    using r ct header_int_negative[OF hs(2)] by (simp add: databuffer_readheader_def check_body_def db_ok_def)
  then have "message_loop (g\<lparr>gt_mp := mp\<rparr>) (?c\<lparr>c_buffer := db\<rparr>) uid = Some (g\<lparr>gt_mp := mp1\<rparr>, ?c\<lparr>c_buffer := ?db\<rparr>, [])"
    using h header_int_negative[OF hs(2)] by (subst message_loop.simps) simp
  then have "gate_feed uid hs g = Some ([], conn_put (int i) (?c\<lparr>c_buffer := ?db\<rparr>) (g\<lparr>gt_mp := mp1\<rparr>))"
    using i gate_lookup[OF ok, of uid] conn_at_slot[OF ok i] p
    by (simp add: gate_feed_def dispatch_socket_message_def data_from_def gate_dispatch_message_def)
  moreover have "gate_ok (conn_put (int i) (?c\<lparr>c_buffer := ?db\<rparr>) (g\<lparr>gt_mp := mp1\<rparr>))"
    using gate_ok_update[OF ok i, of "?c\<lparr>c_buffer := ?db\<rparr>" mp1] r balanced_trans[OF po(4) r(4)] by simp
  ultimately show ?thesis using i r(3) len header_int_negative[OF hs(2)] by (auto simp: stuck_def)
qed

text \<open>
  C35. With four-byte lengths, a client that sends a length with its first bit set is not cut off,
  although the code means to close a connection whose message is 16M or longer: the length is
  read as a negative number, so no message is forwarded, no socket is closed and no error is
  logged, whatever follows; every byte the client sends is kept in memory.
\<close>

theorem negative_length_hoards:
  assumes "gate_ok g" "gt_header_size g = 4" "idmap (gt_hash g) uid = Some i" "c_buffer (gt_conn g ! i) = databuffer_zero"
    and "length hs = 4" "128 \<le> unat (hs ! 0)"
  shows "\<exists>g'. feed_all (gate_feed uid) (hs # cs) g = Some ([], g') \<and>
    length (content (c_buffer (gt_conn g' ! i))) = length (concat cs)"
proof -
  obtain g1 where g1: "gate_feed uid hs g = Some ([], g1)" "stuck uid i g1" "content (c_buffer (gt_conn g1 ! i)) = []"
    using negative_sticks[OF assms] by blast
  have "\<exists>g'. feed_all (gate_feed uid) cs g2 = Some ([], g') \<and>
      length (content (c_buffer (gt_conn g' ! i))) = length (content (c_buffer (gt_conn g2 ! i))) + length (concat cs)"
    if "stuck uid i g2" for g2
    using that
  proof (induction cs arbitrary: g2)
    case (Cons c cs)
    then show ?case using stuck_feed[OF Cons.prems, of c] by fastforce
  qed simp
  from this[OF g1(2)] g1 show ?thesis by auto
qed

theorem negative_length_hoards_witness:
  "\<exists>g'. feed_all (gate_feed 7) [[0x80, 0, 0, 1], [1, 2, 3], [4]] (demo_gate\<lparr>gt_header_size := 4\<rparr>) = Some ([], g') \<and>
    length (content (c_buffer (gt_conn g' ! 0))) = length (concat [[1, 2, 3], [4 :: u8]])"
proof -
  have "gate_ok (demo_gate\<lparr>gt_header_size := 4\<rparr>)" using demo_gate_ok by (simp add: gate_ok_def pool_ok_def)
  moreover have "idmap (gt_hash (demo_gate\<lparr>gt_header_size := 4\<rparr>)) 7 = Some 0" using demo_table_ok by (simp add: demo_gate_def)
  moreover have "c_buffer (gt_conn (demo_gate\<lparr>gt_header_size := 4\<rparr>) ! 0) = databuffer_zero" by (simp add: demo_gate_def)
  ultimately show ?thesis
    using negative_length_hoards[of "demo_gate\<lparr>gt_header_size := 4\<rparr>" 7 0 "[0x80, 0, 0, 1]" "[[1, 2, 3], [4]]"] by simp
qed

end
