(* ===== verification/Seri.thy ===== *)
theory Seri
  imports Bytes
begin

text \<open>
  The serialisation of Lua values between services (\<open>lualib-src/lua-seri.c\<close>). Tables live in a
  heap and may be shared or cyclic; what \<open>__pairs\<close> metamethods yield is part of the heap.
  Packing writes to a chain of 128 byte blocks; unpacking reads a memory area and builds values,
  a new table being the list of \<open>lua_rawseti\<close> and \<open>lua_rawset\<close> calls made on it.
  The block on the stack and the allocated ones are not told apart, and the allocation of memory
  succeeds; so does \<open>luaL_checkstack\<close> in packing, which nests at most 33 tables.

  Unpacking nests calls as deep as the stream says. Its first two arguments are the resources this
  takes: \<open>room t\<close>, whether \<open>luaL_checkstack(L, LUA_MINSTACK, NULL)\<close> succeeds with \<open>t\<close> values on the
  Lua stack, and the number of nested calls of \<open>unpack_one\<close> the C stack has space for.

  A raised Lua error is \<open>Inl\<close>; \<open>None\<close> stands for a call that does not return, in unpacking because
  the C stack overflows.
\<close>

section \<open>Lua values\<close>

datatype lua_value =
    LNil | LBool bool | LInt u64 | LReal u64 | LPtr u64 | LStr "u8 list" | LTable nat | LOther string

text \<open>A number is its 64 bits, an integer (\<open>LInt\<close>) or a double (\<open>LReal\<close>).\<close>

record lua_table =
  t_rawlen :: nat
  t_items :: "(lua_value \<times> lua_value) list"
  t_pairs :: "(lua_value \<times> lua_value) list option"

type_synonym lua_heap = "nat \<Rightarrow> lua_table"

text \<open>\<open>t_items\<close> in the order of \<open>lua_next\<close>; \<open>t_pairs\<close> what the iterator of \<open>__pairs\<close> returns, if the table has one.\<close>

definition lua_rawgeti :: "lua_table \<Rightarrow> nat \<Rightarrow> lua_value" where
  "lua_rawgeti t i = (case map_of (t_items t) (LInt (word_of_nat i)) of Some v \<Rightarrow> v | None \<Rightarrow> LNil)"

datatype lua_built =
    BNil | BBool bool | BInt u64 | BReal u64 | BPtr u64 | BStr "u8 list"
  | BTable "lua_built list" "(lua_built \<times> lua_built) list"

definition is_nan :: "u64 \<Rightarrow> bool" where
  "is_nan w \<longleftrightarrow> 0x7FF0000000000000 < (w AND 0x7FFFFFFFFFFFFFFF)"

definition nan_key :: "lua_built \<Rightarrow> bool" where
  "nan_key k = (case k of BReal w \<Rightarrow> is_nan w | _ \<Rightarrow> False)"

datatype seri_error =
    Too_deep
  | Unsupported string
  | Invalid_stream int nat
  | Too_big
  | Nan_key
  | Stack_overflow
  | Null_pointer
  | Bad_argument
  | Outside

text \<open>
  \<open>Invalid_stream\<close> carries the bytes left and the line of the check; \<open>Too_big\<close> is raised by
  \<open>lua_pushlstring\<close> for a length that is negative as an \<open>int\<close>, \<open>Nan_key\<close> by \<open>lua_rawset\<close>,
  \<open>Stack_overflow\<close> by \<open>luaL_checkstack\<close>.
  \<open>Outside\<close> marks a read outside the memory area.
\<close>

section \<open>Types and cookies\<close>

definition TYPE_NIL :: u8 where "TYPE_NIL = 0"
definition TYPE_BOOLEAN :: u8 where "TYPE_BOOLEAN = 1"
definition TYPE_NUMBER :: u8 where "TYPE_NUMBER = 2"
definition TYPE_NUMBER_ZERO :: u8 where "TYPE_NUMBER_ZERO = 0"
definition TYPE_NUMBER_BYTE :: u8 where "TYPE_NUMBER_BYTE = 1"
definition TYPE_NUMBER_WORD :: u8 where "TYPE_NUMBER_WORD = 2"
definition TYPE_NUMBER_DWORD :: u8 where "TYPE_NUMBER_DWORD = 4"
definition TYPE_NUMBER_QWORD :: u8 where "TYPE_NUMBER_QWORD = 6"
definition TYPE_NUMBER_REAL :: u8 where "TYPE_NUMBER_REAL = 8"
definition TYPE_USERDATA :: u8 where "TYPE_USERDATA = 3"
definition TYPE_SHORT_STRING :: u8 where "TYPE_SHORT_STRING = 4"
definition TYPE_LONG_STRING :: u8 where "TYPE_LONG_STRING = 5"
definition TYPE_TABLE :: u8 where "TYPE_TABLE = 6"
definition MAX_COOKIE :: nat where "MAX_COOKIE = 32"
definition BLOCK_SIZE :: nat where "BLOCK_SIZE = 128"
definition MAX_DEPTH :: nat where "MAX_DEPTH = 32"

definition COMBINE_TYPE :: "u8 \<Rightarrow> u8 \<Rightarrow> u8" where
  "COMBINE_TYPE t v = (t OR push_bit 3 v)"

section \<open>The write block\<close>

text \<open>The chain of blocks from \<open>head\<close> to \<open>current\<close>, each as the bytes written to it.\<close>

record write_block =
  wb_head :: "u8 list list"
  wb_len :: nat
  wb_ptr :: nat

definition wb_init :: write_block where
  "wb_init = \<lparr>wb_head = [[]], wb_len = 0, wb_ptr = 0\<rparr>"

definition wb_free :: "write_block \<Rightarrow> write_block" where
  "wb_free wb = wb\<lparr>wb_head := [], wb_ptr := 0, wb_len := 0\<rparr>"

text \<open>\<open>memcpy\<close> to \<open>current->buffer + ptr\<close>.\<close>

definition blk_write :: "write_block \<Rightarrow> u8 list \<Rightarrow> write_block" where
  "blk_write b bs =
     b\<lparr>wb_head := butlast (wb_head b) @ [take (wb_ptr b) (last (wb_head b)) @ bs],
       wb_ptr := wb_ptr b + length bs, wb_len := wb_len b + length bs\<rparr>"

definition blk_alloc :: "write_block \<Rightarrow> write_block" where
  "blk_alloc b = b\<lparr>wb_head := wb_head b @ [[]], wb_ptr := 0\<rparr>"

function push_bytes :: "write_block \<Rightarrow> u8 list \<Rightarrow> write_block" where
  "push_bytes b buf =
     (if wb_ptr b + length buf \<le> BLOCK_SIZE then blk_write b buf
      else let cp = BLOCK_SIZE - wb_ptr b
           in push_bytes (blk_alloc (blk_write b (take cp buf))) (drop cp buf))"
  by pat_completeness auto
termination
  by (relation "measure (\<lambda>(b, buf). 2 * length buf + (if BLOCK_SIZE \<le> wb_ptr b then 1 else 0))")
    (auto simp: blk_alloc_def BLOCK_SIZE_def)

declare push_bytes.simps [simp del]

definition wb_push :: "write_block \<Rightarrow> u8 list \<Rightarrow> write_block" where
  "wb_push b buf = push_bytes (if wb_ptr b = BLOCK_SIZE then blk_alloc b else b) buf"

section \<open>Packing\<close>

definition wb_nil :: "write_block \<Rightarrow> write_block" where
  "wb_nil wb = wb_push wb [TYPE_NIL]"

definition wb_boolean :: "write_block \<Rightarrow> bool \<Rightarrow> write_block" where
  "wb_boolean wb bool = wb_push wb [COMBINE_TYPE TYPE_BOOLEAN (if bool then 1 else 0)]"

definition wb_integer :: "write_block \<Rightarrow> u64 \<Rightarrow> write_block" where
  "wb_integer wb v =
     (if v = 0 then wb_push wb [COMBINE_TYPE TYPE_NUMBER TYPE_NUMBER_ZERO]
      else if v \<noteq> scast (ucast v :: i32) then
        wb_push (wb_push wb [COMBINE_TYPE TYPE_NUMBER TYPE_NUMBER_QWORD]) (le_bytes 8 v)
      else if sint v < 0 then
        wb_push (wb_push wb [COMBINE_TYPE TYPE_NUMBER TYPE_NUMBER_DWORD]) (le_bytes 4 (ucast v :: i32))
      else if sint v < 0x100 then
        wb_push (wb_push wb [COMBINE_TYPE TYPE_NUMBER TYPE_NUMBER_BYTE]) (le_bytes 1 (ucast v :: u8))
      else if sint v < 0x10000 then
        wb_push (wb_push wb [COMBINE_TYPE TYPE_NUMBER TYPE_NUMBER_WORD]) (le_bytes 2 (ucast v :: u16))
      else wb_push (wb_push wb [COMBINE_TYPE TYPE_NUMBER TYPE_NUMBER_DWORD]) (le_bytes 4 (ucast v :: u32)))"

definition wb_real :: "write_block \<Rightarrow> u64 \<Rightarrow> write_block" where
  "wb_real wb v = wb_push (wb_push wb [COMBINE_TYPE TYPE_NUMBER TYPE_NUMBER_REAL]) (le_bytes 8 v)"

definition wb_pointer :: "write_block \<Rightarrow> u64 \<Rightarrow> write_block" where
  "wb_pointer wb v = wb_push (wb_push wb [TYPE_USERDATA]) (le_bytes 8 v)"

text \<open>The length is an \<open>int\<close>; a string of 2 GB or more is cut to what the wrapped length says.\<close>

definition wb_string :: "write_block \<Rightarrow> u8 list \<Rightarrow> int \<Rightarrow> write_block" where
  "wb_string wb str len =
     (if len < int MAX_COOKIE then
        let wb1 = wb_push wb [COMBINE_TYPE TYPE_SHORT_STRING (word_of_int len)]
        in if 0 < len then wb_push wb1 (take (nat len) str) else wb1
      else wb_push
        (if len < 0x10000
         then wb_push (wb_push wb [COMBINE_TYPE TYPE_LONG_STRING 2]) (le_bytes 2 (word_of_int len :: u16))
         else wb_push (wb_push wb [COMBINE_TYPE TYPE_LONG_STRING 4]) (le_bytes 4 (word_of_int len :: u32)))
        (take (nat len) str))"

text \<open>
  The loops over a table. Each takes the recursive call \<open>pack_one(L, wb, ..., depth)\<close> as its
  first argument.
\<close>

fun pack_all :: "(lua_value \<Rightarrow> write_block \<Rightarrow> seri_error + write_block) \<Rightarrow>
    lua_value list \<Rightarrow> write_block \<Rightarrow> seri_error + write_block" where
  "pack_all pk [] wb = Inr wb"
| "pack_all pk (v # vs) wb = andthen (pk v wb) (pack_all pk vs)"

definition wb_table_array :: "(lua_value \<Rightarrow> write_block \<Rightarrow> seri_error + write_block) \<Rightarrow>
    lua_table \<Rightarrow> write_block \<Rightarrow> seri_error + (int \<times> write_block)" where
  "wb_table_array pk t wb =
     (let array_size = sint (word_of_nat (t_rawlen t) :: i32);
          wb1 = (if int MAX_COOKIE - 1 \<le> array_size
                 then wb_integer (wb_push wb [COMBINE_TYPE TYPE_TABLE (word_of_nat (MAX_COOKIE - 1))]) (word_of_int array_size)
                 else wb_push wb [COMBINE_TYPE TYPE_TABLE (word_of_int array_size)])
      in andthen (pack_all pk (map (lua_rawgeti t) [1..<Suc (nat array_size)]) wb1) (\<lambda>wb2. Inr (array_size, wb2)))"

definition in_array :: "int \<Rightarrow> lua_value \<Rightarrow> bool" where
  "in_array array_size k = (case k of LInt x \<Rightarrow> 0 < sint x \<and> sint x \<le> array_size | _ \<Rightarrow> False)"

fun hash_loop :: "(lua_value \<Rightarrow> write_block \<Rightarrow> seri_error + write_block) \<Rightarrow> int \<Rightarrow>
    (lua_value \<times> lua_value) list \<Rightarrow> write_block \<Rightarrow> seri_error + write_block" where
  "hash_loop pk array_size [] wb = Inr wb"
| "hash_loop pk array_size ((k, v) # ps) wb =
     (if in_array array_size k then hash_loop pk array_size ps wb
      else andthen (pk k wb) (\<lambda>wb1. andthen (pk v wb1) (hash_loop pk array_size ps)))"

definition wb_table_hash :: "(lua_value \<Rightarrow> write_block \<Rightarrow> seri_error + write_block) \<Rightarrow>
    lua_table \<Rightarrow> int \<Rightarrow> write_block \<Rightarrow> seri_error + write_block" where
  "wb_table_hash pk t array_size wb =
     andthen (hash_loop pk array_size (t_items t) wb) (\<lambda>wb1. Inr (wb_nil wb1))"

fun meta_loop :: "(lua_value \<Rightarrow> write_block \<Rightarrow> seri_error + write_block) \<Rightarrow>
    (lua_value \<times> lua_value) list \<Rightarrow> write_block \<Rightarrow> seri_error + write_block" where
  "meta_loop pk [] wb = Inr wb"
| "meta_loop pk ((k, v) # ps) wb =
     (if k = LNil then Inr wb
      else andthen (pk k wb) (\<lambda>wb1. andthen (pk v wb1) (meta_loop pk ps)))"

definition wb_table_metapairs :: "(lua_value \<Rightarrow> write_block \<Rightarrow> seri_error + write_block) \<Rightarrow>
    (lua_value \<times> lua_value) list \<Rightarrow> write_block \<Rightarrow> seri_error + write_block" where
  "wb_table_metapairs pk ps wb =
     andthen (meta_loop pk ps (wb_push wb [COMBINE_TYPE TYPE_TABLE 0])) (\<lambda>wb1. Inr (wb_nil wb1))"

definition wb_table :: "(lua_value \<Rightarrow> write_block \<Rightarrow> seri_error + write_block) \<Rightarrow>
    lua_table \<Rightarrow> write_block \<Rightarrow> seri_error + write_block" where
  "wb_table pk t wb = (case t_pairs t of
       Some ps \<Rightarrow> wb_table_metapairs pk ps wb
     | None \<Rightarrow> andthen (wb_table_array pk t wb) (\<lambda>(array_size, wb1). wb_table_hash pk t array_size wb1))"

function pack_one :: "lua_heap \<Rightarrow> nat \<Rightarrow> lua_value \<Rightarrow> write_block \<Rightarrow> seri_error + write_block" where
  "pack_one h depth v b =
     (if MAX_DEPTH < depth then Inl Too_deep
      else case v of
        LNil \<Rightarrow> Inr (wb_nil b)
      | LInt x \<Rightarrow> Inr (wb_integer b x)
      | LReal n \<Rightarrow> Inr (wb_real b n)
      | LBool x \<Rightarrow> Inr (wb_boolean b x)
      | LStr s \<Rightarrow> Inr (wb_string b s (sint (word_of_nat (length s) :: i32)))
      | LPtr p \<Rightarrow> Inr (wb_pointer b p)
      | LTable a \<Rightarrow> wb_table (\<lambda>w wb. pack_one h (depth + 1) w wb) (h a) b
      | LOther ty \<Rightarrow> Inl (Unsupported ty))"
  by pat_completeness auto
termination by (relation "measure (\<lambda>(h, depth, v, b). MAX_DEPTH + 1 - depth)") auto

declare pack_one.simps [simp del]

definition pack_from :: "lua_heap \<Rightarrow> lua_value list \<Rightarrow> write_block \<Rightarrow> seri_error + write_block" where
  "pack_from h vs b = pack_all (pack_one h 0) vs b"

fun seri :: "u8 list list \<Rightarrow> nat \<Rightarrow> u8 list option" where
  "seri [] len = (if 0 < len then None else Some [])"
| "seri (b # bs) len =
     (if 0 < len then
        if BLOCK_SIZE \<le> len then do { r \<leftarrow> seri bs (len - BLOCK_SIZE); Some (take BLOCK_SIZE b @ r) }
        else Some (take len b)
      else Some [])"

text \<open>The memory area and its size; the arguments are the values on the stack.\<close>

definition luaseri_pack :: "lua_heap \<Rightarrow> lua_value list \<Rightarrow> (seri_error + (u8 list \<times> int)) option" where
  "luaseri_pack h vs = (case pack_from h vs wb_init of
       Inl e \<Rightarrow> Some (Inl e)
     | Inr wb \<Rightarrow> do { bs \<leftarrow> seri (wb_head wb) (wb_len wb); Some (Inr (bs, int (wb_len wb))) })"

section \<open>The read block\<close>

record read_block =
  rb_buffer :: "u8 list"
  rb_len :: int
  rb_ptr :: int

definition rball_init :: "u8 list \<Rightarrow> int \<Rightarrow> read_block" where
  "rball_init buffer sz = \<lparr>rb_buffer = buffer, rb_len = sz, rb_ptr = 0\<rparr>"

text \<open>The offset in the buffer for the pointer returned.\<close>

definition rb_read :: "read_block \<Rightarrow> int \<Rightarrow> int option \<times> read_block" where
  "rb_read rb sz =
     (if rb_len rb < sz then (None, rb)
      else (Some (rb_ptr rb), rb\<lparr>rb_ptr := rb_ptr rb + sz, rb_len := rb_len rb - sz\<rparr>))"

definition invalid_stream_line :: "read_block \<Rightarrow> nat \<Rightarrow> seri_error + 'a" where
  "invalid_stream_line rb line = Inl (Invalid_stream (rb_len rb) line)"

text \<open>\<open>rb_read\<close>, the check for NULL that follows it everywhere, and the read through the pointer.\<close>

definition rb_fetch :: "read_block \<Rightarrow> int \<Rightarrow> nat \<Rightarrow> seri_error + (u8 list \<times> read_block)" where
  "rb_fetch rb sz line = (case rb_read rb sz of
       (None, rb1) \<Rightarrow> invalid_stream_line rb1 line
     | (Some p, rb1) \<Rightarrow> (case mem_read (rb_buffer rb) p sz of None \<Rightarrow> Inl Outside | Some bs \<Rightarrow> Inr (bs, rb1)))"

section \<open>Unpacking\<close>

definition get_integer :: "read_block \<Rightarrow> u8 \<Rightarrow> seri_error + (u64 \<times> read_block)" where
  "get_integer rb cookie =
     (if cookie = TYPE_NUMBER_ZERO then Inr (0, rb)
      else if cookie = TYPE_NUMBER_BYTE then
        andthen (rb_fetch rb 1 366) (\<lambda>(bs, rb1). Inr (ucast (le_word bs :: u8), rb1))
      else if cookie = TYPE_NUMBER_WORD then
        andthen (rb_fetch rb 2 374) (\<lambda>(bs, rb1). Inr (ucast (le_word bs :: u16), rb1))
      else if cookie = TYPE_NUMBER_DWORD then
        andthen (rb_fetch rb 4 382) (\<lambda>(bs, rb1). Inr (scast (le_word bs :: i32), rb1))
      else if cookie = TYPE_NUMBER_QWORD then
        andthen (rb_fetch rb 8 390) (\<lambda>(bs, rb1). Inr (le_word bs, rb1))
      else invalid_stream_line rb 395)"

definition get_real :: "read_block \<Rightarrow> seri_error + (u64 \<times> read_block)" where
  "get_real rb = andthen (rb_fetch rb 8 405) (\<lambda>(bs, rb1). Inr (le_word bs, rb1))"

definition get_pointer :: "read_block \<Rightarrow> seri_error + (u64 \<times> read_block)" where
  "get_pointer rb = andthen (rb_fetch rb 8 415) (\<lambda>(bs, rb1). Inr (le_word bs, rb1))"

definition get_buffer :: "read_block \<Rightarrow> int \<Rightarrow> seri_error + (lua_built \<times> read_block)" where
  "get_buffer rb len = (case rb_read rb len of
       (None, rb1) \<Rightarrow> invalid_stream_line rb1 425
     | (Some p, rb1) \<Rightarrow>
         if len < 0 then Inl Too_big
         else (case mem_read (rb_buffer rb) p len of None \<Rightarrow> Inl Outside | Some bs \<Rightarrow> Inr (BStr bs, rb1)))"

text \<open>
  The loops of \<open>unpack_table\<close>. Each takes the recursive call \<open>unpack_one(L, rb)\<close> as its
  argument \<open>one\<close>, which is given the number of values on the Lua stack, and \<open>tp\<close>, that number at the
  beginning of a turn. The second loop has no bound of its own: every turn reads a byte or more,
  so the bytes left and one more turn are enough.
\<close>

type_synonym 'a reader = "read_block \<Rightarrow> (seri_error + ('a \<times> read_block)) option"

primrec array_loop :: "(nat \<Rightarrow> lua_built reader) \<Rightarrow> nat \<Rightarrow> nat \<Rightarrow> lua_built list reader" where
  "array_loop one tp 0 rb = Some (Inr ([], rb))"
| "array_loop one tp (Suc k) rb =
     continue (one tp rb) (\<lambda>(x, rb1). continue (array_loop one tp k rb1) (\<lambda>(xs, rb2). Some (Inr (x # xs, rb2))))"

primrec pair_loop :: "(nat \<Rightarrow> lua_built reader) \<Rightarrow> nat \<Rightarrow> nat \<Rightarrow> (lua_built \<times> lua_built) list reader" where
  "pair_loop one tp 0 rb = None"
| "pair_loop one tp (Suc n) rb =
     continue (one tp rb) (\<lambda>(k, rb1).
       if k = BNil then Some (Inr ([], rb1))
       else continue (one (tp + 1) rb1) (\<lambda>(v, rb2).
         if nan_key k then Some (Inl Nan_key)
         else continue (pair_loop one tp n rb2) (\<lambda>(ps, rb3). Some (Inr ((k, v) # ps, rb3)))))"

definition table_size :: "read_block \<Rightarrow> u8 \<Rightarrow> seri_error + (int \<times> read_block)" where
  "table_size rb cookie =
     (if unat cookie = MAX_COOKIE - 1 then
        andthen (rb_fetch rb 1 438) (\<lambda>(bs, rb1).
          let ty = le_word bs :: u8; cookie1 = drop_bit 3 ty in
          if (ty AND 7) \<noteq> TYPE_NUMBER \<or> cookie1 = TYPE_NUMBER_REAL then invalid_stream_line rb1 443
          else andthen (get_integer rb1 cookie1) (\<lambda>(n, rb2). Inr (sint (ucast n :: i32), rb2)))
      else Inr (int (unat cookie), rb))"

definition unpack_table :: "(nat \<Rightarrow> bool) \<Rightarrow> (nat \<Rightarrow> lua_built reader) \<Rightarrow> nat \<Rightarrow> u8 \<Rightarrow> lua_built reader" where
  "unpack_table room one tp cookie rb =
     continue (Some (table_size rb cookie)) (\<lambda>(array_size, rb1).
       if \<not> room tp then Some (Inl Stack_overflow)
       else continue (array_loop one (tp + 1) (nat array_size) rb1) (\<lambda>(xs, rb2).
         continue (pair_loop one (tp + 1) (nat (rb_len rb2) + 1) rb2) (\<lambda>(ps, rb3). Some (Inr (BTable xs ps, rb3)))))"

definition push_value :: "(nat \<Rightarrow> bool) \<Rightarrow> (nat \<Rightarrow> lua_built reader) \<Rightarrow> nat \<Rightarrow> u8 \<Rightarrow> u8 \<Rightarrow> lua_built reader" where
  "push_value room one tp ty cookie rb =
     (if ty = TYPE_NIL then Some (Inr (BNil, rb))
      else if ty = TYPE_BOOLEAN then Some (Inr (BBool (cookie \<noteq> 0), rb))
      else if ty = TYPE_NUMBER then
        if cookie = TYPE_NUMBER_REAL then Some (andthen (get_real rb) (\<lambda>(n, rb1). Inr (BReal n, rb1)))
        else Some (andthen (get_integer rb cookie) (\<lambda>(n, rb1). Inr (BInt n, rb1)))
      else if ty = TYPE_USERDATA then Some (andthen (get_pointer rb) (\<lambda>(p, rb1). Inr (BPtr p, rb1)))
      else if ty = TYPE_SHORT_STRING then Some (get_buffer rb (int (unat cookie)))
      else if ty = TYPE_LONG_STRING then
        if cookie = 2 then
          Some (andthen (rb_fetch rb 2 491) (\<lambda>(bs, rb1). get_buffer rb1 (int (unat (le_word bs :: u16)))))
        else if cookie \<noteq> 4 then Some (invalid_stream_line rb 498)
        else Some (andthen (rb_fetch rb 4 502) (\<lambda>(bs, rb1). get_buffer rb1 (sint (le_word bs :: u32))))
      else if ty = TYPE_TABLE then unpack_table room one tp cookie rb
      else Some (invalid_stream_line rb 515))"

primrec unpack_one :: "(nat \<Rightarrow> bool) \<Rightarrow> nat \<Rightarrow> nat \<Rightarrow> lua_built reader" where
  "unpack_one room 0 tp rb = None"
| "unpack_one room (Suc n) tp rb =
     continue (Some (rb_fetch rb 1 526)) (\<lambda>(bs, rb1).
       let ty = le_word bs :: u8 in push_value room (unpack_one room n) tp (ty AND 7) (drop_bit 3 ty) rb1)"

text \<open>
  The loop of \<open>_luaseri_unpack\<close> with its counter \<open>i\<close>, which ends when no byte is left; the argument of the
  call and the \<open>i\<close> values read so far are on the Lua stack. As above the bytes left bound the turns.
\<close>

primrec unpack_loop :: "(nat \<Rightarrow> bool) \<Rightarrow> nat \<Rightarrow> nat \<Rightarrow> nat \<Rightarrow> read_block \<Rightarrow> (seri_error + lua_built list) option" where
  "unpack_loop room n 0 i rb = None"
| "unpack_loop room n (Suc k) i rb =
     (if i mod 8 = 7 \<and> \<not> room (i + 1) then Some (Inl Stack_overflow)
      else case rb_read rb 1 of
       (None, rb1) \<Rightarrow> Some (Inr [])
     | (Some p, rb1) \<Rightarrow> (case mem_read (rb_buffer rb) p 1 of
           None \<Rightarrow> Some (Inl Outside)
         | Some bs \<Rightarrow>
             let ty = le_word bs :: u8 in
             continue (push_value room (unpack_one room n) (i + 1) (ty AND 7) (drop_bit 3 ty) rb1) (\<lambda>(x, rb2).
               continue (unpack_loop room n k (i + 1) rb2) (\<lambda>xs. Some (Inr (x # xs))))))"

text \<open>
  The first argument of \<open>_luaseri_unpack\<close> is nil or missing, a string, or a pointer (NULL when it is
  neither) with a second argument, \<open>None\<close> if that is no integer.
\<close>

datatype seri_input = In_none | In_string "u8 list" | In_memory "u8 list option" "u64 option"

definition luaseri_unpack :: "(nat \<Rightarrow> bool) \<Rightarrow> nat \<Rightarrow> seri_input \<Rightarrow> (seri_error + lua_built list) option" where
  "luaseri_unpack room depth inp =
     (let go = (\<lambda>buffer len.
        if len = 0 then Some (Inr [])
        else case buffer of
          None \<Rightarrow> Some (Inl Null_pointer)
        | Some m \<Rightarrow> unpack_loop room depth (nat len + 1) 0 (rball_init m len))
      in case inp of
        In_none \<Rightarrow> Some (Inr [])
      | In_string s \<Rightarrow> go (Some s) (sint (word_of_nat (length s) :: i32))
      | In_memory m None \<Rightarrow> Some (Inl Bad_argument)
      | In_memory m (Some n) \<Rightarrow> go m (sint (ucast n :: i32)))"

end
