(* ===== verification/Seri_Spec.thy ===== *)
theory Seri_Spec
  imports Seri
begin

text \<open>
  What the operations of \<open>lua-seri.c\<close> promise: writing appends to the bytes of the chain of
  blocks, reading takes them off the front of what is left of the memory area, never leaves it,
  and every value read takes at least one byte. The loops of \<open>unpack_table\<close> inherit this from the
  recursive call through the locale \<open>value_reader\<close>.
\<close>

section \<open>Writing\<close>

definition wb_content :: "write_block \<Rightarrow> u8 list" where
  "wb_content b = concat (wb_head b)"

definition wb_ok :: "write_block \<Rightarrow> bool" where
  "wb_ok b \<longleftrightarrow> wb_head b \<noteq> [] \<and> (\<forall>x \<in> set (butlast (wb_head b)). length x = BLOCK_SIZE) \<and>
     length (last (wb_head b)) = wb_ptr b \<and> wb_ptr b \<le> BLOCK_SIZE \<and> wb_len b = length (wb_content b)"

lemma wb_init_ok [simp]: "wb_ok wb_init" "wb_content wb_init = []"
  by (simp_all add: wb_ok_def wb_init_def wb_content_def)

lemma concat_snoc: "xs \<noteq> [] \<Longrightarrow> concat xs = concat (butlast xs) @ last xs"
  by (metis append_butlast_last_id append_Nil2 concat.simps concat_append)

lemma blk_write_ok:
  assumes "wb_ok b" "wb_ptr b + length bs \<le> BLOCK_SIZE"
  shows "wb_ok (blk_write b bs)" "wb_content (blk_write b bs) = wb_content b @ bs"
    "wb_ptr (blk_write b bs) = wb_ptr b + length bs"
  using assms concat_snoc[of "wb_head b"] by (auto simp: wb_ok_def blk_write_def wb_content_def)

lemma blk_alloc_ok:
  assumes "wb_ok b" "wb_ptr b = BLOCK_SIZE"
  shows "wb_ok (blk_alloc b)" "wb_content (blk_alloc b) = wb_content b"
proof -
  have "\<forall>x \<in> set (wb_head b). length x = BLOCK_SIZE"
    using assms by (metis (no_types, lifting) Un_iff append_butlast_last_id empty_iff set_ConsD list.set(1) set_append wb_ok_def)
  then show "wb_ok (blk_alloc b)" "wb_content (blk_alloc b) = wb_content b"
    using assms by (auto simp: wb_ok_def blk_alloc_def wb_content_def BLOCK_SIZE_def)
qed

lemma push_bytes_ok:
  assumes "wb_ok b"
  shows "wb_ok (push_bytes b buf) \<and> wb_content (push_bytes b buf) = wb_content b @ buf"
  using assms
proof (induction b buf rule: push_bytes.induct)
  case (1 b buf)
  show ?case
  proof (cases "wb_ptr b + length buf \<le> BLOCK_SIZE")
    case True
    then show ?thesis using blk_write_ok[OF 1(2)] by (simp add: push_bytes.simps)
  next
    case False
    let ?cp = "BLOCK_SIZE - wb_ptr b"
    have cp: "length (take ?cp buf) = ?cp" "wb_ptr b \<le> BLOCK_SIZE" using False 1(2) by (auto simp: wb_ok_def)
    then have w: "wb_ok (blk_write b (take ?cp buf))" "wb_content (blk_write b (take ?cp buf)) = wb_content b @ take ?cp buf"
        "wb_ptr (blk_write b (take ?cp buf)) = BLOCK_SIZE"
      using blk_write_ok[OF 1(2), of "take ?cp buf"] by (simp_all del: length_take)
    show ?thesis
      using 1(1)[OF False refl blk_alloc_ok(1)[OF w(1,3)]] blk_alloc_ok(2)[OF w(1,3)] w(2) False
      by (simp add: push_bytes.simps[of b] Let_def)
  qed
qed

lemma wb_push_ok [simp]:
  assumes "wb_ok b"
  shows "wb_ok (wb_push b buf)" "wb_content (wb_push b buf) = wb_content b @ buf"
  using assms push_bytes_ok blk_alloc_ok by (simp_all add: wb_push_def)

lemma seri_blocks:
  assumes "xs \<noteq> []" "\<forall>x \<in> set (butlast xs). length x = BLOCK_SIZE" "length (last xs) \<le> BLOCK_SIZE"
  shows "seri xs (length (concat xs)) = Some (concat xs)"
  using assms
proof (induction xs)
  case (Cons b bs)
  show ?case
  proof (cases "bs = []")
    case False
    then show ?thesis using Cons by (simp add: BLOCK_SIZE_def)
  qed (use Cons.prems in \<open>simp add: BLOCK_SIZE_def\<close>)
qed simp

lemma seri_content: "wb_ok b \<Longrightarrow> seri (wb_head b) (wb_len b) = Some (wb_content b)"
  using seri_blocks[of "wb_head b"] by (simp add: wb_ok_def wb_content_def)

section \<open>Reading\<close>

definition rb_ok :: "read_block \<Rightarrow> bool" where
  "rb_ok rb \<longleftrightarrow> 0 \<le> rb_len rb \<and> 0 \<le> rb_ptr rb \<and> rb_ptr rb + rb_len rb \<le> int (length (rb_buffer rb))"

definition rb_rest :: "read_block \<Rightarrow> u8 list" where
  "rb_rest rb = take (nat (rb_len rb)) (drop (nat (rb_ptr rb)) (rb_buffer rb))"

definition rb_skip :: "nat \<Rightarrow> read_block \<Rightarrow> read_block" where
  "rb_skip n rb = rb\<lparr>rb_ptr := rb_ptr rb + int n, rb_len := rb_len rb - int n\<rparr>"

lemma length_rb_rest: "rb_ok rb \<Longrightarrow> int (length (rb_rest rb)) = rb_len rb"
  by (auto simp: rb_ok_def rb_rest_def min_def)

lemma rb_skip_ok:
  assumes "rb_ok rb" "int n \<le> rb_len rb"
  shows "rb_ok (rb_skip n rb)" "rb_rest (rb_skip n rb) = drop n (rb_rest rb)" "rb_len (rb_skip n rb) = rb_len rb - int n"
proof -
  have "nat (rb_ptr rb + int n) = n + nat (rb_ptr rb)" "nat (rb_len rb - int n) = nat (rb_len rb) - n"
    using assms by (auto simp: rb_ok_def)
  then show "rb_ok (rb_skip n rb)" "rb_rest (rb_skip n rb) = drop n (rb_rest rb)" "rb_len (rb_skip n rb) = rb_len rb - int n"
    using assms by (auto simp: rb_ok_def rb_skip_def rb_rest_def drop_take)
qed

lemma rb_skip_skip [simp]: "rb_skip m (rb_skip n rb) = rb_skip (n + m) rb" "rb_skip 0 rb = rb"
  by (simp_all add: rb_skip_def)

lemma rb_skip_front:
  assumes "rb_ok rb" "rb_rest rb = bs @ rest"
  shows "rb_ok (rb_skip (length bs) rb)" "rb_rest (rb_skip (length bs) rb) = rest"
  using assms length_rb_rest[OF assms(1)] rb_skip_ok[OF assms(1), of "length bs"] by simp_all

text \<open>Within the area a read gives the bytes at the front or fails for want of bytes.\<close>

lemma mem_read_rest:
  assumes "rb_ok rb" "int n \<le> rb_len rb"
  shows "mem_read (rb_buffer rb) (rb_ptr rb) (int n) = Some (take n (rb_rest rb))"
  using assms by (simp add: rb_ok_def rb_rest_def mem_read_def min_def le_nat_iff)

lemma rb_fetch_ok:
  assumes "rb_ok rb"
  shows "rb_fetch rb (int n) line =
    (if int n \<le> rb_len rb then Inr (take n (rb_rest rb), rb_skip n rb) else Inl (Invalid_stream (rb_len rb) line))"
  using mem_read_rest[OF assms, of n] by (simp add: rb_fetch_def rb_read_def rb_skip_def invalid_stream_line_def)

lemma get_buffer_ok:
  assumes "rb_ok rb"
  shows "get_buffer rb (int n) =
    (if int n \<le> rb_len rb then Inr (BStr (take n (rb_rest rb)), rb_skip n rb) else Inl (Invalid_stream (rb_len rb) 425))"
  using mem_read_rest[OF assms, of n] by (simp add: get_buffer_def rb_read_def rb_skip_def invalid_stream_line_def)

lemma get_buffer_negative: "rb_ok rb \<Longrightarrow> i < 0 \<Longrightarrow> get_buffer rb i = Inl Too_big"
  by (simp add: get_buffer_def rb_read_def rb_ok_def)

lemmas rb_fetch_nat = rb_fetch_ok[of _ 1, simplified] rb_fetch_ok[of _ 2, simplified]
  rb_fetch_ok[of _ 4, simplified] rb_fetch_ok[of _ 8, simplified]

text \<open>Reading what stands at the front.\<close>

lemma fetch_front:
  assumes "rb_ok rb" "rb_rest rb = bs @ rest"
  shows "rb_fetch rb (int (length bs)) line = Inr (bs, rb_skip (length bs) rb)"
  using assms length_rb_rest[OF assms(1)] by (simp add: rb_fetch_ok)

lemma buffer_front:
  assumes "rb_ok rb" "rb_rest rb = bs @ rest"
  shows "get_buffer rb (int (length bs)) = Inr (BStr bs, rb_skip (length bs) rb)"
  using assms length_rb_rest[OF assms(1)] by (simp add: get_buffer_ok)

section \<open>Staying inside\<close>

text \<open>
  The outcome of a reading call on a block in order: an error other than \<open>Outside\<close>, or a value
  and a block of the same area that is in order and has at least \<open>least\<close> bytes less.
\<close>

definition stays :: "nat \<Rightarrow> read_block \<Rightarrow> seri_error + ('a \<times> read_block) \<Rightarrow> bool" where
  "stays least rb r \<longleftrightarrow> (case r of
       Inl e \<Rightarrow> e \<noteq> Outside
     | Inr (x, rb1) \<Rightarrow> rb_ok rb1 \<and> rb_len rb1 + int least \<le> rb_len rb)"

lemma stays_simps [simp]:
  "stays least rb (Inl e) \<longleftrightarrow> e \<noteq> Outside"
  "stays least rb (Inr (x, rb1)) \<longleftrightarrow> rb_ok rb1 \<and> rb_len rb1 + int least \<le> rb_len rb"
  "stays least rb (invalid_stream_line rb line)"
  by (simp_all add: stays_def invalid_stream_line_def)

lemma stays_andthen:
  assumes "stays m rb r" "\<And>x rb1. rb_ok rb1 \<Longrightarrow> rb_len rb1 + int m \<le> rb_len rb \<Longrightarrow> stays n rb1 (f (x, rb1))"
  shows "stays (m + n) rb (andthen r f)"
proof (cases r)
  case (Inr y)
  then show ?thesis using assms(1) assms(2)[of "snd y" "fst y"]
    by (cases y; cases "f y") (force simp: stays_def)+
qed (use assms in simp)

lemma fetch_stays: "rb_ok rb \<Longrightarrow> 0 \<le> sz \<Longrightarrow> stays (nat sz) rb (rb_fetch rb sz line)"
  using rb_fetch_ok[of rb "nat sz" line] rb_skip_ok[of rb "nat sz"] by simp

lemma buffer_stays: "rb_ok rb \<Longrightarrow> stays 0 rb (get_buffer rb i)"
  using get_buffer_ok[of rb "nat i"] rb_skip_ok[of rb "nat i"] get_buffer_negative[of rb i]
  by (cases "0 \<le> i") simp_all

lemma stays_weaken: "stays m rb r \<Longrightarrow> n \<le> m \<Longrightarrow> stays n rb r"
  by (auto simp: stays_def split: sum.splits)

lemma then_stays:
  assumes "rb_ok rb" "0 \<le> sz" "\<And>bs rb1. rb_ok rb1 \<Longrightarrow> stays 0 rb1 (f (bs, rb1))"
  shows "stays 0 rb (andthen (rb_fetch rb sz line) f)"
  using stays_andthen[OF fetch_stays[OF assms(1,2)] assms(3)] stays_weaken by blast

lemma integer_stays: "rb_ok rb \<Longrightarrow> stays 0 rb (get_integer rb c)"
  by (simp add: get_integer_def then_stays split: if_splits)

lemma integer_then_stays:
  assumes "rb_ok rb"
  shows "stays 0 rb (andthen (get_integer rb c) (\<lambda>(n, rb1). Inr (g n, rb1)))"
  by (rule stays_andthen[of 0 _ _ 0, simplified, OF integer_stays[OF assms]]) simp

lemma table_size_stays: "rb_ok rb \<Longrightarrow> stays 0 rb (table_size rb c)"
  unfolding table_size_def by (auto intro!: then_stays simp: Let_def integer_then_stays)

lemma leaf_stays:
  assumes "rb_ok rb"
  shows "stays 0 rb (andthen (get_integer rb c) (\<lambda>(n, rb1). Inr (BInt n, rb1)))"
    "stays 0 rb (andthen (get_real rb) (\<lambda>(n, rb1). Inr (BReal n, rb1)))"
    "stays 0 rb (andthen (get_pointer rb) (\<lambda>(n, rb1). Inr (BPtr n, rb1)))"
    "stays 0 rb (get_buffer rb i)"
    "stays 0 rb (andthen (rb_fetch rb 2 l) (\<lambda>(bs, rb1). get_buffer rb1 (int (unat (le_word bs :: u16)))))"
    "stays 0 rb (andthen (rb_fetch rb 4 l) (\<lambda>(bs, rb1). get_buffer rb1 (sint (le_word bs :: u32))))"
  unfolding get_real_def get_pointer_def andthen_assoc
  by (rule integer_then_stays then_stays buffer_stays; use assms in \<open>simp add: buffer_stays\<close>)+

section \<open>The contract of the recursive call\<close>

text \<open>
  What a reader may return: nothing, if at least \<open>bound\<close> bytes are left, or an error other than
  \<open>Outside\<close>, or a result and a block that has at least \<open>least\<close> bytes less.
\<close>

definition reads :: "nat \<Rightarrow> nat \<Rightarrow> read_block \<Rightarrow> (seri_error + ('a \<times> read_block)) option \<Rightarrow> bool" where
  "reads bound least rb m \<longleftrightarrow> (case m of None \<Rightarrow> int bound \<le> rb_len rb | Some r \<Rightarrow> stays least rb r)"

lemma reads_simps [simp]:
  "reads bound least rb None \<longleftrightarrow> int bound \<le> rb_len rb"
  "reads bound least rb (Some r) \<longleftrightarrow> stays least rb r"
  by (simp_all add: reads_def)

lemma continue_reads:
  assumes "reads bound k rb m"
    and "\<And>x rb1. rb_ok rb1 \<Longrightarrow> rb_len rb1 + int k \<le> rb_len rb \<Longrightarrow> reads bound 0 rb1 (f (x, rb1))"
  shows "reads bound k rb (continue m f)"
proof (cases m)
  case (Some r)
  show ?thesis
  proof (cases r)
    case (Inr y)
    obtain x rb1 where y: "y = (x, rb1)" by fastforce
    then have 1: "rb_ok rb1" "rb_len rb1 + int k \<le> rb_len rb" using assms(1) Some Inr by simp_all
    have "reads bound 0 rb1 (f (x, rb1))" by (rule assms(2)[OF 1])
    then have "reads bound k rb (f (x, rb1))" using 1(2)
      by (auto simp: reads_def stays_def split: option.splits sum.splits)
    then show ?thesis using Some Inr y by simp
  qed (use assms Some in simp)
qed (use assms in simp)

lemma reads_weaken: "reads bound k rb m \<Longrightarrow> l \<le> k \<Longrightarrow> reads bound l rb m"
  by (auto simp: reads_def intro: stays_weaken split: option.splits)

text \<open>A call that reads a value of at least one byte, with as many values on the Lua stack as it is told.\<close>

locale value_reader =
  fixes one :: "nat \<Rightarrow> lua_built reader" and bound :: nat
  assumes one_reads: "rb_ok rb \<Longrightarrow> reads bound 1 rb (one tp rb)"
begin

lemma one_then:
  assumes "rb_ok rb"
    and "\<And>x rb1. rb_ok rb1 \<Longrightarrow> rb_len rb1 + 1 \<le> rb_len rb \<Longrightarrow> reads bound 0 rb1 (f (x, rb1))"
  shows "reads bound 0 rb (continue (one tp rb) f)"
  by (rule reads_weaken[OF continue_reads[OF one_reads[OF assms(1)] assms(2)]]) simp_all

lemma array_reads: "rb_ok rb \<Longrightarrow> reads bound 0 rb (array_loop one tp k rb)"
proof (induction k arbitrary: rb)
  case (Suc k)
  have "reads bound 0 rb1 (continue (array_loop one tp k rb1) (\<lambda>(xs, rb2). Some (Inr (x # xs, rb2))))"
    if "rb_ok rb1" for rb1 x
    by (rule continue_reads[OF Suc.IH[OF that]]) simp
  then show ?case unfolding array_loop.simps by (intro one_then[OF Suc.prems]) simp
qed simp

lemma pairs_read: "rb_ok rb \<Longrightarrow> rb_len rb < int n \<Longrightarrow> reads bound 0 rb (pair_loop one tp n rb)"
proof (induction n arbitrary: rb)
  case 0
  then show ?case by (simp add: rb_ok_def)
next
  case (Suc n)
  have rest: "reads bound 0 rb2 (continue (pair_loop one tp n rb2) (\<lambda>(ps, rb3). Some (Inr (kv # ps, rb3))))"
    if "rb_ok rb2" "rb_len rb2 + 1 \<le> rb_len rb" for rb2 kv
    by (rule continue_reads) (use Suc that in simp_all)
  have "reads bound 0 rb1 (continue (one (tp + 1) rb1) (\<lambda>(v, rb2). if nan_key k then Some (Inl Nan_key)
      else continue (pair_loop one tp n rb2) (\<lambda>(ps, rb3). Some (Inr ((k, v) # ps, rb3)))))"
    if "rb_ok rb1" "rb_len rb1 + 1 \<le> rb_len rb" for rb1 k
    by (rule one_then[OF that(1)]) (use that rest in simp)
  then show ?case unfolding pair_loop.simps by (intro one_then[OF Suc.prems(1)]) simp
qed

lemma table_reads:
  assumes "rb_ok rb"
  shows "reads bound 0 rb (unpack_table room one tp c rb)"
proof -
  have "reads bound 0 rb1 (continue (array_loop one (tp + 1) k rb1) (\<lambda>(xs, rb2).
      continue (pair_loop one (tp + 1) (nat (rb_len rb2) + 1) rb2) (\<lambda>(ps, rb3). Some (Inr (BTable xs ps, rb3)))))"
    if "rb_ok rb1" for rb1 k
  proof (rule continue_reads[OF array_reads[OF that]])
    fix xs rb2
    assume 2: "rb_ok rb2"
    show "reads bound 0 rb2 ((\<lambda>(xs, rb2). continue (pair_loop one (tp + 1) (nat (rb_len rb2) + 1) rb2)
        (\<lambda>(ps, rb3). Some (Inr (BTable xs ps, rb3)))) (xs, rb2))"
      unfolding prod.case
      by (rule continue_reads[OF pairs_read[OF 2]]) simp_all
  qed
  then show ?thesis unfolding unpack_table_def
    by (intro continue_reads[where k = 0]) (simp_all add: table_size_stays assms)
qed

lemma value_reads:
  assumes "rb_ok rb"
  shows "reads bound 0 rb (push_value room one tp ty c rb)"
  using assms(1) table_reads[OF assms] leaf_stays[OF assms(1)] by (simp add: push_value_def)

end

lemma unpack_one_reads: "value_reader (unpack_one room n) n"
proof (induction n)
  case 0
  show ?case by unfold_locales (simp add: rb_ok_def)
next
  case (Suc n)
  have "reads (Suc n) 1 rb (unpack_one room (Suc n) tp rb)" if rb: "rb_ok rb" for rb tp
  proof (cases "1 \<le> rb_len rb")
    case True
    let ?rb = "rb_skip 1 rb" and ?ty = "le_word (take 1 (rb_rest rb)) :: u8"
    have 1: "rb_ok ?rb" "rb_len ?rb = rb_len rb - 1" using rb_skip_ok[OF rb(1), of 1] True by simp_all
    then have "reads n 0 ?rb (push_value room (unpack_one room n) tp (?ty AND 7) (drop_bit 3 ?ty) ?rb)"
      using value_reader.value_reads[OF Suc] by blast
    then have "reads (Suc n) 1 rb (push_value room (unpack_one room n) tp (?ty AND 7) (drop_bit 3 ?ty) ?rb)"
      using 1(2) by (auto simp: reads_def stays_def split: option.splits sum.splits)
    then show ?thesis using True rb_fetch_nat(1)[OF rb(1)] by (simp add: Let_def)
  qed (simp add: rb_fetch_nat(1)[OF rb(1)])
  then show ?case by unfold_locales
qed

interpretation seri_reader: value_reader "unpack_one room n" n for room n
  by (rule unpack_one_reads)

end
