(* ===== verification/Seri_Props.thy ===== *)
theory Seri_Props
  imports Seri_Spec
begin

text \<open>
  The round trip of \<open>lua-seri.c\<close>: what \<open>_luaseri_pack\<close> writes, \<open>_luaseri_unpack\<close> reads back as a
  copy of the values, shared tables once for each reference. The loops over tables inherit the
  property from the recursive call through the locale \<open>value_writer\<close>. Then the behaviour on
  streams nobody packed, and on tables nested too deeply or in a cycle.
\<close>

section \<open>The values that can be sent\<close>

definition str_fits :: "lua_value \<Rightarrow> bool" where
  "str_fits v = (case v of LStr s \<Rightarrow> length s < 2 ^ 31 | _ \<Rightarrow> True)"

definition key_fits :: "lua_value \<Rightarrow> bool" where
  "key_fits k = (str_fits k \<and> (case k of LReal w \<Rightarrow> \<not> is_nan w | _ \<Rightarrow> True))"

text \<open>
  The tables Lua can hold, with sizes and lengths that fit an \<open>int\<close>, and with iterators that yield no NaN
  as a key.
\<close>

definition table_fits :: "lua_table \<Rightarrow> bool" where
  "table_fits t \<longleftrightarrow> t_rawlen t < 2 ^ 31 \<and>
     (\<forall>p \<in> set (t_items t). fst p \<noteq> LNil \<and> key_fits (fst p) \<and> str_fits (snd p)) \<and>
     (case t_pairs t of None \<Rightarrow> True | Some ps \<Rightarrow> \<forall>p \<in> set ps. key_fits (fst p) \<and> str_fits (snd p))"

definition heap_fits :: "lua_heap \<Rightarrow> bool" where
  "heap_fits h \<longleftrightarrow> (\<forall>a. table_fits (h a))"

section \<open>The copy the receiver gets\<close>

definition copy_table :: "(lua_value \<Rightarrow> lua_built) \<Rightarrow> lua_table \<Rightarrow> lua_built" where
  "copy_table cp t = (case t_pairs t of
       Some ps \<Rightarrow> BTable [] (map (map_prod cp cp) (takeWhile (\<lambda>p. fst p \<noteq> LNil) ps))
     | None \<Rightarrow> BTable (map (\<lambda>i. cp (lua_rawgeti t i)) [1..<Suc (t_rawlen t)])
                 (map (map_prod cp cp) (filter (\<lambda>p. \<not> in_array (int (t_rawlen t)) (fst p)) (t_items t))))"

text \<open>The copy down to the nesting that is packed; values of other types are never packed.\<close>

function lua_copy :: "lua_heap \<Rightarrow> nat \<Rightarrow> lua_value \<Rightarrow> lua_built" where
  "lua_copy h depth v = (case v of
       LNil \<Rightarrow> BNil
     | LBool x \<Rightarrow> BBool x
     | LInt x \<Rightarrow> BInt x
     | LReal x \<Rightarrow> BReal x
     | LPtr x \<Rightarrow> BPtr x
     | LStr x \<Rightarrow> BStr x
     | LOther ty \<Rightarrow> BTable [] []
     | LTable a \<Rightarrow> if MAX_DEPTH < depth then BTable [] [] else copy_table (\<lambda>w. lua_copy h (depth + 1) w) (h a))"
  by pat_completeness auto
termination by (relation "measure (\<lambda>(h, depth, v). MAX_DEPTH + 1 - depth)") auto

declare lua_copy.simps [simp del]

lemma copy_is_nil: "lua_copy h d v = BNil \<longleftrightarrow> v = LNil"
  by (simp add: lua_copy.simps[of h d v] copy_table_def split: lua_value.split option.split)

lemma copy_nan: "nan_key (lua_copy h d v) \<longleftrightarrow> (\<exists>w. v = LReal w \<and> is_nan w)"
  by (simp add: lua_copy.simps[of h d v] copy_table_def nan_key_def split: lua_value.split option.split)

section \<open>One value\<close>

lemma COMBINE_TYPE_split:
  assumes "t < 8" "v < 32"
  shows "COMBINE_TYPE t v AND 7 = t" "drop_bit 3 (COMBINE_TYPE t v) = v"
proof -
  have t: "take_bit 3 t = t" "drop_bit 3 t = 0" and v: "take_bit 5 v = v"
    using assms by (simp_all add: take_bit_eq_mod drop_bit_eq_div word_less_nat_alt word_unat_eq_iff unat_div unat_mod)
  have "COMBINE_TYPE t v AND mask 3 = t"
    by (simp add: COMBINE_TYPE_def take_bit_eq_mask[symmetric] t take_bit_push_bit)
  then show "COMBINE_TYPE t v AND 7 = t" by (simp add: mask_eq_exp_minus_1)
  show "drop_bit 3 (COMBINE_TYPE t v) = v"
    using v by (auto simp: COMBINE_TYPE_def t bit_simps intro!: bit_word_eqI) (metis bit_take_bit_iff)
qed

text \<open>
  A non-empty code that \<open>unpack_one\<close> reads as the value, whatever follows it, with at most \<open>k\<close> nested
  calls, each of which puts at most two more values on the Lua stack.
\<close>

definition has_room :: "(nat \<Rightarrow> bool) \<Rightarrow> nat \<Rightarrow> nat \<Rightarrow> bool" where
  "has_room room tp k \<longleftrightarrow> (\<forall>t. tp \<le> t \<and> t \<le> tp + 2 * k \<longrightarrow> room t)"

lemma has_room_step: "has_room room tp (Suc k) \<Longrightarrow> room tp \<and> has_room room (tp + 1) k \<and> has_room room (tp + 2) k"
  by (auto simp: has_room_def)

definition codes :: "nat \<Rightarrow> u8 list \<Rightarrow> lua_built \<Rightarrow> bool" where
  "codes k bs x \<longleftrightarrow> bs \<noteq> [] \<and> (\<forall>n room tp rb rest. rb_ok rb \<longrightarrow> rb_rest rb = bs @ rest \<longrightarrow> k \<le> n \<longrightarrow>
     has_room room tp k \<longrightarrow> unpack_one room n tp rb = Some (Inr (x, rb_skip (length bs) rb)))"

lemma codes_read:
  assumes "codes k bs x" "rb_ok rb" "rb_rest rb = bs @ rest" "k \<le> n" "has_room room tp k"
  shows "unpack_one room n tp rb = Some (Inr (x, rb_skip (length bs) rb))"
  using assms unfolding codes_def by blast

lemma unpack_step:
  assumes "rb_ok rb" "rb_rest rb = ty # bs"
  shows "unpack_one room (Suc n) tp rb = push_value room (unpack_one room n) tp (ty AND 7) (drop_bit 3 ty) (rb_skip 1 rb)"
  using fetch_front[OF assms(1), of "[ty]" bs 526] assms(2) by (simp add: Let_def)

lemma codesI:
  assumes "t < 8" "c < 32"
    and "\<And>n room tp rb rest. rb_ok rb \<Longrightarrow> rb_rest rb = bs @ rest \<Longrightarrow> k \<le> n \<Longrightarrow> has_room room tp (Suc k) \<Longrightarrow>
      push_value room (unpack_one room n) tp t c rb = Some (Inr (x, rb_skip (length bs) rb))"
  shows "codes (Suc k) (COMBINE_TYPE t c # bs) x"
  unfolding codes_def
proof (intro conjI allI impI)
  fix n room tp rb rest
  assume rb: "rb_ok rb" "rb_rest rb = (COMBINE_TYPE t c # bs) @ rest" and n: "Suc k \<le> n" and room: "has_room room tp (Suc k)"
  obtain m where m: "n = Suc m" "k \<le> m" using n by (cases n) simp_all
  have 1: "rb_ok (rb_skip 1 rb)" "rb_rest (rb_skip 1 rb) = bs @ rest"
    using rb_skip_front[of rb "[COMBINE_TYPE t c]" "bs @ rest"] rb by simp_all
  have "push_value room (unpack_one room m) tp t c (rb_skip 1 rb) = Some (Inr (x, rb_skip (length bs) (rb_skip 1 rb)))"
    by (rule assms(3)[OF 1 m(2) room])
  then show "unpack_one room n tp rb = Some (Inr (x, rb_skip (length (COMBINE_TYPE t c # bs)) rb))"
    using unpack_step[OF rb(1), of _ "bs @ rest" room m tp] rb(2)
    by (simp add: m(1) COMBINE_TYPE_split[OF assms(1,2)])
qed simp

lemmas seri_types = TYPE_NIL_def TYPE_BOOLEAN_def TYPE_NUMBER_def TYPE_USERDATA_def TYPE_SHORT_STRING_def
  TYPE_LONG_STRING_def TYPE_TABLE_def TYPE_NUMBER_ZERO_def TYPE_NUMBER_BYTE_def TYPE_NUMBER_WORD_def
  TYPE_NUMBER_DWORD_def TYPE_NUMBER_QWORD_def TYPE_NUMBER_REAL_def

lemma codes_nil: "codes (Suc k) [TYPE_NIL] BNil"
  using codesI[of 0 0 "[]" k BNil] by (simp add: push_value_def seri_types COMBINE_TYPE_def)

text \<open>Integers: one of the five formats, chosen by the value.\<close>

definition codes_integer :: "u8 \<Rightarrow> u8 list \<Rightarrow> u64 \<Rightarrow> bool" where
  "codes_integer c bs v \<longleftrightarrow> c < 32 \<and> c \<noteq> TYPE_NUMBER_REAL \<and> (\<forall>rb rest. rb_ok rb \<longrightarrow> rb_rest rb = bs @ rest \<longrightarrow>
     get_integer rb c = Inr (v, rb_skip (length bs) rb))"

lemma small_sint:
  assumes "0 \<le> sint (v :: u64)" "sint v < 2 ^ LENGTH('a)" "LENGTH('a) \<le> 64"
  shows "ucast (ucast v :: 'a::len word) = v"
proof -
  have u: "uint v = sint v"
    using assms(1) sint_lt[of v] by (simp add: uint_sint take_bit_int_eq_self)
  then have "uint (ucast (ucast v :: 'a word) :: u64) = uint v"
    using assms(2) sint_lt[of v] assms(1) by (simp add: unsigned_ucast_eq unsigned_take_bit_eq take_bit_int_eq_self)
  then show ?thesis by (simp add: word_uint_eq_iff)
qed

lemma codes_integerI:
  assumes "c < 32" "c \<noteq> TYPE_NUMBER_REAL" "g bs = v"
    and "\<And>rb. get_integer rb c = andthen (rb_fetch rb (int (length bs)) l) (\<lambda>(bs, rb1). Inr (g bs, rb1))"
  shows "codes_integer c bs v"
  unfolding codes_integer_def using assms fetch_front by fastforce

lemma codes_integer_formats:
  "codes_integer TYPE_NUMBER_ZERO [] 0"
  "codes_integer TYPE_NUMBER_QWORD (le_bytes 8 v) v"
  "v = scast (ucast v :: i32) \<Longrightarrow> codes_integer TYPE_NUMBER_DWORD (le_bytes 4 (ucast v :: i32)) v"
  "0 \<le> sint v \<Longrightarrow> sint v < 0x100 \<Longrightarrow> codes_integer TYPE_NUMBER_BYTE (le_bytes 1 (ucast v :: u8)) v"
  "0 \<le> sint v \<Longrightarrow> sint v < 0x10000 \<Longrightarrow> codes_integer TYPE_NUMBER_WORD (le_bytes 2 (ucast v :: u16)) v"
      apply (simp add: codes_integer_def get_integer_def seri_types)
     apply (rule codes_integerI[where g = le_word and l = 390])
        apply (simp_all add: get_integer_def seri_types le_word_bytes_full)[4]
    apply (rule codes_integerI[where g = "\<lambda>bs. scast (le_word bs :: i32)" and l = 382])
       apply (simp_all add: get_integer_def seri_types le_word_bytes_full)[4]
   apply (rule codes_integerI[where g = "\<lambda>bs. ucast (le_word bs :: u8)" and l = 366])
      apply (simp_all add: get_integer_def seri_types le_word_bytes_full small_sint del: le_bytes.simps)[4]
  apply (rule codes_integerI[where g = "\<lambda>bs. ucast (le_word bs :: u16)" and l = 374])
     apply (simp_all add: get_integer_def seri_types le_word_bytes_full small_sint)[4]
  done

lemma wb_integer_codes:
  assumes "wb_ok b"
  shows "wb_ok (wb_integer b v)"
    "\<exists>c bs. codes_integer c bs v \<and> wb_content (wb_integer b v) = wb_content b @ COMBINE_TYPE TYPE_NUMBER c # bs"
  using assms codes_integer_formats(2-5)[of v] codes_integer_formats(1)
  by (auto simp: wb_integer_def simp del: le_bytes.simps One_nat_def)

text \<open>A write that appends the code of a value.\<close>

definition emits :: "nat \<Rightarrow> write_block \<Rightarrow> write_block \<Rightarrow> lua_built \<Rightarrow> bool" where
  "emits k b b' x \<longleftrightarrow> wb_ok b' \<and> (\<exists>bs. codes k bs x \<and> wb_content b' = wb_content b @ bs)"

lemma emits_integer:
  assumes "wb_ok b"
  shows "emits (Suc k) b (wb_integer b v) (BInt v)"
proof -
  obtain c bs where c: "codes_integer c bs v" "wb_content (wb_integer b v) = wb_content b @ COMBINE_TYPE TYPE_NUMBER c # bs"
    using wb_integer_codes(2)[OF assms] by blast
  have "codes (Suc k) (COMBINE_TYPE TYPE_NUMBER c # bs) (BInt v)"
    using c(1) by (auto simp: codes_integer_def push_value_def seri_types intro!: codesI)
  then show ?thesis using wb_integer_codes(1)[OF assms] c(2) by (auto simp: emits_def)
qed

lemma codes_eight:
  "codes (Suc k) (COMBINE_TYPE TYPE_NUMBER TYPE_NUMBER_REAL # le_bytes 8 v) (BReal v)"
  "codes (Suc k) (TYPE_USERDATA # le_bytes 8 v) (BPtr v)"
proof -
  have front: "rb_fetch rb 8 l = Inr (le_bytes 8 v, rb_skip 8 rb)" if "rb_ok rb" "rb_rest rb = le_bytes 8 v @ rest" for rb l rest
    using fetch_front[OF that] by simp
  show "codes (Suc k) (COMBINE_TYPE TYPE_NUMBER TYPE_NUMBER_REAL # le_bytes 8 v) (BReal v)"
    by (rule codesI) (auto simp: push_value_def seri_types get_real_def front le_word_bytes_full)
  have "codes (Suc k) (COMBINE_TYPE TYPE_USERDATA 0 # le_bytes 8 v) (BPtr v)"
    by (rule codesI) (auto simp: push_value_def seri_types get_pointer_def front le_word_bytes_full)
  then show "codes (Suc k) (TYPE_USERDATA # le_bytes 8 v) (BPtr v)" by (simp add: COMBINE_TYPE_def)
qed

lemma codes_bool: "codes (Suc k) [COMBINE_TYPE TYPE_BOOLEAN (if x then 1 else 0)] (BBool x)"
  by (rule codesI) (simp_all add: push_value_def seri_types)

lemma codes_short: "length s < MAX_COOKIE \<Longrightarrow> codes (Suc k) (COMBINE_TYPE TYPE_SHORT_STRING (word_of_nat (length s)) # s) (BStr s)"
  by (rule codesI)
    (auto simp: push_value_def seri_types MAX_COOKIE_def word_less_nat_alt unat_of_nat buffer_front)

text \<open>A long string: the bytes of its length, then its own.\<close>

lemma codes_long:
  assumes "length s < 2 ^ 31"
  shows "length s < 0x10000 \<Longrightarrow> codes (Suc k) (COMBINE_TYPE TYPE_LONG_STRING 2 # le_bytes 2 (word_of_nat (length s) :: u16) @ s) (BStr s)"
    "codes (Suc k) (COMBINE_TYPE TYPE_LONG_STRING 4 # le_bytes 4 (word_of_nat (length s) :: u32) @ s) (BStr s)"
proof -
  have sl: "sint (word_of_nat (length s) :: u32) = int (length s)"
    using assms by (rule sint_nat)
  have front: "andthen (rb_fetch rb (int k) l) (\<lambda>(bs, rb1). get_buffer rb1 (g bs)) = Inr (BStr s, rb_skip (k + length s) rb)"
    if "rb_ok rb" "rb_rest rb = (le_bytes k w @ s) @ rest" "g (le_bytes k w) = int (length s)" for rb k l rest g and w :: "'z::len word"
    using fetch_front[of rb "le_bytes k w" "s @ rest"] rb_skip_front[of rb "le_bytes k w" "s @ rest"]
      buffer_front[of "rb_skip k rb" s rest] that by simp
  note front2 = front[where k = 2 and g = "\<lambda>bs. uint (le_word bs :: u16)", simplified]
  note front4 = front[where k = 4 and g = "\<lambda>bs. sint (le_word bs :: u32)", simplified]
  show "codes (Suc k) (COMBINE_TYPE TYPE_LONG_STRING 2 # le_bytes 2 (word_of_nat (length s) :: u16) @ s) (BStr s)" if "length s < 0x10000"
    using that by (intro codesI) (auto simp: push_value_def seri_types le_word_bytes_full unsigned_of_nat take_bit_nat_eq_self intro!: front2)
  show "codes (Suc k) (COMBINE_TYPE TYPE_LONG_STRING 4 # le_bytes 4 (word_of_nat (length s) :: u32) @ s) (BStr s)"
    using sl by (intro codesI) (auto simp: push_value_def seri_types le_word_bytes_full intro!: front4)
qed

lemma emits_string:
  assumes "wb_ok b" "length s < 2 ^ 31"
  shows "emits (Suc k) b (wb_string b s (sint (word_of_nat (length s) :: i32))) (BStr s)"
  using assms codes_short[of s] codes_long[OF assms(2)] unfolding sint_nat[OF assms(2)]
  by (auto simp: emits_def wb_string_def Let_def MAX_COOKIE_def)

lemma emits_leaf:
  assumes "wb_ok b"
  shows "emits (Suc k) b (wb_nil b) BNil" "emits (Suc k) b (wb_boolean b x) (BBool x)"
    "emits (Suc k) b (wb_real b v) (BReal v)" "emits (Suc k) b (wb_pointer b v) (BPtr v)"
  using assms codes_nil codes_bool[of k x] codes_eight[of k v]
  by (auto simp: emits_def wb_nil_def wb_boolean_def wb_real_def wb_pointer_def)

section \<open>The loops\<close>

lemma array_loop_codes:
  assumes "list_all2 (codes k) bss xs" "rb_ok rb" "rb_rest rb = concat bss @ rest" "k \<le> n" "has_room room tp k"
  shows "array_loop (unpack_one room n) tp (length xs) rb = Some (Inr (xs, rb_skip (length (concat bss)) rb))"
  using assms
proof (induction bss xs arbitrary: rb rule: list_all2_induct)
  case (Cons bs bss x xs)
  have "unpack_one room n tp rb = Some (Inr (x, rb_skip (length bs) rb))"
    by (rule codes_read[OF Cons.hyps(1) Cons.prems(1), of "concat bss @ rest"]) (use Cons.prems in simp_all)
  moreover have "rb_ok (rb_skip (length bs) rb)" "rb_rest (rb_skip (length bs) rb) = concat bss @ rest"
    using rb_skip_front[OF Cons.prems(1), of bs "concat bss @ rest"] Cons.prems(2) by simp_all
  ultimately show ?case using Cons.IH[of "rb_skip (length bs) rb"] Cons.prems(3,4) by simp
qed simp

abbreviation codes_pair :: "nat \<Rightarrow> u8 list \<times> u8 list \<Rightarrow> lua_built \<times> lua_built \<Rightarrow> bool" where
  "codes_pair k bs p \<equiv> codes k (fst bs) (fst p) \<and> codes k (snd bs) (snd p) \<and> fst p \<noteq> BNil \<and> \<not> nan_key (fst p)"

abbreviation pair_bytes :: "(u8 list \<times> u8 list) list \<Rightarrow> u8 list" where
  "pair_bytes bss \<equiv> concat (map (\<lambda>bs. fst bs @ snd bs) bss)"

lemma pair_loop_codes:
  assumes "list_all2 (codes_pair (Suc k)) bss ps" "rb_ok rb" "rb_rest rb = pair_bytes bss @ TYPE_NIL # rest"
    and "Suc k \<le> n" "has_room room tp (Suc k)" "has_room room (tp + 1) (Suc k)" "length ps < m"
  shows "pair_loop (unpack_one room n) tp m rb = Some (Inr (ps, rb_skip (length (pair_bytes bss) + 1) rb))"
  using assms
proof (induction bss ps arbitrary: rb m rule: list_all2_induct)
  case Nil
  then have "unpack_one room n tp rb = Some (Inr (BNil, rb_skip 1 rb))"
    using codes_read[OF codes_nil[of k] Nil.prems(1), of rest] by simp
  then show ?case using Nil.prems(6) by (cases m) simp_all
next
  case (Cons bs bss p ps)
  obtain j where m: "m = Suc j" using Cons.prems(6) by (cases m) simp_all
  let ?r1 = "rb_skip (length (fst bs)) rb" and ?r2 = "rb_skip (length (fst bs) + length (snd bs)) rb"
  have 0: "unpack_one room n tp rb = Some (Inr (fst p, ?r1))"
    by (rule codes_read[of "Suc k" _ _ _ "snd bs @ pair_bytes bss @ TYPE_NIL # rest"]) (use Cons.hyps(1) Cons.prems(1-4) in simp_all)
  have 1: "rb_ok ?r1" "rb_rest ?r1 = snd bs @ pair_bytes bss @ TYPE_NIL # rest"
    using rb_skip_front[OF Cons.prems(1), of "fst bs"] Cons.prems(2) by simp_all
  have "unpack_one room n (tp + 1) ?r1 = Some (Inr (snd p, ?r2))"
    using codes_read[OF _ 1 Cons.prems(3,5)] Cons.hyps(1) by simp
  moreover have "rb_ok ?r2" "rb_rest ?r2 = pair_bytes bss @ TYPE_NIL # rest"
    using rb_skip_front[OF 1] by simp_all
  ultimately show ?case using Cons.IH[of ?r2 j] Cons.hyps(1) Cons.prems(3-6) 0 by (simp add: m add.assoc)
qed

section \<open>Tables\<close>

definition table_head :: "int \<Rightarrow> write_block \<Rightarrow> write_block" where
  "table_head n b = (if int MAX_COOKIE - 1 \<le> n
     then wb_integer (wb_push b [COMBINE_TYPE TYPE_TABLE (word_of_nat (MAX_COOKIE - 1))]) (word_of_int n)
     else wb_push b [COMBINE_TYPE TYPE_TABLE (word_of_int n)])"

lemma table_head_codes:
  assumes "wb_ok b" "n < 2 ^ 31"
  shows "wb_ok (table_head (int n) b)"
    "\<exists>c bs. c < 32 \<and> wb_content (table_head (int n) b) = wb_content b @ COMBINE_TYPE TYPE_TABLE c # bs \<and>
      (\<forall>rb rest. rb_ok rb \<longrightarrow> rb_rest rb = bs @ rest \<longrightarrow> table_size rb c = Inr (int n, rb_skip (length bs) rb))"
proof -
  show "wb_ok (table_head (int n) b)" using assms wb_integer_codes(1) by (simp add: table_head_def)
  show "\<exists>c bs. c < 32 \<and> wb_content (table_head (int n) b) = wb_content b @ COMBINE_TYPE TYPE_TABLE c # bs \<and>
      (\<forall>rb rest. rb_ok rb \<longrightarrow> rb_rest rb = bs @ rest \<longrightarrow> table_size rb c = Inr (int n, rb_skip (length bs) rb))"
  proof (cases "MAX_COOKIE - 1 \<le> n")
    case True
    have narrow: "sint (ucast (word_of_nat n :: u64) :: i32) = int n"
      using assms(2) sint_nat[of n] by (simp add: unsigned_of_nat take_bit_nat_eq_self)
    let ?b = "wb_push b [COMBINE_TYPE TYPE_TABLE (word_of_nat (MAX_COOKIE - 1))]"
    obtain c bs where c: "codes_integer c bs (word_of_nat n)"
        "wb_content (wb_integer ?b (word_of_nat n)) = wb_content ?b @ COMBINE_TYPE TYPE_NUMBER c # bs"
      using wb_integer_codes(2)[of ?b] assms(1) by fastforce
    have "table_size rb 31 = Inr (int n, rb_skip (Suc (length bs)) rb)"
      if rb: "rb_ok rb" "rb_rest rb = (COMBINE_TYPE TYPE_NUMBER c # bs) @ rest" for rb rest
    proof -
      have "rb_ok (rb_skip 1 rb)" "rb_rest (rb_skip 1 rb) = bs @ rest"
        using rb_skip_front[of rb "[COMBINE_TYPE TYPE_NUMBER c]" "bs @ rest"] rb by simp_all
      moreover have "rb_fetch rb 1 438 = Inr ([COMBINE_TYPE TYPE_NUMBER c], rb_skip 1 rb)"
        using fetch_front[OF rb(1), of "[COMBINE_TYPE TYPE_NUMBER c]" "bs @ rest"] rb(2) by simp
      ultimately show ?thesis
        using c(1) COMBINE_TYPE_split[of 2 c]
        by (simp add: table_size_def MAX_COOKIE_def codes_integer_def seri_types Let_def narrow)
    qed
    then show ?thesis using True c(2) assms(1)
      by (intro exI[of _ 31] exI[of _ "COMBINE_TYPE TYPE_NUMBER c # bs"])
        (simp add: table_head_def MAX_COOKIE_def of_nat_le_iff)
  next
    case False
    then have "unat (word_of_nat n :: u8) = n" by (simp add: MAX_COOKIE_def unat_of_nat)
    then show ?thesis using False assms(1)
      by (intro exI[of _ "word_of_nat n"] exI[of _ "[]"])
        (auto simp: table_head_def MAX_COOKIE_def table_size_def word_less_nat_alt)
  qed
qed

lemma pair_bytes_length: "list_all2 (codes_pair k) bss ps \<Longrightarrow> length ps \<le> length (pair_bytes bss)"
proof (induction bss ps rule: list_all2_induct)
  case (Cons bs bss p ps)
  then have "0 < length (fst bs)" using codes_def by blast
  with Cons.IH show ?case by (simp del: length_greater_0_conv)
qed simp

lemma codes_table:
  assumes "c < 32" "list_all2 (codes (Suc k)) bss xs" "list_all2 (codes_pair (Suc k)) bps ps"
    and "\<And>rb rest. rb_ok rb \<Longrightarrow> rb_rest rb = hs @ rest \<Longrightarrow> table_size rb c = Inr (int (length xs), rb_skip (length hs) rb)"
  shows "codes (Suc (Suc k)) (COMBINE_TYPE TYPE_TABLE c # hs @ concat bss @ pair_bytes bps @ [TYPE_NIL]) (BTable xs ps)"
proof (rule codesI)
  fix n room tp rb rest
  assume rb: "rb_ok rb" "rb_rest rb = (hs @ concat bss @ pair_bytes bps @ [TYPE_NIL]) @ rest"
    and n: "Suc k \<le> n" and room: "has_room room tp (Suc (Suc k))"
  note room = has_room_step[OF room]
  let ?r1 = "rb_skip (length hs) rb" and ?r2 = "rb_skip (length hs + length (concat bss)) rb"
  have 1: "rb_ok ?r1" "rb_rest ?r1 = concat bss @ pair_bytes bps @ TYPE_NIL # rest"
    using rb_skip_front[OF rb(1), of hs] rb(2) by simp_all
  have 2: "rb_ok ?r2" "rb_rest ?r2 = pair_bytes bps @ TYPE_NIL # rest"
    using rb_skip_front[OF 1] by simp_all
  have "table_size rb c = Inr (int (length xs), ?r1)" using assms(4)[OF rb(1)] rb(2) by simp
  moreover have "array_loop (unpack_one room n) (tp + 1) (length xs) ?r1 = Some (Inr (xs, ?r2))"
    using array_loop_codes[OF assms(2) 1 n] room by simp
  moreover have "length ps < nat (rb_len ?r2) + 1"
    using pair_bytes_length[OF assms(3)] length_rb_rest[OF 2(1)] 2(2) by simp
  then have "pair_loop (unpack_one room n) (tp + 1) (nat (rb_len ?r2) + 1) ?r2 =
      Some (Inr (ps, rb_skip (length (pair_bytes bps) + 1) ?r2))"
    using pair_loop_codes[OF assms(3) 2 n, of room "tp + 1"] room by (simp del: pair_loop.simps)
  ultimately show "push_value room (unpack_one room n) tp TYPE_TABLE c rb =
      Some (Inr (BTable xs ps, rb_skip (length (hs @ concat bss @ pair_bytes bps @ [TYPE_NIL])) rb))"
    using room by (simp add: push_value_def seri_types unpack_table_def add.assoc del: pair_loop.simps)
qed (use assms(1) in \<open>simp_all add: seri_types\<close>)

section \<open>Packing a table\<close>

fun pack_pairs :: "(lua_value \<Rightarrow> write_block \<Rightarrow> seri_error + write_block) \<Rightarrow>
    (lua_value \<times> lua_value) list \<Rightarrow> write_block \<Rightarrow> seri_error + write_block" where
  "pack_pairs pk [] b = Inr b"
| "pack_pairs pk (p # ps) b = andthen (pk (fst p) b) (\<lambda>b1. andthen (pk (snd p) b1) (pack_pairs pk ps))"

lemma hash_loop_pairs: "hash_loop pk n ps b = pack_pairs pk (filter (\<lambda>p. \<not> in_array n (fst p)) ps) b"
  by (induction pk n ps b rule: hash_loop.induct) (auto simp: andthen_def split: sum.split)

lemma meta_loop_pairs: "meta_loop pk ps b = pack_pairs pk (takeWhile (\<lambda>p. fst p \<noteq> LNil) ps) b"
  by (induction pk ps b rule: meta_loop.induct) (auto simp: andthen_def split: sum.split)

text \<open>A table all of whose parts may be sent.\<close>

definition fine_table :: "(lua_value \<Rightarrow> bool) \<Rightarrow> lua_table \<Rightarrow> bool" where
  "fine_table fine t \<longleftrightarrow> table_fits t \<and> fine LNil \<and> (\<forall>p \<in> set (t_items t). fine (fst p) \<and> fine (snd p)) \<and>
     (\<forall>ps. t_pairs t = Some ps \<longrightarrow> (\<forall>p \<in> set ps. fine (fst p) \<and> fine (snd p)))"

text \<open>A call that appends the code of the copy of every value that may be sent.\<close>

locale value_writer =
  fixes pk :: "lua_value \<Rightarrow> write_block \<Rightarrow> seri_error + write_block"
    and k :: nat and cp :: "lua_value \<Rightarrow> lua_built" and fine :: "lua_value \<Rightarrow> bool"
  assumes writes: "pk v b = Inr b' \<Longrightarrow> wb_ok b \<Longrightarrow> fine v \<Longrightarrow> emits (Suc k) b b' (cp v)"
    and cp_nil: "cp v = BNil \<longleftrightarrow> v = LNil"
    and cp_nan: "nan_key (cp v) \<longleftrightarrow> (\<exists>w. v = LReal w \<and> is_nan w)"
begin

lemma all_written:
  assumes "pack_all pk vs b = Inr b'" "wb_ok b" "\<forall>v \<in> set vs. fine v"
  shows "wb_ok b' \<and> (\<exists>bss. list_all2 (codes (Suc k)) bss (map cp vs) \<and> wb_content b' = wb_content b @ concat bss)"
  using assms
proof (induction vs arbitrary: b)
  case (Cons v vs)
  obtain b1 where b1: "pk v b = Inr b1" "pack_all pk vs b1 = Inr b'"
    using Cons.prems(1) by (auto simp: andthen_Inr_iff)
  obtain bs where bs: "wb_ok b1" "codes (Suc k) bs (cp v)" "wb_content b1 = wb_content b @ bs"
    using writes[OF b1(1)] Cons.prems(2,3) by (auto simp: emits_def)
  obtain bss where "wb_ok b'" "list_all2 (codes (Suc k)) bss (map cp vs)" "wb_content b' = wb_content b1 @ concat bss"
    using Cons.IH[OF b1(2) bs(1)] Cons.prems(3) by auto
  then show ?case using bs by (auto intro!: exI[of _ "bs # bss"])
qed simp

lemma pairs_written:
  assumes "pack_pairs pk ps b = Inr b'" "wb_ok b"
    and "\<forall>p \<in> set ps. fine (fst p) \<and> fine (snd p) \<and> fst p \<noteq> LNil \<and> key_fits (fst p)"
  shows "wb_ok b' \<and> (\<exists>bps. list_all2 (codes_pair (Suc k)) bps (map (map_prod cp cp) ps) \<and> wb_content b' = wb_content b @ pair_bytes bps)"
  using assms
proof (induction ps arbitrary: b)
  case (Cons p ps)
  obtain b1 b2 where b: "pk (fst p) b = Inr b1" "pk (snd p) b1 = Inr b2" "pack_pairs pk ps b2 = Inr b'"
    using Cons.prems(1) by (auto simp: andthen_Inr_iff)
  obtain ks where ks: "wb_ok b1" "codes (Suc k) ks (cp (fst p))" "wb_content b1 = wb_content b @ ks"
    using writes[OF b(1)] Cons.prems(2,3) by (auto simp: emits_def)
  obtain vs where vs: "wb_ok b2" "codes (Suc k) vs (cp (snd p))" "wb_content b2 = wb_content b1 @ vs"
    using writes[OF b(2) ks(1)] Cons.prems(3) by (auto simp: emits_def)
  obtain bps where "wb_ok b'" "list_all2 (codes_pair (Suc k)) bps (map (map_prod cp cp) ps)" "wb_content b' = wb_content b2 @ pair_bytes bps"
    using Cons.IH[OF b(3) vs(1)] Cons.prems(3) by auto
  moreover have "\<not> nan_key (cp (fst p))" "cp (fst p) \<noteq> BNil"
    using Cons.prems(3) cp_nil cp_nan by (auto simp: key_fits_def)
  ultimately show ?case using ks vs by (intro conjI exI[of _ "(ks, vs) # bps"]) simp_all
qed simp

lemma table_codes_emitted:
  assumes b1: "wb_ok b1" "c < 32" "wb_content b1 = wb_content b @ COMBINE_TYPE TYPE_TABLE c # hs"
      "\<forall>rb rest. rb_ok rb \<longrightarrow> rb_rest rb = hs @ rest \<longrightarrow> table_size rb c = Inr (int (length vs), rb_skip (length hs) rb)"
    and "pack_all pk vs b1 = Inr b2" "\<forall>v \<in> set vs. fine v"
    and "pack_pairs pk ps b2 = Inr b3" "\<forall>p \<in> set ps. fine (fst p) \<and> fine (snd p) \<and> fst p \<noteq> LNil \<and> key_fits (fst p)"
  shows "emits (Suc (Suc k)) b (wb_nil b3) (BTable (map cp vs) (map (map_prod cp cp) ps))"
proof -
  obtain bss where b2: "wb_ok b2" "list_all2 (codes (Suc k)) bss (map cp vs)" "wb_content b2 = wb_content b1 @ concat bss"
    using all_written[OF assms(5) b1(1) assms(6)] by blast
  obtain bps where b3: "wb_ok b3" "list_all2 (codes_pair (Suc k)) bps (map (map_prod cp cp) ps)" "wb_content b3 = wb_content b2 @ pair_bytes bps"
    using pairs_written[OF assms(7) b2(1) assms(8)] by blast
  have "codes (Suc (Suc k)) (COMBINE_TYPE TYPE_TABLE c # hs @ concat bss @ pair_bytes bps @ [TYPE_NIL]) (BTable (map cp vs) (map (map_prod cp cp) ps))"
    by (rule codes_table[OF b1(2) b2(2) b3(2)]) (use b1(4) in simp)
  then show ?thesis using b1(3) b2(3) b3 by (auto simp: emits_def wb_nil_def intro!: exI)
qed

lemma rawgeti_fine: "fine_table fine t \<Longrightarrow> fine (lua_rawgeti t i)"
  by (auto simp: fine_table_def lua_rawgeti_def dest!: map_of_SomeD split: option.split)

lemma table_written:
  assumes "wb_table pk t b = Inr b'" "wb_ok b" "fine_table fine t"
  shows "emits (Suc (Suc k)) b b' (copy_table cp t)"
proof (cases "t_pairs t")
  case None
  let ?n = "t_rawlen t" and ?vs = "map (lua_rawgeti t) [1..<Suc (t_rawlen t)]"
  let ?ps = "filter (\<lambda>p. \<not> in_array (int ?n) (fst p)) (t_items t)"
  have n: "?n < 2 ^ 31" using assms(3) by (simp add: fine_table_def table_fits_def)
  obtain c hs where h: "c < 32" "wb_content (table_head (int ?n) b) = wb_content b @ COMBINE_TYPE TYPE_TABLE c # hs"
      "\<forall>rb rest. rb_ok rb \<longrightarrow> rb_rest rb = hs @ rest \<longrightarrow> table_size rb c = Inr (int (length ?vs), rb_skip (length hs) rb)"
    using table_head_codes(2)[OF assms(2) n] by auto
  obtain b2 b3 where b: "pack_all pk ?vs (table_head (int ?n) b) = Inr b2" "pack_pairs pk ?ps b2 = Inr b3" "b' = wb_nil b3"
    using assms(1) None sint_nat[OF n]
    by (auto simp: wb_table_def wb_table_array_def wb_table_hash_def andthen_Inr_iff hash_loop_pairs table_head_def Let_def
        simp del: upt_Suc)
  have "emits (Suc (Suc k)) b (wb_nil b3) (BTable (map cp ?vs) (map (map_prod cp cp) ?ps))"
    by (rule table_codes_emitted[OF table_head_codes(1)[OF assms(2) n] h b(1) _ b(2)])
      (use assms(3) rawgeti_fine in \<open>auto simp: fine_table_def table_fits_def\<close>)
  then show ?thesis by (simp add: copy_table_def None b(3) comp_def del: upt_Suc)
next
  case (Some ps)
  let ?b1 = "wb_push b [COMBINE_TYPE TYPE_TABLE 0]" and ?ps = "takeWhile (\<lambda>p. fst p \<noteq> LNil) ps"
  obtain b3 where b: "pack_pairs pk ?ps ?b1 = Inr b3" "b' = wb_nil b3"
    using assms(1) Some by (auto simp: wb_table_def wb_table_metapairs_def andthen_Inr_iff meta_loop_pairs)
  have "emits (Suc (Suc k)) b (wb_nil b3) (BTable (map cp []) (map (map_prod cp cp) ?ps))"
    by (rule table_codes_emitted[where c = 0 and hs = "[]" and ?b1.0 = ?b1, OF _ _ _ _ _ _ b(1)])
      (use assms(2,3) Some in \<open>auto simp: fine_table_def table_fits_def table_size_def MAX_COOKIE_def dest: set_takeWhileD\<close>)
  then show ?thesis by (simp add: copy_table_def Some b(2))
qed

end

lemma heap_fine_table: "heap_fits h \<Longrightarrow> fine_table (\<lambda>v. heap_fits h \<and> str_fits v) (h a)"
  unfolding fine_table_def heap_fits_def[of h] table_fits_def key_fits_def
  by (auto simp: str_fits_def[of LNil] split: option.splits)

lemma pack_one_writes:
  "k = MAX_DEPTH + 1 - d \<Longrightarrow> value_writer (pack_one h d) k (lua_copy h d) (\<lambda>v. heap_fits h \<and> str_fits v)"
proof (induction k arbitrary: d)
  case 0
  show ?case
    by unfold_locales (use 0 in \<open>simp_all add: copy_is_nil copy_nan pack_one.simps[of h d]\<close>)
next
  case (Suc k)
  have "value_writer (pack_one h (d + 1)) k (lua_copy h (d + 1)) (\<lambda>v. heap_fits h \<and> str_fits v)"
    by (rule Suc.IH) (use Suc.prems in simp)
  note table = value_writer.table_written[OF this]
  show ?case
  proof
    fix v b b'
    assume p: "pack_one h d v b = Inr b'" "wb_ok b" "heap_fits h \<and> str_fits v"
    show "emits (Suc (Suc k)) b b' (lua_copy h d v)"
    proof (cases v)
      case (LTable a)
      then show ?thesis using p table[OF _ p(2) heap_fine_table]
        by (simp add: pack_one.simps[of h d] lua_copy.simps[of h d] split: if_splits)
    qed (use p emits_leaf emits_integer emits_string in
        \<open>auto simp: pack_one.simps[of h d] lua_copy.simps[of h d] str_fits_def split: if_splits\<close>)
  qed (simp_all add: copy_is_nil copy_nan)
qed

interpretation seri_writer: value_writer "pack_one h d" "MAX_DEPTH + 1 - d" "lua_copy h d" "\<lambda>v. heap_fits h \<and> str_fits v" for h d
  by (rule pack_one_writes) simp

section \<open>What can be packed\<close>

text \<open>The values a table has packed, in order.\<close>

definition flat_pairs :: "('a \<times> 'a) list \<Rightarrow> 'a list" where
  "flat_pairs ps = concat (map (\<lambda>p. [fst p, snd p]) ps)"

definition sent_values :: "lua_table \<Rightarrow> lua_value list" where
  "sent_values t = (case t_pairs t of
       Some ps \<Rightarrow> flat_pairs (takeWhile (\<lambda>p. fst p \<noteq> LNil) ps)
     | None \<Rightarrow> let n = sint (word_of_nat (t_rawlen t) :: i32)
              in map (lua_rawgeti t) [1..<Suc (nat n)] @ flat_pairs (filter (\<lambda>p. \<not> in_array n (fst p)) (t_items t)))"

function sendable :: "lua_heap \<Rightarrow> nat \<Rightarrow> lua_value \<Rightarrow> bool" where
  "sendable h depth v =
     (if MAX_DEPTH < depth then False
      else case v of
        LOther ty \<Rightarrow> False
      | LTable a \<Rightarrow> list_all (\<lambda>w. sendable h (depth + 1) w) (sent_values (h a))
      | _ \<Rightarrow> True)"
  by pat_completeness auto
termination by (relation "measure (\<lambda>(h, depth, v). MAX_DEPTH + 1 - depth)") auto

declare sendable.simps [simp del]

lemma pack_all_iff:
  assumes "\<And>v b. (\<exists>b'. pk v b = Inr b') \<longleftrightarrow> Q v"
  shows "(\<exists>b'. pack_all pk vs b = Inr b') \<longleftrightarrow> list_all Q vs"
  using assms by (induction vs arbitrary: b) (auto simp: andthen_Inr_iff, blast+)

lemma pack_pairs_all: "pack_pairs pk ps b = pack_all pk (flat_pairs ps) b"
  by (induction ps arbitrary: b) (auto simp: flat_pairs_def andthen_def split: sum.split)

lemma pack_all_append: "pack_all pk (vs @ ws) b = andthen (pack_all pk vs b) (pack_all pk ws)"
  by (induction vs arbitrary: b) (auto simp: andthen_def split: sum.split)

lemma wb_table_all: "wb_table pk t b =
    andthen (pack_all pk (sent_values t) (case t_pairs t of
        Some ps \<Rightarrow> wb_push b [COMBINE_TYPE TYPE_TABLE 0]
      | None \<Rightarrow> table_head (sint (word_of_nat (t_rawlen t) :: i32)) b)) (\<lambda>b1. Inr (wb_nil b1))"
  by (simp add: wb_table_def wb_table_metapairs_def wb_table_array_def wb_table_hash_def sent_values_def Let_def
      andthen_assoc hash_loop_pairs meta_loop_pairs pack_pairs_all pack_all_append table_head_def
      del: upt_Suc split: option.split)

lemma wb_table_iff:
  assumes "\<And>v b. (\<exists>b'. pk v b = Inr b') \<longleftrightarrow> Q v"
  shows "(\<exists>b'. wb_table pk t b = Inr b') \<longleftrightarrow> list_all Q (sent_values t)"
  using pack_all_iff[of pk Q, OF assms] by (simp add: wb_table_all andthen_Inr_iff)

lemma pack_one_iff: "(\<exists>b'. pack_one h d v b = Inr b') \<longleftrightarrow> sendable h d v"
proof (induction "MAX_DEPTH + 1 - d" arbitrary: d v b)
  case 0
  then show ?case by (simp add: pack_one.simps[of h d] sendable.simps[of h d])
next
  case (Suc k)
  have "(\<exists>b'. wb_table (pack_one h (d + 1)) t b = Inr b') \<longleftrightarrow> list_all (sendable h (d + 1)) (sent_values t)" for t b
    by (rule wb_table_iff) (use Suc in simp)
  then show ?case using Suc(2) by (simp add: pack_one.simps[of h d] sendable.simps[of h d] split: lua_value.split)
qed

section \<open>The properties\<close>

lemma unpack_loop_step:
  assumes "rb_ok rb" "rb_rest rb \<noteq> []"
  shows "unpack_loop room n (Suc k) i rb =
    (if i mod 8 = 7 \<and> \<not> room (i + 1) then Some (Inl Stack_overflow)
     else continue (unpack_one room (Suc n) (i + 1) rb) (\<lambda>(x, rb2).
       continue (unpack_loop room n k (i + 1) rb2) (\<lambda>xs. Some (Inr (x # xs)))))"
proof -
  have "1 \<le> rb_len rb" using assms length_rb_rest[OF assms(1)] by (cases "rb_rest rb") simp_all
  then show ?thesis
    using mem_read_rest[OF assms(1), of 1] rb_fetch_nat(1)[OF assms(1), of 526]
    by (simp add: rb_read_def rb_skip_def Let_def)
qed

lemma unpack_loop_end:
  "rb_len rb < 1 \<Longrightarrow> unpack_loop room n (Suc k) i rb =
     (if i mod 8 = 7 \<and> \<not> room (i + 1) then Some (Inl Stack_overflow) else Some (Inr []))"
  by (simp add: rb_read_def)

lemma unpack_loop_codes:
  assumes "list_all2 (codes (Suc d)) bss xs" "rb_ok rb" "rb_rest rb = concat bss" "length (concat bss) < k"
    and "d \<le> n" "\<forall>t \<le> i + length xs + 2 * d + 2. room t"
  shows "unpack_loop room n k i rb = Some (Inr xs)"
  using assms
proof (induction bss xs arbitrary: rb k i rule: list_all2_induct)
  case Nil
  then show ?case using length_rb_rest[of rb] by (cases k) (simp_all add: unpack_loop_end del: unpack_loop.simps(2))
next
  case (Cons bs bss x xs)
  obtain m where k: "k = Suc m" using Cons.prems(3) by (cases k) simp_all
  have bs: "bs \<noteq> []" using Cons.hyps(1) by (simp add: codes_def)
  have "has_room room (i + 1) (Suc d)" using Cons.prems(5) by (simp add: has_room_def)
  then have "unpack_one room (Suc n) (i + 1) rb = Some (Inr (x, rb_skip (length bs) rb))"
    using codes_read[OF Cons.hyps(1) Cons.prems(1), of "concat bss"] Cons.prems(2,4) by (simp del: unpack_one.simps)
  moreover have "rb_ok (rb_skip (length bs) rb)" "rb_rest (rb_skip (length bs) rb) = concat bss"
    using rb_skip_front[OF Cons.prems(1)] Cons.prems(2) by simp_all
  moreover have "length (concat bss) < m" using Cons.prems(3) bs k by (cases bs) simp_all
  moreover have "room (i + 1)" using Cons.prems(5) by simp
  ultimately show ?case
    using Cons.IH[of "rb_skip (length bs) rb" m "i + 1"] unpack_loop_step[of rb room n m i] Cons.prems(1,2,4,5) bs
    by (simp add: k del: unpack_loop.simps)
qed

lemma rball_whole: "rb_ok (rball_init bs (int (length bs)))" "rb_rest (rball_init bs (int (length bs))) = bs"
  by (simp_all add: rb_ok_def rb_rest_def rball_init_def)

lemma unpack_memory:
  assumes "length bs < 2 ^ 31"
  shows "luaseri_unpack room depth (In_memory (Some bs) (Some (word_of_nat (length bs)))) =
    (if bs = [] then Some (Inr []) else unpack_loop room depth (length bs + 1) 0 (rball_init bs (int (length bs))))"
proof -
  have "sint (ucast (word_of_nat (length bs) :: u64) :: i32) = int (length bs)"
    using assms sint_nat[of "length bs"] by (simp add: unsigned_of_nat take_bit_nat_eq_self)
  then show ?thesis by (simp add: luaseri_unpack_def)
qed

text \<open>
  C11. Values that can be sent (tables nested at most 33 deep, no functions, threads or full
  userdata) are packed, and unpacking the memory area that results gives a copy of each of them,
  for every content of the tables, for shared tables, and for tables with a \<open>__pairs\<close> metamethod,
  as long as the stream is shorter than 2 GB. Unpacking needs 33 nested calls on the C stack,
  however long the stream is, and on the Lua stack room for the values and 68 more.
\<close>

theorem seri_roundtrip:
  assumes "heap_fits h" "\<forall>v \<in> set vs. str_fits v \<and> sendable h 0 v"
  shows "\<exists>bs. luaseri_pack h vs = Some (Inr (bs, int (length bs))) \<and>
    (length bs < 2 ^ 31 \<longrightarrow> (\<forall>depth \<ge> MAX_DEPTH + 1. \<forall>room. (\<forall>t \<le> length vs + 68. room t) \<longrightarrow>
       luaseri_unpack room depth (In_memory (Some bs) (Some (word_of_nat (length bs)))) = Some (Inr (map (lua_copy h 0) vs))))"
proof -
  obtain b where b: "pack_all (pack_one h 0) vs wb_init = Inr b"
    using pack_all_iff[of "pack_one h 0" "sendable h 0" vs wb_init, OF pack_one_iff] assms(2) by (auto simp: list_all_iff)
  then obtain bss where bss: "wb_ok b" "list_all2 (codes (Suc (MAX_DEPTH + 1))) bss (map (lua_copy h 0) vs)" "wb_content b = concat bss"
    using seri_writer.all_written[OF b] assms by auto
  have len: "wb_len b = length (concat bss)" using bss(1,3) by (simp add: wb_ok_def)
  have "unpack_loop room depth (length (concat bss) + 1) 0 (rball_init (concat bss) (int (length (concat bss)))) =
      Some (Inr (map (lua_copy h 0) vs))"
    if "MAX_DEPTH + 1 \<le> depth" "\<forall>t \<le> length vs + 68. room t" for depth room
    by (rule unpack_loop_codes[OF bss(2) rball_whole]) (use that in \<open>simp_all add: MAX_DEPTH_def\<close>)
  moreover have "map (lua_copy h 0) vs = []" if "concat bss = []"
    using bss(2) that by (cases vs) (auto simp: list_all2_Cons2 codes_def)
  ultimately show ?thesis
    using b bss len seri_content[OF bss(1)] unpack_memory[of "concat bss"]
    by (intro exI[of _ "concat bss"]) (simp add: luaseri_pack_def pack_from_def del: length_concat unpack_loop.simps)
qed

definition demo_heap :: lua_heap where
  "demo_heap = (\<lambda>_. \<lparr>t_rawlen = 0, t_items = [], t_pairs = None\<rparr>)
     (1 := \<lparr>t_rawlen = 2, t_items = [(LInt 1, LTable 2), (LInt 2, LInt (- 5)), (LStr [107], LTable 2)], t_pairs = None\<rparr>,
      2 := \<lparr>t_rawlen = 0, t_items = [], t_pairs = Some [(LReal 0x3FF8000000000000, LBool True), (LNil, LNil)]\<rparr>)"

lemma demo_heap_fits: "heap_fits demo_heap"
  by (simp add: heap_fits_def demo_heap_def table_fits_def key_fits_def str_fits_def is_nan_def)

theorem seri_roundtrip_witness:
  "\<exists>bs. luaseri_pack demo_heap [LTable 1, LInt 70000] = Some (Inr (bs, int (length bs))) \<and>
    (length bs < 2 ^ 31 \<longrightarrow> (\<forall>depth \<ge> MAX_DEPTH + 1.
       luaseri_unpack (\<lambda>t. t \<le> 70) depth (In_memory (Some bs) (Some (word_of_nat (length bs)))) =
         Some (Inr [BTable [BTable [] [(BReal 0x3FF8000000000000, BBool True)], BInt (- 5)]
                           [(BStr [107], BTable [] [(BReal 0x3FF8000000000000, BBool True)])], BInt 70000])))"
proof -
  have "map (lua_copy demo_heap 0) [LTable 1, LInt 70000] =
      [BTable [BTable [] [(BReal 0x3FF8000000000000, BBool True)], BInt (- 5)]
         [(BStr [107], BTable [] [(BReal 0x3FF8000000000000, BBool True)])], BInt 70000]" by code_simp
  moreover have "sendable demo_heap 0 (LTable 1)" "sendable demo_heap 0 (LInt 70000)" by code_simp+
  ultimately show ?thesis
    using seri_roundtrip[of demo_heap "[LTable 1, LInt 70000]"] demo_heap_fits by (fastforce simp: str_fits_def)
qed

lemma unpack_loop_safe:
  "rb_ok rb \<Longrightarrow> rb_len rb < int k \<Longrightarrow> case unpack_loop room n k i rb of None \<Rightarrow> int n < rb_len rb | Some r \<Rightarrow> r \<noteq> Inl Outside"
proof (induction k arbitrary: rb i)
  case (Suc k)
  show ?case
  proof (cases "rb_rest rb = []")
    case True
    then show ?thesis using length_rb_rest[OF Suc.prems(1)] unpack_loop_end[of rb room n k i] by (simp del: unpack_loop.simps)
  next
    case False
    note step = unpack_loop_step[OF Suc.prems(1) False, of room n k i]
    have one: "reads (Suc n) 1 rb (unpack_one room (Suc n) (i + 1) rb)" by (rule seri_reader.one_reads[OF Suc.prems(1)])
    show ?thesis
    proof (cases "unpack_one room (Suc n) (i + 1) rb")
      case (Some r)
      show ?thesis
      proof (cases r)
        case (Inr y)
        obtain x rb2 where y: "y = (x, rb2)" by fastforce
        have 2: "rb_ok rb2" "rb_len rb2 + 1 \<le> rb_len rb" using one Some Inr y by (simp_all del: unpack_one.simps)
        show ?thesis using Suc.IH[of rb2 "i + 1"] 2 Suc.prems(2) Some Inr y step
          by (cases "unpack_loop room n k (i + 1) rb2"; cases "the (unpack_loop room n k (i + 1) rb2)")
            (auto simp del: unpack_loop.simps unpack_one.simps)
      qed (use Some one step in \<open>simp del: unpack_loop.simps unpack_one.simps\<close>)
    qed (use one step in \<open>simp del: unpack_loop.simps unpack_one.simps\<close>)
  qed
qed (simp add: rb_ok_def)

fun input_area :: "seri_input \<Rightarrow> u8 list" where
  "input_area (In_string s) = s"
| "input_area (In_memory (Some m) n) = m"
| "input_area inp = []"

text \<open>The size given with a pointer is not larger than the area behind it.\<close>

fun input_covered :: "seri_input \<Rightarrow> bool" where
  "input_covered (In_memory (Some m) (Some n)) = (sint (ucast n :: i32) \<le> int (length m))"
| "input_covered inp = True"

lemma unpack_area_safe:
  assumes "len \<le> int (length m)"
  shows "case unpack_loop room depth (nat len + 1) 0 (rball_init m len) of None \<Rightarrow> depth < length m | Some r \<Rightarrow> r \<noteq> Inl Outside"
proof (cases "0 \<le> len")
  case True
  then show ?thesis using assms unpack_loop_safe[of "rball_init m len" "nat len + 1" depth room 0]
    by (auto simp: rb_ok_def rball_init_def simp del: unpack_loop.simps split: option.splits)
next
  case False
  then show ?thesis using unpack_loop_end[of "rball_init m len" room depth 0 0] by (simp add: rball_init_def)
qed

lemma sint_nat_le: "sint (word_of_nat n :: i32) \<le> int n"
  using signed_take_bit_int_less_eq_self_iff[of 31 "int n"] by (simp add: signed_of_nat)

text \<open>
  C21. Whatever bytes it is given, unpacking reads nothing outside the memory area: not for
  lengths and sizes in the stream that are too large or negative, nor for tables that do not end.
  And it comes to an end, with values or with a Lua error, whether or not the Lua stack can grow,
  unless the C stack overflows; it does not if the C stack has space for as many nested
  calls as the area has bytes.
\<close>

theorem unpack_safe:
  assumes "input_covered inp"
  shows "(\<forall>r. luaseri_unpack room depth inp = Some r \<longrightarrow> r \<noteq> Inl Outside) \<and>
    (length (input_area inp) \<le> depth \<longrightarrow> (\<exists>r. luaseri_unpack room depth inp = Some r))"
proof (cases inp)
  case (In_string s)
  then show ?thesis using unpack_area_safe[OF sint_nat_le, where m = s and depth = depth and room = room]
    by (auto simp: luaseri_unpack_def simp del: unpack_loop.simps split: option.splits)
next
  case (In_memory m n)
  show ?thesis
  proof (cases m)
    case (Some a)
    show ?thesis
    proof (cases n)
      case (Some l)
      then show ?thesis using assms In_memory \<open>m = Some a\<close> unpack_area_safe[of "sint (ucast l :: i32)" a depth room]
        by (auto simp: luaseri_unpack_def simp del: unpack_loop.simps split: option.splits)
    qed (use In_memory in \<open>simp add: luaseri_unpack_def\<close>)
  qed (use In_memory in \<open>cases n; simp add: luaseri_unpack_def\<close>)
qed (simp add: luaseri_unpack_def)

theorem unpack_safe_witness:
  "\<exists>r. luaseri_unpack (\<lambda>t. t \<le> 3) 6 (In_memory (Some [0x0E, 0x25, 0xFF, 0xFF, 0xFF, 0xFF]) (Some 6)) = Some r \<and> r \<noteq> Inl Outside"
proof -
  let ?inp = "In_memory (Some [0x0E, 0x25, 0xFF, 0xFF, 0xFF, 0xFF]) (Some 6)"
  have "input_covered ?inp" "length (input_area ?inp) \<le> 6" by simp_all
  then show ?thesis using unpack_safe[of ?inp "\<lambda>t. t \<le> 3" 6] by blast
qed

section \<open>Nesting\<close>

lemma cycle_not_sendable:
  assumes "\<forall>a \<in> S. \<exists>a' \<in> S. LTable a' \<in> set (sent_values (h a))"
  shows "a \<in> S \<Longrightarrow> \<not> sendable h d (LTable a)"
proof (induction "MAX_DEPTH + 1 - d" arbitrary: d a)
  case 0
  then show ?case by (simp add: sendable.simps[of h d])
next
  case (Suc k)
  obtain a' where "a' \<in> S" "LTable a' \<in> set (sent_values (h a))" using assms Suc.prems by blast
  moreover from this have "\<not> sendable h (d + 1) (LTable a')" using Suc by simp
  ultimately show ?case by (auto simp: sendable.simps[of h d] list_all_iff)
qed

text \<open>
  C37. A table that contains itself, directly or through others, is refused with an error, and so
  is everything that is packed with it: packing returns for every heap.
\<close>

theorem pack_refuses_cycles:
  assumes "\<forall>a \<in> S. \<exists>a' \<in> S. LTable a' \<in> set (sent_values (h a))" "a \<in> S" "LTable a \<in> set vs"
  shows "\<exists>e. luaseri_pack h vs = Some (Inl e)"
proof -
  have "\<not> list_all (sendable h 0) vs" using cycle_not_sendable[OF assms(1,2)] assms(3) by (auto simp: list_all_iff)
  then have "\<nexists>b. pack_from h vs wb_init = Inr b"
    using pack_all_iff[of "pack_one h 0" "sendable h 0" vs wb_init, OF pack_one_iff] by (simp add: pack_from_def)
  then show ?thesis by (cases "pack_from h vs wb_init") (simp_all add: luaseri_pack_def)
qed

theorem pack_refuses_cycles_witness:
  "\<exists>e. luaseri_pack (\<lambda>a. \<lparr>t_rawlen = 1, t_items = [(LInt 1, LTable (1 - a))], t_pairs = None\<rparr>) [LNil, LTable 0] = Some (Inl e)"
  by (rule pack_refuses_cycles[of "{0, 1}" _ 0])
    (simp_all add: sent_values_def lua_rawgeti_def)

text \<open>A stream of bytes that each begin a table with one element.\<close>

definition nested_stream :: "nat \<Rightarrow> u8 list" where
  "nested_stream n = replicate n (COMBINE_TYPE TYPE_TABLE 1)"

lemma table_byte: "COMBINE_TYPE TYPE_TABLE 1 AND 7 = TYPE_TABLE" "drop_bit 3 (COMBINE_TYPE TYPE_TABLE 1) = 1"
  using COMBINE_TYPE_split[of TYPE_TABLE 1] by (simp_all add: TYPE_TABLE_def)

lemma push_table_deeper:
  assumes "room tp" "one (tp + 1) rb = None"
  shows "push_value room one tp TYPE_TABLE 1 rb = None"
  using assms by (simp add: push_value_def seri_types unpack_table_def table_size_def MAX_COOKIE_def)

lemma unpack_one_overflows:
  "rb_ok rb \<Longrightarrow> rb_rest rb = nested_stream n @ rest \<Longrightarrow> \<forall>t. tp \<le> t \<and> t \<le> tp + n \<longrightarrow> room t \<Longrightarrow> unpack_one room n tp rb = None"
proof (induction n arbitrary: rb tp)
  case (Suc n)
  have rest: "rb_rest rb = COMBINE_TYPE TYPE_TABLE 1 # nested_stream n @ rest" using Suc.prems(2) by (simp add: nested_stream_def)
  have "unpack_one room n (tp + 1) (rb_skip 1 rb) = None"
    by (rule Suc.IH) (use rb_skip_front[of rb "[COMBINE_TYPE TYPE_TABLE 1]"] rest Suc.prems(1,3) in simp_all)
  then show ?case using unpack_step[OF Suc.prems(1) rest, of room n tp] push_table_deeper[of room tp "unpack_one room n"] Suc.prems(3)
    by (simp add: table_byte del: unpack_one.simps)
qed simp



end
