(* ===== verification/Socket_Events.thy ===== *)
theory Socket_Events
  imports Server_Props
begin

text \<open>
  The socket events of the runtime (\<open>skynet_socket.c\<close>): each event of the socket server becomes a
  message to the service that owns the socket, and a service that has too much unsent data is warned.
  What the socket server returns (\<open>socket_server_poll\<close>, \<open>socket_server_send\<close>) is an argument.
\<close>

section \<open>Events\<close>

definition SOCKET_DATA :: int where "SOCKET_DATA = 0"
definition SOCKET_CLOSE :: int where "SOCKET_CLOSE = 1"
definition SOCKET_OPEN :: int where "SOCKET_OPEN = 2"
definition SOCKET_ACCEPT :: int where "SOCKET_ACCEPT = 3"
definition SOCKET_ERROR :: int where "SOCKET_ERROR = 4"
definition SOCKET_EXIT :: int where "SOCKET_EXIT = 5"
definition SOCKET_UDP :: int where "SOCKET_UDP = 6"

record socket_message =
  so_id :: int
  so_opaque :: u64
  so_ud :: int
  so_data :: "u8 list option"

text \<open>
  The data of an event with padding is a C string. \<open>result->data = ""\<close> stands for NULL there;
  the copy does not hold the terminating NUL. \<open>None\<close> where \<open>strlen\<close> finds no NUL.
\<close>

definition padding_bytes :: "socket_message \<Rightarrow> u8 list option" where
  "padding_bytes result = (case so_data result of
       None \<Rightarrow> Some []
     | Some bs \<Rightarrow> if 0 \<in> set bs then Some (take 128 (takeWhile (\<lambda>b. b \<noteq> 0) bs)) else None)"

definition forward_message ::
  "externals \<Rightarrow> int \<Rightarrow> bool \<Rightarrow> socket_message \<Rightarrow> node_state \<Rightarrow> node_state option" where
  "forward_message X type padding result s = do {
     pad \<leftarrow> (if padding then padding_bytes result else Some []);
     let sz = word_of_nat (SOCKET_MESSAGE_SIZE + length pad);
     let sm = \<lparr>sm_type = type, sm_id = so_id result, sm_ud = so_ud result,
               sm_buffer = (if padding then None else so_data result), sm_padding = pad\<rparr>;
     r \<leftarrow> skynet_context_push X (ucast (so_opaque result))
            \<lparr>msg_source = 0, msg_session = 0, msg_data = Some (Socket sm), msg_sz = sz OR sz_of_type PTYPE_SOCKET\<rparr> s;
     Some (snd r) }"

text \<open>The skynet type and whether the data goes into the padding.\<close>

definition event_type :: "int \<Rightarrow> (int \<times> bool) option" where
  "event_type type =
     (if type = SOCKET_DATA then Some (SKYNET_SOCKET_TYPE_DATA, False)
      else if type = SOCKET_CLOSE then Some (SKYNET_SOCKET_TYPE_CLOSE, False)
      else if type = SOCKET_OPEN then Some (SKYNET_SOCKET_TYPE_CONNECT, True)
      else if type = SOCKET_ERROR then Some (SKYNET_SOCKET_TYPE_ERROR, True)
      else if type = SOCKET_ACCEPT then Some (SKYNET_SOCKET_TYPE_ACCEPT, True)
      else if type = SOCKET_UDP then Some (SKYNET_SOCKET_TYPE_UDP, False)
      else None)"

definition skynet_socket_poll ::
  "externals \<Rightarrow> int \<times> socket_message \<times> bool \<Rightarrow> node_state \<Rightarrow> (int \<times> node_state) option" where
  "skynet_socket_poll X polled s = (let (type, result, again) = polled in
     if type = SOCKET_EXIT then Some (0, s)
     else (case event_type type of
       Some (t, padding) \<Rightarrow> do {
         s1 \<leftarrow> forward_message X t padding result s;
         Some (if again then -1 else 1, s1) }
     | None \<Rightarrow> do {
         s1 \<leftarrow> skynet_error X None (''Unknown socket message type '' @ show_d type @ ''.'') s;
         Some (-1, s1) }))"

section \<open>Sending\<close>

definition check_wsz :: "externals \<Rightarrow> ctxid \<Rightarrow> int \<Rightarrow> int \<Rightarrow> node_state \<Rightarrow> (int \<times> node_state) option" where
  "check_wsz X c sid wsz s =
     (if wsz < 0 then Some (-1, s)
      else if 1024 * 1024 < wsz then do {
        h \<leftarrow> skynet_context_handle c s;
        r \<leftarrow> skynet_send X (Some c) 0 h (word_of_nat PTYPE_SOCKET) 0
               (Some (Socket \<lparr>sm_type = SKYNET_SOCKET_TYPE_WARNING, sm_id = sid,
                              sm_ud = sint (word_of_int (wsz div 1024) :: i32), sm_buffer = None, sm_padding = []\<rparr>))
               (word_of_nat SOCKET_MESSAGE_SIZE) s;
        Some (0, snd r) }
      else Some (0, s))"

text \<open>\<open>skynet_socket_send\<close> and \<open>skynet_socket_udp_send\<close>, with what the socket server returned.\<close>

definition skynet_socket_send :: "externals \<Rightarrow> ctxid \<Rightarrow> int \<Rightarrow> int \<Rightarrow> node_state \<Rightarrow> (int \<times> node_state) option" where
  "skynet_socket_send X c sid wsz s = check_wsz X c sid wsz s"

section \<open>Delivery\<close>

lemma socket_size:
  assumes "n < 2 ^ 56"
  shows "(word_of_nat n :: u64) AND MESSAGE_TYPE_MASK = word_of_nat n"
  using assms by (simp add: MESSAGE_TYPE_MASK_def take_bit_eq_mask[symmetric] take_bit_of_nat take_bit_nat_eq_self)

lemma forward_delivers:
  assumes "node_ok H s" "handle_lookup s (ucast (so_opaque result)) = Some c" "ctx_heap s c = Some x"
    and pad: "(if padding then padding_bytes result else Some []) = Some pad"
  shows "\<exists>s' m. forward_message X type padding result s = Some s' \<and> node_ok H s' \<and> mq_only s s' \<and>
    mq_msgs s' = (mq_msgs s)(ctx_queue x \<mapsto> the (mq_msgs s (ctx_queue x)) @ [m]) \<and>
    others_kept (ctx_queue x) s s' \<and> (\<forall>xs. sched_rep s H xs \<longrightarrow> sched_rep s' H (listed H (ctx_queue x) xs)) \<and>
    msg_source m = 0 \<and> msg_session m = 0 \<and>
    msg_data m = Some (Socket \<lparr>sm_type = type, sm_id = so_id result, sm_ud = so_ud result,
       sm_buffer = (if padding then None else so_data result), sm_padding = pad\<rparr>) \<and>
    type_of_sz (msg_sz m) = PTYPE_SOCKET \<and> msg_sz m AND MESSAGE_TYPE_MASK = word_of_nat (SOCKET_MESSAGE_SIZE + length pad)"
proof -
  have "length pad \<le> 128" using pad by (auto simp: padding_bytes_def split: if_splits option.splits)
  then have sz: "(word_of_nat (SOCKET_MESSAGE_SIZE + length pad) :: u64) AND MESSAGE_TYPE_MASK = word_of_nat (SOCKET_MESSAGE_SIZE + length pad)"
    by (intro socket_size) (simp add: SOCKET_MESSAGE_SIZE_def)
  have ty: "PTYPE_SOCKET < 256" by (simp add: PTYPE_SOCKET_def)
  let ?m = "\<lparr>msg_source = 0, msg_session = 0, msg_data = Some (Socket \<lparr>sm_type = type, sm_id = so_id result,
       sm_ud = so_ud result, sm_buffer = (if padding then None else so_data result), sm_padding = pad\<rparr>),
     msg_sz = word_of_nat (SOCKET_MESSAGE_SIZE + length pad) OR sz_of_type PTYPE_SOCKET\<rparr>"
  obtain s' where s': "skynet_context_push X (ucast (so_opaque result)) ?m s = Some (0, s')" "node_ok H s'" "mq_only s s'"
      "mq_msgs s' = (mq_msgs s)(ctx_queue x \<mapsto> the (mq_msgs s (ctx_queue x)) @ [?m])"
      "others_kept (ctx_queue x) s s'" "\<forall>xs. sched_rep s H xs \<longrightarrow> sched_rep s' H (listed H (ctx_queue x) xs)"
    using context_push_ok[OF assms(1-3), of X ?m] by blast
  have "forward_message X type padding result s = Some s'"
    unfolding forward_message_def pad using s'(1) by (simp add: Let_def)
  then show ?thesis using s' sz_type_roundtrip[OF sz ty] by (intro exI[of _ s'] exI[of _ ?m]) simp
qed

text \<open>
  Every event of the socket server other than its exit reaches the service that owns the
  socket, as one message at the end of that service's queue and of no other, with the type, the socket
  and the number of the event, and with its data: received bytes as the buffer, the text of a
  connection or an error, at most 128 bytes of it, behind the structure. The call tells the socket thread whether to poll again
  before it wakes a worker.
\<close>

theorem socket_poll_delivers:
  assumes "node_ok H s" "handle_lookup s (ucast (so_opaque result)) = Some c" "ctx_heap s c = Some x"
    and "event_type type = Some (t, padding)" "(if padding then padding_bytes result else Some []) = Some pad"
  shows "\<exists>s' m. skynet_socket_poll X (type, result, again) s = Some (if again then -1 else 1, s') \<and>
    node_ok H s' \<and> ctx_heap s' = ctx_heap s \<and>
    mq_msgs s' = (mq_msgs s)(ctx_queue x \<mapsto> the (mq_msgs s (ctx_queue x)) @ [m]) \<and>
    msg_source m = 0 \<and> msg_session m = 0 \<and>
    msg_data m = Some (Socket \<lparr>sm_type = t, sm_id = so_id result, sm_ud = so_ud result,
       sm_buffer = (if padding then None else so_data result), sm_padding = pad\<rparr>) \<and>
    type_of_sz (msg_sz m) = PTYPE_SOCKET \<and> msg_sz m AND MESSAGE_TYPE_MASK = word_of_nat (SOCKET_MESSAGE_SIZE + length pad)"
proof -
  have "type \<noteq> SOCKET_EXIT" using assms(4)
    by (auto simp: event_type_def SOCKET_EXIT_def SOCKET_DATA_def SOCKET_CLOSE_def SOCKET_OPEN_def SOCKET_ACCEPT_def
        SOCKET_ERROR_def SOCKET_UDP_def)
  moreover obtain s' m where "forward_message X t padding result s = Some s'" "node_ok H s'" "mq_only s s'"
      "mq_msgs s' = (mq_msgs s)(ctx_queue x \<mapsto> the (mq_msgs s (ctx_queue x)) @ [m])"
      "msg_source m = 0" "msg_session m = 0"
      "msg_data m = Some (Socket \<lparr>sm_type = t, sm_id = so_id result, sm_ud = so_ud result,
         sm_buffer = (if padding then None else so_data result), sm_padding = pad\<rparr>)"
      "type_of_sz (msg_sz m) = PTYPE_SOCKET" "msg_sz m AND MESSAGE_TYPE_MASK = word_of_nat (SOCKET_MESSAGE_SIZE + length pad)"
    using forward_delivers[OF assms(1-3,5), of X t] by blast
  ultimately show ?thesis
    using assms(4) mq_only_fields(1) by (intro exI[of _ s'] exI[of _ m]) (simp add: skynet_socket_poll_def)
qed

theorem socket_poll_delivers_witness:
  "\<exists>s' m. skynet_socket_poll demo_world (SOCKET_ACCEPT, \<lparr>so_id = 5, so_opaque = 0x01000001, so_ud = 9, so_data = Some [49, 58, 50, 0]\<rparr>, False)
      demo_node = Some (1, s') \<and> mq_msgs s' 0 = Some [demo_message, m] \<and>
    msg_data m = Some (Socket \<lparr>sm_type = SKYNET_SOCKET_TYPE_ACCEPT, sm_id = 5, sm_ud = 9, sm_buffer = None, sm_padding = [49, 58, 50]\<rparr>)"
proof -
  let ?r = "\<lparr>so_id = 5, so_opaque = 0x01000001, so_ud = 9, so_data = Some [49, 58, 50, 0]\<rparr>"
  have x: "ctx_heap demo_node 0 = Some demo_context" "ctx_queue demo_context = 0"
    by (simp_all add: demo_node_def demo_context_def new_context_def)
  have m: "mq_msgs demo_node 0 = Some [demo_message]"
    by (simp add: mq_msgs_def demo_node_def demo_queue_ring)
  have l: "handle_lookup demo_node (ucast (so_opaque ?r)) = Some 0" using demo_lookup by simp
  have t: "event_type SOCKET_ACCEPT = Some (SKYNET_SOCKET_TYPE_ACCEPT, True)"
    by (simp add: event_type_def SOCKET_DATA_def SOCKET_CLOSE_def SOCKET_OPEN_def SOCKET_ACCEPT_def SOCKET_ERROR_def)
  have p: "(if True then padding_bytes ?r else Some []) = Some [49, 58, 50]" by (simp add: padding_bytes_def)
  show ?thesis using socket_poll_delivers[OF demo_ok l x(1) t p, of demo_world False] x(2) m by auto
qed

end
