(* ===== verification/Threads.thy ===== *)
theory Threads
  imports Socket_Events
begin

text \<open>
  The threads of a node (\<open>skynet_start.c\<close>): the workers, the timer, the monitor and the socket
  thread, with the mutex, the condition variable, the counter of sleeping workers and the flag that
  ends them (\<open>Startup\<close> has what comes before). Each thread is a program counter over the
  statements of its loop; a step of the system is a statement of one thread. Calls into the
  rest of the runtime are one step each (\<open>Mq_Sched\<close> interleaves the queue operations themselves).
  \<open>pthread_mutex_lock\<close> and \<open>pthread_create\<close> do not fail, and threads may wake up spuriously.
\<close>

section \<open>State\<close>

definition THREAD_WORKER :: nat where "THREAD_WORKER = 0"
definition THREAD_SOCKET :: nat where "THREAD_SOCKET = 2"
definition THREAD_TIMER :: nat where "THREAD_TIMER = 3"
definition THREAD_MONITOR :: nat where "THREAD_MONITOR = 4"

datatype worker_pc =
  W_Test | W_Dispatch | W_Lock | W_Inc | W_Check | W_Wait | W_Relock | W_Dec | W_Unlock | W_End

datatype timer_pc =
  T_Update | T_Check | T_Wakeup | T_Exit | T_Lock | T_Quit | T_Broadcast | T_Unlock | T_End

datatype monitor_pc = M_Abort | M_Scan nat | M_Sleep nat | M_End

datatype socket_pc = S_Poll | S_Abort | S_Wakeup | S_End

datatype thread_id = Th_Timer | Th_Worker nat

text \<open>The locals of a worker and its thread-specific handle.\<close>

record worker =
  w_pc :: worker_pc
  w_q :: "mqid option"
  w_weight :: int
  w_key :: u32

text \<open>\<open>struct monitor\<close> with the holder of its mutex, the node, and where the threads are.\<close>

record monitor =
  m_count :: nat
  m_m :: "skynet_monitor list"
  m_mutex :: "thread_id option"
  m_sleep :: int
  m_quit :: bool
  m_exit :: bool
  m_node :: node_state
  m_workers :: "worker list"
  m_timer :: timer_pc
  m_monitor :: monitor_pc
  m_socket :: socket_pc

text \<open>\<open>m_exit\<close> is set once \<open>skynet_socket_exit\<close> was called.\<close>

definition in_thread :: "u32 \<Rightarrow> node_state \<Rightarrow> node_state" where
  "in_thread key s = s\<lparr>t_handle := key\<rparr>"

definition set_worker :: "nat \<Rightarrow> worker \<Rightarrow> monitor \<Rightarrow> monitor" where
  "set_worker i w m = m\<lparr>m_workers := (m_workers m)[i := w]\<rparr>"

section \<open>Waking workers\<close>

definition waiting :: "monitor \<Rightarrow> nat \<Rightarrow> bool" where
  "waiting m i \<longleftrightarrow> i < length (m_workers m) \<and> w_pc (m_workers m ! i) = W_Wait"

definition no_waiting :: "monitor \<Rightarrow> bool" where
  "no_waiting m = list_all (\<lambda>w. w_pc w \<noteq> W_Wait) (m_workers m)"

text \<open>\<open>pthread_cond_signal\<close> wakes one of the waiting threads, \<open>j\<close>, if there are any.\<close>

definition cond_signal :: "nat \<Rightarrow> monitor \<Rightarrow> monitor option" where
  "cond_signal j m =
     (if waiting m j then Some (set_worker j ((m_workers m ! j)\<lparr>w_pc := W_Relock\<rparr>) m)
      else if no_waiting m then Some m
      else None)"

definition cond_broadcast :: "monitor \<Rightarrow> monitor" where
  "cond_broadcast m = m\<lparr>m_workers :=
     map (\<lambda>w. if w_pc w = W_Wait then w\<lparr>w_pc := W_Relock\<rparr> else w) (m_workers m)\<rparr>"

definition wakeup :: "int \<Rightarrow> nat \<Rightarrow> monitor \<Rightarrow> monitor option" where
  "wakeup busy j m = (if int (m_count m) - busy \<le> m_sleep m then cond_signal j m else Some m)"

section \<open>The loops\<close>

definition thread_worker :: "externals \<Rightarrow> nat \<Rightarrow> monitor \<Rightarrow> monitor option" where
  "thread_worker X i m =
     (if \<not> i < length (m_workers m) then None
      else let w = m_workers m ! i; goto = (\<lambda>pc. set_worker i (w\<lparr>w_pc := pc\<rparr>))
      in case w_pc w of
        W_Test \<Rightarrow> Some (goto (if m_quit m then W_End else W_Dispatch) m)
      | W_Dispatch \<Rightarrow>
          if \<not> i < length (m_m m) then None
          else do {
            (q, sm, s) \<leftarrow> skynet_context_message_dispatch X (m_m m ! i) (w_q w) (w_weight w) (in_thread (w_key w) (m_node m));
            Some (set_worker i (w\<lparr>w_pc := (if q = None then W_Lock else W_Test), w_q := q, w_key := t_handle s\<rparr>)
                    (m\<lparr>m_m := (m_m m)[i := sm], m_node := s\<rparr>)) }
      | W_Lock \<Rightarrow> if m_mutex m = None then Some (goto W_Inc (m\<lparr>m_mutex := Some (Th_Worker i)\<rparr>)) else None
      | W_Inc \<Rightarrow> Some (goto W_Check (m\<lparr>m_sleep := m_sleep m + 1\<rparr>))
      | W_Check \<Rightarrow> Some (if m_quit m then goto W_Dec m else goto W_Wait (m\<lparr>m_mutex := None\<rparr>))
      | W_Wait \<Rightarrow> None
      | W_Relock \<Rightarrow> if m_mutex m = None then Some (goto W_Dec (m\<lparr>m_mutex := Some (Th_Worker i)\<rparr>)) else None
      | W_Dec \<Rightarrow> Some (goto W_Unlock (m\<lparr>m_sleep := m_sleep m - 1\<rparr>))
      | W_Unlock \<Rightarrow> Some (goto W_Test (m\<lparr>m_mutex := None\<rparr>))
      | W_End \<Rightarrow> None)"

text \<open>The clock the timer reads and the worker its signal wakes are arguments.\<close>

definition thread_timer :: "externals \<Rightarrow> u64 \<times> u64 \<Rightarrow> nat \<Rightarrow> monitor \<Rightarrow> monitor option" where
  "thread_timer X clock j m = (case m_timer m of
       T_Update \<Rightarrow> do {
         s \<leftarrow> skynet_updatetime X clock (in_thread (- word_of_nat THREAD_TIMER) (m_node m));
         Some (m\<lparr>m_node := s, m_timer := T_Check\<rparr>) }
     | T_Check \<Rightarrow> Some (m\<lparr>m_timer := (if skynet_context_total (m_node m) = 0 then T_Exit else T_Wakeup)\<rparr>)
     | T_Wakeup \<Rightarrow> do {
         m1 \<leftarrow> wakeup (int (m_count m) - 1) j m;
         Some (m1\<lparr>m_timer := T_Update\<rparr>) }
     | T_Exit \<Rightarrow> Some (m\<lparr>m_exit := True, m_timer := T_Lock\<rparr>)
     | T_Lock \<Rightarrow> if m_mutex m = None then Some (m\<lparr>m_mutex := Some Th_Timer, m_timer := T_Quit\<rparr>) else None
     | T_Quit \<Rightarrow> Some (m\<lparr>m_quit := True, m_timer := T_Broadcast\<rparr>)
     | T_Broadcast \<Rightarrow> Some ((cond_broadcast m)\<lparr>m_timer := T_Unlock\<rparr>)
     | T_Unlock \<Rightarrow> Some (m\<lparr>m_mutex := None, m_timer := T_End\<rparr>)
     | T_End \<Rightarrow> None)"

text \<open>\<open>CHECK_ABORT\<close> in the inner loop leaves only that loop.\<close>

definition thread_monitor :: "externals \<Rightarrow> monitor \<Rightarrow> monitor option" where
  "thread_monitor X m = (case m_monitor m of
       M_Abort \<Rightarrow> Some (m\<lparr>m_monitor := (if skynet_context_total (m_node m) = 0 then M_End else M_Scan 0)\<rparr>)
     | M_Scan i \<Rightarrow>
         if i < m_count m then
           if \<not> i < length (m_m m) then None
           else do {
             (sm, s) \<leftarrow> skynet_monitor_check X (m_m m ! i) (in_thread (- word_of_nat THREAD_MONITOR) (m_node m));
             Some (m\<lparr>m_m := (m_m m)[i := sm], m_node := s, m_monitor := M_Scan (i + 1)\<rparr>) }
         else Some (m\<lparr>m_monitor := M_Sleep 0\<rparr>)
     | M_Sleep i \<Rightarrow>
         Some (m\<lparr>m_monitor := (if i < 5 \<and> skynet_context_total (m_node m) \<noteq> 0 then M_Sleep (i + 1) else M_Abort)\<rparr>)
     | M_End \<Rightarrow> None)"

text \<open>The socket server reports its exit only after it was told to.\<close>

definition thread_socket :: "externals \<Rightarrow> int \<times> socket_message \<times> bool \<Rightarrow> nat \<Rightarrow> monitor \<Rightarrow> monitor option" where
  "thread_socket X polled j m = (case m_socket m of
       S_Poll \<Rightarrow>
         if fst polled = SOCKET_EXIT \<and> \<not> m_exit m then None
         else do {
           (r, s) \<leftarrow> skynet_socket_poll X polled (in_thread (- word_of_nat THREAD_SOCKET) (m_node m));
           Some (m\<lparr>m_node := s, m_socket := (if r = 0 then S_End else if r < 0 then S_Abort else S_Wakeup)\<rparr>) }
     | S_Abort \<Rightarrow> Some (m\<lparr>m_socket := (if skynet_context_total (m_node m) = 0 then S_End else S_Poll)\<rparr>)
     | S_Wakeup \<Rightarrow> do {
         m1 \<leftarrow> wakeup 0 j m;
         Some (m1\<lparr>m_socket := S_Poll\<rparr>) }
     | S_End \<Rightarrow> None)"

section \<open>Start\<close>

definition weight :: "int list" where
  "weight = [-1, -1, -1, -1, 0, 0, 0, 0, 1, 1, 1, 1, 1, 1, 1, 1, 2, 2, 2, 2, 2, 2, 2, 2, 3, 3, 3, 3, 3, 3, 3, 3]"

definition worker_weight :: "nat \<Rightarrow> int" where
  "worker_weight i = (if i < length weight then weight ! i else 0)"

text \<open>The threads as \<open>start\<close> creates them.\<close>

definition start :: "nat \<Rightarrow> node_state \<Rightarrow> monitor" where
  "start thread s =
     \<lparr>m_count = thread, m_m = replicate thread skynet_monitor_new, m_mutex = None, m_sleep = 0,
      m_quit = False, m_exit = False, m_node = s,
      m_workers = map (\<lambda>i. \<lparr>w_pc = W_Test, w_q = None, w_weight = worker_weight i, w_key = - word_of_nat THREAD_WORKER\<rparr>) [0..<thread],
      m_timer = T_Update, m_monitor = M_Abort, m_socket = S_Poll\<rparr>"

section \<open>The system\<close>

datatype thread_event =
    Ev_Worker nat
  | Ev_Spurious nat
  | Ev_Timer "u64 \<times> u64" nat
  | Ev_Monitor
  | Ev_Socket "int \<times> socket_message \<times> bool" nat

definition thread_step :: "externals \<Rightarrow> thread_event \<Rightarrow> monitor \<Rightarrow> monitor option" where
  "thread_step X ev m = (case ev of
       Ev_Worker i \<Rightarrow> thread_worker X i m
     | Ev_Spurious j \<Rightarrow> if waiting m j then cond_signal j m else None
     | Ev_Timer clock j \<Rightarrow> thread_timer X clock j m
     | Ev_Monitor \<Rightarrow> thread_monitor X m
     | Ev_Socket polled j \<Rightarrow> thread_socket X polled j m)"

fun thread_run :: "externals \<Rightarrow> thread_event list \<Rightarrow> monitor \<Rightarrow> monitor option" where
  "thread_run X [] m = Some m"
| "thread_run X (ev # evs) m = do { m1 \<leftarrow> thread_step X ev m; thread_run X evs m1 }"

end
