(* ===== verification/Threads_Props.thy ===== *)
theory Threads_Props
  imports Threads
begin

text \<open>
  How the threads sleep, wake and end: the counter of sleeping workers is right, the mutex keeps
  them apart, a tick of the timer wakes a waiting worker if there is one, and once the
  flag is set every worker leaves its loop.
\<close>

section \<open>Where the threads can be\<close>

definition asleep :: "worker_pc \<Rightarrow> bool" where
  "asleep pc \<longleftrightarrow> pc \<in> {W_Check, W_Wait, W_Relock, W_Dec}"

definition in_section :: "worker_pc \<Rightarrow> bool" where
  "in_section pc \<longleftrightarrow> pc \<in> {W_Inc, W_Check, W_Dec, W_Unlock}"

definition sleepers :: "worker list \<Rightarrow> int" where
  "sleepers ws = sum_list (map (\<lambda>w. if asleep (w_pc w) then 1 else 0) ws)"

text \<open>What holds between any two steps.\<close>

definition threads_ok :: "monitor \<Rightarrow> bool" where
  "threads_ok m \<longleftrightarrow>
     length (m_workers m) = m_count m \<and> length (m_m m) = m_count m \<and>
     m_sleep m = sleepers (m_workers m) \<and>
     (\<forall>i < length (m_workers m). in_section (w_pc (m_workers m ! i)) \<longleftrightarrow> m_mutex m = Some (Th_Worker i)) \<and>
     (\<forall>i. m_mutex m = Some (Th_Worker i) \<longrightarrow> i < length (m_workers m)) \<and>
     (m_mutex m = Some Th_Timer \<longleftrightarrow> m_timer m \<in> {T_Quit, T_Broadcast, T_Unlock}) \<and>
     (m_quit m \<longleftrightarrow> m_timer m \<in> {T_Broadcast, T_Unlock, T_End}) \<and>
     (m_timer m \<in> {T_Unlock, T_End} \<longrightarrow> no_waiting m)"

lemma threads_okD:
  assumes "threads_ok m"
  shows "length (m_workers m) = m_count m" "length (m_m m) = m_count m" "m_sleep m = sleepers (m_workers m)"
    "i < length (m_workers m) \<Longrightarrow> in_section (w_pc (m_workers m ! i)) \<longleftrightarrow> m_mutex m = Some (Th_Worker i)"
    "m_mutex m = Some (Th_Worker i) \<Longrightarrow> i < length (m_workers m)"
    "m_mutex m = Some Th_Timer \<longleftrightarrow> m_timer m \<in> {T_Quit, T_Broadcast, T_Unlock}"
    "m_quit m \<longleftrightarrow> m_timer m \<in> {T_Broadcast, T_Unlock, T_End}"
    "m_timer m \<in> {T_Unlock, T_End} \<Longrightarrow> no_waiting m"
  using assms unfolding threads_ok_def by blast+

lemma sleepers_update:
  "i < length ws \<Longrightarrow> sleepers (ws[i := w]) =
    sleepers ws + (if asleep (w_pc w) then 1 else 0) - (if asleep (w_pc (ws ! i)) then 1 else 0)"
  by (induction ws arbitrary: i) (auto simp: sleepers_def split: nat.split)

lemma no_waiting_update: "w_pc w \<noteq> W_Wait \<Longrightarrow> no_waiting m \<Longrightarrow> no_waiting (set_worker i w m)"
  unfolding no_waiting_def set_worker_def list_all_iff using set_update_subset_insert by fastforce

text \<open>
  A step of worker \<open>i\<close>: its new program counter, and what it does to the counter and to the mutex.
\<close>

lemma worker_moves:
  assumes ok: "threads_ok m" and i: "i < length (m_workers m)"
    and m': "m_workers m' = (m_workers m)[i := w]" "length (m_m m') = length (m_m m)" "m_count m' = m_count m"
      "m_timer m' = m_timer m" "m_quit m' = m_quit m"
    and sleep: "m_sleep m' = m_sleep m + (if asleep (w_pc w) then 1 else 0) - (if asleep (w_pc (m_workers m ! i)) then 1 else 0)"
    and mutex: "m_mutex m' = (if in_section (w_pc w) then Some (Th_Worker i)
        else if in_section (w_pc (m_workers m ! i)) then None else m_mutex m)"
      "in_section (w_pc w) \<Longrightarrow> \<not> in_section (w_pc (m_workers m ! i)) \<Longrightarrow> m_mutex m = None"
    and wait: "w_pc w = W_Wait \<Longrightarrow> \<not> m_quit m"
  shows "threads_ok m'"
proof -
  note D = threads_okD[OF ok]
  have "m_timer m' \<in> {T_Unlock, T_End} \<longrightarrow> no_waiting m'"
  proof
    assume t: "m_timer m' \<in> {T_Unlock, T_End}"
    then have "w_pc w \<noteq> W_Wait" using wait D(7) m'(4) by auto
    then show "no_waiting m'" using no_waiting_update[of w m i] D(8) t m'(1,4) by (simp add: no_waiting_def set_worker_def)
  qed
  moreover have "in_section (w_pc (m_workers m' ! k)) \<longleftrightarrow> m_mutex m' = Some (Th_Worker k)" if "k < length (m_workers m')" for k
    using that D(4)[OF i] D(4)[of k] mutex m'(1) i by (cases "k = i") auto
  moreover have "k < length (m_workers m')" if "m_mutex m' = Some (Th_Worker k)" for k
    using that D(5)[of k] i m'(1) mutex(1) by (auto split: if_splits)
  moreover have "m_mutex m' = Some Th_Timer \<longleftrightarrow> m_timer m' \<in> {T_Quit, T_Broadcast, T_Unlock}"
    using D(4)[OF i] D(6) mutex m'(4) by auto
  ultimately show ?thesis
    unfolding threads_ok_def using D(1-3,7) m' sleep sleepers_update[OF i] by simp
qed

lemmas pc_defs = asleep_def in_section_def

lemma worker_ok: "threads_ok m \<Longrightarrow> thread_worker X i m = Some m' \<Longrightarrow> threads_ok m'"
proof -
  assume ok: "threads_ok m" and st: "thread_worker X i m = Some m'"
  then have i: "i < length (m_workers m)" by (auto simp: thread_worker_def split: if_splits)
  note D = threads_okD(4)[OF ok i]
  show ?thesis
  proof (cases "w_pc (m_workers m ! i)")
    case W_Dispatch
    then obtain q sm s where "skynet_context_message_dispatch X (m_m m ! i) (w_q (m_workers m ! i)) (w_weight (m_workers m ! i))
        (in_thread (w_key (m_workers m ! i)) (m_node m)) = Some (q, sm, s)"
      using st i by (auto simp: thread_worker_def Let_def bind_eq_Some_iff split: if_splits)
    then have m': "m' = set_worker i ((m_workers m ! i)\<lparr>w_pc := (if q = None then W_Lock else W_Test),
        w_q := q, w_key := t_handle s\<rparr>) (m\<lparr>m_m := (m_m m)[i := sm], m_node := s\<rparr>)"
      using st i W_Dispatch by (auto simp: thread_worker_def Let_def split: if_split_asm)
    show ?thesis using D W_Dispatch
      by (intro worker_moves[OF ok i]) (auto simp: m' set_worker_def pc_defs split: if_splits)
  qed (use st i D in \<open>auto simp: thread_worker_def set_worker_def pc_defs Let_def split: if_splits intro!: worker_moves[OF ok i]\<close>)
qed

lemma signal_ok: "threads_ok m \<Longrightarrow> cond_signal j m = Some m' \<Longrightarrow> threads_ok m'"
proof -
  assume ok: "threads_ok m" and st: "cond_signal j m = Some m'"
  show ?thesis
  proof (cases "waiting m j")
    case True
    then have j: "j < length (m_workers m)" "w_pc (m_workers m ! j) = W_Wait" by (simp_all add: waiting_def)
    have m': "m' = set_worker j ((m_workers m ! j)\<lparr>w_pc := W_Relock\<rparr>) m" using st True by (simp add: cond_signal_def)
    show ?thesis using threads_okD(4)[OF ok j(1)] j(2)
      by (intro worker_moves[OF ok j(1)]) (auto simp: m' set_worker_def pc_defs)
  qed (use ok st in \<open>auto simp: cond_signal_def split: if_splits\<close>)
qed

lemma signal_fields:
  assumes "cond_signal j m = Some m'"
  shows "m_timer m' = m_timer m" "m_quit m' = m_quit m" "m_count m' = m_count m" "m_node m' = m_node m" "m_socket m' = m_socket m"
  using assms by (auto simp: cond_signal_def set_worker_def split: if_splits)

text \<open>Fields the invariant does not look at.\<close>

lemma threads_ok_frame:
  assumes "threads_ok m" "m_workers m' = m_workers m" "length (m_m m') = length (m_m m)" "m_count m' = m_count m"
    "m_sleep m' = m_sleep m" "m_mutex m' = m_mutex m" "m_quit m' = m_quit m"
    and "m_timer m' = m_timer m \<or> m_timer m \<in> {T_Update, T_Check, T_Wakeup, T_Exit} \<and> m_timer m' \<in> {T_Update, T_Check, T_Wakeup, T_Exit, T_Lock}"
  shows "threads_ok m'"
proof -
  have nw: "no_waiting m' = no_waiting m" using assms(2) by (simp add: no_waiting_def)
  have t: "m_timer m' \<in> {T_Quit, T_Broadcast, T_Unlock} \<longleftrightarrow> m_timer m \<in> {T_Quit, T_Broadcast, T_Unlock}"
      "m_timer m' \<in> {T_Broadcast, T_Unlock, T_End} \<longleftrightarrow> m_timer m \<in> {T_Broadcast, T_Unlock, T_End}"
      "m_timer m' \<in> {T_Unlock, T_End} \<longleftrightarrow> m_timer m \<in> {T_Unlock, T_End}"
    using assms(8) by auto
  show ?thesis using assms(1) unfolding threads_ok_def assms(2-7) t nw .
qed

lemma broadcast_ok:
  assumes "threads_ok m" "m_timer m = T_Broadcast"
  shows "threads_ok ((cond_broadcast m)\<lparr>m_timer := T_Unlock\<rparr>)"
proof -
  have "sleepers (m_workers (cond_broadcast m)) = sleepers (m_workers m)"
    by (simp add: sleepers_def cond_broadcast_def) (rule arg_cong[of _ _ sum_list], simp add: asleep_def)
  then show ?thesis using assms
    by (auto simp: threads_ok_def cond_broadcast_def no_waiting_def list_all_iff in_section_def)
qed

lemma wakeup_ok: "threads_ok m \<Longrightarrow> wakeup busy j m = Some m' \<Longrightarrow> threads_ok m'"
  by (auto simp: wakeup_def intro: signal_ok split: if_splits)

lemma wakeup_fields:
  assumes "wakeup busy j m = Some m'"
  shows "m_timer m' = m_timer m" "m_quit m' = m_quit m" "m_socket m' = m_socket m"
  using assms signal_fields by (auto simp: wakeup_def split: if_splits)

lemma timer_ok:
  assumes ok: "threads_ok m" and st: "thread_timer X clock j m = Some m'"
  shows "threads_ok m'"
proof (cases "m_timer m")
  case T_Wakeup
  then obtain m1 where m1: "wakeup (int (m_count m) - 1) j m = Some m1" "m' = m1\<lparr>m_timer := T_Update\<rparr>"
    using st by (auto simp: thread_timer_def bind_eq_Some_iff)
  show ?thesis
    by (rule threads_ok_frame[OF wakeup_ok[OF ok m1(1)]]) (use wakeup_fields(1)[OF m1(1)] T_Wakeup in \<open>simp_all add: m1(2)\<close>)
next
  case T_Broadcast
  then show ?thesis using st broadcast_ok[OF ok] by (simp add: thread_timer_def)
qed (use assms in \<open>auto simp: thread_timer_def bind_eq_Some_iff threads_ok_def no_waiting_def split: if_splits\<close>)

lemma monitor_ok: "threads_ok m \<Longrightarrow> thread_monitor X m = Some m' \<Longrightarrow> threads_ok m'"
  by (erule threads_ok_frame; auto simp: thread_monitor_def bind_eq_Some_iff split: monitor_pc.splits if_splits)

lemma socket_moves:
  assumes "thread_socket X polled j m = Some m'" "m_socket m \<noteq> S_Wakeup"
  obtains s pc where "m' = m\<lparr>m_node := s, m_socket := pc\<rparr>"
proof (cases "m_socket m")
  case S_Poll
  then obtain r where r: "skynet_socket_poll X polled (in_thread (- word_of_nat THREAD_SOCKET) (m_node m)) = Some r"
    using assms(1) by (auto simp: thread_socket_def bind_eq_Some_iff split: if_split_asm)
  show ?thesis using assms(1) S_Poll r that
    by (cases r) (auto simp: thread_socket_def split: if_split_asm)
next
  case S_Abort
  then show ?thesis using assms(1) that[where s = "m_node m"] by (auto simp: thread_socket_def)
qed (use assms in \<open>simp_all add: thread_socket_def\<close>)

lemma socket_ok:
  assumes ok: "threads_ok m" and st: "thread_socket X polled j m = Some m'"
  shows "threads_ok m'"
proof (cases "m_socket m = S_Wakeup")
  case True
  then obtain m1 where m1: "wakeup 0 j m = Some m1" "m' = m1\<lparr>m_socket := S_Poll\<rparr>"
    using st by (auto simp: thread_socket_def bind_eq_Some_iff)
  show ?thesis using wakeup_ok[OF ok m1(1)] by (rule threads_ok_frame) (simp_all add: m1(2))
next
  case False
  obtain s pc where "m' = m\<lparr>m_node := s, m_socket := pc\<rparr>" using socket_moves[OF st False] .
  then show ?thesis by (intro threads_ok_frame[OF ok]) simp_all
qed

lemma step_ok: "threads_ok m \<Longrightarrow> thread_step X ev m = Some m' \<Longrightarrow> threads_ok m'"
  by (auto simp: thread_step_def split: thread_event.splits if_splits
      intro: worker_ok timer_ok monitor_ok socket_ok signal_ok)

lemma threads_run_ok: "threads_ok m \<Longrightarrow> thread_run X evs m = Some m' \<Longrightarrow> threads_ok m'"
  by (induction X evs m rule: thread_run.induct) (auto simp: bind_eq_Some_iff intro: step_ok)

lemma start_ok: "threads_ok (start n s)"
proof -
  have "sleepers (m_workers (start n s)) = 0"
    by (simp add: start_def sleepers_def asleep_def comp_def sum_list_triv)
  then show ?thesis by (auto simp: threads_ok_def start_def no_waiting_def list_all_iff in_section_def)
qed

section \<open>Waking\<close>

lemma waiting_sleeps:
  assumes "waiting m i"
  shows "1 \<le> sleepers (m_workers m)"
proof -
  have "1 \<in> set (map (\<lambda>w. if asleep (w_pc w) then 1 else 0 :: int) (m_workers m))"
    using assms by (force simp: waiting_def asleep_def in_set_conv_nth)
  moreover have "\<forall>x \<in> set (map (\<lambda>w. if asleep (w_pc w) then 1 else 0 :: int) (m_workers m)). 0 \<le> x" by auto
  ultimately show ?thesis unfolding sleepers_def using member_le_sum_list by blast
qed

text \<open>
  C24. While a worker waits, the next tick of the timer thread wakes one: its signal reaches a
  waiting worker, whichever the system chooses, and that worker goes on to dispatch. A message
  that came in while a worker was about to sleep is therefore taken up at the next tick, though
  the thread that sent it may have signalled nobody.
\<close>

theorem timer_wakes_worker:
  assumes "thread_run X evs (start n s) = Some m" "m_timer m = T_Wakeup" "waiting m i"
  shows "(\<exists>m'. thread_step X (Ev_Timer clock i) m = Some m') \<and>
    (\<forall>j m'. thread_step X (Ev_Timer clock j) m = Some m' \<longrightarrow>
      waiting m j \<and> w_pc (m_workers m' ! j) = W_Relock \<and> (\<forall>k. waiting m' k \<longleftrightarrow> waiting m k \<and> k \<noteq> j))"
proof (intro conjI allI impI)
  have "1 \<le> m_sleep m" using waiting_sleeps[OF assms(3)] threads_okD(3)[OF threads_run_ok[OF start_ok assms(1)]] by simp
  then have w: "wakeup (int (m_count m) - 1) j m = cond_signal j m" for j by (simp add: wakeup_def)
  then show "\<exists>m'. thread_step X (Ev_Timer clock i) m = Some m'"
    using assms(2,3) by (simp add: thread_step_def thread_timer_def cond_signal_def)
  have "\<not> no_waiting m" using assms(3) by (auto simp: waiting_def no_waiting_def list_all_length)
  then show "waiting m j" "w_pc (m_workers m' ! j) = W_Relock" "waiting m' k \<longleftrightarrow> waiting m k \<and> k \<noteq> j"
    if "thread_step X (Ev_Timer clock j) m = Some m'" for j m' k
    using that assms(2) w[of j]
    by (auto simp: thread_step_def thread_timer_def cond_signal_def set_worker_def waiting_def nth_list_update
        split: if_splits)
qed

section \<open>Shutting down\<close>

text \<open>The steps a worker has left once the flag is set.\<close>

fun steps_left :: "worker_pc \<Rightarrow> nat" where
  "steps_left W_End = 0"
| "steps_left W_Test = 1"
| "steps_left W_Unlock = 2"
| "steps_left W_Dec = 3"
| "steps_left W_Relock = 4"
| "steps_left W_Wait = 5"
| "steps_left W_Check = 5"
| "steps_left W_Inc = 6"
| "steps_left W_Lock = 7"
| "steps_left W_Dispatch = 8"

definition work_left :: "nat \<Rightarrow> monitor \<Rightarrow> nat" where
  "work_left k m = (if k < length (m_workers m) then steps_left (w_pc (m_workers m ! k)) else 0)"

lemma work_bound: "work_left k m \<le> 8"
proof -
  have "steps_left pc \<le> 8" for pc by (cases pc) simp_all
  then show ?thesis by (simp add: work_left_def)
qed

lemma work_worker:
  assumes "thread_worker X i m = Some m'" "m_quit m"
  shows "work_left k m' + (if k = i then 1 else 0) \<le> work_left k m" "m_quit m'"
proof -
  have i: "i < length (m_workers m)" using assms(1) by (auto simp: thread_worker_def split: if_splits)
  obtain w where "m_workers m' = (m_workers m)[i := w]" "steps_left (w_pc w) < steps_left (w_pc (m_workers m ! i))" "m_quit m'"
    using assms i
    by (cases "w_pc (m_workers m ! i)")
      (auto simp: thread_worker_def Let_def set_worker_def bind_eq_Some_iff split: if_split_asm)
  then show "work_left k m' + (if k = i then 1 else 0) \<le> work_left k m" "m_quit m'"
    using i by (simp_all add: work_left_def)
qed

lemma work_signal: "cond_signal j m = Some m' \<Longrightarrow> work_left k m' \<le> work_left k m"
  by (auto simp: cond_signal_def set_worker_def waiting_def work_left_def nth_list_update split: if_splits)

lemma work_wakeup: "wakeup busy j m = Some m' \<Longrightarrow> work_left k m' \<le> work_left k m"
  by (auto simp: wakeup_def work_signal split: if_splits)

lemma work_broadcast: "work_left k (cond_broadcast m) \<le> work_left k m"
  by (simp add: work_left_def cond_broadcast_def)

lemma timer_work:
  assumes "thread_timer X clock j m = Some m'" "m_quit m"
  shows "work_left k m' \<le> work_left k m \<and> m_quit m'"
proof (cases "m_timer m")
  case T_Wakeup
  then obtain m1 where m1: "wakeup (int (m_count m) - 1) j m = Some m1" "m' = m1\<lparr>m_timer := T_Update\<rparr>"
    using assms(1) by (auto simp: thread_timer_def bind_eq_Some_iff)
  then show ?thesis using work_wakeup[OF m1(1), of k] wakeup_fields(2)[OF m1(1)] assms(2) by (simp add: work_left_def split: if_splits)
next
  case T_Broadcast
  then show ?thesis using assms work_broadcast[of k m] by (auto simp: thread_timer_def work_left_def cond_broadcast_def split: if_splits)
qed (use assms in \<open>auto simp: thread_timer_def bind_eq_Some_iff work_left_def split: if_split_asm\<close>)

lemma monitor_work:
  assumes "thread_monitor X m = Some m'" "m_quit m"
  shows "work_left k m' \<le> work_left k m \<and> m_quit m'"
  using assms
  by (auto simp: thread_monitor_def bind_eq_Some_iff work_left_def split: monitor_pc.splits if_split_asm)

lemma socket_work:
  assumes "thread_socket X polled j m = Some m'" "m_quit m"
  shows "work_left k m' \<le> work_left k m \<and> m_quit m'"
proof (cases "m_socket m = S_Wakeup")
  case True
  then obtain m1 where m1: "wakeup 0 j m = Some m1" "m' = m1\<lparr>m_socket := S_Poll\<rparr>"
    using assms(1) by (auto simp: thread_socket_def bind_eq_Some_iff)
  then show ?thesis using work_wakeup[OF m1(1), of k] wakeup_fields(2)[OF m1(1)] assms(2) by (simp add: work_left_def split: if_splits)
next
  case False
  obtain s pc where "m' = m\<lparr>m_node := s, m_socket := pc\<rparr>" using socket_moves[OF assms(1) False] .
  then show ?thesis using assms(2) by (simp add: work_left_def)
qed

text \<open>Each step of a worker uses up one of its own steps, and no step of another thread gives it one.\<close>

definition is_worker :: "nat \<Rightarrow> thread_event \<Rightarrow> bool" where
  "is_worker k ev = (case ev of Ev_Worker i \<Rightarrow> i = k | _ \<Rightarrow> False)"

lemma step_work:
  assumes "thread_step X ev m = Some m'" "m_quit m"
  shows "work_left k m' + (if is_worker k ev then 1 else 0) \<le> work_left k m \<and> m_quit m'"
proof (cases ev)
  case (Ev_Worker i)
  then have "thread_worker X i m = Some m'" using assms(1) by (simp add: thread_step_def)
  then show ?thesis using work_worker(1)[of X i m m' k] work_worker(2)[of X i m m'] assms(2) Ev_Worker by (simp add: is_worker_def split: if_splits)
next
  case (Ev_Spurious j)
  then have "cond_signal j m = Some m'" using assms(1) by (auto simp: thread_step_def split: if_splits)
  then show ?thesis using work_signal signal_fields(2) assms(2) Ev_Spurious by (auto simp: is_worker_def)
qed (use assms timer_work monitor_work socket_work in \<open>auto simp: thread_step_def is_worker_def\<close>)

lemma run_work:
  assumes "thread_run X evs m = Some m'" "m_quit m"
  shows "work_left k m' + length (filter (is_worker k) evs) \<le> work_left k m \<and> m_quit m'"
  using assms
proof (induction evs arbitrary: m)
  case (Cons ev evs)
  obtain m1 where m1: "thread_step X ev m = Some m1" "thread_run X evs m1 = Some m'"
    using Cons.prems(1) by (auto simp: bind_eq_Some_iff)
  show ?case using Cons.IH[OF m1(2)] step_work[OF m1(1) Cons.prems(2), of k] by (auto split: if_splits)
qed simp

text \<open>With the flag set and the timer thread ended, a worker that cannot go on has ended or is inside a call.\<close>

lemma stuck_worker:
  assumes ok: "threads_ok m" and t: "m_timer m = T_End" and stuck: "\<And>i. thread_worker X i m = None"
    and i: "i < length (m_workers m)"
  shows "w_pc (m_workers m ! i) \<in> {W_End, W_Dispatch}"
proof -
  note D = threads_okD[OF ok]
  have "m_mutex m = None"
  proof (cases "m_mutex m")
    case (Some h)
    then obtain k where k: "m_mutex m = Some (Th_Worker k)" using D(6) t by (cases h) auto
    have "in_section (w_pc (m_workers m ! k))" using D(4,5) k by simp
    then have False using stuck[of k] D(5)[OF k] by (auto simp: thread_worker_def Let_def in_section_def)
    then show ?thesis ..
  qed
  then show ?thesis
    using stuck[of i] i D(8) t
    by (cases "w_pc (m_workers m ! i)") (auto simp: thread_worker_def Let_def no_waiting_def list_all_length)
qed

lemma dispatch_stuck:
  assumes "thread_worker X i m = None" "i < length (m_workers m)" "i < length (m_m m)" "w_pc (m_workers m ! i) = W_Dispatch"
  shows "\<exists>sm. skynet_context_message_dispatch X sm (w_q (m_workers m ! i)) (w_weight (m_workers m ! i))
    (in_thread (w_key (m_workers m ! i)) (m_node m)) = None"
proof (rule exI[of _ "m_m m ! i"])
  show "skynet_context_message_dispatch X (m_m m ! i) (w_q (m_workers m ! i)) (w_weight (m_workers m ! i))
      (in_thread (w_key (m_workers m ! i)) (m_node m)) = None"
    using assms by (cases "skynet_context_message_dispatch X (m_m m ! i) (w_q (m_workers m ! i)) (w_weight (m_workers m ! i))
      (in_thread (w_key (m_workers m ! i)) (m_node m))") (auto simp: thread_worker_def Let_def split_def)
qed

text \<open>
  C20. Shutting down. Once the timer thread has set the flag, every worker takes at most eight more
  steps, in whatever order the threads run; and a state in which neither a worker nor the
  timer thread can take a step is one in which the timer thread has ended and every worker has left its loop,
  or is inside a call of a service that does not return. No worker is left waiting.
\<close>

theorem workers_shut_down:
  assumes "thread_run X evs (start n s) = Some m" "m_quit m" "thread_run X evs' m = Some m'"
  shows "(\<forall>i. length (filter (is_worker i) evs') \<le> 8) \<and>
    ((\<forall>i. thread_step X (Ev_Worker i) m' = None) \<and> (\<forall>clock j. thread_step X (Ev_Timer clock j) m' = None) \<longrightarrow>
      m_timer m' = T_End \<and> m_sleep m' = 0 \<and>
      (\<forall>w \<in> set (m_workers m'). w_pc w = W_End \<or>
        w_pc w = W_Dispatch \<and>
        (\<exists>sm. skynet_context_message_dispatch X sm (w_q w) (w_weight w) (in_thread (w_key w) (m_node m')) = None)))"
proof (intro conjI impI allI)
  have ok: "threads_ok m" "threads_ok m'" using threads_run_ok assms start_ok by blast+
  note D = threads_okD[OF ok(2)]
  show "length (filter (is_worker i) evs') \<le> 8" for i
    using run_work[OF assms(3,2), of i] work_bound[of i m] by simp
  assume stuck: "(\<forall>i. thread_step X (Ev_Worker i) m' = None) \<and> (\<forall>clock j. thread_step X (Ev_Timer clock j) m' = None)"
  have "m_timer m' \<in> {T_Broadcast, T_Unlock, T_End}" using run_work[OF assms(3,2)] D(7) by blast
  then show te: "m_timer m' = T_End" using stuck by (auto simp: thread_step_def thread_timer_def)
  have st: "\<And>i. thread_worker X i m' = None" using stuck by (simp add: thread_step_def)
  note pcs = stuck_worker[OF ok(2) te st]
  have "asleep (w_pc w) = False" if "w \<in> set (m_workers m')" for w
    using that pcs unfolding in_set_conv_nth asleep_def by fastforce
  then have "sleepers (m_workers m') = 0" by (simp add: sleepers_def cong: map_cong)
  then show "m_sleep m' = 0" using D(3) by simp
  show "\<forall>w \<in> set (m_workers m'). w_pc w = W_End \<or> w_pc w = W_Dispatch \<and>
      (\<exists>sm. skynet_context_message_dispatch X sm (w_q w) (w_weight w) (in_thread (w_key w) (m_node m')) = None)"
    using pcs dispatch_stuck[OF st] D(1,2) by (metis empty_iff in_set_conv_nth insert_iff)
qed

section \<open>A run\<close>

text \<open>One worker finds nothing to do and goes to sleep; the timer thread comes to its signal.\<close>

definition sleepy_events :: "thread_event list" where
  "sleepy_events = replicate 5 (Ev_Worker 0) @ replicate 2 (Ev_Timer (0, 0) 0)"

definition sleepy :: monitor where
  "sleepy = the (thread_run demo_world sleepy_events (start 1 demo_node))"

lemma sleepy_run: "thread_run demo_world sleepy_events (start 1 demo_node) = Some sleepy"
proof -
  have "\<not> Option.is_none (thread_run demo_world sleepy_events (start 1 demo_node))" by code_simp
  then show ?thesis by (simp add: sleepy_def Option.is_none_def)
qed

theorem timer_wakes_worker_witness:
  "m_timer sleepy = T_Wakeup \<and> waiting sleepy 0 \<and>
    (\<exists>m'. thread_step demo_world (Ev_Timer (0, 0) 0) sleepy = Some m' \<and> \<not> waiting m' 0)"
proof -
  have s: "m_timer sleepy = T_Wakeup" "waiting sleepy 0" by code_simp+
  then show ?thesis using timer_wakes_worker[OF sleepy_run s, of "(0, 0)"] by blast
qed

text \<open>With no service left the timer thread sets the flag, and the sleeping worker leaves its loop.\<close>

definition empty_node :: node_state where
  "empty_node = demo_node\<lparr>node_total := 0\<rparr>"

definition quit_events :: "thread_event list" where
  "quit_events = replicate 5 (Ev_Worker 0) @ replicate 5 (Ev_Timer (0, 0) 0)"

definition leave_events :: "thread_event list" where
  "leave_events = replicate 2 (Ev_Timer (0, 0) 0) @ replicate 4 (Ev_Worker 0)"

definition quitting :: monitor where
  "quitting = the (thread_run demo_world quit_events (start 1 empty_node))"

definition ended :: monitor where
  "ended = the (thread_run demo_world leave_events quitting)"

lemma ended_runs:
  "thread_run demo_world quit_events (start 1 empty_node) = Some quitting" "thread_run demo_world leave_events quitting = Some ended"
proof -
  have "\<not> Option.is_none (thread_run demo_world quit_events (start 1 empty_node))"
    "\<not> Option.is_none (thread_run demo_world leave_events quitting)" by code_simp+
  then show "thread_run demo_world quit_events (start 1 empty_node) = Some quitting"
    "thread_run demo_world leave_events quitting = Some ended"
    by (simp_all add: quitting_def ended_def Option.is_none_def)
qed

theorem workers_shut_down_witness:
  "m_quit quitting \<and> waiting quitting 0 \<and> length (filter (is_worker 0) leave_events) \<le> 8 \<and>
    m_timer ended = T_End \<and> m_sleep ended = 0 \<and> map w_pc (m_workers ended) = [W_End]"
proof -
  have q: "m_quit quitting" "waiting quitting 0" and e: "m_timer ended = T_End" "map w_pc (m_workers ended) = [W_End]" by code_simp+
  have "thread_step demo_world (Ev_Worker i) ended = None" for i
    using e(2) by (auto simp: thread_step_def thread_worker_def Let_def)
  moreover have "thread_step demo_world (Ev_Timer clock j) ended = None" for clock j
    using e(1) by (simp add: thread_step_def thread_timer_def)
  ultimately show ?thesis using workers_shut_down[OF ended_runs(1) q(1) ended_runs(2)] q e by blast
qed

end
