(* ===== verification/Startup.thy ===== *)
theory Startup
  imports Threads_Props
begin

text \<open>
  The start of a node: the options \<open>main\<close> reads (\<open>skynet_main.c\<close>) and the initialisations, the
  logger and the first service before the threads are created (\<open>skynet_start.c\<close>). The table the
  configuration file gives, and whether \<open>daemon_init\<close> succeeds, are arguments.
\<close>

section \<open>Configuration\<close>

record skynet_config =
  cfg_thread :: int
  cfg_harbor :: int
  cfg_daemon :: "string option"
  cfg_module_path :: string
  cfg_bootstrap :: string
  cfg_logger :: "string option"
  cfg_logservice :: string

text \<open>The number in an option, or its default, which is then stored.\<close>

definition optint :: "string \<Rightarrow> i32 \<Rightarrow> node_state \<Rightarrow> (i32 \<times> node_state) option" where
  "optint key opt s = (case skynet_getenv key s of
       None \<Rightarrow> do { s1 \<leftarrow> skynet_setenv key (show_d (sint opt)) s; Some (opt, s1) }
     | Some str \<Rightarrow> Some (long_int (strtol str 10), s))"

definition optstring :: "string \<Rightarrow> string option \<Rightarrow> node_state \<Rightarrow> (string option \<times> node_state) option" where
  "optstring key opt s = (case skynet_getenv key s of
       None \<Rightarrow> (case opt of
           Some v \<Rightarrow> do { s1 \<leftarrow> skynet_setenv key v s; Some (skynet_getenv key s1, s1) }
         | None \<Rightarrow> Some (None, s))
     | Some str \<Rightarrow> Some (Some str, s))"

text \<open>
  An entry of the table: \<open>lua_tostring\<close> makes a string of a string or a number and NULL of
  anything else. \<open>None\<close> as the key is one that is not a string. \<open>None\<close> as the result of \<open>init_env\<close> under \<open>Some\<close> is \<open>exit(1)\<close>.
\<close>

datatype config_value = Conf_Bool bool | Conf_Text string | Conf_Other

fun init_env :: "(string option \<times> config_value) list \<Rightarrow> node_state \<Rightarrow> node_state option option" where
  "init_env [] s = Some (Some s)"
| "init_env ((key, v) # kvs) s = (case key of
       None \<Rightarrow> Some None
     | Some k \<Rightarrow> (case v of
           Conf_Bool b \<Rightarrow> do { s1 \<leftarrow> skynet_setenv k (if b then ''true'' else ''false'') s; init_env kvs s1 }
         | Conf_Text str \<Rightarrow> do { s1 \<leftarrow> skynet_setenv k str s; init_env kvs s1 }
         | Conf_Other \<Rightarrow> Some None))"

definition read_config :: "node_state \<Rightarrow> (skynet_config \<times> node_state) option" where
  "read_config s = do {
     (thread, s1) \<leftarrow> optint ''thread'' 8 s;
     (cpath, s2) \<leftarrow> optstring ''cpath'' (Some ''./cservice/?.so'') s1;
     (harbor, s3) \<leftarrow> optint ''harbor'' 1 s2;
     (boot, s4) \<leftarrow> optstring ''bootstrap'' (Some ''snlua bootstrap'') s3;
     (daemon, s5) \<leftarrow> optstring ''daemon'' None s4;
     (logger, s6) \<leftarrow> optstring ''logger'' None s5;
     (logservice, s7) \<leftarrow> optstring ''logservice'' (Some ''logger'') s6;
     cpath1 \<leftarrow> cpath;
     boot1 \<leftarrow> boot;
     logservice1 \<leftarrow> logservice;
     Some (\<lparr>cfg_thread = sint thread, cfg_harbor = sint harbor, cfg_daemon = daemon, cfg_module_path = cpath1,
            cfg_bootstrap = boot1, cfg_logger = logger, cfg_logservice = logservice1\<rparr>, s7) }"

section \<open>The first services\<close>

text \<open>
  The first service after the logger. \<open>False\<close> stands for \<open>exit(1)\<close>; \<open>name\<close> and \<open>args\<close> hold no string
  where \<open>sscanf\<close> does not write them.
\<close>

definition bootstrap :: "externals \<Rightarrow> ctxid \<Rightarrow> string \<Rightarrow> node_state \<Rightarrow> (bool \<times> node_state) option" where
  "bootstrap X logger cmdline s = do {
     name \<leftarrow> fst (scan_two cmdline);
     args \<leftarrow> snd (scan_two cmdline);
     (c, s1) \<leftarrow> skynet_context_new X name (Some args) s;
     if c = None then do {
       s2 \<leftarrow> skynet_error X None (''Bootstrap error : '' @ cmdline @ [CHR 0x0A]) s1;
       s3 \<leftarrow> skynet_context_dispatchall X logger s2;
       Some (False, s3) }
     else Some (True, s1) }"

text \<open>
  \<open>skynet_start\<close> up to the threads: whether \<open>daemon_init\<close> succeeded and the clocks are arguments;
  \<open>None\<close> under the second component means \<open>exit(1)\<close>.
\<close>

definition skynet_start ::
  "externals \<Rightarrow> skynet_config \<Rightarrow> bool \<Rightarrow> u64 \<times> u64 \<Rightarrow> u64 \<times> u64 \<Rightarrow> node_state \<Rightarrow> (node_state \<times> monitor option) option" where
  "skynet_start X config daemon_ok realtime monotonic s =
     (if cfg_daemon config \<noteq> None \<and> \<not> daemon_ok then Some (s, None)
      else let s1 = skynet_harbor_init (cfg_harbor config) s;
               s2 = handle_storage_init (cfg_harbor config) s1;
               s3 = s2\<lparr>gq_head := None, gq_tail := None\<rparr>;
               s4 = skynet_module_init (cfg_module_path config) s3;
               s5 = skynet_timer_init realtime monotonic s4
           in do {
             (c, s6) \<leftarrow> skynet_context_new X (cfg_logservice config) (cfg_logger config) s5;
             case c of
               None \<Rightarrow> Some (s6, None)
             | Some logger \<Rightarrow> do {
                 (ok, s7) \<leftarrow> bootstrap X logger (cfg_bootstrap config) s6;
                 Some (s7, if ok then Some (start (nat (cfg_thread config)) s7) else None) } })"

text \<open>After all threads have been joined.\<close>

definition skynet_stop :: "externals \<Rightarrow> monitor \<Rightarrow> node_state option" where
  "skynet_stop X m = skynet_harbor_exit X (m_node m)"

text \<open>
  \<open>main\<close>, with the table the configuration file gives (\<open>None\<close> for an error in it). The result is
  that of \<open>skynet_start\<close>.
\<close>

definition skynet_main ::
  "externals \<Rightarrow> (string option \<times> config_value) list option \<Rightarrow> bool \<Rightarrow> u64 \<times> u64 \<Rightarrow> u64 \<times> u64 \<Rightarrow> node_state \<Rightarrow>
   (node_state \<times> monitor option) option" where
  "skynet_main X table daemon_ok realtime monotonic s =
     (let s1 = skynet_env_init (skynet_globalinit s) in
      case table of
        None \<Rightarrow> Some (s1, None)
      | Some kvs \<Rightarrow> do {
          r \<leftarrow> init_env kvs s1;
          case r of
            None \<Rightarrow> Some (s1, None)
          | Some s2 \<Rightarrow> do {
              (config, s3) \<leftarrow> read_config s2;
              skynet_start X config daemon_ok realtime monotonic s3 } })"

section \<open>Options\<close>

text \<open>Reading an option a second time gives what the first reading gave.\<close>

lemma optstring_again:
  assumes "optstring key opt s = Some (v, s1)"
  shows "optstring key opt s1 = Some (v, s1)"
proof (cases "n_env s key")
  case None
  then show ?thesis using assms
    by (cases opt) (simp_all add: optstring_def skynet_getenv_def skynet_setenv_def, fastforce)
next
  case (Some str)
  then have "s1 = s" "v = Some str" using assms by (simp_all add: optstring_def skynet_getenv_def)
  with Some show ?thesis by (simp add: optstring_def skynet_getenv_def)
qed

text \<open>The keys of a Lua table are distinct, so storing its entries does not fail.\<close>

lemma init_env_total:
  assumes "distinct (map fst kvs)" "\<And>k. Some k \<in> fst ` set kvs \<Longrightarrow> n_env s k = None"
  shows "\<exists>r. init_env kvs s = Some r"
  using assms
proof (induction kvs arbitrary: s)
  case (Cons kv kvs)
  obtain key v where kv: "kv = (key, v)" by fastforce
  show ?case
  proof (cases key)
    case (Some k)
    have free: "n_env s k = None" using Cons.prems(2)[of k] kv Some by simp
    have "\<exists>r. init_env kvs (s\<lparr>n_env := (n_env s)(k \<mapsto> str)\<rparr>) = Some r" for str
    proof (rule Cons.IH)
      show "distinct (map fst kvs)" using Cons.prems(1) by simp
      fix k'
      assume k': "Some k' \<in> fst ` set kvs"
      then have "k' \<noteq> k" using Cons.prems(1) kv Some by auto
      then show "n_env (s\<lparr>n_env := (n_env s)(k \<mapsto> str)\<rparr>) k' = None" using Cons.prems(2)[of k'] k' by simp
    qed
    then show ?thesis using free by (cases v) (simp_all add: kv Some skynet_setenv_def)
  qed (simp add: kv)
qed simp

lemma read_config_total: "\<exists>cfg s'. read_config s = Some (cfg, s')"
proof -
  have i: "\<exists>v s'. optint key opt s = Some (v, s')" for key opt s
    by (auto simp: optint_def skynet_getenv_def skynet_setenv_def split: option.split)
  have o: "\<exists>v s'. optstring key (Some opt) s = Some (Some v, s')" for key opt s
    by (auto simp: optstring_def skynet_getenv_def skynet_setenv_def split: option.split)
  have n: "\<exists>v s'. optstring key None s = Some (v, s')" for key s
    by (auto simp: optstring_def skynet_getenv_def skynet_setenv_def split: option.split)
  obtain v1 s1 where 1: "optint ''thread'' 8 s = Some (v1, s1)" using i by blast
  obtain v2 s2 where 2: "optstring ''cpath'' (Some ''./cservice/?.so'') s1 = Some (Some v2, s2)" using o by blast
  obtain v3 s3 where 3: "optint ''harbor'' 1 s2 = Some (v3, s3)" using i by blast
  obtain v4 s4 where 4: "optstring ''bootstrap'' (Some ''snlua bootstrap'') s3 = Some (Some v4, s4)" using o by blast
  obtain v5 s5 where 5: "optstring ''daemon'' None s4 = Some (v5, s5)" using n by blast
  obtain v6 s6 where 6: "optstring ''logger'' None s5 = Some (v6, s6)" using n by blast
  obtain v7 s7 where 7: "optstring ''logservice'' (Some ''logger'') s6 = Some (Some v7, s7)" using o by blast
  show ?thesis using 1 2 3 4 5 6 7 by (simp add: read_config_def)
qed

end
