(* ===== verification/Socket_Server.thy ===== *)
theory Socket_Server
  imports Socket_Events
begin

text \<open>
  The socket server (\<open>socket_server.c\<close>): the slots of sockets with their two lists of unsent
  buffers, the requests other threads write to the control pipe, and the loop that turns
  requests and events of the poll into messages. The operating system is an adversary: every
  system call whose outcome matters takes the next of a list of replies, and what the
  server does to the outside (bytes written, descriptors closed, buffers freed, interest in
  events) is recorded. The pipe is the queue of the requests themselves, since each is written
  and read in one piece. Looking up a name and connecting to the first address that answers
  is one reply.
\<close>

section \<open>State\<close>

datatype socket_type =
    ST_INVALID | ST_RESERVE | ST_PLISTEN | ST_LISTEN | ST_CONNECTING | ST_CONNECTED | ST_HALFCLOSE | ST_PACCEPT | ST_BIND

definition MAX_SOCKET :: nat where "MAX_SOCKET = 65536"
definition MIN_READ_BUFFER :: int where "MIN_READ_BUFFER = 64"
definition PROTOCOL_TCP :: nat where "PROTOCOL_TCP = 0"
definition PROTOCOL_UDP :: nat where "PROTOCOL_UDP = 1"
definition PROTOCOL_UDPv6 :: nat where "PROTOCOL_UDPv6 = 2"

datatype priority = PRIORITY_HIGH | PRIORITY_LOW

text \<open>
  What is to be sent: memory of the sender, or an object whose data the interface given to
  \<open>socket_server_userobject\<close> finds (with its size, and whether the data lies elsewhere than the object).
\<close>

datatype send_data = Plain "u8 list" | Object nat

type_synonym socket_object_interface = "nat \<Rightarrow> u8 list \<times> int \<times> bool"

text \<open>\<open>b_off\<close> is \<open>ptr\<close> as an offset into the data, \<open>b_apart\<close> whether \<open>buffer\<close> is not the start of the data.\<close>

record write_buffer =
  b_buffer :: send_data
  b_bytes :: "u8 list"
  b_off :: nat
  b_sz :: int
  b_userobject :: bool
  b_apart :: bool
  b_address :: "u8 list"

datatype socket_p = P_size int | P_address "u8 list"

record socket =
  s_opaque :: u64
  s_high :: "write_buffer list"
  s_low :: "write_buffer list"
  s_wb_size :: int
  s_fd :: int
  s_id :: int
  s_protocol :: nat
  s_type :: socket_type
  s_p :: socket_p

record event =
  e_s :: "nat option"
  e_read :: bool
  e_write :: bool

text \<open>
  An error the system reports, with its text. \<open>EAGAIN\<close> is \<open>AGAIN_WOULDBLOCK\<close>, \<open>EMFILE\<close> is that or \<open>ENFILE\<close>.
\<close>

datatype errno_code = EINTR | EAGAIN | EMFILE | EOTHER
datatype errno = Errno (e_code: errno_code) (strerror: "u8 list")

datatype os_reply =
    R_ok
  | R_error errno
  | R_count nat
  | R_bytes "u8 list"
  | R_packet "u8 list" bool "u8 list"
  | R_accepted int "u8 list option"
  | R_connected int "u8 list option"
  | R_connecting int
  | R_text "u8 list option"
  | R_events "event list"
  | R_family bool
  | R_fd int

datatype os_call =
    C_write int "u8 list"
  | C_sendto int "u8 list" "u8 list option"
  | C_close int
  | C_free send_data
  | C_sp_add int nat
  | C_sp_del int
  | C_sp_write int nat bool
  | C_setsockopt int int int

text \<open>The requests, by the letter that marks them in the pipe.\<close>

datatype request =
    Req_S int u64
  | Req_B int int u64
  | Req_L int int u64
  | Req_K int bool u64
  | Req_O int int u64 string
  | Req_X
  | Req_D int send_data int
  | Req_P int send_data int
  | Req_A int send_data int "u8 list"
  | Req_C int "u8 list"
  | Req_T int int int
  | Req_U int int bool u64

record socket_server =
  ss_checkctrl :: bool
  ss_alloc_id :: i32
  ss_ev :: "event list"
  ss_event_index :: nat
  ss_soi :: "socket_object_interface option"
  ss_slot :: "nat \<Rightarrow> socket"
  ss_pipe :: "request list"
  ss_os :: "os_reply list"
  ss_trace :: "os_call list"

definition HASH_ID :: "int \<Rightarrow> nat" where
  "HASH_ID sid = nat (sid mod int MAX_SOCKET)"

lemma HASH_ID_code [code]: "HASH_ID sid = nat (sid mod 65536)"
  by (simp add: HASH_ID_def MAX_SOCKET_def)

definition set_slot :: "nat \<Rightarrow> socket \<Rightarrow> socket_server \<Rightarrow> socket_server" where
  "set_slot i s ss = ss\<lparr>ss_slot := (ss_slot ss)(i := s)\<rparr>"

definition os_do :: "os_call \<Rightarrow> socket_server \<Rightarrow> socket_server" where
  "os_do c ss = ss\<lparr>ss_trace := ss_trace ss @ [c]\<rparr>"

definition os_ask :: "socket_server \<Rightarrow> (os_reply \<times> socket_server) option" where
  "os_ask ss = (case ss_os ss of [] \<Rightarrow> None | r # rs \<Rightarrow> Some (r, ss\<lparr>ss_os := rs\<rparr>))"

text \<open>A constant text with its terminating NUL, and the message of a socket.\<close>

definition literal :: "string \<Rightarrow> u8 list option" where
  "literal s = Some (cstr s @ [0])"

definition no_message :: socket_message where
  "no_message = \<lparr>so_id = 0, so_opaque = 0, so_ud = 0, so_data = None\<rparr>"

definition message_of :: "socket \<Rightarrow> u8 list option \<Rightarrow> socket_message" where
  "message_of s d = \<lparr>so_id = s_id s, so_opaque = s_opaque s, so_ud = 0, so_data = d\<rparr>"

section \<open>Buffers and slots\<close>

text \<open>The bytes, their number, and whether it is an object; \<open>None\<close> where the interface is not set.\<close>

definition send_object_init ::
  "socket_object_interface option \<Rightarrow> send_data \<Rightarrow> int \<Rightarrow> (u8 list \<times> int \<times> bool \<times> bool) option" where
  "send_object_init soi data sz =
     (if sz < 0 then (case (soi, data) of
          (Some f, Object a) \<Rightarrow> (let (bs, n, apart) = f a in Some (bs, n, True, apart))
        | _ \<Rightarrow> None)
      else (case data of Plain bs \<Rightarrow> Some (bs, sz, False, False) | Object a \<Rightarrow> None))"

fun reserve_loop :: "nat \<Rightarrow> socket_server \<Rightarrow> int \<times> socket_server" where
  "reserve_loop 0 ss = (-1, ss)"
| "reserve_loop (Suc n) ss =
     (let a = ss_alloc_id ss + 1;
          a1 = (if sint a < 0 then a AND 0x7fffffff else a);
          ss1 = ss\<lparr>ss_alloc_id := a1\<rparr>;
          s = ss_slot ss (HASH_ID (sint a1))
      in if s_type s = ST_INVALID
         then (sint a1, set_slot (HASH_ID (sint a1)) (s\<lparr>s_type := ST_RESERVE, s_id := sint a1, s_fd := -1\<rparr>) ss1)
         else reserve_loop n ss1)"

definition reserve_id :: "socket_server \<Rightarrow> int \<times> socket_server" where
  "reserve_id ss = reserve_loop MAX_SOCKET ss"

text \<open>
  \<open>sp_create\<close>, \<open>pipe\<close> and \<open>sp_add\<close> of its reading end answer in turn; \<open>None\<close> under \<open>Some\<close> is the
  null pointer. Memory fresh from \<open>malloc\<close> (\<open>junk\<close>) holds anything in the fields of a slot that are not set.
\<close>

definition socket_server_create :: "(nat \<Rightarrow> socket) \<Rightarrow> os_reply list \<Rightarrow> socket_server option option" where
  "socket_server_create junk replies = (case replies of
       R_error _ # _ \<Rightarrow> Some None
     | R_ok # R_error _ # _ \<Rightarrow> Some None
     | R_ok # R_ok # R_error _ # _ \<Rightarrow> Some None
     | R_ok # R_ok # R_ok # rs \<Rightarrow> Some (Some
         \<lparr>ss_checkctrl = True, ss_alloc_id = 0, ss_ev = [], ss_event_index = 0, ss_soi = None,
          ss_slot = (\<lambda>i. (junk i)\<lparr>s_type := ST_INVALID, s_high := [], s_low := []\<rparr>),
          ss_pipe = [], ss_os = rs, ss_trace = []\<rparr>)
     | _ \<Rightarrow> None)"

fun free_wb_list :: "write_buffer list \<Rightarrow> socket_server \<Rightarrow> socket_server" where
  "free_wb_list [] ss = ss"
| "free_wb_list (wb # wbs) ss = free_wb_list wbs (os_do (C_free (b_buffer wb)) ss)"

definition force_close :: "nat \<Rightarrow> socket_server \<Rightarrow> (socket_message \<times> socket_server) option" where
  "force_close i ss =
     (let s = ss_slot ss i; result = message_of s None in
      if s_type s = ST_INVALID then Some (result, ss)
      else if s_type s = ST_RESERVE then None
      else let ss1 = free_wb_list (s_low s) (free_wb_list (s_high s) ss);
               ss2 = (if s_type s \<noteq> ST_PACCEPT \<and> s_type s \<noteq> ST_PLISTEN then os_do (C_sp_del (s_fd s)) ss1 else ss1);
               ss3 = (if s_type s \<noteq> ST_BIND then os_do (C_close (s_fd s)) ss2 else ss2)
           in Some (result, set_slot i (s\<lparr>s_high := [], s_low := [], s_type := ST_INVALID\<rparr>) ss3))"

fun release_loop :: "nat list \<Rightarrow> socket_server \<Rightarrow> socket_server option" where
  "release_loop [] ss = Some ss"
| "release_loop (i # is) ss =
     (if s_type (ss_slot ss i) \<noteq> ST_RESERVE
      then do { (_, ss1) \<leftarrow> force_close i ss; release_loop is ss1 }
      else release_loop is ss)"

text \<open>The two ends of the pipe and the descriptor of the poll, which are then closed, are no part of the state.\<close>

definition socket_server_release :: "socket_server \<Rightarrow> socket_server option" where
  "socket_server_release ss = release_loop [0..<MAX_SOCKET] ss"

text \<open>The slot of a new descriptor, or \<open>False\<close> when the poll refuses it; \<open>None\<close> where an assertion fails.\<close>

definition new_fd :: "int \<Rightarrow> int \<Rightarrow> nat \<Rightarrow> u64 \<Rightarrow> bool \<Rightarrow> socket_server \<Rightarrow> (bool \<times> socket_server) option" where
  "new_fd sid fd protocol opaque add ss =
     (let i = HASH_ID sid; s = ss_slot ss i;
          fill = (\<lambda>ss. if s_high s \<noteq> [] \<or> s_low s \<noteq> [] then None
            else Some (True, set_slot i (s\<lparr>s_id := sid, s_fd := fd, s_protocol := protocol,
              s_p := P_size MIN_READ_BUFFER, s_opaque := opaque, s_wb_size := 0\<rparr>) ss))
      in if s_type s \<noteq> ST_RESERVE then None
         else if add then do {
           (r, ss1) \<leftarrow> os_ask ss;
           case r of
             R_ok \<Rightarrow> fill (os_do (C_sp_add fd i) ss1)
           | R_error e \<Rightarrow> Some (False, set_slot i (s\<lparr>s_type := ST_INVALID\<rparr>) ss1)
           | _ \<Rightarrow> None }
         else fill ss)"

definition set_type :: "nat \<Rightarrow> socket_type \<Rightarrow> socket_server \<Rightarrow> socket_server" where
  "set_type i t ss = set_slot i ((ss_slot ss i)\<lparr>s_type := t\<rparr>) ss"

section \<open>Sending\<close>

definition get_list :: "priority \<Rightarrow> socket \<Rightarrow> write_buffer list" where
  "get_list p s = (case p of PRIORITY_HIGH \<Rightarrow> s_high s | PRIORITY_LOW \<Rightarrow> s_low s)"

definition set_list :: "priority \<Rightarrow> write_buffer list \<Rightarrow> socket \<Rightarrow> socket" where
  "set_list p l s = (case p of PRIORITY_HIGH \<Rightarrow> s\<lparr>s_high := l\<rparr> | PRIORITY_LOW \<Rightarrow> s\<lparr>s_low := l\<rparr>)"

text \<open>The bytes \<open>write\<close> is given, of which the system takes \<open>n\<close>.\<close>

definition taken :: "write_buffer \<Rightarrow> nat \<Rightarrow> u8 list option" where
  "taken wb n = (if int n \<le> b_sz wb then mem_read (b_bytes wb) (int (b_off wb)) (int n) else None)"

function send_list_tcp :: "nat \<Rightarrow> priority \<Rightarrow> socket_server \<Rightarrow> (int \<times> socket_message \<times> socket_server) option" where
  "send_list_tcp i p ss = (let s = ss_slot ss i in case get_list p s of
       [] \<Rightarrow> Some (-1, no_message, ss)
     | tmp # rest \<Rightarrow> (case ss_os ss of
         R_error e # rs \<Rightarrow>
           let ss1 = ss\<lparr>ss_os := rs\<rparr> in
           if e_code e = EINTR then send_list_tcp i p ss1
           else if e_code e = EAGAIN then Some (-1, no_message, ss1)
           else do { (result, ss2) \<leftarrow> force_close i ss1; Some (SOCKET_CLOSE, result, ss2) }
       | R_count n # rs \<Rightarrow> (case taken tmp n of
             None \<Rightarrow> None
           | Some bs \<Rightarrow>
               let s1 = s\<lparr>s_wb_size := s_wb_size s - int n\<rparr>;
                   ss1 = os_do (C_write (s_fd s) bs) (ss\<lparr>ss_os := rs\<rparr>)
               in if int n \<noteq> b_sz tmp
                  then Some (-1, no_message,
                    set_slot i (set_list p (tmp\<lparr>b_off := b_off tmp + n, b_sz := b_sz tmp - int n\<rparr> # rest) s1) ss1)
                  else send_list_tcp i p (set_slot i (set_list p rest s1) (os_do (C_free (b_buffer tmp)) ss1)))
       | _ \<Rightarrow> None))"
  by pat_completeness auto
termination
  by (relation "measure (\<lambda>(i, p, ss). length (ss_os ss))") (auto simp: set_slot_def os_do_def)

declare send_list_tcp.simps [simp del]

text \<open>The address in the form \<open>sendto\<close> takes it; \<open>None\<close> stands for a length of 0.\<close>

definition udp_socket_address :: "nat \<Rightarrow> u8 list \<Rightarrow> u8 list option option" where
  "udp_socket_address protocol addr = (case addr of
       [] \<Rightarrow> None
     | t # rest \<Rightarrow>
         if unat t \<noteq> protocol then Some None
         else if protocol = PROTOCOL_UDP then (if 6 \<le> length rest then Some (Some (take 6 rest)) else None)
         else if protocol = PROTOCOL_UDPv6 then (if 18 \<le> length rest then Some (Some (take 18 rest)) else None)
         else Some None)"

function send_list_udp :: "nat \<Rightarrow> priority \<Rightarrow> socket_server \<Rightarrow> (int \<times> socket_message \<times> socket_server) option" where
  "send_list_udp i p ss = (let s = ss_slot ss i in case get_list p s of
       [] \<Rightarrow> Some (-1, no_message, ss)
     | tmp # rest \<Rightarrow> (case udp_socket_address (s_protocol s) (b_address tmp) of
         None \<Rightarrow> None
       | Some sa \<Rightarrow> (case ss_os ss of
           R_error e # rs \<Rightarrow> Some (-1, no_message, ss\<lparr>ss_os := rs\<rparr>)
         | R_count n # rs \<Rightarrow> (case taken tmp n of
               None \<Rightarrow> None
             | Some bs \<Rightarrow>
                 send_list_udp i p
                   (set_slot i (set_list p rest (s\<lparr>s_wb_size := s_wb_size s - b_sz tmp\<rparr>))
                     (os_do (C_free (b_buffer tmp)) (os_do (C_sendto (s_fd s) bs sa) (ss\<lparr>ss_os := rs\<rparr>)))))
         | _ \<Rightarrow> None)))"
  by pat_completeness auto
termination
  by (relation "measure (\<lambda>(i, p, ss). length (ss_os ss))") (auto simp: set_slot_def os_do_def)

declare send_list_udp.simps [simp del]

definition send_list :: "nat \<Rightarrow> priority \<Rightarrow> socket_server \<Rightarrow> (int \<times> socket_message \<times> socket_server) option" where
  "send_list i p ss =
     (if s_protocol (ss_slot ss i) = PROTOCOL_TCP then send_list_tcp i p ss else send_list_udp i p ss)"

definition list_uncomplete :: "write_buffer list \<Rightarrow> bool" where
  "list_uncomplete l = (case l of [] \<Rightarrow> False | wb # _ \<Rightarrow> 0 < b_off wb \<or> b_apart wb)"

definition raise_uncomplete :: "nat \<Rightarrow> socket_server \<Rightarrow> socket_server option" where
  "raise_uncomplete i ss = (let s = ss_slot ss i in case s_low s of
       [] \<Rightarrow> None
     | tmp # rest \<Rightarrow> if s_high s \<noteq> [] then None else Some (set_slot i (s\<lparr>s_low := rest, s_high := [tmp]\<rparr>) ss))"

definition send_buffer :: "nat \<Rightarrow> socket_server \<Rightarrow> (int \<times> socket_message \<times> socket_server) option" where
  "send_buffer i ss =
     (if list_uncomplete (s_low (ss_slot ss i)) then None
      else do {
        (t, result, ss1) \<leftarrow> send_list i PRIORITY_HIGH ss;
        if t = SOCKET_CLOSE then Some (SOCKET_CLOSE, result, ss1)
        else if s_high (ss_slot ss1 i) = [] then
          if s_low (ss_slot ss1 i) \<noteq> [] then do {
            (t2, result2, ss2) \<leftarrow> send_list i PRIORITY_LOW ss1;
            if t2 = SOCKET_CLOSE then Some (SOCKET_CLOSE, result2, ss2)
            else if list_uncomplete (s_low (ss_slot ss2 i)) then do {
              ss3 \<leftarrow> raise_uncomplete i ss2;
              Some (-1, no_message, ss3) }
            else Some (-1, no_message, ss2) }
          else
            let ss2 = os_do (C_sp_write (s_fd (ss_slot ss1 i)) i False) ss1 in
            if s_type (ss_slot ss1 i) = ST_HALFCLOSE then do {
              (result2, ss3) \<leftarrow> force_close i ss2;
              Some (SOCKET_CLOSE, result2, ss3) }
            else Some (-1, no_message, ss2)
        else Some (-1, no_message, ss1) })"

text \<open>A buffer of which \<open>n\<close> bytes were sent already.\<close>

definition append_sendbuffer ::
  "nat \<Rightarrow> priority \<Rightarrow> send_data \<Rightarrow> int \<Rightarrow> nat \<Rightarrow> u8 list \<Rightarrow> socket_server \<Rightarrow> socket_server option" where
  "append_sendbuffer i p data sz n address ss = do {
     (bs, len, user, apart) \<leftarrow> send_object_init (ss_soi ss) data sz;
     let buf = \<lparr>b_buffer = data, b_bytes = bs, b_off = n, b_sz = len - int n, b_userobject = user, b_apart = apart,
                b_address = address\<rparr>;
     let s = ss_slot ss i;
     Some (set_slot i (set_list p (get_list p s @ [buf]) (s\<lparr>s_wb_size := s_wb_size s + b_sz buf\<rparr>)) ss) }"

definition send_buffer_empty :: "socket \<Rightarrow> bool" where
  "send_buffer_empty s \<longleftrightarrow> s_high s = [] \<and> s_low s = []"

text \<open>The direct write to a TCP socket with nothing unsent: the bytes taken, or \<open>None\<close> under \<open>Some\<close> when the socket was closed.\<close>

definition write_direct ::
  "nat \<Rightarrow> u8 list \<Rightarrow> int \<Rightarrow> socket_server \<Rightarrow> ((nat, socket_message) sum \<times> socket_server) option" where
  "write_direct i bs len ss = do {
     (r, ss1) \<leftarrow> os_ask ss;
     case r of
       R_count n \<Rightarrow> do {
         out \<leftarrow> (if int n \<le> len then mem_read bs 0 (int n) else None);
         Some (Inl n, os_do (C_write (s_fd (ss_slot ss1 i)) out) ss1) }
     | R_error e \<Rightarrow>
         if e_code e = EINTR \<or> e_code e = EAGAIN then Some (Inl 0, ss1)
         else do { (result, ss2) \<leftarrow> force_close i ss1; Some (Inr result, ss2) }
     | _ \<Rightarrow> None }"

text \<open>The direct send of a UDP packet: whether all of it went out.\<close>

definition sendto_direct :: "nat \<Rightarrow> u8 list \<Rightarrow> int \<Rightarrow> u8 list \<Rightarrow> socket_server \<Rightarrow> (bool \<times> socket_server) option" where
  "sendto_direct i bs len addr ss = do {
     sa \<leftarrow> udp_socket_address (s_protocol (ss_slot ss i)) addr;
     (r, ss1) \<leftarrow> os_ask ss;
     case r of
       R_count n \<Rightarrow> do {
         out \<leftarrow> (if int n \<le> len then mem_read bs 0 (int n) else None);
         Some (int n = len, os_do (C_sendto (s_fd (ss_slot ss1 i)) out sa) ss1) }
     | R_error e \<Rightarrow> Some (False, ss1)
     | _ \<Rightarrow> None }"

definition udp_target :: "socket \<Rightarrow> u8 list option \<Rightarrow> u8 list option" where
  "udp_target s addr = (case addr of
       Some a \<Rightarrow> Some a
     | None \<Rightarrow> (case s_p s of P_address a \<Rightarrow> Some a | P_size n \<Rightarrow> None))"

definition send_now ::
  "nat \<Rightarrow> send_data \<Rightarrow> int \<Rightarrow> priority \<Rightarrow> u8 list option \<Rightarrow> socket_server \<Rightarrow> (int \<times> socket_message \<times> socket_server) option" where
  "send_now i data sz p addr ss = do {
     (bs, len, _) \<leftarrow> send_object_init (ss_soi ss) data sz;
     let on = (\<lambda>ss. Some (-1, no_message, os_do (C_sp_write (s_fd (ss_slot ss i)) i True) ss));
     if s_protocol (ss_slot ss i) = PROTOCOL_TCP then do {
       (r, ss1) \<leftarrow> write_direct i bs len ss;
       case r of
         Inr result \<Rightarrow> Some (SOCKET_CLOSE, result, os_do (C_free data) ss1)
       | Inl n \<Rightarrow>
           if int n = len then Some (-1, no_message, os_do (C_free data) ss1)
           else do { ss2 \<leftarrow> append_sendbuffer i PRIORITY_HIGH data sz n [] ss1; on ss2 } }
     else do {
       a \<leftarrow> udp_target (ss_slot ss i) addr;
       (done, ss1) \<leftarrow> sendto_direct i bs len a ss;
       if done then Some (-1, no_message, os_do (C_free data) ss1)
       else do { ss2 \<leftarrow> append_sendbuffer i p data sz 0 a ss1; on ss2 } } }"

definition send_later ::
  "nat \<Rightarrow> send_data \<Rightarrow> int \<Rightarrow> priority \<Rightarrow> u8 list option \<Rightarrow> socket_server \<Rightarrow> (int \<times> socket_message \<times> socket_server) option" where
  "send_later i data sz p addr ss = do {
     a \<leftarrow> (if s_protocol (ss_slot ss i) = PROTOCOL_TCP then Some [] else udp_target (ss_slot ss i) addr);
     ss1 \<leftarrow> append_sendbuffer i p data sz 0 a ss;
     Some (-1, no_message, ss1) }"

definition send_socket ::
  "int \<Rightarrow> send_data \<Rightarrow> int \<Rightarrow> priority \<Rightarrow> u8 list option \<Rightarrow> socket_server \<Rightarrow> (int \<times> socket_message \<times> socket_server) option" where
  "send_socket sid data sz p addr ss = do {
     let i = HASH_ID sid;
     let s = ss_slot ss i;
     _ \<leftarrow> send_object_init (ss_soi ss) data sz;
     if s_type s \<in> {ST_INVALID, ST_HALFCLOSE, ST_PACCEPT, ST_PLISTEN, ST_LISTEN} \<or> s_id s \<noteq> sid
     then Some (-1, no_message, os_do (C_free data) ss)
     else if send_buffer_empty s \<and> s_type s = ST_CONNECTED then send_now i data sz p addr ss
     else send_later i data sz p addr ss }"

end
