(* ===== verification/Socket_Poll.thy ===== *)
theory Socket_Poll
  imports Socket_Server
begin

text \<open>
  The rest of \<open>socket_server.c\<close>: the requests as the socket thread carries them out, the events of
  the poll, the loop \<open>socket_server_poll\<close>, and the functions by which other threads make requests.
\<close>

section \<open>Requests\<close>

definition limit_text :: "u8 list option" where
  "limit_text = literal ''reach skynet socket number limit''"

definition open_socket :: "int \<Rightarrow> u64 \<Rightarrow> socket_server \<Rightarrow> (int \<times> socket_message \<times> socket_server) option" where
  "open_socket sid opaque ss = do {
     let i = HASH_ID sid;
     let result = \<lparr>so_id = sid, so_opaque = opaque, so_ud = 0, so_data = None\<rparr>;
     let failed = (\<lambda>text ss. Some (SOCKET_ERROR, result\<lparr>so_data := text\<rparr>, set_type i ST_INVALID ss));
     (r, ss1) \<leftarrow> os_ask ss;
     case r of
       R_text text \<Rightarrow> failed text ss1
     | R_connected fd text \<Rightarrow> do {
         (ok, ss2) \<leftarrow> new_fd sid fd PROTOCOL_TCP opaque True ss1;
         if ok then Some (SOCKET_OPEN, result\<lparr>so_data := text\<rparr>, set_type i ST_CONNECTED ss2)
         else failed limit_text (os_do (C_close fd) ss2) }
     | R_connecting fd \<Rightarrow> do {
         (ok, ss2) \<leftarrow> new_fd sid fd PROTOCOL_TCP opaque True ss1;
         if ok then Some (-1, no_message, os_do (C_sp_write fd i True) (set_type i ST_CONNECTING ss2))
         else failed limit_text (os_do (C_close fd) ss2) }
     | _ \<Rightarrow> None }"

definition listen_socket :: "int \<Rightarrow> int \<Rightarrow> u64 \<Rightarrow> socket_server \<Rightarrow> (int \<times> socket_message \<times> socket_server) option" where
  "listen_socket sid fd opaque ss = do {
     (ok, ss1) \<leftarrow> new_fd sid fd PROTOCOL_TCP opaque False ss;
     if ok then Some (-1, no_message, set_type (HASH_ID sid) ST_PLISTEN ss1)
     else Some (SOCKET_ERROR, \<lparr>so_id = sid, so_opaque = opaque, so_ud = 0, so_data = limit_text\<rparr>,
            set_type (HASH_ID sid) ST_INVALID (os_do (C_close fd) ss1)) }"

definition close_socket :: "int \<Rightarrow> bool \<Rightarrow> u64 \<Rightarrow> socket_server \<Rightarrow> (int \<times> socket_message \<times> socket_server) option" where
  "close_socket sid shutdown opaque ss =
     (let i = HASH_ID sid; s = ss_slot ss i; result = \<lparr>so_id = sid, so_opaque = opaque, so_ud = 0, so_data = None\<rparr> in
      if s_type s = ST_INVALID \<or> s_id s \<noteq> sid then Some (SOCKET_CLOSE, result, ss)
      else do {
        (t, r, ss1) \<leftarrow> (if send_buffer_empty s then Some (-1, no_message, ss) else send_buffer i ss);
        if t \<noteq> -1 then Some (t, r, ss1)
        else if shutdown \<or> send_buffer_empty (ss_slot ss1 i) then do {
          (_, ss2) \<leftarrow> force_close i ss1;
          Some (SOCKET_CLOSE, result, ss2) }
        else Some (-1, no_message, set_type i ST_HALFCLOSE ss1) })"

definition bind_socket :: "int \<Rightarrow> int \<Rightarrow> u64 \<Rightarrow> socket_server \<Rightarrow> (int \<times> socket_message \<times> socket_server) option" where
  "bind_socket sid fd opaque ss = do {
     (ok, ss1) \<leftarrow> new_fd sid fd PROTOCOL_TCP opaque True ss;
     if ok then Some (SOCKET_OPEN, \<lparr>so_id = sid, so_opaque = opaque, so_ud = 0, so_data = literal ''binding''\<rparr>,
            set_type (HASH_ID sid) ST_BIND ss1)
     else Some (SOCKET_ERROR, \<lparr>so_id = sid, so_opaque = opaque, so_ud = 0, so_data = limit_text\<rparr>, ss1) }"

definition start_socket :: "int \<Rightarrow> u64 \<Rightarrow> socket_server \<Rightarrow> (int \<times> socket_message \<times> socket_server) option" where
  "start_socket sid opaque ss =
     (let i = HASH_ID sid; s = ss_slot ss i;
          result = (\<lambda>text. \<lparr>so_id = sid, so_opaque = opaque, so_ud = 0, so_data = text\<rparr>) in
      if s_type s = ST_INVALID \<or> s_id s \<noteq> sid then Some (SOCKET_ERROR, result (literal ''invalid socket''), ss)
      else if s_type s = ST_PACCEPT \<or> s_type s = ST_PLISTEN then do {
        (r, ss1) \<leftarrow> os_ask ss;
        case r of
          R_error e \<Rightarrow> do {
            (m, ss2) \<leftarrow> force_close i ss1;
            Some (SOCKET_ERROR, m\<lparr>so_data := Some (strerror e)\<rparr>, ss2) }
        | R_ok \<Rightarrow>
            Some (SOCKET_OPEN, result (literal ''start''),
              set_slot i (s\<lparr>s_type := (if s_type s = ST_PACCEPT then ST_CONNECTED else ST_LISTEN), s_opaque := opaque\<rparr>)
                (os_do (C_sp_add (s_fd s) i) ss1))
        | _ \<Rightarrow> None }
      else if s_type s = ST_CONNECTED then
        Some (SOCKET_OPEN, result (literal ''transfer''), set_slot i (s\<lparr>s_opaque := opaque\<rparr>) ss)
      else Some (-1, no_message, ss))"

definition setopt_socket :: "int \<Rightarrow> int \<Rightarrow> int \<Rightarrow> socket_server \<Rightarrow> socket_server" where
  "setopt_socket sid what v ss =
     (let s = ss_slot ss (HASH_ID sid) in
      if s_type s = ST_INVALID \<or> s_id s \<noteq> sid then ss else os_do (C_setsockopt (s_fd s) what v) ss)"

definition add_udp_socket :: "int \<Rightarrow> int \<Rightarrow> bool \<Rightarrow> u64 \<Rightarrow> socket_server \<Rightarrow> socket_server option" where
  "add_udp_socket sid fd inet6 opaque ss = do {
     let i = HASH_ID sid;
     (ok, ss1) \<leftarrow> new_fd sid fd (if inet6 then PROTOCOL_UDPv6 else PROTOCOL_UDP) opaque True ss;
     if ok then Some (set_slot i ((ss_slot ss1 i)\<lparr>s_type := ST_CONNECTED, s_p := P_address (replicate 19 0)\<rparr>) ss1)
     else Some (set_type i ST_INVALID (os_do (C_close fd) ss1)) }"

text \<open>The first bytes of the address are overwritten, seven of them for IPv4 and all 19 for IPv6.\<close>

definition set_udp_address :: "int \<Rightarrow> u8 list \<Rightarrow> socket_server \<Rightarrow> (int \<times> socket_message \<times> socket_server) option" where
  "set_udp_address sid addr ss =
     (let i = HASH_ID sid; s = ss_slot ss i in
      if s_type s = ST_INVALID \<or> s_id s \<noteq> sid then Some (-1, no_message, ss)
      else if addr = [] then None
      else if unat (hd addr) \<noteq> s_protocol s then Some (SOCKET_ERROR, message_of s (literal ''protocol mismatch''), ss)
      else (case s_p s of
          P_size n \<Rightarrow> None
        | P_address a \<Rightarrow>
            let n = (if unat (hd addr) = PROTOCOL_UDP then 7 else 19) in
            if length addr < n then None
            else Some (-1, no_message, set_slot i (s\<lparr>s_p := P_address (take n addr @ drop n a)\<rparr>) ss)))"

definition do_request :: "request \<Rightarrow> socket_server \<Rightarrow> (int \<times> socket_message \<times> socket_server) option" where
  "do_request req ss = (case req of
       Req_S sid opaque \<Rightarrow> start_socket sid opaque ss
     | Req_B sid fd opaque \<Rightarrow> bind_socket sid fd opaque ss
     | Req_L sid fd opaque \<Rightarrow> listen_socket sid fd opaque ss
     | Req_K sid shutdown opaque \<Rightarrow> close_socket sid shutdown opaque ss
     | Req_O sid port opaque host \<Rightarrow> open_socket sid opaque ss
     | Req_X \<Rightarrow> Some (SOCKET_EXIT, no_message, ss)
     | Req_D sid data sz \<Rightarrow> send_socket sid data sz PRIORITY_HIGH None ss
     | Req_P sid data sz \<Rightarrow> send_socket sid data sz PRIORITY_LOW None ss
     | Req_A sid data sz addr \<Rightarrow> send_socket sid data sz PRIORITY_HIGH (Some addr) ss
     | Req_C sid addr \<Rightarrow> set_udp_address sid addr ss
     | Req_T sid what v \<Rightarrow> Some (-1, no_message, setopt_socket sid what v ss)
     | Req_U sid fd inet6 opaque \<Rightarrow> do { ss1 \<leftarrow> add_udp_socket sid fd inet6 opaque ss; Some (-1, no_message, ss1) })"

definition ctrl_cmd :: "socket_server \<Rightarrow> (int \<times> socket_message \<times> socket_server) option" where
  "ctrl_cmd ss = (case ss_pipe ss of
       [] \<Rightarrow> None
     | req # reqs \<Rightarrow> do_request req (ss\<lparr>ss_pipe := reqs\<rparr>))"

section \<open>Events\<close>

definition forward_message_tcp :: "nat \<Rightarrow> socket_server \<Rightarrow> (int \<times> socket_message \<times> socket_server) option" where
  "forward_message_tcp i ss = (let s = ss_slot ss i in case s_p s of
       P_address a \<Rightarrow> None
     | P_size sz \<Rightarrow> do {
         (r, ss1) \<leftarrow> os_ask ss;
         case r of
           R_error e \<Rightarrow>
             if e_code e = EINTR \<or> e_code e = EAGAIN then Some (-1, no_message, ss1)
             else do {
               (m, ss2) \<leftarrow> force_close i ss1;
               Some (SOCKET_ERROR, m\<lparr>so_data := Some (strerror e)\<rparr>, ss2) }
         | R_bytes bs \<Rightarrow>
             let n = int (length bs) in
             if sz < n then None
             else if n = 0 then do { (m, ss2) \<leftarrow> force_close i ss1; Some (SOCKET_CLOSE, m, ss2) }
             else if s_type s = ST_HALFCLOSE then Some (-1, no_message, ss1)
             else if n = sz \<and> 2 ^ 31 \<le> sz * 2 then None
             else let sz1 = (if n = sz then sz * 2 else if MIN_READ_BUFFER < sz \<and> n * 2 < sz then sz div 2 else sz)
               in Some (SOCKET_DATA, \<lparr>so_id = s_id s, so_opaque = s_opaque s, so_ud = n, so_data = Some bs\<rparr>,
                    set_slot i (s\<lparr>s_p := P_size sz1\<rparr>) ss1)
         | _ \<Rightarrow> None })"

text \<open>A sender's address: the protocol, then port and address as they came.\<close>

definition gen_udp_address :: "nat \<Rightarrow> u8 list \<Rightarrow> u8 list" where
  "gen_udp_address protocol sa = word_of_nat protocol # sa"

definition forward_message_udp :: "nat \<Rightarrow> socket_server \<Rightarrow> (int \<times> socket_message \<times> socket_server) option" where
  "forward_message_udp i ss = do {
     let s = ss_slot ss i;
     (r, ss1) \<leftarrow> os_ask ss;
     case r of
       R_error e \<Rightarrow>
         if e_code e = EINTR \<or> e_code e = EAGAIN then Some (-1, no_message, ss1)
         else do {
           (m, ss2) \<leftarrow> force_close i ss1;
           Some (SOCKET_ERROR, m\<lparr>so_data := Some (strerror e)\<rparr>, ss2) }
     | R_packet bs v4 sa \<Rightarrow>
         let protocol = (if v4 then PROTOCOL_UDP else PROTOCOL_UDPv6) in
         if s_protocol s \<noteq> protocol then Some (-1, no_message, ss1)
         else Some (SOCKET_UDP, \<lparr>so_id = s_id s, so_opaque = s_opaque s, so_ud = int (length bs),
                so_data = Some (bs @ gen_udp_address protocol sa)\<rparr>, ss1)
     | _ \<Rightarrow> None }"

text \<open>\<open>R_error\<close> is the error of the connection, \<open>R_text\<close> the name of the peer if it can be found.\<close>

definition report_connect :: "nat \<Rightarrow> socket_server \<Rightarrow> (int \<times> socket_message \<times> socket_server) option" where
  "report_connect i ss = do {
     let s = ss_slot ss i;
     (r, ss1) \<leftarrow> os_ask ss;
     case r of
       R_error e \<Rightarrow> do {
         (m, ss2) \<leftarrow> force_close i ss1;
         Some (SOCKET_ERROR, m\<lparr>so_data := Some (strerror e)\<rparr>, ss2) }
     | R_text text \<Rightarrow>
         let ss2 = set_slot i (s\<lparr>s_type := ST_CONNECTED\<rparr>) ss1;
             ss3 = (if send_buffer_empty s then os_do (C_sp_write (s_fd s) i False) ss2 else ss2)
         in Some (SOCKET_OPEN, message_of s text, ss3)
     | _ \<Rightarrow> None }"

text \<open>The first component is 1 for an accepted client, -1 at the limit of files, 0 for a failure.\<close>

definition report_accept :: "nat \<Rightarrow> socket_server \<Rightarrow> (int \<times> socket_message \<times> socket_server) option" where
  "report_accept i ss = do {
     let s = ss_slot ss i;
     (r, ss1) \<leftarrow> os_ask ss;
     case r of
       R_error e \<Rightarrow>
         if e_code e = EMFILE then Some (-1, message_of s (Some (strerror e)), ss1) else Some (0, no_message, ss1)
     | R_accepted fd text \<Rightarrow>
         let (sid, ss2) = reserve_id ss1 in
         if sid < 0 then Some (0, no_message, os_do (C_close fd) ss2)
         else do {
           (ok, ss3) \<leftarrow> new_fd sid fd PROTOCOL_TCP (s_opaque s) False ss2;
           if ok then Some (1, \<lparr>so_id = s_id s, so_opaque = s_opaque s, so_ud = sid, so_data = text\<rparr>,
                  set_type (HASH_ID sid) ST_PACCEPT ss3)
           else Some (0, no_message, os_do (C_close fd) ss3) }
     | _ \<Rightarrow> None }"

fun clear_first :: "(nat \<Rightarrow> socket) \<Rightarrow> int \<Rightarrow> event list \<Rightarrow> event list" where
  "clear_first slot sid [] = []"
| "clear_first slot sid (e # es) = (case e_s e of
       Some i \<Rightarrow> if s_type (slot i) = ST_INVALID \<and> s_id (slot i) = sid then e\<lparr>e_s := None\<rparr> # es
                else e # clear_first slot sid es
     | None \<Rightarrow> e # clear_first slot sid es)"

definition clear_closed_event :: "socket_message \<Rightarrow> int \<Rightarrow> socket_server \<Rightarrow> socket_server" where
  "clear_closed_event result t ss =
     (if t = SOCKET_CLOSE \<or> t = SOCKET_ERROR
      then ss\<lparr>ss_ev := take (ss_event_index ss) (ss_ev ss) @
                clear_first (ss_slot ss) (so_id result) (drop (ss_event_index ss) (ss_ev ss))\<rparr>
      else ss)"

text \<open>The event at \<open>k\<close>, with \<open>event_index\<close> already behind it. \<open>-2\<close> stands for going round the loop again.\<close>

definition poll_event :: "nat \<Rightarrow> event \<Rightarrow> nat \<Rightarrow> socket_server \<Rightarrow> (int \<times> socket_message \<times> socket_server) option" where
  "poll_event k e i ss =
     (let s = ss_slot ss i;
          again = (\<lambda>(t, m, ss). Some (if t = -1 then -2 else t, m, ss))
      in case s_type s of
        ST_CONNECTING \<Rightarrow> report_connect i ss
      | ST_LISTEN \<Rightarrow> do {
          (ok, m, ss1) \<leftarrow> report_accept i ss;
          Some (if 0 < ok then SOCKET_ACCEPT else if ok < 0 then SOCKET_ERROR else -2, m, ss1) }
      | ST_INVALID \<Rightarrow> Some (-2, no_message, ss)
      | _ \<Rightarrow>
          if e_read e then
            if s_protocol s = PROTOCOL_TCP then do {
              (t, m, ss1) \<leftarrow> forward_message_tcp i ss;
              again (t, m, if e_write e \<and> t \<noteq> SOCKET_CLOSE \<and> t \<noteq> SOCKET_ERROR
                then ss1\<lparr>ss_ev := (ss_ev ss1)[k := e\<lparr>e_read := False\<rparr>], ss_event_index := k\<rparr> else ss1) }
            else do {
              (t, m, ss1) \<leftarrow> forward_message_udp i ss;
              if t = SOCKET_UDP then Some (SOCKET_UDP, m, ss1\<lparr>ss_event_index := k\<rparr>)
              else again (t, m, if e_write e \<and> t \<noteq> SOCKET_CLOSE \<and> t \<noteq> SOCKET_ERROR
                then ss1\<lparr>ss_ev := (ss_ev ss1)[k := e\<lparr>e_read := False\<rparr>], ss_event_index := k\<rparr> else ss1) }
          else if e_write e then do { r \<leftarrow> send_buffer i ss; again r }
          else Some (-2, no_message, ss))"

text \<open>One turn of the loop; the flag is \<open>*more\<close>. \<open>None\<close> as the type goes round again.\<close>

definition poll_turn ::
  "bool \<Rightarrow> socket_server \<Rightarrow> (int option \<times> socket_message \<times> bool \<times> socket_server) option" where
  "poll_turn again ss =
     (if ss_checkctrl ss \<and> ss_pipe ss \<noteq> [] then do {
        (t, m, ss1) \<leftarrow> ctrl_cmd ss;
        if t \<noteq> -1 then Some (Some t, m, again, clear_closed_event m t ss1) else Some (None, m, again, ss1) }
      else do {
        let ss1 = ss\<lparr>ss_checkctrl := False\<rparr>;
        (fail, again1, ss2) \<leftarrow>
          (if ss_event_index ss1 = length (ss_ev ss1) then do {
             (r, ss2) \<leftarrow> os_ask ss1;
             case r of
               R_events es \<Rightarrow> Some (es = [], False, ss2\<lparr>ss_ev := es, ss_event_index := 0, ss_checkctrl := True\<rparr>)
             | R_error e \<Rightarrow> Some (True, False, ss2\<lparr>ss_ev := [], ss_event_index := 0, ss_checkctrl := True\<rparr>)
             | _ \<Rightarrow> None }
           else Some (False, again, ss1));
        if fail then Some (Some (-1), no_message, again1, ss2)
        else if \<not> ss_event_index ss2 < length (ss_ev ss2) then None
        else do {
          let k = ss_event_index ss2;
          let e = ss_ev ss2 ! k;
          let ss3 = ss2\<lparr>ss_event_index := k + 1\<rparr>;
          case e_s e of
            None \<Rightarrow> Some (None, no_message, again1, ss3)
          | Some i \<Rightarrow> do {
              (t, m, ss4) \<leftarrow> poll_event k e i ss3;
              Some (if t = -2 then None else Some t, m, again1, ss4) } } })"

partial_function (option) poll_loop ::
  "bool \<Rightarrow> socket_server \<Rightarrow> ((int \<times> socket_message \<times> bool) \<times> socket_server) option" where
  "poll_loop again ss = do {
     (t, m, again1, ss1) \<leftarrow> poll_turn again ss;
     case t of Some ty \<Rightarrow> Some ((ty, m, again1), ss1) | None \<Rightarrow> poll_loop again1 ss1 }"

definition socket_server_poll :: "socket_server \<Rightarrow> ((int \<times> socket_message \<times> bool) \<times> socket_server) option" where
  "socket_server_poll ss = poll_loop True ss"

section \<open>Making requests\<close>

definition send_request :: "request \<Rightarrow> socket_server \<Rightarrow> socket_server" where
  "send_request req ss = ss\<lparr>ss_pipe := ss_pipe ss @ [req]\<rparr>"

text \<open>A request that needs a slot: the number of the socket, or -1.\<close>

definition reserved_request :: "(int \<Rightarrow> request) \<Rightarrow> socket_server \<Rightarrow> int \<times> socket_server" where
  "reserved_request req ss =
     (let (sid, ss1) = reserve_id ss in if sid < 0 then (-1, ss1) else (sid, send_request (req sid) ss1))"

text \<open>\<open>sizeof(req->u.open)\<close> is 24.\<close>

definition socket_server_connect :: "u64 \<Rightarrow> string \<Rightarrow> int \<Rightarrow> socket_server \<Rightarrow> int \<times> socket_server" where
  "socket_server_connect opaque addr port ss =
     (if 256 \<le> length addr + 24 then (-1, ss)
      else reserved_request (\<lambda>sid. Req_O sid port opaque addr) ss)"

definition known_socket :: "int \<Rightarrow> socket_server \<Rightarrow> bool" where
  "known_socket sid ss \<longleftrightarrow> s_id (ss_slot ss (HASH_ID sid)) = sid \<and> s_type (ss_slot ss (HASH_ID sid)) \<noteq> ST_INVALID"

definition free_buffer :: "send_data \<Rightarrow> int \<Rightarrow> socket_server \<Rightarrow> socket_server option" where
  "free_buffer data sz ss = do {
     _ \<leftarrow> send_object_init (ss_soi ss) data sz;
     Some (os_do (C_free data) ss) }"

definition socket_server_send :: "int \<Rightarrow> send_data \<Rightarrow> int \<Rightarrow> socket_server \<Rightarrow> (int \<times> socket_server) option" where
  "socket_server_send sid data sz ss =
     (if \<not> known_socket sid ss then do { ss1 \<leftarrow> free_buffer data sz ss; Some (-1, ss1) }
      else Some (s_wb_size (ss_slot ss (HASH_ID sid)), send_request (Req_D sid data sz) ss))"

definition socket_server_send_lowpriority :: "int \<Rightarrow> send_data \<Rightarrow> int \<Rightarrow> socket_server \<Rightarrow> socket_server option" where
  "socket_server_send_lowpriority sid data sz ss =
     (if \<not> known_socket sid ss then free_buffer data sz ss
      else Some (send_request (Req_P sid data sz) ss))"

definition socket_server_exit :: "socket_server \<Rightarrow> socket_server" where
  "socket_server_exit ss = send_request Req_X ss"

definition socket_server_close :: "u64 \<Rightarrow> int \<Rightarrow> socket_server \<Rightarrow> socket_server" where
  "socket_server_close opaque sid ss = send_request (Req_K sid False opaque) ss"

definition socket_server_shutdown :: "u64 \<Rightarrow> int \<Rightarrow> socket_server \<Rightarrow> socket_server" where
  "socket_server_shutdown opaque sid ss = send_request (Req_K sid True opaque) ss"

text \<open>
  What \<open>getaddrinfo\<close> finds for the host and port is a reply of the system; the flag is whether it is an address of IPv6.
\<close>

definition do_bind :: "socket_server \<Rightarrow> (int \<times> bool \<times> socket_server) option" where
  "do_bind ss = do {
     (found, ss1) \<leftarrow> os_ask ss;
     case found of
       R_error e \<Rightarrow> Some (-1, False, ss1)
     | R_family inet6 \<Rightarrow> do {
         (made, ss2) \<leftarrow> os_ask ss1;
         case made of
           R_error e \<Rightarrow> Some (-1, inet6, ss2)
         | R_fd fd \<Rightarrow> do {
             (reuse, ss3) \<leftarrow> os_ask ss2;
             case reuse of
               R_error e \<Rightarrow> Some (-1, inet6, os_do (C_close fd) ss3)
             | R_ok \<Rightarrow> do {
                 (bound, ss4) \<leftarrow> os_ask ss3;
                 case bound of
                   R_error e \<Rightarrow> Some (-1, inet6, os_do (C_close fd) ss4)
                 | R_ok \<Rightarrow> Some (fd, inet6, ss4)
                 | _ \<Rightarrow> None }
             | _ \<Rightarrow> None }
         | _ \<Rightarrow> None }
     | _ \<Rightarrow> None }"

definition do_listen :: "socket_server \<Rightarrow> (int \<times> socket_server) option" where
  "do_listen ss = do {
     (fd, _, ss1) \<leftarrow> do_bind ss;
     if fd < 0 then Some (-1, ss1)
     else do {
       (r, ss2) \<leftarrow> os_ask ss1;
       case r of
         R_error e \<Rightarrow> Some (-1, os_do (C_close fd) ss2)
       | R_ok \<Rightarrow> Some (fd, ss2)
       | _ \<Rightarrow> None } }"

definition socket_server_listen :: "u64 \<Rightarrow> socket_server \<Rightarrow> (int \<times> socket_server) option" where
  "socket_server_listen opaque ss = do {
     (fd, ss1) \<leftarrow> do_listen ss;
     if fd < 0 then Some (-1, ss1)
     else let (sid, ss2) = reserve_id ss1 in
          if sid < 0 then Some (sid, os_do (C_close fd) ss2) else Some (sid, send_request (Req_L sid fd opaque) ss2) }"

definition socket_server_bind :: "u64 \<Rightarrow> int \<Rightarrow> socket_server \<Rightarrow> int \<times> socket_server" where
  "socket_server_bind opaque fd ss = reserved_request (\<lambda>sid. Req_B sid fd opaque) ss"

definition socket_server_start :: "u64 \<Rightarrow> int \<Rightarrow> socket_server \<Rightarrow> socket_server" where
  "socket_server_start opaque sid ss = send_request (Req_S sid opaque) ss"

definition TCP_NODELAY :: int where "TCP_NODELAY = 1"

definition socket_server_nodelay :: "int \<Rightarrow> socket_server \<Rightarrow> socket_server" where
  "socket_server_nodelay sid ss = send_request (Req_T sid TCP_NODELAY 1) ss"

definition socket_server_userobject :: "socket_object_interface \<Rightarrow> socket_server \<Rightarrow> socket_server" where
  "socket_server_userobject soi ss = ss\<lparr>ss_soi := Some soi\<rparr>"

text \<open>\<open>bound\<close> is \<open>port != 0 || addr != NULL\<close>.\<close>

definition socket_server_udp :: "u64 \<Rightarrow> bool \<Rightarrow> socket_server \<Rightarrow> (int \<times> socket_server) option" where
  "socket_server_udp opaque bound ss = do {
     (fd, inet6, ss1) \<leftarrow> (if bound then do_bind ss
       else do {
         (r, ss1) \<leftarrow> os_ask ss;
         case r of R_error e \<Rightarrow> Some (-1, False, ss1) | R_fd fd \<Rightarrow> Some (fd, False, ss1) | _ \<Rightarrow> None });
     if fd < 0 then Some (-1, ss1)
     else let (sid, ss2) = reserve_id ss1 in
          if sid < 0 then Some (-1, os_do (C_close fd) ss2) else Some (sid, send_request (Req_U sid fd inet6 opaque) ss2) }"

definition address_size :: "u8 list \<Rightarrow> nat option" where
  "address_size addr = (case addr of
       [] \<Rightarrow> None
     | t # _ \<Rightarrow> if unat t = PROTOCOL_UDP then Some 7 else if unat t = PROTOCOL_UDPv6 then Some 19 else None)"

definition socket_server_udp_send ::
  "int \<Rightarrow> u8 list \<Rightarrow> send_data \<Rightarrow> int \<Rightarrow> socket_server \<Rightarrow> (int \<times> socket_server) option" where
  "socket_server_udp_send sid addr data sz ss =
     (if \<not> known_socket sid ss then do { ss1 \<leftarrow> free_buffer data sz ss; Some (-1, ss1) }
      else if addr = [] then None
      else case address_size addr of
        None \<Rightarrow> do { ss1 \<leftarrow> free_buffer data sz ss; Some (-1, ss1) }
      | Some n \<Rightarrow>
          if length addr < n then None
          else Some (s_wb_size (ss_slot ss (HASH_ID sid)), send_request (Req_A sid data sz (take n addr)) ss))"

text \<open>The address \<open>getaddrinfo\<close> finds first is an argument, \<open>None\<close> where it finds none of the two families.\<close>

definition socket_server_udp_connect :: "int \<Rightarrow> (nat \<times> u8 list) option \<Rightarrow> socket_server \<Rightarrow> int \<times> socket_server" where
  "socket_server_udp_connect sid found ss = (case found of
       None \<Rightarrow> (-1, ss)
     | Some (protocol, sa) \<Rightarrow> (0, send_request (Req_C sid (gen_udp_address protocol sa)) ss))"

definition socket_server_udp_address :: "socket_message \<Rightarrow> u8 list option option" where
  "socket_server_udp_address msg = do {
     bs \<leftarrow> so_data msg;
     let address = drop (nat (so_ud msg)) bs;
     if so_ud msg < 0 \<or> address = [] then None
     else Some (case address_size address of Some n \<Rightarrow> Some (take n address) | None \<Rightarrow> None) }"

end
