(* ===== verification/Socket_Stream.thy ===== *)
theory Socket_Stream
  imports Socket_Poll "HOL-Library.Multiset"
begin

text \<open>
  What a TCP connection carries: whatever part of each write the system takes, the bytes on the wire are
  whole messages one after the other, in the order of each priority, and every buffer is freed once.
\<close>

section \<open>Buffers\<close>

definition whole :: "write_buffer \<Rightarrow> u8 list" where
  "whole b = take (b_off b + nat (b_sz b)) (b_bytes b)"

definition pending :: "write_buffer \<Rightarrow> u8 list" where
  "pending b = drop (b_off b) (whole b)"

definition buf_ok :: "write_buffer \<Rightarrow> bool" where
  "buf_ok b \<longleftrightarrow> 0 \<le> b_sz b \<and> int (b_off b) + b_sz b \<le> int (length (b_bytes b)) \<and> \<not> b_apart b"

abbreviation fresh :: "write_buffer \<Rightarrow> bool" where
  "fresh b \<equiv> b_off b = 0"

definition rest_bytes :: "write_buffer list \<Rightarrow> u8 list" where
  "rest_bytes l = concat (map pending l)"

lemma rest_bytes_simps [simp]: "rest_bytes [] = []" "rest_bytes (b # l) = pending b @ rest_bytes l"
  "rest_bytes (l @ l') = rest_bytes l @ rest_bytes l'"
  by (simp_all add: rest_bytes_def)

lemma pending_fresh: "fresh b \<Longrightarrow> pending b = whole b"
  by (simp add: pending_def)

lemma rest_fresh: "\<forall>b \<in> set l. fresh b \<Longrightarrow> rest_bytes l = concat (map whole l)"
  by (induction l) (simp_all add: pending_fresh)

lemma length_pending: "buf_ok b \<Longrightarrow> int (length (pending b)) = b_sz b"
  by (auto simp: pending_def whole_def buf_ok_def min_def)

lemma taken_pending:
  assumes "buf_ok b" "taken b n = Some bs"
  shows "int n \<le> b_sz b" "bs = take n (pending b)"
proof -
  show n: "int n \<le> b_sz b" using assms(2) by (auto simp: taken_def split: if_splits)
  then have "n \<le> nat (b_sz b)" by simp
  moreover have "bs = take n (drop (b_off b) (b_bytes b))"
    using assms(2) n by (auto simp: taken_def mem_read_def split: if_splits)
  ultimately show "bs = take n (pending b)" by (simp add: pending_def whole_def drop_take)
qed

lemma advance_buffer:
  assumes "buf_ok b" "int n \<le> b_sz b"
  shows "buf_ok (b\<lparr>b_off := b_off b + n, b_sz := b_sz b - int n\<rparr>)"
    "whole (b\<lparr>b_off := b_off b + n, b_sz := b_sz b - int n\<rparr>) = whole b"
    "pending (b\<lparr>b_off := b_off b + n, b_sz := b_sz b - int n\<rparr>) = drop n (pending b)"
proof -
  have "nat (b_sz b - int n) = nat (b_sz b) - n" "n \<le> nat (b_sz b)" using assms by (auto simp: buf_ok_def)
  then show "buf_ok (b\<lparr>b_off := b_off b + n, b_sz := b_sz b - int n\<rparr>)"
    "whole (b\<lparr>b_off := b_off b + n, b_sz := b_sz b - int n\<rparr>) = whole b"
    "pending (b\<lparr>b_off := b_off b + n, b_sz := b_sz b - int n\<rparr>) = drop n (pending b)"
    using assms by (auto simp: buf_ok_def whole_def pending_def add.commute)
qed

section \<open>What a trace shows\<close>

fun written :: "int \<Rightarrow> os_call list \<Rightarrow> u8 list" where
  "written fd [] = []"
| "written fd (C_write f bs # cs) = (if f = fd then bs @ written fd cs else written fd cs)"
| "written fd (c # cs) = written fd cs"

fun freed :: "os_call list \<Rightarrow> send_data list" where
  "freed [] = []"
| "freed (C_free d # cs) = d # freed cs"
| "freed (c # cs) = freed cs"

lemma written_append [simp]: "written fd (a @ b) = written fd a @ written fd b"
  by (induction fd a rule: written.induct) simp_all

lemma freed_append [simp]: "freed (a @ b) = freed a @ freed b"
  by (induction a rule: freed.induct) simp_all

section \<open>Sending a list\<close>

text \<open>The slot of a socket whose lists are in order: only the first buffer to go can be partly sent.\<close>

definition lists_ok :: "socket \<Rightarrow> bool" where
  "lists_ok s \<longleftrightarrow> (\<forall>b \<in> set (s_high s) \<union> set (s_low s). buf_ok b) \<and>
     (\<forall>b \<in> set (tl (s_high s)) \<union> set (s_low s). fresh b) \<and>
     s_wb_size s = int (length (rest_bytes (s_high s))) + int (length (rest_bytes (s_low s)))"

lemma list_access [simp]:
  "get_list p (set_list p l s) = l"
  "s_fd (set_list p l s) = s_fd s" "s_id (set_list p l s) = s_id s" "s_type (set_list p l s) = s_type s"
  "s_protocol (set_list p l s) = s_protocol s" "s_opaque (set_list p l s) = s_opaque s"
  "s_wb_size (set_list p l s) = s_wb_size s" "s_p (set_list p l s) = s_p s"
  "set_list p l (set_list p l' s) = set_list p l s"
  "set_list p l (s\<lparr>s_wb_size := w\<rparr>) = (set_list p l s)\<lparr>s_wb_size := w\<rparr>"
  "get_list p (s\<lparr>s_wb_size := w\<rparr>) = get_list p s"
  by (cases p; simp add: get_list_def set_list_def)+

lemma set_slot_access [simp]:
  "ss_slot (set_slot i s ss) = (ss_slot ss)(i := s)" "ss_os (set_slot i s ss) = ss_os ss"
  "ss_trace (set_slot i s ss) = ss_trace ss" "ss_soi (set_slot i s ss) = ss_soi ss"
  "ss_pipe (set_slot i s ss) = ss_pipe ss" "ss_alloc_id (set_slot i s ss) = ss_alloc_id ss"
  "set_slot i s (set_slot i s' ss) = set_slot i s ss"
  by (simp_all add: set_slot_def)

lemma os_do_access [simp]:
  "ss_slot (os_do c ss) = ss_slot ss" "ss_os (os_do c ss) = ss_os ss" "ss_trace (os_do c ss) = ss_trace ss @ [c]"
  "ss_soi (os_do c ss) = ss_soi ss" "ss_pipe (os_do c ss) = ss_pipe ss" "ss_alloc_id (os_do c ss) = ss_alloc_id ss"
  by (simp_all add: os_do_def)

text \<open>
  A list that was sent as far as the system took it: its first buffers are gone and freed,
  the first that is left may be partly sent, and the bytes written are the bytes missing.
\<close>

definition list_sent :: "nat \<Rightarrow> priority \<Rightarrow> socket_server \<Rightarrow> socket_server \<Rightarrow> bool" where
  "list_sent i p ss ss' \<longleftrightarrow> (\<exists>gone l t w.
     ss_slot ss' = (ss_slot ss)(i := (set_list p l (ss_slot ss i))\<lparr>s_wb_size := w\<rparr>) \<and>
     ss_trace ss' = ss_trace ss @ t \<and> ss_soi ss' = ss_soi ss \<and> ss_pipe ss' = ss_pipe ss \<and>
     map whole (get_list p (ss_slot ss i)) = gone @ map whole l \<and>
     rest_bytes (get_list p (ss_slot ss i)) = written (s_fd (ss_slot ss i)) t @ rest_bytes l \<and>
     map b_buffer (get_list p (ss_slot ss i)) = freed t @ map b_buffer l \<and>
     (\<forall>b \<in> set l. buf_ok b) \<and> (\<forall>b \<in> set (tl l). fresh b) \<and>
     s_wb_size (ss_slot ss i) - int (length (rest_bytes (get_list p (ss_slot ss i)))) = w - int (length (rest_bytes l)))"

lemma list_sentI:
  assumes "ss_slot ss' = (ss_slot ss)(i := (set_list p l (ss_slot ss i))\<lparr>s_wb_size := w\<rparr>)"
    "ss_trace ss' = ss_trace ss @ t" "ss_soi ss' = ss_soi ss" "ss_pipe ss' = ss_pipe ss"
    "map whole (get_list p (ss_slot ss i)) = gone @ map whole l"
    "rest_bytes (get_list p (ss_slot ss i)) = written (s_fd (ss_slot ss i)) t @ rest_bytes l"
    "map b_buffer (get_list p (ss_slot ss i)) = freed t @ map b_buffer l"
    "\<forall>b \<in> set l. buf_ok b" "\<forall>b \<in> set (tl l). fresh b"
    "s_wb_size (ss_slot ss i) - int (length (rest_bytes (get_list p (ss_slot ss i)))) = w - int (length (rest_bytes l))"
  shows "list_sent i p ss ss'"
  unfolding list_sent_def using assms by blast

lemma list_sent_none:
  assumes "\<forall>b \<in> set (get_list p (ss_slot ss i)). buf_ok b" "\<forall>b \<in> set (tl (get_list p (ss_slot ss i))). fresh b"
  shows "list_sent i p ss (ss\<lparr>ss_os := rs\<rparr>)"
proof -
  have "(set_list p (get_list p (ss_slot ss i)) (ss_slot ss i))\<lparr>s_wb_size := s_wb_size (ss_slot ss i)\<rparr> = ss_slot ss i"
    by (cases p) (simp_all add: get_list_def set_list_def)
  then show ?thesis using assms
    by (intro list_sentI[where gone = "[]" and l = "get_list p (ss_slot ss i)" and t = "[]" and w = "s_wb_size (ss_slot ss i)"]) simp_all
qed

lemma list_sent_part:
  assumes "get_list p (ss_slot ss i) = tmp # rest" "taken tmp n = Some bs"
    and "\<forall>b \<in> set (tmp # rest). buf_ok b" "\<forall>b \<in> set rest. fresh b"
  shows "list_sent i p ss (set_slot i (set_list p (tmp\<lparr>b_off := b_off tmp + n, b_sz := b_sz tmp - int n\<rparr> # rest)
      ((ss_slot ss i)\<lparr>s_wb_size := s_wb_size (ss_slot ss i) - int n\<rparr>)) (os_do (C_write (s_fd (ss_slot ss i)) bs) (ss\<lparr>ss_os := rs\<rparr>)))"
proof -
  let ?b = "tmp\<lparr>b_off := b_off tmp + n, b_sz := b_sz tmp - int n\<rparr>"
  have ok: "buf_ok tmp" using assms(3) by simp
  note tk = taken_pending[OF ok assms(2)]
  note adv = advance_buffer[OF ok tk(1)]
  have len: "int (length (pending tmp)) - int n = int (length (drop n (pending tmp)))"
    using length_pending[OF ok] tk(1) by simp
  show ?thesis using assms adv tk(2) len
    by (intro list_sentI[where gone = "[]" and l = "?b # rest" and t = "[C_write (s_fd (ss_slot ss i)) bs]" and
          w = "s_wb_size (ss_slot ss i) - int n"]) simp_all
qed

lemma list_sent_first:
  assumes g: "get_list p (ss_slot ss i) = tmp # rest" "taken tmp n = Some bs" "int n = b_sz tmp"
    and ok: "buf_ok tmp"
    and sent: "list_sent i p (set_slot i (set_list p rest ((ss_slot ss i)\<lparr>s_wb_size := s_wb_size (ss_slot ss i) - int n\<rparr>))
      (os_do (C_free (b_buffer tmp)) (os_do (C_write (s_fd (ss_slot ss i)) bs) (ss\<lparr>ss_os := rs\<rparr>)))) ss'"
  shows "list_sent i p ss ss'"
proof -
  have len: "length (pending tmp) = n" using length_pending[OF ok] g(3) by simp
  then have bs: "bs = pending tmp" using taken_pending(2)[OF ok g(2)] by simp
  obtain gone l t w where s: "ss_slot ss' = (ss_slot ss)(i := (set_list p l (ss_slot ss i))\<lparr>s_wb_size := w\<rparr>)"
      "ss_trace ss' = ss_trace ss @ [C_write (s_fd (ss_slot ss i)) bs, C_free (b_buffer tmp)] @ t"
      "ss_soi ss' = ss_soi ss" "ss_pipe ss' = ss_pipe ss"
      "map whole rest = gone @ map whole l" "rest_bytes rest = written (s_fd (ss_slot ss i)) t @ rest_bytes l"
      "map b_buffer rest = freed t @ map b_buffer l" "\<forall>b \<in> set l. buf_ok b" "\<forall>b \<in> set (tl l). fresh b"
      "s_wb_size (ss_slot ss i) - int n - int (length (rest_bytes rest)) = w - int (length (rest_bytes l))"
    using sent unfolding list_sent_def by auto
  show ?thesis using s bs len
    by (intro list_sentI[where gone = "whole tmp # gone" and l = l and w = w and
          t = "[C_write (s_fd (ss_slot ss i)) bs, C_free (b_buffer tmp)] @ t"]) (simp_all add: g(1))
qed

lemma SOCKET_CLOSE_pos [simp]: "SOCKET_CLOSE \<noteq> -1" "-1 \<noteq> SOCKET_CLOSE" by (simp_all add: SOCKET_CLOSE_def)

lemma set_tlD: "b \<in> set (tl l) \<Longrightarrow> b \<in> set l"
  by (cases l) simp_all

text \<open>Either the list was sent as far as possible, or the socket was closed after that.\<close>

definition sent_or_closed :: "nat \<Rightarrow> priority \<Rightarrow> socket_server \<Rightarrow> int \<times> socket_message \<times> socket_server \<Rightarrow> bool" where
  "sent_or_closed i p ss r \<longleftrightarrow> (case r of (t, m, ss') \<Rightarrow>
     t = -1 \<and> list_sent i p ss ss' \<or>
     t = SOCKET_CLOSE \<and> (\<exists>ss1. list_sent i p ss ss1 \<and> force_close i ss1 = Some (m, ss')))"

lemma send_list_tcp_sent:
  assumes "send_list_tcp i p ss = Some r"
    and "\<forall>b \<in> set (get_list p (ss_slot ss i)). buf_ok b" "\<forall>b \<in> set (tl (get_list p (ss_slot ss i))). fresh b"
  shows "sent_or_closed i p ss r"
  using assms
proof (induction i p ss rule: send_list_tcp.induct)
  case (1 i p ss)
  note none = list_sent_none[OF "1.prems"(2,3)]
  show ?case
  proof (cases "get_list p (ss_slot ss i)")
    case Nil
    then show ?thesis using "1.prems"(1) none[of "ss_os ss"]
      by (auto simp: send_list_tcp.simps[of i p ss] sent_or_closed_def)
  next
    case (Cons tmp rest)
    note st = "1.prems"(1)[unfolded send_list_tcp.simps[of i p ss] Let_def Cons list.case]
    obtain a rs where os: "ss_os ss = a # rs" using st by (cases "ss_os ss") simp_all
    show ?thesis
    proof (cases a)
      case (R_error e)
      show ?thesis
      proof (cases "e_code e = EINTR")
        case True
        have "sent_or_closed i p (ss\<lparr>ss_os := rs\<rparr>) r"
          by (rule "1.IH"(1)[OF refl Cons os R_error refl True]) (use st os R_error True "1.prems" Cons in simp_all)
        then show ?thesis by (simp add: sent_or_closed_def list_sent_def)
      next
        case False
        then show ?thesis using st os R_error none[of rs]
          by (auto simp: sent_or_closed_def bind_eq_Some_iff split: if_splits)
      qed
    next
      case (R_count n)
      obtain bs where bs: "taken tmp n = Some bs" using st os R_count by (auto split: option.splits)
      show ?thesis
      proof (cases "int n = b_sz tmp")
        case True
        let ?ss1 = "set_slot i (set_list p rest ((ss_slot ss i)\<lparr>s_wb_size := s_wb_size (ss_slot ss i) - int n\<rparr>))
          (os_do (C_free (b_buffer tmp)) (os_do (C_write (s_fd (ss_slot ss i)) bs) (ss\<lparr>ss_os := rs\<rparr>)))"
        have "sent_or_closed i p ?ss1 r"
          by (rule "1.IH"(2)[OF refl Cons os R_count bs refl refl])
            (use st os R_count bs True "1.prems"(2,3) Cons in \<open>auto dest: set_tlD\<close>)
        moreover have "buf_ok tmp" using "1.prems"(2) Cons by simp
        ultimately show ?thesis using list_sent_first[OF Cons bs True] by (auto simp: sent_or_closed_def)
      next
        case False
        then show ?thesis using st os R_count bs list_sent_part[OF Cons bs] "1.prems"(2,3) Cons
          by (auto simp: sent_or_closed_def)
      qed
    qed (use st os in simp_all)
  qed
qed

section \<open>The stream of a connection\<close>

text \<open>
  With the messages of each priority submitted so far, the unsent lists \<open>h\<close> and \<open>l\<close>, the count \<open>w\<close> and the calls made:
  what was written, with what is left of the high list, is a sequence of whole messages.
\<close>

definition stream_ok ::
  "int \<Rightarrow> u8 list list \<Rightarrow> u8 list list \<Rightarrow> write_buffer list \<Rightarrow> write_buffer list \<Rightarrow> int \<Rightarrow> os_call list \<Rightarrow> bool" where
  "stream_ok fd Hs Ls h l w t \<longleftrightarrow> (\<exists>ms Ls1.
     written fd t @ rest_bytes h = concat (ms @ map whole h) \<and> ms @ map whole h \<in> shuffles Hs Ls1 \<and>
     Ls = Ls1 @ map whole l \<and> mset (freed t) + mset (map b_buffer (h @ l)) = mset (map Plain (Hs @ Ls)) \<and>
     (\<forall>b \<in> set (h @ l). buf_ok b) \<and> (\<forall>b \<in> set (tl h @ l). fresh b) \<and>
     w = int (length (rest_bytes h)) + int (length (rest_bytes l)))"

lemma stream_okI:
  assumes "written fd t @ rest_bytes h = concat (ms @ map whole h)" "ms @ map whole h \<in> shuffles Hs Ls1"
    "Ls = Ls1 @ map whole l" "mset (freed t) + mset (map b_buffer (h @ l)) = mset (map Plain (Hs @ Ls))"
    "\<forall>b \<in> set (h @ l). buf_ok b" "\<forall>b \<in> set (tl h @ l). fresh b"
    "w = int (length (rest_bytes h)) + int (length (rest_bytes l))"
  shows "stream_ok fd Hs Ls h l w t"
  unfolding stream_ok_def using assms by blast

lemma shuffles_snoc:
  "xs \<in> shuffles ys zs \<Longrightarrow> xs @ [a] \<in> shuffles (ys @ [a]) zs"
  "xs \<in> shuffles ys zs \<Longrightarrow> xs @ [a] \<in> shuffles ys (zs @ [a])"
proof -
  have "xs \<in> shuffles ys zs \<Longrightarrow> xs @ [a] \<in> shuffles (ys @ [a]) zs" for xs ys zs :: "'a list"
  proof (induction ys zs arbitrary: xs rule: shuffles.induct)
    case (1 zs)
    then show ?case by (induction zs arbitrary: xs) (auto simp: Cons_in_shuffles_iff)
  qed (auto simp: Cons_in_shuffles_iff)
  then show "xs \<in> shuffles ys zs \<Longrightarrow> xs @ [a] \<in> shuffles (ys @ [a]) zs"
    "xs \<in> shuffles ys zs \<Longrightarrow> xs @ [a] \<in> shuffles ys (zs @ [a])"
    by (simp, metis shuffles_commutes)
qed

lemma shuffles_append: "xs \<in> shuffles ys zs \<Longrightarrow> xs @ l \<in> shuffles ys (zs @ l)"
  by (induction l rule: rev_induct) (simp_all flip: append_assoc add: shuffles_snoc)

lemma stream_high_sent:
  assumes "stream_ok fd Hs Ls h l w t"
    and "map whole h = gone @ map whole h'" "rest_bytes h = written fd t' @ rest_bytes h'"
    "map b_buffer h = freed t' @ map b_buffer h'" "\<forall>b \<in> set h'. buf_ok b" "\<forall>b \<in> set (tl h'). fresh b"
    "w - int (length (rest_bytes h)) = w' - int (length (rest_bytes h'))"
  shows "stream_ok fd Hs Ls h' l w' (t @ t')"
proof -
  obtain ms Ls1 where s: "written fd t @ rest_bytes h = concat (ms @ map whole h)" "ms @ map whole h \<in> shuffles Hs Ls1"
     "Ls = Ls1 @ map whole l" "mset (freed t) + mset (map b_buffer (h @ l)) = mset (map Plain (Hs @ Ls))"
     "\<forall>b \<in> set (h @ l). buf_ok b" "\<forall>b \<in> set (tl h @ l). fresh b"
     "w = int (length (rest_bytes h)) + int (length (rest_bytes l))"
    using assms(1) unfolding stream_ok_def by blast
  have "mset (map b_buffer (h @ l)) = mset (freed t') + mset (map b_buffer (h' @ l))"
    using arg_cong[OF assms(4), of mset] by simp
  then show ?thesis using s assms by (intro stream_okI[where ms = "ms @ gone" and ?Ls1.0 = Ls1]) (auto simp: ac_simps)
qed

lemma stream_low_sent:
  assumes "stream_ok fd Hs Ls [] l w t"
    and "map whole l = gone @ map whole l'" "rest_bytes l = written fd t' @ rest_bytes l'"
    "map b_buffer l = freed t' @ map b_buffer l'" "\<forall>b \<in> set l'. buf_ok b" "\<forall>b \<in> set (tl l'). fresh b"
    "w - int (length (rest_bytes l)) = w' - int (length (rest_bytes l'))"
  shows "\<forall>b \<in> set l'. fresh b \<Longrightarrow> stream_ok fd Hs Ls [] l' w' (t @ t')"
    "l' = b # r \<Longrightarrow> stream_ok fd Hs Ls [b] r w' (t @ t')"
proof -
  obtain ms Ls1 where "written fd t @ rest_bytes [] = concat (ms @ map whole [])" "ms @ map whole [] \<in> shuffles Hs Ls1"
     "Ls = Ls1 @ map whole l" "mset (freed t) + mset (map b_buffer ([] @ l)) = mset (map Plain (Hs @ Ls))"
     "\<forall>b \<in> set ([] @ l). buf_ok b" "\<forall>b \<in> set (tl [] @ l). fresh b"
     "w = int (length (rest_bytes [])) + int (length (rest_bytes l))"
    using assms(1) unfolding stream_ok_def by blast
  note s = this[unfolded rest_bytes_simps append_Nil append_Nil2 list.map list.sel list.size of_nat_0 add_0]
  have wh: "concat (map whole l) = written fd t' @ rest_bytes l'" using rest_fresh[OF s(6)] assms(3) by simp
  have fr: "mset (freed t) + (mset (freed t') + mset (map b_buffer l')) = mset (map Plain (Hs @ Ls))"
    using s(4) arg_cong[OF assms(4), of mset] by simp
  show "stream_ok fd Hs Ls [] l' w' (t @ t')" if "\<forall>b \<in> set l'. fresh b"
    using s wh fr assms that rest_fresh[OF that]
    by (intro stream_okI[where ms = "ms @ gone" and ?Ls1.0 = "Ls1 @ gone"]) (auto simp: shuffles_append ac_simps)
  show "stream_ok fd Hs Ls [b] r w' (t @ t')" if l': "l' = b # r"
  proof -
    have "rest_bytes r = concat (map whole r)" using assms(6) l' by (simp add: rest_fresh)
    then have "written fd t' @ pending b = concat gone @ whole b" using wh assms(2) l' by simp
    moreover have "ms @ gone @ [whole b] \<in> shuffles Hs (Ls1 @ gone @ [whole b])" using s(2) by (rule shuffles_append)
    ultimately show ?thesis using s fr assms l'
      by (intro stream_okI[where ms = "ms @ gone" and ?Ls1.0 = "Ls1 @ gone @ [whole b]"]) (auto simp: ac_simps)
  qed
qed

text \<open>A connected socket with its stream, and what a closed one leaves behind; \<open>base\<close> is the trace before.\<close>

definition stream_at ::
  "int \<Rightarrow> os_call list \<Rightarrow> int \<Rightarrow> u8 list list \<Rightarrow> u8 list list \<Rightarrow> socket_server \<Rightarrow> bool" where
  "stream_at sid base fd Hs Ls ss \<longleftrightarrow> (let s = ss_slot ss (HASH_ID sid) in
     s_type s = ST_CONNECTED \<and> s_id s = sid \<and> s_fd s = fd \<and> s_protocol s = PROTOCOL_TCP \<and>
     (\<exists>t. ss_trace ss = base @ t \<and> stream_ok fd Hs Ls (s_high s) (s_low s) (s_wb_size s) t))"

definition stream_closed ::
  "int \<Rightarrow> os_call list \<Rightarrow> int \<Rightarrow> u8 list list \<Rightarrow> u8 list list \<Rightarrow> socket_server \<Rightarrow> bool" where
  "stream_closed sid base fd Hs Ls ss \<longleftrightarrow>
     s_type (ss_slot ss (HASH_ID sid)) = ST_INVALID \<and> send_buffer_empty (ss_slot ss (HASH_ID sid)) \<and>
     (\<exists>t ms Ls1 Ls2 unsent. ss_trace ss = base @ t \<and> written fd t @ unsent = concat ms \<and> ms \<in> shuffles Hs Ls1 \<and>
        Ls = Ls1 @ Ls2 \<and> mset (freed t) = mset (map Plain (Hs @ Ls)))"

lemma free_wb_list_simps [simp]:
  "ss_slot (free_wb_list l ss) = ss_slot ss" "ss_trace (free_wb_list l ss) = ss_trace ss @ map (C_free \<circ> b_buffer) l"
  "ss_soi (free_wb_list l ss) = ss_soi ss" "ss_pipe (free_wb_list l ss) = ss_pipe ss"
  "ss_os (free_wb_list l ss) = ss_os ss" "ss_alloc_id (free_wb_list l ss) = ss_alloc_id ss"
  by (induction l arbitrary: ss) simp_all

lemma written_free [simp]: "written fd (map (C_free \<circ> f) l) = []"
  by (induction l) simp_all

lemma freed_free [simp]: "freed (map (C_free \<circ> f) l) = map f l"
  by (induction l) simp_all

lemma stream_force_close:
  assumes "force_close (HASH_ID sid) ss = Some (m, ss')" "stream_ok fd Hs Ls h l w t" "ss_trace ss = base @ t"
    and "s_type (ss_slot ss (HASH_ID sid)) = ST_CONNECTED"
    and hl: "s_high (ss_slot ss (HASH_ID sid)) @ s_low (ss_slot ss (HASH_ID sid)) = h @ l"
  shows "stream_closed sid base fd Hs Ls ss'"
proof -
  let ?s = "ss_slot ss (HASH_ID sid)"
  obtain ms Ls1 where s: "written fd t @ rest_bytes h = concat (ms @ map whole h)" "ms @ map whole h \<in> shuffles Hs Ls1"
      "Ls = Ls1 @ map whole l" "mset (freed t) + mset (map b_buffer (h @ l)) = mset (map Plain (Hs @ Ls))"
    using assms(2) unfolding stream_ok_def by blast
  let ?t = "t @ map (C_free \<circ> b_buffer) (s_high ?s) @ map (C_free \<circ> b_buffer) (s_low ?s) @ [C_sp_del (s_fd ?s), C_close (s_fd ?s)]"
  have tr: "ss_trace ss' = base @ ?t" "s_type (ss_slot ss' (HASH_ID sid)) = ST_INVALID"
      "send_buffer_empty (ss_slot ss' (HASH_ID sid))"
    using assms(1,3,4) by (auto simp: force_close_def Let_def send_buffer_empty_def)
  have "written fd ?t @ rest_bytes h = concat (ms @ map whole h)" using s(1) by simp
  moreover have "mset (freed ?t) = mset (map Plain (Hs @ Ls))" using s(4) arg_cong[OF hl, of "\<lambda>l. mset (map b_buffer l)"] by simp
  ultimately show ?thesis unfolding stream_closed_def using s(2,3) tr by blast
qed

lemma stream_at_high:
  assumes "stream_at sid base fd Hs Ls ss" "list_sent (HASH_ID sid) PRIORITY_HIGH ss ss1"
  shows "stream_at sid base fd Hs Ls ss1"
proof -
  obtain t where t: "ss_trace ss = base @ t"
      "stream_ok fd Hs Ls (s_high (ss_slot ss (HASH_ID sid))) (s_low (ss_slot ss (HASH_ID sid))) (s_wb_size (ss_slot ss (HASH_ID sid))) t"
    using assms(1) by (auto simp: stream_at_def Let_def)
  obtain gone l t' w where s: "ss_slot ss1 = (ss_slot ss)(HASH_ID sid := (ss_slot ss (HASH_ID sid))\<lparr>s_high := l, s_wb_size := w\<rparr>)"
      "ss_trace ss1 = ss_trace ss @ t'"
      and h: "map whole (s_high (ss_slot ss (HASH_ID sid))) = gone @ map whole l"
      "rest_bytes (s_high (ss_slot ss (HASH_ID sid))) = written (s_fd (ss_slot ss (HASH_ID sid))) t' @ rest_bytes l"
      "map b_buffer (s_high (ss_slot ss (HASH_ID sid))) = freed t' @ map b_buffer l" "\<forall>b \<in> set l. buf_ok b" "\<forall>b \<in> set (tl l). fresh b"
      "s_wb_size (ss_slot ss (HASH_ID sid)) - int (length (rest_bytes (s_high (ss_slot ss (HASH_ID sid))))) = w - int (length (rest_bytes l))"
    using assms(2) by (auto simp: list_sent_def get_list_def set_list_def)
  have "s_fd (ss_slot ss (HASH_ID sid)) = fd" using assms(1) by (simp add: stream_at_def Let_def)
  then show ?thesis using stream_high_sent[OF t(2) h(1) _ h(3-6)] h(2) s t(1) assms(1) by (simp add: stream_at_def Let_def)
qed

end
