(* ===== verification/Socket_Inv.thy ===== *)
theory Socket_Inv
  imports Socket_Stream
begin

text \<open>
  The invariant of the slots over every request and event: the counts and lists of unsent data, the
  tag of the union in each slot, and that a socket with something left to write waits for the poll to say it can.
\<close>

section \<open>The invariant\<close>

text \<open>Whether the poll reports that the descriptor of a slot can be written: \<open>sp_add\<close> starts without, \<open>sp_write\<close> sets it.\<close>

definition watch :: "nat \<Rightarrow> os_call \<Rightarrow> bool \<Rightarrow> bool" where
  "watch i c on = (case c of
       C_sp_add fd j \<Rightarrow> if j = i then False else on
     | C_sp_write fd j b \<Rightarrow> if j = i then b else on
     | _ \<Rightarrow> on)"

definition interest :: "nat \<Rightarrow> os_call list \<Rightarrow> bool" where
  "interest i t = fold (watch i) t False"

lemma interest_append [simp]: "interest i (t @ t') = fold (watch i) t' (interest i t)"
  by (simp add: interest_def)

lemma watch_free [simp]: "fold (watch i) (map (C_free \<circ> f) l) on = on"
  by (induction l) (simp_all add: watch_def)

definition unsent_size :: "socket \<Rightarrow> int" where
  "unsent_size s = sum_list (map b_sz (s_high s)) + sum_list (map b_sz (s_low s))"

text \<open>A TCP socket has the size of its reads, 64 or a power of two times that, and a UDP socket an address.\<close>

definition union_ok :: "socket \<Rightarrow> bool" where
  "union_ok s \<longleftrightarrow> (case s_p s of
       P_size n \<Rightarrow> s_protocol s = PROTOCOL_TCP \<and> n < 2 ^ 31 \<and> (\<exists>k. n = MIN_READ_BUFFER * 2 ^ k)
     | P_address a \<Rightarrow> s_protocol s \<noteq> PROTOCOL_TCP \<and> length a = 19)"

definition lists_inv :: "socket \<Rightarrow> bool" where
  "lists_inv s \<longleftrightarrow> s_wb_size s = unsent_size s \<and> (\<forall>b \<in> set (tl (s_high s)) \<union> set (s_low s). fresh b)"

definition waits :: "socket \<Rightarrow> bool \<Rightarrow> bool" where
  "waits s on \<longleftrightarrow> (s_type s \<in> {ST_CONNECTING, ST_CONNECTED, ST_HALFCLOSE} \<and> \<not> send_buffer_empty s \<longrightarrow> on) \<and>
     (s_type s \<in> {ST_PLISTEN, ST_LISTEN, ST_PACCEPT} \<longrightarrow> send_buffer_empty s)"

text \<open>
  \<open>B\<close> are the numbers that \<open>socket_server_bind\<close> gave out. The descriptor of such a number is not watched for
  being writable, whatever waits to be sent; all else holds of it too.
\<close>

definition sock_inv :: "int set \<Rightarrow> socket \<Rightarrow> bool \<Rightarrow> bool" where
  "sock_inv B s on \<longleftrightarrow> (if s_type s \<in> {ST_INVALID, ST_RESERVE} then send_buffer_empty s
     else union_ok s \<and> lists_inv s \<and> waits s (on \<or> s_id s \<in> B) \<and> (s_type s = ST_BIND \<longrightarrow> s_id s \<in> B) \<and>
       (s_type s \<in> {ST_CONNECTING, ST_HALFCLOSE} \<longrightarrow> on \<or> s_id s \<in> B))"

definition server_inv :: "int set \<Rightarrow> socket_server \<Rightarrow> bool" where
  "server_inv B ss \<longleftrightarrow> (\<forall>i. sock_inv B (ss_slot ss i) (interest i (ss_trace ss)))"

text \<open>The steps of the server touch one slot; what they do to the others.\<close>

definition only :: "nat \<Rightarrow> socket_server \<Rightarrow> socket_server \<Rightarrow> bool" where
  "only i ss ss' \<longleftrightarrow> ss_pipe ss' = ss_pipe ss \<and> ss_alloc_id ss' = ss_alloc_id ss \<and>
     (\<forall>j. j \<noteq> i \<longrightarrow> ss_slot ss' j = ss_slot ss j \<and> interest j (ss_trace ss') = interest j (ss_trace ss))"

lemma only_refl [simp, intro]: "only i ss ss"
  by (simp add: only_def)

lemma only_trans: "only i ss ss1 \<Longrightarrow> only i ss1 ss2 \<Longrightarrow> only i ss ss2"
  by (simp add: only_def)

lemma only_set_slot [intro]: "only i ss ss1 \<Longrightarrow> only i ss (set_slot i s ss1)"
  by (simp add: only_def)

lemma only_os [intro]: "only i ss ss1 \<Longrightarrow> only i ss (ss1\<lparr>ss_os := rs\<rparr>)"
  by (simp add: only_def)

lemma only_do [intro]: "only i ss ss1 \<Longrightarrow> (\<And>j on. j \<noteq> i \<Longrightarrow> watch j c on = on) \<Longrightarrow> only i ss (os_do c ss1)"
  by (simp add: only_def)


lemma server_inv_step:
  assumes "server_inv B ss" "only i ss ss'" "sock_inv B (ss_slot ss' i) (interest i (ss_trace ss'))"
  shows "server_inv B ss'"
  unfolding server_inv_def
proof
  show "sock_inv B (ss_slot ss' j) (interest j (ss_trace ss'))" for j
    using assms by (cases "j = i") (simp_all add: server_inv_def only_def)
qed

section \<open>Closing and sending\<close>

definition same_head :: "socket \<Rightarrow> socket \<Rightarrow> bool" where
  "same_head s s' \<longleftrightarrow> s_type s' = s_type s \<and> s_id s' = s_id s \<and> s_protocol s' = s_protocol s \<and> s_p s' = s_p s"

text \<open>A socket that was closed on the way.\<close>

definition closed :: "nat \<Rightarrow> socket_server \<Rightarrow> socket_server \<Rightarrow> bool" where
  "closed i ss ss' \<longleftrightarrow> only i ss ss' \<and> s_type (ss_slot ss' i) = ST_INVALID \<and> s_id (ss_slot ss' i) = s_id (ss_slot ss i) \<and>
     s_type (ss_slot ss i) \<noteq> ST_RESERVE \<and> (s_type (ss_slot ss i) \<noteq> ST_INVALID \<longrightarrow> send_buffer_empty (ss_slot ss' i))"

lemma force_close_closed: "force_close i ss = Some (m, ss') \<Longrightarrow> closed i ss ss'"
  by (auto simp: force_close_def Let_def only_def watch_def closed_def send_buffer_empty_def split: if_splits)

lemma closed_trans: "only i ss ss1 \<Longrightarrow> same_head (ss_slot ss i) (ss_slot ss1 i) \<Longrightarrow> closed i ss1 ss2 \<Longrightarrow> closed i ss ss2"
  by (auto simp: closed_def same_head_def dest: only_trans)

text \<open>What sending a list keeps, closed or not: the rest of the slot and the sum of the sizes.\<close>

definition list_kept :: "nat \<Rightarrow> priority \<Rightarrow> socket_server \<Rightarrow> socket_server \<Rightarrow> bool" where
  "list_kept i p ss ss' \<longleftrightarrow> (\<exists>l w.
     ss_slot ss' i = (set_list p l (ss_slot ss i))\<lparr>s_wb_size := w\<rparr> \<and> only i ss ss' \<and>
     interest i (ss_trace ss') = interest i (ss_trace ss) \<and> (get_list p (ss_slot ss i) = [] \<longrightarrow> l = []) \<and>
     ((\<forall>b \<in> set (tl (get_list p (ss_slot ss i))). fresh b) \<longrightarrow> (\<forall>b \<in> set (tl l). fresh b)) \<and>
     w - sum_list (map b_sz l) = s_wb_size (ss_slot ss i) - sum_list (map b_sz (get_list p (ss_slot ss i))))"

lemma list_keptI:
  assumes "ss_slot ss' i = (set_list p l (ss_slot ss i))\<lparr>s_wb_size := w\<rparr>" "only i ss ss'"
    "interest i (ss_trace ss') = interest i (ss_trace ss)" "get_list p (ss_slot ss i) = [] \<longrightarrow> l = []"
    "(\<forall>b \<in> set (tl (get_list p (ss_slot ss i))). fresh b) \<longrightarrow> (\<forall>b \<in> set (tl l). fresh b)"
    "w - sum_list (map b_sz l) = s_wb_size (ss_slot ss i) - sum_list (map b_sz (get_list p (ss_slot ss i)))"
  shows "list_kept i p ss ss'"
  unfolding list_kept_def using assms by blast

definition kept_or_closed :: "nat \<Rightarrow> priority \<Rightarrow> socket_server \<Rightarrow> int \<times> socket_message \<times> socket_server \<Rightarrow> bool" where
  "kept_or_closed i p ss r \<longleftrightarrow> (case r of (t, m, ss') \<Rightarrow>
     t = -1 \<and> list_kept i p ss ss' \<or> t = SOCKET_CLOSE \<and> closed i ss ss')"

lemma list_kept_refl: "list_kept i p ss (ss\<lparr>ss_os := rs\<rparr>)"
  unfolding list_kept_def
  by (intro exI[of _ "get_list p (ss_slot ss i)"] exI[of _ "s_wb_size (ss_slot ss i)"])
    (cases p; auto simp: get_list_def set_list_def)

lemma kept_or_closed_trans:
  assumes "list_kept i p ss ss1" "kept_or_closed i p ss1 r"
  shows "kept_or_closed i p ss r"
proof -
  have "list_kept i p ss ss2" if k2: "list_kept i p ss1 ss2" for ss2
  proof -
    obtain l w where 1: "ss_slot ss1 i = (set_list p l (ss_slot ss i))\<lparr>s_wb_size := w\<rparr>" "only i ss ss1"
        "interest i (ss_trace ss1) = interest i (ss_trace ss)" "get_list p (ss_slot ss i) = [] \<longrightarrow> l = []"
        "(\<forall>b \<in> set (tl (get_list p (ss_slot ss i))). fresh b) \<longrightarrow> (\<forall>b \<in> set (tl l). fresh b)"
        "w - sum_list (map b_sz l) = s_wb_size (ss_slot ss i) - sum_list (map b_sz (get_list p (ss_slot ss i)))"
      using assms(1) unfolding list_kept_def by (elim exE conjE) (rule that)
    obtain l' w' where 2: "ss_slot ss2 i = (set_list p l' (ss_slot ss1 i))\<lparr>s_wb_size := w'\<rparr>" "only i ss1 ss2"
        "interest i (ss_trace ss2) = interest i (ss_trace ss1)" "get_list p (ss_slot ss1 i) = [] \<longrightarrow> l' = []"
        "(\<forall>b \<in> set (tl (get_list p (ss_slot ss1 i))). fresh b) \<longrightarrow> (\<forall>b \<in> set (tl l'). fresh b)"
        "w' - sum_list (map b_sz l') = s_wb_size (ss_slot ss1 i) - sum_list (map b_sz (get_list p (ss_slot ss1 i)))"
      using k2 unfolding list_kept_def by (elim exE conjE) (rule that)
    have g: "get_list p (ss_slot ss1 i) = l" "s_wb_size (ss_slot ss1 i) = w" unfolding 1(1) by simp_all
    show ?thesis
    proof (rule list_keptI[OF _ only_trans[OF 1(2) 2(2)], where l = l' and w = w'])
      show "ss_slot ss2 i = (set_list p l' (ss_slot ss i))\<lparr>s_wb_size := w'\<rparr>" unfolding 2(1) 1(1) by simp
      show "(\<forall>b \<in> set (tl (get_list p (ss_slot ss i))). fresh b) \<longrightarrow> (\<forall>b \<in> set (tl l'). fresh b)"
        using 1(5) 2(5)[unfolded g] by satx
      show "get_list p (ss_slot ss i) = [] \<longrightarrow> l' = []" using 1(4) 2(4)[unfolded g] by satx
    qed (simp_all only: 1(3) 2(3) 1(6) 2(6)[unfolded g])
  qed
  moreover have "closed i ss ss2" if "closed i ss1 ss2" for ss2
    by (rule closed_trans[OF _ _ that]) (use assms(1) in \<open>auto simp: list_kept_def same_head_def\<close>)
  ultimately show ?thesis using assms(2) by (auto simp: kept_or_closed_def)
qed

text \<open>The first buffer of a list goes out in part or whole: \<open>calls\<close> are its writes and frees.\<close>

lemma list_kept_first:
  assumes "get_list p (ss_slot ss i) = tmp # rest" "b_sz b = b_sz tmp - n"
  shows "list_kept i p ss (set_slot i (set_list p (b # rest) ((ss_slot ss i)\<lparr>s_wb_size := s_wb_size (ss_slot ss i) - n\<rparr>))
      (os_do (C_write fd bs) (ss\<lparr>ss_os := rs\<rparr>)))"
    "list_kept i p ss (set_slot i (set_list p rest ((ss_slot ss i)\<lparr>s_wb_size := s_wb_size (ss_slot ss i) - b_sz tmp\<rparr>))
      (os_do (C_free d) (os_do (C_write fd bs) (ss\<lparr>ss_os := rs\<rparr>))))"
    "list_kept i p ss (set_slot i (set_list p rest ((ss_slot ss i)\<lparr>s_wb_size := s_wb_size (ss_slot ss i) - b_sz tmp\<rparr>))
      (os_do (C_free d) (os_do (C_sendto fd bs sa) (ss\<lparr>ss_os := rs\<rparr>))))"
  by (rule list_keptI[where l = "b # rest" and w = "s_wb_size (ss_slot ss i) - n"];
      use assms in \<open>simp add: watch_def only_def\<close>)
    (rule list_keptI[where l = rest and w = "s_wb_size (ss_slot ss i) - b_sz tmp"];
      use assms in \<open>auto simp: watch_def only_def dest: set_tlD\<close>)+

lemma send_list_tcp_kept: "send_list_tcp i p ss = Some r \<Longrightarrow> kept_or_closed i p ss r"
proof (induction i p ss rule: send_list_tcp.induct)
  case (1 i p ss)
  show ?case
  proof (cases "get_list p (ss_slot ss i)")
    case Nil
    then show ?thesis using "1.prems" list_kept_refl[of i p ss "ss_os ss"]
      by (auto simp: send_list_tcp.simps[of i p ss] kept_or_closed_def)
  next
    case (Cons tmp rest)
    note st = "1.prems"[unfolded send_list_tcp.simps[of i p ss] Let_def Cons list.case]
    obtain a rs where os: "ss_os ss = a # rs" using st by (cases "ss_os ss") simp_all
    show ?thesis
    proof (cases a)
      case (R_error e)
      show ?thesis
      proof (cases "e_code e = EINTR")
        case True
        then have "kept_or_closed i p (ss\<lparr>ss_os := rs\<rparr>) r"
          using st os R_error by (intro "1.IH"(1)[OF refl Cons os R_error refl True]) simp
        then show ?thesis by (rule kept_or_closed_trans[OF list_kept_refl])
      next
        case False
        then show ?thesis using st os R_error list_kept_refl[of i p ss rs] force_close_closed[of i "ss\<lparr>ss_os := rs\<rparr>"]
          by (auto simp: kept_or_closed_def bind_eq_Some_iff closed_def only_def split: if_splits)
      qed
    next
      case (R_count n)
      obtain bs where bs: "taken tmp n = Some bs" using st os R_count by (auto split: option.splits)
      show ?thesis
      proof (cases "int n = b_sz tmp")
        case True
        let ?ss1 = "set_slot i (set_list p rest ((ss_slot ss i)\<lparr>s_wb_size := s_wb_size (ss_slot ss i) - int n\<rparr>))
          (os_do (C_free (b_buffer tmp)) (os_do (C_write (s_fd (ss_slot ss i)) bs) (ss\<lparr>ss_os := rs\<rparr>)))"
        have "kept_or_closed i p ?ss1 r"
          using st os R_count bs True by (intro "1.IH"(2)[OF refl Cons os R_count bs refl refl]) simp_all
        moreover have "list_kept i p ss ?ss1" unfolding True by (rule list_kept_first(2)[OF Cons, of tmp 0]) simp
        ultimately show ?thesis by (rule kept_or_closed_trans[rotated])
      next
        case False
        then show ?thesis using st os R_count bs list_kept_first(1)[OF Cons, of "tmp\<lparr>b_off := b_off tmp + n, b_sz := b_sz tmp - int n\<rparr>" "int n"]
          by (auto simp: kept_or_closed_def)
      qed
    qed (use st os in simp_all)
  qed
qed

lemma send_list_udp_kept: "send_list_udp i p ss = Some r \<Longrightarrow> kept_or_closed i p ss r"
proof (induction i p ss rule: send_list_udp.induct)
  case (1 i p ss)
  show ?case
  proof (cases "get_list p (ss_slot ss i)")
    case Nil
    then show ?thesis using "1.prems" list_kept_refl[of i p ss "ss_os ss"]
      by (auto simp: send_list_udp.simps[of i p ss] kept_or_closed_def)
  next
    case (Cons tmp rest)
    note st = "1.prems"[unfolded send_list_udp.simps[of i p ss] Let_def Cons list.case]
    obtain sa where sa: "udp_socket_address (s_protocol (ss_slot ss i)) (b_address tmp) = Some sa"
      using st by (auto split: option.splits)
    obtain a rs where os: "ss_os ss = a # rs" using st sa by (cases "ss_os ss") simp_all
    show ?thesis
    proof (cases a)
      case (R_error e)
      then show ?thesis using st sa os list_kept_refl[of i p ss rs] by (auto simp: kept_or_closed_def)
    next
      case (R_count n)
      obtain bs where bs: "taken tmp n = Some bs" using st sa os R_count by (auto split: option.splits)
      show ?thesis
        by (rule kept_or_closed_trans[OF list_kept_first(3)[OF Cons, of tmp 0]], simp,
            rule "1.IH"[OF refl Cons sa os R_count bs])
          (use st sa os R_count bs in simp)
    qed (use st sa os in simp_all)
  qed
qed

lemma send_list_kept: "send_list i p ss = Some r \<Longrightarrow> kept_or_closed i p ss r"
  by (auto simp: send_list_def send_list_tcp_kept send_list_udp_kept split: if_splits)

text \<open>A flush changes the lists and their count, and stops waiting only when nothing is left.\<close>

definition flushed :: "nat \<Rightarrow> socket_server \<Rightarrow> socket_server \<Rightarrow> bool" where
  "flushed i ss ss' \<longleftrightarrow> only i ss ss' \<and>
     same_head (ss_slot ss i) (ss_slot ss' i) \<and>
     (send_buffer_empty (ss_slot ss i) \<longrightarrow> send_buffer_empty (ss_slot ss' i)) \<and> lists_inv (ss_slot ss' i) \<and>
     (interest i (ss_trace ss') = interest i (ss_trace ss) \<or>
      send_buffer_empty (ss_slot ss' i) \<and> s_type (ss_slot ss i) \<noteq> ST_HALFCLOSE)"

lemma kept_high:
  assumes "list_kept i PRIORITY_HIGH ss ss'" "lists_inv (ss_slot ss i)"
  shows "flushed i ss ss'" "interest i (ss_trace ss') = interest i (ss_trace ss)"
proof -
  obtain l w where k: "ss_slot ss' i = (ss_slot ss i)\<lparr>s_high := l, s_wb_size := w\<rparr>" "only i ss ss'"
      "interest i (ss_trace ss') = interest i (ss_trace ss)" "\<forall>b \<in> set (tl l). fresh b"
      "w - sum_list (map b_sz l) = s_wb_size (ss_slot ss i) - sum_list (map b_sz (s_high (ss_slot ss i)))"
      "s_high (ss_slot ss i) = [] \<longrightarrow> l = []"
    using assms by (auto simp: list_kept_def get_list_def set_list_def lists_inv_def)
  have "same_head (ss_slot ss i) (ss_slot ss' i)" "send_buffer_empty (ss_slot ss i) \<longrightarrow> send_buffer_empty (ss_slot ss' i)"
    using k(1,6) by (simp_all add: same_head_def send_buffer_empty_def)
  moreover have "lists_inv (ss_slot ss' i)" using k assms(2) by (auto simp: lists_inv_def unsent_size_def)
  ultimately show "flushed i ss ss'" unfolding flushed_def using k(2,3) by blast
qed (use assms in \<open>auto simp: list_kept_def set_list_def\<close>)

lemma kept_low:
  assumes "list_kept i PRIORITY_LOW ss ss'" "lists_inv (ss_slot ss i)" "s_high (ss_slot ss i) = []"
  shows "\<not> list_uncomplete (s_low (ss_slot ss' i)) \<Longrightarrow> flushed i ss ss'"
    "raise_uncomplete i ss' = Some ss2 \<Longrightarrow> flushed i ss ss2"
proof -
  let ?s = "ss_slot ss i"
  obtain l w where k: "ss_slot ss' i = ?s\<lparr>s_low := l, s_wb_size := w\<rparr>" "only i ss ss'"
      "interest i (ss_trace ss') = interest i (ss_trace ss)" "\<forall>b \<in> set (tl l). fresh b"
      "w - sum_list (map b_sz l) = s_wb_size ?s - sum_list (map b_sz (s_low ?s))" "s_low ?s = [] \<longrightarrow> l = []"
    using assms by (auto simp: list_kept_def get_list_def set_list_def lists_inv_def dest: set_tlD)
  show "flushed i ss ss'" if u: "\<not> list_uncomplete (s_low (ss_slot ss' i))"
  proof -
    have "same_head ?s (ss_slot ss' i)" "send_buffer_empty ?s \<longrightarrow> send_buffer_empty (ss_slot ss' i)"
      using k(1,6) by (simp_all add: same_head_def send_buffer_empty_def)
    moreover have "\<forall>b \<in> set l. fresh b" using u k(1,4) by (auto simp: list_uncomplete_def split: list.splits)
    then have "lists_inv (ss_slot ss' i)" using k assms(2,3) by (auto simp: lists_inv_def unsent_size_def)
    ultimately show ?thesis unfolding flushed_def using k(2,3) by blast
  qed
  show "flushed i ss ss2" if r: "raise_uncomplete i ss' = Some ss2"
  proof -
    obtain b rest where l: "l = b # rest" using r k(1) by (auto simp: raise_uncomplete_def Let_def split: list.splits)
    then have r2: "ss2 = set_slot i (?s\<lparr>s_wb_size := w, s_low := rest, s_high := [b]\<rparr>) ss'"
      using r k(1) assms(3) by (auto simp: raise_uncomplete_def Let_def)
    have "lists_inv (ss_slot ss2 i)" using k assms(2,3) r2 l by (auto simp: lists_inv_def unsent_size_def)
    then show ?thesis unfolding flushed_def using k(2,3,6) r2 l by (auto simp: same_head_def send_buffer_empty_def)
  qed
qed

lemma flushed_trans:
  assumes "flushed i ss ss1" "interest i (ss_trace ss1) = interest i (ss_trace ss)" "flushed i ss1 ss2"
  shows "flushed i ss ss2"
proof -
  have "same_head (ss_slot ss i) (ss_slot ss2 i)" "s_type (ss_slot ss1 i) = s_type (ss_slot ss i)"
    using assms(1,3) by (simp_all add: flushed_def same_head_def)
  then show ?thesis using assms(1,3) only_trans[of i ss ss1 ss2] unfolding flushed_def assms(2) by auto
qed

definition flushed_or_closed :: "nat \<Rightarrow> socket_server \<Rightarrow> int \<times> socket_message \<times> socket_server \<Rightarrow> bool" where
  "flushed_or_closed i ss r \<longleftrightarrow> (case r of (t, m, ss') \<Rightarrow>
     t = -1 \<and> flushed i ss ss' \<or> t = SOCKET_CLOSE \<and> closed i ss ss')"

lemma send_buffer_flushed:
  assumes "send_buffer i ss = Some r" "lists_inv (ss_slot ss i)"
  shows "flushed_or_closed i ss r"
proof -
  obtain t m ss1 where hl: "send_list i PRIORITY_HIGH ss = Some (t, m, ss1)"
    using assms(1) by (auto simp: send_buffer_def bind_eq_Some_iff split: if_splits)
  note st = assms(1)[unfolded send_buffer_def hl]
  from send_list_kept[OF hl] consider "t = -1" "list_kept i PRIORITY_HIGH ss ss1"
    | "t = SOCKET_CLOSE" "closed i ss ss1"
    by (auto simp: kept_or_closed_def)
  then show ?thesis
  proof cases
    case 2
    then show ?thesis using st by (auto simp: flushed_or_closed_def split: if_splits)
  next
    case 1
    note k = kept_high[OF 1(2) assms(2)]
    have li: "lists_inv (ss_slot ss1 i)" and o: "only i ss ss1" using k(1) by (simp_all add: flushed_def)
    have sh: "same_head (ss_slot ss i) (ss_slot ss1 i)" using k(1) by (simp add: flushed_def)
    note cl = closed_trans[OF o sh]
    show ?thesis
    proof (cases "s_high (ss_slot ss1 i) = [] \<and> s_low (ss_slot ss1 i) \<noteq> []")
      case True
      obtain t2 m2 ss2 where ll: "send_list i PRIORITY_LOW ss1 = Some (t2, m2, ss2)"
        using st True 1(1) by (auto simp: bind_eq_Some_iff split: if_splits)
      from send_list_kept[OF ll] show ?thesis
        using st True ll 1(1) flushed_trans[OF k(1,2)] kept_low[OF _ li] cl
        by (auto simp: kept_or_closed_def flushed_or_closed_def bind_eq_Some_iff split: if_splits)
    next
      case False
      show ?thesis
      proof (cases "s_high (ss_slot ss1 i) = []")
        case True
        let ?ss2 = "os_do (C_sp_write (s_fd (ss_slot ss1 i)) i False) ss1"
        have o2: "only i ss1 ?ss2" by (auto simp: watch_def)
        have "send_buffer_empty (ss_slot ss1 i)" using True False by (simp add: send_buffer_empty_def)
        then have "flushed i ss1 ?ss2" if "s_type (ss_slot ss1 i) \<noteq> ST_HALFCLOSE" using that o2 li
          unfolding flushed_def by (auto simp: same_head_def)
        then show ?thesis using st True False 1(1) flushed_trans[OF k(1,2)] force_close_closed[of i ?ss2]
            cl[OF closed_trans[OF o2]]
          by (auto simp: flushed_or_closed_def Let_def bind_eq_Some_iff same_head_def split: if_splits)
      next
        case F2: False
        then show ?thesis using st 1(1) k(1) by (auto simp: flushed_or_closed_def split: if_splits)
      qed
    qed
  qed
qed

section \<open>Requests\<close>

text \<open>A step on one slot that leaves it in order and does not take or reserve it.\<close>

definition good :: "int set \<Rightarrow> nat \<Rightarrow> socket_server \<Rightarrow> socket_server \<Rightarrow> bool" where
  "good B i ss ss' \<longleftrightarrow> only i ss ss' \<and> sock_inv B (ss_slot ss' i) (interest i (ss_trace ss')) \<and>
     s_id (ss_slot ss' i) = s_id (ss_slot ss i) \<and> (s_type (ss_slot ss' i) = ST_RESERVE \<longleftrightarrow> s_type (ss_slot ss i) = ST_RESERVE) \<and>
     (s_type (ss_slot ss i) = ST_INVALID \<longrightarrow> s_type (ss_slot ss' i) = ST_INVALID)"

lemma good_inv: "server_inv B ss \<Longrightarrow> good B i ss ss' \<Longrightarrow> server_inv B ss'"
  unfolding good_def by (blast intro: server_inv_step)

lemma closed_good:
  assumes "closed i ss ss'" "s_type (ss_slot ss i) \<noteq> ST_INVALID"
  shows "good B i ss ss'"
  using assms by (simp add: good_def closed_def sock_inv_def)

lemma force_close_good:
  assumes "force_close i ss = Some (m, ss')" "sock_inv B (ss_slot ss i) (interest i (ss_trace ss))"
  shows "good B i ss ss'"
proof (cases "s_type (ss_slot ss i) = ST_INVALID")
  case True
  then show ?thesis using assms by (simp add: force_close_def good_def)
qed (use closed_good[OF force_close_closed[OF assms(1)]] in simp)

lemma good_os: "good B i (ss\<lparr>ss_os := rs\<rparr>) ss' \<Longrightarrow> good B i ss ss'"
  by (simp add: good_def only_def)

lemma sock_inv_cong:
  assumes "sock_inv B s on" "s_type s \<notin> {ST_INVALID, ST_RESERVE}" "same_head s s'" "lists_inv s'" "waits s' (on' \<or> s_id s \<in> B)"
    and "s_type s \<in> {ST_CONNECTING, ST_HALFCLOSE} \<longrightarrow> on' \<or> s_id s \<in> B"
  shows "sock_inv B s' on'"
proof -
  have h: "s_type s' = s_type s" "s_protocol s' = s_protocol s" "s_p s' = s_p s" "s_id s' = s_id s" using assms(3) by (simp_all add: same_head_def)
  have "union_ok s' = union_ok s" by (simp only: union_ok_def h)
  then show ?thesis using assms unfolding sock_inv_def h by (simp split: if_splits)
qed

lemma good_cong:
  assumes "sock_inv B (ss_slot ss i) (interest i (ss_trace ss))" "s_type (ss_slot ss i) \<notin> {ST_INVALID, ST_RESERVE}"
    "same_head (ss_slot ss i) (ss_slot ss' i)" "lists_inv (ss_slot ss' i)" "waits (ss_slot ss' i) (interest i (ss_trace ss') \<or> s_id (ss_slot ss i) \<in> B)"
    "s_type (ss_slot ss i) \<in> {ST_CONNECTING, ST_HALFCLOSE} \<longrightarrow> interest i (ss_trace ss') \<or> s_id (ss_slot ss i) \<in> B" "only i ss ss'"
  shows "good B i ss ss'"
  using sock_inv_cong[OF assms(1-6)] assms(3,7) by (simp add: good_def same_head_def)

lemma flushed_good:
  assumes "flushed i ss ss'" "sock_inv B (ss_slot ss i) (interest i (ss_trace ss))"
    and "s_type (ss_slot ss i) \<noteq> ST_CONNECTING \<or> \<not> send_buffer_empty (ss_slot ss' i)"
  shows "good B i ss ss'"
proof (cases "s_type (ss_slot ss i) \<in> {ST_INVALID, ST_RESERVE}")
  case True
  then show ?thesis using assms(1,2) by (auto simp: flushed_def good_def sock_inv_def same_head_def)
next
  case False
  let ?s = "ss_slot ss i" and ?s' = "ss_slot ss' i"
  have f: "only i ss ss'" "same_head ?s ?s'" "send_buffer_empty ?s \<longrightarrow> send_buffer_empty ?s'" "lists_inv ?s'"
      "interest i (ss_trace ss') = interest i (ss_trace ss) \<or> send_buffer_empty ?s' \<and> s_type ?s \<noteq> ST_HALFCLOSE"
    using assms(1) by (simp_all add: flushed_def)
  have ty: "s_type ?s' = s_type ?s" using f(2) by (simp add: same_head_def)
  have "waits ?s (interest i (ss_trace ss) \<or> s_id ?s \<in> B)"
      "s_type ?s \<in> {ST_CONNECTING, ST_HALFCLOSE} \<longrightarrow> interest i (ss_trace ss) \<or> s_id ?s \<in> B"
    using assms(2) False by (simp_all add: sock_inv_def)
  then have "waits ?s' (interest i (ss_trace ss') \<or> s_id ?s \<in> B)"
      "s_type ?s \<in> {ST_CONNECTING, ST_HALFCLOSE} \<longrightarrow> interest i (ss_trace ss') \<or> s_id ?s \<in> B"
    using f(3,5) ty assms(3) unfolding waits_def by (metis, auto)
  then show ?thesis using good_cong[OF assms(2) False f(2,4)] f(1) by blast
qed

lemma send_buffer_good:
  assumes "send_buffer i ss = Some (t, m, ss')" "sock_inv B (ss_slot ss i) (interest i (ss_trace ss))"
    and "s_type (ss_slot ss i) \<notin> {ST_INVALID, ST_CONNECTING}" "lists_inv (ss_slot ss i)"
  shows "good B i ss ss'"
  using send_buffer_flushed[OF assms(1,4)] flushed_good[OF _ assms(2)] closed_good assms(3)
  by (auto simp: flushed_or_closed_def)

lemma append_sendbuffer_facts:
  assumes "append_sendbuffer i p data sz n a ss = Some ss'"
  shows "only i ss ss'" "ss_trace ss' = ss_trace ss" "same_head (ss_slot ss i) (ss_slot ss' i)"
    "\<not> send_buffer_empty (ss_slot ss' i)" "s_fd (ss_slot ss' i) = s_fd (ss_slot ss i)"
    "lists_inv (ss_slot ss i) \<Longrightarrow> n = 0 \<or> send_buffer_empty (ss_slot ss i) \<and> p = PRIORITY_HIGH \<Longrightarrow> lists_inv (ss_slot ss' i)"
proof -
  obtain b where ss': "ss' = set_slot i (set_list p (get_list p (ss_slot ss i) @ [b])
      ((ss_slot ss i)\<lparr>s_wb_size := s_wb_size (ss_slot ss i) + b_sz b\<rparr>)) ss" and b: "b_off b = n"
  proof -
    obtain bs len user apart where "send_object_init (ss_soi ss) data sz = Some (bs, len, user, apart)"
      using assms by (auto simp: append_sendbuffer_def bind_eq_Some_iff)
    then show thesis using assms
      by (intro that[of "\<lparr>b_buffer = data, b_bytes = bs, b_off = n, b_sz = len - int n, b_userobject = user, b_apart = apart, b_address = a\<rparr>"])
        (simp_all add: append_sendbuffer_def Let_def)
  qed
  show "only i ss ss'" "ss_trace ss' = ss_trace ss" "same_head (ss_slot ss i) (ss_slot ss' i)"
    "\<not> send_buffer_empty (ss_slot ss' i)" "s_fd (ss_slot ss' i) = s_fd (ss_slot ss i)"
    unfolding ss' by (auto simp: same_head_def) (cases p; simp add: send_buffer_empty_def set_list_def)
  have tl: "set (tl (l @ [b])) \<subseteq> set (tl l) \<union> {b}" for l by (cases l) auto
  show "lists_inv (ss_slot ss' i)"
    if "lists_inv (ss_slot ss i)" "n = 0 \<or> send_buffer_empty (ss_slot ss i) \<and> p = PRIORITY_HIGH"
    using that tl[of "s_high (ss_slot ss i)"] b
    by (cases p) (auto simp: ss' lists_inv_def get_list_def set_list_def unsent_size_def send_buffer_empty_def)
qed

lemma sendto_direct_facts:
  assumes "sendto_direct i bs len a ss = Some (dn, ss1)"
  shows "only i ss ss1" "ss_slot ss1 = ss_slot ss" "interest i (ss_trace ss1) = interest i (ss_trace ss)"
proof -
  obtain sa r rs where "udp_socket_address (s_protocol (ss_slot ss i)) a = Some sa" "ss_os ss = r # rs"
    using assms by (cases "ss_os ss") (auto simp: sendto_direct_def os_ask_def bind_eq_Some_iff)
  then show "only i ss ss1" "ss_slot ss1 = ss_slot ss" "interest i (ss_trace ss1) = interest i (ss_trace ss)"
    using assms
    by (cases r; auto simp: sendto_direct_def os_ask_def bind_eq_Some_iff only_def watch_def split: if_splits)+
qed

lemma write_direct_facts:
  assumes "write_direct i bs len ss = Some (r, ss1)" "sock_inv B (ss_slot ss i) (interest i (ss_trace ss))"
  shows "r = Inr m \<Longrightarrow> good B i ss ss1"
    "r = Inl n \<Longrightarrow> only i ss ss1 \<and> ss_slot ss1 = ss_slot ss \<and> interest i (ss_trace ss1) = interest i (ss_trace ss)"
proof -
  obtain a rs where os: "ss_os ss = a # rs"
    using assms by (cases "ss_os ss") (auto simp: write_direct_def os_ask_def)
  show "good B i ss ss1" if "r = Inr m"
    by (rule good_os[where rs = rs], rule force_close_good)
      (use assms(1) os that in \<open>cases a; auto simp: write_direct_def os_ask_def bind_eq_Some_iff split: if_splits\<close>,
        use assms(2) in simp)
  show "only i ss ss1 \<and> ss_slot ss1 = ss_slot ss \<and> interest i (ss_trace ss1) = interest i (ss_trace ss)" if "r = Inl n"
    using assms(1) os that
    by (cases a) (auto simp: write_direct_def os_ask_def bind_eq_Some_iff only_def watch_def split: if_splits)
qed

lemma send_now_good:
  assumes "send_now i data sz p addr ss = Some (t, m, ss')" "sock_inv B (ss_slot ss i) (interest i (ss_trace ss))"
    and "s_type (ss_slot ss i) = ST_CONNECTED" "send_buffer_empty (ss_slot ss i)"
  shows "good B i ss ss'"
proof -
  note inv = assms(2)
  have li: "lists_inv (ss_slot ss i)" using inv assms(3) by (simp add: sock_inv_def)
  have app: "good B i ss (os_do (C_sp_write (s_fd (ss_slot ss2 i)) i True) ss2)"
    if "append_sendbuffer i q data sz n a ss1 = Some ss2" "n = 0 \<or> q = PRIORITY_HIGH" "only i ss ss1" "ss_slot ss1 = ss_slot ss"
    for ss1 ss2 q n a
  proof -
    note f = append_sendbuffer_facts[OF that(1)]
    have "lists_inv (ss_slot ss2 i)" using f(6) that(2,4) li assms(4) by simp
    then show ?thesis using f(3) that(4) assms(3) only_trans[OF that(3) f(1)]
      by (intro good_cong[OF inv]) (simp_all add: same_head_def waits_def watch_def only_def)
  qed
  show ?thesis
  proof (cases "s_protocol (ss_slot ss i) = PROTOCOL_TCP")
    case True
    obtain bs len x y where so: "send_object_init (ss_soi ss) data sz = Some (bs, len, x)"
        and wd: "write_direct i bs len ss = Some y"
      using assms(1) True by (auto simp: send_now_def bind_eq_Some_iff)
    obtain r ss1 where y: "y = (r, ss1)" by (cases y)
    note st = assms(1)[unfolded send_now_def so Option.bind.bind_lunit prod.case Let_def wd y]
    show ?thesis
    proof (cases r)
      case (Inr m')
      then show ?thesis using st True write_direct_facts(1)[OF wd[unfolded y] inv Inr] by (auto simp: good_def only_def watch_def)
    next
      case (Inl n)
      then have s1: "only i ss ss1" "ss_slot ss1 = ss_slot ss" "interest i (ss_trace ss1) = interest i (ss_trace ss)"
        using write_direct_facts(2)[OF wd[unfolded y] inv] by simp_all
      show ?thesis
      proof (cases "int n = len")
        case T2: True
        then show ?thesis using st True Inl s1 inv by (auto simp: good_def only_def watch_def)
      next
        case False
        then obtain ss2 where "append_sendbuffer i PRIORITY_HIGH data sz n [] ss1 = Some ss2"
            "ss' = os_do (C_sp_write (s_fd (ss_slot ss2 i)) i True) ss2"
          using st True Inl by (auto simp: bind_eq_Some_iff)
        then show ?thesis using app[OF _ _ s1(1,2)] by simp
      qed
    qed
  next
    case False
    obtain bs len x where so: "send_object_init (ss_soi ss) data sz = Some (bs, len, x)"
      using assms(1) by (auto simp: send_now_def bind_eq_Some_iff)
    obtain a dn ss1 where sd: "sendto_direct i bs len a ss = Some (dn, ss1)"
        and r: "(if dn then Some (-1, no_message, os_do (C_free data) ss1)
          else do { ss2 \<leftarrow> append_sendbuffer i p data sz 0 a ss1;
                    Some (-1, no_message, os_do (C_sp_write (s_fd (ss_slot ss2 i)) i True) ss2) }) = Some (t, m, ss')"
      using assms(1) so False by (auto simp: send_now_def bind_eq_Some_iff Let_def)
    note s1 = sendto_direct_facts[OF sd]
    show ?thesis using r app[OF _ _ s1(1,2)] s1 inv
      by (auto simp: bind_eq_Some_iff good_def only_def watch_def split: if_splits)
  qed
qed

end
