(* ===== verification/Socket_Reach.thy ===== *)
theory Socket_Reach
  imports Socket_Inv
begin

text \<open>
  Every request and every event keeps the invariant of the slots, so it holds in every state the server can reach.
\<close>

section \<open>Requests\<close>

lemma good_same:
  assumes "sock_inv B (ss_slot ss i) (interest i (ss_trace ss))" "only i ss ss'"
    "ss_slot ss' i = ss_slot ss i" "interest i (ss_trace ss') = interest i (ss_trace ss)"
  shows "good B i ss ss'"
  using assms by (simp add: good_def)

lemma send_later_good:
  assumes "send_later i data sz p addr ss = Some (t, m, ss')" "sock_inv B (ss_slot ss i) (interest i (ss_trace ss))"
    and ty: "s_type (ss_slot ss i) \<notin> {ST_INVALID, ST_RESERVE, ST_PACCEPT, ST_PLISTEN, ST_LISTEN}"
    and "\<not> send_buffer_empty (ss_slot ss i) \<or> s_type (ss_slot ss i) \<noteq> ST_CONNECTED"
  shows "good B i ss ss'"
proof -
  obtain a where "append_sendbuffer i p data sz 0 a ss = Some ss'"
    using assms(1) by (auto simp: send_later_def bind_eq_Some_iff)
  note f = append_sendbuffer_facts[OF this]
  have li: "lists_inv (ss_slot ss' i)" using f(6) assms(2) ty by (simp add: sock_inv_def)
  have on: "interest i (ss_trace ss) \<or> s_id (ss_slot ss i) \<in> B"
    using assms(2-4) by (cases "s_type (ss_slot ss i)") (auto simp: sock_inv_def waits_def)
  have "waits (ss_slot ss' i) (interest i (ss_trace ss') \<or> s_id (ss_slot ss i) \<in> B)" using f(2,3) ty on by (auto simp: waits_def same_head_def)
  then show ?thesis using li on f(1-3) ty by (intro good_cong[OF assms(2)]) simp_all
qed

lemma send_socket_good:
  assumes "send_socket sid data sz p addr ss = Some (t, m, ss')"
    and inv: "sock_inv B (ss_slot ss (HASH_ID sid)) (interest (HASH_ID sid) (ss_trace ss))"
    and res: "s_type (ss_slot ss (HASH_ID sid)) = ST_RESERVE \<Longrightarrow> s_id (ss_slot ss (HASH_ID sid)) \<noteq> sid"
  shows "good B (HASH_ID sid) ss ss'"
proof -
  let ?i = "HASH_ID sid"
  let ?s = "ss_slot ss ?i"
  obtain x where so: "send_object_init (ss_soi ss) data sz = Some x" using assms(1) by (auto simp: send_socket_def Let_def bind_eq_Some_iff)
  note st = assms(1)[unfolded send_socket_def Let_def so Option.bind.bind_lunit]
  consider "s_type ?s \<in> {ST_INVALID, ST_HALFCLOSE, ST_PACCEPT, ST_PLISTEN, ST_LISTEN} \<or> s_id ?s \<noteq> sid"
    | "s_type ?s \<notin> {ST_INVALID, ST_HALFCLOSE, ST_PACCEPT, ST_PLISTEN, ST_LISTEN} \<and> s_id ?s = sid"
      "send_buffer_empty ?s \<and> s_type ?s = ST_CONNECTED"
    | "s_type ?s \<notin> {ST_INVALID, ST_HALFCLOSE, ST_PACCEPT, ST_PLISTEN, ST_LISTEN} \<and> s_id ?s = sid"
      "\<not> (send_buffer_empty ?s \<and> s_type ?s = ST_CONNECTED)" by argo
  then show ?thesis
  proof cases
    case 1
    then show ?thesis using st by (intro good_same[OF inv]) (auto simp: watch_def only_def)
  next
    case 2
    then show ?thesis using st by (intro send_now_good[OF _ inv]) simp_all
  next
    case 3
    then show ?thesis using st res by (intro send_later_good[OF _ inv]) auto
  qed
qed

text \<open>A reserved slot that is taken, or given back.\<close>

definition opened :: "int set \<Rightarrow> nat \<Rightarrow> socket_server \<Rightarrow> socket_server \<Rightarrow> bool" where
  "opened B i ss ss' \<longleftrightarrow> only i ss ss' \<and> sock_inv B (ss_slot ss' i) (interest i (ss_trace ss')) \<and>
     s_id (ss_slot ss' i) = s_id (ss_slot ss i) \<and> s_type (ss_slot ss' i) \<noteq> ST_RESERVE"

abbreviation reserved :: "int \<Rightarrow> socket_server \<Rightarrow> bool" where
  "reserved sid ss \<equiv> s_type (ss_slot ss (HASH_ID sid)) = ST_RESERVE \<and> s_id (ss_slot ss (HASH_ID sid)) = sid \<and>
     send_buffer_empty (ss_slot ss (HASH_ID sid))"

text \<open>With the slot reserved no assertion of \<open>new_fd\<close> fails.\<close>

lemma new_fd_facts:
  assumes "new_fd sid fd proto opaque add ss = Some (ok, ss')" "reserved sid ss"
  shows "only (HASH_ID sid) ss ss'" "s_id (ss_slot ss' (HASH_ID sid)) = sid" "send_buffer_empty (ss_slot ss' (HASH_ID sid))"
    "\<not> ok \<Longrightarrow> s_type (ss_slot ss' (HASH_ID sid)) = ST_INVALID"
    "ok \<Longrightarrow> s_wb_size (ss_slot ss' (HASH_ID sid)) = 0 \<and> s_protocol (ss_slot ss' (HASH_ID sid)) = proto \<and>
       s_p (ss_slot ss' (HASH_ID sid)) = P_size MIN_READ_BUFFER"
proof -
  have "only (HASH_ID sid) ss ss' \<and> s_id (ss_slot ss' (HASH_ID sid)) = sid \<and> send_buffer_empty (ss_slot ss' (HASH_ID sid)) \<and>
    (\<not> ok \<longrightarrow> s_type (ss_slot ss' (HASH_ID sid)) = ST_INVALID) \<and>
    (ok \<longrightarrow> s_wb_size (ss_slot ss' (HASH_ID sid)) = 0 \<and> s_protocol (ss_slot ss' (HASH_ID sid)) = proto \<and>
       s_p (ss_slot ss' (HASH_ID sid)) = P_size MIN_READ_BUFFER)"
  proof (cases add)
    case True
    obtain r rs where "ss_os ss = r # rs" using assms True by (cases "ss_os ss") (auto simp: new_fd_def Let_def os_ask_def split: if_splits)
    then show ?thesis using assms True
      by (cases r) (auto simp: new_fd_def Let_def os_ask_def only_def watch_def send_buffer_empty_def split: if_splits)
  next
    case False
    then show ?thesis using assms by (auto simp: new_fd_def Let_def send_buffer_empty_def split: if_splits)
  qed
  then show "only (HASH_ID sid) ss ss'" "s_id (ss_slot ss' (HASH_ID sid)) = sid" "send_buffer_empty (ss_slot ss' (HASH_ID sid))"
    "\<not> ok \<Longrightarrow> s_type (ss_slot ss' (HASH_ID sid)) = ST_INVALID"
    "ok \<Longrightarrow> s_wb_size (ss_slot ss' (HASH_ID sid)) = 0 \<and> s_protocol (ss_slot ss' (HASH_ID sid)) = proto \<and>
       s_p (ss_slot ss' (HASH_ID sid)) = P_size MIN_READ_BUFFER"
    by blast+
qed

lemma read_size_start: "MIN_READ_BUFFER < 2 ^ 31" "\<exists>k. MIN_READ_BUFFER = MIN_READ_BUFFER * 2 ^ k"
  by (simp add: MIN_READ_BUFFER_def, rule exI[of _ 0], simp)

text \<open>A slot that was just filled, given the type of its state.\<close>

lemma new_slot_inv:
  assumes "send_buffer_empty s" "s_wb_size s = 0" "s_protocol s = PROTOCOL_TCP" "s_p s = P_size MIN_READ_BUFFER"
    and "t \<in> {ST_CONNECTED, ST_PLISTEN, ST_PACCEPT} \<or> t = ST_CONNECTING \<and> on \<or> t = ST_BIND \<and> s_id s \<in> B"
  shows "sock_inv B (s\<lparr>s_type := t\<rparr>) on"
  using assms read_size_start
  by (auto simp: sock_inv_def union_ok_def lists_inv_def waits_def unsent_size_def send_buffer_empty_def)

lemma new_fd_typed:
  assumes "new_fd sid fd PROTOCOL_TCP opaque add ss = Some (True, ss')" "reserved sid ss"
    and "t \<in> {ST_CONNECTED, ST_PLISTEN, ST_PACCEPT} \<or> t = ST_BIND \<and> sid \<in> B"
  shows "opened B (HASH_ID sid) ss (set_type (HASH_ID sid) t ss')"
proof -
  note f = new_fd_facts[OF assms(1,2)]
  have "sock_inv B ((ss_slot ss' (HASH_ID sid))\<lparr>s_type := t\<rparr>) (interest (HASH_ID sid) (ss_trace ss'))"
    using f(2,3,5) assms(3) by (intro new_slot_inv) auto
  then show ?thesis using f(1,2) assms(2,3) by (auto simp: opened_def set_type_def)
qed

lemma new_fd_refused:
  assumes "new_fd sid fd proto opaque add ss = Some (False, ss')" "reserved sid ss"
  shows "opened B (HASH_ID sid) ss ss'" "opened B (HASH_ID sid) ss (set_type (HASH_ID sid) ST_INVALID (os_do (C_close fd) ss'))"
    "opened B (HASH_ID sid) ss (os_do (C_close fd) ss')"
  using new_fd_facts(1-4)[OF assms] assms(2)
  by (auto simp: opened_def sock_inv_def set_type_def watch_def only_def send_buffer_empty_def)

lemma opened_os: "opened B i (ss\<lparr>ss_os := rs\<rparr>) ss' \<Longrightarrow> opened B i ss ss'"
  by (simp add: opened_def only_def)

lemma open_socket_opened:
  assumes "open_socket sid opaque ss = Some (t, m, ss')" "reserved sid ss"
  shows "opened B (HASH_ID sid) ss ss'"
proof -
  let ?i = "HASH_ID sid"
  obtain r rs where os: "ss_os ss = r # rs" using assms by (cases "ss_os ss") (auto simp: open_socket_def os_ask_def Let_def)
  let ?ss1 = "ss\<lparr>ss_os := rs\<rparr>"
  have res: "reserved sid ?ss1" using assms(2) by simp
  note st = assms(1)[unfolded open_socket_def Let_def os_ask_def os list.case Option.bind.bind_lunit prod.case]
  have "opened B ?i ?ss1 ss'"
  proof (cases r)
    case (R_text tx)
    then show ?thesis using st assms(2) by (auto simp: opened_def sock_inv_def set_type_def only_def send_buffer_empty_def)
  next
    case (R_connected fd tx)
    then obtain ok ss2 where n: "new_fd sid fd PROTOCOL_TCP opaque True ?ss1 = Some (ok, ss2)"
      using st by (auto simp: bind_eq_Some_iff)
    show ?thesis
    proof (cases ok)
      case True
      then show ?thesis using st R_connected n new_fd_typed[OF _ res, of fd opaque True ss2 ST_CONNECTED] by simp
    next
      case False
      then show ?thesis using st R_connected n new_fd_refused(2)[OF _ res, of fd PROTOCOL_TCP opaque True ss2] by simp
    qed
  next
    case (R_connecting fd)
    then obtain ok ss2 where n: "new_fd sid fd PROTOCOL_TCP opaque True ?ss1 = Some (ok, ss2)"
      using st by (auto simp: bind_eq_Some_iff)
    show ?thesis
    proof (cases ok)
      case True
      note f = new_fd_facts[OF n res]
      have "sock_inv B ((ss_slot ss2 ?i)\<lparr>s_type := ST_CONNECTING\<rparr>) True"
        using f(3,5) True by (intro new_slot_inv) simp_all
      then show ?thesis using st R_connecting n True f(1,2) assms(2)
        by (auto simp: opened_def set_type_def watch_def only_def)
    next
      case False
      then show ?thesis using st R_connecting n new_fd_refused(2)[OF _ res, of fd PROTOCOL_TCP opaque True ss2] by simp
    qed
  qed (use st in simp_all)
  then show ?thesis by (rule opened_os)
qed

lemma listen_socket_opened:
  assumes "listen_socket sid fd opaque ss = Some (t, m, ss')" "reserved sid ss"
  shows "opened B (HASH_ID sid) ss ss'"
  using assms new_fd_typed[OF _ assms(2), of fd opaque False _ ST_PLISTEN] new_fd_refused(2)[OF _ assms(2), of fd PROTOCOL_TCP opaque False]
  by (auto simp: listen_socket_def bind_eq_Some_iff split: if_splits)

lemma bind_socket_opened:
  assumes "bind_socket sid fd opaque ss = Some (t, m, ss')" "reserved sid ss" "sid \<in> B"
  shows "opened B (HASH_ID sid) ss ss'"
  using assms new_fd_typed[OF _ assms(2), of fd opaque True _ ST_BIND] new_fd_refused(1)[OF _ assms(2), of fd PROTOCOL_TCP opaque True]
  by (auto simp: bind_socket_def bind_eq_Some_iff split: if_splits)

lemma add_udp_socket_opened:
  assumes "add_udp_socket sid fd inet6 opaque ss = Some ss'" "reserved sid ss"
  shows "opened B (HASH_ID sid) ss ss'"
proof -
  let ?i = "HASH_ID sid" and ?p = "if inet6 then PROTOCOL_UDPv6 else PROTOCOL_UDP"
  obtain ok ss1 where n: "new_fd sid fd ?p opaque True ss = Some (ok, ss1)" using assms(1) by (auto simp: add_udp_socket_def bind_eq_Some_iff Let_def)
  note f = new_fd_facts[OF n assms(2)]
  show ?thesis
  proof (cases ok)
    case True
    let ?s = "(ss_slot ss1 ?i)\<lparr>s_type := ST_CONNECTED, s_p := P_address (replicate 19 0)\<rparr>"
    have "sock_inv B ?s on" for on using f(3,5) True
      by (auto simp: sock_inv_def union_ok_def lists_inv_def waits_def unsent_size_def send_buffer_empty_def
          PROTOCOL_UDP_def PROTOCOL_UDPv6_def PROTOCOL_TCP_def)
    then show ?thesis using assms n True f(1,2) by (auto simp: add_udp_socket_def opened_def Let_def)
  next
    case False
    then show ?thesis using assms(1) n new_fd_refused(2)[OF _ assms(2), of fd ?p opaque True ss1]
      by (auto simp: add_udp_socket_def Let_def)
  qed
qed

lemma close_socket_good:
  assumes "close_socket sid shutdown opaque ss = Some (t, m, ss')"
    and inv: "sock_inv B (ss_slot ss (HASH_ID sid)) (interest (HASH_ID sid) (ss_trace ss))"
  shows "good B (HASH_ID sid) ss ss'"
proof -
  let ?i = "HASH_ID sid"
  let ?s = "ss_slot ss ?i"
  consider "s_type ?s = ST_INVALID \<or> s_id ?s \<noteq> sid" | "s_type ?s \<noteq> ST_INVALID" "s_id ?s = sid" "send_buffer_empty ?s"
    | "s_type ?s \<noteq> ST_INVALID" "s_id ?s = sid" "\<not> send_buffer_empty ?s" by blast
  then show ?thesis
  proof cases
    case 1
    then show ?thesis using assms(1) by (intro good_same[OF inv]) (auto simp: close_socket_def Let_def)
  next
    case 2
    then obtain x where "force_close ?i ss = Some (x, ss')"
      using assms(1) by (auto simp: close_socket_def Let_def bind_eq_Some_iff)
    then show ?thesis by (rule force_close_good[OF _ inv])
  next
    case 3
    then have ty: "s_type ?s \<notin> {ST_INVALID, ST_RESERVE, ST_PLISTEN, ST_LISTEN, ST_PACCEPT}" and li: "lists_inv ?s"
      and on: "interest ?i (ss_trace ss) \<or> sid \<in> B"
      using inv by (auto simp: sock_inv_def waits_def split: if_splits) (cases "s_type ?s"; auto)
    obtain t1 m1 ss1 where f: "send_buffer ?i ss = Some (t1, m1, ss1)"
        and r: "(if t1 \<noteq> -1 then Some (t1, m1, ss1)
          else if shutdown \<or> send_buffer_empty (ss_slot ss1 ?i) then do {
            (_, ss2) \<leftarrow> force_close ?i ss1;
            Some (SOCKET_CLOSE, \<lparr>so_id = sid, so_opaque = opaque, so_ud = 0, so_data = None\<rparr>, ss2) }
          else Some (-1, no_message, set_type ?i ST_HALFCLOSE ss1)) = Some (t, m, ss')"
      using assms(1) 3 by (auto simp: close_socket_def Let_def bind_eq_Some_iff)
    from send_buffer_flushed[OF f li] consider "t1 = -1" "flushed ?i ss ss1" | "t1 = SOCKET_CLOSE" "closed ?i ss ss1"
      by (auto simp: flushed_or_closed_def)
    then show ?thesis
    proof cases
      case 2
      then show ?thesis using r closed_good[OF 2(2)] 3(1) by simp
    next
      case 1
      have fl: "only ?i ss ss1" "same_head ?s (ss_slot ss1 ?i)" "lists_inv (ss_slot ss1 ?i)"
        "interest ?i (ss_trace ss1) \<or> sid \<in> B \<or> send_buffer_empty (ss_slot ss1 ?i)"
        using 1(2) on by (auto simp: flushed_def)
      show ?thesis
      proof (cases "shutdown \<or> send_buffer_empty (ss_slot ss1 ?i)")
        case True
        then obtain x where "force_close ?i ss1 = Some (x, ss')" using r 1(1) by (auto simp: bind_eq_Some_iff)
        from closed_good[OF closed_trans[OF fl(1,2) force_close_closed[OF this]] 3(1)] show ?thesis .
      next
        case False
        then have ss': "ss' = set_type ?i ST_HALFCLOSE ss1" using r 1(1) by simp
        have "union_ok ?s" using inv ty by (simp add: sock_inv_def)
        then have "sock_inv B (ss_slot ss' ?i) (interest ?i (ss_trace ss'))"
          using fl(2-4) False 3(2) unfolding ss'
          by (auto simp: set_type_def sock_inv_def waits_def lists_inv_def unsent_size_def same_head_def union_ok_def split: socket_p.splits)
        then show ?thesis unfolding good_def using fl(1,2) ty ss' by (auto simp: set_type_def same_head_def)
      qed
    qed
  qed
qed

lemma start_socket_good:
  assumes "start_socket sid opaque ss = Some (t, m, ss')"
    and inv: "sock_inv B (ss_slot ss (HASH_ID sid)) (interest (HASH_ID sid) (ss_trace ss))"
  shows "good B (HASH_ID sid) ss ss'"
proof -
  let ?i = "HASH_ID sid"
  let ?s = "ss_slot ss ?i"
  have same: "good B ?i ss ss" by (rule good_same[OF inv]) simp_all
  consider "s_type ?s = ST_INVALID \<or> s_id ?s \<noteq> sid"
    | "s_id ?s = sid" "s_type ?s = ST_PACCEPT \<or> s_type ?s = ST_PLISTEN"
    | "s_id ?s = sid" "s_type ?s = ST_CONNECTED"
    | "s_id ?s = sid" "s_type ?s \<notin> {ST_INVALID, ST_PACCEPT, ST_PLISTEN, ST_CONNECTED}" by blast
  then show ?thesis
  proof cases
    case 2
    obtain r rs where os: "ss_os ss = r # rs"
      using assms(1) 2 by (cases "ss_os ss") (auto simp: start_socket_def Let_def os_ask_def)
    show ?thesis
    proof (cases r)
      case R_ok
      let ?t = "if s_type ?s = ST_PACCEPT then ST_CONNECTED else ST_LISTEN"
      have ss': "ss' = set_slot ?i (?s\<lparr>s_type := ?t, s_opaque := opaque\<rparr>) (os_do (C_sp_add (s_fd ?s) ?i) (ss\<lparr>ss_os := rs\<rparr>))"
        using assms(1) 2 os R_ok by (auto simp: start_socket_def Let_def os_ask_def)
      have "union_ok ?s" "lists_inv ?s" "send_buffer_empty ?s" using inv 2 by (auto simp: sock_inv_def waits_def)
      then have "sock_inv B (?s\<lparr>s_type := ?t, s_opaque := opaque\<rparr>) on" for on
        by (auto simp: sock_inv_def waits_def lists_inv_def unsent_size_def union_ok_def send_buffer_empty_def split: socket_p.splits)
      then show ?thesis unfolding ss' good_def using 2 by (auto simp: only_def watch_def)
    next
      case (R_error e)
      then obtain x where "force_close ?i (ss\<lparr>ss_os := rs\<rparr>) = Some (x, ss')"
        using assms(1) 2 os by (auto simp: start_socket_def Let_def os_ask_def bind_eq_Some_iff)
      from good_os[OF force_close_good[OF this]] show ?thesis using inv by simp
    qed (use assms(1) 2 os in \<open>auto simp: start_socket_def Let_def os_ask_def\<close>)
  next
    case 3
    then have "ss' = set_slot ?i (?s\<lparr>s_opaque := opaque\<rparr>) ss" using assms(1) by (auto simp: start_socket_def Let_def)
    then show ?thesis using 3 inv
      by (intro good_cong[OF inv]) (auto simp: sock_inv_def waits_def lists_inv_def unsent_size_def send_buffer_empty_def same_head_def)
  qed (use assms(1) same in \<open>auto simp: start_socket_def Let_def\<close>)
qed

lemma setopt_socket_good:
  assumes "sock_inv B (ss_slot ss (HASH_ID sid)) (interest (HASH_ID sid) (ss_trace ss))"
  shows "good B (HASH_ID sid) ss (setopt_socket sid what v ss)"
  by (rule good_same[OF assms]) (auto simp: setopt_socket_def Let_def watch_def only_def)

text \<open>The union of a slot changes within its kind.\<close>

lemma good_union:
  assumes inv: "sock_inv B (ss_slot ss i) (interest i (ss_trace ss))" and u: "union_ok (ss_slot ss i) \<Longrightarrow> union_ok ((ss_slot ss i)\<lparr>s_p := x\<rparr>)"
  shows "good B i ss (set_slot i ((ss_slot ss i)\<lparr>s_p := x\<rparr>) (ss\<lparr>ss_os := rs\<rparr>))"
proof -
  have "sock_inv B ((ss_slot ss i)\<lparr>s_p := x\<rparr>) on" if "sock_inv B (ss_slot ss i) on" for on
    using that u by (auto simp: sock_inv_def waits_def lists_inv_def unsent_size_def send_buffer_empty_def split: if_splits)
  then show ?thesis using inv by (simp add: good_def only_def)
qed

lemma set_udp_address_good:
  assumes "set_udp_address sid addr ss = Some (t, m, ss')"
    and inv: "sock_inv B (ss_slot ss (HASH_ID sid)) (interest (HASH_ID sid) (ss_trace ss))"
  shows "good B (HASH_ID sid) ss ss'"
proof -
  let ?i = "HASH_ID sid"
  let ?s = "ss_slot ss ?i"
  have same: "good B ?i ss ss" by (rule good_same[OF inv]) simp_all
  let ?n = "if unat (hd addr) = PROTOCOL_UDP then 7 else (19::nat)"
  consider "ss' = ss" | a where "s_p ?s = P_address a" "?n \<le> length addr"
      "ss' = set_slot ?i (?s\<lparr>s_p := P_address (take ?n addr @ drop ?n a)\<rparr>) ss"
  proof (cases "s_p ?s")
    case (P_address a)
    then show thesis using assms(1) that(1) that(2)[of a]
      by (auto simp: set_udp_address_def Let_def simp del: One_nat_def split: if_splits)
  qed (use assms(1) that(1) in \<open>auto simp: set_udp_address_def Let_def split: if_splits\<close>)
  then show ?thesis
  proof cases
    case 2
    then have "length (take ?n addr @ drop ?n a) = 19" if "length a = 19" using that by simp
    then show ?thesis using 2 good_union[OF inv, of "P_address (take ?n addr @ drop ?n a)" "ss_os ss"]
      by (simp add: union_ok_def)
  qed (use same in simp)
qed

section \<open>Events\<close>

lemma os_askE:
  assumes "os_ask ss = Some (r, ss1)"
  obtains rs where "ss_os ss = r # rs" "ss1 = ss\<lparr>ss_os := rs\<rparr>"
  using assms by (auto simp: os_ask_def split: list.splits)

lemma read_size_step:
  assumes "n < 2 ^ 31" "\<exists>k. n = MIN_READ_BUFFER * 2 ^ k" "MIN_READ_BUFFER < n"
  shows "\<exists>k. n div 2 = MIN_READ_BUFFER * 2 ^ k"
proof -
  obtain k where k: "n = MIN_READ_BUFFER * 2 ^ k" using assms(2) by blast
  then obtain j where "k = Suc j" using assms(3) by (cases k) auto
  then show ?thesis using k by (auto intro: exI[of _ j])
qed

lemma good_ev [simp]: "good B i ss (ss'\<lparr>ss_ev := e\<rparr>) = good B i ss ss'" "good B i ss (ss'\<lparr>ss_event_index := k\<rparr>) = good B i ss ss'"
  "good B i (ss\<lparr>ss_event_index := k\<rparr>) ss' = good B i ss ss'"
  by (simp_all add: good_def only_def)

lemma forward_message_tcp_good:
  assumes "forward_message_tcp i ss = Some (t, m, ss')" and inv: "sock_inv B (ss_slot ss i) (interest i (ss_trace ss))"
  shows "good B i ss ss'"
proof -
  let ?s = "ss_slot ss i"
  obtain sz where p: "s_p ?s = P_size sz" using assms(1) by (auto simp: forward_message_tcp_def Let_def split: socket_p.splits)
  obtain r rs where os: "ss_os ss = r # rs"
    using assms(1) p by (cases "ss_os ss") (auto simp: forward_message_tcp_def Let_def os_ask_def)
  note st = assms(1)[unfolded forward_message_tcp_def Let_def p socket_p.case os_ask_def os list.case Option.bind.bind_lunit prod.case]
  have same: "good B i ss (ss\<lparr>ss_os := rs\<rparr>)" by (rule good_same[OF inv]) (simp_all add: only_def)
  have fc: "good B i ss ss2" if "force_close i (ss\<lparr>ss_os := rs\<rparr>) = Some (x, ss2)" for x ss2
    by (rule good_os[OF force_close_good[OF that]]) (use inv in simp)
  show ?thesis
  proof (cases r)
    case (R_error e)
    then show ?thesis using st same fc by (auto simp: bind_eq_Some_iff split: if_splits)
  next
    case (R_bytes bs)
    show ?thesis
    proof (cases "bs = [] \<or> s_type ?s = ST_HALFCLOSE")
      case True
      then show ?thesis using st R_bytes same fc by (auto simp: bind_eq_Some_iff split: if_splits)
    next
      case False
      let ?n = "int (length bs)"
      let ?sz1 = "if ?n = sz then sz * 2 else if MIN_READ_BUFFER < sz \<and> ?n * 2 < sz then sz div 2 else sz"
      have ss': "ss' = set_slot i (?s\<lparr>s_p := P_size ?sz1\<rparr>) (ss\<lparr>ss_os := rs\<rparr>)" and o: "\<not> (?n = sz \<and> 2 ^ 31 \<le> sz * 2)"
        using st R_bytes False by (auto split: if_splits)
      have "union_ok (?s\<lparr>s_p := P_size ?sz1\<rparr>)" if "union_ok ?s"
      proof -
        have u: "s_protocol ?s = PROTOCOL_TCP" "sz < 2 ^ 31" "\<exists>k. sz = MIN_READ_BUFFER * 2 ^ k" using that p by (auto simp: union_ok_def)
        have "\<exists>k. sz * 2 = MIN_READ_BUFFER * 2 ^ k" using u(3) by (metis mult.assoc power_Suc2)
        moreover have "0 \<le> sz" using u(3) by (auto simp: MIN_READ_BUFFER_def)
        ultimately show ?thesis using u o read_size_step[OF u(2,3)] by (auto simp: union_ok_def)
      qed
      then show ?thesis unfolding ss' by (rule good_union[OF inv])
    qed
  qed (use st in simp_all)
qed

lemma forward_message_udp_good:
  assumes "forward_message_udp i ss = Some (t, m, ss')" and inv: "sock_inv B (ss_slot ss i) (interest i (ss_trace ss))"
  shows "good B i ss ss'"
proof -
  obtain r rs where os: "ss_os ss = r # rs"
    using assms(1) by (cases "ss_os ss") (auto simp: forward_message_udp_def Let_def os_ask_def)
  have same: "good B i ss (ss\<lparr>ss_os := rs\<rparr>)" by (rule good_same[OF inv]) (simp_all add: only_def)
  have fc: "good B i ss ss2" if "force_close i (ss\<lparr>ss_os := rs\<rparr>) = Some (x, ss2)" for x ss2
    by (rule good_os[OF force_close_good[OF that]]) (use inv in simp)
  show ?thesis using assms(1) os same fc
    by (cases r) (auto simp: forward_message_udp_def Let_def os_ask_def bind_eq_Some_iff split: if_splits)
qed

lemma report_connect_good:
  assumes "report_connect i ss = Some (t, m, ss')" and inv: "sock_inv B (ss_slot ss i) (interest i (ss_trace ss))"
    and ty: "s_type (ss_slot ss i) = ST_CONNECTING"
  shows "good B i ss ss'"
proof -
  let ?s = "ss_slot ss i"
  obtain r rs where os: "ss_os ss = r # rs"
    using assms(1) by (cases "ss_os ss") (auto simp: report_connect_def Let_def os_ask_def)
  have fc: "good B i ss ss2" if "force_close i (ss\<lparr>ss_os := rs\<rparr>) = Some (x, ss2)" for x ss2
    by (rule good_os[OF force_close_good[OF that]]) (use inv in simp)
  have "sock_inv B (?s\<lparr>s_type := ST_CONNECTED\<rparr>) (\<not> send_buffer_empty ?s \<and> interest i (ss_trace ss))"
    using inv ty by (auto simp: sock_inv_def waits_def lists_inv_def unsent_size_def union_ok_def send_buffer_empty_def split: socket_p.splits)
  then show ?thesis using assms(1) os fc ty inv
    by (cases r) (auto simp: report_connect_def Let_def os_ask_def bind_eq_Some_iff good_def only_def watch_def sock_inv_def split: if_splits)
qed

text \<open>A flush of a slot with nothing to send.\<close>

lemma send_buffer_reserved:
  assumes "send_buffer i ss = Some (t, m, ss')" "sock_inv B (ss_slot ss i) (interest i (ss_trace ss))"
    and "s_type (ss_slot ss i) = ST_RESERVE"
  shows "good B i ss ss'"
proof -
  have "send_buffer_empty (ss_slot ss i)" using assms(2,3) by (simp add: sock_inv_def)
  then have "ss' = os_do (C_sp_write (s_fd (ss_slot ss i)) i False) ss"
    using assms(1,3) by (auto simp: send_buffer_def send_buffer_empty_def list_uncomplete_def send_list_def Let_def get_list_def
        send_list_tcp.simps[of i PRIORITY_HIGH ss] send_list_udp.simps[of i PRIORITY_HIGH ss] split: if_splits)
  then show ?thesis using assms(2,3) by (auto simp: good_def only_def watch_def sock_inv_def)
qed

end
