(* ===== verification/Socket_Pipe.thy ===== *)
theory Socket_Pipe
  imports Socket_Reach
begin

text \<open>
  The order of the requests in the pipe, which keeps the assertions of \<open>new_fd\<close>: a number is reserved before its
  opening request is written, and data for it is written after that.
\<close>

section \<open>Reserving\<close>

definition room :: "socket_server \<Rightarrow> bool" where
  "room ss \<longleftrightarrow> 0 \<le> sint (ss_alloc_id ss) \<and> sint (ss_alloc_id ss) + int MAX_SOCKET < 2 ^ 31"

lemma sint_suc:
  fixes a :: i32
  assumes "0 \<le> sint a" "sint a + 1 < 2 ^ 31"
  shows "sint (a + 1) = sint a + 1"
  using assms by (simp add: sint_word_ariths(1) signed_take_bit_int_eq_self)

lemma reserve_loop_facts:
  assumes "reserve_loop n ss = (sid, ss')" "0 \<le> sint (ss_alloc_id ss)" "sint (ss_alloc_id ss) + int n < 2 ^ 31"
  shows "(sid = -1 \<and> ss_slot ss' = ss_slot ss \<or>
      sint (ss_alloc_id ss) < sid \<and> s_type (ss_slot ss (HASH_ID sid)) = ST_INVALID \<and> sid = sint (ss_alloc_id ss') \<and>
      ss_slot ss' = (ss_slot ss)(HASH_ID sid := (ss_slot ss (HASH_ID sid))\<lparr>s_type := ST_RESERVE, s_id := sid, s_fd := -1\<rparr>)) \<and>
    sint (ss_alloc_id ss) \<le> sint (ss_alloc_id ss') \<and>
    ss_pipe ss' = ss_pipe ss \<and> ss_trace ss' = ss_trace ss \<and> ss_os ss' = ss_os ss"
  using assms
proof (induction n arbitrary: ss)
  case 0
  then show ?case by simp
next
  case (Suc n)
  let ?a = "ss_alloc_id ss + 1"
  have a: "sint ?a = sint (ss_alloc_id ss) + 1" using Suc.prems by (intro sint_suc) simp_all
  let ?ss1 = "ss\<lparr>ss_alloc_id := ?a\<rparr>"
  let ?s = "ss_slot ss (HASH_ID (sint ?a))"
  have st: "reserve_loop (Suc n) ss = (if s_type ?s = ST_INVALID
      then (sint ?a, set_slot (HASH_ID (sint ?a)) (?s\<lparr>s_type := ST_RESERVE, s_id := sint ?a, s_fd := -1\<rparr>) ?ss1)
      else reserve_loop n ?ss1)"
    using a Suc.prems(2) by (simp add: Let_def)
  show ?case
  proof (cases "s_type ?s = ST_INVALID")
    case True
    then show ?thesis using Suc.prems(1) st a by (auto simp: set_slot_def)
  next
    case False
    then have "reserve_loop n ?ss1 = (sid, ss')" using Suc.prems(1) st by simp
    from Suc.IH[OF this] show ?thesis using a Suc.prems(2,3) by auto
  qed
qed

lemma reserve_id_facts:
  assumes "reserve_id ss = (sid, ss')" "room ss"
  shows "sint (ss_alloc_id ss) \<le> sint (ss_alloc_id ss')" "ss_pipe ss' = ss_pipe ss" "ss_trace ss' = ss_trace ss" "ss_os ss' = ss_os ss"
    "sid < 0 \<Longrightarrow> ss_slot ss' = ss_slot ss"
    "\<not> sid < 0 \<Longrightarrow> sint (ss_alloc_id ss) < sid \<and> s_type (ss_slot ss (HASH_ID sid)) = ST_INVALID \<and> sid = sint (ss_alloc_id ss') \<and>
      ss_slot ss' = (ss_slot ss)(HASH_ID sid := (ss_slot ss (HASH_ID sid))\<lparr>s_type := ST_RESERVE, s_id := sid, s_fd := -1\<rparr>)"
  using reserve_loop_facts[of MAX_SOCKET ss sid ss'] assms by (auto simp: reserve_id_def room_def)

section \<open>The requests in the pipe\<close>

fun opener :: "request \<Rightarrow> int option" where
  "opener (Req_O sid _ _ _) = Some sid"
| "opener (Req_L sid _ _) = Some sid"
| "opener (Req_B sid _ _) = Some sid"
| "opener (Req_U sid _ _ _) = Some sid"
| "opener _ = None"

fun sender :: "request \<Rightarrow> int option" where
  "sender (Req_D sid _ _) = Some sid"
| "sender (Req_P sid _ _) = Some sid"
| "sender (Req_A sid _ _ _) = Some sid"
| "sender _ = None"

fun bound_by :: "request \<Rightarrow> int option" where
  "bound_by (Req_B sid _ _) = Some sid"
| "bound_by _ = None"

text \<open>No opening request comes after data for the same number, or after another.\<close>

fun ordered :: "request list \<Rightarrow> bool" where
  "ordered [] = True"
| "ordered (r # rs) \<longleftrightarrow>
     (\<forall>q \<in> set rs. opener q \<noteq> None \<longrightarrow> opener q \<noteq> opener r \<and> opener q \<noteq> sender r) \<and> ordered rs"

lemma ordered_snoc:
  "ordered (rs @ [q]) \<longleftrightarrow> ordered rs \<and> (opener q \<noteq> None \<longrightarrow> (\<forall>r \<in> set rs. opener q \<noteq> opener r \<and> opener q \<noteq> sender r))"
  by (induction rs) auto

definition pipe_inv :: "int set \<Rightarrow> socket_server \<Rightarrow> bool" where
  "pipe_inv B ss \<longleftrightarrow>
     (\<forall>i. s_type (ss_slot ss i) \<noteq> ST_INVALID \<longrightarrow>
        HASH_ID (s_id (ss_slot ss i)) = i \<and> s_id (ss_slot ss i) \<le> sint (ss_alloc_id ss)) \<and>
     (\<forall>i. s_type (ss_slot ss i) = ST_RESERVE \<longrightarrow> Some (s_id (ss_slot ss i)) \<in> opener ` set (ss_pipe ss)) \<and>
     (\<forall>r \<in> set (ss_pipe ss). \<forall>sid. opener r = Some sid \<longrightarrow>
        s_type (ss_slot ss (HASH_ID sid)) = ST_RESERVE \<and> s_id (ss_slot ss (HASH_ID sid)) = sid) \<and>
     (\<forall>r \<in> set (ss_pipe ss). \<forall>sid. sender r = Some sid \<longrightarrow> sid \<le> sint (ss_alloc_id ss)) \<and>
     (\<forall>r \<in> set (ss_pipe ss). \<forall>sid. bound_by r = Some sid \<longrightarrow> sid \<in> B) \<and> ordered (ss_pipe ss)"

definition all_inv :: "int set \<Rightarrow> socket_server \<Rightarrow> bool" where
  "all_inv B ss \<longleftrightarrow> server_inv B ss \<and> pipe_inv B ss"

lemma all_invD:
  assumes "all_inv B ss"
  shows "sock_inv B (ss_slot ss i) (interest i (ss_trace ss))"
    "s_type (ss_slot ss i) \<noteq> ST_INVALID \<Longrightarrow> HASH_ID (s_id (ss_slot ss i)) = i \<and> s_id (ss_slot ss i) \<le> sint (ss_alloc_id ss)"
    "s_type (ss_slot ss i) = ST_RESERVE \<Longrightarrow> Some (s_id (ss_slot ss i)) \<in> opener ` set (ss_pipe ss)"
    "r \<in> set (ss_pipe ss) \<Longrightarrow> opener r = Some sid \<Longrightarrow>
       s_type (ss_slot ss (HASH_ID sid)) = ST_RESERVE \<and> s_id (ss_slot ss (HASH_ID sid)) = sid"
    "r \<in> set (ss_pipe ss) \<Longrightarrow> sender r = Some sid \<Longrightarrow> sid \<le> sint (ss_alloc_id ss)"
    "r \<in> set (ss_pipe ss) \<Longrightarrow> bound_by r = Some sid \<Longrightarrow> sid \<in> B" "ordered (ss_pipe ss)"
  using assms by (auto simp: all_inv_def server_inv_def pipe_inv_def)

lemma all_invI:
  assumes "\<And>i. sock_inv B (ss_slot ss i) (interest i (ss_trace ss))"
    "\<And>i. s_type (ss_slot ss i) \<noteq> ST_INVALID \<Longrightarrow> HASH_ID (s_id (ss_slot ss i)) = i \<and> s_id (ss_slot ss i) \<le> sint (ss_alloc_id ss)"
    "\<And>i. s_type (ss_slot ss i) = ST_RESERVE \<Longrightarrow> Some (s_id (ss_slot ss i)) \<in> opener ` set (ss_pipe ss)"
    "\<And>r sid. r \<in> set (ss_pipe ss) \<Longrightarrow> opener r = Some sid \<Longrightarrow>
       s_type (ss_slot ss (HASH_ID sid)) = ST_RESERVE \<and> s_id (ss_slot ss (HASH_ID sid)) = sid"
    "\<And>r sid. r \<in> set (ss_pipe ss) \<Longrightarrow> sender r = Some sid \<Longrightarrow> sid \<le> sint (ss_alloc_id ss)"
    "\<And>r sid. r \<in> set (ss_pipe ss) \<Longrightarrow> bound_by r = Some sid \<Longrightarrow> sid \<in> B" "ordered (ss_pipe ss)"
  shows "all_inv B ss"
  using assms by (simp add: all_inv_def server_inv_def pipe_inv_def)

section \<open>Requests\<close>

text \<open>A step that reserves and takes nothing.\<close>

lemma good_all_inv:
  assumes "all_inv B ss" "good B i ss ss'"
  shows "all_inv B ss'"
proof -
  have s: "ss_pipe ss' = ss_pipe ss" "ss_alloc_id ss' = ss_alloc_id ss" "s_id (ss_slot ss' j) = s_id (ss_slot ss j)"
      "s_type (ss_slot ss' j) = ST_RESERVE \<longleftrightarrow> s_type (ss_slot ss j) = ST_RESERVE"
      "s_type (ss_slot ss' j) \<noteq> ST_INVALID \<Longrightarrow> s_type (ss_slot ss j) \<noteq> ST_INVALID" for j
    using assms(2) by (cases "j = i"; auto simp: good_def only_def)+
  show ?thesis using assms(1) good_inv[OF _ assms(2)] s by (simp add: all_inv_def pipe_inv_def)
qed

text \<open>The opening request at the head of the pipe takes its slot.\<close>

lemma opened_all_inv:
  assumes inv: "all_inv B ss" and p: "ss_pipe ss = r # rs" "opener r = Some sid"
    and o: "opened B (HASH_ID sid) (ss\<lparr>ss_pipe := rs\<rparr>) ss'"
  shows "all_inv B ss'"
proof -
  let ?i = "HASH_ID sid"
  note d = all_invD[OF inv]
  have res: "s_type (ss_slot ss ?i) = ST_RESERVE" "s_id (ss_slot ss ?i) = sid" using d(4)[of r sid] p by simp_all
  have s: "ss_pipe ss' = rs" "ss_alloc_id ss' = ss_alloc_id ss" "s_type (ss_slot ss' ?i) \<noteq> ST_RESERVE"
      "sock_inv B (ss_slot ss' ?i) (interest ?i (ss_trace ss'))" "s_id (ss_slot ss' ?i) = sid"
    using o res by (auto simp: opened_def only_def)
  have other: "ss_slot ss' j = ss_slot ss j" "interest j (ss_trace ss') = interest j (ss_trace ss)" if "j \<noteq> ?i" for j
    using o that by (auto simp: opened_def only_def)
  show ?thesis
  proof (rule all_invI)
    fix i
    show "sock_inv B (ss_slot ss' i) (interest i (ss_trace ss'))" using s(4) d(1)[of i] other[of i] by (cases "i = ?i") simp_all
    show "HASH_ID (s_id (ss_slot ss' i)) = i \<and> s_id (ss_slot ss' i) \<le> sint (ss_alloc_id ss')" if "s_type (ss_slot ss' i) \<noteq> ST_INVALID"
      using that s(2,5) d(2)[of i] d(2)[of ?i] res other[of i] by (cases "i = ?i") simp_all
    show "Some (s_id (ss_slot ss' i)) \<in> opener ` set (ss_pipe ss')" if "s_type (ss_slot ss' i) = ST_RESERVE"
    proof -
      have i: "i \<noteq> ?i" using that s(3) by auto
      then have "s_id (ss_slot ss i) \<noteq> sid" using d(2)[of i] that other[of i] by auto
      then show ?thesis using d(3)[of i] that other[OF i] p s(1) by auto
    qed
  next
    fix q qid
    assume q: "q \<in> set (ss_pipe ss')" "opener q = Some qid"
    then have qs: "q \<in> set rs" using s(1) by simp
    then have "qid \<noteq> sid" using d(7) p q(2) by auto
    moreover have "s_type (ss_slot ss (HASH_ID qid)) = ST_RESERVE \<and> s_id (ss_slot ss (HASH_ID qid)) = qid"
      using d(4)[of q qid] q(2) qs p by simp
    ultimately show "s_type (ss_slot ss' (HASH_ID qid)) = ST_RESERVE \<and> s_id (ss_slot ss' (HASH_ID qid)) = qid"
      using other[of "HASH_ID qid"] res by (cases "HASH_ID qid = ?i") simp_all
  qed (use d(5-7) p s in auto)
qed

lemma all_inv_pop:
  assumes "all_inv B ss" "ss_pipe ss = r # rs" "opener r = None"
  shows "all_inv B (ss\<lparr>ss_pipe := rs\<rparr>)"
  using assms by (auto simp: all_inv_def server_inv_def pipe_inv_def)

lemma ctrl_cmd_all_inv:
  assumes inv: "all_inv B ss" and c: "ctrl_cmd ss = Some (t, m, ss')"
  shows "all_inv B ss'"
proof -
  obtain r rs where p: "ss_pipe ss = r # rs" using c by (auto simp: ctrl_cmd_def split: list.splits)
  let ?ss = "ss\<lparr>ss_pipe := rs\<rparr>"
  note d = all_invD[OF inv]
  have st: "do_request r ?ss = Some (t, m, ss')" using c p by (simp add: ctrl_cmd_def)
  have si: "sock_inv B (ss_slot ?ss i) (interest i (ss_trace ?ss))" for i using d(1) by simp
  have op: "all_inv B ss'" if "opener r = Some sid" "reserved sid ?ss \<Longrightarrow> opened B (HASH_ID sid) ?ss ss'" for sid
  proof (rule opened_all_inv[OF inv p that(1) that(2)])
    show "reserved sid ?ss" using d(4)[of r sid] d(1)[of "HASH_ID sid"] p that(1) by (simp add: sock_inv_def)
  qed
  have go: "all_inv B ss'" if "opener r = None" "good B i ?ss ss'" for i
    by (rule good_all_inv[OF all_inv_pop[OF inv p that(1)] that(2)])
  have se: "s_type (ss_slot ?ss (HASH_ID sid)) = ST_RESERVE \<Longrightarrow> s_id (ss_slot ?ss (HASH_ID sid)) \<noteq> sid" if "sender r = Some sid" for sid
    using d(3)[of "HASH_ID sid"] d(7) p that by (auto; cases r; auto)
  show ?thesis
  proof (cases r)
    case (Req_O sid port opaque host)
    then show ?thesis using st by (intro op) (auto simp: do_request_def intro: open_socket_opened)
  next
    case (Req_L sid fd opaque)
    then show ?thesis using st by (intro op) (auto simp: do_request_def intro: listen_socket_opened)
  next
    case (Req_U sid fd v6 opaque)
    then show ?thesis using st by (intro op) (auto simp: do_request_def bind_eq_Some_iff intro: add_udp_socket_opened)
  next
    case (Req_B sid fd opaque)
    then show ?thesis using st d(6)[of r sid] p by (intro op) (auto simp: do_request_def intro: bind_socket_opened)
  next
    case (Req_S sid opaque)
    then show ?thesis using st start_socket_good[OF _ si] by (intro go) (auto simp: do_request_def)
  next
    case (Req_K sid sh opaque)
    then show ?thesis using st close_socket_good[OF _ si] by (intro go) (auto simp: do_request_def)
  next
    case Req_X
    then show ?thesis using st all_inv_pop[OF inv p] by (simp add: do_request_def)
  next
    case (Req_D sid data sz)
    then have "good B (HASH_ID sid) ?ss ss'" using st by (intro send_socket_good[OF _ si se]) (simp_all add: do_request_def)
    then show ?thesis using Req_D by (intro go) simp_all
  next
    case (Req_P sid data sz)
    then have "good B (HASH_ID sid) ?ss ss'" using st by (intro send_socket_good[OF _ si se]) (simp_all add: do_request_def)
    then show ?thesis using Req_P by (intro go) simp_all
  next
    case (Req_A sid data sz addr)
    then have "good B (HASH_ID sid) ?ss ss'" using st by (intro send_socket_good[OF _ si se]) (simp_all add: do_request_def)
    then show ?thesis using Req_A by (intro go) simp_all
  next
    case (Req_C sid addr)
    then show ?thesis using st set_udp_address_good[OF _ si] by (intro go) (auto simp: do_request_def)
  next
    case (Req_T sid what v)
    then show ?thesis using st setopt_socket_good[OF si] by (intro go) (auto simp: do_request_def)
  qed
qed

section \<open>Events\<close>

lemma all_inv_os: "all_inv B ss \<Longrightarrow> all_inv B (ss\<lparr>ss_os := rs\<rparr>)"
  by (simp add: all_inv_def server_inv_def pipe_inv_def)

lemma all_inv_ev [simp]:
  "all_inv B (ss\<lparr>ss_ev := e\<rparr>) = all_inv B ss" "all_inv B (ss\<lparr>ss_event_index := k\<rparr>) = all_inv B ss"
  "all_inv B (ss\<lparr>ss_checkctrl := c\<rparr>) = all_inv B ss" "all_inv B (ss\<lparr>ss_soi := x\<rparr>) = all_inv B ss"
  by (simp_all add: all_inv_def server_inv_def pipe_inv_def)

lemma all_inv_do: "all_inv B ss \<Longrightarrow> (\<And>j on. watch j c on = on) \<Longrightarrow> all_inv B (os_do c ss)"
  by (simp add: all_inv_def server_inv_def pipe_inv_def)

text \<open>More numbers given out, none of them kept.\<close>

lemma all_inv_later:
  assumes "all_inv B ss" "sint (ss_alloc_id ss) \<le> sint (ss_alloc_id ss')" "ss_slot ss' = ss_slot ss" "ss_pipe ss' = ss_pipe ss"
    "ss_trace ss' = ss_trace ss"
  shows "all_inv B ss'"
  using assms by (fastforce simp: all_inv_def server_inv_def pipe_inv_def)

text \<open>A slot reserved and taken at once.\<close>

lemma taken_all_inv:
  assumes inv: "all_inv B ss" and r: "reserve_id ss = (sid, ss1)" "\<not> sid < 0" "room ss" and o: "opened B (HASH_ID sid) ss1 ss'"
  shows "all_inv B ss'"
proof -
  let ?i = "HASH_ID sid"
  note d = all_invD[OF inv] and f = reserve_id_facts[OF r(1,3)]
  have s: "ss_pipe ss' = ss_pipe ss" "sint (ss_alloc_id ss') = sid" "sint (ss_alloc_id ss) < sid" "s_type (ss_slot ss ?i) = ST_INVALID"
      "s_type (ss_slot ss' ?i) \<noteq> ST_RESERVE" "sock_inv B (ss_slot ss' ?i) (interest ?i (ss_trace ss'))" "s_id (ss_slot ss' ?i) = sid"
    using o f r(2) by (auto simp: opened_def only_def)
  have other: "ss_slot ss' j = ss_slot ss j" "interest j (ss_trace ss') = interest j (ss_trace ss)" if "j \<noteq> ?i" for j
    using o that f r(2) by (auto simp: opened_def only_def)
  show ?thesis
  proof (rule all_invI)
    fix i
    show "sock_inv B (ss_slot ss' i) (interest i (ss_trace ss'))" using s(6) d(1)[of i] other[of i] by (cases "i = ?i") simp_all
    show "HASH_ID (s_id (ss_slot ss' i)) = i \<and> s_id (ss_slot ss' i) \<le> sint (ss_alloc_id ss')" if "s_type (ss_slot ss' i) \<noteq> ST_INVALID"
      using that s(2,3,7) d(2)[of i] other[of i] by (cases "i = ?i") simp_all
    show "Some (s_id (ss_slot ss' i)) \<in> opener ` set (ss_pipe ss')" if "s_type (ss_slot ss' i) = ST_RESERVE"
      using that s(1,5) d(3)[of i] other[of i] by (cases "i = ?i") simp_all
  next
    fix q qid
    assume "q \<in> set (ss_pipe ss')" "opener q = Some qid"
    then have "s_type (ss_slot ss (HASH_ID qid)) = ST_RESERVE \<and> s_id (ss_slot ss (HASH_ID qid)) = qid" using d(4) s(1) by simp
    then show "s_type (ss_slot ss' (HASH_ID qid)) = ST_RESERVE \<and> s_id (ss_slot ss' (HASH_ID qid)) = qid"
      using other[of "HASH_ID qid"] s(4) by (cases "HASH_ID qid = ?i") simp_all
  next
    fix q qid
    assume "q \<in> set (ss_pipe ss')" "sender q = Some qid"
    then show "qid \<le> sint (ss_alloc_id ss')" using d(5)[of q qid] s(1-3) by simp
  qed (use d(6,7) s(1) in simp_all)
qed

lemma reserve_reserved:
  assumes "all_inv B ss" "reserve_id ss = (sid, ss1)" "\<not> sid < 0" "room ss"
  shows "reserved sid ss1"
proof -
  note f = reserve_id_facts(6)[OF assms(2,4,3)]
  then have "send_buffer_empty (ss_slot ss (HASH_ID sid))" using all_invD(1)[OF assms(1), of "HASH_ID sid"] by (auto simp: sock_inv_def)
  then show ?thesis using f by (simp add: send_buffer_empty_def)
qed

lemma report_accept_all_inv:
  assumes inv: "all_inv B ss" and rm: "room ss" and c: "report_accept i ss = Some (t, m, ss')"
  shows "all_inv B ss'"
proof -
  obtain r rs where os: "ss_os ss = r # rs" using c by (cases "ss_os ss") (auto simp: report_accept_def Let_def os_ask_def)
  let ?ss1 = "ss\<lparr>ss_os := rs\<rparr>"
  have inv1: "all_inv B ?ss1" and rm1: "room ?ss1" using inv rm by (simp_all add: all_inv_os room_def)
  note st = c[unfolded report_accept_def Let_def os_ask_def os list.case Option.bind.bind_lunit prod.case]
  show ?thesis
  proof (cases r)
    case (R_error e)
    then show ?thesis using st inv1 by (auto split: if_splits)
  next
    case (R_accepted fd tx)
    obtain sid ss2 where re: "reserve_id ?ss1 = (sid, ss2)" by fastforce
    show ?thesis
    proof (cases "sid < 0")
      case True
      have "all_inv B ss2" by (rule all_inv_later[OF inv1]) (use reserve_id_facts[OF re rm1] True in simp_all)
      moreover have "ss' = os_do (C_close fd) ss2" using st R_accepted re True by simp
      ultimately show ?thesis by (simp add: all_inv_do watch_def)
    next
      case False
      note res = reserve_reserved[OF inv1 re False rm1]
      obtain ss3 where n: "new_fd sid fd PROTOCOL_TCP (s_opaque (ss_slot ss i)) False ss2 = Some (True, ss3)"
          and ss': "ss' = set_type (HASH_ID sid) ST_PACCEPT ss3"
        using st R_accepted re False res by (auto simp: bind_eq_Some_iff new_fd_def Let_def send_buffer_empty_def)
      show ?thesis unfolding ss' by (rule taken_all_inv[OF inv1 re False rm1 new_fd_typed[OF n res]]) simp
    qed
  qed (use st in simp_all)
qed

lemma poll_event_all_inv:
  assumes inv: "all_inv B ss" and rm: "room ss" and c: "poll_event k e i ss = Some (t, m, ss')"
  shows "all_inv B ss'"
proof -
  let ?s = "ss_slot ss i"
  note si = all_invD(1)[OF inv, of i]
  have other: "all_inv B ss'" if ty: "s_type ?s \<notin> {ST_CONNECTING, ST_LISTEN, ST_INVALID}"
      and st: "(if e_read e then
            if s_protocol ?s = PROTOCOL_TCP then do {
              (t, m, ss1) \<leftarrow> forward_message_tcp i ss;
              Some (if t = -1 then -2 else t, m, if e_write e \<and> t \<noteq> SOCKET_CLOSE \<and> t \<noteq> SOCKET_ERROR
                then ss1\<lparr>ss_ev := (ss_ev ss1)[k := e\<lparr>e_read := False\<rparr>], ss_event_index := k\<rparr> else ss1) }
            else do {
              (t, m, ss1) \<leftarrow> forward_message_udp i ss;
              if t = SOCKET_UDP then Some (SOCKET_UDP, m, ss1\<lparr>ss_event_index := k\<rparr>)
              else Some (if t = -1 then -2 else t, m, if e_write e \<and> t \<noteq> SOCKET_CLOSE \<and> t \<noteq> SOCKET_ERROR
                then ss1\<lparr>ss_ev := (ss_ev ss1)[k := e\<lparr>e_read := False\<rparr>], ss_event_index := k\<rparr> else ss1) }
          else if e_write e then do { (t, m, ss1) \<leftarrow> send_buffer i ss; Some (if t = -1 then -2 else t, m, ss1) }
          else Some (-2, no_message, ss)) = Some (t, m, ss')"
  proof -
    have b: "all_inv B ss1" if "send_buffer i ss = Some (t1, m1, ss1)" for t1 m1 ss1
    proof (rule good_all_inv[OF inv])
      show "good B i ss ss1"
      proof (cases "s_type ?s = ST_RESERVE")
        case True
        then show ?thesis by (rule send_buffer_reserved[OF that si])
      next
        case False
        then show ?thesis using ty si by (intro send_buffer_good[OF that si]) (auto simp: sock_inv_def)
      qed
    qed
    consider "e_read e" "s_protocol ?s = PROTOCOL_TCP" | "e_read e" "s_protocol ?s \<noteq> PROTOCOL_TCP" | "\<not> e_read e" "e_write e"
      | "\<not> e_read e" "\<not> e_write e" by blast
    then show ?thesis
    proof cases
      case 1
      then obtain t1 m1 ss1 where f: "forward_message_tcp i ss = Some (t1, m1, ss1)" using st by (auto simp: bind_eq_Some_iff)
      from good_all_inv[OF inv forward_message_tcp_good[OF f si]] show ?thesis using st 1 f by (auto split: if_splits)
    next
      case 2
      then obtain t1 m1 ss1 where f: "forward_message_udp i ss = Some (t1, m1, ss1)" using st by (auto simp: bind_eq_Some_iff)
      from good_all_inv[OF inv forward_message_udp_good[OF f si]] show ?thesis using st 2 f by (auto split: if_splits)
    next
      case 3
      then obtain t1 m1 where "send_buffer i ss = Some (t1, m1, ss')" using st by (auto simp: bind_eq_Some_iff)
      then show ?thesis by (rule b)
    qed (use st inv in simp)
  qed
  show ?thesis
  proof (cases "s_type ?s")
    case ST_CONNECTING
    then have "report_connect i ss = Some (t, m, ss')" using c by (simp add: poll_event_def)
    then show ?thesis by (intro good_all_inv[OF inv report_connect_good[OF _ si ST_CONNECTING]])
  next
    case ST_LISTEN
    then obtain t1 m1 where "report_accept i ss = Some (t1, m1, ss')" using c by (auto simp: poll_event_def bind_eq_Some_iff)
    then show ?thesis by (rule report_accept_all_inv[OF inv rm])
  next
    case ST_INVALID
    then show ?thesis using c inv by (simp add: poll_event_def)
  qed (rule other; use c in \<open>simp add: poll_event_def Let_def split_def cong: if_cong\<close>)+
qed

end
