(* ===== verification/Socket_Run.thy ===== *)
theory Socket_Run
  imports Socket_Pipe
begin

text \<open>
  The socket server as a machine: its states are those reached from \<open>socket_server_create\<close> by turns of the poll loop
  and by the requests of other threads. The numbers that \<open>socket_server_bind\<close> gave out are kept beside the state, since what
  is to be sent to a bound descriptor is not watched.
\<close>

section \<open>Turns\<close>

lemma poll_turn_all_inv:
  assumes inv: "all_inv B ss" and rm: "room ss" and c: "poll_turn again ss = Some (t, m, again', ss')"
  shows "all_inv B ss'"
proof (cases "ss_checkctrl ss \<and> ss_pipe ss \<noteq> []")
  case True
  then obtain t1 ss1 where c1: "ctrl_cmd ss = Some (t1, m, ss1)" "ss' = ss1 \<or> ss' = clear_closed_event m t1 ss1"
    using c by (auto simp: poll_turn_def bind_eq_Some_iff split: if_splits)
  then show ?thesis using ctrl_cmd_all_inv[OF inv c1(1)] by (auto simp: clear_closed_event_def)
next
  case False
  let ?ss1 = "ss\<lparr>ss_checkctrl := False\<rparr>"
  obtain fail again1 ss2 where w: "(if ss_event_index ?ss1 = length (ss_ev ?ss1) then do {
             (r, ss2) \<leftarrow> os_ask ?ss1;
             case r of
               R_events es \<Rightarrow> Some (es = [], False, ss2\<lparr>ss_ev := es, ss_event_index := 0, ss_checkctrl := True\<rparr>)
             | R_error e \<Rightarrow> Some (True, False, ss2\<lparr>ss_ev := [], ss_event_index := 0, ss_checkctrl := True\<rparr>)
             | _ \<Rightarrow> None }
           else Some (False, again, ?ss1)) = Some (fail, again1, ss2)"
    using c False by (auto simp: poll_turn_def Let_def bind_eq_Some_iff simp del: os_reply.case)
  have s2: "all_inv B ss2" "room ss2"
  proof -
    have "all_inv B ss2 \<and> room ss2"
    proof (cases "ss_event_index ?ss1 = length (ss_ev ?ss1)")
      case True
      then obtain r rs where os: "ss_os ss = r # rs" using w by (cases "ss_os ss") (auto simp: os_ask_def)
      then show ?thesis using w True inv rm by (cases r) (auto simp: os_ask_def room_def all_inv_os)
    qed (use w inv rm in \<open>auto simp: room_def\<close>)
    then show "all_inv B ss2" "room ss2" by auto
  qed
  note st = c[unfolded poll_turn_def Let_def, unfolded w if_not_P[OF False] Option.bind.bind_lunit prod.case]
  show ?thesis
  proof (cases "fail \<or> e_s (ss_ev ss2 ! ss_event_index ss2) = None")
    case True
    then show ?thesis using st s2(1) by (auto split: if_splits)
  next
    case F2: False
    let ?ss3 = "ss2\<lparr>ss_event_index := ss_event_index ss2 + 1\<rparr>"
    obtain i t1 m1 where "poll_event (ss_event_index ss2) (ss_ev ss2 ! ss_event_index ss2) i ?ss3 = Some (t1, m1, ss')"
      using st F2 by (auto simp: bind_eq_Some_iff split: if_splits)
    moreover have "all_inv B ?ss3" "room ?ss3" using s2 by (simp_all add: room_def)
    ultimately show ?thesis using poll_event_all_inv by blast
  qed
qed

section \<open>Requests of other threads\<close>

lemma send_request_all_inv:
  assumes "all_inv B ss" "opener r = None" "\<And>sid. sender r = Some sid \<Longrightarrow> known_socket sid ss"
  shows "all_inv B (send_request r ss)"
proof (rule all_invI)
  note d = all_invD[OF assms(1)]
  show "sid \<le> sint (ss_alloc_id (send_request r ss))"
    if "q \<in> set (ss_pipe (send_request r ss))" "sender q = Some sid" for q sid
  proof (cases "q \<in> set (ss_pipe ss)")
    case False
    then have "known_socket sid ss" using that assms(3) by (simp add: send_request_def)
    then show ?thesis using d(2)[of "HASH_ID sid"] by (simp add: known_socket_def send_request_def)
  qed (use d(5) that in \<open>simp add: send_request_def\<close>)
  show "sid \<in> B" if "q \<in> set (ss_pipe (send_request r ss))" "bound_by q = Some sid" for q sid
    using d(6)[of q sid] that assms(2) by (cases q) (auto simp: send_request_def)
  show "s_type (ss_slot (send_request r ss) (HASH_ID sid)) = ST_RESERVE \<and> s_id (ss_slot (send_request r ss) (HASH_ID sid)) = sid"
    if "q \<in> set (ss_pipe (send_request r ss))" "opener q = Some sid" for q sid
    using d(4)[of q sid] that assms(2) by (auto simp: send_request_def)
qed (use all_invD[OF assms(1)] assms(2) in \<open>auto simp: send_request_def ordered_snoc\<close>)

text \<open>A number is reserved and its opening request written.\<close>

lemma reserve_request_all_inv:
  assumes inv: "all_inv B ss" and r: "reserve_id ss = (sid, ss1)" "\<not> sid < 0" "room ss"
    and q: "opener q = Some sid" "sender q = None" "\<And>b. bound_by q = Some b \<Longrightarrow> b \<in> B"
  shows "all_inv B (send_request q ss1)"
proof -
  let ?i = "HASH_ID sid" and ?ss = "send_request q ss1"
  note d = all_invD[OF inv] and f = reserve_id_facts[OF r(1,3)]
  have s: "sint (ss_alloc_id ss) < sid" "s_type (ss_slot ss ?i) = ST_INVALID" "sint (ss_alloc_id ss1) = sid"
    "ss_slot ss1 = (ss_slot ss)(?i := (ss_slot ss ?i)\<lparr>s_type := ST_RESERVE, s_id := sid, s_fd := -1\<rparr>)"
    using f(6)[OF r(2)] by auto
  have e: "send_buffer_empty (ss_slot ss ?i)" using d(1)[of ?i] s(2) by (simp add: sock_inv_def)
  have ids: "Some sid \<noteq> opener p" "Some sid \<noteq> sender p" if "p \<in> set (ss_pipe ss)" for p
    using d(2)[of ?i] d(4)[of p sid] d(5)[of p sid] that s(1,2) by auto
  show ?thesis
  proof (rule all_invI)
    fix i
    show "sock_inv B (ss_slot ?ss i) (interest i (ss_trace ?ss))"
    proof (cases "i = ?i")
      case True
      then show ?thesis using e s(4) by (simp add: send_request_def sock_inv_def send_buffer_empty_def)
    qed (use d(1)[of i] s(4) f(3) in \<open>simp add: send_request_def\<close>)
    show "HASH_ID (s_id (ss_slot ?ss i)) = i \<and> s_id (ss_slot ?ss i) \<le> sint (ss_alloc_id ?ss)" if "s_type (ss_slot ?ss i) \<noteq> ST_INVALID"
      using that d(2)[of i] s by (cases "i = ?i") (simp_all add: send_request_def)
    show "Some (s_id (ss_slot ?ss i)) \<in> opener ` set (ss_pipe ?ss)" if "s_type (ss_slot ?ss i) = ST_RESERVE"
      using that d(3)[of i] s q(1) f(2) by (cases "i = ?i") (auto simp: send_request_def)
  next
    fix p pid
    assume p: "p \<in> set (ss_pipe ?ss)" "opener p = Some pid"
    show "s_type (ss_slot ?ss (HASH_ID pid)) = ST_RESERVE \<and> s_id (ss_slot ?ss (HASH_ID pid)) = pid"
    proof (cases "p \<in> set (ss_pipe ss)")
      case True
      then show ?thesis using d(4)[OF True p(2)] s(2,4) by (cases "HASH_ID pid = ?i") (auto simp: send_request_def)
    next
      case False
      then show ?thesis using p q(1) s(4) f(2) by (auto simp: send_request_def)
    qed
  next
    fix p pid
    assume p: "p \<in> set (ss_pipe ?ss)" "sender p = Some pid"
    then have "p \<in> set (ss_pipe ss)" using q(2) f(2) by (auto simp: send_request_def)
    then show "pid \<le> sint (ss_alloc_id ?ss)" using d(5)[OF _ p(2)] s(1,3) by (simp add: send_request_def)
  next
    show "ordered (ss_pipe ?ss)" using d(7) ids q(1) f(2) by (simp add: send_request_def ordered_snoc)
  qed (use d(6) q f(2) in \<open>auto simp: send_request_def\<close>)
qed

lemma reserve_failed:
  assumes "all_inv B ss" "reserve_id ss = (sid, ss1)" "sid < 0" "room ss"
  shows "all_inv B ss1"
  by (rule all_inv_later[OF assms(1)]) (use reserve_id_facts[OF assms(2,4)] assms(3) in simp_all)

text \<open>The calls that make a descriptor only ask the system and close what they made.\<close>

definition quiet :: "socket_server \<Rightarrow> socket_server \<Rightarrow> bool" where
  "quiet ss ss' \<longleftrightarrow> ss_slot ss' = ss_slot ss \<and> ss_pipe ss' = ss_pipe ss \<and> ss_alloc_id ss' = ss_alloc_id ss \<and>
     (\<forall>i. interest i (ss_trace ss') = interest i (ss_trace ss))"

lemma quiet_simps [simp]: "quiet ss ss" "quiet ss (ss1\<lparr>ss_os := rs\<rparr>) = quiet ss ss1" "quiet ss (os_do (C_close fd) ss1) = quiet ss ss1"
  by (simp_all add: quiet_def watch_def)

lemma ask_bindE:
  assumes "os_ask ss \<bind> (\<lambda>(r, ss1). f r ss1) = Some x"
  obtains r rs where "f r (ss\<lparr>ss_os := rs\<rparr>) = Some x"
  using assms by (auto simp: bind_eq_Some_iff elim!: os_askE)

lemma do_bind_quiet: "do_bind ss = Some (fd, v6, ss') \<Longrightarrow> quiet ss ss'"
  by (auto simp: do_bind_def elim!: ask_bindE split: os_reply.split_asm)

lemma do_listen_quiet:
  assumes "do_listen ss = Some (fd, ss')"
  shows "quiet ss ss'"
proof -
  obtain fd1 v6 ss1 where b: "do_bind ss = Some (fd1, v6, ss1)" using assms by (auto simp: do_listen_def bind_eq_Some_iff)
  from do_bind_quiet[OF b] show ?thesis using assms b
    by (auto simp: do_listen_def elim!: ask_bindE split: os_reply.split_asm if_split_asm)
qed

lemma quiet_all_inv: "quiet ss ss' \<Longrightarrow> all_inv B ss \<Longrightarrow> all_inv B ss'" "quiet ss ss' \<Longrightarrow> room ss \<Longrightarrow> room ss'"
  by (simp_all add: quiet_def all_inv_def server_inv_def pipe_inv_def room_def)

section \<open>Reachable states\<close>

text \<open>
  \<open>room\<close> says that fewer than \<open>2 ^ 31 - 65536\<close> numbers were given out. After that they come again, and a request for
  the socket that had a number before could meet the one that has it now.
\<close>

inductive server_step :: "socket_server \<Rightarrow> socket_server \<Rightarrow> bool" where
  turn: "room ss \<Longrightarrow> poll_turn again ss = Some (t, m, again', ss') \<Longrightarrow> server_step ss ss'"
| connect: "room ss \<Longrightarrow> server_step ss (snd (socket_server_connect opaque addr port ss))"
| listen: "room ss \<Longrightarrow> socket_server_listen opaque ss = Some (sid, ss') \<Longrightarrow> server_step ss ss'"
| udp: "room ss \<Longrightarrow> socket_server_udp opaque bound ss = Some (sid, ss') \<Longrightarrow> server_step ss ss'"
| send: "socket_server_send sid data sz ss = Some (n, ss') \<Longrightarrow> server_step ss ss'"
| send_lowpriority: "socket_server_send_lowpriority sid data sz ss = Some ss' \<Longrightarrow> server_step ss ss'"
| udp_send: "socket_server_udp_send sid addr data sz ss = Some (n, ss') \<Longrightarrow> server_step ss ss'"
| udp_connect: "server_step ss (snd (socket_server_udp_connect sid found ss))"
| close: "server_step ss (socket_server_close opaque sid ss)"
| shutdown: "server_step ss (socket_server_shutdown opaque sid ss)"
| start: "server_step ss (socket_server_start opaque sid ss)"
| nodelay: "server_step ss (socket_server_nodelay sid ss)"
| exit: "server_step ss (socket_server_exit ss)"
| userobject: "server_step ss (socket_server_userobject soi ss)"

text \<open>The numbers given to bound descriptors so far, and the state.\<close>

inductive server_reachable :: "int set \<Rightarrow> socket_server \<Rightarrow> bool" where
  create: "socket_server_create junk replies = Some (Some ss) \<Longrightarrow> server_reachable {} ss"
| step: "server_reachable B ss \<Longrightarrow> server_step ss ss' \<Longrightarrow> server_reachable B ss'"
| bind: "server_reachable B ss \<Longrightarrow> room ss \<Longrightarrow> socket_server_bind opaque fd ss = (sid, ss') \<Longrightarrow>
    server_reachable (insert sid B) ss'"

lemma create_all_inv:
  assumes "socket_server_create junk replies = Some (Some ss)"
  shows "all_inv B ss"
proof -
  have "s_type (ss_slot ss i) = ST_INVALID \<and> send_buffer_empty (ss_slot ss i)" "ss_pipe ss = []" for i
    using assms by (auto simp: socket_server_create_def send_buffer_empty_def split: list.splits os_reply.splits)
  then show ?thesis by (simp add: all_inv_def server_inv_def pipe_inv_def sock_inv_def)
qed

lemma free_buffer_all_inv: "free_buffer data sz ss = Some ss' \<Longrightarrow> all_inv B ss \<Longrightarrow> all_inv B ss'"
  by (auto simp: free_buffer_def bind_eq_Some_iff watch_def intro!: all_inv_do)

lemma reserved_request_all_inv:
  assumes "all_inv B ss" "room ss" "\<And>sid. opener (q sid) = Some sid \<and> sender (q sid) = None \<and> (\<forall>b. bound_by (q sid) = Some b \<longrightarrow> b \<in> B)"
  shows "all_inv B (snd (reserved_request q ss))"
proof (cases "reserve_id ss")
  case (Pair sid ss1)
  then show ?thesis using reserve_failed[OF assms(1) Pair _ assms(2)] reserve_request_all_inv[OF assms(1) Pair _ assms(2), of "q sid"] assms(3)
    by (cases "sid < 0") (simp_all add: reserved_request_def)
qed

lemma server_step_all_inv:
  assumes "server_step ss ss'" "all_inv B ss"
  shows "all_inv B ss'"
  using assms
proof (induction rule: server_step.induct)
  case (turn ss again t m again' ss')
  then show ?case using poll_turn_all_inv by blast
next
  case (connect ss opaque addr port)
  then show ?case using reserved_request_all_inv[of B ss "\<lambda>sid. Req_O sid port opaque addr"] by (simp add: socket_server_connect_def)
next
  case (listen ss opaque sid ss')
  then obtain fd ss1 where l: "do_listen ss = Some (fd, ss1)" by (auto simp: socket_server_listen_def bind_eq_Some_iff)
  obtain k ss2 where r: "reserve_id ss1 = (k, ss2)" by fastforce
  have q: "all_inv B ss1" "room ss1" using quiet_all_inv[OF do_listen_quiet[OF l]] listen(1,3) by blast+
  show ?case using listen(2) l r q(1) reserve_failed[OF q(1) r _ q(2)] reserve_request_all_inv[OF q(1) r _ q(2), of "Req_L k fd opaque"]
    by (auto simp: socket_server_listen_def watch_def intro!: all_inv_do split: if_splits)
next
  case (udp ss opaque bound sid ss')
  then obtain fd v6 ss1 where l: "(if bound then do_bind ss
       else do {
         (r, ss1) \<leftarrow> os_ask ss;
         case r of R_error e \<Rightarrow> Some (-1, False, ss1) | R_fd fd \<Rightarrow> Some (fd, False, ss1) | _ \<Rightarrow> None }) = Some (fd, v6, ss1)"
    unfolding socket_server_udp_def bind_eq_Some_iff by force
  obtain k ss2 where r: "reserve_id ss1 = (k, ss2)" by fastforce
  have "quiet ss ss1" using l do_bind_quiet[of ss fd v6 ss1]
    by (cases bound) (auto elim!: ask_bindE split: os_reply.split_asm)
  then have q: "all_inv B ss1" "room ss1" using quiet_all_inv udp(1,3) by blast+
  show ?case using udp(2)[unfolded socket_server_udp_def l] r q(1) reserve_failed[OF q(1) r _ q(2)]
      reserve_request_all_inv[OF q(1) r _ q(2), of "Req_U k fd v6 opaque"]
    by (auto simp: watch_def intro!: all_inv_do split: if_splits)
next
  case (send sid data sz ss n ss')
  then show ?case by (auto simp: socket_server_send_def bind_eq_Some_iff free_buffer_all_inv intro!: send_request_all_inv split: if_splits)
next
  case (send_lowpriority sid data sz ss ss')
  then show ?case by (auto simp: socket_server_send_lowpriority_def free_buffer_all_inv intro!: send_request_all_inv split: if_splits)
next
  case (udp_send sid addr data sz ss n ss')
  then show ?case by (auto simp: socket_server_udp_send_def bind_eq_Some_iff free_buffer_all_inv intro!: send_request_all_inv split: if_splits option.splits)
qed (auto simp: socket_server_udp_connect_def socket_server_close_def socket_server_shutdown_def socket_server_start_def
    socket_server_nodelay_def socket_server_exit_def socket_server_userobject_def intro!: send_request_all_inv split: option.splits)

text \<open>A number that is bound: what held before still holds, and its slot may be bound from now on.\<close>

lemma all_inv_mono:
  assumes "all_inv B ss" "B \<subseteq> B'"
  shows "all_inv B' ss"
proof -
  have "waits s on'" if "waits s on" "on \<longrightarrow> on'" for s on on' using that by (auto simp: waits_def)
  then have "sock_inv B' s on" if "sock_inv B s on" for s on
    using that assms(2) unfolding sock_inv_def by (smt (verit) subsetD)
  then show ?thesis using assms by (auto simp: all_inv_def server_inv_def pipe_inv_def)
qed

lemma bind_all_inv:
  assumes inv: "all_inv B ss" and rm: "room ss" and b: "socket_server_bind opaque fd ss = (sid, ss')"
  shows "all_inv (insert sid B) ss'"
proof -
  let ?q = "\<lambda>sid. Req_B sid fd opaque"
  have inv': "all_inv (insert sid B) ss" by (rule all_inv_mono[OF inv]) auto
  obtain k ss1 where r: "reserve_id ss = (k, ss1)" by fastforce
  show ?thesis
  proof (cases "k < 0")
    case True
    then show ?thesis using b r reserve_failed[OF inv' r True rm] by (simp add: socket_server_bind_def reserved_request_def)
  next
    case False
    then have "sid = k" "ss' = send_request (?q k) ss1" using b r by (auto simp: socket_server_bind_def reserved_request_def)
    then show ?thesis using reserve_request_all_inv[OF inv' r False rm, of "?q k"] by simp
  qed
qed

lemma reachable_all_inv: "server_reachable B ss \<Longrightarrow> all_inv B ss"
  by (induction rule: server_reachable.induct) (auto intro: create_all_inv server_step_all_inv bind_all_inv)

text \<open>The loop of \<open>socket_server_poll\<close> is a sequence of turns.\<close>

inductive turns :: "bool \<Rightarrow> socket_server \<Rightarrow> int \<times> socket_message \<times> bool \<Rightarrow> socket_server \<Rightarrow> bool" where
  last: "poll_turn again ss = Some (Some t, m, again', ss') \<Longrightarrow> turns again ss (t, m, again') ss'"
| more: "poll_turn again ss = Some (None, m, again1, ss1) \<Longrightarrow> turns again1 ss1 r ss' \<Longrightarrow> turns again ss r ss'"

lemma poll_loop_turns:
  assumes "poll_loop again ss = Some (r, ss')"
  shows "turns again ss r ss'"
proof -
  have "(\<lambda>again ss x. turns again ss (fst x) (snd x)) again ss (r, ss')"
  proof (rule poll_loop.raw_induct[OF _ assms])
    fix loop again ss x
    assume IH: "\<And>again ss x. loop again ss = Some x \<Longrightarrow> turns again ss (fst x) (snd x)"
      and b: "do { (t, m, again1, ss1) \<leftarrow> poll_turn again ss;
        case t of Some ty \<Rightarrow> Some ((ty, m, again1), ss1) | None \<Rightarrow> loop again1 ss1 } = Some x"
    obtain t m again1 ss1 where t: "poll_turn again ss = Some (t, m, again1, ss1)" using b by (auto simp: bind_eq_Some_iff)
    show "turns again ss (fst x) (snd x)"
    proof (cases t)
      case None
      then have "loop again1 ss1 = Some x" using b t by simp
      then show ?thesis using IH turns.more[OF t[unfolded None]] by simp
    next
      case (Some ty)
      then have "x = ((ty, m, again1), ss1)" using b t by simp
      then show ?thesis using turns.last[OF t[unfolded Some]] by simp
    qed
  qed
  then show ?thesis by simp
qed

end
