(* ===== verification/Socket_Tcp.thy ===== *)
theory Socket_Tcp
  imports Socket_Stream
begin

text \<open>
  Sends and flushes on a connected TCP socket, one after the other, and what the peer and the
  owners of the buffers see of them.
\<close>

section \<open>Flushing\<close>

lemma stream_at_low:
  assumes at: "stream_at sid base fd Hs Ls ss" and sent: "list_sent (HASH_ID sid) PRIORITY_LOW ss ss1"
    and high: "s_high (ss_slot ss (HASH_ID sid)) = []"
  shows "\<not> list_uncomplete (s_low (ss_slot ss1 (HASH_ID sid))) \<Longrightarrow> stream_at sid base fd Hs Ls ss1"
    "raise_uncomplete (HASH_ID sid) ss1 = Some ss2 \<Longrightarrow> stream_at sid base fd Hs Ls ss2"
    "force_close (HASH_ID sid) ss1 = Some (m, ss2) \<Longrightarrow> stream_closed sid base fd Hs Ls ss2"
proof -
  let ?s = "ss_slot ss (HASH_ID sid)"
  obtain t where t: "ss_trace ss = base @ t" "stream_ok fd Hs Ls [] (s_low ?s) (s_wb_size ?s) t"
    and s0: "s_type ?s = ST_CONNECTED" "s_id ?s = sid" "s_fd ?s = fd" "s_protocol ?s = PROTOCOL_TCP"
    using at high by (auto simp: stream_at_def Let_def)
  obtain gone l t' w where s: "ss_slot ss1 = (ss_slot ss)(HASH_ID sid := ?s\<lparr>s_low := l, s_wb_size := w\<rparr>)"
      "ss_trace ss1 = ss_trace ss @ t'"
      and h: "map whole (s_low ?s) = gone @ map whole l" "rest_bytes (s_low ?s) = written fd t' @ rest_bytes l"
      "map b_buffer (s_low ?s) = freed t' @ map b_buffer l" "\<forall>b \<in> set l. buf_ok b" "\<forall>b \<in> set (tl l). fresh b"
      "s_wb_size ?s - int (length (rest_bytes (s_low ?s))) = w - int (length (rest_bytes l))"
    using sent s0(3) by (auto simp: list_sent_def get_list_def set_list_def)
  note low = stream_low_sent[OF t(2) h]
  show "stream_at sid base fd Hs Ls ss1" if u: "\<not> list_uncomplete (s_low (ss_slot ss1 (HASH_ID sid)))"
  proof -
    have "\<forall>b \<in> set l. fresh b" using u h(5) s by (auto simp: list_uncomplete_def split: list.splits)
    then show ?thesis using low(1) s t(1) s0 high by (simp add: stream_at_def Let_def)
  qed
  show "stream_at sid base fd Hs Ls ss2" if r: "raise_uncomplete (HASH_ID sid) ss1 = Some ss2"
  proof -
    obtain b r where l: "l = b # r" using r s by (auto simp: raise_uncomplete_def Let_def split: list.splits)
    then show ?thesis using low(2)[OF l] r s t(1) s0 high
      by (auto simp: raise_uncomplete_def Let_def stream_at_def)
  qed
  show "stream_closed sid base fd Hs Ls ss2" if c: "force_close (HASH_ID sid) ss1 = Some (m, ss2)"
  proof (cases l)
    case Nil
    then have "stream_ok fd Hs Ls [] [] w (t @ t')" using low(1) by simp
    from stream_force_close[OF c this] show ?thesis using s t(1) s0 high Nil by simp
  next
    case (Cons b r)
    from stream_force_close[OF c low(2)[OF Cons]] show ?thesis using s t(1) s0 high Cons by simp
  qed
qed

lemma stream_at_do:
  assumes "stream_at sid base fd Hs Ls ss" "written fd [c] = []" "freed [c] = []"
  shows "stream_at sid base fd Hs Ls (os_do c ss)"
proof -
  let ?s = "ss_slot ss (HASH_ID sid)"
  obtain t where t: "ss_trace ss = base @ t" "stream_ok fd Hs Ls (s_high ?s) (s_low ?s) (s_wb_size ?s) t"
    using assms(1) by (auto simp: stream_at_def Let_def)
  have "stream_ok fd Hs Ls (s_high ?s) (s_low ?s) (s_wb_size ?s) (t @ [c])"
    using t(2) assms(2,3) by (simp add: stream_ok_def)
  then show ?thesis using t(1) assms(1) by (simp add: stream_at_def Let_def)
qed

lemma stream_at_close:
  assumes "stream_at sid base fd Hs Ls ss" "force_close (HASH_ID sid) ss = Some (m, ss')"
  shows "stream_closed sid base fd Hs Ls ss'"
proof -
  let ?s = "ss_slot ss (HASH_ID sid)"
  obtain t where t: "ss_trace ss = base @ t" "stream_ok fd Hs Ls (s_high ?s) (s_low ?s) (s_wb_size ?s) t"
    using assms(1) by (auto simp: stream_at_def Let_def)
  then show ?thesis using stream_force_close[OF assms(2) t(2) t(1)] assms(1) by (simp add: stream_at_def Let_def)
qed

text \<open>The lists as \<open>send_list\<close> needs them.\<close>

lemma stream_at_lists:
  assumes "stream_at sid base fd Hs Ls ss"
  shows "\<forall>b \<in> set (get_list p (ss_slot ss (HASH_ID sid))). buf_ok b"
    "\<forall>b \<in> set (tl (get_list p (ss_slot ss (HASH_ID sid)))). fresh b"
    "s_protocol (ss_slot ss (HASH_ID sid)) = PROTOCOL_TCP" "s_type (ss_slot ss (HASH_ID sid)) = ST_CONNECTED"
    "s_id (ss_slot ss (HASH_ID sid)) = sid" "s_fd (ss_slot ss (HASH_ID sid)) = fd"
  using assms by (cases p; auto simp: stream_at_def stream_ok_def Let_def get_list_def dest: set_tlD)+

text \<open>The outcome of an operation: the stream goes on, or the socket is closed.\<close>

definition goes_on ::
  "int \<Rightarrow> os_call list \<Rightarrow> int \<Rightarrow> u8 list list \<Rightarrow> u8 list list \<Rightarrow> int \<times> socket_message \<times> socket_server \<Rightarrow> bool" where
  "goes_on sid base fd Hs Ls r \<longleftrightarrow> (case r of (t, m, ss) \<Rightarrow>
     t = -1 \<and> stream_at sid base fd Hs Ls ss \<or> t = SOCKET_CLOSE \<and> stream_closed sid base fd Hs Ls ss)"

lemma stream_send_list:
  assumes "stream_at sid base fd Hs Ls ss" "send_list (HASH_ID sid) p ss = Some r"
  shows "sent_or_closed (HASH_ID sid) p ss r"
  using assms send_list_tcp_sent[OF _ stream_at_lists(1,2)[OF assms(1)]] stream_at_lists(3)[OF assms(1)]
  by (simp add: send_list_def)

lemma send_buffer_stream:
  assumes at: "stream_at sid base fd Hs Ls ss" and sb: "send_buffer (HASH_ID sid) ss = Some r"
  shows "goes_on sid base fd Hs Ls r"
proof -
  let ?i = "HASH_ID sid"
  obtain t m ss1 where hl: "send_list ?i PRIORITY_HIGH ss = Some (t, m, ss1)"
    using sb by (auto simp: send_buffer_def bind_eq_Some_iff split: if_splits)
  from stream_send_list[OF at hl] consider "t = -1" "list_sent ?i PRIORITY_HIGH ss ss1"
    | ss0 where "t = SOCKET_CLOSE" "list_sent ?i PRIORITY_HIGH ss ss0" "force_close ?i ss0 = Some (m, ss1)"
    by (auto simp: sent_or_closed_def)
  then show ?thesis
  proof cases
    case 2
    then have "r = (SOCKET_CLOSE, m, ss1)" using sb hl by (simp add: send_buffer_def split: if_splits)
    then show ?thesis using stream_at_close[OF stream_at_high[OF at 2(2)] 2(3)] by (simp add: goes_on_def)
  next
    case 1
    note at1 = stream_at_high[OF at 1(2)]
    note st = sb[unfolded send_buffer_def hl 1(1)]
    show ?thesis
    proof (cases "s_high (ss_slot ss1 ?i) = [] \<and> s_low (ss_slot ss1 ?i) \<noteq> []")
      case True
      obtain t2 m2 ss2 where ll: "send_list ?i PRIORITY_LOW ss1 = Some (t2, m2, ss2)"
        using st True by (auto simp: bind_eq_Some_iff split: if_splits)
      from stream_send_list[OF at1 ll] show ?thesis
        using st True ll stream_at_low[OF at1] by (auto simp: sent_or_closed_def goes_on_def bind_eq_Some_iff split: if_splits)
    next
      case False
      then show ?thesis using st at1 stream_at_lists(4)[OF at1] stream_at_do[OF at1]
        by (auto simp: goes_on_def Let_def split: if_splits)
    qed
  qed
qed

section \<open>Sending\<close>

definition added :: "priority \<Rightarrow> priority \<Rightarrow> 'a \<Rightarrow> 'a list \<Rightarrow> 'a list" where
  "added p q m ms = (if p = q then ms @ [m] else ms)"

lemma shuffles_added: "ms \<in> shuffles Hs Ls \<Longrightarrow> ms @ [m] \<in> shuffles (added p PRIORITY_HIGH m Hs) (added p PRIORITY_LOW m Ls)"
  by (cases p) (simp_all add: added_def shuffles_snoc)

lemma mset_added:
  "mset (map f (added p PRIORITY_HIGH m Hs @ added p PRIORITY_LOW m Ls)) = add_mset (f m) (mset (map f (Hs @ Ls)))"
  by (cases p) (simp_all add: added_def)

abbreviation plain_buffer :: "u8 list \<Rightarrow> nat \<Rightarrow> write_buffer" where
  "plain_buffer bs n \<equiv> \<lparr>b_buffer = Plain bs, b_bytes = bs, b_off = n, b_sz = int (length bs) - int n, b_userobject = False,
     b_apart = False, b_address = []\<rparr>"

lemma plain_buffer_facts:
  assumes "n \<le> length bs"
  shows "buf_ok (plain_buffer bs n)" "whole (plain_buffer bs n) = bs" "pending (plain_buffer bs n) = drop n bs"
  using assms by (auto simp: buf_ok_def whole_def pending_def)

text \<open>The direct write of a socket with nothing unsent, of which the system takes the first \<open>n\<close> bytes.\<close>

lemma stream_write:
  assumes "stream_ok fd Hs Ls [] [] w t" "n \<le> length bs" "written fd t' = take n bs" "freed t' = []"
  shows "stream_ok fd (added p PRIORITY_HIGH bs Hs) (added p PRIORITY_LOW bs Ls) [plain_buffer bs n] []
      (w + (int (length bs) - int n)) (t @ t')"
    "n = length bs \<Longrightarrow>
      stream_ok fd (added p PRIORITY_HIGH bs Hs) (added p PRIORITY_LOW bs Ls) [] [] w (t @ t' @ [C_free (Plain bs)])"
proof -
  obtain ms where s: "written fd t = concat ms" "ms \<in> shuffles Hs Ls" "w = 0"
    and fr: "mset (freed t) = mset (map Plain (Hs @ Ls))"
    using assms(1) by (auto simp: stream_ok_def)
  note sh = shuffles_added[OF s(2), of bs p]
  have fr1: "mset (freed t) + {#Plain bs#} = mset (map Plain (added p PRIORITY_HIGH bs Hs @ added p PRIORITY_LOW bs Ls))"
    unfolding mset_added fr by simp
  show "stream_ok fd (added p PRIORITY_HIGH bs Hs) (added p PRIORITY_LOW bs Ls) [plain_buffer bs n] []
      (w + (int (length bs) - int n)) (t @ t')"
    by (intro stream_okI[where ms = ms and ?Ls1.0 = "added p PRIORITY_LOW bs Ls"])
      (use s sh assms(2-) fr1 plain_buffer_facts[OF assms(2)] in simp_all)
  show "stream_ok fd (added p PRIORITY_HIGH bs Hs) (added p PRIORITY_LOW bs Ls) [] [] w (t @ t' @ [C_free (Plain bs)])"
    if "n = length bs"
    by (intro stream_okI[where ms = "ms @ [bs]" and ?Ls1.0 = "added p PRIORITY_LOW bs Ls"])
      (use s sh assms(2-) fr1 that in simp_all)
qed

lemma write_direct_takes:
  assumes "write_direct i bs (int (length bs)) ss = Some (Inl n, ss1)"
  obtains t where "n \<le> length bs" "ss_trace ss1 = ss_trace ss @ t" "written (s_fd (ss_slot ss i)) t = take n bs" "freed t = []"
    "ss_slot ss1 = ss_slot ss" "ss_soi ss1 = ss_soi ss"
proof -
  obtain a rs where os: "ss_os ss = a # rs" using assms
    by (cases "ss_os ss") (simp_all add: write_direct_def os_ask_def)
  show thesis
  proof (cases a)
    case (R_count k)
    then show thesis using assms os
      by (intro that[of "[C_write (s_fd (ss_slot ss i)) (take n bs)]"])
        (auto simp: write_direct_def os_ask_def mem_read_def bind_eq_Some_iff split: if_splits)
  qed (use assms os that[of "[]"] in \<open>auto simp: write_direct_def os_ask_def bind_eq_Some_iff split: if_splits\<close>)
qed

text \<open>A buffer at the end of the list of its priority.\<close>

lemma stream_append:
  assumes "stream_ok fd Hs Ls h l w t"
  shows "stream_ok fd (Hs @ [bs]) Ls (h @ [plain_buffer bs 0]) l (w + int (length bs)) t"
    "stream_ok fd Hs (Ls @ [bs]) h (l @ [plain_buffer bs 0]) (w + int (length bs)) t"
proof -
  obtain ms Ls1 where s: "written fd t @ rest_bytes h = concat (ms @ map whole h)" "ms @ map whole h \<in> shuffles Hs Ls1"
     "Ls = Ls1 @ map whole l" "mset (freed t) + mset (map b_buffer (h @ l)) = mset (map Plain (Hs @ Ls))"
     "\<forall>b \<in> set (h @ l). buf_ok b" "\<forall>b \<in> set (tl h @ l). fresh b"
     "w = int (length (rest_bytes h)) + int (length (rest_bytes l))"
    using assms(1) unfolding stream_ok_def by blast
  note b = plain_buffer_facts[of 0 bs, simplified]
  have tl: "\<forall>b \<in> set (tl (h @ [plain_buffer bs 0])). fresh b" using s(6) by (cases h) auto
  show "stream_ok fd (Hs @ [bs]) Ls (h @ [plain_buffer bs 0]) l (w + int (length bs)) t"
    using s b tl shuffles_snoc(1)[OF s(2), of bs]
    by (intro stream_okI[where ms = ms and ?Ls1.0 = Ls1]) (auto simp: ac_simps)
  show "stream_ok fd Hs (Ls @ [bs]) h (l @ [plain_buffer bs 0]) (w + int (length bs)) t"
    using s b by (intro stream_okI[where ms = ms and ?Ls1.0 = Ls1]) (auto simp: ac_simps)
qed

lemma stream_closed_free:
  assumes "stream_closed sid base fd Hs Ls ss"
  shows "stream_closed sid base fd (added p PRIORITY_HIGH bs Hs) (added p PRIORITY_LOW bs Ls) (os_do (C_free (Plain bs)) ss)"
proof -
  obtain t ms Ls1 Ls2 unsent where s: "s_type (ss_slot ss (HASH_ID sid)) = ST_INVALID" "send_buffer_empty (ss_slot ss (HASH_ID sid))"
      "ss_trace ss = base @ t" "written fd t @ unsent = concat ms" "ms \<in> shuffles Hs Ls1"
      "Ls = Ls1 @ Ls2" "mset (freed t) = mset (map Plain (Hs @ Ls))"
    using assms unfolding stream_closed_def by blast
  have sh: "\<exists>ms' Ls1' Ls2' unsent'. written fd t @ unsent' = concat ms' \<and> ms' \<in> shuffles (added p PRIORITY_HIGH bs Hs) Ls1' \<and>
      added p PRIORITY_LOW bs Ls = Ls1' @ Ls2'"
  proof (cases p)
    case PRIORITY_HIGH
    then show ?thesis using s(4,6) shuffles_snoc(1)[OF s(5), of bs]
      by (intro exI[of _ "ms @ [bs]"] exI[of _ Ls1] exI[of _ Ls2] exI[of _ "unsent @ bs"]) (simp add: added_def flip: append_assoc)
  next
    case PRIORITY_LOW
    then show ?thesis using s(4-6)
      by (intro exI[of _ ms] exI[of _ Ls1] exI[of _ "Ls2 @ [bs]"] exI[of _ unsent]) (simp add: added_def)
  qed
  have "mset (freed (t @ [C_free (Plain bs)])) = mset (map Plain (added p PRIORITY_HIGH bs Hs @ added p PRIORITY_LOW bs Ls))"
    unfolding mset_added using s(7) by simp
  moreover have "written fd (t @ [C_free (Plain bs)]) = written fd t" by simp
  ultimately show ?thesis unfolding stream_closed_def using s(1-3) sh by (metis append.assoc os_do_access(1,3))
qed

lemma send_now_stream:
  assumes at: "stream_at sid base fd Hs Ls ss" and e: "send_buffer_empty (ss_slot ss (HASH_ID sid))"
    and sn: "send_now (HASH_ID sid) (Plain bs) (int (length bs)) p None ss = Some r"
  shows "goes_on sid base fd (added p PRIORITY_HIGH bs Hs) (added p PRIORITY_LOW bs Ls) r"
proof -
  let ?s = "ss_slot ss (HASH_ID sid)"
  note l = stream_at_lists[OF at]
  obtain t where t: "ss_trace ss = base @ t" "stream_ok fd Hs Ls [] [] (s_wb_size ?s) t"
    using at e by (auto simp: stream_at_def Let_def send_buffer_empty_def)
  obtain x ss1 where wd: "write_direct (HASH_ID sid) bs (int (length bs)) ss = Some (x, ss1)"
    using sn l(3) by (auto simp: send_now_def send_object_init_def bind_eq_Some_iff)
  show ?thesis
  proof (cases x)
    case (Inr m)
    then obtain rs where "force_close (HASH_ID sid) (ss\<lparr>ss_os := rs\<rparr>) = Some (m, ss1)"
      using wd by (auto simp: write_direct_def os_ask_def bind_eq_Some_iff split: list.splits os_reply.splits if_splits)
    then have "stream_closed sid base fd Hs Ls ss1"
      by (rule stream_at_close[rotated]) (use at in \<open>simp add: stream_at_def\<close>)
    then show ?thesis using sn l(3) wd Inr stream_closed_free
      by (auto simp: send_now_def send_object_init_def goes_on_def)
  next
    case (Inl n)
    obtain t' where n: "n \<le> length bs" "ss_trace ss1 = ss_trace ss @ t'" "written fd t' = take n bs" "freed t' = []"
        "ss_slot ss1 = ss_slot ss" "ss_soi ss1 = ss_soi ss"
      using write_direct_takes[OF wd[unfolded Inl]] l(6) by auto
    note sw = stream_write[OF t(2) n(1,3,4), of p]
    show ?thesis
    proof (cases "n = length bs")
      case True
      then have "r = (-1, no_message, os_do (C_free (Plain bs)) ss1)"
        using sn l(3) wd Inl by (simp add: send_now_def send_object_init_def)
      then show ?thesis using sw(2)[OF True] n t(1) l e by (simp add: goes_on_def stream_at_def send_buffer_empty_def)
    next
      case False
      let ?s2 = "?s\<lparr>s_wb_size := s_wb_size ?s + (int (length bs) - int n), s_high := [plain_buffer bs n]\<rparr>"
      have r: "r = (-1, no_message, os_do (C_sp_write fd (HASH_ID sid) True) (set_slot (HASH_ID sid) ?s2 ss1))"
        using sn l(3,6) wd Inl False n(5,6) e
        by (simp add: send_now_def send_object_init_def append_sendbuffer_def get_list_def set_list_def send_buffer_empty_def Let_def)
      have "stream_at sid base fd (added p PRIORITY_HIGH bs Hs) (added p PRIORITY_LOW bs Ls) (set_slot (HASH_ID sid) ?s2 ss1)"
        using sw(1) n t(1) l e by (simp add: stream_at_def send_buffer_empty_def)
      then show ?thesis unfolding r goes_on_def by (simp add: stream_at_do)
    qed
  qed
qed

lemma send_later_stream:
  assumes at: "stream_at sid base fd Hs Ls ss"
    and sn: "send_later (HASH_ID sid) (Plain bs) (int (length bs)) p None ss = Some r"
  shows "goes_on sid base fd (added p PRIORITY_HIGH bs Hs) (added p PRIORITY_LOW bs Ls) r"
proof -
  let ?s = "ss_slot ss (HASH_ID sid)"
  note l = stream_at_lists[OF at]
  obtain t where t: "ss_trace ss = base @ t" "stream_ok fd Hs Ls (s_high ?s) (s_low ?s) (s_wb_size ?s) t"
    using at by (auto simp: stream_at_def Let_def)
  have "r = (-1, no_message, set_slot (HASH_ID sid)
      (set_list p (get_list p ?s @ [plain_buffer bs 0]) (?s\<lparr>s_wb_size := s_wb_size ?s + int (length bs)\<rparr>)) ss)"
    using sn l(3) by (simp add: send_later_def append_sendbuffer_def send_object_init_def Let_def)
  then show ?thesis using stream_append[OF t(2), of bs] t(1) l
    by (cases p) (simp_all add: goes_on_def stream_at_def get_list_def set_list_def added_def)
qed

lemma send_socket_stream:
  assumes at: "stream_at sid base fd Hs Ls ss"
    and sn: "send_socket sid (Plain bs) (int (length bs)) p None ss = Some r"
  shows "goes_on sid base fd (added p PRIORITY_HIGH bs Hs) (added p PRIORITY_LOW bs Ls) r"
proof (cases "send_buffer_empty (ss_slot ss (HASH_ID sid))")
  case True
  then show ?thesis using sn stream_at_lists(4,5)[OF at]
    by (intro send_now_stream[OF at]) (simp_all add: send_socket_def Let_def send_object_init_def)
next
  case False
  then show ?thesis using sn stream_at_lists(4,5)[OF at]
    by (intro send_later_stream[OF at]) (simp_all add: send_socket_def Let_def send_object_init_def)
qed

section \<open>A run\<close>

datatype stream_op = Op_send priority "u8 list" | Op_flush

fun run_op :: "int \<Rightarrow> stream_op \<Rightarrow> socket_server \<Rightarrow> (int \<times> socket_message \<times> socket_server) option" where
  "run_op sid (Op_send p bs) ss = send_socket sid (Plain bs) (int (length bs)) p None ss"
| "run_op sid Op_flush ss = send_buffer (HASH_ID sid) ss"

text \<open>The operations in turn, up to one that closes the socket; the number of them that were carried out comes with the state.\<close>

fun run_ops :: "int \<Rightarrow> stream_op list \<Rightarrow> socket_server \<Rightarrow> (int \<times> nat \<times> socket_server) option" where
  "run_ops sid [] ss = Some (-1, 0, ss)"
| "run_ops sid (a # as) ss = do {
     (t, m, ss1) \<leftarrow> run_op sid a ss;
     if t = -1 then do { (t2, n, ss2) \<leftarrow> run_ops sid as ss1; Some (t2, Suc n, ss2) } else Some (t, 1, ss1) }"

fun submitted :: "priority \<Rightarrow> stream_op list \<Rightarrow> u8 list list" where
  "submitted p [] = []"
| "submitted p (Op_send q bs # as) = (if p = q then bs # submitted p as else submitted p as)"
| "submitted p (Op_flush # as) = submitted p as"

lemma run_op_stream:
  assumes "stream_at sid base fd Hs Ls ss" "run_op sid a ss = Some r"
  shows "goes_on sid base fd (Hs @ submitted PRIORITY_HIGH [a]) (Ls @ submitted PRIORITY_LOW [a]) r"
proof (cases a)
  case (Op_send p bs)
  then have "send_socket sid (Plain bs) (int (length bs)) p None ss = Some r" using assms(2) by simp
  from send_socket_stream[OF assms(1) this] show ?thesis using Op_send by (cases p) (simp_all add: added_def)
next
  case Op_flush
  then show ?thesis using send_buffer_stream[OF assms(1)] assms(2) by simp
qed

lemma submitted_Cons: "submitted p (a # as) = submitted p [a] @ submitted p as"
  by (cases a) simp_all

lemma run_ops_stream:
  assumes "stream_at sid base fd Hs Ls ss" "run_ops sid as ss = Some (t, n, ss')"
  shows "goes_on sid base fd (Hs @ submitted PRIORITY_HIGH (take n as)) (Ls @ submitted PRIORITY_LOW (take n as)) (t, m, ss')"
    "t = -1 \<longrightarrow> n = length as"
proof -
  have "goes_on sid base fd (Hs @ submitted PRIORITY_HIGH (take n as)) (Ls @ submitted PRIORITY_LOW (take n as)) (t, m, ss') \<and>
      (t = -1 \<longrightarrow> n = length as)"
    using assms
  proof (induction as arbitrary: Hs Ls ss n)
    case Nil
    then show ?case by (auto simp: goes_on_def)
  next
    case (Cons a as)
    obtain t1 m1 ss1 where r: "run_op sid a ss = Some (t1, m1, ss1)" using Cons.prems(2) by (auto simp: bind_eq_Some_iff)
    note g = run_op_stream[OF Cons.prems(1) r]
    show ?case
    proof (cases "t1 = -1")
      case True
      then obtain k where k: "run_ops sid as ss1 = Some (t, k, ss')" "n = Suc k"
        using Cons.prems(2) r by (auto simp: bind_eq_Some_iff)
      have "stream_at sid base fd (Hs @ submitted PRIORITY_HIGH [a]) (Ls @ submitted PRIORITY_LOW [a]) ss1"
        using g True by (simp add: goes_on_def)
      from Cons.IH[OF this k(1)] show ?thesis using k(2) by (simp add: submitted_Cons[of _ a "take k as"])
    next
      case False
      then show ?thesis using g Cons.prems(2) r by (auto simp: goes_on_def)
    qed
  qed
  then show "goes_on sid base fd (Hs @ submitted PRIORITY_HIGH (take n as)) (Ls @ submitted PRIORITY_LOW (take n as)) (t, m, ss')"
    "t = -1 \<longrightarrow> n = length as" by auto
qed

definition connected_socket :: "int \<Rightarrow> int \<Rightarrow> socket_server \<Rightarrow> bool" where
  "connected_socket sid fd ss \<longleftrightarrow> (let s = ss_slot ss (HASH_ID sid) in
     s_type s = ST_CONNECTED \<and> s_id s = sid \<and> s_fd s = fd \<and> s_protocol s = PROTOCOL_TCP \<and>
     send_buffer_empty s \<and> s_wb_size s = 0)"

lemma connected_stream: "connected_socket sid fd ss \<Longrightarrow> stream_at sid (ss_trace ss) fd [] [] ss"
  by (auto simp: connected_socket_def stream_at_def stream_ok_def Let_def send_buffer_empty_def)

end
