(* ===== verification/Socket_Props.thy ===== *)
theory Socket_Props
  imports Socket_Run Socket_Tcp
begin

text \<open>
  What the socket server guarantees in every state it can reach, and two ways to use it that go wrong.
\<close>

section \<open>A server with one connection\<close>

lemma reserve_id_next:
  assumes "0 \<le> sint (ss_alloc_id ss + 1)" "s_type (ss_slot ss (HASH_ID (sint (ss_alloc_id ss + 1)))) = ST_INVALID"
  shows "reserve_id ss = (sint (ss_alloc_id ss + 1),
    set_slot (HASH_ID (sint (ss_alloc_id ss + 1)))
      ((ss_slot ss (HASH_ID (sint (ss_alloc_id ss + 1))))\<lparr>s_type := ST_RESERVE, s_id := sint (ss_alloc_id ss + 1), s_fd := -1\<rparr>)
      (ss\<lparr>ss_alloc_id := ss_alloc_id ss + 1\<rparr>))"
proof -
  obtain n where n: "MAX_SOCKET = Suc n" by (cases MAX_SOCKET) (simp_all add: MAX_SOCKET_def)
  have "reserve_loop (Suc n) ss = (sint (ss_alloc_id ss + 1),
    set_slot (HASH_ID (sint (ss_alloc_id ss + 1)))
      ((ss_slot ss (HASH_ID (sint (ss_alloc_id ss + 1))))\<lparr>s_type := ST_RESERVE, s_id := sint (ss_alloc_id ss + 1), s_fd := -1\<rparr>)
      (ss\<lparr>ss_alloc_id := ss_alloc_id ss + 1\<rparr>))" using assms by (simp add: Let_def)
  then show ?thesis unfolding reserve_id_def n .
qed

definition some_slot :: socket where
  "some_slot = \<lparr>s_opaque = 0, s_high = [], s_low = [], s_wb_size = 0, s_fd = 0, s_id = 0, s_protocol = 0,
     s_type = ST_INVALID, s_p = P_size 0\<rparr>"

text \<open>Socket 1, connected to descriptor 7; three bytes were submitted and the system took one.\<close>

definition one_buffer :: write_buffer where
  "one_buffer = \<lparr>b_buffer = Plain [1, 2, 3], b_bytes = [1, 2, 3], b_off = 1, b_sz = 2, b_userobject = False, b_apart = False, b_address = []\<rparr>"

definition server_with :: "socket \<Rightarrow> request list \<Rightarrow> os_reply list \<Rightarrow> os_call list \<Rightarrow> socket_server" where
  "server_with s pipe os trace = \<lparr>ss_checkctrl = True, ss_alloc_id = (if s_type s = ST_INVALID then 0 else 1), ss_ev = [], ss_event_index = 0,
     ss_soi = None, ss_slot = (\<lambda>i. some_slot)(1 := s), ss_pipe = pipe, ss_os = os, ss_trace = trace\<rparr>"

definition connected_slot :: socket where
  "connected_slot = some_slot\<lparr>s_opaque := 5, s_fd := 7, s_id := 1, s_type := ST_CONNECTED, s_p := P_size 64\<rparr>"

lemma HASH_ID_1 [simp]: "HASH_ID 1 = 1"
  by (simp add: HASH_ID_def MAX_SOCKET_def)

lemma set_slot_server_with:
  "s_type s \<noteq> ST_INVALID \<Longrightarrow> s_type s' \<noteq> ST_INVALID \<Longrightarrow> set_slot 1 s (server_with s' p os t) = server_with s p os t"
  by (simp add: server_with_def set_slot_def)

lemma server_with_access [simp]:
  "ss_slot (server_with s p os t) = (\<lambda>i. some_slot)(1 := s)" "ss_pipe (server_with s p os t) = p"
  "ss_os (server_with s p os t) = os" "ss_trace (server_with s p os t) = t" "ss_soi (server_with s p os t) = None"
  "ss_checkctrl (server_with s p os t)" "os_do c (server_with s p os t) = server_with s p os (t @ [c])"
  "(server_with s p os t)\<lparr>ss_os := os'\<rparr> = server_with s p os' t" "(server_with s p os t)\<lparr>ss_pipe := p'\<rparr> = server_with s p' os t"
  "ss_alloc_id (server_with s p os t) = (if s_type s = ST_INVALID then 0 else 1)"
  by (simp_all add: server_with_def os_do_def)

lemma server_with_room: "room (server_with s p os t)"
  by (simp add: room_def MAX_SOCKET_def)

definition one_connection :: socket_server where
  "one_connection = server_with (connected_slot\<lparr>s_high := [one_buffer], s_wb_size := 2\<rparr>) [] []
     [C_sp_add 7 1, C_write 7 [1], C_sp_write 7 1 True]"

lemma one_connection_reachable: "server_reachable {} one_connection"
proof -
  let ?os = "[R_connected 7 None, R_ok, R_count 1]"
  have "socket_server_create (\<lambda>_. some_slot) ([R_ok, R_ok, R_ok] @ ?os) = Some (Some (server_with some_slot [] ?os []))"
    by (simp add: socket_server_create_def server_with_def some_slot_def fun_eq_iff)
  then have 0: "server_reachable {} (server_with some_slot [] ?os [])" by (rule server_reachable.create)
  let ?r = "some_slot\<lparr>s_type := ST_RESERVE, s_id := 1, s_fd := -1\<rparr>"
  have "snd (socket_server_connect 5 ''h'' 80 (server_with some_slot [] ?os [])) = server_with ?r [Req_O 1 80 5 ''h''] ?os []"
    using reserve_id_next[of "server_with some_slot [] ?os []"]
    by (simp add: socket_server_connect_def reserved_request_def send_request_def server_with_def set_slot_def some_slot_def)
  then have 1: "server_reachable {} (server_with ?r [Req_O 1 80 5 ''h''] ?os [])"
    using server_reachable.step[OF 0 server_step.connect[OF server_with_room]] by metis
  have "\<exists>m. poll_turn True (server_with ?r [Req_O 1 80 5 ''h''] ?os []) =
      Some (Some SOCKET_OPEN, m, True, server_with connected_slot [] [R_count 1] [C_sp_add 7 1])"
    by (simp add: poll_turn_def ctrl_cmd_def do_request_def open_socket_def new_fd_def os_ask_def Let_def set_slot_server_with set_type_def
        clear_closed_event_def SOCKET_OPEN_def SOCKET_CLOSE_def SOCKET_ERROR_def connected_slot_def some_slot_def MIN_READ_BUFFER_def
        PROTOCOL_TCP_def del: One_nat_def)
  then have 2: "server_reachable {} (server_with connected_slot [] [R_count 1] [C_sp_add 7 1])"
    using server_reachable.step[OF 1 server_step.turn[OF server_with_room]] by metis
  have "socket_server_send 1 (Plain [1, 2, 3]) 3 (server_with connected_slot [] [R_count 1] [C_sp_add 7 1]) =
      Some (0, server_with connected_slot [Req_D 1 (Plain [1, 2, 3]) 3] [R_count 1] [C_sp_add 7 1])"
    by (simp add: socket_server_send_def known_socket_def connected_slot_def some_slot_def send_request_def)
  then have 3: "server_reachable {} (server_with connected_slot [Req_D 1 (Plain [1, 2, 3]) 3] [R_count 1] [C_sp_add 7 1])"
    by (rule server_reachable.step[OF 2 server_step.send])
  have "\<exists>m. poll_turn True (server_with connected_slot [Req_D 1 (Plain [1, 2, 3]) 3] [R_count 1] [C_sp_add 7 1]) =
      Some (None, m, True, one_connection)"
    by (simp add: poll_turn_def ctrl_cmd_def do_request_def send_socket_def send_now_def send_object_init_def write_direct_def os_ask_def Let_def
        append_sendbuffer_def get_list_def set_list_def mem_read_def set_slot_server_with one_connection_def one_buffer_def
        connected_slot_def some_slot_def send_buffer_empty_def PROTOCOL_TCP_def del: One_nat_def)
  then show ?thesis using server_reachable.step[OF 3 server_step.turn[OF server_with_room]] by metis
qed

section \<open>The stream of a connection\<close>

text \<open>
  C9. A connected TCP socket carries its messages whole, in the order of each priority, whatever part of
  each write the system takes. After any sequence of sends (\<open>send_socket\<close>) and flushes (\<open>send_buffer\<close>),
  the bytes written are the beginning of an interleaving of the messages of high priority with the
  first ones of low priority, each message unbroken and none twice; while the socket lives, what is missing is
  exactly what the lists hold, and \<open>wb_size\<close> counts it; and each submitted buffer was freed once or waits
  in a list, and all were freed when an error closed the socket.
\<close>

theorem tcp_stream_intact:
  assumes "connected_socket sid fd ss" "run_ops sid as ss = Some (t, n, ss')"
  shows "\<exists>calls order Ls1 Ls2 unsent.
    ss_trace ss' = ss_trace ss @ calls \<and>
    order \<in> shuffles (submitted PRIORITY_HIGH (take n as)) Ls1 \<and> submitted PRIORITY_LOW (take n as) = Ls1 @ Ls2 \<and>
    written fd calls @ unsent = concat order \<and>
    (let s = ss_slot ss' (HASH_ID sid) in
      mset (freed calls) + mset (map b_buffer (s_high s @ s_low s)) =
        mset (map Plain (submitted PRIORITY_HIGH (take n as) @ submitted PRIORITY_LOW (take n as))) \<and>
      (t = -1 \<and> n = length as \<and> s_type s = ST_CONNECTED \<and> unsent = rest_bytes (s_high s) \<and>
         Ls2 = map whole (s_low s) \<and> s_wb_size s = int (length unsent + length (concat Ls2)) \<or>
       t = SOCKET_CLOSE \<and> s_type s = ST_INVALID \<and> send_buffer_empty s))"
proof -
  let ?H = "submitted PRIORITY_HIGH (take n as)" and ?L = "submitted PRIORITY_LOW (take n as)"
  note r = run_ops_stream[OF connected_stream[OF assms(1)] assms(2), unfolded append_Nil]
  from r(1)[of no_message] consider "t = -1" "stream_at sid (ss_trace ss) fd ?H ?L ss'"
    | "t = SOCKET_CLOSE" "stream_closed sid (ss_trace ss) fd ?H ?L ss'" by (auto simp: goes_on_def)
  then show ?thesis
  proof cases
    case 1
    then obtain calls ms Ls1 where s: "ss_trace ss' = ss_trace ss @ calls"
        "s_type (ss_slot ss' (HASH_ID sid)) = ST_CONNECTED"
        "written fd calls @ rest_bytes (s_high (ss_slot ss' (HASH_ID sid))) = concat (ms @ map whole (s_high (ss_slot ss' (HASH_ID sid))))"
        "ms @ map whole (s_high (ss_slot ss' (HASH_ID sid))) \<in> shuffles ?H Ls1" "?L = Ls1 @ map whole (s_low (ss_slot ss' (HASH_ID sid)))"
        "mset (freed calls) + mset (map b_buffer (s_high (ss_slot ss' (HASH_ID sid)) @ s_low (ss_slot ss' (HASH_ID sid)))) =
          mset (map Plain (?H @ ?L))"
        "\<forall>b \<in> set (s_low (ss_slot ss' (HASH_ID sid))). fresh b"
        "s_wb_size (ss_slot ss' (HASH_ID sid)) = int (length (rest_bytes (s_high (ss_slot ss' (HASH_ID sid))))) +
          int (length (rest_bytes (s_low (ss_slot ss' (HASH_ID sid)))))"
      unfolding stream_at_def stream_ok_def Let_def set_append by blast
    have "s_wb_size (ss_slot ss' (HASH_ID sid)) = int (length (rest_bytes (s_high (ss_slot ss' (HASH_ID sid)))) +
          length (concat (map whole (s_low (ss_slot ss' (HASH_ID sid))))))"
      using s(7,8) by (simp add: rest_fresh)
    then show ?thesis using 1(1) r(2) s(1-6) unfolding Let_def by blast
  next
    case 2
    then obtain calls ms Ls1 Ls2 unsent where s: "ss_trace ss' = ss_trace ss @ calls" "written fd calls @ unsent = concat ms"
        "ms \<in> shuffles ?H Ls1" "?L = Ls1 @ Ls2" "mset (freed calls) = mset (map Plain (?H @ ?L))"
        "s_type (ss_slot ss' (HASH_ID sid)) = ST_INVALID" "send_buffer_empty (ss_slot ss' (HASH_ID sid))"
      unfolding stream_closed_def by blast
    then have "mset (freed calls) + mset (map b_buffer (s_high (ss_slot ss' (HASH_ID sid)) @ s_low (ss_slot ss' (HASH_ID sid)))) =
        mset (map Plain (?H @ ?L))" by (simp add: send_buffer_empty_def)
    then show ?thesis using 2(1) s unfolding Let_def by blast
  qed
qed

text \<open>A message in two parts, one of low priority in two parts, one of high priority behind it.\<close>

definition some_sends :: "stream_op list" where
  "some_sends = [Op_send PRIORITY_HIGH [1, 2, 3], Op_send PRIORITY_LOW [4, 5], Op_flush, Op_send PRIORITY_HIGH [6], Op_flush]"

abbreviation some_server :: socket_server where
  "some_server \<equiv> server_with connected_slot [] [R_count 1, R_count 2, R_count 1, R_count 1, R_count 1] []"

lemma tcp_stream_intact_witness:
  "connected_socket 1 7 some_server \<and>
   (\<exists>t n ss' calls order Ls1 Ls2 unsent. run_ops 1 some_sends some_server = Some (t, n, ss') \<and> ss_trace ss' = ss_trace some_server @ calls \<and>
      order \<in> shuffles (submitted PRIORITY_HIGH (take n some_sends)) Ls1 \<and> submitted PRIORITY_LOW (take n some_sends) = Ls1 @ Ls2 \<and>
      written 7 calls @ unsent = concat order \<and> written 7 calls = [1, 2, 3, 4, 5, 6])"
proof -
  have c: "connected_socket 1 7 some_server" by (simp add: connected_socket_def connected_slot_def some_slot_def PROTOCOL_TCP_def send_buffer_empty_def)
  have "map_option (\<lambda>(t, n, ss). written 7 (ss_trace ss)) (run_ops 1 some_sends some_server) = Some [1, 2, 3, 4, 5, 6]"
    by code_simp
  then obtain t n ss' where r: "run_ops 1 some_sends some_server = Some (t, n, ss')" "written 7 (ss_trace ss') = [1, 2, 3, 4, 5, 6]" by auto
  obtain calls order Ls1 Ls2 unsent where s: "ss_trace ss' = ss_trace some_server @ calls"
      "order \<in> shuffles (submitted PRIORITY_HIGH (take n some_sends)) Ls1" "submitted PRIORITY_LOW (take n some_sends) = Ls1 @ Ls2"
      "written 7 calls @ unsent = concat order"
    using tcp_stream_intact[OF c r(1)] by blast
  then have "written 7 calls = [1, 2, 3, 4, 5, 6]" using r(2) by simp
  then show ?thesis using c r(1) s by blast
qed

section \<open>Every reachable state\<close>

text \<open>
  C10. Nothing that is to be sent is forgotten: in every state the server reaches, whatever the system answers and other
  threads request, while fewer than \<open>2 ^ 31 - 65536\<close> numbers were given out, the following holds. A free slot holds no buffer; in
  every other one \<open>wb_size\<close> is the sum of what the buffers still hold, and only the first buffer to go can be partly sent.
  A socket whose number is not one of those that \<open>socket_server_bind\<close> gave out (\<open>B\<close>) and that is connected, connecting or half closed
  and has unsent buffers is watched for being writable, and so is every such half closed one, which is closed once it is flushed.
  (The code does not watch a bound descriptor, whose data is never sent: \<open>bound_socket_never_written\<close>.)
\<close>

theorem unsent_data_is_watched:
  assumes "server_reachable B ss"
  shows "let s = ss_slot ss i in
    (s_type s \<in> {ST_INVALID, ST_RESERVE} \<longrightarrow> s_high s = [] \<and> s_low s = []) \<and>
    (s_type s \<notin> {ST_INVALID, ST_RESERVE} \<longrightarrow>
       s_wb_size s = sum_list (map b_sz (s_high s @ s_low s)) \<and> (\<forall>b \<in> set (tl (s_high s)) \<union> set (s_low s). b_off b = 0)) \<and>
    (s_id s \<notin> B \<longrightarrow>
       (s_type s \<in> {ST_CONNECTED, ST_CONNECTING} \<and> s_high s @ s_low s \<noteq> [] \<longrightarrow> interest i (ss_trace ss)) \<and>
       (s_type s = ST_HALFCLOSE \<longrightarrow> interest i (ss_trace ss)))"
proof -
  note inv = all_invD(1)[OF reachable_all_inv[OF assms], of i]
  show ?thesis
  proof (cases "s_type (ss_slot ss i) \<in> {ST_INVALID, ST_RESERVE}")
    case True
    then show ?thesis using inv by (auto simp: sock_inv_def send_buffer_empty_def Let_def)
  next
    case False
    let ?on = "interest i (ss_trace ss) \<or> s_id (ss_slot ss i) \<in> B"
    have "lists_inv (ss_slot ss i)" "waits (ss_slot ss i) ?on"
      "s_type (ss_slot ss i) \<in> {ST_CONNECTING, ST_HALFCLOSE} \<longrightarrow> ?on" using False inv by (simp_all add: sock_inv_def)
    then show ?thesis using False
      by (auto simp: Let_def lists_inv_def waits_def unsent_size_def send_buffer_empty_def)
  qed
qed

lemma unsent_data_is_watched_witness:
  "server_reachable {} one_connection \<and> s_high (ss_slot one_connection 1) \<noteq> [] \<and> interest 1 (ss_trace one_connection) \<and>
   s_wb_size (ss_slot one_connection 1) = 2"
  using unsent_data_is_watched[OF one_connection_reachable, of 1] one_connection_reachable
  by (simp add: Let_def one_connection_def connected_slot_def one_buffer_def)

text \<open>
  C28. The union of a slot is always read as what was stored: in every reachable state, bound descriptors included and while fewer
  than \<open>2 ^ 31 - 65536\<close> numbers were given out, an open TCP socket holds the size of its reads, 64 times a power of two and less
  than \<open>2 ^ 31\<close>, and an open UDP socket holds an address of 19 bytes.
\<close>

theorem union_tagged_by_protocol:
  assumes "server_reachable B ss" "s_type (ss_slot ss i) \<notin> {ST_INVALID, ST_RESERVE}"
  shows "if s_protocol (ss_slot ss i) = PROTOCOL_TCP
    then \<exists>n k. s_p (ss_slot ss i) = P_size n \<and> n = 64 * 2 ^ k \<and> n < 2 ^ 31
    else \<exists>a. s_p (ss_slot ss i) = P_address a \<and> length a = 19"
proof -
  have "union_ok (ss_slot ss i)" using all_invD(1)[OF reachable_all_inv[OF assms(1)], of i] assms(2) by (simp add: sock_inv_def)
  then show ?thesis by (auto simp: union_ok_def MIN_READ_BUFFER_def split: socket_p.splits)
qed

text \<open>The connection and, behind it, a descriptor bound by another service.\<close>

definition one_bound :: socket_server where
  "one_bound = snd (socket_server_bind 6 9 one_connection)"

lemma one_bound_reachable: "server_reachable {2} one_bound"
proof -
  have "socket_server_bind 6 9 one_connection = (2, one_bound)"
    using reserve_id_next[of one_connection]
    by (simp add: one_bound_def socket_server_bind_def reserved_request_def one_connection_def connected_slot_def some_slot_def
        HASH_ID_def MAX_SOCKET_def)
  moreover have "room one_connection" by (simp add: one_connection_def server_with_room)
  ultimately show ?thesis using server_reachable.bind[OF one_connection_reachable] by simp
qed

lemma union_tagged_by_protocol_witness:
  "server_reachable {2} one_bound \<and> s_type (ss_slot one_bound 1) = ST_CONNECTED \<and>
   (\<exists>n k. s_p (ss_slot one_bound 1) = P_size n \<and> n = 64 * 2 ^ k \<and> n < 2 ^ 31)"
proof -
  have "ss_slot one_bound 1 = ss_slot one_connection 1"
    using reserve_id_next[of one_connection]
    by (simp add: one_bound_def socket_server_bind_def reserved_request_def one_connection_def connected_slot_def some_slot_def
        HASH_ID_def MAX_SOCKET_def send_request_def)
  then have t: "s_type (ss_slot one_bound 1) = ST_CONNECTED" "s_protocol (ss_slot one_bound 1) = PROTOCOL_TCP"
    by (simp_all add: one_connection_def connected_slot_def some_slot_def PROTOCOL_TCP_def)
  then show ?thesis using union_tagged_by_protocol[OF one_bound_reachable, of 1] one_bound_reachable by simp
qed

text \<open>The opening request at the head of the pipe meets the slot that was reserved for it, so no assertion of \<open>new_fd\<close> fails.\<close>

lemma opening_finds_reserved_slot:
  assumes "server_reachable B ss" "ss_pipe ss = r # rs" "opener r = Some sid"
  shows "reserved sid ss" "\<exists>ss'. new_fd sid fd proto opaque False ss = Some (True, ss')"
proof -
  note d = all_invD[OF reachable_all_inv[OF assms(1)]]
  show "reserved sid ss" using d(4)[of r sid] d(1)[of "HASH_ID sid"] assms(2,3) by (simp add: sock_inv_def)
  then show "\<exists>ss'. new_fd sid fd proto opaque False ss = Some (True, ss')"
    by (simp add: new_fd_def Let_def send_buffer_empty_def)
qed

section \<open>Closing a number that is not in use\<close>

text \<open>
  C29. \<open>socket_server_close\<close> takes any number. If a service closes the next number to be given out and
  another connects before the socket thread reads the pipe, the close request meets the slot while it is reserved, and the
  assertion of \<open>force_close\<close> ends the process, whatever the system answers.
\<close>

theorem close_of_next_number_aborts:
  assumes "server_reachable B ss" "ss_pipe ss = []" "ss_checkctrl ss" "length addr < 232"
    and "sid = sint (ss_alloc_id ss + 1)" "0 \<le> sid" "s_type (ss_slot ss (HASH_ID sid)) = ST_INVALID"
  shows "socket_server_connect opaque addr port (socket_server_close owner sid ss) = (sid, ss') \<Longrightarrow>
    socket_server_poll (ss'\<lparr>ss_os := replies\<rparr>) = None"
proof -
  assume c: "socket_server_connect opaque addr port (socket_server_close owner sid ss) = (sid, ss')"
  let ?ss1 = "socket_server_close owner sid ss"
  have e: "send_buffer_empty (ss_slot ss (HASH_ID sid))"
    using all_invD(1)[OF reachable_all_inv[OF assms(1)], of "HASH_ID sid"] assms(7) by (simp add: sock_inv_def)
  have "ss' = send_request (Req_O sid port opaque addr) (snd (reserve_id ?ss1))"
    using c assms(4-7) reserve_id_next[of ?ss1]
    by (auto simp: socket_server_connect_def reserved_request_def socket_server_close_def send_request_def)
  then have s: "ss_pipe ss' = [Req_K sid False owner, Req_O sid port opaque addr]" "ss_checkctrl ss'"
      "s_type (ss_slot ss' (HASH_ID sid)) = ST_RESERVE" "s_id (ss_slot ss' (HASH_ID sid)) = sid"
      "send_buffer_empty (ss_slot ss' (HASH_ID sid))"
    using assms(2,3,5-7) e reserve_id_next[of ?ss1]
    by (auto simp: socket_server_close_def send_request_def set_slot_def send_buffer_empty_def)
  then have "poll_turn True (ss'\<lparr>ss_os := replies\<rparr>) = None"
    by (simp add: poll_turn_def ctrl_cmd_def do_request_def close_socket_def Let_def force_close_def)
  then show ?thesis by (simp add: socket_server_poll_def poll_loop.simps)
qed

lemma close_of_next_number_aborts_witness:
  "\<exists>ss. server_reachable {} ss \<and> socket_server_poll ((snd (socket_server_connect 5 ''h'' 80 (socket_server_close 9 1 ss)))\<lparr>ss_os := [R_ok]\<rparr>) = None"
proof -
  let ?ss = "server_with some_slot [] [] []"
  have "socket_server_create (\<lambda>_. some_slot) [R_ok, R_ok, R_ok] = Some (Some ?ss)"
    by (simp add: socket_server_create_def server_with_def some_slot_def fun_eq_iff)
  then have r: "server_reachable {} ?ss" by (rule server_reachable.create)
  have c: "socket_server_connect 5 ''h'' 80 (socket_server_close 9 1 ?ss) =
      (1, snd (socket_server_connect 5 ''h'' 80 (socket_server_close 9 1 ?ss)))"
    using reserve_id_next[of "socket_server_close 9 1 ?ss"]
    by (simp add: socket_server_connect_def reserved_request_def socket_server_close_def send_request_def some_slot_def)
  have "socket_server_poll ((snd (socket_server_connect 5 ''h'' 80 (socket_server_close 9 1 ?ss)))\<lparr>ss_os := [R_ok]\<rparr>) = None"
    by (rule close_of_next_number_aborts[OF r _ _ _ _ _ _ c]) (simp_all add: some_slot_def)
  then show ?thesis using r by blast
qed

section \<open>Bound descriptors\<close>

text \<open>
  Data for a descriptor given to \<open>socket_server_bind\<close> is put in the list and stays there: nothing is written, and the
  descriptor is not watched for being writable, since only a connected socket with empty lists is written to or watched.
\<close>

lemma bound_socket_never_written:
  assumes "s_type (ss_slot ss (HASH_ID sid)) = ST_BIND" "s_id (ss_slot ss (HASH_ID sid)) = sid"
    "s_protocol (ss_slot ss (HASH_ID sid)) = PROTOCOL_TCP"
  shows "\<exists>ss'. send_socket sid (Plain bs) (int (length bs)) p addr ss = Some (-1, no_message, ss') \<and>
    ss_trace ss' = ss_trace ss \<and> s_type (ss_slot ss' (HASH_ID sid)) = ST_BIND \<and>
    get_list p (ss_slot ss' (HASH_ID sid)) = get_list p (ss_slot ss (HASH_ID sid)) @ [plain_buffer bs 0]"
  using assms by (simp add: send_socket_def Let_def send_object_init_def send_later_def append_sendbuffer_def)

section \<open>Objects of low priority\<close>

text \<open>
  \<open>list_uncomplete\<close> compares the data with the object. For an object of the user whose data lies elsewhere they always
  differ, so once it waits in the low list the next flush fails the assertion that the first of that list is untouched.
\<close>

lemma low_userobject_aborts:
  assumes "s_low (ss_slot ss i) = []" "s_protocol (ss_slot ss i) = PROTOCOL_TCP" "ss_soi ss = Some soi" "soi a = (bs, n, True)"
    and "send_later i (Object a) (-1) PRIORITY_LOW addr ss = Some (t, m, ss')"
  shows "send_buffer i ss' = None"
  using assms by (auto simp: send_later_def append_sendbuffer_def send_object_init_def get_list_def set_list_def send_buffer_def
      list_uncomplete_def Let_def)

end
