(* ===== verification/Skynet_Socket.thy ===== *)
theory Skynet_Socket
  imports Socket_Props
begin

text \<open>
  The rest of \<open>skynet_socket.c\<close>: the socket layer of the node, which owns the socket server, passes the calls of services on with
  their handle as the owner, and turns what the server reports into messages.
\<close>

section \<open>Start and end\<close>

definition skynet_socket_init :: "(nat \<Rightarrow> socket) \<Rightarrow> os_reply list \<Rightarrow> socket_server option option" where
  "skynet_socket_init junk replies = socket_server_create junk replies"

definition skynet_socket_exit :: "socket_server \<Rightarrow> socket_server" where
  "skynet_socket_exit ss = socket_server_exit ss"

definition skynet_socket_free :: "socket_server \<Rightarrow> (socket_server option \<times> os_call list) option" where
  "skynet_socket_free ss = do { ss1 \<leftarrow> socket_server_release ss; Some (None, ss_trace ss1) }"

section \<open>Calls of services\<close>

definition owner_of :: "ctxid \<Rightarrow> node_state \<Rightarrow> u64 option" where
  "owner_of c s = do { h \<leftarrow> skynet_context_handle c s; Some (ucast h) }"

definition skynet_socket_send_to ::
  "externals \<Rightarrow> ctxid \<Rightarrow> int \<Rightarrow> send_data \<Rightarrow> int \<Rightarrow> node_state \<times> socket_server \<Rightarrow> (int \<times> node_state \<times> socket_server) option" where
  "skynet_socket_send_to X c sid data sz st = (let (s, ss) = st in do {
     (wsz, ss1) \<leftarrow> socket_server_send sid data sz ss;
     (r, s1) \<leftarrow> skynet_socket_send X c sid wsz s;
     Some (r, s1, ss1) })"

definition skynet_socket_send_lowpriority :: "int \<Rightarrow> send_data \<Rightarrow> int \<Rightarrow> socket_server \<Rightarrow> socket_server option" where
  "skynet_socket_send_lowpriority sid data sz ss = socket_server_send_lowpriority sid data sz ss"

definition skynet_socket_listen :: "ctxid \<Rightarrow> node_state \<Rightarrow> socket_server \<Rightarrow> (int \<times> socket_server) option" where
  "skynet_socket_listen c s ss = do { source \<leftarrow> owner_of c s; socket_server_listen source ss }"

definition skynet_socket_connect :: "ctxid \<Rightarrow> string \<Rightarrow> int \<Rightarrow> node_state \<Rightarrow> socket_server \<Rightarrow> (int \<times> socket_server) option" where
  "skynet_socket_connect c host port s ss = do { source \<leftarrow> owner_of c s; Some (socket_server_connect source host port ss) }"

definition skynet_socket_bind :: "ctxid \<Rightarrow> int \<Rightarrow> node_state \<Rightarrow> socket_server \<Rightarrow> (int \<times> socket_server) option" where
  "skynet_socket_bind c fd s ss = do { source \<leftarrow> owner_of c s; Some (socket_server_bind source fd ss) }"

definition skynet_socket_close :: "ctxid \<Rightarrow> int \<Rightarrow> node_state \<Rightarrow> socket_server \<Rightarrow> socket_server option" where
  "skynet_socket_close c sid s ss = do { source \<leftarrow> owner_of c s; Some (socket_server_close source sid ss) }"

definition skynet_socket_shutdown :: "ctxid \<Rightarrow> int \<Rightarrow> node_state \<Rightarrow> socket_server \<Rightarrow> socket_server option" where
  "skynet_socket_shutdown c sid s ss = do { source \<leftarrow> owner_of c s; Some (socket_server_shutdown source sid ss) }"

definition skynet_socket_start :: "ctxid \<Rightarrow> int \<Rightarrow> node_state \<Rightarrow> socket_server \<Rightarrow> socket_server option" where
  "skynet_socket_start c sid s ss = do { source \<leftarrow> owner_of c s; Some (socket_server_start source sid ss) }"

definition skynet_socket_nodelay :: "int \<Rightarrow> socket_server \<Rightarrow> socket_server" where
  "skynet_socket_nodelay sid ss = socket_server_nodelay sid ss"

definition skynet_socket_udp :: "ctxid \<Rightarrow> bool \<Rightarrow> node_state \<Rightarrow> socket_server \<Rightarrow> (int \<times> socket_server) option" where
  "skynet_socket_udp c bound s ss = do { source \<leftarrow> owner_of c s; socket_server_udp source bound ss }"

definition skynet_socket_udp_connect :: "int \<Rightarrow> (nat \<times> u8 list) option \<Rightarrow> socket_server \<Rightarrow> int \<times> socket_server" where
  "skynet_socket_udp_connect sid found ss = socket_server_udp_connect sid found ss"

definition skynet_socket_udp_send ::
  "externals \<Rightarrow> ctxid \<Rightarrow> int \<Rightarrow> u8 list \<Rightarrow> send_data \<Rightarrow> int \<Rightarrow> node_state \<times> socket_server \<Rightarrow> (int \<times> node_state \<times> socket_server) option" where
  "skynet_socket_udp_send X c sid address data sz st = (let (s, ss) = st in do {
     (wsz, ss1) \<leftarrow> socket_server_udp_send sid address data sz ss;
     (r, s1) \<leftarrow> check_wsz X c sid wsz s;
     Some (r, s1, ss1) })"

definition skynet_socket_udp_address :: "skynet_socket_message \<Rightarrow> u8 list option option" where
  "skynet_socket_udp_address msg =
     (if sm_type msg \<noteq> SKYNET_SOCKET_TYPE_UDP then Some None
      else socket_server_udp_address \<lparr>so_id = sm_id msg, so_opaque = 0, so_ud = sm_ud msg, so_data = sm_buffer msg\<rparr>)"

section \<open>The socket thread\<close>

text \<open>One call of \<open>skynet_socket_poll\<close>, the socket server included.\<close>

definition socket_thread_poll :: "externals \<Rightarrow> node_state \<times> socket_server \<Rightarrow> (int \<times> node_state \<times> socket_server) option" where
  "socket_thread_poll X st = (let (s, ss) = st in do {
     (polled, ss1) \<leftarrow> socket_server_poll ss;
     (r, s1) \<leftarrow> skynet_socket_poll X polled s;
     Some (r, s1, ss1) })"

text \<open>A read event of a connected socket: the bytes are what the call reports.\<close>

definition data_of :: "socket \<Rightarrow> u8 list \<Rightarrow> socket_message" where
  "data_of s bs = \<lparr>so_id = s_id s, so_opaque = s_opaque s, so_ud = int (length bs), so_data = Some bs\<rparr>"

text \<open>The size of the next read after one of \<open>n\<close> bytes: doubled when the buffer was full, halved when it was less than half full.\<close>

definition next_read_size :: "int \<Rightarrow> int \<Rightarrow> int" where
  "next_read_size sz n = (if n = sz then sz * 2 else if MIN_READ_BUFFER < sz \<and> n * 2 < sz then sz div 2 else sz)"

text \<open>The events after a read: a socket that can be written too keeps its event, without the read.\<close>

definition read_done :: "socket_server \<Rightarrow> socket_server \<Rightarrow> bool" where
  "read_done ss ss' \<longleftrightarrow> (let k = ss_event_index ss; e = ss_ev ss ! k in
     if e_write e then ss_ev ss' = (ss_ev ss)[k := e\<lparr>e_read := False\<rparr>] \<and> ss_event_index ss' = k
     else ss_ev ss' = ss_ev ss \<and> ss_event_index ss' = k + 1)"

lemma poll_reads_data:
  assumes "ss_pipe ss = [] \<or> \<not> ss_checkctrl ss" "ss_event_index ss < length (ss_ev ss)"
    and "e_s (ss_ev ss ! ss_event_index ss) = Some i" "e_read (ss_ev ss ! ss_event_index ss)"
    and "s_type (ss_slot ss i) = ST_CONNECTED" "s_protocol (ss_slot ss i) = PROTOCOL_TCP" "s_p (ss_slot ss i) = P_size sz" "sz < 2 ^ 30"
    and "ss_os ss = R_bytes bs # rs" "bs \<noteq> []" "int (length bs) \<le> sz"
  shows "\<exists>ss'. socket_server_poll ss = Some ((SOCKET_DATA, data_of (ss_slot ss i) bs, True), ss') \<and>
    ss_slot ss' = (ss_slot ss)(i := (ss_slot ss i)\<lparr>s_p := P_size (next_read_size sz (int (length bs)))\<rparr>) \<and>
    ss_pipe ss' = ss_pipe ss \<and> ss_trace ss' = ss_trace ss \<and> ss_alloc_id ss' = ss_alloc_id ss \<and> ss_soi ss' = ss_soi ss \<and>
    ss_os ss' = rs \<and> \<not> ss_checkctrl ss' \<and> read_done ss ss'"
proof -
  let ?s = "ss_slot ss i" and ?k = "ss_event_index ss" and ?e = "ss_ev ss ! ss_event_index ss"
  let ?ss3 = "ss\<lparr>ss_checkctrl := False, ss_event_index := ?k + 1\<rparr>"
  let ?n = "int (length bs)"
  let ?sz1 = "next_read_size sz ?n"
  let ?ss4 = "set_slot i (?s\<lparr>s_p := P_size ?sz1\<rparr>) (?ss3\<lparr>ss_os := rs\<rparr>)"
  let ?ss5 = "if e_write ?e then ?ss4\<lparr>ss_ev := (ss_ev ss)[?k := ?e\<lparr>e_read := False\<rparr>], ss_event_index := ?k\<rparr> else ?ss4"
  have f: "forward_message_tcp i ?ss3 = Some (SOCKET_DATA, data_of ?s bs, ?ss4)"
    using assms(5,7-11) by (auto simp: forward_message_tcp_def Let_def os_ask_def data_of_def next_read_size_def)
  have ty: "SOCKET_DATA \<noteq> SOCKET_CLOSE" "SOCKET_DATA \<noteq> SOCKET_ERROR" "SOCKET_DATA \<noteq> -1" "SOCKET_DATA \<noteq> -2"
    by (simp_all add: SOCKET_DATA_def SOCKET_CLOSE_def SOCKET_ERROR_def)
  have "poll_event ?k ?e i ?ss3 = Some (SOCKET_DATA, data_of ?s bs, ?ss5)"
    using f assms(4-6) ty by (simp add: poll_event_def set_slot_def Let_def)
  then have "poll_turn True ss = Some (Some SOCKET_DATA, data_of ?s bs, True, ?ss5)"
    using assms(1-3) ty by (auto simp: poll_turn_def Let_def)
  then have "socket_server_poll ss = Some ((SOCKET_DATA, data_of ?s bs, True), ?ss5)"
    by (simp add: socket_server_poll_def poll_loop.simps)
  then show ?thesis by (intro exI[of _ ?ss5]) (auto simp: set_slot_def read_done_def Let_def)
qed

text \<open>
  C27. From the wire to the service: when the poll reports that a connected TCP socket can be read and the read gives some bytes, one
  call of the socket thread puts exactly one message at the end of the queue of the service that owns the socket, with the number of
  the socket and these bytes. Nothing else changes. In the node, every other queue is as it was up to its link in the global list,
  which gets that queue at its end exactly when nobody lists or holds it, and all but the queues is the same. In the
  socket server, the slot of the socket gets the size of its next read (doubled, halved or kept), the event is used up or loses its
  read, the requests wait until the events at hand are done, and all slots, the requests, the numbers and the calls to the
  system are otherwise the same. The size of the read must
  be below \<open>2 ^ 30\<close>, so that it can be doubled as an \<open>int\<close>.
\<close>

theorem socket_data_reaches_owner:
  assumes "ss_pipe ss = [] \<or> \<not> ss_checkctrl ss" "ss_event_index ss < length (ss_ev ss)"
    and "e_s (ss_ev ss ! ss_event_index ss) = Some i" "e_read (ss_ev ss ! ss_event_index ss)"
    and "s_type (ss_slot ss i) = ST_CONNECTED" "s_protocol (ss_slot ss i) = PROTOCOL_TCP" "s_p (ss_slot ss i) = P_size sz" "sz < 2 ^ 30"
    and "ss_os ss = R_bytes bs # rs" "bs \<noteq> []" "int (length bs) \<le> sz"
    and "node_ok H s" "handle_lookup s (ucast (s_opaque (ss_slot ss i))) = Some c" "ctx_heap s c = Some x"
  shows "\<exists>s' ss' m. socket_thread_poll X (s, ss) = Some (-1, s', ss') \<and> node_ok H s' \<and>
    mq_state.more s' = mq_state.more s \<and> mq_fresh s' = mq_fresh s \<and> others_kept (ctx_queue x) s s' \<and>
    (\<forall>xs. sched_rep s H xs \<longrightarrow> sched_rep s' H (listed H (ctx_queue x) xs)) \<and>
    mq_msgs s' = (mq_msgs s)(ctx_queue x \<mapsto> the (mq_msgs s (ctx_queue x)) @ [m]) \<and>
    msg_data m = Some (Socket \<lparr>sm_type = SKYNET_SOCKET_TYPE_DATA, sm_id = s_id (ss_slot ss i), sm_ud = int (length bs),
       sm_buffer = Some bs, sm_padding = []\<rparr>) \<and> type_of_sz (msg_sz m) = PTYPE_SOCKET \<and>
    ss_slot ss' = (ss_slot ss)(i := (ss_slot ss i)\<lparr>s_p := P_size (next_read_size sz (int (length bs)))\<rparr>) \<and>
    ss_pipe ss' = ss_pipe ss \<and> ss_trace ss' = ss_trace ss \<and> ss_alloc_id ss' = ss_alloc_id ss \<and> ss_soi ss' = ss_soi ss \<and>
    ss_os ss' = rs \<and> \<not> ss_checkctrl ss' \<and> read_done ss ss'"
proof -
  let ?d = "data_of (ss_slot ss i) bs"
  obtain ss' where p: "socket_server_poll ss = Some ((SOCKET_DATA, ?d, True), ss')"
      and ss': "ss_slot ss' = (ss_slot ss)(i := (ss_slot ss i)\<lparr>s_p := P_size (next_read_size sz (int (length bs)))\<rparr>)"
        "ss_pipe ss' = ss_pipe ss" "ss_trace ss' = ss_trace ss" "ss_alloc_id ss' = ss_alloc_id ss" "ss_soi ss' = ss_soi ss"
        "ss_os ss' = rs" "\<not> ss_checkctrl ss'" "read_done ss ss'"
    using poll_reads_data[OF assms(1-11)] by blast
  have l: "handle_lookup s (ucast (so_opaque ?d)) = Some c" using assms(13) by (simp add: data_of_def)
  obtain s' m where f: "forward_message X SKYNET_SOCKET_TYPE_DATA False ?d s = Some s'" "node_ok H s'" "mq_only s s'"
      "mq_msgs s' = (mq_msgs s)(ctx_queue x \<mapsto> the (mq_msgs s (ctx_queue x)) @ [m])"
      "msg_data m = Some (Socket \<lparr>sm_type = SKYNET_SOCKET_TYPE_DATA, sm_id = so_id ?d, sm_ud = so_ud ?d,
         sm_buffer = so_data ?d, sm_padding = []\<rparr>)" "type_of_sz (msg_sz m) = PTYPE_SOCKET"
      "others_kept (ctx_queue x) s s'" "\<forall>xs. sched_rep s H xs \<longrightarrow> sched_rep s' H (listed H (ctx_queue x) xs)"
    using forward_delivers[OF assms(12) l assms(14), of False "[]" X SKYNET_SOCKET_TYPE_DATA] by auto
  have "skynet_socket_poll X (SOCKET_DATA, ?d, True) s = Some (-1, s')"
    using f(1) by (simp add: skynet_socket_poll_def event_type_def SOCKET_EXIT_def SOCKET_DATA_def)
  then have "socket_thread_poll X (s, ss) = Some (-1, s', ss')" using p by (simp add: socket_thread_poll_def)
  then show ?thesis using f ss' f(3)[unfolded mq_only_def]
    by (intro exI[of _ s'] exI[of _ ss'] exI[of _ m]) (simp add: data_of_def)
qed

theorem socket_data_reaches_owner_witness:
  "\<exists>ss s' ss' m. ss_slot ss 1 = connected_slot\<lparr>s_opaque := 0x01000001\<rparr> \<and>
    socket_thread_poll demo_world (demo_node, ss) = Some (-1, s', ss') \<and> mq_msgs s' 0 = Some [demo_message, m] \<and>
    msg_data m = Some (Socket \<lparr>sm_type = SKYNET_SOCKET_TYPE_DATA, sm_id = 1, sm_ud = 2, sm_buffer = Some [65, 66], sm_padding = []\<rparr>)"
proof -
  let ?ss = "(server_with (connected_slot\<lparr>s_opaque := 0x01000001\<rparr>) [] [R_bytes [65, 66]] [])
    \<lparr>ss_ev := [\<lparr>e_s = Some 1, e_read = True, e_write = False\<rparr>]\<rparr>"
  have x: "ctx_heap demo_node 0 = Some demo_context" "ctx_queue demo_context = 0"
    by (simp_all add: demo_node_def demo_context_def new_context_def)
  have m: "mq_msgs demo_node 0 = Some [demo_message]"
    by (simp add: mq_msgs_def demo_node_def demo_queue_ring)
  have l: "handle_lookup demo_node (ucast (s_opaque (ss_slot ?ss 1))) = Some 0" using demo_lookup by simp
  have h: "ss_pipe ?ss = [] \<or> \<not> ss_checkctrl ?ss" "ss_event_index ?ss < length (ss_ev ?ss)"
      "e_s (ss_ev ?ss ! ss_event_index ?ss) = Some 1" "e_read (ss_ev ?ss ! ss_event_index ?ss)"
      "s_type (ss_slot ?ss 1) = ST_CONNECTED" "s_protocol (ss_slot ?ss 1) = PROTOCOL_TCP" "s_p (ss_slot ?ss 1) = P_size 64" "(64 :: int) < 2 ^ 30"
      "ss_os ?ss = R_bytes [65, 66] # []" "[65, 66 :: u8] \<noteq> []" "int (length [65, 66 :: u8]) \<le> 64"
    by (simp_all add: server_with_def connected_slot_def some_slot_def PROTOCOL_TCP_def)
  obtain s' ss' m1 where "socket_thread_poll demo_world (demo_node, ?ss) = Some (-1, s', ss')"
      "mq_msgs s' = (mq_msgs demo_node)(ctx_queue demo_context \<mapsto> the (mq_msgs demo_node (ctx_queue demo_context)) @ [m1])"
      "msg_data m1 = Some (Socket \<lparr>sm_type = SKYNET_SOCKET_TYPE_DATA, sm_id = s_id (ss_slot ?ss 1), sm_ud = int (length [65, 66 :: u8]),
         sm_buffer = Some [65, 66], sm_padding = []\<rparr>)"
    using socket_data_reaches_owner[OF h demo_ok l x(1), of demo_world] by blast
  then show ?thesis using x(2) m by (intro exI[of _ ?ss] exI[of _ s'] exI[of _ ss'] exI[of _ m1]) (simp add: connected_slot_def)
qed

end
