(* ===== verification/Crypt_Codec.thy ===== *)
theory Crypt_Codec
  imports Bytes Cstring
begin

text \<open>
  The text codecs of \<open>lua-crypt.c\<close>: hexadecimal and base64. A raised Lua error is \<open>Inl\<close>. Texts are shorter than 2 GB,
  so that the \<open>int\<close> indices of the loops do not overflow.
\<close>

datatype crypt_error =
    Invalid_key_size int
  | Invalid_des_length int
  | Invalid_des_text
  | Invalid_hex_size int
  | Invalid_hex_text
  | Invalid_uint64_x
  | Invalid_uint64_y
  | Invalid_uint64_key
  | Invalid_dh_uint64_key
  | Cannot_be_0
  | Invalid_base64

section \<open>Hexadecimal\<close>

definition hex :: "u8 list" where
  "hex = cstr ''0123456789abcdef''"

definition ltohex :: "u8 list \<Rightarrow> u8 list" where
  "ltohex bs = concat (map (\<lambda>b. [hex ! unat (drop_bit 4 b), hex ! unat (b AND 0xf)]) bs)"

definition HEX :: "u8 \<Rightarrow> u8" where
  "HEX c = (if 48 \<le> c \<and> c \<le> 57 then c - 48 else c - 97 + 10)"

text \<open>The byte behind the last of a Lua string is NUL.\<close>

fun fromhex_loop :: "u8 list \<Rightarrow> crypt_error + u8 list" where
  "fromhex_loop [] = Inr []"
| "fromhex_loop [c] =
     (if 16 < HEX c \<or> 16 < HEX 0 then Inl Invalid_hex_text else Inr [push_bit 4 (HEX c) OR HEX 0])"
| "fromhex_loop (c # d # rest) =
     (if 16 < HEX c \<or> 16 < HEX d then Inl Invalid_hex_text
      else andthen (fromhex_loop rest) (\<lambda>bs. Inr ((push_bit 4 (HEX c) OR HEX d) # bs)))"

definition lfromhex :: "u8 list \<Rightarrow> crypt_error + u8 list" where
  "lfromhex s = (if length s AND 2 \<noteq> 0 then Inl (Invalid_hex_size (int (length s))) else fromhex_loop s)"

section \<open>Base64\<close>

definition encoding :: "u8 list" where
  "encoding = cstr ''ABCDEFGHIJKLMNOPQRSTUVWXYZabcdefghijklmnopqrstuvwxyz0123456789+/''"

definition enc :: "u32 \<Rightarrow> u8" where
  "enc v = encoding ! unat v"

fun lb64encode :: "u8 list \<Rightarrow> u8 list" where
  "lb64encode (a # b # c # rest) =
     (let v = push_bit 16 (ucast a) OR push_bit 8 (ucast b) OR ucast c :: u32
      in [enc (drop_bit 18 v), enc (drop_bit 12 v AND 0x3f), enc (drop_bit 6 v AND 0x3f), enc (v AND 0x3f)] @ lb64encode rest)"
| "lb64encode [a] =
     (let v = ucast a :: u32 in [enc (drop_bit 2 v), enc (push_bit 4 (v AND 3)), 61, 61])"
| "lb64encode [a, b] =
     (let v = push_bit 8 (ucast a) OR ucast b :: u32
      in [enc (drop_bit 10 v), enc (drop_bit 4 v AND 0x3f), enc (push_bit 2 (v AND 0xf)), 61])"
| "lb64encode [] = []"

definition decoding :: "int list" where
  "decoding = [62,-1,-1,-1,63,52,53,54,55,56,57,58,59,60,61,-1,-1,-1,-2,-1,-1,-1,0,1,2,3,4,5,6,7,8,9,10,11,12,13,14,15,16,17,18,19,
     20,21,22,23,24,25,-1,-1,-1,-1,-1,-1,26,27,28,29,30,31,32,33,34,35,36,37,38,39,40,41,42,43,44,45,46,47,48,49,50,51]"

definition b64index :: "u8 \<Rightarrow> int" where
  "b64index c = (if c < 43 then -1 else if length decoding \<le> unat (c - 43) then -1 else decoding ! unat (c - 43))"

text \<open>The next \<open>n\<close> numbers, with how many of them stand for the padding, and the text behind them.\<close>

fun quad :: "nat \<Rightarrow> u8 list \<Rightarrow> (int list \<times> nat \<times> u8 list) option" where
  "quad 0 s = Some ([], 0, s)"
| "quad (Suc n) [] = None"
| "quad (Suc n) (t # s) =
     (let c = b64index t in
      if c = -1 then quad (Suc n) s
      else do {
        (cs, padding, rest) \<leftarrow> quad n s;
        Some (c # cs, (if c = -2 then 1 else 0) + padding, rest) })"

lemma quad_shorter: "quad n s = Some (cs, p, rest) \<Longrightarrow> length rest + n \<le> length s"
  by (induction n s arbitrary: cs p rest rule: quad.induct) (fastforce simp: Let_def bind_eq_Some_iff split: if_splits)+

definition u32_of :: "int \<Rightarrow> u32" where
  "u32_of c = word_of_int c"

definition b64_group :: "int list \<Rightarrow> nat \<Rightarrow> crypt_error + u8 list" where
  "b64_group c padding =
     (let c0 = u32_of (c ! 0); c1 = u32_of (c ! 1); c2 = u32_of (c ! 2); c3 = u32_of (c ! 3) in
      if padding = 0 then
        let v = push_bit 18 c0 OR push_bit 12 c1 OR push_bit 6 c2 OR c3
        in Inr [ucast (drop_bit 16 v), ucast (drop_bit 8 v AND 0xff), ucast (v AND 0xff)]
      else if padding = 1 then
        if c ! 3 \<noteq> -2 \<or> c ! 2 AND 3 \<noteq> 0 then Inl Invalid_base64
        else let v = push_bit 10 c0 OR push_bit 4 c1 OR drop_bit 2 c2
             in Inr [ucast (drop_bit 8 v), ucast (v AND 0xff)]
      else if padding = 2 then
        if c ! 3 \<noteq> -2 \<or> c ! 2 \<noteq> -2 \<or> c ! 1 AND 0xf \<noteq> 0 then Inl Invalid_base64
        else let v = push_bit 2 c0 OR drop_bit 4 c1 in Inr [ucast v]
      else Inl Invalid_base64)"

function lb64decode :: "u8 list \<Rightarrow> crypt_error + u8 list" where
  "lb64decode s =
     (if s = [] then Inr []
      else case quad 4 s of
        None \<Rightarrow> Inl Invalid_base64
      | Some (c, padding, rest) \<Rightarrow>
          andthen (b64_group c padding) (\<lambda>out. andthen (lb64decode rest) (\<lambda>bs. Inr (out @ bs))))"
  by pat_completeness auto
termination
  by (relation "measure length") (auto dest!: quad_shorter)

declare lb64decode.simps [simp del]

declare push_bit_and [simp del] drop_bit_and [simp del] push_bit_or [simp del] drop_bit_or [simp del]

section \<open>Hexadecimal round trip\<close>

lemma hex_digit:
  assumes "n < 16"
  shows "HEX (hex ! n) = word_of_nat n"
proof -
  have "\<forall>n \<in> set [0..<16]. HEX (hex ! n) = word_of_nat n" by code_simp
  then show ?thesis using assms by simp
qed

lemma nibble_bounds: "unat (drop_bit 4 b) < 16" "unat (b AND 0xf) < 16" for b :: u8
proof -
  have "unat b < 2 ^ LENGTH(8)" by (rule unsigned_less)
  then have "unat b < 256" by simp
  then show "unat (drop_bit 4 b) < 16" unfolding unat_drop_bit_eq by (simp add: drop_bit_eq_div)
  have "(0xf :: u8) = mask 4" by (simp add: mask_eq_decr_exp)
  then show "unat (b AND 0xf) < 16" by (simp only: unat_and_mask) simp
qed

lemma hex_nibbles: "HEX (hex ! unat (drop_bit 4 b)) = drop_bit 4 b" "HEX (hex ! unat (b AND 0xf)) = b AND 0xf"
  "\<not> 16 < drop_bit 4 b" "\<not> 16 < b AND 0xf" "push_bit 4 (drop_bit 4 b) OR (b AND 0xf) = b" for b :: u8
proof -
  show "HEX (hex ! unat (drop_bit 4 b)) = drop_bit 4 b" "HEX (hex ! unat (b AND 0xf)) = b AND 0xf"
    using hex_digit nibble_bounds[of b] by simp_all
  show "\<not> 16 < drop_bit 4 b" "\<not> 16 < b AND 0xf" using nibble_bounds[of b] by (simp_all add: word_less_nat_alt)
  have m: "(0xf :: u8) = mask 4" by (simp add: mask_eq_decr_exp)
  show "push_bit 4 (drop_bit 4 b) OR (b AND 0xf) = b"
    unfolding m by (rule bit_word_eqI) (auto simp: bit_simps)
qed

lemma fromhex_tohex: "fromhex_loop (ltohex bs) = Inr bs"
  by (induction bs) (simp_all add: ltohex_def hex_nibbles)

lemma length_ltohex: "length (ltohex bs) = 2 * length bs"
  by (induction bs) (simp_all add: ltohex_def)

lemma double_and_2: "(2 * n AND 2 = 0) = even n" for n :: nat
  by (simp add: and_nat_unfold even_iff_mod_2_eq_zero)

text \<open>
  Hexadecimal text is read back as the bytes it was made of when their number is even; when it is odd, reading raises an error, since the
  length of the text is tested against 2 instead of 1.
\<close>

theorem hex_roundtrip:
  "lfromhex (ltohex bs) = (if even (length bs) then Inr bs else Inl (Invalid_hex_size (2 * int (length bs))))"
  by (simp add: lfromhex_def length_ltohex double_and_2 fromhex_tohex)

text \<open>The digit test lets \<open>g\<close> pass as 16, so \<open>0g\<close> reads as the byte 16 and \<open>g0\<close> as 0.\<close>

lemma hex_accepts_g: "lfromhex (map (\<lambda>c. word_of_nat (of_char c)) ''0gg0'') = Inr [16, 0]"
  by code_simp

text \<open>A text of odd length that passes the size test is still refused: its last digit would be followed by the closing NUL.\<close>

lemma fromhex_odd: "odd (length s) \<Longrightarrow> fromhex_loop s = Inl Invalid_hex_text"
proof (induction s rule: fromhex_loop.induct)
  case (2 c)
  have "16 < HEX 0" by code_simp
  then show ?case by simp
qed auto

section \<open>Base64 round trip\<close>

definition alphabet :: "u8 \<Rightarrow> bool" where
  "alphabet c \<longleftrightarrow> b64index c \<noteq> -1"

text \<open>Bytes outside the alphabet are passed over.\<close>

lemma quad_filter: "quad n (filter alphabet s) = map_option (\<lambda>(cs, p, rest). (cs, p, filter alphabet rest)) (quad n s)"
proof (induction n s rule: quad.induct)
  case (3 n t s)
  then show ?case
    by (cases "b64index t = -1"; cases "quad n s") (auto simp: Let_def alphabet_def)
qed auto

text \<open>What is left behind a group is the end of the text, and a group ends on a byte of the alphabet.\<close>

lemma quad_suffix:
  "quad n s = Some (cs, p, rest) \<Longrightarrow> 0 < n \<Longrightarrow> \<exists>pre c. s = pre @ c # rest \<and> alphabet c"
proof (induction n s arbitrary: cs p rest rule: quad.induct)
  case (3 n t s)
  show ?case
  proof (cases "b64index t = -1")
    case True
    then have "\<exists>pre c. s = pre @ c # rest \<and> alphabet c" using 3(1)[OF refl] 3(3) by (simp add: Let_def)
    then show ?thesis by (metis append_Cons)
  next
    case False
    then obtain cs' p' where q: "quad n s = Some (cs', p', rest)"
      using 3 by (auto simp: Let_def bind_eq_Some_iff)
    show ?thesis
    proof (cases n)
      case 0
      then show ?thesis using q False by (auto simp: alphabet_def intro!: exI[of _ "[]"])
    next
      case (Suc m)
      then have "\<exists>pre c. s = pre @ c # rest \<and> alphabet c" using 3(2)[OF refl False] q by simp
      then show ?thesis by (metis append_Cons)
    qed
  qed
qed auto

lemma b64_group_error: "b64_group c p = Inl e \<Longrightarrow> e = Invalid_base64"
  by (auto simp: b64_group_def Let_def split: if_splits)

lemma decode_filter: "s = [] \<or> alphabet (last s) \<Longrightarrow> lb64decode (filter alphabet s) = lb64decode s"
proof (induction s rule: lb64decode.induct)
  case (1 s)
  show ?case
  proof (cases "s = []")
    case False
    then have ne: "filter alphabet s \<noteq> []" using 1 by (auto simp: filter_empty_conv)
    show ?thesis
    proof (cases "quad 4 s")
      case None
      then show ?thesis using False ne by (simp add: lb64decode.simps[of s] lb64decode.simps[of "filter alphabet s"] quad_filter)
    next
      case (Some t)
      obtain c p rest where t: "t = (c, p, rest)" by (cases t)
      then obtain pre d where "s = pre @ d # rest" using Some quad_suffix by fastforce
      then have "rest = [] \<or> alphabet (last rest)" using 1(2) False by (auto split: if_splits)
      then have "b64_group c p = Inr out \<Longrightarrow> lb64decode (filter alphabet rest) = lb64decode rest" for out
        using 1 False Some t by simp
      then show ?thesis using Some t False ne
        by (cases "b64_group c p")
          (simp_all add: lb64decode.simps[of s] lb64decode.simps[of "filter alphabet s"] quad_filter)
    qed
  qed simp
qed

lemma decode_trailing: "s \<noteq> [] \<Longrightarrow> \<not> alphabet (last s) \<Longrightarrow> lb64decode s = Inl Invalid_base64"
proof (induction s rule: lb64decode.induct)
  case (1 s)
  show ?case
  proof (cases "quad 4 s")
    case (Some t)
    obtain c p rest where t: "t = (c, p, rest)" by (cases t)
    then obtain pre d where d: "s = pre @ d # rest" "alphabet d" using Some quad_suffix by fastforce
    then have "rest \<noteq> []" "\<not> alphabet (last rest)" using 1(3) by (auto split: if_splits)
    then have "b64_group c p = Inr out \<Longrightarrow> lb64decode rest = Inl Invalid_base64" for out using 1 Some t by simp
    then show ?thesis using Some t 1
      by (cases "b64_group c p") (auto simp: lb64decode.simps[of s] dest: b64_group_error)
  qed (use 1 in \<open>simp add: lb64decode.simps[of s]\<close>)
qed

lemma enc_index:
  assumes "v < 64"
  shows "b64index (enc v) = uint v"
proof -
  have "\<forall>n \<in> set [0..<64]. b64index (encoding ! n) = int n" by code_simp
  moreover have "unat v < 64" using assms by (simp add: word_less_nat_alt)
  ultimately show "b64index (enc v) = uint v" by (simp add: enc_def)
qed

lemma index_pad: "b64index 61 = -2" by code_simp

lemma masks: "(0x3f :: u32) = mask 6" "(0xff :: u32) = mask 8" "(3 :: u32) = mask 2" "(0xf :: u32) = mask 4"
  by (simp_all add: mask_eq_decr_exp)

text \<open>A field of a word, moved down, masked and moved back.\<close>

lemma bit_field:
  "bit (push_bit k (drop_bit k v)) n \<longleftrightarrow> k \<le> n \<and> bit v n"
  "bit (push_bit k (drop_bit k v AND mask m)) n \<longleftrightarrow> k \<le> n \<and> n < k + m \<and> bit v n"
  "bit (drop_bit k (push_bit k (v AND mask m))) n \<longleftrightarrow> n + k < LENGTH('a) \<and> n < m \<and> bit v n"
  for v :: "'a::len word"
  using bit_imp_le_length[of v n] by (auto simp: bit_simps add.commute[of n k] less_diff_conv2)

lemma below_64: "w AND 0x3f < 64" "drop_bit 2 (ucast a) < (64 :: u32)" "push_bit 4 (ucast a AND 3) < (64 :: u32)"
  "drop_bit 10 (push_bit 8 (ucast a) OR ucast b) < (64 :: u32)" "push_bit 2 (w AND 0xf) < 64"
  "drop_bit 18 (push_bit 16 (ucast a) OR push_bit 8 (ucast b) OR ucast c) < (64 :: u32)"
  for w :: u32 and a b c :: u8
proof -
  have six: "take_bit 6 x = x \<Longrightarrow> x < 64" for x :: u32
    using unat_take_bit_mod[of 6 x] by (simp add: word_less_nat_alt mod_eq_self_iff_div_eq_0 div_eq_0_iff)
  show "w AND 0x3f < 64" "drop_bit 2 (ucast a) < (64 :: u32)" "push_bit 4 (ucast a AND 3) < (64 :: u32)"
    "drop_bit 10 (push_bit 8 (ucast a) OR ucast b) < (64 :: u32)" "push_bit 2 (w AND 0xf) < 64"
    "drop_bit 18 (push_bit 16 (ucast a) OR push_bit 8 (ucast b) OR ucast c) < (64 :: u32)"
    unfolding masks by (rule six, rule bit_word_eqI, use bit_u8[of a] bit_u8[of b] bit_u8[of c] in \<open>fastforce simp: bit_simps\<close>)+
qed

lemma u32_of_uint [simp]: "u32_of (uint w) = w"
  by (simp add: u32_of_def)

lemma group_full:
  fixes a b c :: u8
  defines "v \<equiv> push_bit 16 (ucast a) OR push_bit 8 (ucast b) OR ucast c :: u32"
  shows "b64_group [uint (drop_bit 18 v), uint (drop_bit 12 v AND 0x3f), uint (drop_bit 6 v AND 0x3f), uint (v AND 0x3f)] 0 = Inr [a, b, c]"
proof -
  have j: "push_bit 18 (drop_bit 18 v) OR push_bit 12 (drop_bit 12 v AND 0x3f) OR push_bit 6 (drop_bit 6 v AND 0x3f) OR (v AND 0x3f) = v"
    unfolding masks by (rule bit_word_eqI) (auto simp: bit_or_iff bit_and_iff bit_mask_iff bit_field dest: bit_u8)
  have "ucast (drop_bit 16 v) = a" "ucast (drop_bit 8 v AND 0xff) = b" "ucast (v AND 0xff) = c"
    unfolding v_def masks by (rule bit_word_eqI, auto simp: bit_simps dest: bit_u8)+
  then show ?thesis by (simp add: b64_group_def j Let_def)
qed

lemma group_pad1:
  fixes a b :: u8
  defines "v \<equiv> push_bit 8 (ucast a) OR ucast b :: u32"
  shows "b64_group [uint (drop_bit 10 v), uint (drop_bit 4 v AND 0x3f), uint (push_bit 2 (v AND 0xf)), -2] 1 = Inr [a, b]"
proof -
  have j: "push_bit 10 (drop_bit 10 v) OR push_bit 4 (drop_bit 4 v AND 0x3f) OR drop_bit 2 (push_bit 2 (v AND 0xf)) = v"
    unfolding masks by (rule bit_word_eqI) (auto simp: bit_or_iff bit_and_iff bit_mask_iff bit_field dest: bit_u8)
  have "push_bit 2 (v AND 0xf) AND 3 = 0" unfolding masks by (rule bit_word_eqI) (auto simp: bit_simps)
  then have z: "uint (push_bit 2 (v AND 0xf)) AND 3 = 0" using uint_and[of "push_bit 2 (v AND 0xf)" 3] by simp
  have "ucast (drop_bit 8 v) = a" "ucast (v AND 0xff) = b"
    unfolding v_def masks by (rule bit_word_eqI, auto simp: bit_simps dest: bit_u8)+
  then show ?thesis by (simp add: b64_group_def j z Let_def)
qed

lemma group_pad2: "b64_group [uint (drop_bit 2 (ucast a :: u32)), uint (push_bit 4 (ucast a AND 3 :: u32)), -2, -2] (Suc (Suc 0)) = Inr [a]"
  for a :: u8
proof -
  have j: "push_bit 2 (drop_bit 2 (ucast a :: u32)) OR drop_bit 4 (push_bit 4 (ucast a AND 3)) = ucast a"
    unfolding masks by (rule bit_word_eqI) (auto simp: bit_or_iff bit_and_iff bit_mask_iff bit_field bit_ucast_iff dest: bit_u8)
  have "push_bit 4 (ucast a AND 3 :: u32) AND 0xf = 0" unfolding masks by (rule bit_word_eqI) (auto simp: bit_simps)
  then have z: "uint (push_bit 4 (ucast a AND 3 :: u32)) AND 0xf = 0" using uint_and[of "push_bit 4 (ucast a AND 3 :: u32)" "0xf"] by simp
  have "ucast (ucast a :: u32) = a" by (rule bit_word_eqI) (auto simp: bit_simps)
  then show ?thesis by (simp add: b64_group_def j z Let_def)
qed

lemma index_below: "uint (v :: u32) \<noteq> -1" "uint (v :: u32) \<noteq> -2"
proof -
  have "0 \<le> uint v" by simp
  then show "uint v \<noteq> -1" "uint v \<noteq> -2" by linarith+
qed

lemma quad_four:
  assumes "\<forall>c \<in> {c0, c1, c2, c3}. b64index c \<noteq> -1"
  shows "quad 4 (c0 # c1 # c2 # c3 # rest) = Some ([b64index c0, b64index c1, b64index c2, b64index c3],
    length (filter (\<lambda>c. b64index c = -2) [c0, c1, c2, c3]), rest)"
  using assms by (simp add: eval_nat_numeral Let_def)

lemma b64_clean: "lb64decode (lb64encode bs) = Inr bs"
proof (induction bs rule: lb64encode.induct)
  case (1 a b c rest)
  then show ?case
    by (simp add: Let_def lb64decode.simps[of "_ # _"] quad_four index_below below_64 enc_index group_full)
next
  case (2 a)
  then show ?case
    by (simp add: Let_def lb64decode.simps[of "_ # _"] quad_four index_below below_64 enc_index index_pad group_pad2 lb64decode.simps[of "[]"])
next
  case (3 a b)
  then show ?case
    by (simp add: Let_def lb64decode.simps[of "_ # _"] quad_four index_below below_64 enc_index index_pad group_pad1[simplified] lb64decode.simps[of "[]"])
qed (simp add: lb64decode.simps)

lemma lb64encode_alphabet: "\<forall>c \<in> set (lb64encode bs). alphabet c"
  by (induction bs rule: lb64encode.induct) (simp_all add: Let_def alphabet_def enc_index index_below below_64 index_pad)

text \<open>
  Base64 text is read back as the bytes it was made of, also when bytes that do not belong to base64 (spaces, line ends) stand between its
  characters; but when such a byte is the last of the text, reading raises an error.
\<close>

theorem base64_roundtrip:
  assumes "filter alphabet s = lb64encode bs"
  shows "lb64decode s = (if s = [] \<or> alphabet (last s) then Inr bs else Inl Invalid_base64)"
  using assms decode_filter[of s] decode_trailing[of s] b64_clean[of bs] by auto

theorem base64_roundtrip_witness:
  "lb64decode [65, 71, 10, 69, 61] = Inr [0, 97] \<and> lb64decode [65, 71, 69, 61, 10] = Inl Invalid_base64"
proof -
  have "filter alphabet [65, 71, 10, 69, 61] = lb64encode [0, 97]"
    "filter alphabet [65, 71, 69, 61, 10] = lb64encode [0, 97]" by code_simp+
  moreover have "alphabet 61" "\<not> alphabet 10" by code_simp+
  ultimately show ?thesis using base64_roundtrip[of _ "[0, 97]"] by simp
qed

end
