(* ===== verification/Crypt_Hash.thy ===== *)
theory Crypt_Hash
  imports Crypt_Codec
begin

text \<open>
  The keys, hashes and keyed digests of \<open>lua-crypt.c\<close>: 64-bit values travel as strings of eight bytes, the low byte first. The values of
  \<open>random\<close> are a parameter.
\<close>

section \<open>Strings of eight bytes\<close>

text \<open>\<open>x[0] | x[1]<<8 | x[2]<<16 | x[3]<<24\<close> and the same for the upper four bytes.\<close>

definition dwords :: "u8 list \<Rightarrow> u32 \<times> u32" where
  "dwords x = (le_word (take 4 x), le_word (drop 4 x))"

definition read64 :: "u8 list \<Rightarrow> u8 list \<Rightarrow> crypt_error + (u32 \<times> u32) \<times> u32 \<times> u32" where
  "read64 x y =
     (if length x \<noteq> 8 then Inl Invalid_uint64_x
      else if length y \<noteq> 8 then Inl Invalid_uint64_y
      else Inr (dwords x, dwords y))"

definition pushqword :: "u32 \<times> u32 \<Rightarrow> u8 list" where
  "pushqword result = le_bytes 4 (fst result) @ le_bytes 4 (snd result)"

section \<open>Hashes\<close>

definition hash_step :: "u8 \<Rightarrow> u32 \<times> u32 \<Rightarrow> u32 \<times> u32" where
  "hash_step c h =
     (let (djb_hash, js_hash) = h
      in (djb_hash + (push_bit 5 djb_hash + ucast c), js_hash XOR (push_bit 5 js_hash + ucast c + drop_bit 2 js_hash)))"

definition Hash :: "u8 list \<Rightarrow> u8 list" where
  "Hash str = (let (djb_hash, js_hash) = fold hash_step str (5381, 1315423911) in le_bytes 4 djb_hash @ le_bytes 4 js_hash)"

definition lhashkey :: "u8 list \<Rightarrow> u8 list" where
  "lhashkey key = Hash key"

section \<open>The keyed digest\<close>

definition k_tab :: "u32 list" where
  "k_tab = [0xd76aa478, 0xe8c7b756, 0x242070db, 0xc1bdceee, 0xf57c0faf, 0x4787c62a, 0xa8304613, 0xfd469501,
    0x698098d8, 0x8b44f7af, 0xffff5bb1, 0x895cd7be, 0x6b901122, 0xfd987193, 0xa679438e, 0x49b40821,
    0xf61e2562, 0xc040b340, 0x265e5a51, 0xe9b6c7aa, 0xd62f105d, 0x02441453, 0xd8a1e681, 0xe7d3fbc8,
    0x21e1cde6, 0xc33707d6, 0xf4d50d87, 0x455a14ed, 0xa9e3e905, 0xfcefa3f8, 0x676f02d9, 0x8d2a4c8a,
    0xfffa3942, 0x8771f681, 0x6d9d6122, 0xfde5380c, 0xa4beea44, 0x4bdecfa9, 0xf6bb4b60, 0xbebfbc70,
    0x289b7ec6, 0xeaa127fa, 0xd4ef3085, 0x04881d05, 0xd9d4d039, 0xe6db99e5, 0x1fa27cf8, 0xc4ac5665,
    0xf4292244, 0x432aff97, 0xab9423a7, 0xfc93a039, 0x655b59c3, 0x8f0ccc92, 0xffeff47d, 0x85845dd1,
    0x6fa87e4f, 0xfe2ce6e0, 0xa3014314, 0x4e0811a1, 0xf7537e82, 0xbd3af235, 0x2ad7d2bb, 0xeb86d391]"

definition r_tab :: "nat list" where
  "r_tab = [7, 12, 17, 22, 7, 12, 17, 22, 7, 12, 17, 22, 7, 12, 17, 22,
    5, 9, 14, 20, 5, 9, 14, 20, 5, 9, 14, 20, 5, 9, 14, 20,
    4, 11, 16, 23, 4, 11, 16, 23, 4, 11, 16, 23, 4, 11, 16, 23,
    6, 10, 15, 21, 6, 10, 15, 21, 6, 10, 15, 21, 6, 10, 15, 21]"

definition LEFTROTATE :: "u32 \<Rightarrow> nat \<Rightarrow> u32" where
  "LEFTROTATE x c = push_bit c x OR drop_bit (32 - c) x"

definition hmac_step :: "u32 list \<Rightarrow> nat \<Rightarrow> u32 \<times> u32 \<times> u32 \<times> u32 \<Rightarrow> u32 \<times> u32 \<times> u32 \<times> u32" where
  "hmac_step w i q =
     (let (a, b, c, d) = q;
          (f, g) = (if i < 16 then ((b AND c) OR (NOT b AND d), i)
                    else if i < 32 then ((d AND b) OR (NOT d AND c), (5 * i + 1) mod 16)
                    else if i < 48 then (b XOR c XOR d, (3 * i + 5) mod 16)
                    else (c XOR (b OR NOT d), (7 * i) mod 16))
      in (d, b + LEFTROTATE (a + f + k_tab ! i + w ! g) (r_tab ! i), b, c))"

definition hmac :: "u32 \<times> u32 \<Rightarrow> u32 \<times> u32 \<Rightarrow> u32 \<times> u32" where
  "hmac x y =
     (let w = concat (replicate 4 [snd x, fst x, snd y, fst y]);
          (a, b, c, d) = fold (hmac_step w) [0..<64] (0x67452301, 0xefcdab89, 0x98badcfe, 0x10325476)
      in (c XOR d, a XOR b))"

definition lhmac64 :: "u8 list \<Rightarrow> u8 list \<Rightarrow> crypt_error + u8 list" where
  "lhmac64 x y = andthen (read64 x y) (\<lambda>(xx, yy). Inr (pushqword (hmac xx yy)))"

definition lhmac_hash :: "u8 list \<Rightarrow> u8 list \<Rightarrow> crypt_error + u8 list" where
  "lhmac_hash x txt =
     (if length x \<noteq> 8 then Inl Invalid_uint64_key else Inr (pushqword (hmac (dwords (Hash txt)) (dwords x))))"

section \<open>Random keys\<close>

text \<open>\<open>random i\<close> is the value of the \<open>i\<close>-th call.\<close>

definition lrandomkey :: "(nat \<Rightarrow> u64) \<Rightarrow> u8 list" where
  "lrandomkey random =
     (let tmp = map (\<lambda>i. ucast (random i AND 0xff)) [0..<8]; x = fold (\<lambda>b x. x XOR b) tmp 0
      in if x = 0 then tmp[0 := tmp ! 0 OR 1] else tmp)"

section \<open>Lemmas\<close>

lemma length_Hash [simp]: "length (Hash s) = 8"
  by (simp add: Hash_def split: prod.split)

lemma length_lrandomkey [simp]: "length (lrandomkey r) = 8"
  by (simp add: lrandomkey_def Let_def)

text \<open>The digest of a text under a key is the digest of its hash key.\<close>

lemma hmac_hash_is_hmac64: "length key = 8 \<Longrightarrow> lhmac_hash key txt = lhmac64 (lhashkey txt) key"
  by (simp add: lhmac_hash_def lhmac64_def lhashkey_def read64_def)

lemma fold_xor_zero: "\<forall>b \<in> set bs. b = 0 \<Longrightarrow> fold (\<lambda>b x. x XOR b) bs x = (x :: u8)"
  by (induction bs arbitrary: x) simp_all

text \<open>A random key is never all zero.\<close>

lemma lrandomkey_nonzero: "\<exists>b \<in> set (lrandomkey r). b \<noteq> 0"
proof (cases "fold (\<lambda>b x. x XOR b) (map (\<lambda>i. ucast (r i AND 0xff)) [0..<8]) (0 :: u8) = 0")
  case True
  have "bit ((ucast (r 0 AND 0xff) :: u8) OR 1) 0" by (simp add: bit_simps)
  then have "(ucast (r 0 AND 0xff) :: u8) OR 1 \<noteq> 0" by (metis bit_0_eq bot_apply bot_bool_def)
  moreover have "(ucast (r 0 AND 0xff) :: u8) OR 1 \<in> set (lrandomkey r)"
    using True by (simp add: lrandomkey_def Let_def upt_conv_Cons)
  ultimately show ?thesis by blast
next
  case False
  then show ?thesis using fold_xor_zero[of "map (\<lambda>i. ucast (r i AND 0xff)) [0..<8]" 0] by (auto simp: lrandomkey_def Let_def)
qed

end
