(* ===== verification/Crypt_Dh.thy ===== *)
theory Crypt_Dh
  imports Crypt_Hash
begin

text \<open>
  The key exchange of \<open>lua-crypt.c\<close>: powers modulo the prime \<open>P64\<close>, computed with 64-bit words only. \<open>None\<close> is a call that does not return.
\<close>

section \<open>Operations\<close>

definition P64 :: u64 where
  "P64 = 0xffffffffffffffc5"

lemma unat_half: "unat (drop_bit 1 b) = unat b div 2" for b :: u64
  unfolding unat_drop_bit_eq by (simp add: drop_bit_eq_div)

function mul_loop :: "u64 \<Rightarrow> u64 \<Rightarrow> u64 \<Rightarrow> u64" where
  "mul_loop m a b =
     (if b = 0 then m
      else mul_loop
        (if b AND 1 \<noteq> 0 then let t = P64 - a in if t \<le> m then m - t else m + a else m)
        (if P64 - a \<le> a then a * 2 - P64 else a * 2)
        (drop_bit 1 b))"
  by pat_completeness auto
termination
proof (relation "measure (\<lambda>(m, a, b). unat b)")
  fix a b m :: u64
  assume "b \<noteq> 0"
  then have "0 < unat b" by (simp add: unat_gt_0)
  then have "unat (drop_bit 1 b) < unat b" unfolding unat_half by simp
  then show "((if b AND 1 \<noteq> 0 then let t = P64 - a in if t \<le> m then m - t else m + a else m,
    if P64 - a \<le> a then a * 2 - P64 else a * 2, drop_bit 1 b), m, a, b) \<in> measure (\<lambda>(m, a, b). unat b)" by simp
qed simp

declare mul_loop.simps [simp del]

definition mul_mod_p :: "u64 \<Rightarrow> u64 \<Rightarrow> u64" where
  "mul_mod_p a b = mul_loop 0 a b"

partial_function (option) pow_mod_p :: "u64 \<Rightarrow> u64 \<Rightarrow> u64 option" where
  "pow_mod_p a b =
     (if b = 1 then Some a
      else do {
        t \<leftarrow> pow_mod_p a (drop_bit 1 b);
        let t = mul_mod_p t t in Some (if b mod 2 \<noteq> 0 then mul_mod_p t a else t) })"

definition powmodp :: "u64 \<Rightarrow> u64 \<Rightarrow> u64 option" where
  "powmodp a b = pow_mod_p (if P64 < a then a mod P64 else a) b"

definition push64 :: "u64 \<Rightarrow> u8 list" where
  "push64 r = le_bytes 8 r"

definition uint64 :: "u32 \<times> u32 \<Rightarrow> u64" where
  "uint64 x = ucast (fst x) OR push_bit 32 (ucast (snd x))"

definition ldhsecret :: "u8 list \<Rightarrow> u8 list \<Rightarrow> (crypt_error + u8 list) option" where
  "ldhsecret x y =
     (case read64 x y of
        Inl e \<Rightarrow> Some (Inl e)
      | Inr (xs, ys) \<Rightarrow>
          if uint64 xs = 0 \<or> uint64 ys = 0 then Some (Inl Cannot_be_0)
          else map_option (Inr \<circ> push64) (powmodp (uint64 xs) (uint64 ys)))"

definition ldhexchange :: "u8 list \<Rightarrow> (crypt_error + u8 list) option" where
  "ldhexchange x =
     (if length x \<noteq> 8 then Some (Inl Invalid_dh_uint64_key)
      else if uint64 (dwords x) = 0 then Some (Inl Cannot_be_0)
      else map_option (Inr \<circ> push64) (powmodp 5 (uint64 (dwords x))))"

section \<open>Products modulo the prime\<close>

abbreviation p64 :: nat where
  "p64 \<equiv> unat P64"

lemma p64_value: "p64 = 18446744073709551557"
  by (simp add: P64_def)

lemma unat_u64: "unat w < 18446744073709551616" for w :: u64
proof -
  have "unat w < 2 ^ LENGTH(64)" by (rule unsigned_less)
  then show ?thesis by simp
qed

text \<open>One addition modulo the prime, without leaving 64 bits.\<close>

lemma add_step:
  assumes "a \<le> P64" "m < P64"
  defines "n \<equiv> if P64 - a \<le> m then m - (P64 - a) else m + a"
  shows "unat n = (unat m + unat a) mod p64" "n < P64"
proof -
  have a: "unat a \<le> p64" and m: "unat m < p64" using assms by (simp_all add: word_le_nat_alt word_less_nat_alt)
  have t: "unat (P64 - a) = p64 - unat a" using assms(1) by (rule unat_sub)
  show n: "unat n = (unat m + unat a) mod p64"
  proof (cases "P64 - a \<le> m")
    case True
    then have "unat n = unat m - (p64 - unat a)" using t by (simp add: n_def unat_sub)
    moreover have "p64 - unat a \<le> unat m" using True t by (simp add: word_le_nat_alt)
    ultimately have "unat n + p64 = unat m + unat a" "unat n < p64" using a m by linarith+
    then show ?thesis by (metis mod_add_self2 mod_less)
  next
    case False
    then have l: "unat m + unat a < p64" using t a by (simp add: word_le_nat_alt)
    then have "unat (m + a) = unat m + unat a" using p64_value by (simp add: unat_word_ariths)
    then show ?thesis using False l by (simp add: n_def)
  qed
  show "n < P64" using n p64_value by (simp add: word_less_nat_alt)
qed

lemma double_step:
  assumes "a \<le> P64"
  defines "n \<equiv> if P64 - a \<le> a then a * 2 - P64 else a * 2"
  shows "unat n mod p64 = 2 * unat a mod p64" "n \<le> P64"
proof -
  have a: "unat a \<le> p64" using assms by (simp add: word_le_nat_alt)
  have t: "unat (P64 - a) = p64 - unat a" using assms(1) by (rule unat_sub)
  have "unat n mod p64 = 2 * unat a mod p64 \<and> unat n \<le> p64"
  proof (cases "P64 - a \<le> a")
    case True
    have "n = a - (P64 - a)" using True by (simp add: n_def)
    then have "unat n = unat a - (p64 - unat a)" using unat_sub[OF True] t by simp
    moreover have "p64 - unat a \<le> unat a" using True t by (simp add: word_le_nat_alt)
    ultimately have "unat n + p64 = 2 * unat a" "unat n \<le> p64" using a by linarith+
    then show ?thesis by (metis mod_add_self2)
  next
    case False
    then have "2 * unat a < p64" using t a by (simp add: word_le_nat_alt)
    then show ?thesis using False p64_value by (simp add: n_def unat_word_ariths)
  qed
  then show "unat n mod p64 = 2 * unat a mod p64" "n \<le> P64" by (simp_all add: word_le_nat_alt)
qed

lemma mod_arith:
  assumes "m' mod p = (m + e * a) mod p" "a' mod p = 2 * a mod p"
  shows "(m' + a' * h) mod p = (m + a * (2 * h + e)) mod (p :: nat)"
proof -
  have key: "(x + y * h) mod p = (x mod p + (y mod p) * h) mod p" for x y
    using mod_add_eq[of x p "y * h"] mod_add_eq[of "x mod p" p "y mod p * h"] mod_mult_left_eq[of y p h] by simp
  have "(m' + a' * h) mod p = (m + e * a + 2 * a * h) mod p"
    unfolding key[of m' a'] assms key[of "m + e * a" "2 * a"] by (rule refl)
  then show ?thesis by (simp add: algebra_simps)
qed

lemma mul_loop_mod:
  "a \<le> P64 \<Longrightarrow> m < P64 \<Longrightarrow> unat (mul_loop m a b) = (unat m + unat a * unat b) mod p64"
proof (induction m a b rule: mul_loop.induct)
  case (1 m a b)
  show ?case
  proof (cases "b = 0")
    case True
    then have "mul_loop m a b = m" by (subst mul_loop.simps) simp
    then show ?thesis using True 1(3) by (simp add: word_less_nat_alt)
  next
    case False
    define m' where "m' = (if b AND 1 \<noteq> 0 then let t = P64 - a in if t \<le> m then m - t else m + a else m)"
    define a' where "a' = (if P64 - a \<le> a then a * 2 - P64 else a * 2)"
    define e where "e = unat b mod 2"
    have e: "(b AND 1 \<noteq> 0) = (e = 1)" by (simp add: e_def and_one_eq word_eq_iff_unsigned[where 'a = nat] unat_mod)
    have m': "unat m' = (unat m + e * unat a) mod p64" "m' < P64"
      using add_step[OF 1(2,3)] 1(3) e by (auto simp: m'_def Let_def e_def word_less_nat_alt)
    have a': "unat a' mod p64 = 2 * unat a mod p64" "a' \<le> P64" using double_step[OF 1(2)] by (simp_all add: a'_def)
    have "unat (mul_loop m a b) = unat (mul_loop m' a' (drop_bit 1 b))"
      using False by (simp add: mul_loop.simps[of m a b] m'_def a'_def)
    also have "\<dots> = (unat m' + unat a' * (unat b div 2)) mod p64"
      using 1(1)[OF False] m'(2) a'(2) by (simp add: m'_def a'_def unat_half[simplified])
    also have "\<dots> = (unat m + unat a * (2 * (unat b div 2) + e)) mod p64"
      by (rule mod_arith) (simp_all add: m' a')
    finally show ?thesis by (simp add: e_def)
  qed
qed

lemma mul_mod_p_exact: "a \<le> P64 \<Longrightarrow> unat (mul_mod_p a b) = unat a * unat b mod p64"
  using mul_loop_mod[of a 0 b] by (simp add: mul_mod_p_def P64_def)

section \<open>Powers modulo the prime\<close>

lemma power_halves: "(a :: nat) ^ b = (a ^ (b div 2)) * (a ^ (b div 2)) * a ^ (b mod 2)"
  by (metis div_mult_mod_eq mult_2_right power_add)

lemma pow_mod_p_power:
  assumes "a \<le> P64" "0 < unat b"
  shows "\<exists>r. pow_mod_p a b = Some r \<and> r \<le> P64 \<and> unat r mod p64 = unat a ^ unat b mod p64 \<and> (b \<noteq> 1 \<longrightarrow> r < P64)"
  using assms(2)
proof (induction "unat b" arbitrary: b rule: less_induct)
  case less
  show ?case
  proof (cases "b = 1")
    case True
    then show ?thesis using assms(1) by (simp add: pow_mod_p.simps)
  next
    case False
    then have b: "1 < unat b" using less(2) by (metis Suc_lessI unat_1 word_unat_eq_iff One_nat_def)
    then have h: "unat (drop_bit 1 b) < unat b" "0 < unat (drop_bit 1 b)" unfolding unat_half by simp_all
    from less(1)[OF h] obtain t where t: "pow_mod_p a (drop_bit 1 b) = Some t" "t \<le> P64"
      "unat t mod p64 = unat a ^ (unat b div 2) mod p64" unfolding unat_half by blast
    define q where "q = mul_mod_p t t"
    have q: "unat q = unat t * unat t mod p64" "q < P64"
      using mul_mod_p_exact[OF t(2), of t] p64_value by (simp_all add: q_def word_less_nat_alt)
    define r where "r = (if b mod 2 \<noteq> 0 then mul_mod_p q a else q)"
    have e: "(b mod 2 \<noteq> 0) = (unat b mod 2 = 1)"
      by (simp add: word_eq_iff_unsigned[where 'a = nat] unat_mod)
    have r: "unat r = unat q * unat a ^ (unat b mod 2) mod p64"
      using mul_mod_p_exact[of q a] q e by (cases "unat b mod 2 = 1") (auto simp: r_def)
    have "pow_mod_p a b = Some r"
      using False t(1) by (simp add: pow_mod_p.simps[of a b] Let_def r_def q_def)
    moreover have "unat r = unat a ^ unat b mod p64"
    proof -
      have "unat t * unat t mod p64 = unat a ^ (unat b div 2) * unat a ^ (unat b div 2) mod p64"
        by (rule mod_mult_cong) (rule t(3))+
      then show ?thesis unfolding r q power_halves[of "unat a" "unat b"] by (simp only: mod_mult_left_eq)
    qed
    moreover from this have "r < P64" using p64_value by (simp add: word_less_nat_alt)
    ultimately show ?thesis by simp
  qed
qed

text \<open>
  For an exponent other than 0, the power modulo the prime is computed and returned, for every base of 64 bits: the one exception is the
  prime itself to the power 1, which is returned as it is instead of 0.
\<close>

lemma powmodp_exact:
  assumes "b \<noteq> 0"
  shows "powmodp a b = Some (if a = P64 \<and> b = 1 then P64 else word_of_nat (unat a ^ unat b mod unat P64))"
proof -
  define c where "c = (if P64 < a then a mod P64 else a)"
  have c: "c \<le> P64" "unat c mod p64 = unat a mod p64" "a \<noteq> P64 \<longrightarrow> c < P64" "a = P64 \<longrightarrow> c = P64"
    using p64_value word_unat_eq_iff[of a P64] by (auto simp: c_def word_le_nat_alt word_less_nat_alt unat_mod)
  have "0 < unat b" using assms by (simp add: unat_gt_0)
  from pow_mod_p_power[OF c(1) this] obtain r where
    r: "pow_mod_p c b = Some r" "r \<le> P64" "unat r mod p64 = unat c ^ unat b mod p64" "b \<noteq> 1 \<longrightarrow> r < P64" by blast
  show ?thesis
  proof (cases "a = P64 \<and> b = 1")
    case True
    then show ?thesis using c by (simp add: powmodp_def pow_mod_p.simps)
  next
    case False
    then have "r < P64" using r c by (cases "b = 1") (auto simp: pow_mod_p.simps)
    then have "unat r = unat c ^ unat b mod p64" using r(3) by (simp add: word_less_nat_alt)
    also have "\<dots> = unat a ^ unat b mod p64" using c(2) by (metis power_mod)
    finally have "word_of_nat (unat r) = (word_of_nat (unat a ^ unat b mod p64) :: u64)" by (rule arg_cong)
    then have "r = word_of_nat (unat a ^ unat b mod p64)" by simp
    then show ?thesis using r(1) False by (auto simp: powmodp_def c_def)
  qed
qed

section \<open>Values of eight bytes\<close>

lemma bit_uint64:
  assumes "length x = 8"
  shows "bit (uint64 (dwords x)) i \<longleftrightarrow> i < 64 \<and> bit (x ! (i div 8)) (i mod 8)"
proof (cases "i < 32")
  case True
  then have "i div 8 < 4" by simp
  then show ?thesis using True assms by (simp add: uint64_def dwords_def bit_simps bit_le_word)
next
  case False
  then obtain j where "i = j + 32" by (metis add.commute le_Suc_ex not_less)
  moreover have "(j + 32) div 8 = 4 + j div 8" "(j + 32) mod 8 = j mod 8" by presburger+
  ultimately show ?thesis using assms by (auto simp: uint64_def dwords_def bit_simps bit_le_word)
qed

lemma push64_uint64: "length x = 8 \<Longrightarrow> push64 (uint64 (dwords x)) = x"
  by (rule nth_equalityI) (auto simp: push64_def nth_le_bytes bit_simps bit_uint64 intro!: bit_word_eqI)

lemma uint64_push64: "uint64 (dwords (push64 r)) = r"
  by (rule bit_word_eqI) (auto simp: push64_def bit_uint64 nth_le_bytes bit_simps)

lemma le_bytes_0: "le_bytes n 0 = replicate n 0"
  by (induction n) simp_all

lemma uint64_nonzero: "length x = 8 \<Longrightarrow> \<exists>b \<in> set x. b \<noteq> 0 \<Longrightarrow> uint64 (dwords x) \<noteq> 0"
  using push64_uint64[of x] by (auto simp: push64_def le_bytes_0)

section \<open>The exchange\<close>

lemma coprime_5_p: "coprime 5 p64"
  unfolding p64_value coprime_iff_gcd_eq_1 by (simp add: gcd.commute[of 5] gcd_red_nat[of 18446744073709551557 5] gcd_red_nat[of 5 2])

lemma exchange_value:
  assumes "length x = 8" "\<exists>b \<in> set x. b \<noteq> 0"
  shows "\<exists>A. ldhexchange x = Some (Inr (push64 A)) \<and> unat A = 5 ^ unat (uint64 (dwords x)) mod p64 \<and> A \<noteq> 0"
proof -
  let ?b = "uint64 (dwords x)" and ?n = "5 ^ unat (uint64 (dwords x)) mod p64"
  have "?b \<noteq> 0" using assms by (rule uint64_nonzero)
  then have v: "ldhexchange x = Some (Inr (push64 (word_of_nat ?n)))"
    using assms(1) powmodp_exact[of ?b 5] by (simp add: ldhexchange_def P64_def)
  have "?n < p64" using p64_value by simp
  then have "?n < 2 ^ 64" unfolding p64_value by simp
  then have u: "unat (word_of_nat ?n :: u64) = ?n" by (simp add: unat_of_nat)
  have "coprime (5 ^ unat ?b) p64" using coprime_5_p by simp
  then have "p64 dvd 5 ^ unat ?b \<Longrightarrow> is_unit p64" by (rule coprime_common_divisor) simp_all
  moreover have "\<not> is_unit p64" by (simp add: p64_value)
  ultimately have "?n \<noteq> 0" using mod_0_imp_dvd by blast
  then show ?thesis using v u by (metis unat_0)
qed

lemma secret_value:
  assumes "A \<noteq> 0" "A < P64" "length y = 8" "\<exists>b \<in> set y. b \<noteq> 0"
  shows "ldhsecret (push64 A) y = Some (Inr (push64 (word_of_nat (unat A ^ unat (uint64 (dwords y)) mod p64))))"
proof -
  have "uint64 (dwords y) \<noteq> 0" using assms(3,4) by (rule uint64_nonzero)
  then show ?thesis
    using assms powmodp_exact[of "uint64 (dwords y)" A] uint64_push64[of A]
    by (auto simp: ldhsecret_def read64_def push64_def[of A])
qed

text \<open>
  C15. Two peers that send each other the public values of their secret keys compute the same shared secret: for any two keys of eight bytes that
  are not all zero, all four calls return without raising an error.
\<close>

theorem dh_agreement:
  assumes "length x = 8" "\<exists>b \<in> set x. b \<noteq> 0" "length y = 8" "\<exists>b \<in> set y. b \<noteq> 0"
  shows "\<exists>A B s. ldhexchange x = Some (Inr A) \<and> ldhexchange y = Some (Inr B)
    \<and> ldhsecret B x = Some (Inr s) \<and> ldhsecret A y = Some (Inr s)"
proof -
  let ?x = "unat (uint64 (dwords x))" and ?y = "unat (uint64 (dwords y))"
  obtain A where A: "ldhexchange x = Some (Inr (push64 A))" "unat A = 5 ^ ?x mod p64" "A \<noteq> 0"
    using exchange_value[OF assms(1,2)] by blast
  obtain B where B: "ldhexchange y = Some (Inr (push64 B))" "unat B = 5 ^ ?y mod p64" "B \<noteq> 0"
    using exchange_value[OF assms(3,4)] by blast
  have "A < P64" "B < P64" using A(2) B(2) p64_value by (simp_all add: word_less_nat_alt)
  then have s: "ldhsecret (push64 A) y = Some (Inr (push64 (word_of_nat (unat A ^ ?y mod p64))))"
    "ldhsecret (push64 B) x = Some (Inr (push64 (word_of_nat (unat B ^ ?x mod p64))))"
    using secret_value A(3) B(3) assms by blast+
  have "unat A ^ ?y mod p64 = unat B ^ ?x mod p64"
    unfolding A(2) B(2) by (simp only: power_mod power_mult[symmetric] mult.commute)
  then show ?thesis using A(1) B(1) s by metis
qed

theorem dh_agreement_witness:
  "\<exists>A B s. ldhexchange [2, 0, 0, 0, 0, 0, 0, 0] = Some (Inr A) \<and> ldhexchange [3, 0, 0, 0, 0, 0, 0, 0] = Some (Inr B)
    \<and> ldhsecret B [2, 0, 0, 0, 0, 0, 0, 0] = Some (Inr s) \<and> ldhsecret A [3, 0, 0, 0, 0, 0, 0, 0] = Some (Inr s)"
  using dh_agreement[of "[2, 0, 0, 0, 0, 0, 0, 0]" "[3, 0, 0, 0, 0, 0, 0, 0]"] by simp

text \<open>Random keys are such keys.\<close>

lemma random_keys_exchange: "\<exists>A. ldhexchange (lrandomkey r) = Some (Inr A)"
  using exchange_value[OF length_lrandomkey lrandomkey_nonzero] by blast

end
