(* ===== verification/Crypt_Des.thy ===== *)
theory Crypt_Des
  imports Crypt_Hash
begin

text \<open>
  DES in \<open>lua-crypt.c\<close>: the tables, the key schedule, one block, and texts of any length padded to whole blocks. The indices are the
  \<open>int\<close>s of the code; \<open>None\<close> is a read outside the buffer, an index that overflows, or a result with bytes nobody wrote.
\<close>

section \<open>Tables\<close>

definition SB1 :: "u32 list" where
  "SB1 = [
    0x01010400, 0x00000000, 0x00010000, 0x01010404, 0x01010004, 0x00010404, 0x00000004, 0x00010000,
    0x00000400, 0x01010400, 0x01010404, 0x00000400, 0x01000404, 0x01010004, 0x01000000, 0x00000004,
    0x00000404, 0x01000400, 0x01000400, 0x00010400, 0x00010400, 0x01010000, 0x01010000, 0x01000404,
    0x00010004, 0x01000004, 0x01000004, 0x00010004, 0x00000000, 0x00000404, 0x00010404, 0x01000000,
    0x00010000, 0x01010404, 0x00000004, 0x01010000, 0x01010400, 0x01000000, 0x01000000, 0x00000400,
    0x01010004, 0x00010000, 0x00010400, 0x01000004, 0x00000400, 0x00000004, 0x01000404, 0x00010404,
    0x01010404, 0x00010004, 0x01010000, 0x01000404, 0x01000004, 0x00000404, 0x00010404, 0x01010400,
    0x00000404, 0x01000400, 0x01000400, 0x00000000, 0x00010004, 0x00010400, 0x00000000, 0x01010004]"

definition SB2 :: "u32 list" where
  "SB2 = [
    0x80108020, 0x80008000, 0x00008000, 0x00108020, 0x00100000, 0x00000020, 0x80100020, 0x80008020,
    0x80000020, 0x80108020, 0x80108000, 0x80000000, 0x80008000, 0x00100000, 0x00000020, 0x80100020,
    0x00108000, 0x00100020, 0x80008020, 0x00000000, 0x80000000, 0x00008000, 0x00108020, 0x80100000,
    0x00100020, 0x80000020, 0x00000000, 0x00108000, 0x00008020, 0x80108000, 0x80100000, 0x00008020,
    0x00000000, 0x00108020, 0x80100020, 0x00100000, 0x80008020, 0x80100000, 0x80108000, 0x00008000,
    0x80100000, 0x80008000, 0x00000020, 0x80108020, 0x00108020, 0x00000020, 0x00008000, 0x80000000,
    0x00008020, 0x80108000, 0x00100000, 0x80000020, 0x00100020, 0x80008020, 0x80000020, 0x00100020,
    0x00108000, 0x00000000, 0x80008000, 0x00008020, 0x80000000, 0x80100020, 0x80108020, 0x00108000]"

definition SB3 :: "u32 list" where
  "SB3 = [
    0x00000208, 0x08020200, 0x00000000, 0x08020008, 0x08000200, 0x00000000, 0x00020208, 0x08000200,
    0x00020008, 0x08000008, 0x08000008, 0x00020000, 0x08020208, 0x00020008, 0x08020000, 0x00000208,
    0x08000000, 0x00000008, 0x08020200, 0x00000200, 0x00020200, 0x08020000, 0x08020008, 0x00020208,
    0x08000208, 0x00020200, 0x00020000, 0x08000208, 0x00000008, 0x08020208, 0x00000200, 0x08000000,
    0x08020200, 0x08000000, 0x00020008, 0x00000208, 0x00020000, 0x08020200, 0x08000200, 0x00000000,
    0x00000200, 0x00020008, 0x08020208, 0x08000200, 0x08000008, 0x00000200, 0x00000000, 0x08020008,
    0x08000208, 0x00020000, 0x08000000, 0x08020208, 0x00000008, 0x00020208, 0x00020200, 0x08000008,
    0x08020000, 0x08000208, 0x00000208, 0x08020000, 0x00020208, 0x00000008, 0x08020008, 0x00020200]"

definition SB4 :: "u32 list" where
  "SB4 = [
    0x00802001, 0x00002081, 0x00002081, 0x00000080, 0x00802080, 0x00800081, 0x00800001, 0x00002001,
    0x00000000, 0x00802000, 0x00802000, 0x00802081, 0x00000081, 0x00000000, 0x00800080, 0x00800001,
    0x00000001, 0x00002000, 0x00800000, 0x00802001, 0x00000080, 0x00800000, 0x00002001, 0x00002080,
    0x00800081, 0x00000001, 0x00002080, 0x00800080, 0x00002000, 0x00802080, 0x00802081, 0x00000081,
    0x00800080, 0x00800001, 0x00802000, 0x00802081, 0x00000081, 0x00000000, 0x00000000, 0x00802000,
    0x00002080, 0x00800080, 0x00800081, 0x00000001, 0x00802001, 0x00002081, 0x00002081, 0x00000080,
    0x00802081, 0x00000081, 0x00000001, 0x00002000, 0x00800001, 0x00002001, 0x00802080, 0x00800081,
    0x00002001, 0x00002080, 0x00800000, 0x00802001, 0x00000080, 0x00800000, 0x00002000, 0x00802080]"

definition SB5 :: "u32 list" where
  "SB5 = [
    0x00000100, 0x02080100, 0x02080000, 0x42000100, 0x00080000, 0x00000100, 0x40000000, 0x02080000,
    0x40080100, 0x00080000, 0x02000100, 0x40080100, 0x42000100, 0x42080000, 0x00080100, 0x40000000,
    0x02000000, 0x40080000, 0x40080000, 0x00000000, 0x40000100, 0x42080100, 0x42080100, 0x02000100,
    0x42080000, 0x40000100, 0x00000000, 0x42000000, 0x02080100, 0x02000000, 0x42000000, 0x00080100,
    0x00080000, 0x42000100, 0x00000100, 0x02000000, 0x40000000, 0x02080000, 0x42000100, 0x40080100,
    0x02000100, 0x40000000, 0x42080000, 0x02080100, 0x40080100, 0x00000100, 0x02000000, 0x42080000,
    0x42080100, 0x00080100, 0x42000000, 0x42080100, 0x02080000, 0x00000000, 0x40080000, 0x42000000,
    0x00080100, 0x02000100, 0x40000100, 0x00080000, 0x00000000, 0x40080000, 0x02080100, 0x40000100]"

definition SB6 :: "u32 list" where
  "SB6 = [
    0x20000010, 0x20400000, 0x00004000, 0x20404010, 0x20400000, 0x00000010, 0x20404010, 0x00400000,
    0x20004000, 0x00404010, 0x00400000, 0x20000010, 0x00400010, 0x20004000, 0x20000000, 0x00004010,
    0x00000000, 0x00400010, 0x20004010, 0x00004000, 0x00404000, 0x20004010, 0x00000010, 0x20400010,
    0x20400010, 0x00000000, 0x00404010, 0x20404000, 0x00004010, 0x00404000, 0x20404000, 0x20000000,
    0x20004000, 0x00000010, 0x20400010, 0x00404000, 0x20404010, 0x00400000, 0x00004010, 0x20000010,
    0x00400000, 0x20004000, 0x20000000, 0x00004010, 0x20000010, 0x20404010, 0x00404000, 0x20400000,
    0x00404010, 0x20404000, 0x00000000, 0x20400010, 0x00000010, 0x00004000, 0x20400000, 0x00404010,
    0x00004000, 0x00400010, 0x20004010, 0x00000000, 0x20404000, 0x20000000, 0x00400010, 0x20004010]"

definition SB7 :: "u32 list" where
  "SB7 = [
    0x00200000, 0x04200002, 0x04000802, 0x00000000, 0x00000800, 0x04000802, 0x00200802, 0x04200800,
    0x04200802, 0x00200000, 0x00000000, 0x04000002, 0x00000002, 0x04000000, 0x04200002, 0x00000802,
    0x04000800, 0x00200802, 0x00200002, 0x04000800, 0x04000002, 0x04200000, 0x04200800, 0x00200002,
    0x04200000, 0x00000800, 0x00000802, 0x04200802, 0x00200800, 0x00000002, 0x04000000, 0x00200800,
    0x04000000, 0x00200800, 0x00200000, 0x04000802, 0x04000802, 0x04200002, 0x04200002, 0x00000002,
    0x00200002, 0x04000000, 0x04000800, 0x00200000, 0x04200800, 0x00000802, 0x00200802, 0x04200800,
    0x00000802, 0x04000002, 0x04200802, 0x04200000, 0x00200800, 0x00000000, 0x00000002, 0x04200802,
    0x00000000, 0x00200802, 0x04200000, 0x00000800, 0x04000002, 0x04000800, 0x00000800, 0x00200002]"

definition SB8 :: "u32 list" where
  "SB8 = [
    0x10001040, 0x00001000, 0x00040000, 0x10041040, 0x10000000, 0x10001040, 0x00000040, 0x10000000,
    0x00040040, 0x10040000, 0x10041040, 0x00041000, 0x10041000, 0x00041040, 0x00001000, 0x00000040,
    0x10040000, 0x10000040, 0x10001000, 0x00001040, 0x00041000, 0x00040040, 0x10040040, 0x10041000,
    0x00001040, 0x00000000, 0x00000000, 0x10040040, 0x10000040, 0x10001000, 0x00041040, 0x00040000,
    0x00041040, 0x00040000, 0x10041000, 0x00001000, 0x00000040, 0x10040040, 0x00001000, 0x00041040,
    0x10001000, 0x00000040, 0x10000040, 0x10040000, 0x10040040, 0x10000000, 0x00040000, 0x10001040,
    0x00000000, 0x10041040, 0x00040040, 0x10000040, 0x10040000, 0x10001000, 0x10001040, 0x00000000,
    0x10041040, 0x00041000, 0x00041000, 0x00001040, 0x00001040, 0x00040040, 0x10000000, 0x10041000]"

definition LHs :: "u32 list" where
  "LHs = [
    0x00000000, 0x00000001, 0x00000100, 0x00000101, 0x00010000, 0x00010001, 0x00010100, 0x00010101,
    0x01000000, 0x01000001, 0x01000100, 0x01000101, 0x01010000, 0x01010001, 0x01010100, 0x01010101]"

definition RHs :: "u32 list" where
  "RHs = [
    0x00000000, 0x01000000, 0x00010000, 0x01010000, 0x00000100, 0x01000100, 0x00010100, 0x01010100,
    0x00000001, 0x01000001, 0x00010001, 0x01010001, 0x00000101, 0x01000101, 0x00010101, 0x01010101]"

section \<open>Words of a block\<close>

definition GET_UINT32 :: "u8 list \<Rightarrow> nat \<Rightarrow> u32" where
  "GET_UINT32 b i =
     push_bit 24 (ucast (b ! i)) OR push_bit 16 (ucast (b ! (i + 1))) OR push_bit 8 (ucast (b ! (i + 2))) OR ucast (b ! (i + 3))"

definition PUT_UINT32 :: "u32 \<Rightarrow> u8 list" where
  "PUT_UINT32 n = [ucast (drop_bit 24 n), ucast (drop_bit 16 n), ucast (drop_bit 8 n), ucast n]"

section \<open>Permutations\<close>

text \<open>\<open>T = ((X >> d) ^ Y) & m; Y ^= T; X ^= (T << d)\<close>\<close>

definition swap_bits :: "nat \<Rightarrow> u32 \<Rightarrow> u32 \<times> u32 \<Rightarrow> u32 \<times> u32" where
  "swap_bits d m p = (let (X, Y) = p; T = (drop_bit d X XOR Y) AND m in (X XOR push_bit d T, Y XOR T))"

text \<open>The same with \<open>X\<close> and \<open>Y\<close> exchanged.\<close>

definition swap_bits2 :: "nat \<Rightarrow> u32 \<Rightarrow> u32 \<times> u32 \<Rightarrow> u32 \<times> u32" where
  "swap_bits2 d m p = (let (X, Y) = p; T = (drop_bit d Y XOR X) AND m in (X XOR T, Y XOR push_bit d T))"

definition rol1 :: "u32 \<Rightarrow> u32" where
  "rol1 x = (push_bit 1 x OR drop_bit 31 x) AND 0xFFFFFFFF"

definition ror1 :: "u32 \<Rightarrow> u32" where
  "ror1 x = (push_bit 31 x OR drop_bit 1 x) AND 0xFFFFFFFF"

definition DES_IP :: "u32 \<times> u32 \<Rightarrow> u32 \<times> u32" where
  "DES_IP p =
     (let p = swap_bits 4 0x0F0F0F0F p;
          p = swap_bits 16 0x0000FFFF p;
          p = swap_bits2 2 0x33333333 p;
          p = swap_bits2 8 0x00FF00FF p;
          p = (fst p, rol1 (snd p));
          p = swap_bits 0 0xAAAAAAAA p
      in (rol1 (fst p), snd p))"

definition DES_FP :: "u32 \<times> u32 \<Rightarrow> u32 \<times> u32" where
  "DES_FP p =
     (let p = (ror1 (fst p), snd p);
          p = swap_bits 0 0xAAAAAAAA p;
          p = (fst p, ror1 (snd p));
          p = swap_bits2 8 0x00FF00FF p;
          p = swap_bits2 2 0x33333333 p;
          p = swap_bits 16 0x0000FFFF p
      in swap_bits 4 0x0F0F0F0F p)"

section \<open>Rounds\<close>

definition six :: "u32 \<Rightarrow> nat" where
  "six t = unat (t AND 0x3F)"

definition DES_ROUND :: "u32 \<Rightarrow> u32 \<Rightarrow> u32 \<Rightarrow> u32 \<Rightarrow> u32" where
  "DES_ROUND k1 k2 X Y =
     (let T = k1 XOR X;
          Y = Y XOR (SB8 ! six T XOR SB6 ! six (drop_bit 8 T) XOR SB4 ! six (drop_bit 16 T) XOR SB2 ! six (drop_bit 24 T));
          T = k2 XOR (push_bit 28 X OR drop_bit 4 X)
      in Y XOR (SB7 ! six T XOR SB5 ! six (drop_bit 8 T) XOR SB3 ! six (drop_bit 16 T) XOR SB1 ! six (drop_bit 24 T)))"

text \<open>\<open>DES_ROUND(Y, X); DES_ROUND(X, Y)\<close> for every four subkeys.\<close>

fun des_rounds :: "u32 list \<Rightarrow> u32 \<times> u32 \<Rightarrow> u32 \<times> u32" where
  "des_rounds (a # b # c # d # SK) p =
     (let (X, Y) = p; X = DES_ROUND a b Y X; Y = DES_ROUND c d X Y in des_rounds SK (X, Y))"
| "des_rounds SK p = p"

definition des_crypt :: "u32 list \<Rightarrow> u8 list \<Rightarrow> u8 list" where
  "des_crypt SK input =
     (let p = DES_IP (GET_UINT32 input 0, GET_UINT32 input 4);
          (X, Y) = des_rounds SK p;
          (Y, X) = DES_FP (Y, X)
      in PUT_UINT32 Y @ PUT_UINT32 X)"

section \<open>Key schedule\<close>

definition perm_choice1 :: "u32 \<times> u32 \<Rightarrow> u32 \<times> u32" where
  "perm_choice1 p =
     (let p = swap_bits2 4 0x0F0F0F0F p; (X, Y) = swap_bits2 0 0x10101010 p
      in ((push_bit 3 (LHs ! unat (X AND 0xf)) OR push_bit 2 (LHs ! unat (drop_bit 8 X AND 0xf))
      OR push_bit 1 (LHs ! unat (drop_bit 16 X AND 0xf)) OR (LHs ! unat (drop_bit 24 X AND 0xf))
      OR push_bit 7 (LHs ! unat (drop_bit 5 X AND 0xf)) OR push_bit 6 (LHs ! unat (drop_bit 13 X AND 0xf))
      OR push_bit 5 (LHs ! unat (drop_bit 21 X AND 0xf)) OR push_bit 4 (LHs ! unat (drop_bit 29 X AND 0xf))) AND 0x0FFFFFFF,
          (push_bit 3 (RHs ! unat (drop_bit 1 Y AND 0xf)) OR push_bit 2 (RHs ! unat (drop_bit 9 Y AND 0xf))
      OR push_bit 1 (RHs ! unat (drop_bit 17 Y AND 0xf)) OR (RHs ! unat (drop_bit 25 Y AND 0xf))
      OR push_bit 7 (RHs ! unat (drop_bit 4 Y AND 0xf)) OR push_bit 6 (RHs ! unat (drop_bit 12 Y AND 0xf))
      OR push_bit 5 (RHs ! unat (drop_bit 20 Y AND 0xf)) OR push_bit 4 (RHs ! unat (drop_bit 28 Y AND 0xf))) AND 0x0FFFFFFF))"

definition ks_rotate :: "nat \<Rightarrow> u32 \<Rightarrow> u32" where
  "ks_rotate i X =
     (if i < 2 \<or> i = 8 \<or> i = 15 then (push_bit 1 X OR drop_bit 27 X) AND 0x0FFFFFFF
      else (push_bit 2 X OR drop_bit 26 X) AND 0x0FFFFFFF)"

definition subkey1 :: "u32 \<Rightarrow> u32 \<Rightarrow> u32" where
  "subkey1 X Y =
     (push_bit 4 X AND 0x24000000) OR (push_bit 28 X AND 0x10000000)
      OR (push_bit 14 X AND 0x08000000) OR (push_bit 18 X AND 0x02080000)
      OR (push_bit 6 X AND 0x01000000) OR (push_bit 9 X AND 0x00200000)
      OR (drop_bit 1 X AND 0x00100000) OR (push_bit 10 X AND 0x00040000)
      OR (push_bit 2 X AND 0x00020000) OR (drop_bit 10 X AND 0x00010000)
      OR (drop_bit 13 Y AND 0x00002000) OR (drop_bit 4 Y AND 0x00001000)
      OR (push_bit 6 Y AND 0x00000800) OR (drop_bit 1 Y AND 0x00000400)
      OR (drop_bit 14 Y AND 0x00000200) OR (Y AND 0x00000100)
      OR (drop_bit 5 Y AND 0x00000020) OR (drop_bit 10 Y AND 0x00000010)
      OR (drop_bit 3 Y AND 0x00000008) OR (drop_bit 18 Y AND 0x00000004)
      OR (drop_bit 26 Y AND 0x00000002) OR (drop_bit 24 Y AND 0x00000001)"

definition subkey2 :: "u32 \<Rightarrow> u32 \<Rightarrow> u32" where
  "subkey2 X Y =
     (push_bit 15 X AND 0x20000000) OR (push_bit 17 X AND 0x10000000)
      OR (push_bit 10 X AND 0x08000000) OR (push_bit 22 X AND 0x04000000)
      OR (drop_bit 2 X AND 0x02000000) OR (push_bit 1 X AND 0x01000000)
      OR (push_bit 16 X AND 0x00200000) OR (push_bit 11 X AND 0x00100000)
      OR (push_bit 3 X AND 0x00080000) OR (drop_bit 6 X AND 0x00040000)
      OR (push_bit 15 X AND 0x00020000) OR (drop_bit 4 X AND 0x00010000)
      OR (drop_bit 2 Y AND 0x00002000) OR (push_bit 8 Y AND 0x00001000)
      OR (drop_bit 14 Y AND 0x00000808) OR (drop_bit 9 Y AND 0x00000400)
      OR (Y AND 0x00000200) OR (push_bit 7 Y AND 0x00000100)
      OR (drop_bit 7 Y AND 0x00000020) OR (drop_bit 3 Y AND 0x00000011)
      OR (push_bit 2 Y AND 0x00000004) OR (drop_bit 21 Y AND 0x00000002)"

fun ks_loop :: "nat list \<Rightarrow> u32 \<Rightarrow> u32 \<Rightarrow> u32 list" where
  "ks_loop [] X Y = []"
| "ks_loop (i # is) X Y =
     (let X = ks_rotate i X; Y = ks_rotate i Y in subkey1 X Y # subkey2 X Y # ks_loop is X Y)"

definition des_main_ks :: "u8 list \<Rightarrow> u32 list" where
  "des_main_ks key = (let (X, Y) = perm_choice1 (GET_UINT32 key 0, GET_UINT32 key 4) in ks_loop [0..<16] X Y)"

text \<open>\<open>(int)\<close> of a \<open>size_t\<close>.\<close>

definition int_of_size :: "nat \<Rightarrow> int" where
  "int_of_size n = sint (word_of_nat n :: i32)"

definition des_key :: "u8 list \<Rightarrow> crypt_error + u32 list" where
  "des_key key = (if length key \<noteq> 8 then Inl (Invalid_key_size (int_of_size (length key))) else Inr (des_main_ks key))"

section \<open>Texts\<close>

text \<open>The last block: \<open>bytes\<close> bytes from the rest of the text, \<open>0x80\<close>, and zeros.\<close>

definition des_tail :: "int \<Rightarrow> u8 list \<Rightarrow> u8 list" where
  "des_tail bytes bs = map (\<lambda>j. if int j < bytes then bs ! j else if int j = bytes then 0x80 else 0) [0..<8]"

text \<open>The loop over the whole blocks below \<open>bound\<close>, which is \<open>(int)textsz-7\<close>, and the last block.\<close>

function encode_blocks :: "u32 list \<Rightarrow> u8 list \<Rightarrow> int \<Rightarrow> int \<Rightarrow> u8 list" where
  "encode_blocks SK txt bound i =
     (if i < bound then des_crypt SK (take 8 (drop (nat i) txt)) @ encode_blocks SK txt bound (i + 8)
      else des_crypt SK (des_tail (sint (word_of_int (int (length txt) - i) :: i32)) (drop (nat i) txt)))"
  by pat_completeness auto
termination by (relation "measure (\<lambda>(SK, txt, bound, i). nat (bound - i))") auto

text \<open>
  The result has \<open>(textsz + 8) & ~7\<close> bytes. From 2 GB on the bound is not that of the text, and the blocks written are not
  those of the result.
\<close>

definition ldesencode :: "u8 list \<Rightarrow> u8 list \<Rightarrow> (crypt_error + u8 list) option" where
  "ldesencode key txt =
     (case des_key key of
        Inl e \<Rightarrow> Some (Inl e)
      | Inr SK \<Rightarrow>
          let buffer = encode_blocks SK txt (int_of_size (length txt) - 7) 0 in
          if length buffer = 8 * ((length txt + 8) div 8) then Some (Inr buffer) else None)"

function decode_blocks :: "u32 list \<Rightarrow> u8 list \<Rightarrow> u8 list" where
  "decode_blocks SK txt = (if txt = [] then [] else des_crypt SK (take 8 txt) @ decode_blocks SK (drop 8 txt))"
  by pat_completeness auto
termination by (relation "measure (length \<circ> snd)") auto

declare encode_blocks.simps [simp del] decode_blocks.simps [simp del]

definition reverse_keys :: "u32 list \<Rightarrow> u32 list" where
  "reverse_keys ESK = concat (map (\<lambda>i. [ESK ! (30 - 2 * i), ESK ! (31 - 2 * i)]) [0..<16])"

text \<open>
  The search for the end of the text, from the last byte back. The bound \<open>i >= textsz-8\<close> is compared without sign: for a text of one block the
  bound is 0 and index -1 passes, so the byte in front of the buffer is read.
\<close>

function find_end :: "u8 list \<Rightarrow> nat \<Rightarrow> int \<Rightarrow> int \<Rightarrow> (crypt_error + int) option" where
  "find_end buffer textsz i padding =
     (if (word_of_int i :: u64) < word_of_nat (textsz - 8) then Some (Inr padding)
      else if i < 0 \<or> int (length buffer) \<le> i then None
      else if buffer ! nat i = 0 then find_end buffer textsz (i - 1) (padding + 1)
      else if buffer ! nat i = 0x80 then Some (Inr padding)
      else Some (Inl Invalid_des_text))"
  by pat_completeness auto
termination by (relation "measure (\<lambda>(b, n, i, p). nat (i + 1))") auto

declare find_end.simps [simp del]

definition ldesdecode :: "u8 list \<Rightarrow> u8 list \<Rightarrow> (crypt_error + u8 list) option" where
  "ldesdecode key txt =
     (case des_key key of
        Inl e \<Rightarrow> Some (Inl e)
      | Inr ESK \<Rightarrow>
          if length txt mod 8 \<noteq> 0 \<or> length txt = 0 then Some (Inl (Invalid_des_length (int_of_size (length txt))))
          else if 2 ^ 31 \<le> length txt then None
          else
            let buffer = decode_blocks (reverse_keys ESK) txt in
            continue (find_end buffer (length txt) (int (length txt) - 1) 1)
              (\<lambda>padding. Some (if 8 < padding then Inl Invalid_des_text else Inr (take (length txt - nat padding) buffer))))"

section \<open>The permutations undo each other\<close>

lemma bit_swap_room: "drop_bit d (push_bit d m) = m \<Longrightarrow> bit m n \<Longrightarrow> n + d < 32" for m :: u32
  by (drule arg_cong[of _ _ "\<lambda>w. bit w n"]) (auto simp: bit_simps)

lemma bit_swap:
  assumes "drop_bit d (push_bit d m) = m"
  shows "bit (fst (swap_bits d m (X, Y))) n \<longleftrightarrow> (if d \<le> n \<and> bit m (n - d) then bit Y (n - d) \<and> n < 32 else bit X n)"
    "bit (snd (swap_bits d m (X, Y))) n \<longleftrightarrow> (if bit m n then bit X (n + d) else bit Y n)"
proof -
  have m: "n < 32 - d" if "bit m n" for n
    using that arg_cong[OF assms, of "\<lambda>w. bit w n"] by (auto simp: bit_simps)
  show "bit (fst (swap_bits d m (X, Y))) n \<longleftrightarrow> (if d \<le> n \<and> bit m (n - d) then bit Y (n - d) \<and> n < 32 else bit X n)"
    using m[of "n - d"] bit_imp_le_length[of X n] by (auto simp: swap_bits_def Let_def bit_simps)
  show "bit (snd (swap_bits d m (X, Y))) n \<longleftrightarrow> (if bit m n then bit X (n + d) else bit Y n)"
    using m[of n] bit_imp_le_length[of m n] by (auto simp: swap_bits_def Let_def bit_simps add.commute)
qed

lemma swap_bits_twice:
  assumes "drop_bit d (push_bit d m) = m"
  shows "swap_bits d m (swap_bits d m p) = p"
proof -
  obtain X Y U V where p: "p = (X, Y)" "swap_bits d m (X, Y) = (U, V)" by (metis surj_pair)
  note uv = bit_swap[OF assms, of X Y, unfolded p(2) fst_conv snd_conv]
  have "fst (swap_bits d m (U, V)) = X"
    by (rule bit_word_eqI) (auto simp: bit_swap[OF assms] uv)
  moreover have "snd (swap_bits d m (U, V)) = Y"
    by (rule bit_word_eqI) (use bit_swap_room[OF assms] in \<open>auto simp: bit_swap[OF assms] uv\<close>)
  ultimately show ?thesis unfolding p by (simp add: prod_eq_iff)
qed

lemma swap_bits2_flip: "swap_bits2 d m p = prod.swap (swap_bits d m (prod.swap p))"
  by (cases p) (simp add: swap_bits_def swap_bits2_def Let_def)

lemma swap_bits2_twice: "drop_bit d (push_bit d m) = m \<Longrightarrow> swap_bits2 d m (swap_bits2 d m p) = p"
  by (simp add: swap_bits2_flip swap_bits_twice)

lemma bit_rotate:
  "bit (rol1 x) n \<longleftrightarrow> n < 32 \<and> (if n = 0 then bit x 31 else bit x (n - 1))"
  "bit (ror1 x) n \<longleftrightarrow> n < 32 \<and> (if n = 31 then bit x 0 else bit x (n + 1))"
proof -
  have m: "(0xFFFFFFFF :: u32) = mask 32" by (simp add: mask_eq_decr_exp)
  have x: "bit x n \<Longrightarrow> n < 32" for n by (drule bit_imp_le_length) simp
  show "bit (rol1 x) n \<longleftrightarrow> n < 32 \<and> (if n = 0 then bit x 31 else bit x (n - 1))"
    unfolding rol1_def m bit_and_iff bit_or_iff bit_push_bit_iff bit_drop_bit_eq o_def bit_mask_iff
    using x[of "31 + n"] by (cases n) auto
  show "bit (ror1 x) n \<longleftrightarrow> n < 32 \<and> (if n = 31 then bit x 0 else bit x (n + 1))"
    unfolding ror1_def m bit_and_iff bit_or_iff bit_push_bit_iff bit_drop_bit_eq o_def bit_mask_iff
    using x[of "n + 1"] by (auto simp: add.commute)
qed

lemma rol_ror: "rol1 (ror1 x) = x" "ror1 (rol1 x) = x"
  by (rule bit_word_eqI, auto simp: bit_rotate)+

lemmas swaps_undo = swap_bits_twice swap_bits2_twice rol_ror

lemma IP_FP: "DES_IP (DES_FP p) = p"
  unfolding DES_IP_def DES_FP_def Let_def by (simp add: swaps_undo)

lemma FP_IP: "DES_FP (DES_IP p) = p"
  unfolding DES_IP_def DES_FP_def Let_def by (simp add: swaps_undo)

section \<open>A block is decrypted by the reversed keys\<close>

lemma DES_ROUND_twice: "DES_ROUND a b X (DES_ROUND a b X Y) = Y"
  by (simp add: DES_ROUND_def Let_def xor.assoc xor.left_commute xor.commute)

fun rev_pairs :: "u32 list \<Rightarrow> u32 list" where
  "rev_pairs (a # b # SK) = rev_pairs SK @ [a, b]"
| "rev_pairs SK = []"

lemma length_rev_pairs: "even (length SK) \<Longrightarrow> length (rev_pairs SK) = length SK"
  by (induction SK rule: rev_pairs.induct) auto

lemma des_rounds_append: "4 dvd length A \<Longrightarrow> des_rounds (A @ B) p = des_rounds B (des_rounds A p)"
proof (induction A p rule: des_rounds.induct)
  case (1 a b c d SK p)
  then have "4 dvd length SK" by simp presburger
  then show ?case using 1 by (cases p) (simp add: Let_def)
qed (auto dest!: dvd_imp_le)

lemma des_rounds_undo:
  "4 dvd length SK \<Longrightarrow> des_rounds (rev_pairs SK) (prod.swap (des_rounds SK p)) = prod.swap p"
proof (induction SK p rule: des_rounds.induct)
  case (1 a b c d SK p)
  obtain X Y where p: "p = (X, Y)" by (cases p)
  have "4 dvd length SK" using 1(2) by simp presburger
  moreover have "4 dvd length (rev_pairs SK)" using calculation by (subst length_rev_pairs) auto
  ultimately show ?case using 1(1) p
    by (simp add: Let_def des_rounds_append DES_ROUND_twice)
qed (auto dest!: dvd_imp_le)

lemma reverse_keys_pairs:
  "length SK = 2 * n \<Longrightarrow> rev_pairs SK = concat (map (\<lambda>i. [SK ! (2 * n - 2 - 2 * i), SK ! (2 * n - 1 - 2 * i)]) [0..<n])"
proof (induction n arbitrary: SK)
  case (Suc n)
  then obtain a b T where SK: "SK = a # b # T" "length T = 2 * n" by (auto simp: length_Suc_conv)
  define F where "F = (\<lambda>i. [SK ! (2 * Suc n - 2 - 2 * i), SK ! (2 * Suc n - 1 - 2 * i)])"
  have F: "F i = [T ! (2 * n - 2 - 2 * i), T ! (2 * n - 1 - 2 * i)]" if "i < n" for i
  proof -
    from that obtain k where "n = Suc (i + k)" by (metis add_Suc_right less_iff_Suc_add)
    then show ?thesis by (simp add: F_def SK(1))
  qed
  have "map F [0..<n] = map (\<lambda>i. [T ! (2 * n - 2 - 2 * i), T ! (2 * n - 1 - 2 * i)]) [0..<n]"
    by (rule map_cong) (simp_all only: F set_upt atLeastLessThan_iff)
  then have "rev_pairs T = concat (map F [0..<n])" using Suc.IH[OF SK(2)] by (simp only:)
  moreover have "F n = [a, b]" by (simp add: F_def SK(1))
  ultimately show ?case unfolding F_def[symmetric] by (simp add: SK(1))
qed simp

lemma length_ks_loop: "length (ks_loop js X Y) = 2 * length js"
  by (induction js arbitrary: X Y) (simp_all add: Let_def)

lemma length_des_main_ks: "length (des_main_ks key) = 32"
  by (simp add: des_main_ks_def length_ks_loop split: prod.split)

lemma reverse_keys_rev: "length SK = 32 \<Longrightarrow> reverse_keys SK = rev_pairs SK"
  using reverse_keys_pairs[of SK 16] by (simp add: reverse_keys_def)

lemma length_PUT [simp]: "length (PUT_UINT32 n) = 4"
  by (simp add: PUT_UINT32_def)

lemma length_des_crypt [simp]: "length (des_crypt SK b) = 8"
  by (simp add: des_crypt_def Let_def split: prod.split)

lemma get_put: "GET_UINT32 (PUT_UINT32 x @ PUT_UINT32 y) 0 = x" "GET_UINT32 (PUT_UINT32 x @ PUT_UINT32 y) 4 = y"
  unfolding GET_UINT32_def PUT_UINT32_def by (simp_all add: join_bytes)

lemma put_get:
  assumes "length b = 8"
  shows "PUT_UINT32 (GET_UINT32 b 0) @ PUT_UINT32 (GET_UINT32 b 4) = b"
proof -
  have 4: "PUT_UINT32 (GET_UINT32 b i) = [b ! i, b ! (i + 1), b ! (i + 2), b ! (i + 3)]" for i
    unfolding PUT_UINT32_def GET_UINT32_def by (simp only: split_bytes)
  have "map ((!) b) [0..<8] = b" using map_nth[of b] assms by simp
  then show ?thesis unfolding 4 by (simp add: upt_conv_Cons eval_nat_numeral)
qed

lemma des_block_roundtrip:
  assumes "length b = 8" "length SK = 32"
  shows "des_crypt (reverse_keys SK) (des_crypt SK b) = b"
proof -
  obtain X Y where ip: "DES_IP (GET_UINT32 b 0, GET_UINT32 b 4) = (X, Y)" by fastforce
  obtain U V where r: "des_rounds SK (X, Y) = (U, V)" by fastforce
  obtain Q R where fp: "DES_FP (V, U) = (Q, R)" by fastforce
  have c: "des_crypt SK b = PUT_UINT32 Q @ PUT_UINT32 R" by (simp add: des_crypt_def ip r fp)
  have "DES_IP (Q, R) = (V, U)" using IP_FP[of "(V, U)"] fp by simp
  moreover have "des_rounds (reverse_keys SK) (V, U) = (Y, X)"
    using des_rounds_undo[of SK "(X, Y)"] r assms(2) by (simp add: reverse_keys_rev)
  moreover have "DES_FP (X, Y) = (GET_UINT32 b 0, GET_UINT32 b 4)" using FP_IP[of "(GET_UINT32 b 0, GET_UINT32 b 4)"] ip by simp
  ultimately show ?thesis unfolding c by (simp add: des_crypt_def get_put put_get assms(1))
qed

section \<open>Texts\<close>

definition des_pad :: "u8 list \<Rightarrow> u8 list" where
  "des_pad txt = txt @ 0x80 # replicate (7 - length txt mod 8) 0"

lemma des_tail_pad: "length txt < 8 \<Longrightarrow> des_tail (int (length txt)) txt = des_pad txt"
  by (rule nth_equalityI) (auto simp: des_tail_def des_pad_def nth_append nth_Cons')

lemma des_pad_drop: "8 \<le> length txt \<Longrightarrow> des_pad txt = take 8 txt @ des_pad (drop 8 txt)"
  by (simp add: des_pad_def le_mod_geq)

text \<open>What the encoder is to compute: the padded text, block by block.\<close>

function des_blocks :: "u32 list \<Rightarrow> u8 list \<Rightarrow> u8 list" where
  "des_blocks SK txt =
     (if 8 \<le> length txt then des_crypt SK (take 8 txt) @ des_blocks SK (drop 8 txt) else des_crypt SK (des_pad txt))"
  by pat_completeness auto
termination by (relation "measure (length \<circ> snd)") auto

declare des_blocks.simps [simp del]

lemma encode_blocks_from:
  assumes "length txt < 2 ^ 31" "i \<le> length txt"
  shows "encode_blocks SK txt (int (length txt) - 7) (int i) = des_blocks SK (drop i txt)"
  using assms(2)
proof (induction "length txt - i" arbitrary: i rule: less_induct)
  case less
  show ?case
  proof (cases "8 \<le> length txt - i")
    case True
    then have "encode_blocks SK txt (int (length txt) - 7) (int (i + 8)) = des_blocks SK (drop (i + 8) txt)"
      using less by (intro less(1)) auto
    moreover have "int i < int (length txt) - 7" using True by simp
    ultimately show ?thesis using True
      by (subst encode_blocks.simps, subst des_blocks.simps) (simp add: add.commute)
  next
    case False
    have b: "sint (word_of_int (int (length txt) - int i) :: i32) = int (length txt - i)"
    proof -
      have e: "int (length txt) - int i = int (length txt - i)" using less.prems by simp
      show ?thesis unfolding e of_int_of_nat_eq using assms(1) by (intro sint_nat) simp
    qed
    have "des_tail (int (length txt - i)) (drop i txt) = des_pad (drop i txt)"
      using des_tail_pad[of "drop i txt"] False by simp
    moreover have "\<not> int i < int (length txt) - 7" using False by simp
    ultimately show ?thesis using False less.prems b
      by (subst encode_blocks.simps, subst des_blocks.simps) simp
  qed
qed

lemma decode_encode: "length SK = 32 \<Longrightarrow> decode_blocks (reverse_keys SK) (des_blocks SK s) = des_pad s"
proof (induction SK s rule: des_blocks.induct)
  case (1 SK s)
  have ne: "des_crypt SK b \<noteq> []" for b using length_des_crypt[of SK b] by fastforce
  show ?case
  proof (cases "8 \<le> length s")
    case True
    then have "des_blocks SK s = des_crypt SK (take 8 s) @ des_blocks SK (drop 8 s)"
      by (simp add: des_blocks.simps[of SK s])
    then show ?thesis using True 1 ne
      by (simp add: decode_blocks.simps[of "reverse_keys SK" "des_crypt SK _ @ _"] des_block_roundtrip des_pad_drop[of s])
  next
    case False
    then have "des_blocks SK s = des_crypt SK (des_pad s)" by (simp add: des_blocks.simps[of SK s])
    moreover have "length (des_pad s) = 8" using False by (simp add: des_pad_def)
    ultimately show ?thesis using False 1(2) ne
      by (simp add: decode_blocks.simps[of "reverse_keys SK" "des_crypt SK _"] decode_blocks.simps[of _ "[]"]
        des_block_roundtrip)
  qed
qed

lemma pad_length: "n + (7 - n mod 8) + 1 = 8 * (n div 8 + 1)" for n :: nat
  by presburger

lemma length_des_blocks: "length (des_blocks SK s) = 8 * (length s div 8 + 1)"
proof (induction SK s rule: des_blocks.induct)
  case (1 SK s)
  then show ?case by (cases "8 \<le> length s") (simp_all add: des_blocks.simps[of SK s] le_div_geq)
qed

lemma find_end_zeros:
  assumes "textsz - 8 \<le> length pre" "length pre + k < 2 ^ 31" "k \<le> z" "textsz < 2 ^ 31"
  shows "find_end (pre @ 0x80 # replicate z 0) textsz (int (length pre + k)) p = Some (Inr (p + int k))"
  using assms(2,3)
proof (induction k arbitrary: p)
  case 0
  have "\<not> (word_of_int (int (length pre)) :: u64) < word_of_nat (textsz - 8)"
    using assms(1,4) 0 by (simp add: word_less_nat_alt unat_of_nat)
  then show ?case by (simp add: find_end.simps[of _ _ "int (length pre)"])
next
  case (Suc k)
  let ?i = "int (length pre + Suc k)"
  have "\<not> (word_of_int ?i :: u64) < word_of_nat (textsz - 8)"
    using assms(1,4) Suc(2) by (simp add: word_less_nat_alt unat_of_nat del: of_nat_add of_nat_Suc)
  moreover have "(pre @ 0x80 # replicate z 0) ! nat ?i = 0"
    unfolding nat_int using Suc(3) by (simp add: nth_append)
  moreover have "?i - 1 = int (length pre + k)" by simp
  ultimately show ?case using Suc by (subst find_end.simps) simp
qed

text \<open>
  C14. A text of less than \<open>2 ^ 31 - 8\<close> bytes encrypted with a key of eight bytes is decrypted to the same text by the same key: no
  error is raised, no index overflows and no byte outside the buffer is read. (From 2 GB on the \<open>int\<close> indices of the code do not reach.)
\<close>

theorem des_roundtrip:
  assumes "length key = 8" "length txt < 2 ^ 31 - 8"
  shows "\<exists>c. ldesencode key txt = Some (Inr c) \<and> ldesdecode key c = Some (Inr txt)"
proof -
  let ?SK = "des_main_ks key"
  define z where "z = 7 - length txt mod 8"
  define c where "c = des_blocks ?SK txt"
  have d: "decode_blocks (reverse_keys ?SK) c = txt @ 0x80 # replicate z 0"
    unfolding c_def decode_encode[OF length_des_main_ks] des_pad_def z_def by (rule refl)
  have l: "length c = 8 * (length txt div 8 + 1)" by (simp add: c_def length_des_blocks)
  have z: "length c = length txt + z + 1" "z \<le> 7" unfolding l z_def by (rule pad_length[symmetric]) simp
  have small: "length c < 2 ^ 31" unfolding l using assms(2) by auto
  have "find_end (txt @ 0x80 # replicate z 0) (length c) (int (length txt + z)) 1 = Some (Inr (1 + int z))"
    by (rule find_end_zeros) (use z small assms(2) in simp_all)
  moreover have "int (length c) - 1 = int (length txt + z)" "nat (1 + int z) = z + 1" using z by simp_all
  moreover have "length c mod 8 = 0" "c \<noteq> []" using l by auto
  ultimately have "ldesdecode key c = Some (Inr txt)"
    using assms(1) z small by (simp add: ldesdecode_def des_key_def Let_def d del: of_nat_add)
  moreover have "(length txt + 8) div 8 = length txt div 8 + 1" by simp
  then have "ldesencode key txt = Some (Inr c)"
    using assms encode_blocks_from[of _ 0 ?SK] l
    by (simp add: ldesencode_def des_key_def c_def int_of_size_def sint_nat)
  ultimately show ?thesis by blast
qed

theorem des_roundtrip_witness:
  "\<exists>c. ldesencode [1, 2, 3, 4, 5, 6, 7, 8] [104, 105] = Some (Inr c) \<and> ldesdecode [1, 2, 3, 4, 5, 6, 7, 8] c = Some (Inr [104, 105])"
  using des_roundtrip[of "[1, 2, 3, 4, 5, 6, 7, 8]" "[104, 105]"] by simp

text \<open>
  A single block that decrypts to zeros alone makes decryption read the byte in front of its buffer, for every key: the bound of the search for
  the end of the text is compared without sign and never stops it at the start of the buffer.
\<close>

theorem des_zero_block_overread:
  assumes "length key = 8"
  shows "ldesdecode key (des_crypt (des_main_ks key) (replicate 8 0)) = None"
proof -
  let ?c = "des_crypt (des_main_ks key) (replicate 8 0)"
  have l: "length ?c = 8" by simp
  then have c: "?c \<noteq> []" by fastforce
  have d: "decode_blocks (reverse_keys (des_main_ks key)) ?c = replicate 8 0"
    using c by (simp add: decode_blocks.simps[of _ "des_crypt _ _"] decode_blocks.simps[of _ "[]"] des_block_roundtrip length_des_main_ks)
  have "find_end (replicate 8 0) 8 (int k - 1) p = None" if "k \<le> 8" for k p
    using that
  proof (induction k arbitrary: p)
    case 0
    then show ?case by (subst find_end.simps) simp
  next
    case (Suc k)
    then have "nat (int k) < 8" by simp
    then have "(replicate 8 0 :: u8 list) ! nat (int k) = 0" by (simp only: nth_replicate)
    then show ?case using Suc by (subst find_end.simps) simp
  qed
  from this[of 8 1] show ?thesis using assms c l by (simp add: ldesdecode_def des_key_def Let_def d)
qed

theorem des_zero_block_overread_witness:
  "ldesdecode [1, 2, 3, 4, 5, 6, 7, 8] (des_crypt (des_main_ks [1, 2, 3, 4, 5, 6, 7, 8]) (replicate 8 0)) = None"
  using des_zero_block_overread[of "[1, 2, 3, 4, 5, 6, 7, 8]"] by simp

end
