(* ===== verification/Crypt_Sha1.thy ===== *)
theory Crypt_Sha1
  imports Crypt_Des
begin

text \<open>
  \<open>lsha1.c\<close>: SHA-1 computed piece by piece in a context, and the keyed digest built on it. Sizes are 64-bit. The bytes a context's buffer holds
  before it is written are a parameter, and so is the buffer of every context a function declares.
\<close>

section \<open>The context\<close>

record SHA1_CTX =
  sha_state :: "u32 list"
  count0 :: u32
  count1 :: u32
  sha_buffer :: "u8 list"

definition rol :: "u32 \<Rightarrow> nat \<Rightarrow> u32" where
  "rol v bits = push_bit bits v OR drop_bit (32 - bits) v"

section \<open>One block\<close>

definition blk0 :: "nat \<Rightarrow> u32 list \<Rightarrow> u32 list" where
  "blk0 i l = l[i := (rol (l ! i) 24 AND 0xFF00FF00) OR (rol (l ! i) 8 AND 0x00FF00FF)]"

definition blk :: "nat \<Rightarrow> u32 list \<Rightarrow> u32 list" where
  "blk i l =
     l[i mod 16 := rol (l ! ((i + 13) mod 16) XOR l ! ((i + 8) mod 16) XOR l ! ((i + 2) mod 16) XOR l ! (i mod 16)) 1]"

definition mix :: "nat \<Rightarrow> u32 \<Rightarrow> u32 \<Rightarrow> u32 \<Rightarrow> u32" where
  "mix i w x y =
     (if i < 20 then (w AND (x XOR y)) XOR y
      else if i < 40 then w XOR x XOR y
      else if i < 60 then ((w OR x) AND y) OR (w AND x)
      else w XOR x XOR y)"

definition round_const :: "nat \<Rightarrow> u32" where
  "round_const i = (if i < 20 then 0x5A827999 else if i < 40 then 0x6ED9EBA1 else if i < 60 then 0x8F1BBCDC else 0xCA62C1D6)"

text \<open>
  Step \<open>i\<close> of the unrolled loop, \<open>R0\<close> to \<open>R4\<close>: the five variables \<open>a\<close> to \<open>e\<close> are \<open>r\<close>, and the arguments \<open>v\<close>, \<open>w\<close>, \<open>x\<close>, \<open>y\<close>, \<open>z\<close> move by one
  variable from a step to the next. Only \<open>R0\<close>, the first 16 steps, reads the block with \<open>blk0\<close>.
\<close>

definition arg :: "nat \<Rightarrow> nat \<Rightarrow> nat" where
  "arg i j = (80 - i + j) mod 5"

definition sha_step :: "nat \<Rightarrow> u32 list \<times> u32 list \<Rightarrow> u32 list \<times> u32 list" where
  "sha_step i p =
     (let (r, l) = p;
          l = (if i < 16 then blk0 i l else blk i l);
          r = r[arg i 4 := r ! arg i 4 +
                (mix i (r ! arg i 1) (r ! arg i 2) (r ! arg i 3) + l ! (i mod 16) + round_const i + rol (r ! arg i 0) 5)];
          r = r[arg i 1 := rol (r ! arg i 1) 30]
      in (r, l))"

definition SHA1_Transform :: "u32 list \<Rightarrow> u8 list \<Rightarrow> u32 list" where
  "SHA1_Transform st buffer =
     (let block = map (\<lambda>i. le_word (take 4 (drop (4 * i) buffer))) [0..<16];
          (r, l) = fold sha_step [0..<80] (st, block)
      in map (\<lambda>i. st ! i + r ! i) [0..<5])"

section \<open>A message in pieces\<close>

definition sat_SHA1_Init :: "u8 list \<Rightarrow> SHA1_CTX" where
  "sat_SHA1_Init junk =
     \<lparr>sha_state = [0x67452301, 0xEFCDAB89, 0x98BADCFE, 0x10325476, 0xC3D2E1F0], count0 = 0, count1 = 0, sha_buffer = junk\<rparr>"

text \<open>\<open>for ( ; i + 63 < len; i += 64)\<close>, on the data from \<open>i\<close> on.\<close>

function update_loop :: "u32 list \<Rightarrow> u8 list \<Rightarrow> u32 list \<times> u8 list" where
  "update_loop st rest =
     (if 64 \<le> length rest then update_loop (SHA1_Transform st (take 64 rest)) (drop 64 rest) else (st, rest))"
  by pat_completeness auto
termination by (relation "measure (length \<circ> snd)") auto

declare update_loop.simps [simp del]

definition sat_SHA1_Update :: "SHA1_CTX \<Rightarrow> u8 list \<Rightarrow> SHA1_CTX" where
  "sat_SHA1_Update context data =
     (let len = word_of_nat (length data) :: u64;
          j = unat (drop_bit 3 (count0 context) AND 63);
          c0 = count0 context + ucast (push_bit 3 len);
          c1 = (if (ucast c0 :: u64) < push_bit 3 len then count1 context + 1 else count1 context);
          c1 = c1 + ucast (drop_bit 29 len);
          context = context\<lparr>count0 := c0, count1 := c1\<rparr>
      in if 63 < j + length data then
           let i = 64 - j;
               buffer = take j (sha_buffer context) @ take i data;
               st = SHA1_Transform (sha_state context) buffer;
               (st, rest) = update_loop st (drop i data)
           in context\<lparr>sha_state := st, sha_buffer := rest @ drop (length rest) buffer\<rparr>
         else context\<lparr>sha_buffer := take j (sha_buffer context) @ data @ drop (j + length data) (sha_buffer context)\<rparr>)"

lemma update_one_count: "count0 (sat_SHA1_Update c [b]) = count0 c + 8"
  by (simp add: sat_SHA1_Update_def Let_def split: prod.split)

lemma unat_and_504: "unat (w AND 504) = 8 * (unat w div 8 mod 64)" for w :: u32
proof -
  have m: "(504 :: u32) = push_bit 3 (mask 6)" by (simp add: mask_eq_decr_exp)
  have "w AND 504 = push_bit 3 (take_bit 6 (drop_bit 3 w))"
    unfolding m by (rule bit_word_eqI) (auto simp: bit_simps)
  then have "unat (w AND 504) = 8 * unat (take_bit 6 (drop_bit 3 w)) mod 2 ^ 32"
    by (simp add: push_bit_eq_mult unat_word_ariths mult.commute)
  moreover have "unat (take_bit 6 (drop_bit 3 w)) = unat w div 8 mod 64"
    unfolding unat_take_bit_mod unat_drop_bit_eq by (simp add: drop_bit_eq_div)
  ultimately show ?thesis by simp
qed

lemma next_slot: "unat (w + 8) div 8 mod 64 = Suc (unat w div 8 mod 64) mod 64" for w :: u32
proof -
  have "unat (w + 8) = (unat w + 8) mod (8 * 536870912)" by (simp add: unat_word_ariths)
  then have "unat (w + 8) div 8 = (unat w + 8) div 8 mod 536870912" unfolding mod_mult2_eq by simp
  then have "unat (w + 8) div 8 mod 64 = (unat w + 8) div 8 mod 64" by (simp add: mod_mod_cancel)
  moreover have "(unat w + 8) div 8 = Suc (unat w div 8)" by simp
  ultimately show ?thesis by (simp add: mod_Suc_eq)
qed

lemma slot_distance:
  assumes "q < 64" "q \<noteq> 56"
  shows "(120 - Suc q mod 64) mod 64 < (120 - q) mod (64 :: nat)"
proof -
  have "\<forall>q \<in> set [0..<64]. q \<noteq> 56 \<longrightarrow> (120 - Suc q mod 64) mod 64 < (120 - q) mod (64 :: nat)" by code_simp
  then show ?thesis using assms by simp
qed

text \<open>\<open>while ((context->count[0] & 504) != 448)\<close>\<close>

function pad_loop :: "SHA1_CTX \<Rightarrow> SHA1_CTX" where
  "pad_loop context = (if count0 context AND 504 \<noteq> 448 then pad_loop (sat_SHA1_Update context [0]) else context)"
  by pat_completeness auto
termination
proof (relation "measure (\<lambda>c. (120 - unat (count0 c) div 8 mod 64) mod 64)")
  fix c :: SHA1_CTX
  assume "count0 c AND 504 \<noteq> 448"
  then have "unat (count0 c AND 504) \<noteq> 448" using word_unat_eq_iff[of "count0 c AND 504" 448] by simp
  then have "unat (count0 c) div 8 mod 64 \<noteq> 56" unfolding unat_and_504 by simp
  moreover have "unat (count0 c) div 8 mod 64 < 64" by simp
  ultimately show "(sat_SHA1_Update c [0], c) \<in> measure (\<lambda>c. (120 - unat (count0 c) div 8 mod 64) mod 64)"
    unfolding in_measure update_one_count next_slot using slot_distance by blast
qed simp

declare pad_loop.simps [simp del]

definition sat_SHA1_Final :: "SHA1_CTX \<Rightarrow> u8 list" where
  "sat_SHA1_Final context =
     (let finalcount = map (\<lambda>i. ucast (drop_bit ((3 - i mod 4) * 8) (if 4 \<le> i then count0 context else count1 context) AND 255)) [0..<8];
          context = sat_SHA1_Update context [128];
          context = pad_loop context;
          context = sat_SHA1_Update context finalcount
      in map (\<lambda>i. ucast (drop_bit ((3 - i mod 4) * 8) (sha_state context ! (i div 4)) AND 255)) [0..<20])"

section \<open>The digests\<close>

definition lsha1 :: "u8 list \<Rightarrow> u8 list \<Rightarrow> u8 list" where
  "lsha1 junk buffer = sat_SHA1_Final (sat_SHA1_Update (sat_SHA1_Init junk) buffer)"

definition xor_key :: "u8 list \<Rightarrow> u32 \<Rightarrow> u8 list" where
  "xor_key key x = concat (map (\<lambda>i. le_bytes 4 (le_word (take 4 (drop (4 * i) key)) XOR x)) [0..<16])"

definition lhmac_sha1 :: "(nat \<Rightarrow> u8 list) \<Rightarrow> u8 list \<Rightarrow> u8 list \<Rightarrow> u8 list" where
  "lhmac_sha1 junk key txt =
     (let rkey = (if 64 < length key
                  then let d = sat_SHA1_Final (sat_SHA1_Update (sat_SHA1_Init (junk 0)) key) in d @ replicate (64 - length d) 0
                  else key @ replicate (64 - length key) 0);
          rkey = xor_key rkey 0x5c5c5c5c;
          ctx1 = sat_SHA1_Update (sat_SHA1_Init (junk 1)) rkey;
          rkey = xor_key rkey (0x5c5c5c5c XOR 0x36363636);
          ctx2 = sat_SHA1_Update (sat_SHA1_Init (junk 2)) rkey;
          ctx2 = sat_SHA1_Update ctx2 txt;
          digest2 = sat_SHA1_Final ctx2;
          ctx1 = sat_SHA1_Update ctx1 digest2
      in sat_SHA1_Final ctx1)"

end
