(* ===== verification/Sha1_Spec.thy ===== *)
theory Sha1_Spec
  imports Crypt_Sha1
begin

text \<open>
  SHA-1 and HMAC as their standards define them, on whole messages, and the proof that the code computes them: the unrolled rounds with moving
  variables and a schedule kept in 16 words are the 80 rounds over a schedule of 80 words, and a context fed piece by piece hashes the message
  the pieces make up.
\<close>

section \<open>The standard\<close>

definition f_t :: "nat \<Rightarrow> u32 \<Rightarrow> u32 \<Rightarrow> u32 \<Rightarrow> u32" where
  "f_t t x y z =
     (if t < 20 then (x AND y) XOR (NOT x AND z)
      else if t < 40 then x XOR y XOR z
      else if t < 60 then (x AND y) XOR (x AND z) XOR (y AND z)
      else x XOR y XOR z)"

text \<open>The words of a block, extended by \<open>n\<close> words.\<close>

primrec schedule :: "u32 list \<Rightarrow> nat \<Rightarrow> u32 list" where
  "schedule M 0 = M"
| "schedule M (Suc n) =
     (let ws = schedule M n; t = 16 + n in ws @ [rol (ws ! (t - 3) XOR ws ! (t - 8) XOR ws ! (t - 14) XOR ws ! (t - 16)) 1])"

type_synonym chain = "u32 \<times> u32 \<times> u32 \<times> u32 \<times> u32"

definition comp_step :: "u32 list \<Rightarrow> nat \<Rightarrow> chain \<Rightarrow> chain" where
  "comp_step W t q =
     (let (a, b, c, d, e) = q in (rol a 5 + f_t t b c d + e + round_const t + W ! t, a, rol b 30, c, d))"

definition block_words :: "u8 list \<Rightarrow> u32 list" where
  "block_words block = map (\<lambda>i. GET_UINT32 block (4 * i)) [0..<16]"

definition sha1_compress :: "u32 list \<Rightarrow> u8 list \<Rightarrow> u32 list" where
  "sha1_compress H block =
     (let (a, b, c, d, e) = fold (comp_step (schedule (block_words block) 64)) [0..<80] (H ! 0, H ! 1, H ! 2, H ! 3, H ! 4)
      in [H ! 0 + a, H ! 1 + b, H ! 2 + c, H ! 3 + d, H ! 4 + e])"

function sha1_blocks :: "u32 list \<Rightarrow> u8 list \<Rightarrow> u32 list" where
  "sha1_blocks H m = (if 64 \<le> length m then sha1_blocks (sha1_compress H (take 64 m)) (drop 64 m) else H)"
  by pat_completeness auto
termination by (relation "measure (length \<circ> snd)") auto

declare sha1_blocks.simps [simp del]

definition H0 :: "u32 list" where
  "H0 = [0x67452301, 0xEFCDAB89, 0x98BADCFE, 0x10325476, 0xC3D2E1F0]"

text \<open>A one bit, zeros up to 8 bytes before the end of a block, and the number of bits of the message.\<close>

definition sha1_pad :: "u8 list \<Rightarrow> u8 list" where
  "sha1_pad m =
     m @ [0x80] @ replicate ((119 - length m mod 64) mod 64) 0
       @ PUT_UINT32 (word_of_nat (8 * length m div 2 ^ 32)) @ PUT_UINT32 (word_of_nat (8 * length m))"

definition sha1 :: "u8 list \<Rightarrow> u8 list" where
  "sha1 m = concat (map PUT_UINT32 (sha1_blocks H0 (sha1_pad m)))"

definition hmac_sha1 :: "u8 list \<Rightarrow> u8 list \<Rightarrow> u8 list" where
  "hmac_sha1 K m =
     (let K = (if 64 < length K then sha1 K else K); K = K @ replicate (64 - length K) 0
      in sha1 (map (\<lambda>b. b XOR 0x5c) K @ sha1 (map (\<lambda>b. b XOR 0x36) K @ m)))"

section \<open>The schedule in 16 words\<close>

lemma length_schedule: "length M = 16 \<Longrightarrow> length (schedule M n) = 16 + n"
  by (induction n) (simp_all add: Let_def)

lemma schedule_prefix: "length M = 16 \<Longrightarrow> i < 16 + n \<Longrightarrow> schedule M (n + k) ! i = schedule M n ! i"
  by (induction k) (simp_all add: Let_def nth_append length_schedule)

lemma schedule_first: "length M = 16 \<Longrightarrow> i < 16 \<Longrightarrow> schedule M n ! i = M ! i"
  using schedule_prefix[of M i 0 n] by simp

lemma schedule_next:
  assumes "length M = 16" "16 \<le> t" "t < 16 + n"
  shows "schedule M n ! t = rol (schedule M n ! (t - 3) XOR schedule M n ! (t - 8) XOR schedule M n ! (t - 14) XOR schedule M n ! (t - 16)) 1"
proof -
  obtain m k where t: "t = 16 + m" "n = Suc m + k" using assms by (metis add_less_cancel_left le_Suc_ex Suc_leI)
  have p: "schedule M n ! i = schedule M m ! i" if "i < 16 + m" for i
    using schedule_prefix[OF assms(1) that, of "Suc k"] t by simp
  have "schedule M n ! t = schedule M (Suc m) ! t" unfolding t(2) using schedule_prefix[OF assms(1), of t "Suc m" k] t by simp
  also have "\<dots> = rol (schedule M m ! (t - 3) XOR schedule M m ! (t - 8) XOR schedule M m ! (t - 14) XOR schedule M m ! (t - 16)) 1"
    using t by (simp add: Let_def nth_append length_schedule assms(1))
  finally show ?thesis using p t by simp
qed

text \<open>What the 16 words hold before step \<open>i\<close>.\<close>

definition holds_schedule :: "u32 list \<Rightarrow> u32 list \<Rightarrow> nat \<Rightarrow> u32 list \<Rightarrow> bool" where
  "holds_schedule raw W i l \<longleftrightarrow>
     length l = 16 \<and> (\<forall>t. t < i \<and> i \<le> t + 16 \<longrightarrow> l ! (t mod 16) = W ! t) \<and> (\<forall>t. i \<le> t \<and> t < 16 \<longrightarrow> l ! t = raw ! t)"

lemma mod16_neq: "t < i \<Longrightarrow> i < t + 16 \<Longrightarrow> t mod 16 \<noteq> i mod (16 :: nat)"
  using ring_index_neq[of 0 "i - t" 16 t] by simp

lemma holds_schedule_next:
  assumes "holds_schedule raw W i l" "l' = l[i mod 16 := W ! i]"
  shows "holds_schedule raw W (Suc i) l'"
  using assms unfolding holds_schedule_def
  by (auto simp: nth_list_update less_Suc_eq dest: mod16_neq)

lemma blk_schedule:
  assumes "holds_schedule raw W i l" "16 \<le> i"
    "W ! i = rol (W ! (i - 3) XOR W ! (i - 8) XOR W ! (i - 14) XOR W ! (i - 16)) 1"
  shows "blk i l = l[i mod 16 := W ! i]"
proof -
  from assms(2) obtain j where i: "i = j + 16" by (metis add.commute le_Suc_ex)
  have "(i + 13) mod 16 = (i - 3) mod 16" "(i + 8) mod 16 = (i - 8) mod 16" "(i + 2) mod 16 = (i - 14) mod 16"
    "i mod 16 = (i - 16) mod 16"
    using mod_add_self2[of "j + 13" 16] mod_add_self2[of "j + 8" 16] mod_add_self2[of "j + 2" 16] by (simp_all add: i add.commute)
  moreover have "l ! ((i - k) mod 16) = W ! (i - k)" if "k \<in> {3, 8, 14, 16}" for k
    using assms(1,2) that unfolding holds_schedule_def by auto
  ultimately show ?thesis using assms(3) by (simp add: blk_def)
qed

lemma swap_bytes:
  fixes a b c d :: u8
  defines "v \<equiv> le_word [a, b, c, d]"
  shows "(rol v 24 AND 0xFF00FF00) OR (rol v 8 AND 0x00FF00FF)
    = push_bit 24 (ucast a) OR push_bit 16 (ucast b) OR push_bit 8 (ucast c) OR (ucast d :: u32)"
proof -
  have m: "(0xFF00FF00 :: u32) = push_bit 24 (mask 8) OR push_bit 8 (mask 8)" "(0x00FF00FF :: u32) = push_bit 16 (mask 8) OR mask 8"
    by (simp_all add: mask_eq_decr_exp)
  have o: "8 \<le> n \<Longrightarrow> bit x n = False" for x :: u8 and n using bit_u8[of x n] by auto
  show ?thesis
  proof (rule bit_word_eqI)
    fix n
    assume "n < LENGTH(32)"
    then have "n div 8 < 4" by simp
    define k where "k = n mod 8"
    have k: "k < 8" by (simp add: k_def)
    have "n = k + 8 * (n div 8)" by (simp add: k_def)
    moreover from \<open>n div 8 < 4\<close> have "n div 8 = 0 \<or> n div 8 = 1 \<or> n div 8 = 2 \<or> n div 8 = 3" by linarith
    ultimately consider "n = k" | "n = k + 8" | "n = k + 16" | "n = k + 24" by fastforce
    then show "bit ((rol v 24 AND 0xFF00FF00) OR (rol v 8 AND 0x00FF00FF)) n
      = bit (push_bit 24 (ucast a) OR push_bit 16 (ucast b) OR push_bit 8 (ucast c) OR (ucast d :: u32)) n"
      unfolding rol_def v_def m
      by cases (use k in \<open>simp_all add: bit_simps o\<close>)
  qed
qed

lemma blk0_schedule:
  assumes "length b = 64" "i < 16" "l ! i = le_word (take 4 (drop (4 * i) b))"
  shows "blk0 i l = l[i := GET_UINT32 b (4 * i)]"
proof -
  have "take 4 (drop (4 * i) b) = map ((!) (drop (4 * i) b)) [0..<4]"
    using assms by (intro nth_equalityI) auto
  then have "take 4 (drop (4 * i) b) = [b ! (4 * i), b ! (4 * i + 1), b ! (4 * i + 2), b ! (4 * i + 3)]"
    using assms by (simp add: eval_nat_numeral upt_conv_Cons)
  then show ?thesis using assms(3) by (simp only: blk0_def swap_bytes GET_UINT32_def)
qed

section \<open>The unrolled rounds\<close>

definition roles :: "nat \<Rightarrow> u32 list \<Rightarrow> chain" where
  "roles i r = (r ! arg i 0, r ! arg i 1, r ! arg i 2, r ! arg i 3, r ! arg i 4)"

lemma arg_less: "arg i j < 5"
  by (simp add: arg_def)

lemma arg_neq: "j < k \<Longrightarrow> k < 5 \<Longrightarrow> arg i j \<noteq> arg i k"
  unfolding arg_def by (rule ring_index_neq)

lemma arg_next: "i < 80 \<Longrightarrow> arg (Suc i) 0 = arg i 4" "i < 80 \<Longrightarrow> arg (Suc i) (Suc j) = arg i j"
proof -
  assume "i < 80"
  then obtain k where "80 - i = Suc k" "80 - Suc i = k" by (metis Suc_diff_Suc)
  then show "arg (Suc i) 0 = arg i 4" "arg (Suc i) (Suc j) = arg i j" by (simp_all add: arg_def)
qed

lemma mix_f: "mix i w x y = f_t i w x y"
  unfolding mix_def f_t_def by (auto intro!: bit_word_eqI simp: bit_simps)

lemma sha_step_simulates:
  assumes "i < 80" "length r = 5" "l' = (if i < 16 then blk0 i l else blk i l)" "l' ! (i mod 16) = W ! i" "sha_step i (r, l) = (r', m)"
  shows "roles (Suc i) r' = comp_step W i (roles i r)" "length r' = 5" "m = l'"
proof -
  have n: "arg i 0 \<noteq> arg i 1" "arg i 0 \<noteq> arg i 4" "arg i 1 \<noteq> arg i 2" "arg i 1 \<noteq> arg i 3" "arg i 1 \<noteq> arg i 4"
    "arg i 2 \<noteq> arg i 4" "arg i 3 \<noteq> arg i 4" by (rule arg_neq; simp)+
  have "roles (Suc i) r' = (r' ! arg i 4, r' ! arg i 0, r' ! arg i 1, r' ! arg i 2, r' ! arg i 3)"
    using arg_next[OF assms(1)] by (simp add: roles_def eval_nat_numeral)
  moreover have "m = l'" "r' = r[arg i 4 := r ! arg i 4 + (mix i (r ! arg i 1) (r ! arg i 2) (r ! arg i 3) + W ! i + round_const i + rol (r ! arg i 0) 5),
      arg i 1 := rol (r ! arg i 1) 30]"
    using assms(3-5) n by (auto simp: sha_step_def Let_def)
  ultimately show "roles (Suc i) r' = comp_step W i (roles i r)" "length r' = 5" "m = l'"
    using assms(2) n n[symmetric] arg_less[of i] by (simp_all add: comp_step_def roles_def mix_f nth_list_update algebra_simps)
qed

lemma rounds_simulate:
  fixes b :: "u8 list" and st :: "u32 list"
  defines "raw \<equiv> map (\<lambda>i. le_word (take 4 (drop (4 * i) b))) [0..<16]" and "W \<equiv> schedule (block_words b) 64"
  assumes "length b = 64" "length st = 5"
  shows "i \<le> 80 \<Longrightarrow> \<exists>r l. fold sha_step [0..<i] (st, raw) = (r, l) \<and> length r = 5
    \<and> roles i r = fold (comp_step W) [0..<i] (st ! 0, st ! 1, st ! 2, st ! 3, st ! 4) \<and> holds_schedule raw W i l"
proof (induction i)
  case 0
  then show ?case using assms(4) by (simp add: roles_def arg_def holds_schedule_def raw_def)
next
  case (Suc i)
  then obtain r l where r: "fold sha_step [0..<i] (st, raw) = (r, l)" "length r = 5"
    "roles i r = fold (comp_step W) [0..<i] (st ! 0, st ! 1, st ! 2, st ! 3, st ! 4)" and l: "holds_schedule raw W i l" by auto
  define l' where "l' = (if i < 16 then blk0 i l else blk i l)"
  have bw: "length (block_words b) = 16" by (simp add: block_words_def)
  have "l' = l[i mod 16 := W ! i]"
  proof (cases "i < 16")
    case True
    then have "l ! i = le_word (take 4 (drop (4 * i) b))" using l by (simp add: holds_schedule_def raw_def)
    moreover have "W ! i = GET_UINT32 b (4 * i)" using True bw by (simp add: W_def schedule_first block_words_def)
    ultimately show ?thesis using True blk0_schedule[OF assms(3) True] by (simp add: l'_def)
  next
    case False
    then show ?thesis using blk_schedule[OF l] schedule_next[OF bw, of i 64] Suc(2) by (simp add: l'_def W_def)
  qed
  moreover from this l have "l' ! (i mod 16) = W ! i" by (simp add: holds_schedule_def)
  moreover obtain r' m where "sha_step i (r, l) = (r', m)" by fastforce
  ultimately show ?case
    using sha_step_simulates[OF _ r(2) l'_def, of W r' m] holds_schedule_next[OF l, of l'] r Suc(2) by simp
qed

lemma transform_is_compress:
  assumes "length b = 64" "length st = 5"
  shows "SHA1_Transform st b = sha1_compress st b"
proof -
  from rounds_simulate[OF assms, of 80] obtain r l where
    r: "fold sha_step [0..<80] (st, map (\<lambda>i. le_word (take 4 (drop (4 * i) b))) [0..<16]) = (r, l)"
    "roles 80 r = fold (comp_step (schedule (block_words b) 64)) [0..<80] (st ! 0, st ! 1, st ! 2, st ! 3, st ! 4)" by blast
  have "roles 80 r = (r ! 0, r ! 1, r ! 2, r ! 3, r ! 4)" by (simp add: roles_def arg_def numeral_2_eq_2)
  then show ?thesis unfolding SHA1_Transform_def sha1_compress_def Let_def r(1) r(2)[symmetric]
    by (simp add: upt_conv_Cons eval_nat_numeral)
qed

lemma length_compress [simp]: "length (sha1_compress st b) = 5"
  by (simp add: sha1_compress_def split: prod.split)

section \<open>A message in pieces\<close>

lemma length_sha1_blocks: "length H = 5 \<Longrightarrow> length (sha1_blocks H m) = 5"
proof (induction H m rule: sha1_blocks.induct)
  case (1 H m)
  then show ?case by (cases "64 \<le> length m") (simp_all add: sha1_blocks.simps[of H m])
qed

lemma sha1_blocks_short: "length m < 64 \<Longrightarrow> sha1_blocks H m = H"
  by (simp add: sha1_blocks.simps)

lemma sha1_blocks_append: "64 dvd length a \<Longrightarrow> sha1_blocks H (a @ b) = sha1_blocks (sha1_blocks H a) b"
proof (induction H a rule: sha1_blocks.induct)
  case (1 H a)
  show ?case
  proof (cases "64 \<le> length a")
    case True
    then have "64 dvd length (drop 64 a)" using 1(2) by (simp add: dvd_diff_nat)
    then show ?thesis using 1(1) True by (simp add: sha1_blocks.simps[of H "a @ b"] sha1_blocks.simps[of H a])
  next
    case False
    then have "a = []" using 1(2) by (auto dest: dvd_imp_le)
    then show ?thesis by (simp add: sha1_blocks_short)
  qed
qed

lemma update_loop_blocks:
  "length st = 5 \<Longrightarrow> \<exists>a b. rest = a @ b \<and> 64 dvd length a \<and> length b < 64 \<and> update_loop st rest = (sha1_blocks st a, b)"
proof (induction st rest rule: update_loop.induct)
  case (1 st rest)
  show ?case
  proof (cases "64 \<le> length rest")
    case True
    let ?st = "sha1_compress st (take 64 rest)"
    have t: "SHA1_Transform st (take 64 rest) = ?st" using True 1(2) by (simp add: transform_is_compress)
    then obtain a b where ab: "drop 64 rest = a @ b" "64 dvd length a" "length b < 64" "update_loop ?st (drop 64 rest) = (sha1_blocks ?st a, b)"
      using 1(1)[OF True] by auto
    have "rest = (take 64 rest @ a) @ b" using ab(1) by (metis append.assoc append_take_drop_id)
    moreover have "64 dvd length (take 64 rest @ a)" using True ab(2) by simp
    moreover have "sha1_blocks st (take 64 rest @ a) = sha1_blocks ?st a" using True by (simp add: sha1_blocks.simps[of st "take 64 rest @ a"])
    moreover have "update_loop st rest = (sha1_blocks ?st a, b)" using True ab(4) t by (simp add: update_loop.simps[of st rest])
    ultimately show ?thesis using ab(3) by metis
  next
    case False
    then show ?thesis by (intro exI[of _ "[]"] exI[of _ rest]) (simp add: update_loop.simps[of st rest] sha1_blocks_short)
  qed
qed

text \<open>A context that has been fed the message \<open>m\<close>.\<close>

definition absorbed :: "SHA1_CTX \<Rightarrow> u8 list \<Rightarrow> bool" where
  "absorbed c m \<longleftrightarrow>
     (\<exists>whole part. m = whole @ part \<and> 64 dvd length whole \<and> length part < 64
        \<and> sha_state c = sha1_blocks H0 whole \<and> length (sha_buffer c) = 64 \<and> take (length part) (sha_buffer c) = part)
     \<and> count0 c = word_of_nat (8 * length m) \<and> count1 c = word_of_nat (8 * length m div 2 ^ 32)"

lemma absorbed_Init: "length junk = 64 \<Longrightarrow> absorbed (sat_SHA1_Init junk) []"
  by (simp add: absorbed_def sat_SHA1_Init_def sha1_blocks_short H0_def)

lemma ucast_of_nat_32: "ucast (word_of_nat n :: u64) = (word_of_nat n :: u32)"
  by (rule bit_word_eqI) (simp add: bit_simps)

lemma carry:
  fixes a b M :: nat
  assumes "b < M"
  shows "(a + b) div M = a div M + (if (a + b) mod M < b then 1 else 0)"
proof -
  define q r where "q = a div M" and "r = a mod M"
  have r: "r < M" using assms by (simp add: r_def)
  have e: "a + b = r + b + q * M" by (simp add: q_def r_def)
  show ?thesis
  proof (cases "r + b < M")
    case True
    then have "(a + b) div M = q" "(a + b) mod M = r + b" unfolding e by simp_all
    then show ?thesis by (simp add: q_def)
  next
    case False
    then have "a + b = (r + b - M) + (q + 1) * M" using e by simp
    moreover have "r + b - M < M" using r assms by simp
    ultimately have "(a + b) div M = q + 1" "(a + b) mod M = r + b - M" by (metis add.commute div_less div_mult_self3 add_0_right gr_implies_not0, metis mod_less mod_mult_self1)
    then show ?thesis using False r by (simp add: q_def)
  qed
qed

lemma update_counts:
  assumes "count0 c = word_of_nat (8 * n)" "count1 c = word_of_nat (8 * n div 2 ^ 32)" "length d < 2 ^ 29"
  shows "count0 (sat_SHA1_Update c d) = word_of_nat (8 * (n + length d))"
    "count1 (sat_SHA1_Update c d) = word_of_nat (8 * (n + length d) div 2 ^ 32)"
proof -
  let ?len = "word_of_nat (length d) :: u64" and ?c0 = "word_of_nat (8 * n + 8 * length d) :: u32"
  have p: "push_bit 3 ?len = word_of_nat (8 * length d)" by (simp add: push_bit_eq_mult mult.commute)
  have c0: "count0 c + ucast (push_bit 3 ?len) = ?c0" unfolding p ucast_of_nat_32 assms(1) by simp
  have "unat ?len = length d" using assms(3) by (simp add: unat_of_nat)
  then have "unat (drop_bit 29 ?len) = 0" unfolding unat_drop_bit_eq using assms(3) by (simp add: drop_bit_eq_div)
  then have h: "drop_bit 29 ?len = 0" by (metis unat_0 word_unat_eq_iff)
  have "unat (ucast (word_of_nat N :: u32) :: u64) = N mod 2 ^ 32" for N
    by (simp add: unsigned_ucast_eq unat_of_nat take_bit_eq_mod)
  then have "unat (ucast ?c0 :: u64) = (8 * n + 8 * length d) mod 2 ^ 32" by blast
  moreover have "unat (word_of_nat (8 * length d) :: u64) = 8 * length d"
    unfolding unat_of_nat using assms(3) by simp
  ultimately have t: "(ucast ?c0 :: u64) < push_bit 3 ?len \<longleftrightarrow> (8 * n + 8 * length d) mod 2 ^ 32 < 8 * length d"
    unfolding p word_less_nat_alt by simp
  have k: "8 * (n + length d) div 2 ^ 32 = 8 * n div 2 ^ 32 + (if (8 * n + 8 * length d) mod 2 ^ 32 < 8 * length d then 1 else 0)"
    using carry[of "8 * length d" "2 ^ 32" "8 * n"] assms(3) by (simp add: distrib_left)
  show "count0 (sat_SHA1_Update c d) = word_of_nat (8 * (n + length d))"
    unfolding sat_SHA1_Update_def Let_def c0 by (simp add: distrib_left split: prod.split)
  show "count1 (sat_SHA1_Update c d) = word_of_nat (8 * (n + length d) div 2 ^ 32)"
    unfolding sat_SHA1_Update_def Let_def c0 t h k assms(2) by (simp split: prod.split)
qed

lemma update_slot: "count0 c = word_of_nat (8 * n) \<Longrightarrow> unat (drop_bit 3 (count0 c) AND 63) = n mod 64"
proof -
  assume c: "count0 c = word_of_nat (8 * n)"
  have "(63 :: u32) = mask 6" by (simp add: mask_eq_decr_exp)
  then have "unat (drop_bit 3 (count0 c) AND 63) = unat (count0 c) div 8 mod 64"
    by (simp only: unat_and_mask unat_drop_bit_eq) (simp add: drop_bit_eq_div)
  moreover have "unat (count0 c) = 8 * n mod (8 * 536870912)" unfolding c unat_of_nat by simp
  then have "unat (count0 c) = 8 * (n mod 536870912)" by (simp only: mult_mod_right[symmetric])
  ultimately show ?thesis by (simp add: mod_mod_cancel)
qed

lemma update_absorbs:
  assumes "absorbed c m" "length d < 2 ^ 29"
  shows "absorbed (sat_SHA1_Update c d) (m @ d)"
proof -
  from assms(1) obtain whole part where m: "m = whole @ part" "64 dvd length whole" "length part < 64"
    and b: "sha_state c = sha1_blocks H0 whole" "length (sha_buffer c) = 64" "take (length part) (sha_buffer c) = part"
    and n: "count0 c = word_of_nat (8 * length m)" "count1 c = word_of_nat (8 * length m div 2 ^ 32)"
    unfolding absorbed_def by blast
  have j: "unat (drop_bit 3 (count0 c) AND 63) = length part"
    using update_slot[OF n(1)] m by (auto simp: mod_add_eq elim!: dvdE)
  have "\<exists>w p. m @ d = w @ p \<and> 64 dvd length w \<and> length p < 64 \<and> sha_state (sat_SHA1_Update c d) = sha1_blocks H0 w
    \<and> length (sha_buffer (sat_SHA1_Update c d)) = 64 \<and> take (length p) (sha_buffer (sat_SHA1_Update c d)) = p"
  proof (cases "63 < length part + length d")
    case True
    let ?i = "64 - length part" and ?st = "sha1_blocks H0 whole"
    let ?buffer = "part @ take ?i d"
    have lb: "length ?buffer = 64" using True m(3) by simp
    have l5: "length ?st = 5" by (rule length_sha1_blocks) (simp add: H0_def)
    obtain x y where xy: "drop ?i d = x @ y" "64 dvd length x" "length y < 64"
      "update_loop (sha1_compress ?st ?buffer) (drop ?i d) = (sha1_blocks (sha1_compress ?st ?buffer) x, y)"
      using update_loop_blocks[of "sha1_compress ?st ?buffer" "drop ?i d"] by auto
    have u: "sha_state (sat_SHA1_Update c d) = sha1_blocks (sha1_compress ?st ?buffer) x"
      "sha_buffer (sat_SHA1_Update c d) = y @ drop (length y) ?buffer"
      unfolding sat_SHA1_Update_def Let_def j using True b xy(4) transform_is_compress[OF lb l5] by simp_all
    have "m @ d = (whole @ ?buffer @ x) @ y" using xy(1) m(1) by (metis append.assoc append_take_drop_id)
    moreover have "sha1_blocks H0 (whole @ ?buffer @ x) = sha1_blocks (sha1_compress ?st ?buffer) x"
      using lb by (simp only: sha1_blocks_append[OF m(2)]) (simp add: sha1_blocks.simps[of ?st "part @ take ?i d @ x"])
    moreover have "64 dvd length (whole @ ?buffer @ x)" using m(2) lb xy(2) by simp
    moreover have "length (y @ drop (length y) ?buffer) = 64" using lb xy(3) by simp
    ultimately show ?thesis using u xy(3) by (metis append_eq_conv_conj)
  next
    case False
    have u: "sha_state (sat_SHA1_Update c d) = sha1_blocks H0 whole"
      "sha_buffer (sat_SHA1_Update c d) = part @ d @ drop (length part + length d) (sha_buffer c)"
      unfolding sat_SHA1_Update_def Let_def j using False b by simp_all
    show ?thesis using False u m b by (intro exI[of _ whole] exI[of _ "part @ d"]) simp
  qed
  then show ?thesis using update_counts[OF n assms(2)] by (simp add: absorbed_def)
qed

section \<open>Padding and digest\<close>

lemma slots:
  assumes "q < 64"
  shows "q \<noteq> 56 \<Longrightarrow> (120 - q) mod 64 = Suc ((120 - Suc q mod 64) mod (64 :: nat))" "(120 - Suc q mod 64) mod 64 = (119 - q) mod (64 :: nat)"
proof -
  have "\<forall>q \<in> set [0..<64]. (q \<noteq> 56 \<longrightarrow> (120 - q) mod 64 = Suc ((120 - Suc q mod 64) mod (64 :: nat))) \<and> (120 - Suc q mod 64) mod 64 = (119 - q) mod 64"
    by code_simp
  then show "q \<noteq> 56 \<Longrightarrow> (120 - q) mod 64 = Suc ((120 - Suc q mod 64) mod (64 :: nat))" "(120 - Suc q mod 64) mod 64 = (119 - q) mod (64 :: nat)"
    using assms by auto
qed

lemma pad_done_iff: "count0 c = word_of_nat (8 * n) \<Longrightarrow> count0 c AND 504 = 448 \<longleftrightarrow> n mod 64 = 56"
proof -
  assume c: "count0 c = word_of_nat (8 * n)"
  have "unat (count0 c) = 8 * n mod (8 * 536870912)" unfolding c unat_of_nat by simp
  then have "unat (count0 c) div 8 mod 64 = n mod 64" by (simp only: mult_mod_right[symmetric]) (simp add: mod_mod_cancel)
  then have "unat (count0 c AND 504) = 8 * (n mod 64)" unfolding unat_and_504 by simp
  then show ?thesis using word_unat_eq_iff[of "count0 c AND 504" 448] by simp
qed

lemma pad_loop_absorbs: "absorbed c m \<Longrightarrow> absorbed (pad_loop c) (m @ replicate ((120 - length m mod 64) mod 64) 0)"
proof (induction c arbitrary: m rule: pad_loop.induct)
  case (1 c)
  have "count0 c = word_of_nat (8 * length m)" using 1(2) unfolding absorbed_def by blast
  from pad_done_iff[OF this] have d: "count0 c AND 504 = 448 \<longleftrightarrow> length m mod 64 = 56" .
  show ?case
  proof (cases "length m mod 64 = 56")
    case True
    then have "pad_loop c = c" using d by (simp add: pad_loop.simps[of c])
    then show ?thesis using 1(2) True by simp
  next
    case False
    then have c: "count0 c AND 504 \<noteq> 448" using d by simp
    have "absorbed (pad_loop (sat_SHA1_Update c [0])) ((m @ [0]) @ replicate ((120 - length (m @ [0]) mod 64) mod 64) 0)"
      by (rule 1(1)[OF c]) (rule update_absorbs[OF 1(2)], simp)
    moreover have "(120 - length m mod 64) mod 64 = Suc ((120 - length (m @ [0]) mod 64) mod 64)"
      using slots(1)[of "length m mod 64"] False by (simp add: mod_Suc_eq)
    ultimately show ?thesis using d False by (simp add: pad_loop.simps[of c])
  qed
qed

lemma ucast_and_255: "ucast (w AND 255) = (ucast w :: u8)" for w :: u32
proof -
  have m: "(255 :: u32) = mask 8" by (simp add: mask_eq_decr_exp)
  show ?thesis unfolding m by (rule bit_word_eqI) (simp add: bit_simps)
qed

lemma sha1_pad_whole: "64 dvd length (sha1_pad m)"
proof -
  define q where "q = length m mod 64"
  have "\<forall>q \<in> set [0..<64]. 64 dvd q + 9 + (119 - q) mod (64 :: nat)" by code_simp
  then have "64 dvd q + 9 + (119 - q) mod 64" by (simp add: q_def)
  moreover have "length (sha1_pad m) = 64 * (length m div 64) + (q + 9 + (119 - q) mod 64)"
    unfolding q_def by (simp add: sha1_pad_def)
  ultimately show ?thesis by simp
qed

lemma final_digest:
  assumes "absorbed c m"
  shows "sat_SHA1_Final c = concat (map PUT_UINT32 (sha1_blocks H0 (sha1_pad m)))"
proof -
  define fc where "fc = PUT_UINT32 (count1 c) @ PUT_UINT32 (count0 c)"
  have fc: "map (\<lambda>i. ucast (drop_bit ((3 - i mod 4) * 8) (if 4 \<le> i then count0 c else count1 c) AND 255)) [0..<8] = fc"
    by (simp add: fc_def PUT_UINT32_def ucast_and_255 upt_conv_Cons)
  define e where "e = sat_SHA1_Update (pad_loop (sat_SHA1_Update c [128])) fc"
  have "absorbed (pad_loop (sat_SHA1_Update c [128])) ((m @ [128]) @ replicate ((120 - length (m @ [128]) mod 64) mod 64) 0)"
    by (rule pad_loop_absorbs) (rule update_absorbs[OF assms], simp)
  moreover have "(120 - length (m @ [128]) mod 64) mod 64 = (119 - length m mod 64) mod 64"
    using slots(2)[of "length m mod 64"] by (simp add: mod_Suc_eq)
  moreover have "length fc < 2 ^ 29" by (simp add: fc_def)
  ultimately have "absorbed e (((m @ [128]) @ replicate ((119 - length m mod 64) mod 64) 0) @ fc)"
    using update_absorbs unfolding e_def by metis
  moreover have "((m @ [128]) @ replicate ((119 - length m mod 64) mod 64) 0) @ fc = sha1_pad m"
    using assms by (simp add: sha1_pad_def fc_def absorbed_def)
  ultimately obtain w p where w: "sha1_pad m = w @ p" "64 dvd length w" "length p < 64" "sha_state e = sha1_blocks H0 w"
    unfolding absorbed_def by auto
  have "p = []" using sha1_pad_whole[of m] w(1-3) by (auto simp: dvd_add_right_iff dest: dvd_imp_le)
  then have st: "sha_state e = sha1_blocks H0 (sha1_pad m)" using w by simp
  have l5: "length (sha_state e) = 5" unfolding st by (rule length_sha1_blocks) (simp add: H0_def)
  have "sat_SHA1_Final c = map (\<lambda>i. ucast (drop_bit ((3 - i mod 4) * 8) (sha_state e ! (i div 4)) AND 255)) [0..<20]"
    unfolding sat_SHA1_Final_def Let_def fc e_def by (rule refl)
  also have "\<dots> = concat (map PUT_UINT32 (sha_state e))"
  proof -
    from l5 obtain s0 s1 s2 s3 s4 where "sha_state e = [s0, s1, s2, s3, s4]" by (auto simp: eval_nat_numeral length_Suc_conv)
    then show ?thesis by (simp add: PUT_UINT32_def ucast_and_255 upt_conv_Cons)
  qed
  finally show ?thesis unfolding st .
qed

lemma length_sha1: "length (sha1 m) = 20"
proof -
  have "length (sha1_blocks H0 (sha1_pad m)) = 5" by (rule length_sha1_blocks) (simp add: H0_def)
  then show ?thesis unfolding sha1_def by (auto simp: eval_nat_numeral length_Suc_conv PUT_UINT32_def)
qed

lemma absorb_first: "length junk = 64 \<Longrightarrow> length d < 2 ^ 29 \<Longrightarrow> absorbed (sat_SHA1_Update (sat_SHA1_Init junk) d) d"
  using update_absorbs[OF absorbed_Init, of junk d] by simp

lemma final_sha1: "absorbed c m \<Longrightarrow> sat_SHA1_Final c = sha1 m"
  by (simp add: final_digest sha1_def)

text \<open>
  C13. The digest of a text shorter than 512 MB is its SHA-1 digest as the standard defines it, whatever the buffer of the context held before.
\<close>

theorem lsha1_correct:
  assumes "length junk = 64" "length m < 2 ^ 29"
  shows "lsha1 junk m = sha1 m"
  unfolding lsha1_def by (rule final_sha1[OF absorb_first[OF assms]])

theorem lsha1_correct_witness: "lsha1 (replicate 64 7) [97, 98, 99] = sha1 [97, 98, 99]"
  using lsha1_correct[of "replicate 64 7" "[97, 98, 99]"] by simp

text \<open>
  From 512 MB on the number of bits is counted wrong: the low word is compared, as 64 bits, with a number of bits that no longer fits in 32, so the
  carry is added a second time.
\<close>

lemma update_count_double:
  assumes "length d = 2 ^ 29"
  shows "count1 (sat_SHA1_Update (sat_SHA1_Init junk) d) = 2"
  unfolding sat_SHA1_Update_def Let_def assms sat_SHA1_Init_def by (simp split: prod.split)

section \<open>Keyed digest\<close>

lemma concat_fours: "length key = 4 * n \<Longrightarrow> concat (map (\<lambda>i. take 4 (drop (4 * i) key)) [0..<n]) = key"
proof (induction n arbitrary: key)
  case (Suc n)
  have "concat (map (\<lambda>i. take 4 (drop (4 * i) (drop 4 key))) [0..<n]) = drop 4 key"
    using Suc.IH[of "drop 4 key"] Suc.prems by simp
  then show ?case by (simp add: map_upt_shift add.commute del: upt_Suc)
qed simp

lemma xor_four:
  assumes "length g = 4" "length h = 4" "\<forall>j < 4. h ! j = b"
  shows "le_bytes 4 (le_word g XOR le_word h :: u32) = map (\<lambda>x. x XOR b) g"
proof (rule nth_equalityI)
  fix j
  assume "j < length (le_bytes 4 (le_word g XOR le_word h :: u32))"
  then have j: "j < 4" by simp
  show "le_bytes 4 (le_word g XOR le_word h :: u32) ! j = map (\<lambda>x. x XOR b) g ! j"
    by (rule bit_word_eqI) (use j assms in \<open>auto simp: nth_le_bytes bit_simps bit_le_word\<close>)
qed (use assms in simp)

lemma xor_key_bytes:
  assumes "length key = 64" "length h = 4" "\<forall>j < 4. h ! j = b"
  shows "xor_key key (le_word h) = map (\<lambda>x. x XOR b) key"
proof -
  have "xor_key key (le_word h) = concat (map (\<lambda>i. map (\<lambda>x. x XOR b) (take 4 (drop (4 * i) key))) [0..<16])"
    unfolding xor_key_def using assms by (intro arg_cong[of _ _ concat] map_cong) (auto simp: xor_four)
  also have "\<dots> = map (\<lambda>x. x XOR b) (concat (map (\<lambda>i. take 4 (drop (4 * i) key)) [0..<16]))"
    by (simp add: map_concat comp_def)
  also have "\<dots> = map (\<lambda>x. x XOR b) key" using concat_fours[of key 16] assms by simp
  finally show ?thesis .
qed

lemma four_same: "length [b, b, b, b] = 4" "\<forall>j < 4. [b, b, b, b] ! j = b"
  by (auto simp: less_Suc_eq eval_nat_numeral)

text \<open>
  The keyed digest is HMAC with SHA-1, for keys and texts shorter than 512 MB, also for keys longer than a block.
\<close>

theorem lhmac_sha1_correct:
  assumes "\<forall>i. length (junk i) = 64" "length key < 2 ^ 29" "length txt < 2 ^ 29"
  shows "lhmac_sha1 junk key txt = hmac_sha1 key txt"
proof -
  define K where "K = (if 64 < length key then sha1 key else key)"
  define R where "R = K @ replicate (64 - length K) 0"
  have R: "length R = 64" by (auto simp: R_def K_def length_sha1)
  have rk: "(if 64 < length key then let d = sat_SHA1_Final (sat_SHA1_Update (sat_SHA1_Init (junk 0)) key) in d @ replicate (64 - length d) 0
      else key @ replicate (64 - length key) 0) = R"
    using final_sha1[OF absorb_first] assms by (simp add: R_def K_def Let_def)
  have x: "0x5c5c5c5c = (le_word [0x5c, 0x5c, 0x5c, 0x5c] :: u32)" "0x5c5c5c5c XOR 0x36363636 = (le_word [0x6a, 0x6a, 0x6a, 0x6a] :: u32)"
    by code_simp+
  have x1: "xor_key R 0x5c5c5c5c = map (\<lambda>b. b XOR 0x5c) R" unfolding x(1) by (rule xor_key_bytes[OF R four_same])
  have x2: "xor_key (map (\<lambda>b. b XOR 0x5c) R) (0x5c5c5c5c XOR 0x36363636) = map (\<lambda>b. b XOR 0x36) R"
    unfolding x(2) by (subst xor_key_bytes[OF _ four_same]) (simp_all add: xor.assoc R)
  define c2 where "c2 = sat_SHA1_Update (sat_SHA1_Update (sat_SHA1_Init (junk 2)) (map (\<lambda>b. b XOR 0x36) R)) txt"
  have "absorbed c2 (map (\<lambda>b. b XOR 0x36) R @ txt)"
    unfolding c2_def by (rule update_absorbs[OF absorb_first]) (use assms R in simp_all)
  then have d2: "sat_SHA1_Final c2 = sha1 (map (\<lambda>b. b XOR 0x36) R @ txt)" by (rule final_sha1)
  have "absorbed (sat_SHA1_Update (sat_SHA1_Update (sat_SHA1_Init (junk 1)) (map (\<lambda>b. b XOR 0x5c) R)) (sat_SHA1_Final c2))
    (map (\<lambda>b. b XOR 0x5c) R @ sat_SHA1_Final c2)"
    by (rule update_absorbs[OF absorb_first]) (use assms R d2 in \<open>simp_all add: length_sha1\<close>)
  from final_sha1[OF this] show ?thesis
    unfolding lhmac_sha1_def hmac_sha1_def Let_def by (simp only: rk[unfolded Let_def] x1 x2 c2_def[symmetric] d2 R_def[symmetric] K_def[symmetric])
qed

theorem lhmac_sha1_correct_witness: "lhmac_sha1 (\<lambda>_. replicate 64 0) [1] [2, 3] = hmac_sha1 [1] [2, 3]"
  using lhmac_sha1_correct[of "\<lambda>_. replicate 64 0" "[1]" "[2, 3]"] by simp

end
