(* ===== verification/Harbor.thy ===== *)
theory Harbor
  imports Gate Bytes
begin

text \<open>
  The harbor service (\<open>service-src/service_harbor.c\<close>): it carries messages between the nodes of a network. Each other node has a slot with its
  connection; messages for a node that is not connected yet, and for a name that is not known yet, wait in queues. On the wire a message is its
  length, its bytes and a header of 12 bytes.

  The operations give the new state and the calls they make, in order (\<open>harbor_call\<close>). Of these, only the result of \<open>skynet_send\<close> for a message
  that came in is looked at: \<open>reach\<close> says to which handles of this node a message can be sent. A queue belongs to one name or one node, so that
  a pointer to it is the queue itself; its size is a natural number, as the \<open>int\<close> of the code overflows only after 2^30 messages have gathered.
\<close>

section \<open>State\<close>

definition HASH_SIZE :: nat where "HASH_SIZE = 4096"
definition HARBOR_QUEUE_SIZE :: nat where "HARBOR_QUEUE_SIZE = 1024"
definition HEADER_COOKIE_LENGTH :: nat where "HEADER_COOKIE_LENGTH = 12"
definition REMOTE_MAX :: nat where "REMOTE_MAX = 256"

record remote_message_header =
  rh_source :: u32
  rh_destination :: u32
  rh_session :: u32

record harbor_msg =
  hm_header :: remote_message_header
  hm_buffer :: "u8 list option"
  hm_size :: nat

record harbor_msg_queue =
  hq_size :: nat
  hq_head :: nat
  hq_tail :: nat
  hq_data :: "harbor_msg option list"

record keyvalue =
  kv_key :: "u8 list"
  kv_hash :: u32
  kv_value :: u32
  kv_queue :: "harbor_msg_queue option"

type_synonym hashmap = "nat \<Rightarrow> keyvalue list"

datatype harbor_status = STATUS_WAIT | STATUS_HANDSHAKE | STATUS_HEADER | STATUS_CONTENT | STATUS_DOWN

text \<open>\<open>recv_buffer\<close> is the part of the buffer that has been written.\<close>

record slave =
  sl_fd :: int
  sl_queue :: "harbor_msg_queue option"
  sl_status :: harbor_status
  sl_length :: int
  sl_read :: int
  sl_size :: "u8 list"
  sl_recv_buffer :: "u8 list"

record harbor =
  hb_id :: int
  hb_slave :: u32
  hb_map :: hashmap
  hb_s :: "nat \<Rightarrow> slave"

datatype harbor_call =
    H_send u32 u32 i32 i32 "u8 list option" nat
  | H_error string
  | H_callback
  | H_harbor_start
  | H_socket_send int "u8 list"
  | H_socket_start int
  | H_socket_close int

section \<open>Queues\<close>

definition push_queue_msg :: "harbor_msg \<Rightarrow> harbor_msg_queue \<Rightarrow> harbor_msg_queue option" where
  "push_queue_msg m q = do {
     let q1 = (if (hq_tail q + 1) mod hq_size q = hq_head q then
                 \<lparr>hq_size = hq_size q * 2, hq_head = 0, hq_tail = hq_size q - 1,
                  hq_data = map (\<lambda>i. hq_data q ! ((i + hq_head q) mod hq_size q)) [0..<hq_size q - 1] @ replicate (hq_size q + 1) None\<rparr>
               else q);
     data \<leftarrow> cell_set (hq_data q1) (hq_tail q1) m;
     Some (q1\<lparr>hq_data := data, hq_tail := (hq_tail q1 + 1) mod hq_size q1\<rparr>) }"

definition push_queue :: "u8 list option \<Rightarrow> nat \<Rightarrow> remote_message_header \<Rightarrow> harbor_msg_queue \<Rightarrow> harbor_msg_queue option" where
  "push_queue buffer sz header q = push_queue_msg \<lparr>hm_header = header, hm_buffer = buffer, hm_size = sz\<rparr> q"

definition pop_queue :: "harbor_msg_queue \<Rightarrow> (harbor_msg option \<times> harbor_msg_queue) option" where
  "pop_queue q =
     (if hq_head q = hq_tail q then Some (None, q)
      else do {
        m \<leftarrow> cell_get (hq_data q) (hq_head q);
        Some (Some m, q\<lparr>hq_head := (hq_head q + 1) mod hq_size q\<rparr>) })"

definition harbor_new_queue :: harbor_msg_queue where
  "harbor_new_queue = \<lparr>hq_size = HARBOR_QUEUE_SIZE, hq_head = 0, hq_tail = 0, hq_data = replicate HARBOR_QUEUE_SIZE None\<rparr>"

text \<open>\<open>while ((m = pop_queue(queue)) != NULL)\<close>: the messages it goes through.\<close>

partial_function (option) pop_msgs :: "harbor_msg_queue \<Rightarrow> harbor_msg list option" where
  "pop_msgs q = do {
     r \<leftarrow> pop_queue q;
     case fst r of
       None \<Rightarrow> Some []
     | Some m \<Rightarrow> do { ms \<leftarrow> pop_msgs (snd r); Some (m # ms) } }"

declare pop_msgs.simps [code]

text \<open>Releasing a queue goes through its messages to free them.\<close>

definition release_queue :: "harbor_msg_queue option \<Rightarrow> unit option" where
  "release_queue q = (case q of None \<Rightarrow> Some () | Some q \<Rightarrow> map_option (\<lambda>_. ()) (pop_msgs q))"

fun push_all :: "harbor_msg list \<Rightarrow> harbor_msg_queue \<Rightarrow> harbor_msg_queue option" where
  "push_all [] q = Some q"
| "push_all (m # ms) q = do { q1 \<leftarrow> push_queue_msg m q; push_all ms q1 }"

section \<open>Names\<close>

definition name_hash :: "u8 list \<Rightarrow> u32" where
  "name_hash name = le_word (take 4 name) XOR le_word (take 4 (drop 4 name)) XOR le_word (take 4 (drop 8 name)) XOR le_word (take 4 (drop 12 name))"

text \<open>\<open>strncmp(a, b, GLOBALNAME_LENGTH) == 0\<close>\<close>

definition same_name :: "u8 list \<Rightarrow> u8 list \<Rightarrow> bool" where
  "same_name a b \<longleftrightarrow> takeWhile (\<lambda>c. c \<noteq> 0) (take GLOBALNAME_LENGTH a) = takeWhile (\<lambda>c. c \<noteq> 0) (take GLOBALNAME_LENGTH b)"

definition node_matches :: "u8 list \<Rightarrow> keyvalue \<Rightarrow> bool" where
  "node_matches name node \<longleftrightarrow> kv_hash node = name_hash name \<and> same_name (kv_key node) name"

definition name_bucket :: "u8 list \<Rightarrow> nat" where
  "name_bucket name = unat (name_hash name) mod HASH_SIZE"

definition hash_search :: "hashmap \<Rightarrow> u8 list \<Rightarrow> keyvalue option" where
  "hash_search hash name = find (node_matches name) (hash (name_bucket name))"

definition hash_insert :: "hashmap \<Rightarrow> u8 list \<Rightarrow> hashmap" where
  "hash_insert hash name =
     hash(name_bucket name := \<lparr>kv_key = take GLOBALNAME_LENGTH name, kv_hash = name_hash name, kv_value = 0, kv_queue = None\<rparr> # hash (name_bucket name))"

text \<open>A write through the pointer that the search gave.\<close>

fun set_first :: "u8 list \<Rightarrow> keyvalue \<Rightarrow> keyvalue list \<Rightarrow> keyvalue list" where
  "set_first name node [] = []"
| "set_first name node (n # ns) = (if node_matches name n then node # ns else n # set_first name node ns)"

definition hash_set :: "hashmap \<Rightarrow> u8 list \<Rightarrow> keyvalue \<Rightarrow> hashmap" where
  "hash_set hash name node = hash(name_bucket name := set_first name node (hash (name_bucket name)))"

definition hash_new :: hashmap where
  "hash_new = (\<lambda>_. [])"

text \<open>The names are given back: the messages that wait for them are freed.\<close>

fun release_nodes :: "keyvalue list \<Rightarrow> unit option" where
  "release_nodes [] = Some ()"
| "release_nodes (n # ns) = do { release_queue (kv_queue n); release_nodes ns }"

fun hash_delete_from :: "nat \<Rightarrow> hashmap \<Rightarrow> unit option" where
  "hash_delete_from 0 hash = Some ()"
| "hash_delete_from (Suc n) hash = do { release_nodes (hash (HASH_SIZE - Suc n)); hash_delete_from n hash }"

definition hash_delete :: "hashmap \<Rightarrow> unit option" where
  "hash_delete hash = hash_delete_from HASH_SIZE hash"

section \<open>Creation, closing, release\<close>

definition put_slave :: "nat \<Rightarrow> slave \<Rightarrow> harbor \<Rightarrow> harbor" where
  "put_slave i s h = h\<lparr>hb_s := (hb_s h)(i := s)\<rparr>"

definition close_harbor :: "nat \<Rightarrow> harbor \<Rightarrow> (harbor \<times> harbor_call list) option" where
  "close_harbor i h = do {
     let s = hb_s h i;
     release_queue (sl_queue s);
     Some (put_slave i (s\<lparr>sl_status := STATUS_DOWN, sl_queue := None\<rparr>) h,
           if sl_fd s \<noteq> 0 then [H_socket_close (sl_fd s)] else []) }"

definition report_harbor_down :: "nat \<Rightarrow> harbor \<Rightarrow> harbor_call list" where
  "report_harbor_down i h =
     (let down = ''D '' @ show_d (int i)
      in [H_send 0 (hb_slave h) (word_of_nat PTYPE_TEXT) 0 (Some (cstr down)) (length down)])"

definition slave_zero :: slave where
  "slave_zero = \<lparr>sl_fd = 0, sl_queue = None, sl_status = STATUS_WAIT, sl_length = 0, sl_read = 0, sl_size = [0, 0, 0, 0], sl_recv_buffer = []\<rparr>"

definition harbor_create :: harbor where
  "harbor_create = \<lparr>hb_id = 0, hb_slave = 0, hb_map = hash_new, hb_s = (\<lambda>_. slave_zero)\<rparr>"

fun release_slaves :: "nat list \<Rightarrow> harbor \<Rightarrow> (harbor \<times> harbor_call list) option" where
  "release_slaves [] h = Some (h, [])"
| "release_slaves (i # js) h = do {
     (h1, c1) \<leftarrow> (if sl_fd (hb_s h i) \<noteq> 0 \<and> sl_status (hb_s h i) \<noteq> STATUS_DOWN then close_harbor i h else Some (h, []));
     (h2, c2) \<leftarrow> release_slaves js h1;
     Some (h2, c1 @ c2) }"

definition harbor_release :: "harbor \<Rightarrow> harbor_call list option" where
  "harbor_release h = do {
     (h1, calls) \<leftarrow> release_slaves [1..<REMOTE_MAX] h;
     hash_delete (hb_map h1);
     Some calls }"

section \<open>The wire\<close>

definition to_bigendian :: "u32 \<Rightarrow> u8 list" where
  "to_bigendian n = [ucast (drop_bit 24 n), ucast (drop_bit 16 n), ucast (drop_bit 8 n), ucast n]"

definition header_to_message :: "remote_message_header \<Rightarrow> u8 list" where
  "header_to_message header = to_bigendian (rh_source header) @ to_bigendian (rh_destination header) @ to_bigendian (rh_session header)"

text \<open>Four bytes in memory.\<close>

definition from_bigendian :: "u8 list \<Rightarrow> u32" where
  "from_bigendian bytes =
     push_bit 24 (ucast (bytes ! 0)) OR push_bit 16 (ucast (bytes ! 1)) OR push_bit 8 (ucast (bytes ! 2)) OR ucast (bytes ! 3)"

definition message_to_header :: "u8 list \<Rightarrow> remote_message_header" where
  "message_to_header message =
     \<lparr>rh_source = from_bigendian (take 4 message), rh_destination = from_bigendian (take 4 (drop 4 message)),
      rh_session = from_bigendian (take 4 (drop 8 message))\<rparr>"

text \<open>A message shorter than its header: the header would be read from in front of the buffer.\<close>

definition forward_local_messsage :: "(u32 \<Rightarrow> bool) \<Rightarrow> harbor \<Rightarrow> u8 list \<Rightarrow> harbor_call list option" where
  "forward_local_messsage reach h msg =
     (let sz = length msg in
      if sz < HEADER_COOKIE_LENGTH then None
      else
        let header = message_to_header (drop (sz - HEADER_COOKIE_LENGTH) msg);
            type = unat (drop_bit HANDLE_REMOTE_SHIFT (rh_destination header));
            destination = (rh_destination header AND HANDLE_MASK) OR push_bit HANDLE_REMOTE_SHIFT (word_of_int (hb_id h))
        in Some (H_send (rh_source header) destination (word_of_nat type OR PTYPE_TAG_DONTCOPY) (rh_session header) (Some msg) (sz - HEADER_COOKIE_LENGTH) #
             (if reach destination then []
              else (if type \<noteq> PTYPE_ERROR then [H_send destination (rh_source header) (word_of_nat PTYPE_ERROR) (rh_session header) None 0] else []) @
                   [H_error (''Unknown destination :'' @ show_x destination @ '' from :'' @ show_x (rh_source header) @ '' type('' @ show_d (int type) @ '')'')])))"

definition send_remote :: "int \<Rightarrow> u8 list option \<Rightarrow> nat \<Rightarrow> remote_message_header \<Rightarrow> harbor_call list option" where
  "send_remote fd buffer sz cookie =
     (let sz_header = (sz + HEADER_COOKIE_LENGTH) mod 2 ^ 64 in
      if 2 ^ 32 \<le> sz_header then
        Some [H_error (''remote message from :'' @ show_08x (rh_source cookie) @ '' to :'' @ show_08x (rh_destination cookie) @ '' is too large.'')]
      else
        let data = (case buffer of Some b \<Rightarrow> b | None \<Rightarrow> []) in
        if length data < sz then None
        else Some [H_socket_send fd (to_bigendian (word_of_nat sz_header) @ take sz data @ header_to_message cookie)])"

text \<open>The calls for each of a list of messages.\<close>

fun call_all :: "('m \<Rightarrow> harbor_call list option) \<Rightarrow> 'm list \<Rightarrow> harbor_call list option" where
  "call_all f [] = Some []"
| "call_all f (m # ms) = do { c1 \<leftarrow> f m; c2 \<leftarrow> call_all f ms; Some (c1 @ c2) }"

section \<open>Waiting messages\<close>

definition send_waiting :: "int \<Rightarrow> harbor_msg \<Rightarrow> harbor_call list option" where
  "send_waiting fd m = send_remote fd (hm_buffer m) (hm_size m) (hm_header m)"

definition add_handle :: "u32 \<Rightarrow> harbor_msg \<Rightarrow> harbor_msg" where
  "add_handle handle m =
     m\<lparr>hm_header := (hm_header m)\<lparr>rh_destination := rh_destination (hm_header m) OR (handle AND HANDLE_MASK)\<rparr>\<rparr>"

definition send_local_waiting :: "u32 \<Rightarrow> harbor_msg \<Rightarrow> harbor_call list option" where
  "send_local_waiting handle m =
     (let type = unat (drop_bit HANDLE_REMOTE_SHIFT (rh_destination (hm_header m)))
      in Some [H_send (rh_source (hm_header m)) handle (word_of_nat type OR PTYPE_TAG_DONTCOPY) (rh_session (hm_header m)) (hm_buffer m) (hm_size m)])"

text \<open>The queue of a name is not empty here. What is left of it is released by the caller.\<close>

definition dispatch_name_queue :: "keyvalue \<Rightarrow> harbor_msg_queue \<Rightarrow> harbor \<Rightarrow> (keyvalue \<times> harbor \<times> harbor_call list) option" where
  "dispatch_name_queue node queue h = do {
     let handle = kv_value node;
     let harbor_id = unat (drop_bit HANDLE_REMOTE_SHIFT handle);
     let s = hb_s h harbor_id;
     if sl_fd s = 0 then
       if sl_status s = STATUS_DOWN then
         Some (node, h, [H_error (''Drop message to '' @ c_string (of_bytes (kv_key node)) @ '' (in harbor '' @ show_d (int harbor_id) @ '')'')])
       else do {
         (node1, q) \<leftarrow> (case sl_queue s of
             None \<Rightarrow> Some (node\<lparr>kv_queue := None\<rparr>, queue)
           | Some sq \<Rightarrow> do {
               ms \<leftarrow> pop_msgs queue;
               sq1 \<leftarrow> push_all ms sq;
               Some (node\<lparr>kv_queue := Some (queue\<lparr>hq_head := hq_tail queue\<rparr>)\<rparr>, sq1) });
         if harbor_id = unat (drop_bit HANDLE_REMOTE_SHIFT (hb_slave h)) then do {
           ms \<leftarrow> pop_msgs q;
           calls \<leftarrow> call_all (send_local_waiting handle) ms;
           Some (node1, put_slave harbor_id (s\<lparr>sl_queue := None\<rparr>) h, calls) }
         else Some (node1, put_slave harbor_id (s\<lparr>sl_queue := Some q\<rparr>) h, []) }
     else do {
       ms \<leftarrow> pop_msgs queue;
       calls \<leftarrow> call_all (\<lambda>m. send_waiting (sl_fd s) (add_handle handle m)) ms;
       Some (node\<lparr>kv_queue := Some (queue\<lparr>hq_head := hq_tail queue\<rparr>)\<rparr>, h, calls) } }"

definition harbor_dispatch_queue :: "nat \<Rightarrow> harbor \<Rightarrow> (harbor \<times> harbor_call list) option" where
  "harbor_dispatch_queue i h =
     (let s = hb_s h i in
      if sl_fd s = 0 then None
      else case sl_queue s of
        None \<Rightarrow> Some (h, [])
      | Some queue \<Rightarrow> do {
          ms \<leftarrow> pop_msgs queue;
          calls \<leftarrow> call_all (send_waiting (sl_fd s)) ms;
          Some (put_slave i (s\<lparr>sl_queue := None\<rparr>) h, calls) })"

section \<open>Data from other nodes\<close>

text \<open>
  The loop over the bytes of one piece of data: a handshake byte, then lengths and contents. A status change with no \<open>return\<close> goes on with the
  bytes that are left.
\<close>

definition then_calls :: "harbor_call list \<Rightarrow> (harbor \<times> harbor_call list) option \<Rightarrow> (harbor \<times> harbor_call list) option" where
  "then_calls calls r = map_option (\<lambda>(h, cs). (h, calls @ cs)) r"

partial_function (option) receive_loop :: "(u32 \<Rightarrow> bool) \<Rightarrow> nat \<Rightarrow> u8 list \<Rightarrow> harbor \<Rightarrow> (harbor \<times> harbor_call list) option" where
  "receive_loop reach i buffer h =
     (let s = hb_s h i in
      case sl_status s of
        STATUS_HANDSHAKE \<Rightarrow>
          (case buffer of
             [] \<Rightarrow> None
           | remote_id # rest \<Rightarrow>
               if unat remote_id \<noteq> i then
                 then_calls [H_error (''Invalid shakehand id ('' @ show_d (int i) @ '') from fd = '' @ show_d (sl_fd s) @ '' , harbor = '' @ show_d (int (unat remote_id)))]
                   (close_harbor i h)
               else do {
                 (h1, calls) \<leftarrow> harbor_dispatch_queue i (put_slave i (s\<lparr>sl_status := STATUS_HEADER\<rparr>) h);
                 do { (h2, cs) \<leftarrow> receive_loop reach i rest h1; Some (h2, calls @ cs) } })
      | STATUS_HEADER \<Rightarrow>
          (let need = 4 - sl_read s in
           if int (length buffer) < need then
             Some (put_slave i (s\<lparr>sl_size := take (nat (sl_read s)) (sl_size s) @ buffer @ drop (nat (sl_read s) + length buffer) (sl_size s),
                                  sl_read := sl_read s + int (length buffer)\<rparr>) h, [])
           else
             let sz = take (nat (sl_read s)) (sl_size s) @ take (nat need) buffer; rest = drop (nat need) buffer in
             if sz ! 0 \<noteq> 0 then
               then_calls [H_error (''Message is too long from harbor '' @ show_d (int i))]
                 (close_harbor i (put_slave i (s\<lparr>sl_size := sz\<rparr>) h))
             else
               let h1 = put_slave i (s\<lparr>sl_size := sz, sl_read := 0, sl_recv_buffer := [], sl_status := STATUS_CONTENT,
                          sl_length := int (unat (sz ! 1)) * 65536 + int (unat (sz ! 2)) * 256 + int (unat (sz ! 3))\<rparr>) h
               in if rest = [] then Some (h1, []) else receive_loop reach i rest h1)
      | STATUS_CONTENT \<Rightarrow>
          (let need = sl_length s - sl_read s in
           if int (length buffer) < need then
             Some (put_slave i (s\<lparr>sl_recv_buffer := sl_recv_buffer s @ buffer, sl_read := sl_read s + int (length buffer)\<rparr>) h, [])
           else do {
             calls \<leftarrow> forward_local_messsage reach h (sl_recv_buffer s @ take (nat need) buffer);
             let h1 = put_slave i (s\<lparr>sl_length := 0, sl_read := 0, sl_recv_buffer := [], sl_status := STATUS_HEADER\<rparr>) h;
             let rest = drop (nat need) buffer;
             if rest = [] then Some (h1, calls) else do { (h2, cs) \<leftarrow> receive_loop reach i rest h1; Some (h2, calls @ cs) } })
      | _ \<Rightarrow> Some (h, []))"

declare receive_loop.simps [code]

definition slave_of_fd :: "harbor \<Rightarrow> int \<Rightarrow> nat option" where
  "slave_of_fd h fd = find (\<lambda>i. sl_fd (hb_s h i) = fd) [1..<REMOTE_MAX]"

text \<open>The last component tells that the buffer of the message has been freed.\<close>

definition push_socket_data :: "(u32 \<Rightarrow> bool) \<Rightarrow> skynet_socket_message \<Rightarrow> harbor \<Rightarrow> (harbor \<times> harbor_call list \<times> bool) option" where
  "push_socket_data reach m h =
     (if sm_type m \<noteq> SKYNET_SOCKET_TYPE_DATA then None
      else case slave_of_fd h (sm_id m) of
        None \<Rightarrow> Some (h, [H_error (''Invalid socket fd ('' @ show_d (sm_id m) @ '') data'')], True)
      | Some i \<Rightarrow> do {
          buffer \<leftarrow> sm_buffer m;
          if int (length buffer) < sm_ud m then None
          else do {
            (h1, calls) \<leftarrow> receive_loop reach i (take (nat (sm_ud m)) buffer) h;
            Some (h1, calls, False) } })"

section \<open>Sending\<close>

definition update_name :: "u8 list \<Rightarrow> u32 \<Rightarrow> harbor \<Rightarrow> (harbor \<times> harbor_call list) option" where
  "update_name name handle h = do {
     let map1 = (if hash_search (hb_map h) name = None then hash_insert (hb_map h) name else hb_map h);
     node \<leftarrow> hash_search map1 name;
     let node1 = node\<lparr>kv_value := handle\<rparr>;
     case kv_queue node of
       None \<Rightarrow> Some (h\<lparr>hb_map := hash_set map1 name node1\<rparr>, [])
     | Some queue \<Rightarrow> do {
         (node2, h1, calls) \<leftarrow> dispatch_name_queue node1 queue h;
         release_queue (kv_queue node2);
         Some (h1\<lparr>hb_map := hash_set map1 name (node2\<lparr>kv_queue := None\<rparr>)\<rparr>, calls) } }"

definition msg_header :: "u32 \<Rightarrow> nat \<Rightarrow> u32 \<Rightarrow> i32 \<Rightarrow> remote_message_header" where
  "msg_header source type destination session =
     \<lparr>rh_source = source, rh_destination = push_bit HANDLE_REMOTE_SHIFT (word_of_nat type) OR (destination AND HANDLE_MASK), rh_session = session\<rparr>"

text \<open>The first component of the results tells that the message is kept.\<close>

definition remote_send_handle ::
  "u32 \<Rightarrow> u32 \<Rightarrow> nat \<Rightarrow> i32 \<Rightarrow> u8 list option \<Rightarrow> nat \<Rightarrow> harbor \<Rightarrow> (bool \<times> harbor \<times> harbor_call list) option" where
  "remote_send_handle source destination type session msg sz h = do {
     let harbor_id = unat (drop_bit HANDLE_REMOTE_SHIFT destination);
     let s = hb_s h harbor_id;
     if int harbor_id = hb_id h then
       Some (True, h, [H_send source destination (word_of_nat type OR PTYPE_TAG_DONTCOPY) session msg sz])
     else if sl_fd s = 0 \<or> sl_status s = STATUS_HANDSHAKE then
       if sl_status s = STATUS_DOWN then
         Some (False, h,
           [H_send destination source (word_of_nat PTYPE_ERROR) 0 None 0,
            H_error (''Drop message to harbor '' @ show_d (int harbor_id) @ '' from '' @ show_x source @ '' to '' @ show_x destination @
                     '' (session = '' @ show_d (sint session) @ '', msgsz = '' @ show_d (int sz) @ '')'')])
       else do {
         q \<leftarrow> push_queue msg sz (msg_header source type destination session) (case sl_queue s of None \<Rightarrow> harbor_new_queue | Some q \<Rightarrow> q);
         Some (True, put_slave harbor_id (s\<lparr>sl_queue := Some q\<rparr>) h, []) }
     else do {
       calls \<leftarrow> send_remote (sl_fd s) msg sz (msg_header source type destination session);
       Some (False, h, calls) } }"

definition remote_send_name ::
  "u32 \<Rightarrow> u8 list \<Rightarrow> nat \<Rightarrow> i32 \<Rightarrow> u8 list option \<Rightarrow> nat \<Rightarrow> harbor \<Rightarrow> (bool \<times> harbor \<times> harbor_call list) option" where
  "remote_send_name source name type session msg sz h = do {
     let map1 = (if hash_search (hb_map h) name = None then hash_insert (hb_map h) name else hb_map h);
     node \<leftarrow> hash_search map1 name;
     let h1 = h\<lparr>hb_map := map1\<rparr>;
     if kv_value node = 0 then do {
       q \<leftarrow> push_queue msg sz (msg_header source type 0 session) (case kv_queue node of None \<Rightarrow> harbor_new_queue | Some q \<Rightarrow> q);
       let query = ''Q '' @ c_string (of_bytes (take GLOBALNAME_LENGTH name));
       Some (True, h1\<lparr>hb_map := hash_set map1 name (node\<lparr>kv_queue := Some q\<rparr>)\<rparr>,
             [H_send 0 (hb_slave h) (word_of_nat PTYPE_TEXT) 0 (Some (cstr query)) (length query)]) }
     else remote_send_handle source (kv_value node) type session msg sz h1 }"

section \<open>Commands and the callback\<close>

definition handshake :: "nat \<Rightarrow> harbor \<Rightarrow> harbor_call list" where
  "handshake i h = [H_socket_send (sl_fd (hb_s h i)) [word_of_int (hb_id h)]]"

text \<open>The text \<open>%s\<close> prints: up to the first NUL, which has to be in the block.\<close>

definition text_at :: "u8 list \<Rightarrow> string option" where
  "text_at bs = (if 0 \<in> set bs then Some (c_string (of_bytes bs)) else None)"

definition scan_fd_id :: "string \<Rightarrow> int \<times> int" where
  "scan_fd_id s = (case scan_d s of None \<Rightarrow> (0, 0) | Some (fd, s1) \<Rightarrow> (fd, case scan_d s1 of None \<Rightarrow> 0 | Some (i, _) \<Rightarrow> i))"

definition harbor_connect :: "char \<Rightarrow> string \<Rightarrow> harbor \<Rightarrow> (harbor \<times> harbor_call list) option" where
  "harbor_connect cmd buffer h =
     (let (fd, i) = scan_fd_id buffer in
      if fd = 0 \<or> i \<le> 0 \<or> int REMOTE_MAX \<le> i then Some (h, [H_error (''Invalid command '' @ [cmd] @ '' '' @ buffer)])
      else
        let i = nat i; s = hb_s h i in
        if sl_fd s \<noteq> 0 then Some (h, [H_error (''Harbor '' @ show_d (int i) @ '' alreay exist'')])
        else
          let h1 = put_slave i (s\<lparr>sl_fd := fd\<rparr>) h; calls = H_socket_start fd # handshake i h1 in
          if cmd = CHR ''S'' then Some (put_slave i (s\<lparr>sl_fd := fd, sl_status := STATUS_HANDSHAKE\<rparr>) h, calls)
          else then_calls calls (harbor_dispatch_queue i (put_slave i (s\<lparr>sl_fd := fd, sl_status := STATUS_HEADER\<rparr>) h)))"

definition harbor_command :: "u8 list \<Rightarrow> nat \<Rightarrow> u32 \<Rightarrow> harbor \<Rightarrow> (harbor \<times> harbor_call list) option" where
  "harbor_command msg sz source h =
     (if msg = [] then None
      else
        let s = int sz - 2; cmd = char_of (unat (msg ! 0)) in
        if cmd = CHR ''N'' then
          if s \<le> 0 \<or> int GLOBALNAME_LENGTH \<le> s then do {
            t \<leftarrow> text_at (drop 2 msg);
            Some (h, [H_error (''Invalid global name '' @ t)]) }
          else if length msg < sz then None
          else update_name (take (nat s) (drop 2 msg) @ replicate (GLOBALNAME_LENGTH - nat s) 0) source h
        else if cmd = CHR ''S'' \<or> cmd = CHR ''A'' then
          if s < 0 \<or> length msg < sz then None
          else harbor_connect cmd (c_string (of_bytes (take (nat s) (drop 2 msg)))) h
        else do {
          t \<leftarrow> text_at msg;
          Some (h, [H_error (''Unknown command '' @ t)]) })"

definition harbor_socket :: "(u32 \<Rightarrow> bool) \<Rightarrow> skynet_socket_message \<Rightarrow> harbor \<Rightarrow> (harbor \<times> harbor_call list) option" where
  "harbor_socket reach m h =
     (if sm_type m = SKYNET_SOCKET_TYPE_DATA then do {
        (h1, calls, freed) \<leftarrow> push_socket_data reach m h;
        if freed then None else Some (h1, calls) }
      else if sm_type m = SKYNET_SOCKET_TYPE_ERROR \<or> sm_type m = SKYNET_SOCKET_TYPE_CLOSE then
        Some (h, case slave_of_fd h (sm_id m) of
            Some i \<Rightarrow> report_harbor_down i h
          | None \<Rightarrow> [H_error (''Unkown fd ('' @ show_d (sm_id m) @ '') closed'')])
      else if sm_type m = SKYNET_SOCKET_TYPE_CONNECT then Some (h, [])
      else if sm_type m = SKYNET_SOCKET_TYPE_WARNING then
        Some (h, case slave_of_fd h (sm_id m) of
            Some i \<Rightarrow> [H_error (''message havn't send to Harbor ('' @ show_d (int i) @ '') reach '' @ show_d (sm_ud m) @ '' K'')]
          | None \<Rightarrow> [])
      else Some (h, [H_error (''recv invalid socket message type '' @ show_d (int PTYPE_SOCKET))]))"

definition mainloop ::
  "(u32 \<Rightarrow> bool) \<Rightarrow> nat \<Rightarrow> i32 \<Rightarrow> u32 \<Rightarrow> msg_payload option \<Rightarrow> nat \<Rightarrow> harbor \<Rightarrow> (harbor \<times> harbor_call list) option" where
  "mainloop reach type session source msg sz h =
     (if type = PTYPE_SOCKET then
        (case msg of Some (Socket m) \<Rightarrow> harbor_socket reach m h | _ \<Rightarrow> None)
      else if type = PTYPE_HARBOR then
        (case msg of Some (Bytes bs) \<Rightarrow> harbor_command bs sz source h | _ \<Rightarrow> None)
      else
        (case msg of
           Some (Remote rmsg) \<Rightarrow>
             map_option snd
               (if rm_handle rmsg = 0 then remote_send_name source (rm_name rmsg) type session (rm_message rmsg) (unat (rm_sz rmsg)) h
                else remote_send_handle source (rm_handle rmsg) type session (rm_message rmsg) (unat (rm_sz rmsg)) h)
         | _ \<Rightarrow> None))"

definition scan_u :: "string \<Rightarrow> u32 option" where
  "scan_u s =
     (let s1 = dropWhile isspace s; ds = takeWhile (is_digit 10) (snd (num_sign s1))
      in if ds = [] then None else Some (long_int (strtol s1 10)))"

definition harbor_init :: "string \<Rightarrow> harbor \<Rightarrow> int \<times> harbor \<times> harbor_call list" where
  "harbor_init args h =
     (let (harbor_id, slave) = (case scan_d args of None \<Rightarrow> (0, 0) | Some (i, s1) \<Rightarrow> (i, case scan_u s1 of None \<Rightarrow> 0 | Some u \<Rightarrow> u))
      in if slave = 0 then (1, h, []) else (0, h\<lparr>hb_id := harbor_id, hb_slave := slave\<rparr>, [H_callback, H_harbor_start]))"

end
