(* ===== verification/Harbor_Props.thy ===== *)
theory Harbor_Props
  imports Harbor Gate_Spec
begin

text \<open>
  The harbor service: its queues keep the order of messages, what one node sends arrives at the other whatever TCP does to the stream, messages
  that wait for a connection go out first and in order, and inputs on which the code goes wrong.
\<close>

section \<open>Queues\<close>

definition queue_rep :: "harbor_msg_queue \<Rightarrow> harbor_msg list \<Rightarrow> bool" where
  "queue_rep q xs \<longleftrightarrow>
     hq_head q < hq_size q \<and> length (hq_data q) = hq_size q \<and> length xs < hq_size q \<and>
     hq_tail q = (hq_head q + length xs) mod hq_size q \<and>
     (\<forall>i < length xs. hq_data q ! ((hq_head q + i) mod hq_size q) = Some (xs ! i))"

lemma queue_rep_new: "queue_rep harbor_new_queue []"
  by (simp add: queue_rep_def harbor_new_queue_def HARBOR_QUEUE_SIZE_def)

lemma queue_rep_Nil: "queue_rep q [] \<Longrightarrow> pop_queue q = Some (None, q)"
  by (simp add: queue_rep_def pop_queue_def)

lemma queue_rep_Cons:
  assumes "queue_rep q (x # xs)"
  shows "\<exists>q'. pop_queue q = Some (Some x, q') \<and> queue_rep q' xs"
proof -
  let ?n = "hq_size q" and ?h = "hq_head q"
  have h: "?h < ?n" "length (hq_data q) = ?n" "Suc (length xs) < ?n" "hq_tail q = (?h + Suc (length xs)) mod ?n"
    and d: "\<forall>i < Suc (length xs). hq_data q ! ((?h + i) mod ?n) = Some ((x # xs) ! i)"
    using assms by (auto simp: queue_rep_def)
  have "hq_tail q \<noteq> ?h" using ring_index_neq[of 0 "Suc (length xs)" ?n ?h] h by simp
  moreover have "hq_data q ! ?h = Some x" using d[rule_format, of 0] h(1) by simp
  ultimately have "pop_queue q = Some (Some x, q\<lparr>hq_head := (?h + 1) mod ?n\<rparr>)"
    using h by (auto simp: pop_queue_def cell_get_def)
  moreover have "hq_data q ! (((?h + 1) mod ?n + i) mod ?n) = Some (xs ! i)" if "i < length xs" for i
    using d[rule_format, of "Suc i"] that by (simp add: mod_add_left_eq)
  then have "queue_rep (q\<lparr>hq_head := (?h + 1) mod ?n\<rparr>) xs"
    using h by (auto simp: queue_rep_def mod_add_left_eq)
  ultimately show ?thesis by blast
qed

lemma queue_rep_push:
  assumes "queue_rep q xs"
  shows "\<exists>q'. push_queue_msg m q = Some q' \<and> queue_rep q' (xs @ [m])"
proof -
  let ?n = "hq_size q" and ?h = "hq_head q" and ?k = "length xs"
  have h: "?h < ?n" "length (hq_data q) = ?n" "?k < ?n" "hq_tail q = (?h + ?k) mod ?n"
    and d: "\<And>i. i < ?k \<Longrightarrow> hq_data q ! ((?h + i) mod ?n) = Some (xs ! i)"
    using assms by (auto simp: queue_rep_def)
  have next_tail: "(hq_tail q + 1) mod ?n = (?h + Suc ?k) mod ?n" using h by (simp add: mod_Suc_eq)
  show ?thesis
  proof (cases "Suc ?k = ?n")
    case True
    let ?data = "map (\<lambda>i. hq_data q ! ((i + ?h) mod ?n)) [0..<?n - 1] @ replicate (?n + 1) None"
    have full: "(hq_tail q + 1) mod ?n = ?h" unfolding next_tail True using h by simp
    have l: "?n - Suc 0 = ?k" using True by simp
    have "push_queue_msg m q = Some \<lparr>hq_size = ?n * 2, hq_head = 0, hq_tail = (?k + 1) mod (?n * 2), hq_data = ?data[?k := Some m]\<rparr>"
      unfolding push_queue_msg_def full using h by (simp add: cell_set_def Let_def True[symmetric])
    moreover have "?data[?k := Some m] ! i = Some ((xs @ [m]) ! i)" if "i < Suc ?k" for i
      using that d[of i] by (cases "i = ?k") (simp_all add: nth_append l add.commute)
    then have "queue_rep \<lparr>hq_size = ?n * 2, hq_head = 0, hq_tail = (?k + 1) mod (?n * 2), hq_data = ?data[?k := Some m]\<rparr> (xs @ [m])"
      using h True by (auto simp: queue_rep_def)
    ultimately show ?thesis by blast
  next
    case False
    then have k: "Suc ?k < ?n" using h by simp
    have "(hq_tail q + 1) mod ?n \<noteq> ?h" using ring_index_neq[of 0 "Suc ?k" ?n ?h] k h unfolding next_tail by simp
    then have p: "push_queue_msg m q = Some (q\<lparr>hq_data := (hq_data q)[hq_tail q := Some m], hq_tail := (hq_tail q + 1) mod ?n\<rparr>)"
      using h by (simp add: push_queue_msg_def cell_set_def)
    have "(hq_data q)[hq_tail q := Some m] ! ((?h + i) mod ?n) = Some ((xs @ [m]) ! i)" if "i < Suc ?k" for i
    proof (cases "i = ?k")
      case False
      then have "i < ?k" using that by simp
      then show ?thesis using d[of i] ring_index_neq[of i ?k ?n ?h] h by (simp add: nth_append)
    qed (use h in simp)
    then show ?thesis using p k h next_tail by (auto simp: queue_rep_def)
  qed
qed

interpretation hq: fifo push_queue_msg pop_queue queue_rep "\<lambda>_ _. True"
proof unfold_locales
  show "queue_rep q [] \<Longrightarrow> \<exists>q'. pop_queue q = Some (None, q') \<and> queue_rep q' []" for q using queue_rep_Nil by blast
qed (rule queue_rep_push, assumption, rule queue_rep_Cons, assumption)

lemma pop_msgs_rep: "queue_rep q xs \<Longrightarrow> pop_msgs q = Some xs"
proof (induction xs arbitrary: q)
  case Nil
  then show ?case using queue_rep_Nil[of q] by (simp add: pop_msgs.simps)
next
  case (Cons x xs)
  then obtain q' where "pop_queue q = Some (Some x, q')" "pop_msgs q' = Some xs" using queue_rep_Cons by blast
  then show ?case by (simp add: pop_msgs.simps[of q])
qed

section \<open>The wire format\<close>

lemma from_to_bigendian: "from_bigendian (to_bigendian n) = n"
  unfolding from_bigendian_def to_bigendian_def using join_bytes[of n] by simp

lemma length_to_bigendian [simp]: "length (to_bigendian n) = 4"
  by (simp add: to_bigendian_def)

lemma header_roundtrip: "message_to_header (header_to_message c) = c"
  by (simp add: message_to_header_def header_to_message_def from_to_bigendian)

lemma length_header [simp]: "length (header_to_message c) = 12"
  by (simp add: header_to_message_def)

lemma ucast_drop: "n < 2 ^ 32 \<Longrightarrow> ucast (drop_bit k (word_of_nat n :: u32)) = (word_of_nat (n div 2 ^ k mod 256) :: u8)"
proof -
  assume n: "n < 2 ^ 32"
  have "unat (drop_bit k (word_of_nat n :: u32)) = n div 2 ^ k"
    unfolding unat_drop_bit_eq using n by (simp add: unat_of_nat drop_bit_eq_div)
  then show ?thesis by (simp only: word_unat_eq_iff unsigned_ucast_eq) (simp add: unat_of_nat take_bit_eq_mod)
qed

lemma to_bigendian_be: "n < 2 ^ 32 \<Longrightarrow> to_bigendian (word_of_nat n) = be_bytes 4 n"
proof -
  assume n: "n < 2 ^ 32"
  have "be_bytes 4 n = [word_of_nat (n div 2 ^ 24 mod 256), word_of_nat (n div 2 ^ 16 mod 256), word_of_nat (n div 2 ^ 8 mod 256), word_of_nat (n div 2 ^ 0 mod 256)]"
  proof -
    have "(4 :: nat) = Suc (Suc (Suc (Suc 0)))" by simp
    then have "be_bytes 4 n = [word_of_nat (n div 256 div 256 div 256 mod 256), word_of_nat (n div 256 div 256 mod 256), word_of_nat (n div 256 mod 256), word_of_nat (n mod 256)]"
      by (simp only: be_bytes.simps append.simps)
    then show ?thesis by (simp add: div_mult2_eq[symmetric])
  qed
  then show ?thesis using ucast_drop[OF n, of 24] ucast_drop[OF n, of 16] ucast_drop[OF n, of 8] ucast_drop[OF n, of 0]
    by (simp add: to_bigendian_def)
qed

text \<open>The packet of a message.\<close>

definition packet :: "u8 list \<Rightarrow> remote_message_header \<Rightarrow> u8 list" where
  "packet data c = data @ header_to_message c"

lemma send_remote_frame:
  assumes "length data + 12 < 2 ^ 32"
  shows "send_remote fd (Some data) (length data) c = Some [H_socket_send fd (frame 4 (packet data c))]"
  using assms by (simp add: send_remote_def HEADER_COOKIE_LENGTH_def packet_def frame_def to_bigendian_be del: of_nat_add)

section \<open>Receiving\<close>

text \<open>The bytes of the stream that a connection holds back.\<close>

definition held :: "slave \<Rightarrow> u8 list" where
  "held s = (case sl_status s of STATUS_HEADER \<Rightarrow> take (nat (sl_read s)) (sl_size s) | STATUS_CONTENT \<Rightarrow> sl_size s @ sl_recv_buffer s | _ \<Rightarrow> [])"

definition link_ok :: "slave \<Rightarrow> bool" where
  "link_ok s \<longleftrightarrow> length (sl_size s) = 4 \<and> 0 \<le> sl_read s \<and>
     (sl_status s = STATUS_HEADER \<and> sl_read s < 4 \<or>
      sl_status s = STATUS_CONTENT \<and> sl_read s = int (length (sl_recv_buffer s)) \<and> sl_read s < sl_length s \<and> sl_length s = int (be_val (sl_size s)))"

text \<open>Every length on the stream is that of a packet with a header and below 16 MB, and every complete packet has the property \<open>Q\<close>.\<close>

function packets_ok :: "(u8 list \<Rightarrow> bool) \<Rightarrow> u8 list \<Rightarrow> bool" where
  "packets_ok Q bs =
     (if length bs < 4 then True
      else let n = be_val (take 4 bs); rest = drop 4 bs in
        12 \<le> n \<and> n < 2 ^ 24 \<and> (n \<le> length rest \<longrightarrow> Q (take n rest) \<and> packets_ok Q (drop n rest)))"
  by pat_completeness auto
termination by (relation "measure (length \<circ> snd)") auto

declare packets_ok.simps [simp del]

lemma packets_ok_short: "length bs < 4 \<Longrightarrow> packets_ok Q bs"
  by (subst packets_ok.simps) simp

lemma packets_ok_step: "4 \<le> length bs \<Longrightarrow> packets_ok Q bs \<longleftrightarrow>
    12 \<le> be_val (take 4 bs) \<and> be_val (take 4 bs) < 2 ^ 24 \<and>
    (be_val (take 4 bs) \<le> length bs - 4 \<longrightarrow> Q (take (be_val (take 4 bs)) (drop 4 bs)) \<and> packets_ok Q (drop (be_val (take 4 bs)) (drop 4 bs)))"
  by (subst packets_ok.simps) (simp add: Let_def)

lemma packets_ok_head: "packets_ok Q (z @ r) \<Longrightarrow> length z = 4 \<Longrightarrow> 12 \<le> be_val z \<and> be_val z < 2 ^ 24"
  using packets_ok_step[of "z @ r"] by simp

lemma packets_ok_prefix: "packets_ok Q (bs @ cs) \<Longrightarrow> packets_ok Q bs"
proof (induction Q bs rule: packets_ok.induct)
  case (1 Q bs)
  show ?case
  proof (cases "length bs < 4")
    case False
    then have b: "4 \<le> length bs" "4 \<le> length (bs @ cs)" "take 4 (bs @ cs) = take 4 bs" by auto
    have "be_val (take 4 bs) \<le> length bs - 4 \<Longrightarrow> packets_ok Q (drop (be_val (take 4 bs)) (drop 4 bs))"
      using 1(1)[OF False refl refl] 1(2) b by (simp add: packets_ok_step[OF b(2)])
    moreover have "be_val (take 4 bs) \<le> length bs - 4 \<Longrightarrow> Q (take (be_val (take 4 bs)) (drop 4 bs))"
    proof -
      assume le: "be_val (take 4 bs) \<le> length bs - 4"
      then have "take (be_val (take 4 bs)) (drop 4 (bs @ cs)) = take (be_val (take 4 bs)) (drop 4 bs)" using b by simp
      moreover have "be_val (take 4 (bs @ cs)) \<le> length (bs @ cs) - 4" using le b by simp
      ultimately show ?thesis using 1(2) b(3) unfolding packets_ok_step[OF b(2)] by metis
    qed
    ultimately show ?thesis using 1(2) b unfolding packets_ok_step[OF b(1)] packets_ok_step[OF b(2)] by simp
  qed (simp add: packets_ok_short)
qed

lemma packets_ok_left: "packets_ok Q (bs @ cs) \<Longrightarrow> packets_ok Q (snd (unframe 4 bs) @ cs)"
proof (induction Q bs rule: packets_ok.induct)
  case (1 Q bs)
  let ?n = "be_val (take 4 bs)"
  show ?case
  proof (cases "length bs < 4 \<or> length bs - 4 < ?n")
    case True
    then have "unframe 4 bs = ([], bs)" by (cases "length bs < 4") (simp_all add: unframe_short unframe_partial)
    then show ?thesis using 1(2) by simp
  next
    case False
    then have b: "4 \<le> length bs" "4 \<le> length (bs @ cs)" "?n \<le> length bs - 4" by auto
    have "unframe 4 bs = (take ?n (drop 4 bs) # fst (unframe 4 (drop ?n (drop 4 bs))), snd (unframe 4 (drop ?n (drop 4 bs))))"
      using False by (subst unframe.simps) (simp add: Let_def)
    moreover have "packets_ok Q (drop ?n (drop 4 bs) @ cs)" using 1(2) b unfolding packets_ok_step[OF b(2)] by simp
    ultimately show ?thesis using 1(1)[OF _ refl refl] b by simp
  qed
qed

lemma packets_ok_frames: "\<forall>p \<in> set ps. 12 \<le> length p \<and> length p < 2 ^ 24 \<and> Q p \<Longrightarrow> packets_ok Q (concat (map (frame 4) ps))"
proof (induction ps)
  case (Cons p ps)
  have v: "be_val (be_bytes 4 (length p)) = length p" using Cons(2) by (intro be_val_bytes) simp
  have "packets_ok Q (frame 4 p @ concat (map (frame 4) ps))"
    by (subst packets_ok_step) (use Cons v in \<open>simp_all add: frame_def[of 4 p]\<close>)
  then show ?case by simp
qed (simp add: packets_ok_short)

text \<open>The call for a packet that came in, for a destination that exists.\<close>

definition target :: "int \<Rightarrow> u8 list \<Rightarrow> u32" where
  "target n p = (rh_destination (message_to_header (drop (length p - 12) p)) AND HANDLE_MASK) OR push_bit 24 (word_of_int n)"

definition delivery :: "int \<Rightarrow> u8 list \<Rightarrow> harbor_call" where
  "delivery n p =
     (let header = message_to_header (drop (length p - 12) p)
      in H_send (rh_source header) (target n p)
           (drop_bit 24 (rh_destination header) OR PTYPE_TAG_DONTCOPY) (rh_session header) (Some p) (length p - 12))"

text \<open>The packets whose destination exists at node \<open>n\<close>.\<close>

definition reaches :: "(u32 \<Rightarrow> bool) \<Rightarrow> int \<Rightarrow> u8 list \<Rightarrow> bool" where
  "reaches reach n p \<longleftrightarrow> reach (target n p)"

lemma forward_delivery:
  "12 \<le> length p \<Longrightarrow> reaches reach (hb_id h) p \<Longrightarrow> forward_local_messsage reach h p = Some [delivery (hb_id h) p]"
  by (simp add: forward_local_messsage_def delivery_def target_def Let_def HEADER_COOKIE_LENGTH_def HANDLE_REMOTE_SHIFT_def reaches_def)

lemma put_slave_simps [simp]: "hb_s (put_slave i s h) i = s" "j \<noteq> i \<Longrightarrow> hb_s (put_slave i s h) j = hb_s h j"
  "put_slave i s (put_slave i t h) = put_slave i s h" "hb_id (put_slave i s h) = hb_id h" "hb_slave (put_slave i s h) = hb_slave h"
  "hb_map (put_slave i s h) = hb_map h"
  by (simp_all add: put_slave_def)

lemma be_val_quad: "be_val [a, b, c, d] = ((unat a * 256 + unat b) * 256 + unat c) * 256 + unat d"
  by (simp add: be_val_def)

definition receives :: "(u32 \<Rightarrow> bool) \<Rightarrow> nat \<Rightarrow> u8 list \<Rightarrow> harbor \<Rightarrow> bool" where
  "receives reach i c h \<longleftrightarrow>
     (\<exists>ps s'. receive_loop reach i c h = Some (put_slave i s' h, map (delivery (hb_id h)) ps) \<and> link_ok s' \<and>
        unframe 4 (held (hb_s h i) @ c) = (ps, held s') \<and> sl_fd s' = sl_fd (hb_s h i) \<and> sl_queue s' = sl_queue (hb_s h i))"

lemma receivesI:
  "receive_loop reach i c h = Some (put_slave i s' h, map (delivery (hb_id h)) ps) \<Longrightarrow> link_ok s' \<Longrightarrow>
   unframe 4 (held (hb_s h i) @ c) = (ps, held s') \<Longrightarrow> sl_fd s' = sl_fd (hb_s h i) \<Longrightarrow> sl_queue s' = sl_queue (hb_s h i) \<Longrightarrow>
   receives reach i c h"
  unfolding receives_def by blast

lemma receive_content:
  assumes st: "sl_status (hb_s h i) = STATUS_CONTENT" and ok: "link_ok (hb_s h i)" and pk: "packets_ok (reaches reach (hb_id h)) (held (hb_s h i) @ c)"
    and IH: "\<And>d g. length d < length c \<Longrightarrow> link_ok (hb_s g i) \<Longrightarrow> d \<noteq> [] \<Longrightarrow> packets_ok (reaches reach (hb_id h)) (held (hb_s g i) @ d) \<Longrightarrow>
      hb_id g = hb_id h \<Longrightarrow> receives reach i d g"
  shows "receives reach i c h"
proof -
  define s where "s = hb_s h i"
  define n where "n = be_val (sl_size s)"
  define k where "k = n - length (sl_recv_buffer s)"
  have s: "length (sl_size s) = 4" "sl_read s = int (length (sl_recv_buffer s))" "sl_length s = int n" "length (sl_recv_buffer s) < n"
    and hs: "held s = sl_size s @ sl_recv_buffer s"
    using ok st by (auto simp: s_def n_def link_ok_def held_def)
  have need: "sl_length s - sl_read s = int k" "0 < k" using s by (auto simp: k_def)
  have pn: "12 \<le> n" using pk packets_ok_step[of "held s @ c" "reaches reach (hb_id h)"] s by (simp add: s_def[symmetric] hs n_def)
  note st' = st[folded s_def]
  show ?thesis
  proof (cases "length c < k")
    case True
    let ?s = "s\<lparr>sl_recv_buffer := sl_recv_buffer s @ c, sl_read := sl_read s + int (length c)\<rparr>"
    have "receive_loop reach i c h = Some (put_slave i ?s h, [])"
      using True need st' by (subst receive_loop.simps) (simp add: s_def[symmetric])
    moreover have "link_ok ?s" using s True st' by (auto simp: link_ok_def n_def k_def)
    moreover have "unframe 4 (held s @ c) = ([], held ?s)"
      using s True st' by (subst unframe_partial) (auto simp: hs held_def n_def k_def)
    ultimately show ?thesis by (intro receivesI[where s' = ?s and ps = "[]"]) (simp_all add: s_def)
  next
    case False
    let ?p = "sl_recv_buffer s @ take k c" and ?rest = "drop k c"
    let ?s = "s\<lparr>sl_length := 0, sl_read := 0, sl_recv_buffer := [], sl_status := STATUS_HEADER\<rparr>"
    have lp: "length ?p = n" using False s by (simp add: k_def)
    have hc: "held s @ c = sl_size s @ ?p @ ?rest" by (simp add: hs)
    have pr: "packets_ok (reaches reach (hb_id h)) ?rest" and pq: "reaches reach (hb_id h) ?p"
      using pk packets_ok_step[of "held s @ c" "reaches reach (hb_id h)"] s False lp
      unfolding s_def[symmetric] by (simp_all add: hc n_def[symmetric] k_def)
    have f: "forward_local_messsage reach h ?p = Some [delivery (hb_id h) ?p]"
      by (rule forward_delivery[OF _ pq]) (use lp pn in simp)
    have r: "receive_loop reach i c h = (if ?rest = [] then Some (put_slave i ?s h, [delivery (hb_id h) ?p])
      else do { (h2, cs) \<leftarrow> receive_loop reach i ?rest (put_slave i ?s h); Some (h2, [delivery (hb_id h) ?p] @ cs) })"
      using False need st' f by (subst receive_loop.simps) (simp add: s_def[symmetric] Let_def)
    have u: "unframe 4 (held s @ c) = (?p # fst (unframe 4 ?rest), snd (unframe 4 ?rest))"
      unfolding hc by (rule unframe_whole) (use s lp n_def in simp_all)
    have ok1: "link_ok ?s" "held ?s = []" using s by (auto simp: link_ok_def held_def)
    show ?thesis
    proof (cases "?rest = []")
      case True
      then show ?thesis using r u ok1 by (intro receivesI[where s' = ?s and ps = "[?p]"]) (simp_all add: s_def[symmetric] unframe_short)
    next
      case False
      then have "receives reach i ?rest (put_slave i ?s h)" using IH[of ?rest "put_slave i ?s h"] ok1 pr need(2) by simp
      then obtain ps s' where "receive_loop reach i ?rest (put_slave i ?s h) = Some (put_slave i s' h, map (delivery (hb_id h)) ps)" "link_ok s'"
        "unframe 4 ?rest = (ps, held s')" "sl_fd s' = sl_fd s" "sl_queue s' = sl_queue s"
        unfolding receives_def by (auto simp: ok1)
      then show ?thesis using r u False by (intro receivesI[where s' = s' and ps = "?p # ps"]) (simp_all add: s_def[symmetric])
    qed
  qed
qed

lemma length_4: "length xs = 4 \<Longrightarrow> \<exists>a b c d. xs = [a, b, c, d]"
  by (auto simp: eval_nat_numeral length_Suc_conv)

lemma unframe_header: "length z = 4 \<Longrightarrow> 0 < be_val z \<Longrightarrow> unframe 4 z = ([], z)"
  by (rule unframe_partial) simp_all

lemma receive_header_full:
  assumes "sl_status s = STATUS_HEADER" "hb_s h i = s" "\<not> int (length c) < 4 - sl_read s"
    "z = take (nat (sl_read s)) (sl_size s) @ take (nat (4 - sl_read s)) c" "rest = drop (nat (4 - sl_read s)) c" "z ! 0 = 0"
    "s1 = s\<lparr>sl_size := z, sl_read := 0, sl_recv_buffer := [], sl_status := STATUS_CONTENT,
       sl_length := int (unat (z ! 1)) * 65536 + int (unat (z ! 2)) * 256 + int (unat (z ! 3))\<rparr>"
  shows "receive_loop reach i c h = (if rest = [] then Some (put_slave i s1 h, []) else receive_loop reach i rest (put_slave i s1 h))"
  unfolding receive_loop.simps[of reach i c h] assms(2) Let_def assms(1) harbor_status.case
  using assms(3,6) by (simp only: if_False assms(4)[symmetric] assms(5)[symmetric] assms(7)[symmetric] simp_thms)

lemma receive_header:
  assumes st: "sl_status (hb_s h i) = STATUS_HEADER" and ok: "link_ok (hb_s h i)" and pk: "packets_ok (reaches reach (hb_id h)) (held (hb_s h i) @ c)"
    and IH: "\<And>d g. length d < length c \<Longrightarrow> link_ok (hb_s g i) \<Longrightarrow> d \<noteq> [] \<Longrightarrow> packets_ok (reaches reach (hb_id h)) (held (hb_s g i) @ d) \<Longrightarrow>
      hb_id g = hb_id h \<Longrightarrow> receives reach i d g"
  shows "receives reach i c h"
proof -
  define s where "s = hb_s h i"
  define r where "r = nat (sl_read s)"
  have s: "length (sl_size s) = 4" "sl_read s = int r" "r < 4" and hs: "held s = take r (sl_size s)"
    using ok st by (auto simp: s_def r_def link_ok_def held_def)
  note st' = st[folded s_def]
  show ?thesis
  proof (cases "length c < 4 - r")
    case True
    let ?s = "s\<lparr>sl_size := take r (sl_size s) @ c @ drop (r + length c) (sl_size s), sl_read := sl_read s + int (length c)\<rparr>"
    have "int (length c) < 4 - sl_read s" using True s by simp
    then have "receive_loop reach i c h = Some (put_slave i ?s h, [])"
      using st' by (subst receive_loop.simps) (simp add: s_def[symmetric] Let_def r_def)
    moreover have "link_ok ?s" "held ?s = held s @ c" using s True st' by (auto simp: link_ok_def held_def nat_add_distrib)
    moreover have "unframe 4 (held s @ c) = ([], held s @ c)" by (rule unframe_short) (use s True in \<open>simp add: hs\<close>)
    ultimately show ?thesis by (intro receivesI[where s' = ?s and ps = "[]"]) (simp_all add: s_def)
  next
    case False
    let ?sz = "take r (sl_size s) @ take (4 - r) c" and ?rest = "drop (4 - r) c"
    have lz: "length ?sz = 4" using False s by simp
    then obtain a b d e where z: "?sz = [a, b, d, e]" using length_4 by blast
    have hc: "held s @ c = ?sz @ ?rest" by (simp add: hs)
    have v: "12 \<le> be_val ?sz" "be_val ?sz < 2 ^ 24"
      using packets_ok_head[OF pk[folded s_def, unfolded hc] lz] by blast+
    then have a0: "unat a = 0" unfolding z be_val_quad by simp
    then have az: "a = 0" by (simp add: unat_eq_0)
    let ?s = "s\<lparr>sl_size := ?sz, sl_read := 0, sl_recv_buffer := [], sl_status := STATUS_CONTENT, sl_length := int (be_val ?sz)\<rparr>"
    have len: "int (unat (?sz ! 1)) * 65536 + int (unat (?sz ! 2)) * 256 + int (unat (?sz ! 3)) = int (be_val ?sz)"
      unfolding z be_val_quad a0 by simp
    have nz: "?sz ! 0 = 0" unfolding z by (simp add: az)
    have rl: "receive_loop reach i c h = (if ?rest = [] then Some (put_slave i ?s h, []) else receive_loop reach i ?rest (put_slave i ?s h))"
      by (rule receive_header_full[OF st' s_def[symmetric] _ _ _ nz])
        (use False s len in \<open>simp_all add: nat_diff_distrib\<close>)
    have ok1: "link_ok ?s" "held ?s = ?sz" using lz v by (auto simp: link_ok_def held_def)
    show ?thesis
    proof (cases "?rest = []")
      case True
      have "unframe 4 ?sz = ([], ?sz)" using unframe_header[OF lz] v(1) by linarith
      then show ?thesis using True rl ok1 hc by (intro receivesI[where s' = ?s and ps = "[]"]) (simp_all add: s_def[symmetric])
    next
      case False
      have "packets_ok (reaches reach (hb_id h)) (held ?s @ ?rest)" using pk unfolding s_def[symmetric] hc ok1(2) .
      then have "receives reach i ?rest (put_slave i ?s h)" using IH[of ?rest "put_slave i ?s h"] ok1 False s by simp
      then obtain ps s' where "receive_loop reach i ?rest (put_slave i ?s h) = Some (put_slave i s' h, map (delivery (hb_id h)) ps)" "link_ok s'"
        "unframe 4 (?sz @ ?rest) = (ps, held s')" "sl_fd s' = sl_fd s" "sl_queue s' = sl_queue s"
        unfolding receives_def by (auto simp: ok1)
      then show ?thesis using rl False hc by (intro receivesI[where s' = s' and ps = ps]) (simp_all add: s_def[symmetric])
    qed
  qed
qed

lemma receive_ok:
  "link_ok (hb_s h i) \<Longrightarrow> packets_ok (reaches reach (hb_id h)) (held (hb_s h i) @ c) \<Longrightarrow> receives reach i c h"
proof (induction "length c" arbitrary: c h rule: less_induct)
  case less
  have IH: "length d < length c \<Longrightarrow> link_ok (hb_s g i) \<Longrightarrow> d \<noteq> [] \<Longrightarrow> packets_ok (reaches reach (hb_id h)) (held (hb_s g i) @ d) \<Longrightarrow> hb_id g = hb_id h \<Longrightarrow> receives reach i d g" for d g
    using less(1) by simp
  from less.prems(1) have "sl_status (hb_s h i) = STATUS_HEADER \<or> sl_status (hb_s h i) = STATUS_CONTENT" by (auto simp: link_ok_def)
  then show ?case using receive_header[OF _ less.prems(1,2) IH] receive_content[OF _ less.prems(1,2) IH] by blast
qed

section \<open>Many nodes at once\<close>

definition node_data :: "int \<Rightarrow> u8 list \<Rightarrow> skynet_socket_message" where
  "node_data fd c = \<lparr>sm_type = SKYNET_SOCKET_TYPE_DATA, sm_id = fd, sm_ud = int (length c), sm_buffer = Some c, sm_padding = []\<rparr>"

definition harbor_feed :: "(u32 \<Rightarrow> bool) \<Rightarrow> int \<Rightarrow> u8 list \<Rightarrow> harbor \<Rightarrow> (harbor_call list \<times> harbor) option" where
  "harbor_feed reach fd c h = map_option prod.swap (mainloop reach PTYPE_SOCKET 0 0 (Some (Socket (node_data fd c))) SOCKET_MESSAGE_SIZE h)"

definition links :: "int \<Rightarrow> int set \<Rightarrow> harbor \<Rightarrow> bool" where
  "links n fds h \<longleftrightarrow> hb_id h = n \<and> (\<forall>fd \<in> fds. \<exists>i. slave_of_fd h fd = Some i \<and> link_ok (hb_s h i))"

definition link_held :: "int \<Rightarrow> harbor \<Rightarrow> u8 list" where
  "link_held fd h = held (hb_s h (the (slave_of_fd h fd)))"

lemma slave_of_fd_put: "sl_fd s = sl_fd (hb_s h i) \<Longrightarrow> slave_of_fd (put_slave i s h) = slave_of_fd h"
proof -
  assume "sl_fd s = sl_fd (hb_s h i)"
  then have "sl_fd (hb_s (put_slave i s h) j) = sl_fd (hb_s h j)" for j by (cases "j = i") simp_all
  then show ?thesis by (simp add: slave_of_fd_def fun_eq_iff)
qed

lemma slave_of_fd_fd: "slave_of_fd h fd = Some i \<Longrightarrow> sl_fd (hb_s h i) = fd"
  by (auto simp: slave_of_fd_def find_Some_iff)

lemma harbor_feed_loop:
  "slave_of_fd h fd = Some i \<Longrightarrow> harbor_feed reach fd c h = map_option prod.swap (receive_loop reach i c h)"
  by (cases "receive_loop reach i c h")
    (auto simp: harbor_feed_def mainloop_def harbor_socket_def push_socket_data_def node_data_def)

lemma harbor_feed_ok:
  assumes "links n fds h" "fd \<in> fds" "c \<noteq> []" "packets_ok (reaches reach n) (link_held fd h @ c)"
  shows "\<exists>ps h'. harbor_feed reach fd c h = Some (map (delivery n) ps, h') \<and> links n fds h' \<and>
    unframe 4 (link_held fd h @ c) = (ps, link_held fd h') \<and> (\<forall>j \<in> fds. j \<noteq> fd \<longrightarrow> link_held j h' = link_held j h)"
proof -
  obtain i where i: "slave_of_fd h fd = Some i" "link_ok (hb_s h i)" and n: "hb_id h = n"
    using assms(1,2) by (auto simp: links_def)
  have l: "link_held fd h = held (hb_s h i)" by (simp add: link_held_def i)
  obtain ps s' where r: "receive_loop reach i c h = Some (put_slave i s' h, map (delivery n) ps)" "link_ok s'"
      "unframe 4 (held (hb_s h i) @ c) = (ps, held s')" "sl_fd s' = sl_fd (hb_s h i)"
    using receive_ok[OF i(2), of reach c] assms(4) n unfolding l receives_def by auto
  note f = slave_of_fd_put[OF r(4)]
  have "slave_of_fd h j = Some k \<Longrightarrow> j \<noteq> fd \<Longrightarrow> k \<noteq> i" for j k using i(1) by (metis slave_of_fd_fd)
  then have o: "link_held j (put_slave i s' h) = link_held j h" if "j \<in> fds" "j \<noteq> fd" for j
    using that assms(1) unfolding link_held_def f links_def by fastforce
  have "links n fds (put_slave i s' h)"
    using assms(1) r(2) unfolding links_def f by (metis put_slave_simps(1,2,4))
  moreover have "link_held fd (put_slave i s' h) = held s'" by (simp add: link_held_def f i)
  ultimately show ?thesis using r(1,3) o harbor_feed_loop[OF i(1)] l by fastforce
qed

interpretation hb: framers 4 "harbor_feed reach" link_held "links n fds" fds "\<lambda>_. True" "\<lambda>_. delivery n" "packets_ok (reaches reach n)"
  for reach n fds
proof unfold_locales
  fix s k c
  assume "links n fds s" "k \<in> fds" "c \<noteq> []" "packets_ok (reaches reach n) (link_held k s @ c)"
  from harbor_feed_ok[OF this] show "\<exists>ps s'. harbor_feed reach k c s = Some (map (delivery n) (filter (\<lambda>_. True) ps), s') \<and> links n fds s' \<and>
      unframe 4 (link_held k s @ c) = (ps, link_held k s') \<and> (\<forall>j \<in> fds. j \<noteq> k \<longrightarrow> link_held j s' = link_held j s)"
    by simp
qed (fact packets_ok_left, fact packets_ok_prefix)

section \<open>Messages between two nodes\<close>

type_synonym harbor_event = "nat \<times> i32 \<times> u32 \<times> msg_payload option \<times> nat"

fun harbor_run :: "(u32 \<Rightarrow> bool) \<Rightarrow> harbor_event list \<Rightarrow> harbor \<Rightarrow> (harbor \<times> harbor_call list) option" where
  "harbor_run reach [] h = Some (h, [])"
| "harbor_run reach ((type, session, source, msg, sz) # es) h = do {
     (h1, c1) \<leftarrow> mainloop reach type session source msg sz h;
     (h2, c2) \<leftarrow> harbor_run reach es h1;
     Some (h2, c1 @ c2) }"

text \<open>A message a service sends: source, destination, type, session and bytes.\<close>

record net_msg =
  nm_source :: u32
  nm_destination :: u32
  nm_type :: nat
  nm_session :: i32
  nm_data :: "u8 list"

definition send_event :: "net_msg \<Rightarrow> harbor_event" where
  "send_event m =
     (nm_type m, nm_session m, nm_source m,
      Some (Remote \<lparr>rm_name = [], rm_handle = nm_destination m, rm_message = Some (nm_data m), rm_sz = word_of_nat (length (nm_data m))\<rparr>),
      unat REMOTE_MESSAGE_SIZE)"

definition command_event :: "u8 list \<Rightarrow> u32 \<Rightarrow> harbor_event" where
  "command_event msg source = (PTYPE_HARBOR, 0, source, Some (Bytes msg), length msg)"

text \<open>A message for a handle of node \<open>k\<close> that fits in a packet.\<close>

definition for_node :: "nat \<Rightarrow> net_msg \<Rightarrow> bool" where
  "for_node k m \<longleftrightarrow> unat (drop_bit 24 (nm_destination m)) = k \<and> nm_type m < 256 \<and> nm_type m \<noteq> PTYPE_SOCKET \<and> nm_type m \<noteq> PTYPE_HARBOR
     \<and> length (nm_data m) + 12 < 2 ^ 24"

definition net_packet :: "net_msg \<Rightarrow> u8 list" where
  "net_packet m = packet (nm_data m) (msg_header (nm_source m) (nm_type m) (nm_destination m) (nm_session m))"

definition arrival :: "net_msg \<Rightarrow> harbor_call" where
  "arrival m = H_send (nm_source m) (nm_destination m) (word_of_nat (nm_type m) OR PTYPE_TAG_DONTCOPY) (nm_session m) (Some (net_packet m)) (length (nm_data m))"

definition waiting_msg :: "net_msg \<Rightarrow> harbor_msg" where
  "waiting_msg m =
     \<lparr>hm_header = msg_header (nm_source m) (nm_type m) (nm_destination m) (nm_session m), hm_buffer = Some (nm_data m), hm_size = length (nm_data m)\<rparr>"

definition socket_bytes :: "int \<Rightarrow> harbor_call list \<Rightarrow> u8 list" where
  "socket_bytes fd calls = concat (map (\<lambda>c. case c of H_socket_send f bs \<Rightarrow> if f = fd then bs else [] | _ \<Rightarrow> []) calls)"

lemma delivery_arrival:
  assumes "for_node k m"
  shows "delivery (int k) (net_packet m) = arrival m"
proof -
  let ?d = "push_bit 24 (word_of_nat (nm_type m)) OR (nm_destination m AND HANDLE_MASK)"
  have k: "(word_of_nat k :: u32) = drop_bit 24 (nm_destination m)" using assms by (auto simp: for_node_def)
  have t: "drop_bit 24 ?d = (word_of_nat (nm_type m) :: u32)"
  proof -
    have "take_bit 8 (word_of_nat (nm_type m) :: u32) = word_of_nat (nm_type m)"
      using assms by (simp add: word_unat_eq_iff unat_take_bit_mod unat_of_nat for_node_def)
    then have "bit (word_of_nat (nm_type m) :: u32) n \<Longrightarrow> n < 8" for n by (metis bit_take_bit_iff)
    then show ?thesis unfolding HANDLE_MASK_mask by (intro bit_word_eqI) (auto simp: bit_simps)
  qed
  have a: "(?d AND HANDLE_MASK) OR push_bit 24 (drop_bit 24 (nm_destination m)) = nm_destination m"
  proof (rule bit_word_eqI)
    fix n
    show "bit ((?d AND HANDLE_MASK) OR push_bit 24 (drop_bit 24 (nm_destination m))) n = bit (nm_destination m) n" if "n < LENGTH(32)"
      using that unfolding HANDLE_MASK_mask by (cases "n < 24") (auto simp: bit_simps)
  qed
  show ?thesis
    using t a by (simp add: delivery_def target_def arrival_def net_packet_def packet_def header_roundtrip msg_header_def HANDLE_REMOTE_SHIFT_def k Let_def)
qed

section \<open>Sending\<close>

definition queue_holds :: "harbor_msg_queue option \<Rightarrow> harbor_msg list \<Rightarrow> bool" where
  "queue_holds q xs \<longleftrightarrow> (case q of None \<Rightarrow> xs = [] | Some q \<Rightarrow> queue_rep q xs)"

lemma small_size: "length d + 12 < 2 ^ 24 \<Longrightarrow> unat (word_of_nat (length d) :: u64) = length d"
  by (simp add: unat_of_nat)

lemma for_nodeD:
  assumes "for_node k m" "0 < k"
  shows "nm_destination m \<noteq> 0" "unat (drop_bit HANDLE_REMOTE_SHIFT (nm_destination m)) = k"
    "mainloop reach (nm_type m) ses src (Some (Remote rm)) sz h = map_option snd
       (if rm_handle rm = 0 then remote_send_name src (rm_name rm) (nm_type m) ses (rm_message rm) (unat (rm_sz rm)) h
        else remote_send_handle src (rm_handle rm) (nm_type m) ses (rm_message rm) (unat (rm_sz rm)) h)"
  using assms by (auto simp: for_node_def mainloop_def HANDLE_REMOTE_SHIFT_def)

lemma harbor_run_Cons:
  "harbor_run reach [e] h = Some (h1, c1) \<Longrightarrow> harbor_run reach es h1 = Some (h2, c2) \<Longrightarrow> harbor_run reach (e # es) h = Some (h2, c1 @ c2)"
  by (cases e) (auto simp: bind_eq_Some_iff)

lemma harbor_run_append:
  "harbor_run reach es h = Some (h1, c1) \<Longrightarrow> harbor_run reach fs h1 = Some (h2, c2) \<Longrightarrow> harbor_run reach (es @ fs) h = Some (h2, c1 @ c2)"
proof (induction es arbitrary: h c1)
  case (Cons e es)
  obtain h' d d' where "harbor_run reach [e] h = Some (h', d)" "harbor_run reach es h' = Some (h1, d')" "c1 = d @ d'"
    using Cons.prems(1) by (cases e) (auto simp: bind_eq_Some_iff)
  then show ?case using Cons.IH[OF _ Cons.prems(2)] harbor_run_Cons[of reach e h h' d "es @ fs"] by simp
qed simp

lemma put_slave_same: "s = hb_s h i \<Longrightarrow> put_slave i s h = h"
  by (simp add: put_slave_def)

text \<open>A node that is not connected, or whose handshake is not done: the message waits.\<close>

lemma send_waits:
  assumes "for_node k m" "0 < k" "int k \<noteq> hb_id h" "sl_status (hb_s h k) \<noteq> STATUS_DOWN"
    "sl_fd (hb_s h k) = 0 \<or> sl_status (hb_s h k) = STATUS_HANDSHAKE" "queue_holds (sl_queue (hb_s h k)) xs"
  shows "\<exists>q. harbor_run reach [send_event m] h = Some (put_slave k ((hb_s h k)\<lparr>sl_queue := Some q\<rparr>) h, []) \<and> queue_rep q (xs @ [waiting_msg m])"
proof -
  let ?q = "case sl_queue (hb_s h k) of None \<Rightarrow> harbor_new_queue | Some q \<Rightarrow> q"
  have "queue_rep ?q xs" using assms(6) queue_rep_new by (auto simp: queue_holds_def split: option.splits)
  then obtain q where q: "push_queue_msg (waiting_msg m) ?q = Some q" "queue_rep q (xs @ [waiting_msg m])" using queue_rep_push by blast
  have "length (nm_data m) + 12 < 2 ^ 24" using assms(1) by (simp add: for_node_def)
  then show ?thesis
    using q assms(3-5) small_size[of "nm_data m"] for_nodeD[OF assms(1,2)]
    by (auto simp: send_event_def remote_send_handle_def Let_def push_queue_def waiting_msg_def)
qed

lemma sends_wait:
  assumes "\<forall>m \<in> set ms. for_node k m" "0 < k" "int k \<noteq> hb_id h" "sl_status (hb_s h k) \<noteq> STATUS_DOWN"
    "sl_fd (hb_s h k) = 0 \<or> sl_status (hb_s h k) = STATUS_HANDSHAKE" "queue_holds (sl_queue (hb_s h k)) xs"
  shows "\<exists>q. harbor_run reach (map send_event ms) h = Some (put_slave k ((hb_s h k)\<lparr>sl_queue := q\<rparr>) h, []) \<and> queue_holds q (xs @ map waiting_msg ms)"
  using assms
proof (induction ms arbitrary: h xs)
  case Nil
  have "put_slave k ((hb_s h k)\<lparr>sl_queue := sl_queue (hb_s h k)\<rparr>) h = h" by (simp add: put_slave_def)
  then show ?case using Nil(6) by (intro exI[of _ "sl_queue (hb_s h k)"]) simp
next
  case (Cons m ms)
  let ?s = "\<lambda>q. (hb_s h k)\<lparr>sl_queue := Some q\<rparr>"
  obtain q where q: "harbor_run reach [send_event m] h = Some (put_slave k (?s q) h, [])" "queue_rep q (xs @ [waiting_msg m])"
    using send_waits[of k m h xs reach] Cons.prems by auto
  obtain q' where "harbor_run reach (map send_event ms) (put_slave k (?s q) h) = Some (put_slave k ((hb_s h k)\<lparr>sl_queue := q'\<rparr>) h, [])"
    "queue_holds q' ((xs @ [waiting_msg m]) @ map waiting_msg ms)"
    using Cons.IH[of "put_slave k (?s q) h" "xs @ [waiting_msg m]"] Cons.prems q(2) by (auto simp: queue_holds_def)
  then show ?case using harbor_run_Cons[OF q(1)] by (intro exI[of _ q']) simp
qed

text \<open>A node that is connected: the message goes out.\<close>

lemma send_goes:
  assumes "for_node k m" "0 < k" "int k \<noteq> hb_id h" "sl_fd (hb_s h k) \<noteq> 0" "sl_status (hb_s h k) \<noteq> STATUS_HANDSHAKE"
  shows "harbor_run reach [send_event m] h = Some (h, [H_socket_send (sl_fd (hb_s h k)) (frame 4 (net_packet m))])"
proof -
  have l: "length (nm_data m) + 12 < 2 ^ 24" using assms(1) by (simp add: for_node_def)
  then have "length (nm_data m) + 12 < 2 ^ 32" by simp
  from send_remote_frame[OF this] show ?thesis
    using assms(3-5) small_size[OF l] for_nodeD[OF assms(1,2)]
    by (auto simp: send_event_def remote_send_handle_def Let_def net_packet_def)
qed

lemma sends_go:
  assumes "\<forall>m \<in> set ms. for_node k m" "0 < k" "int k \<noteq> hb_id h" "sl_fd (hb_s h k) \<noteq> 0" "sl_status (hb_s h k) \<noteq> STATUS_HANDSHAKE"
  shows "harbor_run reach (map send_event ms) h = Some (h, map (\<lambda>m. H_socket_send (sl_fd (hb_s h k)) (frame 4 (net_packet m))) ms)"
  using assms
proof (induction ms)
  case (Cons m ms)
  then have "harbor_run reach [send_event m] h = Some (h, [H_socket_send (sl_fd (hb_s h k)) (frame 4 (net_packet m))])"
    using send_goes by simp
  from harbor_run_Cons[OF this] show ?case using Cons by simp
qed simp

lemma waiting_frame:
  assumes "for_node k m"
  shows "send_waiting fd (waiting_msg m) = Some [H_socket_send fd (frame 4 (net_packet m))]"
proof -
  have "length (nm_data m) + 12 < 2 ^ 32" using assms by (simp add: for_node_def)
  from send_remote_frame[OF this] show ?thesis by (simp add: send_waiting_def waiting_msg_def net_packet_def)
qed

lemma waiting_frames:
  "\<forall>m \<in> set ms. for_node k m \<Longrightarrow>
    call_all (send_waiting fd) (map waiting_msg ms) = Some (map (\<lambda>m. H_socket_send fd (frame 4 (net_packet m))) ms)"
  by (induction ms) (simp_all add: waiting_frame[where k = k])

lemma harbor_dispatch_queue_holds:
  assumes "queue_holds (sl_queue (hb_s h i)) xs" "sl_fd (hb_s h i) \<noteq> 0" "call_all (send_waiting (sl_fd (hb_s h i))) xs = Some calls"
  shows "harbor_dispatch_queue i h = Some (put_slave i ((hb_s h i)\<lparr>sl_queue := None\<rparr>) h, calls)"
proof (cases "sl_queue (hb_s h i)")
  case None
  then have "put_slave i ((hb_s h i)\<lparr>sl_queue := None\<rparr>) h = h" by (intro put_slave_same) (cases "hb_s h i", simp)
  then show ?thesis using None assms by (simp add: harbor_dispatch_queue_def queue_holds_def)
next
  case (Some q)
  then show ?thesis using assms pop_msgs_rep[of q xs] by (simp add: harbor_dispatch_queue_def queue_holds_def)
qed

section \<open>Connecting\<close>

text \<open>The text of a command that hands over the accepted connection \<open>fd\<close> to node \<open>k\<close>.\<close>

definition accept_command :: "u8 list \<Rightarrow> int \<Rightarrow> nat \<Rightarrow> bool" where
  "accept_command msg fd k \<longleftrightarrow> 2 \<le> length msg \<and> msg ! 0 = 65 \<and> scan_fd_id (c_string (of_bytes (drop 2 msg))) = (fd, int k) \<and> fd \<noteq> 0 \<and> 0 < k \<and> k < REMOTE_MAX"

lemma char_A: "char_of (unat (65 :: u8)) = CHR ''A''"
  by code_simp

lemma accept_connects:
  assumes "accept_command msg fd k" "sl_fd (hb_s h k) = 0" "queue_holds (sl_queue (hb_s h k)) xs" "call_all (send_waiting fd) xs = Some calls"
  shows "harbor_run reach [command_event msg src] h =
    Some (put_slave k ((hb_s h k)\<lparr>sl_fd := fd, sl_status := STATUS_HEADER, sl_queue := None\<rparr>) h,
          H_socket_start fd # H_socket_send fd [word_of_int (hb_id h)] # calls)"
proof -
  let ?s = "(hb_s h k)\<lparr>sl_fd := fd, sl_status := STATUS_HEADER\<rparr>"
  have c: "msg \<noteq> []" "char_of (unat (msg ! 0)) = CHR ''A''" "int (length msg) - 2 \<ge> 0" "scan_fd_id (c_string (of_bytes (drop 2 msg))) = (fd, int k)"
    "fd \<noteq> 0" "0 < k" "k < REMOTE_MAX" using assms(1) char_A unfolding accept_command_def by auto
  have t: "take (nat (int (length msg) - 2)) (drop 2 msg) = drop 2 msg" by simp
  have "harbor_dispatch_queue k (put_slave k ?s h) = Some (put_slave k (?s\<lparr>sl_queue := None\<rparr>) h, calls)"
    using harbor_dispatch_queue_holds[of "put_slave k ?s h" k xs calls] assms(3,4) c(5) by simp
  then have "harbor_connect (CHR ''A'') (c_string (of_bytes (drop 2 msg))) h =
    Some (put_slave k (?s\<lparr>sl_queue := None\<rparr>) h, H_socket_start fd # H_socket_send fd [word_of_int (hb_id h)] # calls)"
    unfolding harbor_connect_def c(4) using c assms(2) by (simp add: handshake_def then_calls_def)
  then show ?thesis using c(1-3) unfolding command_event_def
    by (simp add: mainloop_def harbor_command_def Let_def t PTYPE_HARBOR_def PTYPE_SOCKET_def)
qed

lemma socket_bytes_simps [simp]:
  "socket_bytes fd [] = []" "socket_bytes fd (xs @ ys) = socket_bytes fd xs @ socket_bytes fd ys"
  "socket_bytes fd (H_socket_send fd bs # xs) = bs @ socket_bytes fd xs" "socket_bytes fd (H_socket_start f # xs) = socket_bytes fd xs"
  "socket_bytes fd (map (\<lambda>m. H_socket_send fd (g m)) ms) = concat (map g ms)"
  by (simp_all add: socket_bytes_def comp_def)

text \<open>Messages sent before the connection, the connection, and messages after it: all of them go out in order.\<close>

lemma link_sends:
  assumes "hb_s a j = slave_zero" "accept_command msg fd j" "int j \<noteq> hb_id a" "\<forall>m \<in> set (ms1 @ ms2). for_node j m"
  shows "\<exists>a' calls. harbor_run reach (map send_event ms1 @ command_event msg src # map send_event ms2) a = Some (a', calls) \<and>
    socket_bytes fd calls = word_of_int (hb_id a) # concat (map (frame 4) (map net_packet (ms1 @ ms2)))"
proof -
  have j: "0 < j" "fd \<noteq> 0" using assms(2) by (auto simp: accept_command_def)
  let ?put = "\<lambda>s. put_slave j s a"
  obtain q where q: "harbor_run reach (map send_event ms1) a = Some (?put (slave_zero\<lparr>sl_queue := q\<rparr>), [])" "queue_holds q (map waiting_msg ms1)"
    using sends_wait[of ms1 j a "[]" reach] assms j by (auto simp: slave_zero_def queue_holds_def)
  let ?s = "slave_zero\<lparr>sl_fd := fd, sl_status := STATUS_HEADER, sl_queue := None\<rparr>"
  have c: "harbor_run reach [command_event msg src] (?put (slave_zero\<lparr>sl_queue := q\<rparr>)) =
    Some (?put ?s, H_socket_start fd # H_socket_send fd [word_of_int (hb_id a)] # map (\<lambda>m. H_socket_send fd (frame 4 (net_packet m))) ms1)"
    using accept_connects[OF assms(2), of "?put (slave_zero\<lparr>sl_queue := q\<rparr>)" "map waiting_msg ms1"] q(2) waiting_frames[of ms1 j fd] assms(4)
    by (simp add: slave_zero_def)
  have g: "harbor_run reach (map send_event ms2) (?put ?s) = Some (?put ?s, map (\<lambda>m. H_socket_send fd (frame 4 (net_packet m))) ms2)"
    using sends_go[of ms2 j "?put ?s" reach] assms j by simp
  show ?thesis using harbor_run_append[OF q(1) harbor_run_Cons[OF c g]] by (auto simp: comp_def)
qed

section \<open>The other side\<close>

definition is_send :: "harbor_call \<Rightarrow> bool" where
  "is_send c = (case c of H_send _ _ _ _ _ _ \<Rightarrow> True | _ \<Rightarrow> False)"

definition sendable :: "harbor_msg \<Rightarrow> bool" where
  "sendable m \<longleftrightarrow> hm_size m \<le> length (case hm_buffer m of Some b \<Rightarrow> b | None \<Rightarrow> [])"

lemma sendable_calls: "\<forall>m \<in> set xs. sendable m \<Longrightarrow> \<exists>calls. call_all (send_waiting fd) xs = Some calls \<and> filter is_send calls = []"
proof (induction xs)
  case (Cons m xs)
  then have "\<exists>c. send_waiting fd m = Some c \<and> filter is_send c = []"
    by (auto simp: send_waiting_def send_remote_def sendable_def Let_def is_send_def)
  then show ?case using Cons by auto
qed simp

lemma shake_receives:
  assumes "sl_status (hb_s b i) = STATUS_HANDSHAKE" "sl_fd (hb_s b i) \<noteq> 0" "queue_holds (sl_queue (hb_s b i)) xs" "\<forall>m \<in> set xs. sendable m"
    "length (sl_size (hb_s b i)) = 4" "sl_read (hb_s b i) = 0" "i < 256" "packets_ok (reaches reach (hb_id b)) rest"
  shows "\<exists>qc ps s'. receive_loop reach i (word_of_nat i # rest) b = Some (put_slave i s' b, qc @ map (delivery (hb_id b)) ps) \<and>
    filter is_send qc = [] \<and> link_ok s' \<and> unframe 4 rest = (ps, held s') \<and> sl_fd s' = sl_fd (hb_s b i)"
proof -
  let ?s = "(hb_s b i)\<lparr>sl_status := STATUS_HEADER\<rparr>" and ?t = "(hb_s b i)\<lparr>sl_status := STATUS_HEADER, sl_queue := None\<rparr>"
  obtain qc where qc: "call_all (send_waiting (sl_fd (hb_s b i))) xs = Some qc" "filter is_send qc = []" using sendable_calls[OF assms(4)] by blast
  have d: "harbor_dispatch_queue i (put_slave i ?s b) = Some (put_slave i ?t b, qc)"
    using harbor_dispatch_queue_holds[of "put_slave i ?s b" i xs qc] assms(2,3) qc(1) by simp
  have ok: "link_ok ?t" "held ?t = []" using assms(5,6) by (auto simp: link_ok_def held_def)
  have "receives reach i rest (put_slave i ?t b)" by (rule receive_ok) (use ok assms in simp_all)
  then obtain ps s' where r: "receive_loop reach i rest (put_slave i ?t b) = Some (put_slave i s' b, map (delivery (hb_id b)) ps)"
      "link_ok s'" "unframe 4 rest = (ps, held s')" "sl_fd s' = sl_fd (hb_s b i)"
    unfolding receives_def using ok by auto
  have "unat (word_of_nat i :: u8) = i" using assms(7) by (simp add: unat_of_nat)
  then have "receive_loop reach i (word_of_nat i # rest) b = Some (put_slave i s' b, qc @ map (delivery (hb_id b)) ps)"
    using assms(1) d r(1) by (subst receive_loop.simps) simp
  then show ?thesis using r qc by blast
qed

section \<open>Both sides\<close>

text \<open>The first piece of the stream, which begins with the handshake.\<close>

lemma shake_feed:
  assumes "slave_of_fd b f = Some i" "f \<noteq> 0" "sl_status (hb_s b i) = STATUS_HANDSHAKE" "queue_holds (sl_queue (hb_s b i)) xs" "\<forall>m \<in> set xs. sendable m"
    "length (sl_size (hb_s b i)) = 4" "sl_read (hb_s b i) = 0" "i < 256" "packets_ok (reaches reach (hb_id b)) rest"
  shows "\<exists>qc ps b1. harbor_feed reach f (word_of_nat i # rest) b = Some (qc @ map (delivery (hb_id b)) ps, b1) \<and> filter is_send qc = [] \<and>
    links (hb_id b) {f} b1 \<and> unframe 4 rest = (ps, link_held f b1)"
proof -
  have f: "sl_fd (hb_s b i) = f" using slave_of_fd_fd[OF assms(1)] .
  obtain qc ps s' where r: "receive_loop reach i (word_of_nat i # rest) b = Some (put_slave i s' b, qc @ map (delivery (hb_id b)) ps)"
      "filter is_send qc = []" "link_ok s'" "unframe 4 rest = (ps, held s')" "sl_fd s' = sl_fd (hb_s b i)"
    using shake_receives[of b i xs reach rest] assms f by blast
  note g = slave_of_fd_put[OF r(5)]
  have "links (hb_id b) {f} (put_slave i s' b)" "link_held f (put_slave i s' b) = held s'"
    using r(3) assms(1) by (simp_all add: links_def link_held_def g)
  moreover have "harbor_feed reach f (word_of_nat i # rest) b = Some (qc @ map (delivery (hb_id b)) ps, put_slave i s' b)"
    unfolding harbor_feed_loop[OF assms(1)] r(1) by simp
  ultimately show ?thesis using r(2,4) by auto
qed

lemma stream_arrives:
  assumes b: "slave_of_fd b f = Some i" "f \<noteq> 0" "sl_status (hb_s b i) = STATUS_HANDSHAKE" "queue_holds (sl_queue (hb_s b i)) xs" "\<forall>m \<in> set xs. sendable m"
    "length (sl_size (hb_s b i)) = 4" "sl_read (hb_s b i) = 0" "i < 256"
    and cs: "[] \<notin> set cs" "concat cs = word_of_nat i # concat (map (frame 4) ps)" and ps: "\<forall>p \<in> set ps. 12 \<le> length p \<and> length p < 2 ^ 24 \<and> reaches reach (hb_id b) p"
  shows "\<exists>outs b'. feed_all (harbor_feed reach f) cs b = Some (outs, b') \<and> filter is_send outs = map (delivery (hb_id b)) ps"
proof -
  obtain rest ds where c: "cs = (word_of_nat i # rest) # ds" using cs by (cases cs; cases "hd cs") auto
  then have st: "rest @ concat ds = concat (map (frame 4) ps)" using cs(2) by simp
  have pk: "packets_ok (reaches reach (hb_id b)) (rest @ concat ds)" unfolding st by (rule packets_ok_frames[OF ps])
  obtain qc qs b1 where f: "harbor_feed reach f (word_of_nat i # rest) b = Some (qc @ map (delivery (hb_id b)) qs, b1)" "filter is_send qc = []"
      "links (hb_id b) {f} b1" "unframe 4 rest = (qs, link_held f b1)"
    using shake_feed[OF b(1-8) packets_ok_prefix[OF pk]] by blast
  have u: "snd (unframe 4 (link_held f b1)) = link_held f b1" using unframe_leftover_idem[of 4 rest] f(4) by simp
  have pk1: "packets_ok (reaches reach (hb_id b)) (link_held f b1 @ concat ds)" using packets_ok_left[OF pk] f(4) by simp
  obtain b' where d: "feed_all (harbor_feed reach f) ds b1 = Some (map (delivery (hb_id b)) (fst (unframe 4 (link_held f b1 @ concat ds))), b')"
    using hb.one.feed_all_unframe[of "hb_id b" "{f}" b1 f ds reach, OF _ _ pk1 u] f(3) cs(1) c by auto
  have "unframe 4 (rest @ concat ds) = (ps, [])" unfolding st by (rule unframe_frames) (use ps in auto)
  then have ps': "ps = qs @ fst (unframe 4 (link_held f b1 @ concat ds))" using unframe_append[of 4 rest "concat ds"] f(4) by simp
  have "filter is_send (map (delivery n) rs) = map (delivery n) rs" for n rs by (simp add: filter_id_conv is_send_def delivery_def Let_def)
  then show ?thesis using f(1,2) d unfolding c ps' by simp
qed

lemma net_packet_target: "for_node k m \<Longrightarrow> target (int k) (net_packet m) = nm_destination m"
  using delivery_arrival[of k m] by (simp add: delivery_def arrival_def Let_def)

lemma net_packet_length: "for_node j m \<Longrightarrow> 12 \<le> length (net_packet m) \<and> length (net_packet m) < 2 ^ 24"
  by (auto simp: for_node_def net_packet_def packet_def)



section \<open>Names\<close>

lemma hash_search_insert: "hash_search (hash_insert m name) name = Some \<lparr>kv_key = take GLOBALNAME_LENGTH name, kv_hash = name_hash name, kv_value = 0, kv_queue = None\<rparr>"
  by (simp add: hash_search_def hash_insert_def node_matches_def same_name_def)

lemma find_set_first: "find (node_matches name) ns = Some n \<Longrightarrow> node_matches name n' \<Longrightarrow> find (node_matches name) (set_first name n' ns) = Some n'"
  by (induction ns) (auto split: if_splits)

lemma hash_search_set: "hash_search m name = Some n \<Longrightarrow> node_matches name n' \<Longrightarrow> hash_search (hash_set m name n') name = Some n'"
  by (simp add: hash_search_def hash_set_def find_set_first)

lemma hash_search_matches: "hash_search m name = Some n \<Longrightarrow> node_matches name n"
  by (auto simp: hash_search_def find_Some_iff)

text \<open>The messages that wait for a name no handle is known of.\<close>

definition name_waits :: "harbor \<Rightarrow> u8 list \<Rightarrow> harbor_msg list \<Rightarrow> bool" where
  "name_waits h name xs \<longleftrightarrow> (case hash_search (hb_map h) name of None \<Rightarrow> xs = [] | Some node \<Rightarrow> kv_value node = 0 \<and> queue_holds (kv_queue node) xs)"

definition by_name :: "net_msg \<Rightarrow> bool" where
  "by_name m \<longleftrightarrow> nm_destination m = 0 \<and> for_node 0 m"

definition name_event :: "u8 list \<Rightarrow> net_msg \<Rightarrow> harbor_event" where
  "name_event name m =
     (nm_type m, nm_session m, nm_source m,
      Some (Remote \<lparr>rm_name = name, rm_handle = 0, rm_message = Some (nm_data m), rm_sz = word_of_nat (length (nm_data m))\<rparr>),
      unat REMOTE_MESSAGE_SIZE)"

definition name_query :: "harbor \<Rightarrow> u8 list \<Rightarrow> harbor_call" where
  "name_query h name =
     (let query = ''Q '' @ c_string (of_bytes (take GLOBALNAME_LENGTH name))
      in H_send 0 (hb_slave h) (word_of_nat PTYPE_TEXT) 0 (Some (cstr query)) (length query))"

lemma name_send_waits:
  assumes "by_name m" "name_waits h name xs"
  shows "\<exists>t. harbor_run reach [name_event name m] h = Some (h\<lparr>hb_map := t\<rparr>, [name_query h name]) \<and> name_waits (h\<lparr>hb_map := t\<rparr>) name (xs @ [waiting_msg m])"
proof -
  let ?t = "if hash_search (hb_map h) name = None then hash_insert (hb_map h) name else hb_map h"
  obtain n where n: "hash_search ?t name = Some n" "kv_value n = 0" "queue_holds (kv_queue n) xs"
    using assms(2) by (cases "hash_search (hb_map h) name") (auto simp: name_waits_def hash_search_insert queue_holds_def)
  let ?q = "case kv_queue n of None \<Rightarrow> harbor_new_queue | Some q \<Rightarrow> q"
  have "queue_rep ?q xs" using n(3) queue_rep_new by (auto simp: queue_holds_def split: option.splits)
  then obtain q where q: "push_queue_msg (waiting_msg m) ?q = Some q" "queue_rep q (xs @ [waiting_msg m])" using queue_rep_push by blast
  let ?n = "n\<lparr>kv_queue := Some q\<rparr>"
  have "hash_search (hash_set ?t name ?n) name = Some ?n"
    using hash_search_set[OF n(1), of ?n] hash_search_matches[OF n(1)] by (simp add: node_matches_def)
  then have "name_waits (h\<lparr>hb_map := hash_set ?t name ?n\<rparr>) name (xs @ [waiting_msg m])" using n(2) q(2) by (simp add: name_waits_def queue_holds_def)
  moreover have w: "\<lparr>hm_header = msg_header (nm_source m) (nm_type m) 0 (nm_session m), hm_buffer = Some (nm_data m), hm_size = length (nm_data m)\<rparr> = waiting_msg m"
    using assms(1) by (simp add: waiting_msg_def by_name_def)
  have "length (nm_data m) + 12 < 2 ^ 24" "nm_type m \<noteq> PTYPE_SOCKET" "nm_type m \<noteq> PTYPE_HARBOR" using assms(1) by (auto simp: by_name_def for_node_def)
  then have "harbor_run reach [name_event name m] h = Some (h\<lparr>hb_map := hash_set ?t name ?n\<rparr>, [name_query h name])"
    using n(1,2) q(1) small_size[of "nm_data m"]
    by (simp add: name_event_def mainloop_def remote_send_name_def Let_def push_queue_def w name_query_def)
  ultimately show ?thesis by blast
qed

lemma name_sends_wait:
  assumes "\<forall>m \<in> set ms. by_name m" "name_waits h name xs"
  shows "\<exists>t. harbor_run reach (map (name_event name) ms) h = Some (h\<lparr>hb_map := t\<rparr>, replicate (length ms) (name_query h name)) \<and>
    name_waits (h\<lparr>hb_map := t\<rparr>) name (xs @ map waiting_msg ms)"
  using assms
proof (induction ms arbitrary: h xs)
  case Nil
  then show ?case by (intro exI[of _ "hb_map h"]) simp
next
  case (Cons m ms)
  obtain t where t: "harbor_run reach [name_event name m] h = Some (h\<lparr>hb_map := t\<rparr>, [name_query h name])"
    "name_waits (h\<lparr>hb_map := t\<rparr>) name (xs @ [waiting_msg m])" using name_send_waits[of m h name xs reach] Cons.prems by auto
  obtain u where u: "harbor_run reach (map (name_event name) ms) (h\<lparr>hb_map := t\<rparr>) = Some (h\<lparr>hb_map := u\<rparr>, replicate (length ms) (name_query h name))"
    "name_waits (h\<lparr>hb_map := u\<rparr>) name ((xs @ [waiting_msg m]) @ map waiting_msg ms)"
    using Cons.IH[OF _ t(2)] Cons.prems(1) by (auto simp: name_query_def)
  show ?case using harbor_run_Cons[OF t(1) u(1)] u(2) by (intro exI[of _ u]) simp
qed

text \<open>The text of a command that tells the handle of a name.\<close>

definition name_command :: "u8 list \<Rightarrow> u8 list \<Rightarrow> bool" where
  "name_command msg name \<longleftrightarrow> 2 < length msg \<and> length msg < 2 + GLOBALNAME_LENGTH \<and> msg ! 0 = 78 \<and>
     name = drop 2 msg @ replicate (GLOBALNAME_LENGTH - (length msg - 2)) 0"

lemma char_N: "char_of (unat (78 :: u8)) = CHR ''N''"
  by code_simp

lemma name_command_runs:
  assumes "name_command msg name"
  shows "harbor_run reach [command_event msg handle] h = update_name name handle h"
proof -
  have "msg \<noteq> []" "\<not> (int (length msg) - 2 \<le> 0 \<or> int GLOBALNAME_LENGTH \<le> int (length msg) - 2)" "char_of (unat (msg ! 0)) = CHR ''N''"
    "take (nat (int (length msg) - 2)) (drop 2 msg) @ replicate (GLOBALNAME_LENGTH - nat (int (length msg) - 2)) 0 = name"
    using assms char_N by (auto simp: name_command_def nat_diff_distrib)
  then show ?thesis unfolding command_event_def
    by (cases "update_name name handle h") (auto simp: mainloop_def harbor_command_def Let_def PTYPE_HARBOR_def PTYPE_SOCKET_def)
qed

lemma name_waits_Cons:
  "name_waits h name (x # xs) \<Longrightarrow> \<exists>n q. hash_search (hb_map h) name = Some n \<and> kv_queue n = Some q \<and> queue_rep q (x # xs)"
  by (auto simp: name_waits_def queue_holds_def split: option.splits)

lemma release_emptied: "release_queue (Some (q\<lparr>hq_head := hq_tail q\<rparr>)) = Some ()"
  by (simp add: release_queue_def pop_msgs.simps[of "q\<lparr>hq_head := hq_tail q\<rparr>"] pop_queue_def)

lemma waiting_by_name:
  assumes "by_name m"
  shows "send_waiting fd (add_handle handle (waiting_msg m)) = Some [H_socket_send fd (frame 4 (net_packet (m\<lparr>nm_destination := handle\<rparr>)))]"
proof -
  have "length (nm_data m) + 12 < 2 ^ 32" "nm_destination m = 0" using assms by (simp_all add: by_name_def for_node_def)
  from send_remote_frame[OF this(1)] this(2) show ?thesis
    by (simp add: send_waiting_def add_handle_def waiting_msg_def net_packet_def msg_header_def)
qed

lemma waiting_by_names:
  "\<forall>m \<in> set ms. by_name m \<Longrightarrow> call_all (\<lambda>m. send_waiting fd (add_handle handle m)) (map waiting_msg ms) =
    Some (map (\<lambda>m. H_socket_send fd (frame 4 (net_packet (m\<lparr>nm_destination := handle\<rparr>)))) ms)"
  by (induction ms) (simp_all add: waiting_by_name)

lemma name_resolves:
  assumes "name_command msg name" "name_waits h name (map waiting_msg ms)" "ms \<noteq> []" "\<forall>m \<in> set ms. by_name m"
    "unat (drop_bit 24 handle) = k" "sl_fd (hb_s h k) \<noteq> 0"
  shows "\<exists>t n. harbor_run reach [command_event msg handle] h =
      Some (h\<lparr>hb_map := t\<rparr>, map (\<lambda>m. H_socket_send (sl_fd (hb_s h k)) (frame 4 (net_packet (m\<lparr>nm_destination := handle\<rparr>)))) ms) \<and>
    hash_search t name = Some n \<and> kv_value n = handle \<and> kv_queue n = None"
proof -
  obtain n q where n: "hash_search (hb_map h) name = Some n" "kv_queue n = Some q" "queue_rep q (map waiting_msg ms)"
    using assms(2,3) name_waits_Cons by (cases ms) fastforce+
  let ?n = "n\<lparr>kv_value := handle, kv_queue := None\<rparr>"
  have "hash_search (hash_set (hb_map h) name ?n) name = Some ?n"
    using hash_search_set[OF n(1), of ?n] hash_search_matches[OF n(1)] by (simp add: node_matches_def)
  moreover have "update_name name handle h = Some (h\<lparr>hb_map := hash_set (hb_map h) name ?n\<rparr>,
      map (\<lambda>m. H_socket_send (sl_fd (hb_s h k)) (frame 4 (net_packet (m\<lparr>nm_destination := handle\<rparr>)))) ms)"
    using n(1,2) assms(5,6) pop_msgs_rep[OF n(3)] waiting_by_names[OF assms(4)] release_emptied[of q]
    by (simp add: update_name_def Let_def dispatch_name_queue_def HANDLE_REMOTE_SHIFT_def)
  ultimately show ?thesis unfolding name_command_runs[OF assms(1)] by fastforce
qed

lemma name_hands_over:
  assumes "name_command msg name" "name_waits h name (map waiting_msg ms)" "ms \<noteq> []"
    "unat (drop_bit 24 handle) = k" "hb_s h k = slave_zero" "unat (drop_bit 24 (hb_slave h)) \<noteq> k"
  shows "\<exists>t q. harbor_run reach [command_event msg handle] h = Some (put_slave k (slave_zero\<lparr>sl_queue := Some q\<rparr>) h\<lparr>hb_map := t\<rparr>, []) \<and> queue_rep q (map waiting_msg ms)"
proof -
  obtain n q where n: "hash_search (hb_map h) name = Some n" "kv_queue n = Some q" "queue_rep q (map waiting_msg ms)"
    using assms(2,3) name_waits_Cons by (cases ms) fastforce+
  let ?n = "n\<lparr>kv_value := handle, kv_queue := None\<rparr>"
  have "update_name name handle h = Some (put_slave k (slave_zero\<lparr>sl_queue := Some q\<rparr>) h\<lparr>hb_map := hash_set (hb_map h) name ?n\<rparr>, [])"
    using n(1,2) assms(4-6) by (simp add: update_name_def Let_def dispatch_name_queue_def HANDLE_REMOTE_SHIFT_def release_queue_def slave_zero_def)
  then show ?thesis unfolding name_command_runs[OF assms(1)] using n(3) by fastforce
qed

text \<open>
  C38. Messages to a global name that is not known yet wait, each with a query for the name to the slave service; when the name is told and its node
  is connected, they go out in order as packets for the handle of the name, and the name is known from then on with nothing left waiting.
\<close>

theorem name_messages_resolve:
  assumes "hash_search (hb_map h) name = None" "\<forall>m \<in> set ms. by_name m" "ms \<noteq> []" "name_command msg name"
    and "unat (drop_bit 24 handle) = k" "sl_fd (hb_s h k) \<noteq> 0"
  shows "\<exists>t n. harbor_run reach (map (name_event name) ms @ [command_event msg handle]) h =
      Some (h\<lparr>hb_map := t\<rparr>, replicate (length ms) (name_query h name) @
        map (\<lambda>m. H_socket_send (sl_fd (hb_s h k)) (frame 4 (net_packet (m\<lparr>nm_destination := handle\<rparr>)))) ms) \<and>
    hash_search t name = Some n \<and> kv_value n = handle \<and> kv_queue n = None"
proof -
  have "name_waits h name []" using assms(1) by (simp add: name_waits_def)
  from name_sends_wait[OF assms(2) this] obtain t where t: "harbor_run reach (map (name_event name) ms) h =
      Some (h\<lparr>hb_map := t\<rparr>, replicate (length ms) (name_query h name))" "name_waits (h\<lparr>hb_map := t\<rparr>) name (map waiting_msg ms)" by auto
  from name_resolves[OF assms(4) t(2) assms(3,2,5), of reach] assms(6) obtain u n where u: "harbor_run reach [command_event msg handle] (h\<lparr>hb_map := t\<rparr>) =
      Some (h\<lparr>hb_map := u\<rparr>, map (\<lambda>m. H_socket_send (sl_fd (hb_s h k)) (frame 4 (net_packet (m\<lparr>nm_destination := handle\<rparr>)))) ms)"
    "hash_search u name = Some n" "kv_value n = handle" "kv_queue n = None" by auto
  show ?thesis using harbor_run_append[OF t(1) u(1)] u(2-4) by blast
qed

theorem name_messages_resolve_witness:
  "let h = harbor_create\<lparr>hb_id := 1, hb_s := (hb_s harbor_create)(2 := slave_zero\<lparr>sl_fd := 7, sl_status := STATUS_HEADER\<rparr>)\<rparr>;
       name = [100, 98] @ replicate 14 0;
       m = \<lparr>nm_source = 0x01000003, nm_destination = 0, nm_type = 0, nm_session = 9, nm_data = [1, 2]\<rparr>
   in \<exists>t n. harbor_run (\<lambda>_. True) (map (name_event name) [m] @ [command_event [78, 32, 100, 98] 0x02000005]) h =
      Some (h\<lparr>hb_map := t\<rparr>, replicate 1 (name_query h name) @ [H_socket_send 7 (frame 4 (net_packet (m\<lparr>nm_destination := 0x02000005\<rparr>)))]) \<and>
    hash_search t name = Some n \<and> kv_value n = 0x02000005 \<and> kv_queue n = None"
proof -
  let ?h = "harbor_create\<lparr>hb_id := 1, hb_s := (hb_s harbor_create)(2 := slave_zero\<lparr>sl_fd := 7, sl_status := STATUS_HEADER\<rparr>)\<rparr>"
  let ?m = "\<lparr>nm_source = 0x01000003, nm_destination = 0, nm_type = 0, nm_session = 9, nm_data = [1, 2]\<rparr>"
  have h: "hash_search (hb_map ?h) ([100, 98] @ replicate 14 0) = None" "sl_fd (hb_s ?h 2) = 7"
    by (simp_all add: harbor_create_def hash_new_def hash_search_def)
  have m: "\<forall>m \<in> set [?m]. by_name m" by (simp add: by_name_def for_node_def PTYPE_SOCKET_def PTYPE_HARBOR_def)
  have c: "name_command [78, 32, 100, 98] ([100, 98] @ replicate 14 0)" by (simp add: name_command_def GLOBALNAME_LENGTH_def)
  have k: "unat (drop_bit 24 (0x02000005 :: u32)) = 2" by simp
  show ?thesis using name_messages_resolve[OF h(1) m _ c k, of "\<lambda>_. True"] unfolding h(2) Let_def by simp
qed

text \<open>
  C39. When the node of the name is not connected yet, the waiting messages are handed over to the queue of the node as they are: the handle is never
  put into them. Once the connection comes, they go out as packets for handle 0 of the node, and are lost there.
\<close>

theorem name_message_loses_handle:
  assumes "hash_search (hb_map h) name = None" "\<forall>m \<in> set ms. by_name m" "ms \<noteq> []" "name_command msg name"
    and "unat (drop_bit 24 handle) = k" "hb_s h k = slave_zero" "unat (drop_bit 24 (hb_slave h)) \<noteq> k" "accept_command msg' fd k"
  shows "\<exists>h'. harbor_run reach (map (name_event name) ms @ [command_event msg handle, command_event msg' src]) h =
      Some (h', replicate (length ms) (name_query h name) @ H_socket_start fd # H_socket_send fd [word_of_int (hb_id h)] #
        map (\<lambda>m. H_socket_send fd (frame 4 (net_packet (m\<lparr>nm_destination := 0\<rparr>)))) ms)"
proof -
  have "name_waits h name []" using assms(1) by (simp add: name_waits_def)
  from name_sends_wait[OF assms(2) this] obtain t where t: "harbor_run reach (map (name_event name) ms) h =
      Some (h\<lparr>hb_map := t\<rparr>, replicate (length ms) (name_query h name))" "name_waits (h\<lparr>hb_map := t\<rparr>) name (map waiting_msg ms)" by auto
  from name_hands_over[OF assms(4) t(2) assms(3,5), of reach] assms(6,7) obtain u q where u: "harbor_run reach [command_event msg handle] (h\<lparr>hb_map := t\<rparr>) =
      Some (put_slave k (slave_zero\<lparr>sl_queue := Some q\<rparr>) (h\<lparr>hb_map := t\<rparr>)\<lparr>hb_map := u\<rparr>, [])" "queue_rep q (map waiting_msg ms)" by auto
  let ?h = "put_slave k (slave_zero\<lparr>sl_queue := Some q\<rparr>) (h\<lparr>hb_map := t\<rparr>)\<lparr>hb_map := u\<rparr>"
  have s: "sl_fd (hb_s ?h k) = 0" "queue_holds (sl_queue (hb_s ?h k)) (map waiting_msg ms)" "hb_id ?h = hb_id h"
    using u(2) by (simp_all add: slave_zero_def queue_holds_def put_slave_def)
  have z: "map (\<lambda>m. H_socket_send fd (frame 4 (net_packet (m\<lparr>nm_destination := 0\<rparr>)))) ms = map (\<lambda>m. H_socket_send fd (frame 4 (net_packet m))) ms"
    using assms(2) by (auto simp: by_name_def net_packet_def)
  have "\<forall>m \<in> set ms. for_node 0 m" using assms(2) by (simp add: by_name_def)
  from accept_connects[OF assms(8) s(1,2) waiting_frames[OF this]] s(3) z harbor_run_Cons[OF u(1)] have
    "\<exists>h'. harbor_run reach [command_event msg handle, command_event msg' src] (h\<lparr>hb_map := t\<rparr>) =
      Some (h', H_socket_start fd # H_socket_send fd [word_of_int (hb_id h)] # map (\<lambda>m. H_socket_send fd (frame 4 (net_packet (m\<lparr>nm_destination := 0\<rparr>)))) ms)"
    by fastforce
  then show ?thesis using harbor_run_append[OF t(1)] by blast
qed

theorem name_message_loses_handle_witness:
  "let h = harbor_create\<lparr>hb_id := 1, hb_slave := 0x01000001\<rparr>; name = [100, 98] @ replicate 14 0;
       m = \<lparr>nm_source = 0x01000003, nm_destination = 0, nm_type = 0, nm_session = 9, nm_data = [1, 2]\<rparr>
   in \<exists>h'. harbor_run (\<lambda>_. True) (map (name_event name) [m] @ [command_event [78, 32, 100, 98] 0x02000005, command_event [65, 32, 53, 32, 50] 0]) h =
      Some (h', replicate 1 (name_query h name) @ [H_socket_start 5, H_socket_send 5 [1], H_socket_send 5 (frame 4 (net_packet m))])"
proof -
  let ?h = "harbor_create\<lparr>hb_id := 1, hb_slave := 0x01000001\<rparr>"
  let ?m = "\<lparr>nm_source = 0x01000003, nm_destination = 0, nm_type = 0, nm_session = 9, nm_data = [1, 2]\<rparr>"
  have h: "hash_search (hb_map ?h) ([100, 98] @ replicate 14 0) = None" "hb_s ?h 2 = slave_zero" "hb_id ?h = 1"
    by (simp_all add: harbor_create_def hash_new_def hash_search_def)
  have m: "\<forall>m \<in> set [?m]. by_name m" by (simp add: by_name_def for_node_def PTYPE_SOCKET_def PTYPE_HARBOR_def)
  have c: "name_command [78, 32, 100, 98] ([100, 98] @ replicate 14 0)" by (simp add: name_command_def GLOBALNAME_LENGTH_def)
  have k: "unat (drop_bit 24 (0x02000005 :: u32)) = 2" "unat (drop_bit 24 (hb_slave ?h)) \<noteq> 2" by simp_all
  have a: "accept_command [65, 32, 53, 32, 50] 5 2" by code_simp
  show ?thesis using name_message_loses_handle[OF h(1) m _ c k(1) h(2) k(2) a, of "\<lambda>_. True" 0] unfolding h(3) Let_def by simp
qed

section \<open>A node that failed\<close>

lemma bad_handshake:
  assumes "sl_status (hb_s h i) = STATUS_HANDSHAKE" "slave_of_fd h f = Some i" "f \<noteq> 0" "queue_holds (sl_queue (hb_s h i)) xs" "unat x \<noteq> i"
  shows "\<exists>t. harbor_run reach [(PTYPE_SOCKET, ses, src, Some (Socket (node_data f (x # rest))), sz)] h =
    Some (put_slave i ((hb_s h i)\<lparr>sl_status := STATUS_DOWN, sl_queue := None\<rparr>) h, [H_error t, H_socket_close f])"
proof -
  have "release_queue (sl_queue (hb_s h i)) = Some ()"
    using assms(4) pop_msgs_rep by (auto simp: queue_holds_def release_queue_def split: option.splits)
  then have "\<exists>t. receive_loop reach i (x # rest) h =
      Some (put_slave i ((hb_s h i)\<lparr>sl_status := STATUS_DOWN, sl_queue := None\<rparr>) h, [H_error t, H_socket_close f])"
    using assms slave_of_fd_fd[OF assms(2)] by (subst receive_loop.simps) (simp add: close_harbor_def Let_def then_calls_def)
  then show ?thesis using assms(2) by (auto simp: mainloop_def harbor_socket_def push_socket_data_def node_data_def)
qed

lemma accept_refused:
  assumes "accept_command msg fd k" "sl_fd (hb_s h k) \<noteq> 0"
  shows "harbor_run reach [command_event msg src] h = Some (h, [H_error (''Harbor '' @ show_d (int k) @ '' alreay exist'')])"
proof -
  have c: "msg \<noteq> []" "char_of (unat (msg ! 0)) = CHR ''A''" "int (length msg) - 2 \<ge> 0" "scan_fd_id (c_string (of_bytes (drop 2 msg))) = (fd, int k)"
    "fd \<noteq> 0" "0 < k" "k < REMOTE_MAX" using assms(1) char_A unfolding accept_command_def by auto
  have "harbor_connect (CHR ''A'') (c_string (of_bytes (drop 2 msg))) h = Some (h, [H_error (''Harbor '' @ show_d (int k) @ '' alreay exist'')])"
    unfolding harbor_connect_def c(4) using c(5-7) assms(2) by simp
  then show ?thesis using c(1-3) unfolding command_event_def
    by (simp add: mainloop_def harbor_command_def Let_def PTYPE_HARBOR_def PTYPE_SOCKET_def)
qed

text \<open>
  A node whose handshake is wrong is closed for good, and silently: the slot keeps the number of the closed socket, so that a message to the node
  is still written to it instead of being answered with an error (the branch for nodes that are down asks for the number 0), and a new connection of
  the node is refused as already there.
\<close>

theorem down_node_swallows:
  assumes "sl_status (hb_s h i) = STATUS_HANDSHAKE" "slave_of_fd h f = Some i" "f \<noteq> 0" "queue_holds (sl_queue (hb_s h i)) xs" "unat x \<noteq> i"
    and "for_node i m" "0 < i" "int i \<noteq> hb_id h" "accept_command msg fd i"
  shows "\<exists>h' t. harbor_run reach [(PTYPE_SOCKET, 0, 0, Some (Socket (node_data f (x # rest))), SOCKET_MESSAGE_SIZE), send_event m, command_event msg src] h =
    Some (h', [H_error t, H_socket_close f, H_socket_send f (frame 4 (net_packet m)), H_error (''Harbor '' @ show_d (int i) @ '' alreay exist'')])"
proof -
  let ?h = "put_slave i ((hb_s h i)\<lparr>sl_status := STATUS_DOWN, sl_queue := None\<rparr>) h"
  obtain t where t: "harbor_run reach [(PTYPE_SOCKET, 0, 0, Some (Socket (node_data f (x # rest))), SOCKET_MESSAGE_SIZE)] h = Some (?h, [H_error t, H_socket_close f])"
    using bad_handshake[OF assms(1-5)] by blast
  have s: "sl_fd (hb_s ?h i) = f" using slave_of_fd_fd[OF assms(2)] by simp
  have "harbor_run reach [send_event m] ?h = Some (?h, [H_socket_send f (frame 4 (net_packet m))])"
    using send_goes[OF assms(6,7), of ?h reach] assms(3,8) s by simp
  moreover have "harbor_run reach [command_event msg src] ?h = Some (?h, [H_error (''Harbor '' @ show_d (int i) @ '' alreay exist'')])"
    using accept_refused[OF assms(9), of ?h] assms(3) s by simp
  ultimately show ?thesis using harbor_run_Cons[OF t harbor_run_Cons] by fastforce
qed

theorem down_node_swallows_witness:
  "let h = harbor_create\<lparr>hb_id := 1, hb_s := (hb_s harbor_create)(2 := slave_zero\<lparr>sl_fd := 7, sl_status := STATUS_HANDSHAKE\<rparr>)\<rparr>;
       m = \<lparr>nm_source = 0x01000003, nm_destination = 0x02000005, nm_type = 0, nm_session = 9, nm_data = [1, 2]\<rparr>
   in \<exists>h' t. harbor_run (\<lambda>_. True) [(PTYPE_SOCKET, 0, 0, Some (Socket (node_data 7 [3])), SOCKET_MESSAGE_SIZE), send_event m, command_event [65, 32, 53, 32, 50] 0] h =
    Some (h', [H_error t, H_socket_close 7, H_socket_send 7 (frame 4 (net_packet m)), H_error (''Harbor '' @ show_d 2 @ '' alreay exist'')])"
proof -
  let ?h = "harbor_create\<lparr>hb_id := 1, hb_s := (hb_s harbor_create)(2 := slave_zero\<lparr>sl_fd := 7, sl_status := STATUS_HANDSHAKE\<rparr>)\<rparr>"
  let ?m = "\<lparr>nm_source = 0x01000003, nm_destination = 0x02000005, nm_type = 0, nm_session = 9, nm_data = [1, 2]\<rparr>"
  have h: "sl_status (hb_s ?h 2) = STATUS_HANDSHAKE" "slave_of_fd ?h 7 = Some 2" "queue_holds (sl_queue (hb_s ?h 2)) []" "int 2 \<noteq> hb_id ?h"
    by (simp_all add: harbor_create_def slave_zero_def slave_of_fd_def REMOTE_MAX_def upt_conv_Cons queue_holds_def)
  have m: "for_node 2 ?m" by (simp add: for_node_def PTYPE_SOCKET_def PTYPE_HARBOR_def)
  have a: "accept_command [65, 32, 53, 32, 50] 5 2" by code_simp
  have x: "unat (3 :: u8) \<noteq> 2" by simp
  show ?thesis using down_node_swallows[OF h(1,2) _ h(3) x m _ h(4) a, of "\<lambda>_. True" "[]" 0] unfolding Let_def by simp
qed

end
