(* ===== verification/Harbor_Inv.thy ===== *)
theory Harbor_Inv
  imports Harbor_Props
begin

text \<open>
  The invariant of the harbor service: every queue is a ring with its messages in order, the reader of every connection is in a state from which it
  goes on, and a slot that is past waiting has a connection. Every message the service handles keeps it.
\<close>

definition queue_fine :: "harbor_msg_queue option \<Rightarrow> bool" where
  "queue_fine q \<longleftrightarrow> (\<exists>xs. queue_holds q xs)"

definition slave_ok :: "slave \<Rightarrow> bool" where
  "slave_ok s \<longleftrightarrow> queue_fine (sl_queue s) \<and> length (sl_size s) = 4 \<and> 0 \<le> sl_read s \<and>
     (case sl_status s of
        STATUS_WAIT \<Rightarrow> sl_fd s = 0 \<and> sl_read s = 0
      | STATUS_HANDSHAKE \<Rightarrow> sl_fd s \<noteq> 0 \<and> sl_read s = 0
      | STATUS_HEADER \<Rightarrow> sl_fd s \<noteq> 0 \<and> sl_read s < 4 \<and> sl_queue s = None
      | STATUS_CONTENT \<Rightarrow> sl_fd s \<noteq> 0 \<and> sl_queue s = None \<and> sl_read s = int (length (sl_recv_buffer s)) \<and> sl_read s \<le> sl_length s \<and> sl_length s < 2 ^ 24
      | STATUS_DOWN \<Rightarrow> sl_fd s \<noteq> 0 \<and> sl_queue s = None)"

definition harbor_ok :: "harbor \<Rightarrow> bool" where
  "harbor_ok h \<longleftrightarrow> (\<forall>i. slave_ok (hb_s h i)) \<and> (\<forall>b. \<forall>n \<in> set (hb_map h b). queue_fine (kv_queue n))"

lemma queue_fine_simps [simp]: "queue_fine None" "queue_fine (Some q) \<longleftrightarrow> (\<exists>xs. queue_rep q xs)" "queue_fine (Some harbor_new_queue)"
  using queue_rep_new by (auto simp: queue_fine_def queue_holds_def)

lemma push_queue_msg_fine: "push_queue_msg m q = Some q' \<Longrightarrow> queue_fine (Some q) \<Longrightarrow> queue_fine (Some q')"
  by simp (metis queue_rep_push option.inject)

lemma push_all_fine: "push_all ms q = Some q' \<Longrightarrow> queue_fine (Some q) \<Longrightarrow> queue_fine (Some q')"
  by (induction ms arbitrary: q) (auto simp: bind_eq_Some_iff simp del: queue_fine_simps dest: push_queue_msg_fine)

lemma put_slave_ok: "harbor_ok h \<Longrightarrow> slave_ok s \<Longrightarrow> harbor_ok (put_slave i s h)"
  by (auto simp: harbor_ok_def put_slave_def)

lemma harbor_ok_slave: "harbor_ok h \<Longrightarrow> slave_ok (hb_s h i)"
  by (simp add: harbor_ok_def)

lemma close_harbor_ok:
  assumes "close_harbor i h = Some (h', calls)" "harbor_ok h" "sl_fd (hb_s h i) \<noteq> 0"
  shows "harbor_ok h'"
  using assms harbor_ok_slave[OF assms(2), of i] by (auto simp: close_harbor_def Let_def bind_eq_Some_iff slave_ok_def intro!: put_slave_ok)

lemma release_slaves_ok: "release_slaves js h = Some (h', calls) \<Longrightarrow> harbor_ok h \<Longrightarrow> harbor_ok h'"
  by (induction js arbitrary: h calls) (auto simp: bind_eq_Some_iff dest: close_harbor_ok split: if_splits)

text \<open>The first bytes of a connection: the queue of the slot goes out, so that none is left.\<close>

lemma harbor_dispatch_queue_ok:
  assumes "harbor_dispatch_queue i (put_slave i s h) = Some (h', calls)" "harbor_ok h" "slave_ok (s\<lparr>sl_queue := None\<rparr>)"
  shows "\<exists>s'. h' = put_slave i s' h \<and> slave_ok s' \<and> sl_fd s' = sl_fd s \<and> sl_status s' = sl_status s"
proof (cases "sl_queue s")
  case None
  then have "s\<lparr>sl_queue := None\<rparr> = s" by (cases s) simp
  then have "slave_ok s" using assms(3) by simp
  then show ?thesis using assms(1) None by (auto simp: harbor_dispatch_queue_def Let_def split: if_splits)
next
  case (Some q)
  then show ?thesis using assms by (auto simp: harbor_dispatch_queue_def Let_def bind_eq_Some_iff split: if_splits)
qed

lemma slave_of_fd_range: "slave_of_fd h fd = Some i \<Longrightarrow> 0 < i \<and> i < REMOTE_MAX"
  by (auto simp: slave_of_fd_def find_Some_iff)

lemma content_length: "int (unat (a :: u8)) * 65536 + int (unat (b :: u8)) * 256 + int (unat (c :: u8)) < 2 ^ 24"
proof -
  have "uint x < 256" for x :: u8 using unsigned_less[of x, where 'a = int] by simp
  from this[of a] this[of b] this[of c] show ?thesis by simp
qed

lemma slave_ok_steps:
  assumes "slave_ok s"
  shows "sl_status s = STATUS_HANDSHAKE \<Longrightarrow> slave_ok (s\<lparr>sl_status := STATUS_HEADER, sl_queue := None\<rparr>)"
    and "sl_status s = STATUS_HEADER \<Longrightarrow> int (length c) < 4 - sl_read s \<Longrightarrow>
      slave_ok (s\<lparr>sl_size := take (nat (sl_read s)) (sl_size s) @ c @ drop (nat (sl_read s) + length c) (sl_size s), sl_read := sl_read s + int (length c)\<rparr>)"
    and "sl_status s = STATUS_HEADER \<Longrightarrow> length z = 4 \<Longrightarrow> slave_ok (s\<lparr>sl_size := z\<rparr>)"
    and "sl_status s = STATUS_HEADER \<Longrightarrow> length z = 4 \<Longrightarrow>
      slave_ok (s\<lparr>sl_size := z, sl_read := 0, sl_recv_buffer := [], sl_status := STATUS_CONTENT,
        sl_length := int (unat (z ! 1)) * 65536 + int (unat (z ! 2)) * 256 + int (unat (z ! 3))\<rparr>)"
    and "sl_status s = STATUS_CONTENT \<Longrightarrow> int (length c) < sl_length s - sl_read s \<Longrightarrow>
      slave_ok (s\<lparr>sl_recv_buffer := sl_recv_buffer s @ c, sl_read := sl_read s + int (length c)\<rparr>)"
    and "sl_status s = STATUS_CONTENT \<Longrightarrow> slave_ok (s\<lparr>sl_length := 0, sl_read := 0, sl_recv_buffer := [], sl_status := STATUS_HEADER\<rparr>)"
    and "sl_status s \<noteq> STATUS_WAIT \<Longrightarrow> sl_fd s \<noteq> 0"
    and "sl_fd s = 0 \<Longrightarrow> sl_status s = STATUS_WAIT"
    and "sl_status s = STATUS_HEADER \<Longrightarrow> \<not> int (length c) < 4 - sl_read s \<Longrightarrow> length (take (nat (sl_read s)) (sl_size s) @ take (nat (4 - sl_read s)) c) = 4"
  using assms content_length[of "z ! 1" "z ! 2" "z ! 3"] unfolding slave_ok_def by (auto split: harbor_status.splits)

text \<open>One pass of the receive loop, with what it does next as a parameter.\<close>

lemma receive_step_handshake:
  assumes st: "sl_status (hb_s h i) = STATUS_HANDSHAKE" and h: "harbor_ok h"
    and IH: "\<And>c h r. f reach i c h = Some r \<Longrightarrow> harbor_ok h \<longrightarrow> harbor_ok (fst r)"
    and r: "(if unat x \<noteq> i then then_calls [e] (close_harbor i h)
      else do { (h1, calls) \<leftarrow> harbor_dispatch_queue i (put_slave i ((hb_s h i)\<lparr>sl_status := STATUS_HEADER\<rparr>) h);
                do { (h2, cs) \<leftarrow> f reach i rest h1; Some (h2, calls @ cs) } }) = Some r"
  shows "harbor_ok (fst r)"
proof (cases "unat x = i")
  case False
  then show ?thesis using r h slave_ok_steps(7)[OF harbor_ok_slave[OF h]] st by (auto simp: then_calls_def dest: close_harbor_ok)
next
  case True
  then obtain h1 calls where d: "harbor_dispatch_queue i (put_slave i ((hb_s h i)\<lparr>sl_status := STATUS_HEADER\<rparr>) h) = Some (h1, calls)" "\<exists>r'. f reach i rest h1 = Some r' \<and> fst r = fst r'"
    using r by (auto simp: bind_eq_Some_iff)
  have "harbor_ok h1" using harbor_dispatch_queue_ok[OF d(1) h] slave_ok_steps(1)[OF harbor_ok_slave[OF h] st] put_slave_ok[OF h] by auto
  then show ?thesis using d(2) IH by fastforce
qed

lemma receive_loop_ok: "receive_loop reach i c h = Some (h', calls) \<Longrightarrow> harbor_ok h \<Longrightarrow> harbor_ok h'"
proof -
  have "harbor_ok h \<longrightarrow> harbor_ok (fst r)" if "receive_loop reach i c h = Some r" for r
  proof (rule receive_loop.raw_induct[OF _ that, where P = "\<lambda>_ _ _ h r. harbor_ok h \<longrightarrow> harbor_ok (fst r)"], rule impI, goal_cases)
    case (1 f reach i c h r)
    note IH = 1(1)
    have s: "slave_ok (hb_s h i)" using 1(3) by (rule harbor_ok_slave)
    show ?case
    proof (cases "sl_status (hb_s h i)")
      case STATUS_HANDSHAKE
      then obtain x rest where c: "c = x # rest" using 1(2) by (cases c) (auto simp: Let_def)
      show ?thesis
        by (rule receive_step_handshake[where f = f and reach = reach, OF STATUS_HANDSHAKE 1(3) IH 1(2)[unfolded Let_def STATUS_HANDSHAKE harbor_status.case c list.case]])
    next
      case STATUS_HEADER
      note ok = slave_ok_steps(2-4,9)[OF s STATUS_HEADER] and fd = slave_ok_steps(7)[OF s]
      show ?thesis using 1(2,3) STATUS_HEADER IH ok(1)[of c] ok(2,3)[OF ok(4)[of c]] fd
        by (auto simp: Let_def then_calls_def put_slave_ok dest!: close_harbor_ok split: if_splits)
    next
      case STATUS_CONTENT
      note ok = slave_ok_steps(5,6)[OF s STATUS_CONTENT]
      show ?thesis using 1(2,3) STATUS_CONTENT IH ok(1)[of c] ok(2)
        by (fastforce simp: Let_def put_slave_ok bind_eq_Some_iff split: if_splits)
    qed (use 1(2,3) in \<open>auto simp: Let_def\<close>)
  qed
  then show "receive_loop reach i c h = Some (h', calls) \<Longrightarrow> harbor_ok h \<Longrightarrow> harbor_ok h'" by fastforce
qed

section \<open>The other operations\<close>

lemma push_socket_data_ok: "push_socket_data reach m h = Some (h', calls, freed) \<Longrightarrow> harbor_ok h \<Longrightarrow> harbor_ok h'"
  by (auto simp: push_socket_data_def bind_eq_Some_iff split: if_splits option.splits dest: receive_loop_ok)

lemma set_first_fine: "\<forall>n \<in> set ns. P n \<Longrightarrow> P node \<Longrightarrow> n \<in> set (set_first name node ns) \<Longrightarrow> P n"
  by (induction ns) (auto split: if_splits)

lemma hash_set_ok: "harbor_ok h \<Longrightarrow> queue_fine (kv_queue node) \<Longrightarrow> harbor_ok (h\<lparr>hb_map := hash_set (hb_map h) name node\<rparr>)"
  unfolding harbor_ok_def hash_set_def using set_first_fine[of "hb_map h (name_bucket name)" "\<lambda>n. queue_fine (kv_queue n)" node _ name] by auto

lemma hash_insert_ok: "harbor_ok h \<Longrightarrow> harbor_ok (h\<lparr>hb_map := hash_insert (hb_map h) name\<rparr>)"
  by (auto simp: harbor_ok_def hash_insert_def)

lemma hash_search_ok: "harbor_ok h \<Longrightarrow> hash_search (hb_map h) name = Some node \<Longrightarrow> queue_fine (kv_queue node)"
  unfolding harbor_ok_def hash_search_def find_Some_iff by (metis nth_mem)

lemma slave_ok_queue: "slave_ok s \<Longrightarrow> sl_fd s = 0 \<or> sl_status s = STATUS_HANDSHAKE \<Longrightarrow> queue_fine q \<Longrightarrow> slave_ok (s\<lparr>sl_queue := q\<rparr>)"
  by (auto simp: slave_ok_def split: harbor_status.splits)

lemma dispatch_name_queue_ok:
  assumes "dispatch_name_queue node queue h = Some (node', h', calls)" "harbor_ok h" "queue_fine (Some queue)"
  shows "harbor_ok h' \<and> hb_map h' = hb_map h"
proof -
  let ?i = "unat (drop_bit HANDLE_REMOTE_SHIFT (kv_value node))"
  have s: "slave_ok (hb_s h ?i)" using harbor_ok_slave[OF assms(2)] .
  have q: "queue_fine (Some sq1)" if "sl_queue (hb_s h ?i) = Some sq" "push_all ms sq = Some sq1" for ms sq sq1
    using push_all_fine[OF that(2)] s that(1) by (simp add: slave_ok_def del: queue_fine_simps)
  show ?thesis
    using assms s q unfolding dispatch_name_queue_def Let_def
    by (auto simp: bind_eq_Some_iff simp del: queue_fine_simps(2) intro!: put_slave_ok slave_ok_queue split: if_splits option.splits)
qed

text \<open>The names after a name has been looked up or entered.\<close>

lemma name_entered_ok: "harbor_ok h \<Longrightarrow> harbor_ok (h\<lparr>hb_map := if hash_search (hb_map h) name = None then hash_insert (hb_map h) name else hb_map h\<rparr>)"
  using hash_insert_ok by simp

lemma update_name_ok:
  assumes "update_name name handle h = Some (h', calls)" "harbor_ok h"
  shows "harbor_ok h'"
proof -
  define t where "t = (if hash_search (hb_map h) name = None then hash_insert (hb_map h) name else hb_map h)"
  have t: "harbor_ok (h\<lparr>hb_map := t\<rparr>)" unfolding t_def by (rule name_entered_ok[OF assms(2)])
  obtain n where n: "hash_search t name = Some n" using assms(1) by (auto simp: update_name_def t_def[symmetric] Let_def bind_eq_Some_iff)
  show ?thesis
  proof (cases "kv_queue n")
    case None
    then have "h' = h\<lparr>hb_map := hash_set t name (n\<lparr>kv_value := handle\<rparr>)\<rparr>" using assms(1) n by (simp add: update_name_def t_def[symmetric] Let_def)
    then show ?thesis using hash_set_ok[OF t, of "n\<lparr>kv_value := handle\<rparr>" name] None by simp
  next
    case (Some q)
    then obtain n2 h1 where d: "dispatch_name_queue (n\<lparr>kv_value := handle\<rparr>) q h = Some (n2, h1, calls)"
      "h' = h1\<lparr>hb_map := hash_set t name (n2\<lparr>kv_queue := None\<rparr>)\<rparr>"
      using assms(1) n by (auto simp: update_name_def t_def[symmetric] Let_def bind_eq_Some_iff)
    have "queue_fine (Some q)" using hash_search_ok[OF t, of name n] n Some by (simp del: queue_fine_simps)
    then have "harbor_ok h1" using dispatch_name_queue_ok[OF d(1) assms(2)] by blast
    then have "harbor_ok (h1\<lparr>hb_map := t\<rparr>)" using t by (simp add: harbor_ok_def)
    then show ?thesis using hash_set_ok[of "h1\<lparr>hb_map := t\<rparr>" "n2\<lparr>kv_queue := None\<rparr>" name] d(2) by simp
  qed
qed

lemma push_queue_fine: "push_queue msg sz c (case q of None \<Rightarrow> harbor_new_queue | Some q \<Rightarrow> q) = Some q' \<Longrightarrow> queue_fine q \<Longrightarrow> queue_fine (Some q')"
  unfolding push_queue_def by (cases q) (auto simp del: queue_fine_simps(2) dest!: push_queue_msg_fine)

lemma remote_send_handle_ok:
  assumes "remote_send_handle source destination type session msg sz h = Some (k, h', calls)" "harbor_ok h"
  shows "harbor_ok h'"
proof -
  let ?s = "hb_s h (unat (drop_bit HANDLE_REMOTE_SHIFT destination))"
  have s: "slave_ok ?s" using harbor_ok_slave[OF assms(2)] .
  then have "queue_fine (sl_queue ?s)" by (simp add: slave_ok_def)
  note f = push_queue_fine[OF _ this]
  show ?thesis using assms s f unfolding remote_send_handle_def Let_def
    by (auto simp: bind_eq_Some_iff simp del: queue_fine_simps(2) intro!: put_slave_ok slave_ok_queue split: if_splits)
qed

lemma remote_send_name_ok:
  assumes "remote_send_name source name type session msg sz h = Some (k, h', calls)" "harbor_ok h"
  shows "harbor_ok h'"
proof -
  define t where "t = (if hash_search (hb_map h) name = None then hash_insert (hb_map h) name else hb_map h)"
  have t: "harbor_ok (h\<lparr>hb_map := t\<rparr>)" unfolding t_def by (rule name_entered_ok[OF assms(2)])
  obtain n where n: "hash_search t name = Some n" using assms(1) by (auto simp: remote_send_name_def t_def[symmetric] Let_def bind_eq_Some_iff)
  show ?thesis
  proof (cases "kv_value n = 0")
    case True
    then obtain q where "push_queue msg sz (msg_header source type 0 session) (case kv_queue n of None \<Rightarrow> harbor_new_queue | Some q \<Rightarrow> q) = Some q"
      "h' = h\<lparr>hb_map := hash_set t name (n\<lparr>kv_queue := Some q\<rparr>)\<rparr>"
      using assms(1) n by (auto simp: remote_send_name_def t_def[symmetric] Let_def bind_eq_Some_iff)
    then show ?thesis using push_queue_fine hash_search_ok[OF t, of name n] n hash_set_ok[OF t, of "n\<lparr>kv_queue := Some q\<rparr>" name] by simp
  next
    case False
    then show ?thesis using assms(1) n remote_send_handle_ok[OF _ t] by (simp add: remote_send_name_def t_def[symmetric] Let_def)
  qed
qed

lemma harbor_connect_ok:
  assumes "harbor_connect cmd buffer h = Some (h', calls)" "harbor_ok h"
  shows "harbor_ok h'"
proof (cases "h' = h")
  case False
  obtain fd i where fi: "scan_fd_id buffer = (fd, i)" by fastforce
  let ?s = "hb_s h (nat i)"
  have c: "fd \<noteq> 0" "sl_fd ?s = 0" using assms(1) False unfolding harbor_connect_def fi by (auto simp: Let_def split: if_splits)
  have s: "slave_ok ?s" "sl_status ?s = STATUS_WAIT" using harbor_ok_slave[OF assms(2)] slave_ok_steps(8)[OF harbor_ok_slave[OF assms(2)] c(2)] .
  have "slave_ok (?s\<lparr>sl_fd := fd, sl_status := STATUS_HANDSHAKE\<rparr>)" "slave_ok (?s\<lparr>sl_fd := fd, sl_status := STATUS_HEADER, sl_queue := None\<rparr>)"
    using s c(1) by (auto simp: slave_ok_def)
  then show ?thesis using assms False harbor_dispatch_queue_ok[of "nat i" "?s\<lparr>sl_fd := fd, sl_status := STATUS_HEADER\<rparr>" h] unfolding harbor_connect_def fi
    by (auto simp: Let_def then_calls_def put_slave_ok split: if_splits)
qed (use assms in simp)

lemma harbor_command_ok: "harbor_command msg sz source h = Some (h', calls) \<Longrightarrow> harbor_ok h \<Longrightarrow> harbor_ok h'"
  by (auto simp: harbor_command_def Let_def bind_eq_Some_iff split: if_splits dest: update_name_ok harbor_connect_ok)

lemma harbor_socket_ok: "harbor_socket reach m h = Some (h', calls) \<Longrightarrow> harbor_ok h \<Longrightarrow> harbor_ok h'"
  by (auto simp: harbor_socket_def bind_eq_Some_iff split: if_splits option.splits dest: push_socket_data_ok)

lemma mainloop_ok: "mainloop reach type session source msg sz h = Some (h', calls) \<Longrightarrow> harbor_ok h \<Longrightarrow> harbor_ok h'"
  by (auto simp: mainloop_def split: if_splits option.splits msg_payload.splits dest: harbor_socket_ok harbor_command_ok remote_send_name_ok remote_send_handle_ok)

lemma harbor_run_ok: "harbor_run reach es h = Some (h', calls) \<Longrightarrow> harbor_ok h \<Longrightarrow> harbor_ok h'"
proof (induction es arbitrary: h calls)
  case (Cons e es)
  then obtain h1 c1 c2 where "harbor_run reach [e] h = Some (h1, c1)" "harbor_run reach es h1 = Some (h', c2)"
    by (cases e) (auto simp: bind_eq_Some_iff)
  then show ?case using Cons.IH Cons.prems(2) by (cases e) (auto simp: bind_eq_Some_iff dest: mainloop_ok)
qed simp

lemma harbor_create_ok: "harbor_ok harbor_create"
  by (simp add: harbor_ok_def harbor_create_def slave_ok_def slave_zero_def hash_new_def)

lemma harbor_init_ok: "harbor_init args h = (0, h', calls) \<Longrightarrow> harbor_ok h \<Longrightarrow> harbor_ok h'"
  by (auto simp: harbor_init_def harbor_ok_def Let_def split: prod.splits if_splits)

section \<open>The end of the service\<close>

text \<open>The connections that are open: of the slots that have one and are not down.\<close>

definition open_fds :: "harbor \<Rightarrow> nat list \<Rightarrow> int list" where
  "open_fds h js = map (\<lambda>i. sl_fd (hb_s h i)) (filter (\<lambda>i. sl_fd (hb_s h i) \<noteq> 0 \<and> sl_status (hb_s h i) \<noteq> STATUS_DOWN) js)"

lemma release_queue_fine: "queue_fine q \<Longrightarrow> release_queue q = Some ()"
  using pop_msgs_rep by (cases q) (auto simp: release_queue_def)

lemma open_fds_put: "i \<notin> set js \<Longrightarrow> open_fds (put_slave i s h) js = open_fds h js"
proof -
  assume i: "i \<notin> set js"
  then have "hb_s (put_slave i s h) j = hb_s h j" if "j \<in> set js" for j using that by (metis put_slave_simps(2))
  then show ?thesis unfolding open_fds_def by (auto cong: filter_cong map_cong)
qed

lemma release_slaves_closes:
  "harbor_ok h \<Longrightarrow> distinct js \<Longrightarrow> \<exists>h'. release_slaves js h = Some (h', map H_socket_close (open_fds h js)) \<and> hb_map h' = hb_map h"
proof (induction js arbitrary: h)
  case (Cons i js)
  show ?case
  proof (cases "sl_fd (hb_s h i) \<noteq> 0 \<and> sl_status (hb_s h i) \<noteq> STATUS_DOWN")
    case True
    let ?h = "put_slave i ((hb_s h i)\<lparr>sl_status := STATUS_DOWN, sl_queue := None\<rparr>) h"
    have "release_queue (sl_queue (hb_s h i)) = Some ()" using harbor_ok_slave[OF Cons.prems(1), of i] by (simp add: slave_ok_def release_queue_fine)
    then have c: "close_harbor i h = Some (?h, [H_socket_close (sl_fd (hb_s h i))])" using True by (simp add: close_harbor_def Let_def)
    then have "harbor_ok ?h" using close_harbor_ok[OF _ Cons.prems(1)] True by blast
    from Cons.IH[OF this] Cons.prems(2) c True show ?thesis by (auto simp: open_fds_put) (simp add: open_fds_def)
  next
    case False
    then show ?thesis using Cons.IH[OF Cons.prems(1)] Cons.prems(2) by (auto simp: open_fds_def)
  qed
qed (simp add: open_fds_def)

lemma release_nodes_fine: "\<forall>n \<in> set ns. queue_fine (kv_queue n) \<Longrightarrow> release_nodes ns = Some ()"
  by (induction ns) (simp_all add: release_queue_fine)

lemma hash_delete_fine: "\<forall>b. \<forall>n \<in> set (t b). queue_fine (kv_queue n) \<Longrightarrow> hash_delete_from k t = Some ()"
  by (induction k) (simp_all add: release_nodes_fine)

text \<open>
  C17. Whatever messages a harbor service gets after its start, from services, from the master and from sockets, the state it has after them is a
  proper one: each queue is a ring that holds its messages in order, each reader of a connection is between two bytes of its packet, and only slots
  with a connection are past waiting. Ending the service from there terminates, and closes each connection that is open once and no other.
\<close>

theorem harbor_stays_ok:
  assumes "harbor_init args harbor_create = (0, h0, c0)" "harbor_run reach es h0 = Some (h, calls)"
  shows "harbor_ok h \<and> harbor_release h = Some (map H_socket_close (open_fds h [1..<REMOTE_MAX]))"
proof -
  have ok: "harbor_ok h" using harbor_run_ok[OF assms(2)] harbor_init_ok[OF assms(1) harbor_create_ok] by blast
  obtain h' where "release_slaves [1..<REMOTE_MAX] h = Some (h', map H_socket_close (open_fds h [1..<REMOTE_MAX]))" "hb_map h' = hb_map h"
    using release_slaves_closes[OF ok, of "[1..<REMOTE_MAX]"] by auto
  then show ?thesis using ok hash_delete_fine[of "hb_map h"] by (simp add: harbor_release_def hash_delete_def harbor_ok_def)
qed

theorem harbor_stays_ok_witness:
  "\<exists>h0 c0 h calls. harbor_init ''1 9'' harbor_create = (0, h0, c0) \<and>
     harbor_run (\<lambda>_. True) [command_event [65, 32, 53, 32, 50] 0] h0 = Some (h, calls) \<and> harbor_ok h \<and> harbor_release h = Some [H_socket_close 5]"
proof -
  let ?start = "harbor_create\<lparr>hb_id := 1, hb_slave := 9\<rparr>"
  have i: "harbor_init ''1 9'' harbor_create = (0, ?start, [H_callback, H_harbor_start])"
  proof -
    have "scan_d ''1 9'' = Some (1, '' 9'')" "scan_u '' 9'' = Some 9" by code_simp+
    then show ?thesis by (simp add: harbor_init_def)
  qed
  have a: "accept_command [65, 32, 53, 32, 50] 5 2" by code_simp
  have s: "hb_s ?start 2 = slave_zero" by (simp add: harbor_create_def)
  let ?h = "put_slave 2 (slave_zero\<lparr>sl_fd := 5, sl_status := STATUS_HEADER, sl_queue := None\<rparr>) ?start"
  have r: "\<exists>calls. harbor_run (\<lambda>_. True) [command_event [65, 32, 53, 32, 50] 0] ?start = Some (?h, calls)"
    using accept_connects[OF a, of ?start "[]" "[]" "\<lambda>_. True" 0] unfolding s by (simp add: queue_holds_def slave_zero_def)
  have f: "(sl_fd (hb_s ?h j) \<noteq> 0 \<and> sl_status (hb_s ?h j) \<noteq> STATUS_DOWN) = (j = 2)" for j
    by (simp add: put_slave_def harbor_create_def slave_zero_def)
  have "filter (\<lambda>j. j = 2) [1..<REMOTE_MAX] = [2]" by code_simp
  then have o: "map H_socket_close (open_fds ?h [1..<REMOTE_MAX]) = [H_socket_close 5]" unfolding open_fds_def f by simp
  obtain calls where c: "harbor_run (\<lambda>_. True) [command_event [65, 32, 53, 32, 50] 0] ?start = Some (?h, calls)" using r by blast
  show ?thesis using i c harbor_stays_ok[OF i c] unfolding o by blast
qed

end
