(* ===== verification/Sproto_Pack.thy ===== *)
theory Sproto_Pack
  imports Bytes
begin

text \<open>
  The packing of sproto (\<open>lualib-src/sproto/sproto.c\<close>, "0 pack", with \<open>lpack\<close> and \<open>lunpack\<close> of \<open>lsproto.c\<close>): the text is cut into segments of
  eight bytes; a segment becomes a byte that tells which of its bytes are not zero, followed by these; a run of segments with few zeros is copied
  behind 0xff and its length.

  The output buffer is an array of cells, nothing where it has not been written. A pointer into it is a position, also one behind its end; a pointer
  into the source is a position of the source, which may be followed by other bytes (the NUL of a Lua string). An \<open>int\<close> that counts the
  output of unpacking or is doubled wraps, and a \<open>size_t\<close> passed for an \<open>int\<close> is cut to 32 bits (\<open>int32\<close>). The other \<open>int\<close>s cannot leave their
  range: in unpacking at most the size of the source, itself an \<open>int\<close>, is taken from \<open>srcsz\<close> and \<open>bufsz\<close>, and packing is called only with sizes
  for which a buffer of at most 16 MB has been made.

  \<open>None\<close> stands for an access outside a buffer or the source, and for a loop that does not end.
\<close>

text \<open>A value as an \<open>int\<close> of 32 bits.\<close>

definition int32 :: "int \<Rightarrow> int" where
  "int32 n = sint (word_of_int n :: i32)"

section \<open>Packing\<close>

text \<open>\<open>memcpy\<close> into the output.\<close>

fun put_bytes :: "u8 option list \<Rightarrow> nat \<Rightarrow> u8 list \<Rightarrow> u8 option list option" where
  "put_bytes buf pos [] = Some buf"
| "put_bytes buf pos (b # bs) = do { buf1 \<leftarrow> cell_set buf pos b; put_bytes buf1 (Suc pos) bs }"

text \<open>The loop of \<open>pack_seg\<close>: output, position, space left, header, count.\<close>

fun seg_loop :: "u8 list \<Rightarrow> nat \<Rightarrow> u8 option list \<times> nat \<times> int \<times> u8 \<times> int \<Rightarrow> (u8 option list \<times> u8 \<times> int) option" where
  "seg_loop [] i (buf, pos, sz, header, notzero) = Some (buf, header, notzero)"
| "seg_loop (b # bs) i (buf, pos, sz, header, notzero) =
     (if b \<noteq> 0 then
        if 0 < sz then do {
          buf1 \<leftarrow> cell_set buf pos b;
          seg_loop bs (Suc i) (buf1, Suc pos, sz - 1, header OR push_bit i 1, notzero + 1) }
        else seg_loop bs (Suc i) (buf, pos, sz, header OR push_bit i 1, notzero + 1)
      else seg_loop bs (Suc i) (buf, pos, sz, header, notzero))"

definition pack_seg :: "u8 list \<Rightarrow> u8 option list \<Rightarrow> nat \<Rightarrow> int \<Rightarrow> int \<Rightarrow> (int \<times> u8 option list) option" where
  "pack_seg src buf pos sz n = do {
     (buf1, header, count) \<leftarrow> seg_loop src 0 (buf, Suc pos, sz - 1, 0, 0);
     let notzero = (if (count = 7 \<or> count = 6) \<and> 0 < n then 8 else count);
     if notzero = 8 then Some (if 0 < n then 8 else 10, buf1)
     else do {
       buf2 \<leftarrow> (if sz - 1 < 0 then Some buf1 else cell_set buf1 pos header);
       Some (notzero + 1, buf2) } }"

definition write_ff :: "u8 list \<Rightarrow> int \<Rightarrow> u8 option list \<Rightarrow> nat \<Rightarrow> int \<Rightarrow> u8 option list option" where
  "write_ff src off buf des n = do {
     let align8_n = (n + 7) div 8 * 8;
     copied \<leftarrow> mem_read src off n;
     put_bytes buf des ([0xff, word_of_int (align8_n div 8 - 1)] @ copied @ replicate (nat (align8_n - n)) 0) }"

text \<open>The variables of \<open>sproto_pack\<close>.\<close>

record packer =
  pk_buffer :: "u8 option list"
  pk_pos :: nat
  pk_bufsz :: int
  pk_ff_srcstart :: int
  pk_ff_desstart :: nat
  pk_ff_n :: int
  pk_size :: int

definition end_ff :: "u8 list \<Rightarrow> int \<Rightarrow> packer \<Rightarrow> packer option" where
  "end_ff src n p = do {
     buf \<leftarrow> (if 0 \<le> pk_bufsz p then write_ff src (pk_ff_srcstart p) (pk_buffer p) (pk_ff_desstart p) n else Some (pk_buffer p));
     Some (p\<lparr>pk_buffer := buf, pk_ff_n := 0\<rparr>) }"

text \<open>The segment at \<open>i\<close>, filled up with zeros.\<close>

definition segment :: "u8 list \<Rightarrow> int \<Rightarrow> int \<Rightarrow> u8 list option" where
  "segment src srcsz i =
     (let padding = i + 8 - srcsz
      in if 0 < padding then do { part \<leftarrow> mem_read src i (8 - padding); Some (part @ replicate (nat padding) 0) } else mem_read src i 8)"

text \<open>
  One turn of the loop. \<open>ff_srcstart\<close> is a position of the source: a filled-up segment has a zero, and a run does not begin with it.
\<close>

definition pack_step :: "u8 list \<Rightarrow> int \<Rightarrow> int \<Rightarrow> packer \<Rightarrow> packer option" where
  "pack_step src srcsz i p = do {
     seg \<leftarrow> segment src srcsz i;
     (n, buf) \<leftarrow> pack_seg seg (pk_buffer p) (pk_pos p) (pk_bufsz p) (pk_ff_n p);
     let p1 = p\<lparr>pk_buffer := buf, pk_bufsz := pk_bufsz p - n\<rparr>;
     p2 \<leftarrow> (if n = 10 then Some (p1\<lparr>pk_ff_srcstart := i, pk_ff_desstart := pk_pos p, pk_ff_n := 1\<rparr>)
            else if n = 8 \<and> 0 < pk_ff_n p then
              if pk_ff_n p + 1 = 256 then end_ff src (256 * 8) p1 else Some (p1\<lparr>pk_ff_n := pk_ff_n p + 1\<rparr>)
            else if 0 < pk_ff_n p then end_ff src (pk_ff_n p * 8) p1
            else Some p1);
     Some (p2\<lparr>pk_pos := pk_pos p + nat n, pk_size := pk_size p + n\<rparr>) }"

function pack_loop :: "u8 list \<Rightarrow> int \<Rightarrow> int \<Rightarrow> packer \<Rightarrow> packer option" where
  "pack_loop src srcsz i p = (if i < srcsz then do { p1 \<leftarrow> pack_step src srcsz i p; pack_loop src srcsz (i + 8) p1 } else Some p)"
  by pat_completeness auto
termination by (relation "measure (\<lambda>(src, srcsz, i, p). nat (srcsz - i))") auto

declare pack_loop.simps [simp del]

definition sproto_pack :: "u8 list \<Rightarrow> int \<Rightarrow> u8 option list \<Rightarrow> int \<Rightarrow> (int \<times> u8 option list) option" where
  "sproto_pack src srcsz buf bufsz = do {
     p \<leftarrow> pack_loop src srcsz 0
       \<lparr>pk_buffer = buf, pk_pos = 0, pk_bufsz = bufsz, pk_ff_srcstart = 0, pk_ff_desstart = 0, pk_ff_n = 0, pk_size = 0\<rparr>;
     p1 \<leftarrow> (if pk_ff_n p = 1 then end_ff src 8 p
            else if 1 < pk_ff_n p then end_ff src (srcsz - pk_ff_srcstart p) p
            else Some p);
     Some (pk_size p1, pk_buffer p1) }"

section \<open>Unpacking\<close>

record unpacker =
  up_off :: nat
  up_srcsz :: int
  up_buffer :: "u8 option list"
  up_pos :: nat
  up_bufsz :: int
  up_size :: int

text \<open>A byte for the output; the count goes up also where there is no room.\<close>

definition put_byte :: "u8 \<Rightarrow> unpacker \<Rightarrow> unpacker option" where
  "put_byte b u =
     (if 0 < up_bufsz u then do {
        buf \<leftarrow> cell_set (up_buffer u) (up_pos u) b;
        Some (u\<lparr>up_buffer := buf, up_pos := Suc (up_pos u), up_bufsz := up_bufsz u - 1, up_size := int32 (up_size u + 1)\<rparr>) }
      else Some (u\<lparr>up_size := int32 (up_size u + 1)\<rparr>))"

definition src_at :: "u8 list \<Rightarrow> nat \<Rightarrow> u8 option" where
  "src_at src i = (if i < length src then Some (src ! i) else None)"

text \<open>\<open>Inl\<close> is \<open>return -1\<close>, with the output as it is then.\<close>

fun unpack_bits :: "nat list \<Rightarrow> u8 \<Rightarrow> u8 list \<Rightarrow> unpacker \<Rightarrow> (u8 option list + unpacker) option" where
  "unpack_bits [] header src u = Some (Inr u)"
| "unpack_bits (i # js) header src u =
     (if drop_bit i header AND 1 \<noteq> 0 then
        if up_srcsz u < 0 then Some (Inl (up_buffer u))
        else do {
          b \<leftarrow> (if 0 < up_bufsz u then src_at src (up_off u) else Some 0);
          u1 \<leftarrow> put_byte b u;
          unpack_bits js header src (u1\<lparr>up_off := Suc (up_off u), up_srcsz := up_srcsz u - 1\<rparr>) }
      else do { u1 \<leftarrow> put_byte 0 u; unpack_bits js header src u1 })"

definition unpack_ff :: "u8 list \<Rightarrow> unpacker \<Rightarrow> (u8 option list + unpacker) option" where
  "unpack_ff src u =
     (if up_srcsz u < 0 then Some (Inl (up_buffer u))
      else do {
        c \<leftarrow> src_at src (up_off u);
        let n = (unat c + 1) * 8;
        if up_srcsz u < int n + 1 then Some (Inl (up_buffer u))
        else do {
          buf \<leftarrow> (if int n \<le> up_bufsz u then do { bs \<leftarrow> mem_read src (int (up_off u) + 1) (int n); put_bytes (up_buffer u) (up_pos u) bs }
                  else Some (up_buffer u));
          Some (Inr (u\<lparr>up_off := up_off u + 1 + n, up_srcsz := up_srcsz u - (int n + 1), up_buffer := buf, up_pos := up_pos u + n,
                       up_bufsz := up_bufsz u - int n, up_size := int32 (up_size u + int n)\<rparr>)) } })"

definition unpack_seg :: "u8 list \<Rightarrow> unpacker \<Rightarrow> (u8 option list + unpacker) option" where
  "unpack_seg src u = do {
     header \<leftarrow> src_at src (up_off u);
     let u1 = u\<lparr>up_off := Suc (up_off u), up_srcsz := up_srcsz u - 1\<rparr>;
     if header = 0xff then unpack_ff src u1 else unpack_bits [0..<8] header src u1 }"

partial_function (option) sproto_unpack_loop :: "u8 list \<Rightarrow> unpacker \<Rightarrow> (int \<times> u8 option list) option" where
  "sproto_unpack_loop src u =
     (if 0 < up_srcsz u then do {
        r \<leftarrow> unpack_seg src u;
        case r of Inl buf \<Rightarrow> Some (-1, buf) | Inr u1 \<Rightarrow> sproto_unpack_loop src u1 }
      else Some (up_size u, up_buffer u))"

declare sproto_unpack_loop.simps [code]

definition sproto_unpack :: "u8 list \<Rightarrow> int \<Rightarrow> u8 option list \<Rightarrow> int \<Rightarrow> (int \<times> u8 option list) option" where
  "sproto_unpack src srcsz buf bufsz =
     sproto_unpack_loop src \<lparr>up_off = 0, up_srcsz = srcsz, up_buffer = buf, up_pos = 0, up_bufsz = bufsz, up_size = 0\<rparr>"

section \<open>The functions of Lua\<close>

definition ENCODE_BUFFERSIZE :: int where "ENCODE_BUFFERSIZE = 2050"
definition ENCODE_MAXSIZE :: int where "ENCODE_MAXSIZE = 0x1000000"

datatype sproto_error = Too_large | Packing_error int | Invalid_stream

text \<open>The buffer a function of Lua keeps from call to call: its cells and the size that is stored beside it.\<close>

type_synonym out_buffer = "u8 option list \<times> int"

text \<open>\<open>do osz *= 2; while (osz < nsz)\<close>\<close>

partial_function (option) double_until :: "int \<Rightarrow> int \<Rightarrow> int option" where
  "double_until osz nsz = (let osz1 = int32 (osz * 2) in if osz1 < nsz then double_until osz1 nsz else Some osz1)"

declare double_until.simps [code]

definition expand_buffer :: "int \<Rightarrow> int \<Rightarrow> (sproto_error + out_buffer) option" where
  "expand_buffer osz nsz = do {
     osz1 \<leftarrow> double_until osz nsz;
     Some (if ENCODE_MAXSIZE < osz1 then Inl Too_large else Inr (replicate (nat osz1) None, osz1)) }"

text \<open>\<open>lua_pushlstring\<close>: the bytes have to be there.\<close>

definition push_lstring :: "u8 option list \<Rightarrow> int \<Rightarrow> u8 list option" where
  "push_lstring buf n = (if nat n \<le> length buf \<and> None \<notin> set (take (nat n) buf) then Some (map the (take (nat n) buf)) else None)"

text \<open>The text is a Lua string: a NUL follows it.\<close>

definition sproto_lpack :: "u8 list \<Rightarrow> out_buffer \<Rightarrow> (sproto_error + u8 list \<times> out_buffer) option" where
  "sproto_lpack src out = do {
     let sz = int (length src);
     let maxsz = (sz + 2047) div 2048 * 2 + sz + 2;
     continue (if snd out < maxsz then expand_buffer (snd out) (int32 maxsz) else Some (Inr out)) (\<lambda>out1. do {
       (bytes, buf) \<leftarrow> sproto_pack (src @ [0]) (int32 sz) (fst out1) (int32 maxsz);
       if bytes < 0 \<or> maxsz < bytes then Some (Inl (Packing_error bytes))
       else do { r \<leftarrow> push_lstring buf bytes; Some (Inr (r, buf, snd out1)) } }) }"

definition sproto_lunpack :: "u8 list \<Rightarrow> out_buffer \<Rightarrow> (sproto_error + u8 list \<times> out_buffer) option" where
  "sproto_lunpack src out = do {
     let sz = int32 (int (length src));
     (r, buf) \<leftarrow> sproto_unpack (src @ [0]) sz (fst out) (snd out);
     if r < 0 then Some (Inl Invalid_stream)
     else if snd out < r then
       continue (expand_buffer (snd out) r) (\<lambda>out1. do {
         (r1, buf1) \<leftarrow> sproto_unpack (src @ [0]) sz (fst out1) r;
         if r1 < 0 then Some (Inl Invalid_stream)
         else do { t \<leftarrow> push_lstring buf1 r1; Some (Inr (t, buf1, snd out1)) } })
     else do { t \<leftarrow> push_lstring buf r; Some (Inr (t, buf, snd out)) } }"

end
