(* ===== verification/Sproto_Props.thy ===== *)
theory Sproto_Props
  imports Sproto_Pack
begin

text \<open>
  Packing and unpacking of sproto. \<open>packed_form\<close> is the specification, the packed form of a list of segments; the code computes it within the buffer that
  \<open>lpack\<close> provides, and unpacking gives the segments back. Texts for which packing reads behind its source.
\<close>

section \<open>The packed form\<close>

definition nz :: "u8 list \<Rightarrow> nat" where
  "nz s = length (filter (\<lambda>b. b \<noteq> 0) s)"

fun hdr :: "nat \<Rightarrow> u8 list \<Rightarrow> u8" where
  "hdr i [] = 0"
| "hdr i (b # bs) = (if b \<noteq> 0 then push_bit i 1 else 0) OR hdr (Suc i) bs"

definition tag_seg :: "u8 list \<Rightarrow> u8 list" where
  "tag_seg s = hdr 0 s # filter (\<lambda>b. b \<noteq> 0) s"

definition flush :: "u8 list list \<Rightarrow> u8 list" where
  "flush run = (if run = [] then [] else 0xff # word_of_nat (length run - 1) # concat run)"

text \<open>A run begins with a segment without zeros, takes in those with at most two, and ends at 256.\<close>

fun packed_form :: "u8 list list \<Rightarrow> u8 list list \<Rightarrow> u8 list" where
  "packed_form run [] = flush run"
| "packed_form run (s # ss) =
     (if run = [] then if nz s = 8 then packed_form [s] ss else tag_seg s @ packed_form [] ss
      else if 6 \<le> nz s then if length run = 255 then flush (run @ [s]) @ packed_form [] ss else packed_form (run @ [s]) ss
      else flush run @ tag_seg s @ packed_form [] ss)"

lemma nz_le: "nz s \<le> length s"
  by (simp add: nz_def)

lemma length_tag_seg [simp]: "length (tag_seg s) = Suc (nz s)"
  by (simp add: tag_seg_def nz_def)

lemma length_concat_8: "\<forall>s \<in> set run. length s = 8 \<Longrightarrow> length (concat run) = 8 * length run"
  by (induction run) auto

lemma length_flush: "\<forall>s \<in> set run. length s = 8 \<Longrightarrow> length (flush run) = (if run = [] then 0 else 2 + 8 * length run)"
  by (simp add: flush_def length_concat_8)

section \<open>The output buffer\<close>

lemma take_set_cell: "pos < length buf \<Longrightarrow> take (Suc pos) (buf[pos := x]) = take pos buf @ [x]"
  by (simp add: take_Suc_conv_app_nth)

lemma put_bytes_eq:
  "pos + length bs \<le> length buf \<Longrightarrow> put_bytes buf pos bs = Some (take pos buf @ map Some bs @ drop (pos + length bs) buf)"
proof (induction bs arbitrary: buf pos)
  case (Cons b bs)
  then have "put_bytes (buf[pos := Some b]) (Suc pos) bs = Some (take (Suc pos) (buf[pos := Some b]) @ map Some bs @ drop (Suc pos + length bs) (buf[pos := Some b]))"
    by (intro Cons.IH) simp
  then show ?case using Cons.prems take_set_cell[of pos buf "Some b"] by (simp add: cell_set_def)
qed simp

lemma seg_loop_ok:
  "int pos + sz \<le> int (length buf) \<Longrightarrow>
   \<exists>buf'. seg_loop bs i (buf, pos, sz, h, k) = Some (buf', h OR hdr i bs, k + int (nz bs)) \<and> length buf' = length buf \<and> take pos buf' = take pos buf \<and>
     (int (nz bs) \<le> sz \<longrightarrow> take (pos + nz bs) buf' = take pos buf @ map Some (filter (\<lambda>b. b \<noteq> 0) bs))"
proof (induction bs arbitrary: i buf pos sz h k)
  case (Cons b bs)
  show ?case
  proof (cases "b \<noteq> 0 \<and> 0 < sz")
    case True
    then have p: "pos < length buf" using Cons.prems by simp
    let ?buf = "buf[pos := Some b]"
    obtain buf' where r: "seg_loop bs (Suc i) (?buf, Suc pos, sz - 1, h OR push_bit i 1, k + 1) = Some (buf', (h OR push_bit i 1) OR hdr (Suc i) bs, k + 1 + int (nz bs))"
        "length buf' = length ?buf" "take (Suc pos) buf' = take (Suc pos) ?buf"
        "int (nz bs) \<le> sz - 1 \<Longrightarrow> take (Suc pos + nz bs) buf' = take (Suc pos) ?buf @ map Some (filter (\<lambda>b. b \<noteq> 0) bs)"
      using Cons.IH[of "Suc pos" "sz - 1" ?buf "Suc i" "h OR push_bit i 1" "k + 1"] Cons.prems by auto
    have "take pos buf' = take pos buf"
    proof -
      have "take pos (take (Suc pos) buf') = take pos (take (Suc pos) ?buf)" unfolding r(3) ..
      then show ?thesis by (simp add: take_update_cancel)
    qed
    then show ?thesis using r True p take_set_cell[OF p] by (simp add: cell_set_def nz_def or.assoc)
  next
    case False
    then show ?thesis
    proof (cases "b = 0")
      case True
      then show ?thesis using Cons.IH[OF Cons.prems] by (simp add: nz_def)
    next
      case b: False
      then have "\<not> int (nz (b # bs)) \<le> sz" "\<not> 0 < sz" using False by (auto simp: nz_def)
      then show ?thesis using b Cons.IH[OF Cons.prems, of "Suc i" "h OR push_bit i 1" "k + 1"] by (auto simp: nz_def or.assoc)
    qed
  qed
qed (simp add: nz_def)

lemma pack_seg_run:
  assumes "int pos + sz \<le> int (length buf)" "length s = 8" "0 \<le> n" "if 0 < n then 6 \<le> nz s else nz s = 8"
  shows "\<exists>buf'. pack_seg s buf pos sz n = Some (if 0 < n then 8 else 10, buf') \<and> length buf' = length buf \<and> take pos buf' = take pos buf"
proof -
  obtain buf' where r: "seg_loop s 0 (buf, Suc pos, sz - 1, 0, 0) = Some (buf', hdr 0 s, int (nz s))" "length buf' = length buf" "take (Suc pos) buf' = take (Suc pos) buf"
    using seg_loop_ok[of "Suc pos" "sz - 1" buf s 0 0 0] assms(1) by auto
  have "take pos buf' = take pos buf" using arg_cong[OF r(3), of "take pos"] by simp
  moreover have "nz s = 6 \<or> nz s = 7 \<or> nz s = 8 \<or> nz s < 6" using nz_le[of s] assms(2) by linarith
  ultimately show ?thesis using r assms(3,4) by (auto simp: pack_seg_def split: if_splits)
qed

lemma pack_seg_tag:
  assumes "int pos + sz \<le> int (length buf)" "length s = 8" "0 \<le> n" "\<not> (if 0 < n then 6 \<le> nz s else nz s = 8)" "int (nz s) + 1 \<le> sz"
  shows "\<exists>buf'. pack_seg s buf pos sz n = Some (int (nz s) + 1, buf') \<and> length buf' = length buf \<and>
    take (pos + Suc (nz s)) buf' = take pos buf @ map Some (tag_seg s)"
proof -
  obtain b where r: "seg_loop s 0 (buf, Suc pos, sz - 1, 0, 0) = Some (b, hdr 0 s, int (nz s))" "length b = length buf"
      "take (Suc pos + nz s) b = take (Suc pos) buf @ map Some (filter (\<lambda>b. b \<noteq> 0) s)"
    using seg_loop_ok[of "Suc pos" "sz - 1" buf s 0 0 0] assms(1,5) by auto
  have p: "pos < length b" using assms(1,5) r(2) by simp
  have "take (pos + Suc (nz s)) (b[pos := Some (hdr 0 s)]) = (take (Suc pos + nz s) b)[pos := Some (hdr 0 s)]" by (simp add: take_update_swap)
  also have "\<dots> = take pos buf @ map Some (tag_seg s)"
    unfolding r(3) using p r(2) by (simp add: list_update_append take_Suc_conv_app_nth tag_seg_def)
  finally have "take (pos + Suc (nz s)) (b[pos := Some (hdr 0 s)]) = take pos buf @ map Some (tag_seg s)" .
  moreover have "nz s \<le> 8" using nz_le[of s] assms(2) by simp
  ultimately show ?thesis using r(1,2) p assms(3-5) by (auto simp: pack_seg_def cell_set_def Let_def split: if_splits)
qed

section \<open>Segments\<close>

definition pad :: "u8 list \<Rightarrow> u8 list" where
  "pad t = t @ replicate ((8 - length t mod 8) mod 8) 0"

function segs :: "u8 list \<Rightarrow> nat \<Rightarrow> u8 list list" where
  "segs t i = (if i < length t then take 8 (drop i (pad t)) # segs t (i + 8) else [])"
  by pat_completeness auto
termination by (relation "measure (\<lambda>(t, i). length t - i)") auto

declare segs.simps [simp del]

lemma pad_amount: "(8 - n mod 8) mod 8 = (if n mod 8 = 0 then 0 else 8 - n mod 8)" for n :: nat
  by simp

lemma mod_8_rest: "i mod 8 = 0 \<Longrightarrow> i < n \<Longrightarrow> n < i + 8 \<Longrightarrow> n mod 8 = n - i" for n :: nat
proof -
  assume a: "i mod 8 = 0" "i < n" "n < i + 8"
  then have "(i mod 8 + (n - i)) mod 8 = n - i" by simp
  moreover have "n = i + (n - i)" using a(2) by simp
  ultimately show ?thesis by (metis mod_add_left_eq)
qed

lemma pad_rest: "i mod 8 = 0 \<Longrightarrow> i < n \<Longrightarrow> n < i + 8 \<Longrightarrow> (8 - n mod 8) mod 8 = i + 8 - n" for n :: nat
proof -
  assume a: "i mod 8 = 0" "i < n" "n < i + 8"
  then have "n mod 8 = n - i" by (rule mod_8_rest)
  then show ?thesis using a unfolding pad_amount by simp
qed

lemma length_pad: "length (pad t) = (if length t mod 8 = 0 then length t else length t + (8 - length t mod 8))"
  by (simp add: pad_def pad_amount)

lemma pad_mod: "length (pad t) mod 8 = 0" "length t \<le> length (pad t)" "length (pad t) < length t + 8"
proof -
  show "length (pad t) mod 8 = 0" unfolding length_pad by (split if_split) presburger
qed (auto simp: length_pad)

lemma seg_inside: "i < length t \<Longrightarrow> i mod 8 = 0 \<Longrightarrow> i + 8 \<le> length (pad t)"
  using pad_mod(1,2)[of t] by presburger

lemma pad_end: "length t \<le> i \<Longrightarrow> i < length t + 8 \<Longrightarrow> i mod 8 = 0 \<Longrightarrow> length (pad t) = i"
  using pad_mod[of t] by presburger

lemma length_seg [simp]: "i < length t \<Longrightarrow> i mod 8 = 0 \<Longrightarrow> length (take 8 (drop i (pad t))) = 8"
  using seg_inside[of i t] by simp

lemma segment_seg:
  assumes "i < length t" "i mod 8 = 0"
  shows "segment (t @ post) (int (length t)) (int i) = Some (take 8 (drop i (pad t)))"
proof (cases "i + 8 \<le> length t")
  case True
  then show ?thesis using assms by (auto simp: segment_def mem_read_def pad_def)
next
  case False
  then have m: "(8 - length t mod 8) mod 8 = i + 8 - length t" using assms by (intro pad_rest) simp_all
  have n: "nat (int i + 8 - int (length t)) = i + 8 - length t" "nat (8 - (int i + 8 - int (length t))) = length t - i" using assms False by auto
  show ?thesis using assms False by (simp add: segment_def mem_read_def pad_def m n Let_def)
qed

lemma nz_padded:
  assumes "i < length t" "i mod 8 = 0" "length t < i + 8"
  shows "nz (take 8 (drop i (pad t))) \<le> length t - i"
proof -
  have "take 8 (drop i (pad t)) = drop i t @ replicate (i + 8 - length t) 0"
  proof -
    have "(8 - length t mod 8) mod 8 = i + 8 - length t" using assms by (intro pad_rest) simp_all
    then show ?thesis using assms by (simp add: pad_def)
  qed
  then show ?thesis using nz_le[of "drop i t"] by (simp add: nz_def)
qed

lemma concat_segs: "i mod 8 = 0 \<Longrightarrow> i < length t + 8 \<Longrightarrow> concat (segs t i) = drop i (pad t)"
proof (induction t i rule: segs.induct)
  case (1 t i)
  show ?case
  proof (cases "i < length t")
    case True
    then have "concat (segs t (i + 8)) = drop (i + 8) (pad t)" using 1(2) by (intro 1(1)) auto
    moreover have "take 8 (drop i (pad t)) @ drop (i + 8) (pad t) = drop i (pad t)"
      using append_take_drop_id[of 8 "drop i (pad t)"] by (simp add: add.commute)
    ultimately show ?thesis using True by (subst segs.simps) simp
  next
    case False
    then show ?thesis using pad_end[of t i] 1(2,3) by (subst segs.simps) simp
  qed
qed

lemma segs_8: "i mod 8 = 0 \<Longrightarrow> s \<in> set (segs t i) \<Longrightarrow> length s = 8"
proof (induction t i rule: segs.induct)
  case (1 t i)
  show ?case
  proof (cases "i < length t")
    case True
    then have "s = take 8 (drop i (pad t)) \<or> s \<in> set (segs t (i + 8))" using 1(3) segs.simps[of t i] by simp
    then show ?thesis using 1(1)[OF True] 1(2) length_seg[OF True 1(2)] by auto
  qed (use 1(3) segs.simps[of t i] in simp)
qed

section \<open>The code computes the packed form\<close>

definition run_len :: "u8 list list \<Rightarrow> nat" where
  "run_len run = (if run = [] then 0 else 2 + 8 * length run)"

text \<open>The state at position \<open>i\<close> of the text: \<open>dn\<close> has been written, \<open>run\<close> is the run that has not ended.\<close>

definition packing :: "u8 list \<Rightarrow> nat \<Rightarrow> nat \<Rightarrow> u8 list \<Rightarrow> u8 list list \<Rightarrow> packer \<Rightarrow> nat \<Rightarrow> bool" where
  "packing t N B dn run p i \<longleftrightarrow>
     length (pk_buffer p) = N \<and> B \<le> N \<and> take (length dn) (pk_buffer p) = map Some dn \<and> pk_pos p = length dn + run_len run \<and>
     pk_bufsz p = int B - int (pk_pos p) \<and> pk_ff_n p = int (length run) \<and> pk_size p = int (pk_pos p) \<and>
     length run < 256 \<and> 8 * length run \<le> i \<and> concat run = take (8 * length run) (drop (i - 8 * length run) (pad t)) \<and> (\<forall>s \<in> set run. length s = 8) \<and>
     (run \<noteq> [] \<longrightarrow> pk_ff_desstart p = length dn \<and> pk_ff_srcstart p = int i - 8 * int (length run) \<and> i - 8 * length run + 8 \<le> length t)"

lemma write_ff_run:
  assumes "mem_read src off n = Some copied" "0 < n" "copied @ replicate (nat ((n + 7) div 8 * 8 - n)) 0 = concat run" "(n + 7) div 8 * 8 = 8 * int (length run)"
    "run \<noteq> []" "length dn + length (flush run) \<le> length buf" "take (length dn) buf = map Some dn"
  shows "\<exists>buf'. write_ff src off buf (length dn) n = Some buf' \<and> length buf' = length buf \<and>
    take (length (dn @ flush run)) buf' = map Some (dn @ flush run) \<and> drop (length (dn @ flush run)) buf' = drop (length (dn @ flush run)) buf"
proof -
  have w: "word_of_int (8 * int (length run) div 8 - 1) = (word_of_nat (length run - 1) :: u8)" using assms(5) by (cases run) simp_all
  have f: "[0xff, word_of_int ((n + 7) div 8 * 8 div 8 - 1)] @ copied @ replicate (nat ((n + 7) div 8 * 8 - n)) 0 = flush run"
    unfolding assms(3) unfolding assms(4) w flush_def using assms(5) by simp
  have "write_ff src off buf (length dn) n = Some (take (length dn) buf @ map Some (flush run) @ drop (length dn + length (flush run)) buf)"
    unfolding write_ff_def Let_def assms(1) bind.bind_lunit f by (rule put_bytes_eq[OF assms(6)])
  then show ?thesis using assms(6,7) by simp
qed

lemma full_segment: "i < length t \<Longrightarrow> i mod 8 = 0 \<Longrightarrow> nz (take 8 (drop i (pad t))) = 8 \<Longrightarrow> i + 8 \<le> length t"
  using nz_padded[of i t] by fastforce

text \<open>The run that ends with the segment before \<open>i\<close> is written out; the segments are whole.\<close>

lemma end_run:
  assumes run: "concat run = take (8 * length run) (drop (i - 8 * length run) (pad t))" "\<forall>s \<in> set run. length s = 8" "run \<noteq> []" "8 * length run \<le> i" "i \<le> length t"
    and p: "0 \<le> pk_bufsz p" "pk_ff_desstart p = length dn" "pk_ff_srcstart p = int i - 8 * int (length run)"
    and buf: "length dn + run_len run \<le> length (pk_buffer p)" "take (length dn) (pk_buffer p) = map Some dn"
  shows "\<exists>buf'. end_ff (t @ post) (8 * int (length run)) p = Some (p\<lparr>pk_buffer := buf', pk_ff_n := 0\<rparr>) \<and> length buf' = length (pk_buffer p) \<and>
    take (length (dn @ flush run)) buf' = map Some (dn @ flush run) \<and> drop (length (dn @ flush run)) buf' = drop (length (dn @ flush run)) (pk_buffer p)"
proof -
  let ?n = "8 * int (length run)"
  have m: "mem_read (t @ post) (int i - ?n) ?n = Some (concat run)"
  proof -
    have "nat (int i - ?n) = i - 8 * length run" "nat ?n = 8 * length run" by simp_all
    then show ?thesis unfolding mem_read_def run(1) using run(4,5) by (auto simp: pad_def)
  qed
  have n: "(?n + 7) div 8 * 8 = ?n" "0 < ?n" using run(3) by simp_all
  have "\<exists>buf'. write_ff (t @ post) (int i - ?n) (pk_buffer p) (length dn) ?n = Some buf' \<and> length buf' = length (pk_buffer p) \<and>
      take (length (dn @ flush run)) buf' = map Some (dn @ flush run) \<and> drop (length (dn @ flush run)) buf' = drop (length (dn @ flush run)) (pk_buffer p)"
    using buf run(2,3) by (intro write_ff_run[OF m n(2) _ n(1) run(3)]) (simp_all add: n(1) length_flush run_len_def)
  then show ?thesis using p by (auto simp: end_ff_def)
qed

lemma run_extend:
  assumes "concat run = take (8 * length run) (drop (i - 8 * length run) (pad t))" "8 * length run \<le> i"
  shows "concat (run @ [take 8 (drop i (pad t))]) = take (8 * length (run @ [s])) (drop (i + 8 - 8 * length (run @ [s])) (pad t))"
proof -
  have "take (8 * length run + 8) (drop (i - 8 * length run) (pad t)) = concat run @ take 8 (drop (8 * length run) (drop (i - 8 * length run) (pad t)))"
    unfolding assms(1) by (rule take_add)
  then show ?thesis using assms(2) by (simp add: add.commute)
qed

lemma pack_step_start:
  assumes P: "packing t N B dn [] p i" and i: "i < length t" "i mod 8 = 0" and s: "s = take 8 (drop i (pad t))" "nz s = 8"
  shows "\<exists>p'. pack_step (t @ post) (int (length t)) (int i) p = Some p' \<and> packing t N B dn [s] p' (i + 8)"
proof -
  have l: "length s = 8" using length_seg[OF i] s(1) by simp
  obtain buf where b: "pack_seg s (pk_buffer p) (pk_pos p) (pk_bufsz p) 0 = Some (10, buf)" "length buf = length (pk_buffer p)" "take (pk_pos p) buf = take (pk_pos p) (pk_buffer p)"
    using pack_seg_run[of "pk_pos p" "pk_bufsz p" "pk_buffer p" s 0] P l s(2) by (auto simp: packing_def)
  have f: "i + 8 \<le> length t" using full_segment[OF i] s by simp
  show ?thesis using P b f l segment_seg[OF i, of post] s(1) i
    by (auto simp: pack_step_def packing_def run_len_def Let_def)
qed

lemma pack_step_tag:
  assumes P: "packing t N B dn [] p i" and i: "i < length t" "i mod 8 = 0" and s: "s = take 8 (drop i (pad t))" "nz s \<noteq> 8"
    and B: "length dn + Suc (nz s) \<le> B"
  shows "\<exists>p'. pack_step (t @ post) (int (length t)) (int i) p = Some p' \<and> packing t N B (dn @ tag_seg s) [] p' (i + 8)"
proof -
  have l: "length s = 8" "nz s < 8" using length_seg[OF i] s nz_le[of s] by auto
  obtain buf where b: "pack_seg s (pk_buffer p) (pk_pos p) (pk_bufsz p) 0 = Some (int (nz s) + 1, buf)" "length buf = length (pk_buffer p)"
      "take (pk_pos p + Suc (nz s)) buf = take (pk_pos p) (pk_buffer p) @ map Some (tag_seg s)"
    using pack_seg_tag[of "pk_pos p" "pk_bufsz p" "pk_buffer p" s 0] P l s(2) B by (auto simp: packing_def run_len_def)
  have n: "int (nz s) + 1 \<noteq> 10" "nat (int (nz s) + 1) = Suc (nz s)" using l(2) by simp_all
  have "pack_step (t @ post) (int (length t)) (int i) p =
      Some (p\<lparr>pk_buffer := buf, pk_bufsz := pk_bufsz p - (int (nz s) + 1), pk_pos := pk_pos p + Suc (nz s), pk_size := pk_size p + (int (nz s) + 1)\<rparr>)"
    using P b(1) segment_seg[OF i, of post] s(1) n by (simp add: pack_step_def packing_def Let_def)
  moreover have "packing t N B (dn @ tag_seg s) [] (p\<lparr>pk_buffer := buf, pk_bufsz := pk_bufsz p - (int (nz s) + 1), pk_pos := pk_pos p + Suc (nz s), pk_size := pk_size p + (int (nz s) + 1)\<rparr>) (i + 8)"
    using P b(2,3) by (auto simp: packing_def run_len_def)
  ultimately show ?thesis by blast
qed

lemma take_le: "take n xs = take n ys \<Longrightarrow> m \<le> n \<Longrightarrow> take m xs = take m ys"
  by (metis min.absorb1 take_take)

lemma pack_step_join:
  assumes P: "packing t N B dn run p i" and run: "run \<noteq> []" and i: "i < length t" "i mod 8 = 0" and s: "s = take 8 (drop i (pad t))" "6 \<le> nz s"
    and k: "length run < 255"
  shows "\<exists>p'. pack_step (t @ post) (int (length t)) (int i) p = Some p' \<and> packing t N B dn (run @ [s]) p' (i + 8)"
proof -
  have l: "length s = 8" using length_seg[OF i] s(1) by simp
  have n: "0 < pk_ff_n p" using P run by (simp add: packing_def)
  obtain buf where b: "pack_seg s (pk_buffer p) (pk_pos p) (pk_bufsz p) (pk_ff_n p) = Some (8, buf)" "length buf = length (pk_buffer p)"
      "take (pk_pos p) buf = take (pk_pos p) (pk_buffer p)"
    using pack_seg_run[of "pk_pos p" "pk_bufsz p" "pk_buffer p" s "pk_ff_n p"] P l s(2) n by (auto simp: packing_def)
  let ?p = "p\<lparr>pk_buffer := buf, pk_bufsz := pk_bufsz p - 8, pk_ff_n := pk_ff_n p + 1, pk_pos := pk_pos p + 8, pk_size := pk_size p + 8\<rparr>"
  have r: "concat (run @ [s]) = take (8 * length (run @ [s])) (drop (i + 8 - 8 * length (run @ [s])) (pad t))"
    using run_extend[of run i t] P s(1) by (simp add: packing_def)
  have "pk_ff_n p + 1 \<noteq> 256" using P k by (simp add: packing_def)
  then have "pack_step (t @ post) (int (length t)) (int i) p = Some ?p"
    using b(1) segment_seg[OF i, of post] s(1) n by (simp add: pack_step_def Let_def)
  moreover have "take (length dn) buf = map Some dn"
    using take_le[OF b(3), of "length dn"] P by (simp add: packing_def)
  then have "packing t N B dn (run @ [s]) ?p (i + 8)"
    using P b(2) run k l r unfolding packing_def by (auto simp: run_len_def)
  ultimately show ?thesis by blast
qed

lemma pack_step_full:
  assumes P: "packing t N B dn run p i" and i: "i < length t" "i mod 8 = 0" and s: "s = take 8 (drop i (pad t))" "6 \<le> nz s"
    and k: "length run = 255" and H: "length t < 2046 \<or> length t mod 8 < 6" and B: "length dn + length (flush (run @ [s])) \<le> B"
  shows "\<exists>p'. pack_step (t @ post) (int (length t)) (int i) p = Some p' \<and> packing t N B (dn @ flush (run @ [s])) [] p' (i + 8)"
proof -
  have l: "length s = 8" using length_seg[OF i] s(1) by simp
  have ne: "run \<noteq> []" using k by auto
  have n: "pk_ff_n p = 255" "8 * 255 \<le> i" using P k by (simp_all add: packing_def)
  have whole: "i + 8 \<le> length t"
  proof (rule ccontr)
    assume a: "\<not> i + 8 \<le> length t"
    then have "6 \<le> length t - i" using nz_padded[OF i] s by simp
    moreover have "length t mod 8 = length t - i" using a i by (intro mod_8_rest) simp_all
    ultimately show False using H n(2) by linarith
  qed
  obtain buf where b: "pack_seg s (pk_buffer p) (pk_pos p) (pk_bufsz p) (pk_ff_n p) = Some (8, buf)" "length buf = length (pk_buffer p)"
      "take (pk_pos p) buf = take (pk_pos p) (pk_buffer p)"
    using pack_seg_run[of "pk_pos p" "pk_bufsz p" "pk_buffer p" s "pk_ff_n p"] P l s(2) n by (auto simp: packing_def)
  let ?p = "p\<lparr>pk_buffer := buf, pk_bufsz := pk_bufsz p - 8\<rparr>"
  have r: "concat (run @ [s]) = take (8 * length (run @ [s])) (drop (i + 8 - 8 * length (run @ [s])) (pad t))"
    using run_extend[of run i t] P s(1) by (simp add: packing_def)
  have len: "run_len (run @ [s]) = length (flush (run @ [s]))" using P l by (subst length_flush) (auto simp: packing_def run_len_def)
  have dn: "take (length dn) buf = map Some dn" using take_le[OF b(3), of "length dn"] P by (simp add: packing_def)
  have "\<exists>buf'. end_ff (t @ post) (8 * int (length (run @ [s]))) ?p = Some (?p\<lparr>pk_buffer := buf', pk_ff_n := 0\<rparr>) \<and> length buf' = length (pk_buffer ?p) \<and>
      take (length (dn @ flush (run @ [s]))) buf' = map Some (dn @ flush (run @ [s])) \<and>
      drop (length (dn @ flush (run @ [s]))) buf' = drop (length (dn @ flush (run @ [s]))) (pk_buffer ?p)"
    using P B b(2) k n(2) l dn ne by (intro end_run[OF r _ _ _ whole]) (auto simp: packing_def len[symmetric] run_len_def)
  then obtain buf' where e: "end_ff (t @ post) 2048 ?p = Some (?p\<lparr>pk_buffer := buf', pk_ff_n := 0\<rparr>)" "length buf' = length (pk_buffer p)"
      "take (length (dn @ flush (run @ [s]))) buf' = map Some (dn @ flush (run @ [s]))"
    using b(2) k by auto
  let ?q = "?p\<lparr>pk_buffer := buf', pk_ff_n := 0, pk_pos := pk_pos p + 8, pk_size := pk_size p + 8\<rparr>"
  have "pack_step (t @ post) (int (length t)) (int i) p = Some ?q"
    using b(1) segment_seg[OF i, of post] s(1) n e(1) by (simp add: pack_step_def Let_def)
  moreover have "packing t N B (dn @ flush (run @ [s])) [] ?q (i + 8)"
    using P e(2,3) k len ne unfolding packing_def by (simp add: run_len_def)
  ultimately show ?thesis by blast
qed

lemma pack_step_end:
  assumes P: "packing t N B dn run p i" and run: "run \<noteq> []" and i: "i < length t" "i mod 8 = 0" and s: "s = take 8 (drop i (pad t))" "\<not> 6 \<le> nz s"
    and B: "length dn + length (flush run) + Suc (nz s) \<le> B"
  shows "\<exists>p'. pack_step (t @ post) (int (length t)) (int i) p = Some p' \<and> packing t N B (dn @ flush run @ tag_seg s) [] p' (i + 8)"
proof -
  have l: "length s = 8" using length_seg[OF i] s(1) by simp
  have n: "0 < pk_ff_n p" "pk_ff_n p * 8 = 8 * int (length run)" using P run by (simp_all add: packing_def)
  have len: "run_len run = length (flush run)" using P by (subst length_flush) (auto simp: packing_def run_len_def)
  have pos: "pk_pos p = length (dn @ flush run)" using P len by (simp add: packing_def)
  obtain buf where b: "pack_seg s (pk_buffer p) (pk_pos p) (pk_bufsz p) (pk_ff_n p) = Some (int (nz s) + 1, buf)" "length buf = length (pk_buffer p)"
      "take (pk_pos p + Suc (nz s)) buf = take (pk_pos p) (pk_buffer p) @ map Some (tag_seg s)"
    using pack_seg_tag[of "pk_pos p" "pk_bufsz p" "pk_buffer p" s "pk_ff_n p"] P l s(2) n B len by (auto simp: packing_def)
  let ?p = "p\<lparr>pk_buffer := buf, pk_bufsz := pk_bufsz p - (int (nz s) + 1)\<rparr>"
  have le: "pk_pos p \<le> length (pk_buffer p)" using P B len by (simp add: packing_def)
  then have "take (pk_pos p) buf = take (pk_pos p) (pk_buffer p)" using arg_cong[OF b(3), of "take (pk_pos p)"] by (simp add: min_def)
  from take_le[OF this, of "length dn"] have dn: "take (length dn) buf = map Some dn" using P by (simp add: packing_def)
  have "\<exists>buf'. end_ff (t @ post) (8 * int (length run)) ?p = Some (?p\<lparr>pk_buffer := buf', pk_ff_n := 0\<rparr>) \<and> length buf' = length (pk_buffer ?p) \<and>
      take (length (dn @ flush run)) buf' = map Some (dn @ flush run) \<and> drop (length (dn @ flush run)) buf' = drop (length (dn @ flush run)) (pk_buffer ?p)"
    using P B b(2) dn run i by (intro end_run[of run i t]) (auto simp: packing_def len[symmetric] run_len_def)
  then obtain buf' where e: "end_ff (t @ post) (8 * int (length run)) ?p = Some (?p\<lparr>pk_buffer := buf', pk_ff_n := 0\<rparr>)" "length buf' = length (pk_buffer p)"
      "take (pk_pos p) buf' = map Some (dn @ flush run)" "drop (pk_pos p) buf' = drop (pk_pos p) buf"
    using b(2) unfolding pos by auto
  let ?q = "?p\<lparr>pk_buffer := buf', pk_ff_n := 0, pk_pos := pk_pos p + Suc (nz s), pk_size := pk_size p + (int (nz s) + 1)\<rparr>"
  have m: "int (nz s) + 1 \<noteq> 10" "int (nz s) + 1 \<noteq> 8" "nat (int (nz s) + 1) = Suc (nz s)" using s(2) by simp_all
  have "pack_step (t @ post) (int (length t)) (int i) p = Some ?q"
    using b(1) segment_seg[OF i, of post] s(1) n e(1) m by (simp add: pack_step_def Let_def mult.commute)
  moreover have "take (pk_pos p + Suc (nz s)) buf' = map Some (dn @ flush run) @ map Some (tag_seg s)"
  proof -
    have "take (Suc (nz s)) (drop (pk_pos p) buf) = map Some (tag_seg s)"
      using arg_cong[OF b(3), of "drop (pk_pos p)"] le by (simp add: drop_take)
    then show ?thesis unfolding take_add e(3,4) by simp
  qed
  then have "packing t N B (dn @ flush run @ tag_seg s) [] ?q (i + 8)"
    using P e(2) pos run unfolding packing_def by (simp add: run_len_def add.assoc)
  ultimately show ?thesis by blast
qed

lemma pack_step_enc:
  assumes P: "packing t N B dn run p i" and i: "i < length t" "i mod 8 = 0" and s: "s = take 8 (drop i (pad t))"
    and H: "length t < 2046 \<or> length t mod 8 < 6" and B: "length dn + length (packed_form run (s # ss)) \<le> B"
  shows "\<exists>p' dn' run'. pack_step (t @ post) (int (length t)) (int i) p = Some p' \<and> packing t N B dn' run' p' (i + 8) \<and> dn' @ packed_form run' ss = dn @ packed_form run (s # ss)"
proof -
  have k: "length run < 256" using P by (simp add: packing_def)
  consider "run = []" "nz s = 8" | "run = []" "nz s \<noteq> 8" | "run \<noteq> []" "6 \<le> nz s" "length run < 255" | "run \<noteq> []" "6 \<le> nz s" "length run = 255"
    | "run \<noteq> []" "\<not> 6 \<le> nz s" using k by linarith
  then show ?thesis
  proof cases
    case 1
    from pack_step_start[OF P[unfolded 1] i s 1(2)] show ?thesis using 1 by fastforce
  next
    case 2
    from pack_step_tag[OF P[unfolded 2] i s 2(2)] B 2 show ?thesis by fastforce
  next
    case 3
    from pack_step_join[OF P 3(1) i s 3(2,3)] show ?thesis using 3 by fastforce
  next
    case 4
    from pack_step_full[OF P i s 4(2,3) H] B 4 show ?thesis by fastforce
  next
    case 5
    from pack_step_end[OF P 5(1) i s 5(2)] B 5 show ?thesis by fastforce
  qed
qed

lemma pack_loop_enc:
  assumes "packing t N B dn run p i" "i mod 8 = 0" "i < length t + 8" "length t < 2046 \<or> length t mod 8 < 6" "length dn + length (packed_form run (segs t i)) \<le> B"
  shows "\<exists>p' dn' run'. pack_loop (t @ post) (int (length t)) (int i) p = Some p' \<and> packing t N B dn' run' p' (length (pad t)) \<and> dn' @ flush run' = dn @ packed_form run (segs t i)"
  using assms
proof (induction t i arbitrary: dn run p rule: segs.induct)
  case (1 t i)
  show ?case
  proof (cases "i < length t")
    case True
    let ?s = "take 8 (drop i (pad t))"
    have g: "segs t i = ?s # segs t (i + 8)" using True segs.simps[of t i] by simp
    obtain p1 dn1 run1 where p1: "pack_step (t @ post) (int (length t)) (int i) p = Some p1" "packing t N B dn1 run1 p1 (i + 8)"
        "dn1 @ packed_form run1 (segs t (i + 8)) = dn @ packed_form run (segs t i)"
      using pack_step_enc[OF 1(2) True 1(3) refl 1(5), of "segs t (i + 8)" post] 1(6) unfolding g by blast
    have "length (dn1 @ packed_form run1 (segs t (i + 8))) \<le> B" unfolding p1(3) using 1(6) by simp
    then obtain p' dn' run' where "pack_loop (t @ post) (int (length t)) (int (i + 8)) p1 = Some p'" "packing t N B dn' run' p' (length (pad t))"
        "dn' @ flush run' = dn1 @ packed_form run1 (segs t (i + 8))"
      using 1(1)[OF True p1(2)] True 1(3,5) by auto
    then show ?thesis using p1 True by (subst pack_loop.simps) auto
  next
    case False
    then have "length (pad t) = i" using pad_end 1(3,4) by simp
    moreover have "segs t i = []" using False segs.simps[of t i] by simp
    ultimately show ?thesis using 1(2) False by (subst pack_loop.simps) fastforce
  qed
qed

text \<open>The run that is left at the end, whose last segment may be filled up.\<close>

lemma end_last:
  assumes P: "packing t N B dn run p (length (pad t))" and B: "length dn + length (flush run) \<le> B" and run: "run \<noteq> []"
  shows "\<exists>buf'. end_ff (t @ post) (if length run = 1 then 8 else int (length t) - pk_ff_srcstart p) p = Some (p\<lparr>pk_buffer := buf', pk_ff_n := 0\<rparr>) \<and>
    length buf' = length (pk_buffer p) \<and> take (length (dn @ flush run)) buf' = map Some (dn @ flush run)"
proof -
  let ?i = "length (pad t)" and ?n = "if length run = 1 then 8 else int (length t) - pk_ff_srcstart p"
  define a where "a = ?i - 8 * length run"
  have pp: "8 * length run \<le> ?i" "concat run = take (8 * length run) (drop a (pad t))" "\<forall>s \<in> set run. length s = 8" "pk_ff_srcstart p = int a" "a + 8 \<le> length t"
      "pk_ff_desstart p = length dn" "take (length dn) (pk_buffer p) = map Some dn" "length dn + length (flush run) \<le> length (pk_buffer p)"
    using P run B by (auto simp: packing_def a_def of_nat_diff)
  have am: "a mod 8 = 0" "a + 8 * length run = ?i" using pad_mod(1)[of t] pp(1) unfolding a_def by (auto simp: mod_eq_0_iff_dvd dvd_diff_nat)
  have pd: "pad t = t @ replicate (?i - length t) 0" by (simp add: pad_def)
  have cr: "concat run = drop a t @ replicate (?i - length t) 0" 
  proof -
    have "length (drop a (pad t)) = 8 * length run" using am(2) by simp
    then have "concat run = drop a (pad t)" unfolding pp(2) by simp
    then show ?thesis using pp(5) by (subst (asm) pd) simp
  qed
  obtain m where m: "?n = int m" "m = (if length run = 1 then 8 else length t - a)" using pp(4,5) by auto
  have am8: "a + m \<le> length t" "0 < m" using m(2) pp(5) by auto
  have al: "(int m + 7) div 8 * 8 = 8 * int (length run)"
  proof (cases "length run = 1")
    case False
    have "int ?i = int a + 8 * int (length run)" using am(2) by linarith
    moreover have "int (length t) \<le> int ?i" "int ?i < int (length t) + 8" using pad_mod(2,3)[of t] by linarith+
    ultimately show ?thesis using m(2) False pp(5) by auto
  qed (use m(2) in simp)
  have rd: "mem_read (t @ post) (int a) (int m) = Some (take m (drop a t))" using am8 by (simp add: mem_read_def)
  have all: "take m (drop a t) @ replicate (nat ((int m + 7) div 8 * 8 - int m)) 0 = concat run"
  proof (cases "length run = 1")
    case True
    then have "a + 8 = ?i" using am(2) by simp
    then have "length t = a + 8" using pp(5) pad_mod(2)[of t] by simp
    then show ?thesis using True m(2) \<open>a + 8 = ?i\<close> unfolding cr by simp
  next
    case False
    have "nat (8 * int (length run) - int m) = ?i - length t" using False m(2) am(2) pp(5) by auto
    then show ?thesis unfolding al cr using False m(2) by simp
  qed
  have "0 \<le> pk_bufsz p" using P B pp(3) by (auto simp: packing_def run_len_def length_flush)
  then show ?thesis using write_ff_run[OF rd _ all al run pp(8,7)] am8 pp(4,6) unfolding m(1) by (auto simp: end_ff_def)
qed

lemma sproto_pack_enc:
  assumes H: "length t < 2046 \<or> length t mod 8 < 6" and B: "length (packed_form [] (segs t 0)) \<le> B" "B \<le> length buf"
  shows "\<exists>buf'. sproto_pack (t @ post) (int (length t)) buf (int B) = Some (int (length (packed_form [] (segs t 0))), buf') \<and> length buf' = length buf \<and>
    take (length (packed_form [] (segs t 0))) buf' = map Some (packed_form [] (segs t 0))"
proof -
  let ?p = "\<lparr>pk_buffer = buf, pk_pos = 0, pk_bufsz = int B, pk_ff_srcstart = 0, pk_ff_desstart = 0, pk_ff_n = 0, pk_size = 0\<rparr>"
  have "packing t (length buf) B [] [] ?p 0" using B(2) by (simp add: packing_def run_len_def)
  from pack_loop_enc[OF this _ _ H, of post] B(1) obtain p dn run where p: "pack_loop (t @ post) (int (length t)) 0 ?p = Some p" "packing t (length buf) B dn run p (length (pad t))"
      "dn @ flush run = packed_form [] (segs t 0)" by auto
  have len: "length dn + length (flush run) = length (packed_form [] (segs t 0))" unfolding p(3)[symmetric] by simp
  have sz: "pk_size p = int (length (packed_form [] (segs t 0)))" using p(2) by (auto simp: packing_def len[symmetric] run_len_def length_flush)
  have lb: "length (pk_buffer p) = length buf" using p(2) by (simp add: packing_def)
  show ?thesis
  proof (cases "run = []")
    case True
    then have "pk_ff_n p = 0" "take (length dn) (pk_buffer p) = map Some dn" "dn = packed_form [] (segs t 0)" using p(2,3) by (simp_all add: packing_def flush_def)
    then show ?thesis using p(1) sz lb by (simp add: sproto_pack_def)
  next
    case False
    then have n: "pk_ff_n p = int (length run)" "0 < length run" using p(2) by (simp_all add: packing_def)
    obtain buf' where b: "end_ff (t @ post) (if length run = 1 then 8 else int (length t) - pk_ff_srcstart p) p = Some (p\<lparr>pk_buffer := buf', pk_ff_n := 0\<rparr>)"
        "length buf' = length (pk_buffer p)" "take (length (packed_form [] (segs t 0))) buf' = map Some (packed_form [] (segs t 0))"
      using end_last[OF p(2) _ False, of post] B(1) len p(3) by auto
    show ?thesis
    proof (cases "length run = 1")
      case True
      then show ?thesis using p(1) b sz lb n by (simp add: sproto_pack_def)
    next
      case False
      then have "1 < length run" using n(2) by linarith
      then show ?thesis using p(1) b sz lb n by (simp add: sproto_pack_def)
    qed
  qed
qed

section \<open>Its size\<close>

definition last_cost :: "u8 list list \<Rightarrow> nat" where
  "last_cost ss = (if ss = [] then 0 else 8 * (length ss - 1) + min 8 (nz (last ss) + 2))"

lemma last_cost_Cons: "last_cost (s # ss) = (if ss = [] then min 8 (nz s + 2) else 8 + last_cost ss)"
  by (cases ss) (simp_all add: last_cost_def)

text \<open>Two bytes for each 256 segments: a run that ends early ends with a segment that saves two.\<close>

lemma enc_bound:
  "length run < 256 \<Longrightarrow> \<forall>s \<in> set (run @ ss). length s = 8 \<Longrightarrow>
    length (packed_form run ss) \<le> 8 * length run + last_cost ss + 2 * ((length run + length ss + 255) div 256)"
proof (induction ss arbitrary: run)
  case Nil
  then show ?case by (cases run) (auto simp: length_flush last_cost_def)
next
  case (Cons s ss)
  have l: "length s = 8" "nz s \<le> 8" using Cons.prems(2) nz_le[of s] by auto
  have c: "ss = [] \<and> last_cost (s # ss) = min 8 (nz s + 2) \<or> last_cost (s # ss) = 8 + last_cost ss" "last_cost [] = 0"
    by (cases ss; simp add: last_cost_Cons last_cost_def)+
  have r8: "\<forall>x \<in> set ss. length x = 8" "\<forall>x \<in> set run. length x = 8" using Cons.prems(2) by auto
  have IH0: "length (packed_form [] ss) \<le> last_cost ss + 2 * ((length ss + 255) div 256)" using Cons.IH[of "[]"] r8 by simp
  have d: "(length ss + 255) div 256 \<le> (256 + length ss) div 256" by (rule div_le_mono) simp
  have d2: "(511 + length ss) div 256 = Suc ((length ss + 255) div 256)" using div_add_self2[of 256 "length ss + 255"] by (simp add: add.commute)
  show ?case
  proof (cases "run = []")
    case True
    then show ?thesis using IH0 c l Cons.IH[of "[s]"] r8 d by (cases "nz s = 8") (auto simp: min_def split: if_splits)
  next
    case False
    note f = length_flush[of run] length_flush[of "run @ [s]"]
    show ?thesis
    proof (cases "6 \<le> nz s")
      case True
      then show ?thesis using False Cons.IH[of "run @ [s]"] Cons.prems l c IH0 f r8 d2 by (cases "length run = 255") auto
    next
      case n: False
      have "(length ss + 255) div 256 \<le> (256 + (length run + length ss)) div 256" by (rule div_le_mono) simp
      moreover have "1 \<le> (256 + (length run + length ss)) div 256" by simp
      ultimately show ?thesis using n False l c IH0 f r8 by (auto simp: flush_def)
    qed
  qed
qed

lemma segs_cost: "i mod 8 = 0 \<Longrightarrow> i < length t \<Longrightarrow> last_cost (segs t i) \<le> length t - i + 2 \<and> length (segs t i) = (length t - i + 7) div 8"
proof (induction t i rule: segs.induct)
  case (1 t i)
  let ?s = "take 8 (drop i (pad t))"
  have g: "segs t i = ?s # segs t (i + 8)" using 1(3) segs.simps[of t i] by simp
  show ?case
  proof (cases "i + 8 < length t")
    case True
    have ne: "segs t (i + 8) \<noteq> []" using True segs.simps[of t "i + 8"] by simp
    have IH: "last_cost (segs t (i + 8)) \<le> length t - (i + 8) + 2" "length (segs t (i + 8)) = (length t - (i + 8) + 7) div 8"
      using 1(1)[OF 1(3) _ True] 1(2) by auto
    have "(length t - i + 7) div 8 = Suc ((length t - (i + 8) + 7) div 8)" using True by auto
    then show ?thesis unfolding g using ne IH True by (simp add: last_cost_Cons)
  next
    case False
    then have e: "segs t (i + 8) = []" using segs.simps[of t "i + 8"] by simp
    have "(length t - i + 7) div 8 = 1" using False 1(3) by auto
    moreover have "min 8 (nz ?s + 2) \<le> length t - i + 2" using nz_padded[OF 1(3,2)] False by (cases "length t < i + 8") auto
    ultimately show ?thesis unfolding g e by (simp add: last_cost_Cons)
  qed
qed

text \<open>The packed form fits into the space that \<open>lpack\<close> asks for.\<close>

lemma enc_fits: "length (packed_form [] (segs t 0)) \<le> (length t + 2047) div 2048 * 2 + length t + 2"
proof (cases "t = []")
  case True
  then show ?thesis by (simp add: segs.simps[of "[]" 0] flush_def)
next
  case False
  have c: "last_cost (segs t 0) \<le> length t + 2" "length (segs t 0) = (length t + 7) div 8" using segs_cost[of 0 t] False by auto
  have "((length t + 7) div 8 + 255) div 256 = (length t + 2047) div 2048"
  proof -
    have "(length t + 7) div 8 + 255 = (length t + 7 + 255 * 8) div 8" by simp
    then show ?thesis by (simp add: div_mult2_eq[symmetric] add.assoc del: div_mult_self1)
  qed
  then show ?thesis using enc_bound[of "[]" "segs t 0"] c segs_8[of 0 _ t] by auto
qed

section \<open>Unpacking\<close>

lemma int32_small [simp]: "- (2 ^ 31) \<le> n \<Longrightarrow> n < 2 ^ 31 \<Longrightarrow> int32 n = n"
  unfolding int32_def by (simp add: signed_of_int signed_take_bit_int_eq_self)

lemma int32_add [simp]: "int32 (int32 n + m) = int32 (n + m)" "int32 (m + int32 n) = int32 (m + n)"
proof -
  have "word_of_int (sint (word_of_int n :: i32) + m) = (word_of_int (n + m) :: i32)" by (simp del: signed_of_int)
  then show "int32 (int32 n + m) = int32 (n + m)" by (simp only: int32_def)
  then show "int32 (m + int32 n) = int32 (m + n)" by (simp only: add.commute)
qed

text \<open>\<open>out\<close> has been put out, into a buffer of \<open>N\<close> cells of which \<open>B\<close> may be used, as far as it goes.\<close>

definition outs :: "nat \<Rightarrow> nat \<Rightarrow> u8 list \<Rightarrow> unpacker \<Rightarrow> bool" where
  "outs N B out u \<longleftrightarrow> up_size u = int32 (int (length out)) \<and> length (up_buffer u) = N \<and> B \<le> N \<and>
     (if length out \<le> B then up_pos u = length out \<and> up_bufsz u = int B - int (length out) \<and> take (length out) (up_buffer u) = map Some out
      else up_bufsz u \<le> 0)"

lemma outs_moved [simp]: "outs N B out (u\<lparr>up_off := a, up_srcsz := b\<rparr>) = outs N B out u"
  by (simp add: outs_def)

lemma put_byte_outs:
  assumes "outs N B out u"
  shows "\<exists>u'. put_byte b u = Some u' \<and> outs N B (out @ [b]) u' \<and> up_off u' = up_off u \<and> up_srcsz u' = up_srcsz u"
proof (cases "0 < up_bufsz u")
  case True
  then have o: "length out < B" "up_pos u = length out" "length out < length (up_buffer u)" using assms by (auto simp: outs_def split: if_splits)
  then show ?thesis using True assms take_set_cell[of "length out" "up_buffer u" "Some b"] by (auto simp: put_byte_def outs_def cell_set_def add.commute)
next
  case False
  then show ?thesis using assms by (auto simp: put_byte_def outs_def add.commute split: if_splits)
qed

lemma drop_Cons_at: "drop k src = b # r \<Longrightarrow> src_at src k = Some b \<and> drop (Suc k) src = r"
proof -
  assume a: "drop k src = b # r"
  then have k: "k < length src" by (metis drop_eq_Nil list.distinct(1) not_less)
  from Cons_nth_drop_Suc[OF k] show ?thesis using a k by (simp add: src_at_def)
qed

lemma unpack_bits_seg:
  assumes "outs N B out u" "\<And>j. j < length bs \<Longrightarrow> (drop_bit (i + j) h AND 1 \<noteq> 0) = (bs ! j \<noteq> 0)" "int (nz bs) \<le> up_srcsz u"
    "drop (up_off u) src = filter (\<lambda>b. b \<noteq> 0) bs @ rest"
  shows "\<exists>u'. unpack_bits [i..<i + length bs] h src u = Some (Inr u') \<and> outs N B (out @ bs) u' \<and> up_off u' = up_off u + nz bs \<and> up_srcsz u' = up_srcsz u - int (nz bs)"
  using assms
proof (induction bs arbitrary: i out u)
  case Nil
  then show ?case by (simp add: nz_def)
next
  case (Cons b bs)
  have up: "[i..<i + length (b # bs)] = i # [Suc i..<Suc i + length bs]" by (simp add: upt_conv_Cons del: upt_Suc)
  have h: "(drop_bit i h AND 1 \<noteq> 0) = (b \<noteq> 0)" "\<And>j. j < length bs \<Longrightarrow> (drop_bit (Suc i + j) h AND 1 \<noteq> 0) = (bs ! j \<noteq> 0)"
    using Cons.prems(2)[of 0] Cons.prems(2)[of "Suc j" for j] by auto
  obtain u1 where u1: "put_byte b u = Some u1" "outs N B (out @ [b]) u1" "up_off u1 = up_off u" "up_srcsz u1 = up_srcsz u"
    using put_byte_outs[OF Cons.prems(1)] by blast
  show ?case
  proof (cases "b = 0")
    case True
    have "\<exists>u'. unpack_bits [Suc i..<Suc i + length bs] h src u1 = Some (Inr u') \<and> outs N B ((out @ [b]) @ bs) u' \<and> up_off u' = up_off u1 + nz bs \<and> up_srcsz u' = up_srcsz u1 - int (nz bs)"
      using Cons.prems(3,4) True u1 by (intro Cons.IH[OF u1(2) h(2)]) (simp_all add: nz_def)
    then show ?thesis using True h(1) u1 unfolding up by (auto simp: nz_def)
  next
    case False
    have d: "src_at src (up_off u) = Some b" "drop (Suc (up_off u)) src = filter (\<lambda>b. b \<noteq> 0) bs @ rest"
      using Cons.prems(4) False by (auto dest!: drop_Cons_at)
    let ?u = "u1\<lparr>up_off := Suc (up_off u), up_srcsz := up_srcsz u - 1\<rparr>"
    have n: "nz (b # bs) = Suc (nz bs)" using False by (simp add: nz_def)
    have "\<exists>u'. unpack_bits [Suc i..<Suc i + length bs] h src ?u = Some (Inr u') \<and> outs N B ((out @ [b]) @ bs) u' \<and> up_off u' = up_off ?u + nz bs \<and> up_srcsz u' = up_srcsz ?u - int (nz bs)"
      using Cons.prems(3) n d(2) u1(2) by (intro Cons.IH[OF _ h(2)]) simp_all
    moreover have "unpack_bits (i # [Suc i..<Suc i + length bs]) h src u = unpack_bits [Suc i..<Suc i + length bs] h src ?u"
    proof (cases "0 < up_bufsz u")
      case True
      then show ?thesis using False h(1) Cons.prems(3) n d(1) u1(1) by simp
    next
      case nb: False
      then have "put_byte 0 u = put_byte b u" by (simp add: put_byte_def)
      then show ?thesis using nb False h(1) Cons.prems(3) n u1(1) by simp
    qed
    ultimately show ?thesis unfolding up using n by auto
  qed
qed

lemma hdr_bit: "i + length bs \<le> 8 \<Longrightarrow> bit (hdr i bs) j \<longleftrightarrow> i \<le> j \<and> j < i + length bs \<and> bs ! (j - i) \<noteq> 0"
proof (induction bs arbitrary: i)
  case (Cons b bs)
  have "bit (push_bit i (1 :: u8)) j \<longleftrightarrow> j = i" using Cons.prems by (auto simp: bit_simps)
  then show ?case using Cons by (cases "j = i") (auto simp: bit_simps nth_Cons' Suc_le_eq diff_Suc split: nat.splits)
qed simp

lemma bit_and_1: "drop_bit i (h :: u8) AND 1 \<noteq> 0 \<longleftrightarrow> bit h i"
  by (simp add: and_one_eq odd_iff_mod_2_eq_one bit_iff_odd_drop_bit)

lemma hdr_not_ff: "length s = 8 \<Longrightarrow> nz s \<noteq> 8 \<Longrightarrow> hdr 0 s \<noteq> 0xff"
proof
  assume s: "length s = 8" "nz s \<noteq> 8" and "hdr 0 s = 0xff"
  have m: "(0xff :: u8) = mask 8" by (simp add: mask_eq_exp_minus_1)
  have "s ! j \<noteq> 0" if "j < 8" for j
    using hdr_bit[of 0 s j] that s(1) \<open>hdr 0 s = 0xff\<close> unfolding m by (auto simp: bit_mask_iff)
  then have "filter (\<lambda>b. b \<noteq> 0) s = s" using s(1) by (auto simp: filter_id_conv in_set_conv_nth)
  then show False using s by (simp add: nz_def)
qed

lemma unpack_step_tag:
  assumes "outs N B out u" "length s = 8" "nz s \<noteq> 8" "drop (up_off u) src = tag_seg s @ rest" "int (length (tag_seg s)) \<le> up_srcsz u"
  shows "\<exists>u'. unpack_seg src u = Some (Inr u') \<and> outs N B (out @ s) u' \<and> up_off u' = up_off u + length (tag_seg s) \<and> up_srcsz u' = up_srcsz u - int (length (tag_seg s))"
proof -
  have d: "src_at src (up_off u) = Some (hdr 0 s)" "drop (Suc (up_off u)) src = filter (\<lambda>b. b \<noteq> 0) s @ rest"
    using assms(4) drop_Cons_at[of "up_off u" src] by (simp_all add: tag_seg_def)
  let ?u = "u\<lparr>up_off := Suc (up_off u), up_srcsz := up_srcsz u - 1\<rparr>"
  have h: "(drop_bit (0 + j) (hdr 0 s) AND 1 \<noteq> 0) = (s ! j \<noteq> 0)" if "j < length s" for j
    using hdr_bit[of 0 s j] that assms(2) unfolding bit_and_1 by simp
  have "\<exists>u'. unpack_bits [0..<0 + length s] (hdr 0 s) src ?u = Some (Inr u') \<and> outs N B (out @ s) u' \<and> up_off u' = up_off ?u + nz s \<and> up_srcsz u' = up_srcsz ?u - int (nz s)"
    using assms(1,5) d(2) by (intro unpack_bits_seg[OF _ h]) simp_all
  then show ?thesis using d(1) hdr_not_ff[OF assms(2,3)] assms(2) by (auto simp: unpack_seg_def Let_def)
qed

lemma outs_bytes:
  assumes "outs N B out u" "n = length bs" "0 < n"
  shows "\<exists>buf. (if int n \<le> up_bufsz u then put_bytes (up_buffer u) (up_pos u) bs else Some (up_buffer u)) = Some buf \<and>
    outs N B (out @ bs) (u\<lparr>up_off := a, up_srcsz := b, up_buffer := buf, up_pos := up_pos u + n, up_bufsz := up_bufsz u - int n, up_size := int32 (up_size u + int n)\<rparr>)"
proof (cases "int n \<le> up_bufsz u")
  case True
  have "\<not> up_bufsz u \<le> 0" using True assms(3) by linarith
  from True have o: "length out + n \<le> B" "up_pos u = length out" "length out + n \<le> length (up_buffer u)" "take (length out) (up_buffer u) = map Some out"
    using assms \<open>\<not> up_bufsz u \<le> 0\<close> by (auto simp: outs_def split: if_splits)
  have "put_bytes (up_buffer u) (up_pos u) bs = Some (map Some out @ map Some bs @ drop (length out + n) (up_buffer u))"
    using put_bytes_eq[of "up_pos u" bs "up_buffer u"] o assms(2) by simp
  then show ?thesis using True assms o by (auto simp: outs_def split: if_splits)
next
  case False
  then show ?thesis using assms by (auto simp: outs_def split: if_splits)
qed

lemma unpack_ff_eq:
  assumes "src_at src (up_off u) = Some c" "(unat c + 1) * 8 = n" "int n + 1 \<le> up_srcsz u" "mem_read src (int (up_off u) + 1) (int n) = Some bs"
    "(if int n \<le> up_bufsz u then put_bytes (up_buffer u) (up_pos u) bs else Some (up_buffer u)) = Some buf"
  shows "unpack_ff src u = Some (Inr (u\<lparr>up_off := up_off u + 1 + n, up_srcsz := up_srcsz u - (int n + 1), up_buffer := buf, up_pos := up_pos u + n,
    up_bufsz := up_bufsz u - int n, up_size := int32 (up_size u + int n)\<rparr>))"
  unfolding unpack_ff_def assms(1) bind.bind_lunit Let_def assms(2) using assms(3-5) by auto

lemma unpack_step_flush:
  assumes "outs N B out u" "run \<noteq> []" "length run \<le> 256" "\<forall>s \<in> set run. length s = 8" "drop (up_off u) src = flush run @ rest" "int (length (flush run)) \<le> up_srcsz u"
  shows "\<exists>u'. unpack_seg src u = Some (Inr u') \<and> outs N B (out @ concat run) u' \<and> up_off u' = up_off u + length (flush run) \<and> up_srcsz u' = up_srcsz u - int (length (flush run))"
proof -
  let ?k = "up_off u" and ?n = "8 * length run"
  have d: "src_at src ?k = Some 0xff" "src_at src (Suc ?k) = Some (word_of_nat (length run - 1))" "drop (Suc (Suc ?k)) src = concat run @ rest"
    using assms(2,5) drop_Cons_at[of ?k src] drop_Cons_at[of "Suc ?k" src] by (simp_all add: flush_def)
  have lc: "length (concat run) = ?n" "length (flush run) = 2 + ?n" using assms(2,4) by (simp_all add: length_concat_8 length_flush)
  have c: "(unat (word_of_nat (length run - 1) :: u8) + 1) * 8 = ?n" using assms(2,3) by (cases run) (simp_all add: unat_of_nat)
  have "length (drop (Suc (Suc ?k)) src) = ?n + length rest" unfolding d(3) using lc(1) by simp
  moreover have "0 < ?n" using assms(2) by simp
  ultimately have "Suc (Suc ?k) + ?n \<le> length src" unfolding length_drop by linarith
  then have m: "mem_read src (int (Suc ?k) + 1) (int ?n) = Some (concat run)"
    using lc(1) d(3) by (auto simp: mem_read_def nat_add_distrib)
  let ?u = "u\<lparr>up_off := Suc ?k, up_srcsz := up_srcsz u - 1\<rparr>"
  obtain buf where b: "(if int ?n \<le> up_bufsz ?u then put_bytes (up_buffer ?u) (up_pos ?u) (concat run) else Some (up_buffer ?u)) = Some buf"
      "outs N B (out @ concat run) (?u\<lparr>up_off := up_off ?u + 1 + ?n, up_srcsz := up_srcsz ?u - (int ?n + 1), up_buffer := buf, up_pos := up_pos ?u + ?n,
         up_bufsz := up_bufsz ?u - int ?n, up_size := int32 (up_size ?u + int ?n)\<rparr>)"
    using outs_bytes[of N B out ?u ?n "concat run"] assms(1,2) lc(1) by auto
  have "unpack_ff src ?u = Some (Inr (?u\<lparr>up_off := up_off ?u + 1 + ?n, up_srcsz := up_srcsz ?u - (int ?n + 1), up_buffer := buf, up_pos := up_pos ?u + ?n,
         up_bufsz := up_bufsz ?u - int ?n, up_size := int32 (up_size ?u + int ?n)\<rparr>))"
    by (rule unpack_ff_eq[OF _ c _ _ b(1)]) (use assms(6) lc(2) d(2) m in simp_all)
  then show ?thesis using d(1) b(2) lc(2) by (auto simp: unpack_seg_def Let_def)
qed

lemma unpack_loop_seg: "unpack_seg src u = Some (Inr u') \<Longrightarrow> 0 < up_srcsz u \<Longrightarrow> sproto_unpack_loop src u = sproto_unpack_loop src u'"
  by (subst sproto_unpack_loop.simps) simp

lemma unpack_flush:
  assumes "outs N B out u" "length run \<le> 256" "\<forall>s \<in> set run. length s = 8" "drop (up_off u) src = flush run @ rest" "int (length (flush run)) \<le> up_srcsz u"
  shows "\<exists>u'. sproto_unpack_loop src u = sproto_unpack_loop src u' \<and> outs N B (out @ concat run) u' \<and> drop (up_off u') src = rest \<and> up_srcsz u' = up_srcsz u - int (length (flush run))"
proof (cases "run = []")
  case True
  then show ?thesis using assms by (intro exI[of _ u]) (simp add: flush_def)
next
  case False
  obtain u' where u': "unpack_seg src u = Some (Inr u')" "outs N B (out @ concat run) u'" "up_off u' = up_off u + length (flush run)" "up_srcsz u' = up_srcsz u - int (length (flush run))"
    using unpack_step_flush[OF assms(1) False assms(2-5)] by blast
  have "0 < up_srcsz u" using assms(5) False by (simp add: flush_def)
  moreover have "drop (up_off u') src = rest" unfolding u'(3) drop_drop[symmetric] add.commute[of "up_off u"] using assms(4) by simp
  ultimately show ?thesis using u' unpack_loop_seg by blast
qed

lemma unpack_tag:
  assumes "outs N B out u" "length s = 8" "nz s \<noteq> 8" "drop (up_off u) src = tag_seg s @ rest" "int (length (tag_seg s)) \<le> up_srcsz u"
  shows "\<exists>u'. sproto_unpack_loop src u = sproto_unpack_loop src u' \<and> outs N B (out @ s) u' \<and> drop (up_off u') src = rest \<and> up_srcsz u' = up_srcsz u - int (length (tag_seg s))"
proof -
  obtain u' where u': "unpack_seg src u = Some (Inr u')" "outs N B (out @ s) u'" "up_off u' = up_off u + length (tag_seg s)" "up_srcsz u' = up_srcsz u - int (length (tag_seg s))"
    using unpack_step_tag[OF assms] by blast
  have "0 < up_srcsz u" using assms(5) by simp
  moreover have "drop (up_off u') src = rest" unfolding u'(3) drop_drop[symmetric] add.commute[of "up_off u"] using assms(4) by simp
  ultimately show ?thesis using u' unpack_loop_seg by blast
qed

lemma unpack_enc:
  assumes "outs N B out u" "length run < 256" "\<forall>s \<in> set (run @ ss). length s = 8" "drop (up_off u) src = packed_form run ss @ post" "up_srcsz u = int (length (packed_form run ss))"
  shows "\<exists>u'. sproto_unpack_loop src u = Some (up_size u', up_buffer u') \<and> outs N B (out @ concat run @ concat ss) u'"
  using assms
proof (induction ss arbitrary: out u run)
  case Nil
  then obtain u' where u': "sproto_unpack_loop src u = sproto_unpack_loop src u'" "outs N B (out @ concat run) u'" "up_srcsz u' = 0"
    using unpack_flush[of N B out u run src post] by auto
  then have "sproto_unpack_loop src u' = Some (up_size u', up_buffer u')" by (subst sproto_unpack_loop.simps) simp
  then show ?case using u' by auto
next
  case (Cons s ss)
  have l: "length s = 8" "\<forall>x \<in> set run. length x = 8" "\<forall>x \<in> set ss. length x = 8" using Cons.prems(3) by auto
  have tag: ?case if nt: "nz s \<noteq> 8" and e: "packed_form run (s # ss) = flush run @ tag_seg s @ packed_form [] ss"
  proof -
    obtain u1 where u1: "sproto_unpack_loop src u = sproto_unpack_loop src u1" "outs N B (out @ concat run) u1" "drop (up_off u1) src = tag_seg s @ (packed_form [] ss @ post)"
        "up_srcsz u1 = int (length (tag_seg s)) + int (length (packed_form [] ss))"
      using unpack_flush[OF Cons.prems(1) _ l(2), of src "tag_seg s @ packed_form [] ss @ post"] Cons.prems(2,4,5) e by auto
    obtain u2 where u2: "sproto_unpack_loop src u1 = sproto_unpack_loop src u2" "outs N B ((out @ concat run) @ s) u2" "drop (up_off u2) src = packed_form [] ss @ post"
        "up_srcsz u2 = int (length (packed_form [] ss))"
      using unpack_tag[OF u1(2) l(1) nt u1(3)] u1(4) by auto
    from Cons.IH[OF u2(2), of "[]"] l u2 u1(1) show ?thesis by auto
  qed
  have go: ?case if e: "packed_form run (s # ss) = packed_form (run @ [s]) ss" and n: "length (run @ [s]) < 256"
    using Cons.IH[of out u "run @ [s]"] Cons.prems e n by simp
  have full: ?case if e: "packed_form run (s # ss) = flush (run @ [s]) @ packed_form [] ss"
  proof -
    obtain u1 where u1: "sproto_unpack_loop src u = sproto_unpack_loop src u1" "outs N B (out @ concat (run @ [s])) u1" "drop (up_off u1) src = packed_form [] ss @ post"
        "up_srcsz u1 = int (length (packed_form [] ss))"
      using unpack_flush[OF Cons.prems(1), of "run @ [s]" src "packed_form [] ss @ post"] l Cons.prems(2,4,5) e by auto
    from Cons.IH[OF u1(2), of "[]"] l u1 show ?thesis by auto
  qed
  consider "run = []" "nz s = 8" | "run = []" "nz s \<noteq> 8" | "run \<noteq> []" "6 \<le> nz s" "length run = 255" | "run \<noteq> []" "6 \<le> nz s" "length run < 255"
    | "run \<noteq> []" "\<not> 6 \<le> nz s" using Cons.prems(2) by linarith
  then show ?case
  proof cases
    case 1
    then show ?thesis by (intro go) simp_all
  next
    case 2
    then show ?thesis by (intro tag) (simp_all add: flush_def)
  next
    case 3
    then show ?thesis by (intro full) simp
  next
    case 4
    then show ?thesis by (intro go) simp_all
  next
    case 5
    then show ?thesis by (intro tag) simp_all
  qed
qed

section \<open>The buffers of Lua\<close>

definition buffer_ok :: "out_buffer \<Rightarrow> bool" where
  "buffer_ok out \<longleftrightarrow> 0 < snd out \<and> length (fst out) = nat (snd out)"

lemma double_until_bounds:
  "0 < osz \<Longrightarrow> osz < nsz \<Longrightarrow> nsz \<le> 2 ^ 30 \<Longrightarrow> \<exists>r. double_until osz nsz = Some r \<and> nsz \<le> r \<and> r < 2 * nsz"
proof (induction "nat (nsz - osz)" arbitrary: osz rule: less_induct)
  case less
  have "int32 (osz * 2) = osz * 2" using less.prems by (intro int32_small) simp_all
  then show ?case using less.hyps[of "osz * 2"] less.prems by (subst double_until.simps) (auto simp: Let_def)
qed

lemma expand_buffer_ok:
  assumes "0 < osz" "osz < nsz" "nsz \<le> 2 ^ 30"
  shows "(\<exists>out. expand_buffer osz nsz = Some (Inr out) \<and> buffer_ok out \<and> nsz \<le> snd out) \<or>
    expand_buffer osz nsz = Some (Inl Too_large) \<and> ENCODE_MAXSIZE < 2 * nsz"
proof -
  obtain r where r: "double_until osz nsz = Some r" "nsz \<le> r" "r < 2 * nsz" using double_until_bounds[OF assms] by blast
  then show ?thesis using assms(1,2) by (cases "ENCODE_MAXSIZE < r") (simp_all add: expand_buffer_def buffer_ok_def)
qed

text \<open>A buffer of the initial size is not doubled to more than 1074790400: from there on the size wraps, becomes 0, and the loop does not end.\<close>

lemma double_until_zero:
  assumes "0 < nsz"
  shows "double_until 0 nsz = None"
proof (rule ccontr)
  assume "double_until 0 nsz \<noteq> None"
  then obtain r where r: "double_until 0 nsz = Some r" by blast
  have "(0 :: int) = 0 \<longrightarrow> nsz \<le> 0"
    by (rule double_until.raw_induct[where P = "\<lambda>osz nsz r. osz = 0 \<longrightarrow> nsz \<le> 0", OF _ r])
      (auto simp: Let_def int32_def split: if_splits)
  then show False using assms by simp
qed

lemma expand_never_ends:
  assumes "1074790400 < nsz"
  shows "expand_buffer ENCODE_BUFFERSIZE nsz = None"
proof -
  have step: "double_until m nsz = double_until (int32 (m * 2)) nsz" if "int32 (m * 2) \<le> 1074790400" for m
    using that assms by (subst double_until.simps) (simp add: Let_def)
  have "list_all (\<lambda>k. int32 (2050 * 2 ^ k) \<le> 1074790400) [0..<33]" by code_simp
  then have below: "int32 (2050 * 2 ^ k) \<le> 1074790400" if "k \<le> 32" for k using that by (auto simp: list_all_iff)
  have "double_until (int32 (2050 * 2 ^ k)) nsz = None" if "k \<le> 32" for k
    using that
  proof (induction "32 - k" arbitrary: k)
    case 0
    have "int32 (2050 * 2 ^ 32) = 0" by code_simp
    then show ?case using 0 double_until_zero[of nsz] assms by simp
  next
    case (Suc j)
    have "int32 (int32 (2050 * 2 ^ k) * 2) = int32 (2050 * 2 ^ Suc k)" using int32_add(1)[of "2050 * 2 ^ k" "int32 (2050 * 2 ^ k)"]
      by (simp add: mult_2_right)
    then show ?case using step[of "int32 (2050 * 2 ^ k)"] below[of "Suc k"] Suc.hyps(1)[of "Suc k"] Suc.hyps(2) by simp
  qed
  from this[of 0] show ?thesis by (simp add: expand_buffer_def ENCODE_BUFFERSIZE_def)
qed

lemma push_lstring_map: "take (length xs) buf = map Some xs \<Longrightarrow> length xs \<le> length buf \<Longrightarrow> push_lstring buf (int (length xs)) = Some xs"
  by (simp add: push_lstring_def comp_def)

lemma sproto_lpack_enc:
  assumes "length t < 8000000" "length t < 2046 \<or> length t mod 8 < 6" "buffer_ok out"
  shows "\<exists>out'. sproto_lpack t out = Some (Inr (packed_form [] (segs t 0), out')) \<and> buffer_ok out'"
proof -
  let ?e = "packed_form [] (segs t 0)"
  define B where "B = (length t + 2047) div 2048 * 2 + length t + 2"
  have B: "length ?e \<le> B" "(int (length t) + 2047) div 2048 * 2 + int (length t) + 2 = int B" "2 * int B \<le> ENCODE_MAXSIZE"
    using enc_fits[of t] assms(1) by (auto simp: B_def ENCODE_MAXSIZE_def zdiv_int)
  have "\<exists>o1. (if snd out < int B then expand_buffer (snd out) (int B) else Some (Inr out)) = Some (Inr o1) \<and> buffer_ok o1 \<and> int B \<le> snd o1"
    using expand_buffer_ok[of "snd out" "int B"] assms(3) B(3) by (cases out) (auto simp: buffer_ok_def ENCODE_MAXSIZE_def)
  then obtain o1 where o1: "(if snd out < int B then expand_buffer (snd out) (int B) else Some (Inr out)) = Some (Inr o1)" "buffer_ok o1" "B \<le> length (fst o1)"
    by (auto simp: buffer_ok_def)
  obtain buf where b: "sproto_pack (t @ [0]) (int (length t)) (fst o1) (int B) = Some (int (length ?e), buf)" "length buf = length (fst o1)"
      "take (length ?e) buf = map Some ?e"
    using sproto_pack_enc[OF assms(2) B(1) o1(3)] by blast
  have "push_lstring buf (int (length ?e)) = Some ?e" using push_lstring_map[OF b(3)] b(2) o1(3) B(1) by simp
  moreover have "int32 (int (length t)) = int (length t)" "int32 (int B) = int B" using assms(1) B(3) by (simp_all add: ENCODE_MAXSIZE_def)
  ultimately have "sproto_lpack t out = Some (Inr (?e, buf, snd o1))"
    using o1(1) b(1) B(1) unfolding sproto_lpack_def Let_def B(2) by (cases "snd out < int B") simp_all
  then show ?thesis using o1(2) b(2) by (auto simp: buffer_ok_def)
qed

lemma sproto_unpack_enc:
  assumes "B \<le> length buf" "length t < 8000000"
  shows "\<exists>buf'. sproto_unpack (packed_form [] (segs t 0) @ post) (int (length (packed_form [] (segs t 0)))) buf (int B) = Some (int (length (pad t)), buf') \<and> length buf' = length buf \<and>
    (length (pad t) \<le> B \<longrightarrow> take (length (pad t)) buf' = map Some (pad t))"
proof -
  let ?e = "packed_form [] (segs t 0)"
  let ?u = "\<lparr>up_off = 0, up_srcsz = int (length ?e), up_buffer = buf, up_pos = 0, up_bufsz = int B, up_size = 0\<rparr>"
  have "outs (length buf) B [] ?u" using assms(1) by (simp add: outs_def)
  from unpack_enc[OF this, of "[]" "segs t 0" "?e @ post" post] obtain u where
    "sproto_unpack_loop (?e @ post) ?u = Some (up_size u, up_buffer u)" "outs (length buf) B (concat (segs t 0)) u"
    using segs_8[of 0 _ t] by auto
  moreover have "concat (segs t 0) = pad t" using concat_segs[of 0 t] by simp
  moreover have "int32 (int (length (pad t))) = int (length (pad t))" using assms(2) pad_mod(3)[of t] by simp
  ultimately show ?thesis by (auto simp: sproto_unpack_def outs_def)
qed

lemma sproto_lunpack_enc:
  assumes "length t < 8000000" "buffer_ok out"
  shows "\<exists>out'. sproto_lunpack (packed_form [] (segs t 0)) out = Some (Inr (pad t, out')) \<and> buffer_ok out'"
proof -
  have N: "nat (snd out) \<le> length (fst out)" "0 < snd out" "length (fst out) = nat (snd out)" using assms(2) by (auto simp: buffer_ok_def)
  obtain buf where b: "sproto_unpack (packed_form [] (segs t 0) @ [0]) (int (length (packed_form [] (segs t 0)))) (fst out) (snd out) = Some (int (length (pad t)), buf)"
      "length buf = length (fst out)" "length (pad t) \<le> nat (snd out) \<Longrightarrow> take (length (pad t)) buf = map Some (pad t)"
    using sproto_unpack_enc[OF N(1) assms(1), of "[0]"] N(2) by auto
  have sz: "int32 (int (length (packed_form [] (segs t 0)))) = int (length (packed_form [] (segs t 0)))"
    using enc_fits[of t] assms(1) by (intro int32_small) simp_all
  show ?thesis
  proof (cases "int (length (pad t)) \<le> snd out")
    case True
    then have "push_lstring buf (int (length (pad t))) = Some (pad t)" using push_lstring_map b N by simp
    then show ?thesis using b(1,2) True N(2,3) by (auto simp: sproto_lunpack_def sz buffer_ok_def)
  next
    case False
    have "2 * int (length (pad t)) \<le> ENCODE_MAXSIZE" using assms(1) pad_mod(3)[of t] by (simp add: ENCODE_MAXSIZE_def)
    then obtain o1 where o1: "expand_buffer (snd out) (int (length (pad t))) = Some (Inr o1)" "buffer_ok o1" "length (pad t) \<le> length (fst o1)"
      using expand_buffer_ok[of "snd out" "int (length (pad t))"] False N(2) by (auto simp: buffer_ok_def ENCODE_MAXSIZE_def)
    obtain buf1 where b1: "sproto_unpack (packed_form [] (segs t 0) @ [0]) (int (length (packed_form [] (segs t 0)))) (fst o1) (int (length (pad t))) = Some (int (length (pad t)), buf1)"
        "length buf1 = length (fst o1)" "take (length (pad t)) buf1 = map Some (pad t)"
      using sproto_unpack_enc[OF o1(3) assms(1), of "[0]"] by auto
    have "push_lstring buf1 (int (length (pad t))) = Some (pad t)" using push_lstring_map[OF b1(3)] b1(2) o1(3) by simp
    then show ?thesis using b(1) b1(1,2) o1 False by (auto simp: sproto_lunpack_def sz buffer_ok_def)
  qed
qed

text \<open>
  C12. A text packed and unpacked again, with whatever buffers the two functions kept from earlier calls, is the text filled up with zeros to a
  multiple of eight bytes; nothing outside the buffers is touched, and the packed text takes at most two bytes for each 2 KB, and two, more than
  the text, the space that \<open>lpack\<close> allocates. Texts of 2046 bytes and more whose length is 6 or 7 modulo 8 are left out: there packing may read
  behind the text.
\<close>

theorem sproto_roundtrip:
  assumes "length t < 8000000" "length t < 2046 \<or> length t mod 8 < 6" "buffer_ok out1" "buffer_ok out2"
  shows "\<exists>packed o1 o2. sproto_lpack t out1 = Some (Inr (packed, o1)) \<and> buffer_ok o1 \<and>
    length packed \<le> (length t + 2047) div 2048 * 2 + length t + 2 \<and>
    sproto_lunpack packed out2 = Some (Inr (t @ replicate ((8 - length t mod 8) mod 8) 0, o2)) \<and> buffer_ok o2"
  using sproto_lpack_enc[OF assms(1-3)] sproto_lunpack_enc[OF assms(1,4)] enc_fits[of t] unfolding pad_def by blast

theorem sproto_roundtrip_witness:
  "let out = (replicate 2050 None, ENCODE_BUFFERSIZE); t = replicate 2050 7
   in \<exists>packed o1 o2. sproto_lpack t out = Some (Inr (packed, o1)) \<and> buffer_ok o1 \<and> length packed \<le> 2056 \<and>
        sproto_lunpack packed out = Some (Inr (t @ replicate 6 0, o2)) \<and> buffer_ok o2"
proof -
  have o: "buffer_ok (replicate 2050 None, ENCODE_BUFFERSIZE)" by (simp add: buffer_ok_def ENCODE_BUFFERSIZE_def)
  have t: "length (replicate 2050 (7 :: u8)) = 2050" by (rule length_replicate)
  show ?thesis using sproto_roundtrip[of "replicate 2050 7", OF _ _ o o] unfolding t Let_def by simp
qed

section \<open>Texts that packing reads past\<close>

lemma dense_seg: "0 \<notin> set t \<Longrightarrow> i + 8 \<le> length t \<Longrightarrow> nz (take 8 (drop i (pad t))) = 8"
proof -
  assume t: "0 \<notin> set t" "i + 8 \<le> length t"
  then have s: "take 8 (drop i (pad t)) = take 8 (drop i t)" by (simp add: pad_def)
  have "filter (\<lambda>b. b \<noteq> 0) (take 8 (drop i t)) = take 8 (drop i t)"
    using t(1) by (auto simp: filter_id_conv dest!: in_set_takeD in_set_dropD)
  then show ?thesis unfolding s nz_def using t(2) by simp
qed

lemma dense_steps:
  assumes "0 \<notin> set t" "packing t N B [] [] p 0"
  shows "0 < j \<Longrightarrow> j \<le> 255 \<Longrightarrow> 8 * j \<le> length t \<Longrightarrow>
    \<exists>p' run. pack_loop (t @ post) (int (length t)) 0 p = pack_loop (t @ post) (int (length t)) (int (8 * j)) p' \<and> packing t N B [] run p' (8 * j) \<and> length run = j"
proof (induction j)
  case (Suc j)
  have n: "nz (take 8 (drop (8 * j) (pad t))) = 8" using dense_seg[OF assms(1), of "8 * j"] Suc.prems(3) by simp
  have i: "8 * j < length t" "8 * j mod 8 = 0" using Suc.prems(3) by simp_all
  have step: "pack_loop (t @ post) (int (length t)) (int (8 * j)) p1 = pack_loop (t @ post) (int (length t)) (int (8 * Suc j)) p2"
    if "pack_step (t @ post) (int (length t)) (int (8 * j)) p1 = Some p2" for p1 p2
    using that i(1) by (subst pack_loop.simps) (simp add: add.commute)
  have e: "8 * j + 8 = 8 * Suc j" by simp
  show ?case
  proof (cases "j = 0")
    case True
    obtain p2 where "pack_step (t @ post) (int (length t)) (int (8 * j)) p = Some p2" "packing t N B [] [take 8 (drop (8 * j) (pad t))] p2 (8 * j + 8)"
      using pack_step_start[OF _ i refl n, of N B "[]" p post] assms(2) True by auto
    then show ?thesis using step[of p p2] True unfolding e by (intro exI[of _ p2] exI[of _ "[take 8 (drop (8 * j) (pad t))]"]) simp
  next
    case False
    then obtain p1 run where p1: "pack_loop (t @ post) (int (length t)) 0 p = pack_loop (t @ post) (int (length t)) (int (8 * j)) p1"
        "packing t N B [] run p1 (8 * j)" "length run = j"
      using Suc by auto
    have "run \<noteq> []" using p1(3) False by auto
    then obtain p2 where "pack_step (t @ post) (int (length t)) (int (8 * j)) p1 = Some p2" "packing t N B [] (run @ [take 8 (drop (8 * j) (pad t))]) p2 (8 * j + 8)"
      using pack_step_join[OF p1(2) _ i refl] n p1(3) Suc.prems(2) by auto
    then show ?thesis using step[of p1 p2] p1 unfolding e by (intro exI[of _ p2] exI[of _ "run @ [take 8 (drop (8 * j) (pad t))]"]) simp
  qed
qed simp

lemma dense_overread:
  assumes t: "0 \<notin> set t" "length t = 2046" and B: "2050 \<le> B" "B \<le> length buf" and post: "length post < 2"
  shows "sproto_pack (t @ post) 2046 buf (int B) = None"
proof -
  let ?p = "\<lparr>pk_buffer = buf, pk_pos = 0, pk_bufsz = int B, pk_ff_srcstart = 0, pk_ff_desstart = 0, pk_ff_n = 0, pk_size = 0\<rparr>"
  let ?s = "take 8 (drop 2040 (pad t))"
  have p0: "packing t (length buf) B [] [] ?p 0" using B(2) by (simp add: packing_def run_len_def)
  from dense_steps[OF t(1) this, of 255 post] t(2) obtain p run where
    p: "pack_loop (t @ post) 2046 0 ?p = pack_loop (t @ post) 2046 2040 p" "packing t (length buf) B [] run p 2040" "length run = 255" by auto
  have pp: "pk_ff_n p = 255" "pk_ff_srcstart p = 0" "pk_bufsz p = int B - 2042" "pk_pos p = 2042" "length (pk_buffer p) = length buf"
    using p(2,3) by (auto simp: packing_def run_len_def)
  have s: "segment (t @ post) 2046 2040 = Some ?s" "length ?s = 8" using segment_seg[of 2040 t post] length_seg[of 2040 t] t(2) by simp_all
  have "?s = drop 2040 t @ [0, 0]" using t(2) by (simp add: pad_def numeral_2_eq_2)
  moreover have "filter (\<lambda>b. b \<noteq> 0) (drop 2040 t) = drop 2040 t" using t(1) by (auto simp: filter_id_conv dest!: in_set_dropD)
  ultimately have "nz ?s = 6" using t(2) by (simp add: nz_def)
  then obtain b where b: "pack_seg ?s (pk_buffer p) (pk_pos p) (pk_bufsz p) (pk_ff_n p) = Some (8, b)"
    using pack_seg_run[of "pk_pos p" "pk_bufsz p" "pk_buffer p" ?s "pk_ff_n p"] pp B s(2) by auto
  have "mem_read (t @ post) 0 2048 = None" using t(2) post by (simp add: mem_read_def)
  then have "pack_step (t @ post) 2046 2040 p = None"
    using s(1) b pp B(1) by (simp add: pack_step_def end_ff_def write_ff_def Let_def)
  then have "pack_loop (t @ post) 2046 2040 p = None" by (subst pack_loop.simps) simp
  then show ?thesis using p(1) by (simp add: sproto_pack_def)
qed

text \<open>
  C40. For every text of 2046 bytes without a zero, packing reads behind the string and its NUL: the last segment, filled up in a temporary copy,
  completes a run of 256, and the run is copied from the source as if the segment were whole. What is behind is packed in place of the zeros.
\<close>

theorem pack_reads_past_text:
  assumes "length t = 2046" "0 \<notin> set t" "buffer_ok out"
  shows "sproto_lpack t out = None"
proof -
  have "\<exists>o1. (if snd out < 2050 then expand_buffer (snd out) 2050 else Some (Inr out)) = Some (Inr o1) \<and> buffer_ok o1 \<and> 2050 \<le> snd o1"
    using expand_buffer_ok[of "snd out" 2050] assms(3) by (cases out) (auto simp: buffer_ok_def ENCODE_MAXSIZE_def)
  then obtain o1 where o1: "(if snd out < 2050 then expand_buffer (snd out) 2050 else Some (Inr out)) = Some (Inr o1)" "2050 \<le> length (fst o1)"
    by (auto simp: buffer_ok_def)
  then show ?thesis using assms(1) dense_overread[OF assms(2,1) _ o1(2), of "[0]"] by (cases "snd out < 2050") (simp_all add: sproto_lpack_def Let_def)
qed

theorem pack_reads_past_text_witness:
  "sproto_lpack (replicate 2046 1) (replicate 2050 None, ENCODE_BUFFERSIZE) = None"
  by (rule pack_reads_past_text) (simp_all only: length_replicate set_replicate_conv_if buffer_ok_def ENCODE_BUFFERSIZE_def fst_conv snd_conv, simp_all)

end
