(* ===== verification/Sproto_Any.thy ===== *)
theory Sproto_Any
  imports Sproto_Props
begin

text \<open>
  Unpacking of streams that need not be packed text: what comes out is a function of the stream alone, and nothing outside the stream, its NUL and the
  buffer is touched.
\<close>

section \<open>Any stream\<close>

text \<open>
  What a computation does from position \<open>k\<close> with \<open>z\<close> bytes left does not depend on the buffer: it fails (\<open>None\<close>), or it puts out bytes and is
  at another position. The source is followed by one byte that may be read.
\<close>

type_synonym unpacked = "(u8 list \<times> nat \<times> int) option"

definition does :: "(unpacker \<Rightarrow> (u8 option list + unpacker) option) \<Rightarrow> nat \<Rightarrow> int \<Rightarrow> unpacked \<Rightarrow> bool" where
  "does f k z res \<longleftrightarrow> (\<forall>N B out u. outs N B out u \<and> up_off u = k \<and> up_srcsz u = z \<longrightarrow>
     (case res of
        None \<Rightarrow> \<exists>buf. f u = Some (Inl buf) \<and> length buf = N
      | Some (xs, k', z') \<Rightarrow> \<exists>u'. f u = Some (Inr u') \<and> outs N B (out @ xs) u' \<and> up_off u' = k' \<and> up_srcsz u' = z'))"

definition moves :: "u8 list \<Rightarrow> nat \<Rightarrow> unpacked \<Rightarrow> nat \<Rightarrow> bool" where
  "moves src k res n \<longleftrightarrow> (case res of None \<Rightarrow> True | Some (xs, k', z') \<Rightarrow> length xs = n \<and> k \<le> k' \<and> int k' + z' = int (length src) \<and> -1 \<le> z')"

lemma does_fails: "(\<And>u. up_off u = k \<Longrightarrow> up_srcsz u = z \<Longrightarrow> f u = Some (Inl (up_buffer u))) \<Longrightarrow> does f k z None"
  by (auto simp: does_def outs_def)

lemma does_after:
  assumes g: "does g k1 z1 res"
    and f: "\<And>N B out u. outs N B out u \<Longrightarrow> up_off u = k \<Longrightarrow> up_srcsz u = z \<Longrightarrow> \<exists>u1. f u = g u1 \<and> outs N B (out @ ys) u1 \<and> up_off u1 = k1 \<and> up_srcsz u1 = z1"
  shows "does f k z (map_option (\<lambda>(xs, k', z'). (ys @ xs, k', z')) res)"
  unfolding does_def
proof (intro allI impI)
  fix N B out u
  assume "outs N B out u \<and> up_off u = k \<and> up_srcsz u = z"
  then obtain u1 where u1: "f u = g u1" "outs N B (out @ ys) u1" "up_off u1 = k1" "up_srcsz u1 = z1" using f by blast
  then show "case map_option (\<lambda>(xs, k', z'). (ys @ xs, k', z')) res of None \<Rightarrow> \<exists>buf. f u = Some (Inl buf) \<and> length buf = N
    | Some (xs, k', z') \<Rightarrow> \<exists>u'. f u = Some (Inr u') \<and> outs N B (out @ xs) u' \<and> up_off u' = k' \<and> up_srcsz u' = z'"
    using g[unfolded does_def, rule_format, of N B "out @ ys" u1] by (auto split: option.splits)
qed

lemma moves_after: "moves src k1 res n \<Longrightarrow> k \<le> k1 \<Longrightarrow> moves src k (map_option (\<lambda>(xs, k', z'). (ys @ xs, k', z')) res) (length ys + n)"
  by (auto simp: moves_def split: option.splits)

lemma bits_any:
  "int k + z = int (length src) \<Longrightarrow> -1 \<le> z \<Longrightarrow> \<exists>res. does (unpack_bits js h (src @ [x])) k z res \<and> moves src k res (length js)"
proof (induction js arbitrary: k z)
  case Nil
  show ?case by (rule exI[of _ "Some ([], k, z)"]) (use Nil in \<open>auto simp: does_def moves_def\<close>)
next
  case (Cons i js)
  consider "drop_bit i h AND 1 \<noteq> 0" "z < 0" | "drop_bit i h AND 1 \<noteq> 0" "\<not> z < 0" | "\<not> drop_bit i h AND 1 \<noteq> 0" by blast
  then show ?case
  proof cases
    case 1
    then have "does (unpack_bits (i # js) h (src @ [x])) k z None" by (intro does_fails) simp
    moreover have "moves src k None (length (i # js))" by (simp add: moves_def)
    ultimately show ?thesis by blast
  next
    case 2
    define b where "b = (src @ [x]) ! k"
    have a: "src_at (src @ [x]) k = Some b" using Cons.prems 2 by (simp add: src_at_def b_def)
    obtain res where r: "does (unpack_bits js h (src @ [x])) (Suc k) (z - 1) res" "moves src (Suc k) res (length js)"
      using Cons.IH[of "Suc k" "z - 1"] Cons.prems 2 by auto
    have "\<exists>u1. unpack_bits (i # js) h (src @ [x]) u = unpack_bits js h (src @ [x]) u1 \<and> outs N B (out @ [b]) u1 \<and> up_off u1 = Suc k \<and> up_srcsz u1 = z - 1"
      if o: "outs N B out u" "up_off u = k" "up_srcsz u = z" for N B out u
    proof -
      obtain u1 where u1: "put_byte b u = Some u1" "outs N B (out @ [b]) u1" using put_byte_outs[OF o(1)] by blast
      have "put_byte (if 0 < up_bufsz u then b else 0) u = Some u1" using u1(1) by (cases "0 < up_bufsz u") (simp_all add: put_byte_def)
      moreover have "(if 0 < up_bufsz u then src_at (src @ [x]) k else Some 0) = Some (if 0 < up_bufsz u then b else 0)" using a by simp
      ultimately have "unpack_bits (i # js) h (src @ [x]) u = unpack_bits js h (src @ [x]) (u1\<lparr>up_off := Suc k, up_srcsz := z - 1\<rparr>)"
        using 2 o by (simp only: unpack_bits.simps if_True if_False bind.bind_lunit not_False_eq_True)
      then show ?thesis using u1(2) by fastforce
    qed
    from does_after[OF r(1) this] moves_after[OF r(2), of k "[b]"] show ?thesis by fastforce
  next
    case 3
    obtain res where r: "does (unpack_bits js h (src @ [x])) k z res" "moves src k res (length js)" using Cons by blast
    have "\<exists>u1. unpack_bits (i # js) h (src @ [x]) u = unpack_bits js h (src @ [x]) u1 \<and> outs N B (out @ [0]) u1 \<and> up_off u1 = k \<and> up_srcsz u1 = z"
      if o: "outs N B out u" "up_off u = k" "up_srcsz u = z" for N B out u
      using put_byte_outs[OF o(1), of 0] 3 o by auto
    from does_after[OF r(1) this] moves_after[OF r(2), of k "[0]"] show ?thesis by fastforce
  qed
qed

text \<open>A segment puts out at most eight bytes for each byte of the source it takes, also where it takes the one behind.\<close>

definition grows :: "int \<Rightarrow> unpacked \<Rightarrow> bool" where
  "grows z res \<longleftrightarrow> (case res of None \<Rightarrow> True | Some (xs, k', z') \<Rightarrow> length xs + 8 * nat z' \<le> 8 * nat z)"

lemma ff_any:
  assumes "int k + z = int (length src)" "0 \<le> z"
  shows "\<exists>res n. does (unpack_ff (src @ [x])) k z res \<and> moves src k res n \<and> grows (z + 1) res"
proof -
  define c where "c = (src @ [x]) ! k"
  have c: "src_at (src @ [x]) k = Some c" using assms by (simp add: src_at_def c_def)
  define n where "n = (unat c + 1) * 8"
  show ?thesis
  proof (cases "z < int n + 1")
    case True
    then have "does (unpack_ff (src @ [x])) k z None" using c by (intro does_fails) (simp add: unpack_ff_def Let_def n_def)
    then show ?thesis by (auto simp: moves_def grows_def)
  next
    case False
    define bs where "bs = take n (drop (Suc k) src)"
    have fit: "Suc k + n \<le> length src" using False assms(1) by linarith
    have "0 < n" by (simp add: n_def)
    moreover have "length bs = n" using fit unfolding bs_def length_take length_drop by linarith
    moreover have "mem_read (src @ [x]) (int k + 1) (int n) = Some bs"
      using fit unfolding mem_read_def bs_def by (auto simp: nat_add_distrib)
    ultimately have bs: "length bs = n" "mem_read (src @ [x]) (int k + 1) (int n) = Some bs" "0 < n" by blast+
    have "\<exists>u'. unpack_ff (src @ [x]) u = Some (Inr u') \<and> outs N B (out @ bs) u' \<and> up_off u' = k + 1 + n \<and> up_srcsz u' = z - (int n + 1)"
      if o: "outs N B out u" "up_off u = k" "up_srcsz u = z" for N B out u
    proof -
      obtain buf where b: "(if int n \<le> up_bufsz u then put_bytes (up_buffer u) (up_pos u) bs else Some (up_buffer u)) = Some buf"
          "outs N B (out @ bs) (u\<lparr>up_off := up_off u + 1 + n, up_srcsz := up_srcsz u - (int n + 1), up_buffer := buf, up_pos := up_pos u + n,
             up_bufsz := up_bufsz u - int n, up_size := int32 (up_size u + int n)\<rparr>)"
        using outs_bytes[OF o(1) bs(1)[symmetric] bs(3)] by blast
      have "unpack_ff (src @ [x]) u = Some (Inr (u\<lparr>up_off := up_off u + 1 + n, up_srcsz := up_srcsz u - (int n + 1), up_buffer := buf, up_pos := up_pos u + n,
          up_bufsz := up_bufsz u - int n, up_size := int32 (up_size u + int n)\<rparr>))"
        by (rule unpack_ff_eq[OF _ n_def[symmetric] _ _ b(1)]) (use c o False bs(2) in simp_all)
      then show ?thesis using b(2) o by auto
    qed
    then have "does (unpack_ff (src @ [x])) k z (Some (bs, k + 1 + n, z - (int n + 1)))" by (auto simp: does_def)
    moreover have "moves src k (Some (bs, k + 1 + n, z - (int n + 1))) n" using bs(1) assms False by (simp add: moves_def)
    moreover have "grows (z + 1) (Some (bs, k + 1 + n, z - (int n + 1)))" using bs(1) False unfolding grows_def by simp
    ultimately show ?thesis by blast
  qed
qed

lemma step_any:
  assumes "int k + z = int (length src)" "0 < z"
  shows "\<exists>res n. does (unpack_seg (src @ [x])) k z res \<and> moves src (Suc k) res n \<and> grows z res"
proof -
  define h where "h = (src @ [x]) ! k"
  have h: "src_at (src @ [x]) k = Some h" using assms by (simp add: src_at_def h_def)
  let ?g = "if h = 0xff then unpack_ff (src @ [x]) else unpack_bits [0..<8] h (src @ [x])"
  have eight: "grows z res" if "moves src (Suc k) res 8" for res
    using that assms unfolding moves_def grows_def by (auto split: option.splits)
  have "\<exists>res n. does ?g (Suc k) (z - 1) res \<and> moves src (Suc k) res n \<and> grows z res"
    using ff_any[of "Suc k" "z - 1" src x] bits_any[of "Suc k" "z - 1" src "[0..<8]" h x] eight assms by (cases "h = 0xff") auto
  then obtain res n where r: "does ?g (Suc k) (z - 1) res" "moves src (Suc k) res n" "grows z res" by blast
  have "\<exists>u1. unpack_seg (src @ [x]) u = ?g u1 \<and> outs N B (out @ []) u1 \<and> up_off u1 = Suc k \<and> up_srcsz u1 = z - 1"
    if o: "outs N B out u" "up_off u = k" "up_srcsz u = z" for N B out u
    using o h by (intro exI[of _ "u\<lparr>up_off := Suc k, up_srcsz := z - 1\<rparr>"]) (simp add: unpack_seg_def Let_def)
  then have "does (unpack_seg (src @ [x])) k z (map_option (\<lambda>(xs, k', z'). ([] @ xs, k', z')) res)" by (rule does_after[OF r(1)])
  moreover have "map_option (\<lambda>(xs, k', z'). ([] @ xs, k', z')) res = res" by (cases res) auto
  ultimately show ?thesis using r(2,3) by auto
qed

text \<open>The whole loop: it ends, and what it gives does not depend on the buffer.\<close>

lemma loop_any:
  assumes "int k + z = int (length src)" "-1 \<le> z"
  shows "\<exists>res. (\<forall>xs. res = Some xs \<longrightarrow> length xs \<le> 8 * nat z) \<and> (\<forall>N B out u. outs N B out u \<and> up_off u = k \<and> up_srcsz u = z \<longrightarrow>
     (case res of
        None \<Rightarrow> \<exists>buf. sproto_unpack_loop (src @ [x]) u = Some (-1, buf) \<and> length buf = N
      | Some xs \<Rightarrow> \<exists>u'. sproto_unpack_loop (src @ [x]) u = Some (up_size u', up_buffer u') \<and> outs N B (out @ xs) u'))"
  using assms
proof (induction "nat (z + 1)" arbitrary: k z rule: less_induct)
  case less
  show ?case
  proof (cases "0 < z")
    case False
    then have "sproto_unpack_loop (src @ [x]) u = Some (up_size u, up_buffer u)" if "up_srcsz u = z" for u using that by (subst sproto_unpack_loop.simps) simp
    then show ?thesis by (intro exI[of _ "Some []"]) fastforce
  next
    case True
    obtain res n where r: "does (unpack_seg (src @ [x])) k z res" "moves src (Suc k) res n" "grows z res" using step_any[OF less(2) True] by blast
    show ?thesis
    proof (cases res)
      case None
      have "\<exists>buf. sproto_unpack_loop (src @ [x]) u = Some (-1, buf) \<and> length buf = N" if o: "outs N B out u" "up_off u = k" "up_srcsz u = z" for N B out u
      proof -
        obtain buf where "unpack_seg (src @ [x]) u = Some (Inl buf)" "length buf = N" using r(1) None o by (fastforce simp: does_def)
        then show ?thesis using True o by (subst sproto_unpack_loop.simps) simp
      qed
      then show ?thesis by (intro exI[of _ None]) auto
    next
      case (Some y)
      obtain xs k' z' where y: "y = (xs, k', z')" by (cases y)
      have m: "Suc k \<le> k'" "int k' + z' = int (length src)" "-1 \<le> z'" using r(2) Some y by (auto simp: moves_def)
      then have "nat (z' + 1) < nat (z + 1)" using less(2) True by linarith
      from less(1)[OF this m(2,3)] obtain res' where len: "\<And>ys. res' = Some ys \<Longrightarrow> length ys \<le> 8 * nat z'" and IH: "\<And>N B out u. outs N B out u \<and> up_off u = k' \<and> up_srcsz u = z' \<Longrightarrow>
         (case res' of None \<Rightarrow> \<exists>buf. sproto_unpack_loop (src @ [x]) u = Some (-1, buf) \<and> length buf = N
          | Some xs \<Rightarrow> \<exists>u'. sproto_unpack_loop (src @ [x]) u = Some (up_size u', up_buffer u') \<and> outs N B (out @ xs) u')" by blast
      have go: "\<exists>u1. sproto_unpack_loop (src @ [x]) u = sproto_unpack_loop (src @ [x]) u1 \<and> outs N B (out @ xs) u1 \<and> up_off u1 = k' \<and> up_srcsz u1 = z'"
        if o: "outs N B out u" "up_off u = k" "up_srcsz u = z" for N B out u
      proof -
        obtain u1 where "unpack_seg (src @ [x]) u = Some (Inr u1)" "outs N B (out @ xs) u1" "up_off u1 = k'" "up_srcsz u1 = z'"
          using r(1) Some y o by (fastforce simp: does_def)
        then show ?thesis using unpack_loop_seg[of "src @ [x]" u u1] True o by blast
      qed
      have "length ys \<le> 8 * nat z" if "map_option ((@) xs) res' = Some ys" for ys
        using that len r(3) Some y unfolding grows_def by fastforce
      moreover have "case map_option ((@) xs) res' of None \<Rightarrow> \<exists>buf. sproto_unpack_loop (src @ [x]) u = Some (-1, buf) \<and> length buf = N
          | Some ys \<Rightarrow> \<exists>u'. sproto_unpack_loop (src @ [x]) u = Some (up_size u', up_buffer u') \<and> outs N B (out @ ys) u'"
        if o: "outs N B out u" "up_off u = k" "up_srcsz u = z" for N B out u
      proof -
        obtain u1 where "sproto_unpack_loop (src @ [x]) u = sproto_unpack_loop (src @ [x]) u1" "outs N B (out @ xs) u1" "up_off u1 = k'" "up_srcsz u1 = z'" using go[OF o] by blast
        then show ?thesis using IH[of N B "out @ xs" u1] by (cases res') auto
      qed
      ultimately show ?thesis by (intro exI[of _ "map_option ((@) xs) res'"]) blast
    qed
  qed
qed

lemma sproto_unpack_any:
  assumes "length src \<le> 2 ^ 27"
  shows "\<exists>res. (\<forall>xs. res = Some xs \<longrightarrow> length xs \<le> 2 ^ 30) \<and> (\<forall>buf B. B \<le> length buf \<longrightarrow>
     (case res of
        None \<Rightarrow> \<exists>buf'. sproto_unpack (src @ [x]) (int (length src)) buf (int B) = Some (-1, buf') \<and> length buf' = length buf
      | Some xs \<Rightarrow> \<exists>buf'. sproto_unpack (src @ [x]) (int (length src)) buf (int B) = Some (int (length xs), buf') \<and> length buf' = length buf \<and>
          (length xs \<le> B \<longrightarrow> take (length xs) buf' = map Some xs)))"
proof -
  obtain res where len: "\<And>xs. res = Some xs \<Longrightarrow> length xs \<le> 8 * length src" and r: "\<And>N B out u. outs N B out u \<and> up_off u = 0 \<and> up_srcsz u = int (length src) \<Longrightarrow>
     (case res of None \<Rightarrow> \<exists>buf. sproto_unpack_loop (src @ [x]) u = Some (-1, buf) \<and> length buf = N
      | Some xs \<Rightarrow> \<exists>u'. sproto_unpack_loop (src @ [x]) u = Some (up_size u', up_buffer u') \<and> outs N B (out @ xs) u')"
    using loop_any[of 0 "int (length src)" src x] by auto
  have "case res of
        None \<Rightarrow> \<exists>buf'. sproto_unpack (src @ [x]) (int (length src)) buf (int B) = Some (-1, buf') \<and> length buf' = length buf
      | Some xs \<Rightarrow> \<exists>buf'. sproto_unpack (src @ [x]) (int (length src)) buf (int B) = Some (int (length xs), buf') \<and> length buf' = length buf \<and>
          (length xs \<le> B \<longrightarrow> take (length xs) buf' = map Some xs)" if "B \<le> length buf" for buf B
  proof -
    let ?u = "\<lparr>up_off = 0, up_srcsz = int (length src), up_buffer = buf, up_pos = 0, up_bufsz = int B, up_size = 0\<rparr>"
    have "outs (length buf) B [] ?u" using that by (simp add: outs_def)
    moreover have "int32 (int (length xs)) = int (length xs)" if "res = Some xs" for xs using len[OF that] assms by simp
    ultimately show ?thesis using r[of "length buf" B "[]" ?u] by (auto simp: sproto_unpack_def outs_def split: option.splits if_splits)
  qed
  moreover have "length xs \<le> 2 ^ 30" if "res = Some xs" for xs using len[OF that] assms by simp
  ultimately show ?thesis by blast
qed

text \<open>
  C22. Unpacking is safe on every string of at most 128 MB, packed or not: it comes to an end, reads no byte behind the string but its NUL, writes
  only inside its buffer, and returns only bytes it has written; what it returns does not depend on the buffer it had. The two errors are a stream
  that ends early and an output of more than 8 MB. Beyond that the size of the buffer may overflow and the call not return
  (\<open>expand_never_ends\<close>).
\<close>

theorem sproto_unpack_safe:
  assumes "length src \<le> 2 ^ 27"
  shows "\<exists>res. \<forall>out. buffer_ok out \<longrightarrow>
     (case sproto_lunpack src out of
        None \<Rightarrow> False
      | Some (Inl e) \<Rightarrow> e = Invalid_stream \<and> res = None \<or> e = Too_large \<and> (\<exists>xs. res = Some xs \<and> 8388608 < length xs)
      | Some (Inr (xs, out')) \<Rightarrow> res = Some xs \<and> buffer_ok out')"
proof -
  obtain res where len: "\<And>xs. res = Some xs \<Longrightarrow> length xs \<le> 2 ^ 30" and r: "\<And>buf B. B \<le> length buf \<Longrightarrow>
     (case res of
        None \<Rightarrow> \<exists>buf'. sproto_unpack (src @ [0]) (int (length src)) buf (int B) = Some (-1, buf') \<and> length buf' = length buf
      | Some xs \<Rightarrow> \<exists>buf'. sproto_unpack (src @ [0]) (int (length src)) buf (int B) = Some (int (length xs), buf') \<and> length buf' = length buf \<and>
          (length xs \<le> B \<longrightarrow> take (length xs) buf' = map Some xs))"
    using sproto_unpack_any[OF assms, of 0] by blast
  have sz: "int32 (int (length src)) = int (length src)" using assms by simp
  have "case sproto_lunpack src out of
        None \<Rightarrow> False
      | Some (Inl e) \<Rightarrow> e = Invalid_stream \<and> res = None \<or> e = Too_large \<and> (\<exists>xs. res = Some xs \<and> 8388608 < length xs)
      | Some (Inr (xs, out')) \<Rightarrow> res = Some xs \<and> buffer_ok out'" if o: "buffer_ok out" for out
  proof (cases res)
    case None
    then show ?thesis using r[of "nat (snd out)" "fst out"] o by (auto simp: sproto_lunpack_def sz buffer_ok_def)
  next
    case (Some xs)
    obtain buf where b: "sproto_unpack (src @ [0]) (int (length src)) (fst out) (snd out) = Some (int (length xs), buf)" "length buf = length (fst out)"
        "length xs \<le> nat (snd out) \<Longrightarrow> take (length xs) buf = map Some xs"
      using r[of "nat (snd out)" "fst out"] o Some by (auto simp: buffer_ok_def)
    show ?thesis
    proof (cases "snd out < int (length xs)")
      case False
      then have "push_lstring buf (int (length xs)) = Some xs" using push_lstring_map b o by (simp add: buffer_ok_def)
      then show ?thesis using b(1,2) False o Some by (simp add: sproto_lunpack_def sz buffer_ok_def)
    next
      case True
      have "0 < snd out" "int (length xs) \<le> 2 ^ 30" using o len[OF Some] by (simp_all add: buffer_ok_def)
      then consider (large) "expand_buffer (snd out) (int (length xs)) = Some (Inl Too_large)" "ENCODE_MAXSIZE < 2 * int (length xs)"
        | (more) o1 where "expand_buffer (snd out) (int (length xs)) = Some (Inr o1)" "buffer_ok o1" "length xs \<le> length (fst o1)"
        using expand_buffer_ok[of "snd out" "int (length xs)"] True by (auto simp: buffer_ok_def)
      then show ?thesis
      proof cases
        case large
        then show ?thesis using b(1) True Some by (simp add: sproto_lunpack_def sz ENCODE_MAXSIZE_def)
      next
        case (more o1)
        obtain buf1 where b1: "sproto_unpack (src @ [0]) (int (length src)) (fst o1) (int (length xs)) = Some (int (length xs), buf1)"
            "length buf1 = length (fst o1)" "take (length xs) buf1 = map Some xs"
          using r[OF more(3)] Some by auto
        have "push_lstring buf1 (int (length xs)) = Some xs" using push_lstring_map[OF b1(3)] b1(2) more(3) by simp
        then show ?thesis using b(1) b1(1,2) True more Some by (simp add: sproto_lunpack_def sz buffer_ok_def)
      qed
    qed
  qed
  then show ?thesis by blast
qed

theorem sproto_unpack_safe_witness:
  "\<exists>res. case sproto_lunpack [0x51, 8, 3] (replicate 2050 None, ENCODE_BUFFERSIZE) of
        None \<Rightarrow> False
      | Some (Inl e) \<Rightarrow> e = Invalid_stream \<and> res = None \<or> e = Too_large \<and> (\<exists>xs. res = Some xs \<and> 8388608 < length xs)
      | Some (Inr (xs, out')) \<Rightarrow> res = Some xs \<and> buffer_ok out'"
proof -
  have "buffer_ok (replicate 2050 None, ENCODE_BUFFERSIZE)" "length [0x51 :: u8, 8, 3] \<le> 2 ^ 27"
    by (simp_all add: buffer_ok_def ENCODE_BUFFERSIZE_def)
  then show ?thesis using sproto_unpack_safe[of "[0x51, 8, 3]"] by blast
qed

text \<open>A stream that lacks its last byte is not refused: the NUL of the string is taken for it.\<close>

lemma unpack_accepts_truncated: "sproto_lunpack [1] (replicate 8 None, 8) = Some (Inr (replicate 8 0, map Some (replicate 8 0), 8))"
  by code_simp

end
