(* ===== verification/Logger.thy ===== *)
theory Logger
  imports Cstring
begin

text \<open>
  The logger service (\<open>service-src/service_logger.c\<close>): it writes every message it gets as a line to a file or to the standard output. The files are a
  map from their names to the bytes they hold; which files can be opened is a parameter.
\<close>

datatype log_file = Stdout | Named string

type_synonym files = "log_file \<Rightarrow> string"

text \<open>\<open>close\<close> says that the file is the service's own.\<close>

record logger =
  lg_handle :: "log_file option"
  lg_close :: bool

datatype logger_call = L_callback | L_command string string

definition logger_create :: logger where
  "logger_create = \<lparr>lg_handle = None, lg_close = False\<rparr>"

text \<open>The file that is closed; closing none is an access through NULL.\<close>

definition logger_release :: "logger \<Rightarrow> log_file option option" where
  "logger_release inst = (if lg_close inst then map_option Some (lg_handle inst) else Some None)"

definition logger_cb :: "logger \<Rightarrow> u32 \<Rightarrow> string \<Rightarrow> nat \<Rightarrow> files \<Rightarrow> files option" where
  "logger_cb inst source msg sz fs =
     (case lg_handle inst of
        None \<Rightarrow> None
      | Some f \<Rightarrow> if length msg < sz then None
          else Some (fs(f := fs f @ ''[:'' @ show_08x source @ ''] '' @ take sz msg @ [CHR 0x0A])))"

text \<open>Opening a file for writing empties it.\<close>

definition logger_init :: "(string \<Rightarrow> bool) \<Rightarrow> string option \<Rightarrow> logger \<Rightarrow> files \<Rightarrow> int \<times> logger \<times> files \<times> logger_call list" where
  "logger_init opens parm inst fs =
     (let calls = [L_callback, L_command ''REG'' ''.logger''] in
      case parm of
        Some name \<Rightarrow> if opens name then (0, inst\<lparr>lg_handle := Some (Named name), lg_close := True\<rparr>, fs(Named name := []), calls)
                     else (1, inst\<lparr>lg_handle := None\<rparr>, fs, [])
      | None \<Rightarrow> (0, inst\<lparr>lg_handle := Some Stdout\<rparr>, fs, calls))"

section \<open>What the file holds\<close>

fun logger_run :: "logger \<Rightarrow> (u32 \<times> string) list \<Rightarrow> files \<Rightarrow> files option" where
  "logger_run inst [] fs = Some fs"
| "logger_run inst ((source, msg) # ms) fs = do { fs1 \<leftarrow> logger_cb inst source msg (length msg) fs; logger_run inst ms fs1 }"

definition log_line :: "u32 \<times> string \<Rightarrow> string" where
  "log_line m = ''[:'' @ show_08x (fst m) @ ''] '' @ snd m @ [CHR 0x0A]"

lemma logger_appends:
  "lg_handle inst = Some f \<Longrightarrow> logger_run inst ms fs = Some (fs(f := fs f @ concat (map log_line ms)))"
proof (induction ms arbitrary: fs)
  case (Cons m ms)
  then show ?case by (cases m) (auto simp: logger_cb_def log_line_def fun_upd_def)
qed simp

text \<open>
  A logger that starts on a file that can be opened leaves in it the lines of the messages it got, in order and nothing else, touches no other file,
  and closes it at the end; with no file it appends to the standard output and closes nothing.
\<close>

lemma logger_file:
  assumes "logger_init opens parm logger_create fs = (0, inst, fs1, calls)"
  shows "\<exists>fs2. logger_run inst ms fs1 = Some fs2 \<and>
    (case parm of
       Some name \<Rightarrow> fs2 = fs(Named name := concat (map log_line ms)) \<and> logger_release inst = Some (Some (Named name))
     | None \<Rightarrow> fs2 = fs(Stdout := fs Stdout @ concat (map log_line ms)) \<and> logger_release inst = Some None)"
  using assms logger_appends[of inst _ ms fs1]
  by (auto simp: logger_init_def logger_create_def logger_release_def Let_def split: option.splits if_splits)

end
