(* ===== verification/Spec2Isabelle.thy ===== *)
theory Spec2Isabelle
  imports Mq_Sched Handle Wheel Server_Props Netpack Gate_Deliver Seri_Props Startup Skynet_Socket Crypt_Dh Sha1_Spec Harbor_Inv Sproto_Any Logger
begin

text \<open>
  A model of the C runtime under \<open>src/hh/Lua\<close> (skynet): a node runs many services, each with a
  message queue and a callback; worker threads take queues from a global list and deliver
  messages; a timer thread turns timeouts into messages; a socket thread turns network events into
  messages; a monitor thread looks for workers that are stuck. Services are found by a 32-bit
  handle or by name, are written in C modules loaded at run time, and send each other messages.

  \<^bold>\<open>Conventions.\<close> \<open>Prelude\<close>: a call that does not return (failed assertion, null pointer, access
  outside an array, endless loop) is \<open>None\<close>; error codes are values. Pointers are \<open>nat\<close> addresses into
  maps of the state. Machine integers are words where wrapping matters (handles, sessions,
  clock, sizes with the type in the top byte). An operation that holds a lock is one step.
  What the C library does with strings and numbers is in \<open>Cstring\<close>, integers in memory in \<open>Bytes\<close>.
  Service code, \<open>dlopen\<close>, files and clocks are arguments (record \<open>externals\<close>): a service's callback
  may do anything to the node.

  \<^bold>\<open>Parts.\<close>
  \<^item> Message queues, \<open>skynet-src/skynet_mq.c\<close>: \<open>Mq\<close> (the ring buffer of a service, the global list)
    and \<open>Mq_Sched\<close> (all interleavings of the operations as the step relation \<open>mq_step\<close>). A queue is a FIFO
    through growth and wrap-around; a queue with messages is in the global list or held by a
    worker; no operation fails in a reachable state. \<open>Fifo\<close> is the contract both keep.
  \<^item> Contexts, \<open>skynet_server.c\<close>: \<open>Context\<close> (reference counts, sessions).
  \<^item> Handles and names, \<open>skynet_handle.c\<close>: \<open>Handle\<close> (slots, doubling, sorted names). A new handle differs
    from all in use, lookup of names is the map of the names stored, retiring removes
    exactly one service. \<open>registry\<close> is the contract the rest of the runtime relies on.
  \<^item> Timers, \<open>skynet_timer.c\<close>: \<open>Wheel\<close> (five wheels, cascade, clock wrap). Every timer fires at its tick,
    once, and one tick of the wheel is one tick of a set of (expiry, event) pairs.
  \<^item> The node, \<open>skynet_module.c\<close>, \<open>skynet_env.c\<close>, \<open>skynet_error.c\<close>, \<open>skynet_log.c\<close>, \<open>skynet_monitor.c\<close>,
    \<open>skynet_harbor.c\<close> and the rest of \<open>skynet_server.c\<close>: \<open>Node\<close> and \<open>Server\<close>, with their laws in
    \<open>Server_Spec\<close> (\<open>node_ok\<close>) and \<open>Server_Props\<close>: sending appends to one queue, a worker delivers in
    order, timeouts and messages for other nodes arrive where they should, text commands.
  \<^item> The socket server, \<open>socket_server.c\<close>: \<open>Socket_Server\<close> (slots, reserving and closing, the two lists of unsent
    buffers, sending) and \<open>Socket_Poll\<close> (requests, events, the loop, the calls of other threads). The system is an
    adversary: each of its answers is the next of a list, and the calls that leave a mark are recorded.
    \<open>Socket_Stream\<close> and \<open>Socket_Tcp\<close> follow the bytes of a connection through partial writes; \<open>Socket_Inv\<close>,
    \<open>Socket_Reach\<close> and \<open>Socket_Pipe\<close> carry the invariant of the slots and of the requests through every
    operation, and \<open>Socket_Run\<close> states the machine (\<open>server_step\<close>, \<open>server_reachable\<close>, with the numbers bound by
    \<open>socket_server_bind\<close>). \<open>Socket_Props\<close>: messages arrive whole and in order, unsent data is watched for except on descriptors
    that were bound, the union is read by its tag.
  \<^item> The socket layer, \<open>skynet_socket.c\<close>: \<open>Socket_Events\<close> (every event reaches the owner of the socket) and
    \<open>Skynet_Socket\<close> (the calls of services, and the way from the wire to the queue of a service).
  \<^item> Threads and start, \<open>skynet_start.c\<close>, \<open>skynet_main.c\<close>: \<open>Threads\<close> (program counters, mutex, condition
    variable), \<open>Threads_Props\<close> (a tick wakes a waiting worker; after the flag is set each worker takes at most eight steps),
    \<open>Startup\<close> (options, first services).
  \<^item> Streams: \<open>Framing\<close> states once what it means to cut byte streams into messages, for one stream
    (\<open>framer\<close>) and for many (\<open>framers\<close>). \<open>Netpack\<close> (\<open>lualib-src/lua-netpack.c\<close>), the gate and the harbor fulfil it.
  \<^item> The gate, \<open>service-src/service_gate.c\<close>: \<open>Databuffer\<close> (\<open>databuffer.h\<close>, chain of received blocks and the
    pool of nodes), \<open>Hashid\<close> (\<open>hashid.h\<close>, the table of sockets, contract \<open>slot_table\<close>), \<open>Gate\<close> (commands, socket
    events, start), \<open>Gate_Spec\<close>, \<open>Gate_Props\<close> (only the report of a connection accepted on a socket it does not listen
    on makes it fail, messages are reassembled for every client), \<open>Gate_Deliver\<close> (they reach the queue of the agent).
  \<^item> Serialisation, \<open>lualib-src/lua-seri.c\<close>: \<open>Seri\<close> (blocks, packing, unpacking), \<open>Seri_Spec\<close> (writing appends,
    reading stays inside, contract \<open>value_reader\<close>), \<open>Seri_Props\<close> (round trip through \<open>value_writer\<close>,
    arbitrary streams, cycles, streams that overflow the C stack).
  \<^item> Cryptography, \<open>lualib-src/lua-crypt.c\<close> and \<open>lsha1.c\<close>: \<open>Crypt_Codec\<close> (hexadecimal and base64 text), \<open>Crypt_Hash\<close> (keys, hashes,
    the digest over 64 bits), \<open>Crypt_Dh\<close> (key exchange: both sides compute the same secret), \<open>Crypt_Des\<close> (decryption
    undoes encryption of texts below 2 GB), \<open>Crypt_Sha1\<close> (the code) and \<open>Sha1_Spec\<close> (SHA-1 and HMAC as the standards define them, and that the
    code computes them for texts fed in any pieces shorter than 512 MB).
  \<^item> The harbor service, \<open>service-src/service_harbor.c\<close>: \<open>Harbor\<close> (queues of waiting messages, the table of global names, the reader of each
    connection, commands), \<open>Harbor_Props\<close> (the queues keep the contract of \<open>Fifo\<close> and the readers that of \<open>Framing\<close>; two nodes composed: what
    one sends to existing services, before and after the connection, arrives at the other, in order; messages for names; a node that failed) and \<open>Harbor_Inv\<close>
    (the invariant of the state under every message, and the end of the service).
  \<^item> The packing of sproto, \<open>lualib-src/sproto/sproto.c\<close> and \<open>lsproto.c\<close>: \<open>Sproto_Pack\<close> (packing, unpacking, the buffers of the Lua functions),
    \<open>Sproto_Props\<close> (packing computes \<open>packed_form\<close> within the space allocated for it, unpacking undoes it) and \<open>Sproto_Any\<close> (any stream of at most
    128 MB is safe; where the doubled size of a buffer wraps, the loop does not end).
  \<^item> The logger, \<open>service-src/service_logger.c\<close>: \<open>Logger\<close> (the lines of its file are the messages in order).

  \<^bold>\<open>How they interact.\<close> \<open>skynet_send\<close> finds a context through the handle table and pushes to its queue; a
  push puts an idle queue into the global list; a worker (\<open>thread_worker\<close>) calls
  \<open>skynet_context_message_dispatch\<close>; the timer thread calls \<open>skynet_updatetime\<close>, which pushes timeouts the
  same way; \<open>skynet_socket_poll\<close> pushes socket events, which the gate's callback takes apart and
  forwards with \<open>skynet_send\<close>. \<open>Gate_Deliver\<close>, \<open>Server_Props\<close> and \<open>Threads\<close> compose these parts.

  \<^bold>\<open>Bounds and fuel.\<close> Loops with a bound recurse on it or have a measure. The loops of timer, overload and
  dispatch that have none are \<open>partial_function (option)\<close>, and the lemmas show that they return. The loops of
  deserialisation that have none are bounded by the bytes left, which every turn reduces; its recursion is bounded by
  the depth of the C stack, a parameter: 33 calls are enough for what packing makes, as many as the stream has bytes for any stream,
  and no number for all streams.
  Lengths that the code keeps in an \<open>int\<close> are 32-bit words where the stream gives them, and
  the theorems on serialisation ask that strings and streams are shorter than 2 GB. Counters of messages in queues and of bytes
  in receive buffers are unbounded, where those of the code are \<open>int\<close>s (the theories say so).

  The turns of \<open>socket_server_poll\<close> are without bound; its theorems are about each turn, and \<open>room\<close> keeps the numbers of
  sockets from coming round again.

  \<^bold>\<open>Not modelled.\<close> \<open>malloc_hook.c\<close> and memory exhaustion, the pid file of \<open>skynet_daemon.c\<close>, \<open>service_snlua.c\<close> (a wrapper of
  the Lua interpreter), the schemas, encoding and decoding of \<open>sproto\<close> and the other C libraries of Lua. Lua, jemalloc and the
  Windows libraries elsewhere in the repository are third-party code or other programs.
\<close>

end
